(* ===== verification/Prelude.thy ===== *)
theory Prelude
  imports Main "HOL-Library.Word"
begin

text \<open>
  What every component of the development shares: the faults a C program can run into, the
  error codes of \<^verbatim>\<open>sd.h\<close>, byte strings, the collections of facts the component theories
  feed, and generic lemmas on lists and results.

  A C function that can read or write outside its objects, follow a null pointer or fail to
  return is modelled with result type \<open>'a run\<close>: \<open>Inl f\<close> when that happens, \<open>Inr x\<close> when the
  function returns \<open>x\<close>. Error codes the functions return deliberately are ordinary values.
\<close>

section \<open>Collections of facts\<close>

named_theorems slice_simps \<open>operations of the growable array\<close>
named_theorems fp_simps \<open>floating-point operations on special values\<close>
named_theorems utf_simps \<open>decoding and encoding of UTF-8\<close>
named_theorems lex_simps \<open>steps of the lexer\<close>
named_theorems run_simps \<open>the fault monad\<close>

section \<open>Faults and the fault monad\<close>

datatype fault =
    NullDeref     \<comment> \<open>a null pointer is followed\<close>
  | Indeterminate \<comment> \<open>a byte nobody wrote is read\<close>
  | OutOfBounds   \<comment> \<open>a read or write outside an object\<close>
  | Diverges      \<comment> \<open>the function does not return\<close>
  | OutOfFuel     \<comment> \<open>the bound on the recursion depth of the model was reached\<close>
  | BadConvert    \<comment> \<open>a floating value is converted to an integer type that cannot hold it\<close>
  | Aborts        \<comment> \<open>an assertion fails or the program exits\<close>

type_synonym 'a run = "fault + 'a"

definition rbind :: "'a run \<Rightarrow> ('a \<Rightarrow> 'b run) \<Rightarrow> 'b run" where
  "rbind r f = (case r of Inl e \<Rightarrow> Inl e | Inr x \<Rightarrow> f x)"

lemma rbind_Inl [simp, run_simps]: "rbind (Inl e) f = Inl e"
  by (simp add: rbind_def)

lemma rbind_Inr [simp, run_simps]: "rbind (Inr x) f = f x"
  by (simp add: rbind_def)

lemma rbind_eq_Inr [run_simps]: "rbind r f = Inr y \<longleftrightarrow> (\<exists>x. r = Inr x \<and> f x = Inr y)"
  by (cases r) auto

lemma rbind_eq_Inl [run_simps]:
  "rbind r f = Inl e \<longleftrightarrow> r = Inl e \<or> (\<exists>x. r = Inr x \<and> f x = Inl e)"
  by (cases r) auto

lemma rbind_assoc: "rbind (rbind r f) g = rbind r (\<lambda>x. rbind (f x) g)"
  by (cases r) auto

lemma rbind_cong [fundef_cong]:
  "r = r' \<Longrightarrow> (\<And>x. r' = Inr x \<Longrightarrow> f x = g x) \<Longrightarrow> rbind r f = rbind r' g"
  by (cases r') auto

text \<open>Reads and writes of a C array: an index outside it is a fault.\<close>

definition aread :: "'a list \<Rightarrow> nat \<Rightarrow> 'a run" where
  "aread xs i = (if i < length xs then Inr (xs ! i) else Inl OutOfBounds)"

definition awrite :: "'a list \<Rightarrow> nat \<Rightarrow> 'a \<Rightarrow> 'a list run" where
  "awrite xs i x = (if i < length xs then Inr (xs[i := x]) else Inl OutOfBounds)"

lemma aread_in [simp, run_simps]: "i < length xs \<Longrightarrow> aread xs i = Inr (xs ! i)"
  by (simp add: aread_def)

lemma awrite_in [simp, run_simps]: "i < length xs \<Longrightarrow> awrite xs i x = Inr (xs[i := x])"
  by (simp add: awrite_def)

lemma aread_Inr [run_simps]: "aread xs i = Inr x \<longleftrightarrow> i < length xs \<and> x = xs ! i"
  by (auto simp: aread_def)

lemma awrite_Inr [run_simps]: "awrite xs i x = Inr ys \<longleftrightarrow> i < length xs \<and> ys = xs[i := x]"
  by (auto simp: awrite_def)

section \<open>Error codes of \<^verbatim>\<open>sd.h\<close>\<close>

datatype sd_error =
    SD_ERR_NO_ERROR
  | SD_ERR_NOMEM
  | SD_ERR_BAD_FILE
  | SD_ERR_UNSPECIFIED
  | SD_ERR_BAD_XML
  | SD_ERR_BAD_LEX
  | SD_ERR_EOF
  | SD_ERR_CIRCULAR
  | SD_ERR_MIN

fun sd_error_code :: "sd_error \<Rightarrow> int" where
  "sd_error_code SD_ERR_NO_ERROR = 0"
| "sd_error_code SD_ERR_NOMEM = -1"
| "sd_error_code SD_ERR_BAD_FILE = -2"
| "sd_error_code SD_ERR_UNSPECIFIED = -3"
| "sd_error_code SD_ERR_BAD_XML = -4"
| "sd_error_code SD_ERR_BAD_LEX = -5"
| "sd_error_code SD_ERR_EOF = -6"
| "sd_error_code SD_ERR_CIRCULAR = -7"
| "sd_error_code SD_ERR_MIN = -8"

section \<open>Byte strings\<close>

text \<open>
  A C string is the list of its bytes before the terminating NUL. \<open>byte_at s i\<close> is the byte
  the program reads at offset \<open>i\<close>: the NUL at offset \<open>length s\<close>. (Offsets beyond it are
  outside the string; the functions modelled never reach them, and \<open>byte_at\<close> is 0 there.)
\<close>

type_synonym cstr = "char list"

definition byte_at :: "cstr \<Rightarrow> nat \<Rightarrow> nat" where
  "byte_at s i = (if i < length s then of_char (s ! i) else 0)"

definition cstr_ok :: "cstr \<Rightarrow> bool" where
  "cstr_ok s = list_all (\<lambda>c. c \<noteq> CHR 0x00) s"

lemma byte_at_Cons_0 [simp]: "byte_at (c # s) 0 = of_char c"
  by (simp add: byte_at_def)

lemma byte_at_Cons_Suc [simp]: "byte_at (c # s) (Suc i) = byte_at s i"
  by (simp add: byte_at_def)

lemma byte_at_Cons_numeral [simp]:
  "byte_at (c # s) (numeral n) = byte_at s (pred_numeral n)"
  by (simp add: numeral_eq_Suc)

lemma byte_at_Nil [simp]: "byte_at [] i = 0"
  by (simp add: byte_at_def)

lemma byte_at_append_left: "i < length s \<Longrightarrow> byte_at (s @ t) i = byte_at s i"
  by (simp add: byte_at_def nth_append)

lemma byte_at_less: "byte_at s i < 256"
  by (simp add: byte_at_def)

lemma byte_at_drop: "byte_at (drop k s) i = byte_at s (k + i)"
  by (auto simp: byte_at_def)

lemma cstr_ok_append [simp]: "cstr_ok (s @ t) \<longleftrightarrow> cstr_ok s \<and> cstr_ok t"
  by (simp add: cstr_ok_def)

lemma cstr_ok_Cons [simp]: "cstr_ok (c # s) \<longleftrightarrow> c \<noteq> CHR 0x00 \<and> cstr_ok s"
  by (simp add: cstr_ok_def)

lemma cstr_ok_Nil [simp]: "cstr_ok []"
  by (simp add: cstr_ok_def)

section \<open>Generic lemmas on lists\<close>

lemma nth_take_append: "i < length xs \<Longrightarrow> (xs @ ys) ! i = xs ! i"
  by (simp add: nth_append)

lemma take_Suc_update:
  "n < length xs \<Longrightarrow> take (Suc n) (xs[n := x]) = take n xs @ [x]"
  by (simp add: take_Suc_conv_app_nth)

lemma take_update_above: "n \<le> i \<Longrightarrow> take n (xs[i := x]) = take n xs"
  by simp

end
