(* ===== verification/Slices.thy ===== *)
theory Slices
  imports Prelude
begin

text \<open>
  The growable pointer array \<open>Slice\<close> of \<^verbatim>\<open>util.c\<close>: \<open>slice_make\<close>, \<open>slice_append\<close> and
  \<open>slice_extend\<close>. Every list the library builds (children of an XML node, variables of a
  model, dependencies, run lists) is one of these; the other components use HOL lists for
  them, which the refinement lemmas of this theory justify.

  \<open>elems\<close> is the memory behind the pointer, \<open>cap\<close> cells long (no cells for the null pointer);
  a cell is \<open>None\<close> when it holds the null pointer. The allocator is the argument \<open>alloc\<close>:
  \<open>alloc n\<close> says whether \<open>calloc\<close> or \<open>realloc\<close> delivers \<open>n\<close> cells.
\<close>

section \<open>The data structure and its operations\<close>

record 'a slice =
  elems :: "'a option list"
  len :: nat
  cap :: nat

definition slice_zero :: "'a slice" where
  "slice_zero = \<lparr>elems = [], len = 0, cap = 0\<rparr>"

definition slice_make ::
  "(nat \<Rightarrow> bool) \<Rightarrow> 'a slice option \<Rightarrow> nat \<Rightarrow> nat \<Rightarrow> sd_error \<times> 'a slice option" where
  "slice_make alloc sp n c =
     (case sp of
        None \<Rightarrow> (SD_ERR_UNSPECIFIED, None)
      | Some s \<Rightarrow>
          if c \<noteq> 0 then
            if alloc c
            then (SD_ERR_NO_ERROR, Some \<lparr>elems = replicate c None, len = n, cap = c\<rparr>)
            else (SD_ERR_NOMEM, Some (s\<lparr>elems := []\<rparr>))
          else (SD_ERR_NO_ERROR, Some \<lparr>elems = [], len = n, cap = c\<rparr>))"

text \<open>Room for one more element, as the two growing branches of \<open>slice_append\<close> make it.\<close>

definition slice_grow :: "(nat \<Rightarrow> bool) \<Rightarrow> 'a slice \<Rightarrow> sd_error \<times> 'a slice" where
  "slice_grow alloc s =
     (if cap s = 0 then
        if alloc 2
        then (SD_ERR_NO_ERROR, s\<lparr>elems := replicate 2 None, cap := 2\<rparr>)
        else (SD_ERR_NOMEM, s\<lparr>elems := []\<rparr>)
      else if len s = cap s then
        let new_cap = cap s * 2 in
        if alloc new_cap
        then (SD_ERR_NO_ERROR,
              s\<lparr>elems := elems s @ replicate (new_cap - len s) None, cap := new_cap\<rparr>)
        else (SD_ERR_NOMEM, s\<lparr>elems := [], len := 0, cap := 0\<rparr>)
      else (SD_ERR_NO_ERROR, s))"

definition slice_append ::
  "(nat \<Rightarrow> bool) \<Rightarrow> 'a slice option \<Rightarrow> 'a option \<Rightarrow> (sd_error \<times> 'a slice option) run" where
  "slice_append alloc sp e =
     (case sp of
        None \<Rightarrow> Inr (SD_ERR_UNSPECIFIED, None)
      | Some s \<Rightarrow>
          (case slice_grow alloc s of
             (SD_ERR_NO_ERROR, s') \<Rightarrow>
               rbind (awrite (elems s') (len s') e)
                 (\<lambda>cells. Inr (SD_ERR_NO_ERROR,
                     Some (s'\<lparr>elems := cells, len := len s' + 1\<rparr>)))
           | (err, s') \<Rightarrow> Inr (err, Some s')))"

text \<open>
  The loop of \<open>slice_extend\<close> from index \<open>i\<close>, for two different slices; the result of each
  \<open>slice_append\<close> is dropped, as in the code.
\<close>

function slice_extend_loop ::
  "(nat \<Rightarrow> bool) \<Rightarrow> 'a slice \<Rightarrow> 'a slice \<Rightarrow> nat \<Rightarrow> 'a slice run" where
  "slice_extend_loop alloc s other i =
     (if i < len other then
        rbind (aread (elems other) i) (\<lambda>e.
        rbind (slice_append alloc (Some s) e) (\<lambda>(_, s').
          slice_extend_loop alloc (case s' of None \<Rightarrow> s | Some t \<Rightarrow> t) other (i + 1)))
      else Inr s)"
  by pat_completeness auto
termination
  by (relation "measure (\<lambda>(alloc, s, other, i). len other - i)") auto

declare slice_extend_loop.simps [simp del]

definition slice_extend ::
  "(nat \<Rightarrow> bool) \<Rightarrow> 'a slice option \<Rightarrow> 'a slice option \<Rightarrow> (sd_error \<times> 'a slice option) run" where
  "slice_extend alloc sp op =
     (case (sp, op) of
        (Some s, Some other) \<Rightarrow>
          rbind (slice_extend_loop alloc s other 0) (\<lambda>t. Inr (SD_ERR_NO_ERROR, Some t))
      | _ \<Rightarrow> Inr (SD_ERR_UNSPECIFIED, sp))"

section \<open>Invariant and contents\<close>

definition slice_inv :: "'a slice \<Rightarrow> bool" where
  "slice_inv s \<longleftrightarrow> len s \<le> cap s \<and> length (elems s) = cap s"

definition contents :: "'a slice \<Rightarrow> 'a option list" where
  "contents s = take (len s) (elems s)"

lemma slice_inv_zero [simp, slice_simps]: "slice_inv slice_zero"
  by (simp add: slice_inv_def slice_zero_def)

lemma contents_zero [simp, slice_simps]: "contents slice_zero = []"
  by (simp add: contents_def slice_zero_def)

lemma slice_grow_ok:
  assumes "slice_inv s" "slice_grow alloc s = (SD_ERR_NO_ERROR, s')"
  shows "len s' = len s \<and> len s' < length (elems s') \<and> length (elems s') = cap s'
         \<and> take (len s) (elems s') = take (len s) (elems s)"
  using assms by (auto simp: slice_grow_def slice_inv_def Let_def split: if_splits)

lemma slice_grow_all: "fst (slice_grow (\<lambda>_. True) s) = SD_ERR_NO_ERROR"
  by (simp add: slice_grow_def Let_def)

lemma slice_grow_err:
  "fst (slice_grow alloc s) = SD_ERR_NO_ERROR \<or> fst (slice_grow alloc s) = SD_ERR_NOMEM"
  by (simp add: slice_grow_def Let_def)

lemma slice_grow_fails:
  assumes "slice_inv s" "slice_grow alloc s = (SD_ERR_NOMEM, s')"
  shows "slice_inv s' \<and> contents s' = []"
  using assms by (auto simp: slice_grow_def slice_inv_def contents_def Let_def split: if_splits)

text \<open>What \<open>slice_append\<close> does to a well-formed slice, in one equation per outcome.\<close>

lemma slice_append_cases:
  assumes "slice_inv s"
  obtains (ok) s' where "slice_append alloc (Some s) e = Inr (SD_ERR_NO_ERROR, Some s')"
      and "slice_inv s'" and "contents s' = contents s @ [e]"
    | (nomem) s' where "slice_append alloc (Some s) e = Inr (SD_ERR_NOMEM, Some s')"
      and "slice_inv s'" and "contents s' = []" and "fst (slice_grow alloc s) = SD_ERR_NOMEM"
proof -
  obtain err s1 where g: "slice_grow alloc s = (err, s1)" by fastforce
  consider "err = SD_ERR_NO_ERROR" | "err = SD_ERR_NOMEM"
    using slice_grow_err [of alloc s] g by auto
  then show thesis
  proof cases
    case 1
    note f = slice_grow_ok [OF assms g [unfolded 1]]
    let ?t = "s1\<lparr>elems := (elems s1)[len s1 := e], len := len s1 + 1\<rparr>"
    have "slice_append alloc (Some s) e = Inr (SD_ERR_NO_ERROR, Some ?t)"
      using f g 1 by (simp add: slice_append_def)
    moreover have "slice_inv ?t" using f by (simp add: slice_inv_def)
    moreover have "contents ?t = contents s @ [e]"
      using f by (simp add: contents_def take_Suc_update)
    ultimately show thesis by (rule ok)
  next
    case 2
    from slice_grow_fails [OF assms g [unfolded 2]] g 2 show thesis
      by (intro nomem [of s1]) (auto simp: slice_append_def)
  qed
qed

section \<open>The interface: a store one appends to\<close>

text \<open>
  What the rest of the library relies on: appending keeps the store well formed and adds one
  element at the end. Client facts are proved from these two laws.
\<close>

locale appendable =
  fixes inv :: "'s \<Rightarrow> bool"
    and view :: "'s \<Rightarrow> 'e list"
    and app :: "'e \<Rightarrow> 's \<Rightarrow> 's"
  assumes app_inv: "inv s \<Longrightarrow> inv (app e s)"
    and app_view: "inv s \<Longrightarrow> view (app e s) = view s @ [e]"
begin

lemma fold_app_inv: "inv s \<Longrightarrow> inv (fold app es s)"
  by (induction es arbitrary: s) (auto simp: app_inv)

lemma fold_app_view: "inv s \<Longrightarrow> view (fold app es s) = view s @ es"
  by (induction es arbitrary: s) (auto simp: app_inv app_view)

lemma fold_app_length: "inv s \<Longrightarrow> length (view (fold app es s)) = length (view s) + length es"
  by (simp add: fold_app_view)

end

text \<open>The slice after a \<open>slice_append\<close> whose allocations succeed.\<close>

definition push :: "'a option \<Rightarrow> 'a slice \<Rightarrow> 'a slice" where
  "push e s =
     (case slice_append (\<lambda>_. True) (Some s) e of Inr (_, Some s') \<Rightarrow> s' | _ \<Rightarrow> s)"

lemma push_append:
  assumes "slice_inv s"
  shows "slice_append (\<lambda>_. True) (Some s) e = Inr (SD_ERR_NO_ERROR, Some (push e s))"
    and "slice_inv (push e s)" and "contents (push e s) = contents s @ [e]"
proof -
  from slice_append_cases [OF assms, of "\<lambda>_. True" e]
  have "slice_append (\<lambda>_. True) (Some s) e = Inr (SD_ERR_NO_ERROR, Some (push e s))
        \<and> slice_inv (push e s) \<and> contents (push e s) = contents s @ [e]"
    by cases (simp_all add: push_def slice_grow_all)
  then show "slice_append (\<lambda>_. True) (Some s) e = Inr (SD_ERR_NO_ERROR, Some (push e s))"
    and "slice_inv (push e s)" and "contents (push e s) = contents s @ [e]" by auto
qed

interpretation sl: appendable slice_inv contents push
  by unfold_locales (auto simp: push_append)

lemma slice_extend_loop_push:
  assumes "slice_inv s" "slice_inv other"
  shows "slice_extend_loop (\<lambda>_. True) s other i
         = Inr (fold push (drop i (contents other)) s)"
  using assms
proof (induction "len other - i" arbitrary: i s)
  case 0
  then show ?case by (simp add: slice_extend_loop.simps [of _ s] contents_def)
next
  case (Suc k)
  then have i: "i < len other" and il: "i < length (elems other)"
    by (auto simp: slice_inv_def)
  let ?e = "elems other ! i"
  have d: "drop i (contents other) = ?e # drop (Suc i) (contents other)"
  proof -
    have "i < length (contents other)"
      using i Suc.prems by (simp add: contents_def slice_inv_def)
    then have "drop i (contents other) = contents other ! i # drop (Suc i) (contents other)"
      by (rule Cons_nth_drop_Suc [symmetric])
    then show ?thesis using i by (simp add: contents_def)
  qed
  have "slice_extend_loop (\<lambda>_. True) (push ?e s) other (i + 1)
        = Inr (fold push (drop (i + 1) (contents other)) (push ?e s))"
    using Suc by (intro Suc.hyps) (auto simp: push_append)
  then show ?case
    using i il d Suc.prems(1)
    by (simp add: slice_extend_loop.simps [of _ s] push_append)
qed

section \<open>Properties\<close>

text \<open>
  Appending to a well-formed slice never touches memory outside it, and either succeeds
  (the new element stands at the end and everything before it is unchanged) or reports
  out-of-memory and leaves a well-formed slice whose contents are gone.
\<close>

theorem slice_append_refines:
  assumes "slice_inv s"
  shows "\<exists>err s'. slice_append alloc (Some s) e = Inr (err, Some s') \<and> slice_inv s' \<and>
           (err = SD_ERR_NO_ERROR \<and> contents s' = contents s @ [e]
            \<or> err = SD_ERR_NOMEM \<and> contents s' = [])"
  using slice_append_cases [OF assms, of alloc e] by cases blast+

theorem slice_append_refines_witness:
  "\<exists>err s'. slice_append (\<lambda>n. n \<le> 2) (Some \<lparr>elems = [Some 1, Some (2::nat)], len = 2, cap = 2\<rparr>)
       (Some 3) = Inr (err, Some s') \<and> slice_inv s' \<and>
       (err = SD_ERR_NO_ERROR
          \<and> contents s' = contents \<lparr>elems = [Some 1, Some (2::nat)], len = 2, cap = 2\<rparr> @ [Some 3]
        \<or> err = SD_ERR_NOMEM \<and> contents s' = [])"
  by (rule slice_append_refines) (simp add: slice_inv_def)

text \<open>
  When memory suffices, extending one well-formed slice by another succeeds and the
  contents of the result are the concatenation.
\<close>

theorem slice_extend_refines:
  assumes "slice_inv s" "slice_inv other"
  shows "\<exists>s'. slice_extend (\<lambda>_. True) (Some s) (Some other) = Inr (SD_ERR_NO_ERROR, Some s')
           \<and> slice_inv s' \<and> contents s' = contents s @ contents other"
  using assms
  by (simp add: slice_extend_def slice_extend_loop_push sl.fold_app_inv sl.fold_app_view)

theorem slice_extend_refines_witness:
  "\<exists>s'. slice_extend (\<lambda>_. True) (Some slice_zero)
          (Some \<lparr>elems = [Some (2::nat), Some 3], len = 2, cap = 2\<rparr>) = Inr (SD_ERR_NO_ERROR, Some s')
        \<and> slice_inv s' \<and> contents s' = contents slice_zero
             @ contents \<lparr>elems = [Some (2::nat), Some 3], len = 2, cap = 2\<rparr>"
  by (rule slice_extend_refines) (simp_all add: slice_inv_def slice_zero_def)

end
