(* ===== verification/Utf.thy ===== *)
theory Utf
  imports Prelude
begin

text \<open>
  UTF-8 coding of runes, \<^verbatim>\<open>libutf/rune.c\<close>: \<open>chartorune\<close>, \<open>runetochar\<close>, \<open>runelen\<close>,
  \<open>runenlen\<close>, \<open>fullrune\<close>, and the macro \<open>charntorune\<close> of \<^verbatim>\<open>sd_internal.h\<close> every scanning
  loop of the library uses. A string is the bytes before its NUL; the decoder reads the NUL
  when it looks past the last byte. The \<open>int\<close> and \<open>long\<close> variables of the decoder hold values
  below \<open>2^27\<close>, so they are natural numbers here; runes are 32-bit words.
\<close>

unbundle bit_operations_syntax

type_synonym rune = "32 word"

section \<open>Constants of the coding\<close>

abbreviation Tx :: nat where "Tx \<equiv> 0x80"
abbreviation T2 :: nat where "T2 \<equiv> 0xC0"
abbreviation T3 :: nat where "T3 \<equiv> 0xE0"
abbreviation T4 :: nat where "T4 \<equiv> 0xF0"
abbreviation T5 :: nat where "T5 \<equiv> 0xF8"
abbreviation Rune1 :: nat where "Rune1 \<equiv> 0x7F"
abbreviation Rune2 :: nat where "Rune2 \<equiv> 0x7FF"
abbreviation Rune3 :: nat where "Rune3 \<equiv> 0xFFFF"
abbreviation Rune4 :: nat where "Rune4 \<equiv> 0x1FFFFF"
abbreviation Maskx :: nat where "Maskx \<equiv> 0x3F"
abbreviation Testx :: nat where "Testx \<equiv> 0xC0"
abbreviation Runeerror :: nat where "Runeerror \<equiv> 0xFFFD"
abbreviation Runemax :: nat where "Runemax \<equiv> 0x10FFFF"

section \<open>Decoding\<close>

definition bad_rune :: "rune \<times> nat" where
  "bad_rune = (of_nat Runeerror, 1)"

definition decode2 :: "nat \<Rightarrow> nat \<Rightarrow> nat" where
  "decode2 c c1 = (push_bit 6 c OR c1) AND Rune2"

definition decode3 :: "nat \<Rightarrow> nat \<Rightarrow> nat \<Rightarrow> nat" where
  "decode3 c c1 c2 = (push_bit 6 (push_bit 6 c OR c1) OR c2) AND Rune3"

definition decode4 :: "nat \<Rightarrow> nat \<Rightarrow> nat \<Rightarrow> nat \<Rightarrow> nat" where
  "decode4 c c1 c2 c3 = (push_bit 6 (push_bit 6 (push_bit 6 c OR c1) OR c2) OR c3) AND Rune4"

text \<open>The four length cases of \<open>chartorune\<close>, in the order the code tries them.\<close>

definition chartorune4 :: "nat \<Rightarrow> nat \<Rightarrow> nat \<Rightarrow> nat \<Rightarrow> rune \<times> nat" where
  "chartorune4 c c1 c2 c3 =
     (if c3 AND Testx \<noteq> 0 then bad_rune
      else if c < T5 then
        if decode4 c c1 c2 c3 \<le> Rune3 then bad_rune
        else if Runemax < decode4 c c1 c2 c3 then bad_rune
        else (of_nat (decode4 c c1 c2 c3), 4)
      else bad_rune)"

definition chartorune3 :: "nat \<Rightarrow> nat \<Rightarrow> nat \<Rightarrow> cstr \<Rightarrow> rune \<times> nat" where
  "chartorune3 c c1 c2 s =
     (if c2 AND Testx \<noteq> 0 then bad_rune
      else if c < T4 then
        if decode3 c c1 c2 \<le> Rune2 then bad_rune else (of_nat (decode3 c c1 c2), 3)
      else chartorune4 c c1 c2 (byte_at s 3 XOR Tx))"

definition chartorune2 :: "nat \<Rightarrow> nat \<Rightarrow> cstr \<Rightarrow> rune \<times> nat" where
  "chartorune2 c c1 s =
     (if c1 AND Testx \<noteq> 0 then bad_rune
      else if c < T3 then
        if c < T2 then bad_rune
        else if decode2 c c1 \<le> Rune1 then bad_rune else (of_nat (decode2 c c1), 2)
      else chartorune3 c c1 (byte_at s 2 XOR Tx) s)"

definition chartorune :: "cstr \<Rightarrow> rune \<times> nat" where
  "chartorune s =
     (if byte_at s 0 < Tx then (of_nat (byte_at s 0), 1)
      else chartorune2 (byte_at s 0) (byte_at s 1 XOR Tx) s)"

text \<open>Whether the first \<open>n\<close> bytes hold a whole rune.\<close>

definition fullrune :: "cstr \<Rightarrow> int \<Rightarrow> bool" where
  "fullrune s n =
     (if n \<le> 0 then False
      else if byte_at s 0 < Tx then True
      else if byte_at s 0 < T3 then 2 \<le> n
      else if byte_at s 0 < T4 then 3 \<le> n
      else 4 \<le> n)"

text \<open>\<open>charntorune\<close>: the rune at the front of \<open>s\<close> within \<open>n\<close> bytes, and its length; 0 if none.\<close>

definition charntorune :: "cstr \<Rightarrow> int \<Rightarrow> (rune \<times> nat) option" where
  "charntorune s n = (if fullrune s n then Some (chartorune s) else None)"

section \<open>Encoding\<close>

definition encode :: "nat \<Rightarrow> cstr" where
  "encode c =
     (if c \<le> Rune1 then [char_of c]
      else if c \<le> Rune2 then
        [char_of (T2 OR drop_bit 6 c), char_of (Tx OR (c AND Maskx))]
      else if c \<le> Rune3 then
        [char_of (T3 OR drop_bit 12 c), char_of (Tx OR (drop_bit 6 c AND Maskx)),
         char_of (Tx OR (c AND Maskx))]
      else
        [char_of (T4 OR drop_bit 18 c), char_of (Tx OR (drop_bit 12 c AND Maskx)),
         char_of (Tx OR (drop_bit 6 c AND Maskx)), char_of (Tx OR (c AND Maskx))])"

definition runetochar :: "rune \<Rightarrow> cstr" where
  "runetochar r = encode (if Runemax < unat r then Runeerror else unat r)"

definition runelen :: "rune \<Rightarrow> nat" where
  "runelen r = length (runetochar r)"

fun runenlen :: "rune list \<Rightarrow> nat" where
  "runenlen [] = 0"
| "runenlen (r # rs) =
     (if unat r \<le> Rune1 then 1
      else if unat r \<le> Rune2 then 2
      else if unat r \<le> Rune3 \<or> Runemax < unat r then 3
      else 4) + runenlen rs"

section \<open>The coding in arithmetic\<close>

lemma and_low: "x AND (2 ^ k - 1) = x mod 2 ^ k" for x :: nat
  by (simp add: take_bit_eq_mod [symmetric] take_bit_eq_mask mask_eq_exp_minus_1)

lemma and_Maskx: "x AND Maskx = x mod 64" for x :: nat
  using and_low [of x 6] by simp

lemma and_Rune2: "x AND Rune2 = x mod 2048" for x :: nat
  using and_low [of x 11] by simp

lemma and_Rune3: "x AND Rune3 = x mod 65536" for x :: nat
  using and_low [of x 16] by simp

lemma and_Rune4: "x AND Rune4 = x mod 2097152" for x :: nat
  using and_low [of x 21] by simp

lemma or_shift: "y < 2 ^ k \<Longrightarrow> push_bit k x OR y = x * 2 ^ k + y" for x y :: nat
proof -
  assume "y < 2 ^ k"
  then have y: "take_bit k y = y" "drop_bit k y = 0"
    by (simp_all add: take_bit_nat_eq_self drop_bit_eq_div)
  let ?z = "push_bit k x OR y"
  have "push_bit k (drop_bit k ?z) + take_bit k ?z = ?z" by (rule bits_ident)
  then show ?thesis
    by (simp add: y take_bit_or drop_bit_or take_bit_push_bit)
      (simp add: push_bit_eq_mult drop_bit_eq_div)
qed

lemma or_shift6: "y < 64 \<Longrightarrow> push_bit 6 x OR y = x * 64 + y" for x y :: nat
  using or_shift [of y 6 x] by simp

text \<open>A continuation byte, and the test the decoder makes for one, over all bytes.\<close>

definition is_cont :: "nat \<Rightarrow> bool" where
  "is_cont b \<longleftrightarrow> 128 \<le> b \<and> b < 192"

lemma byte_xor_list:
  "list_all (\<lambda>b. (((b XOR Tx) AND Testx) = 0) = (128 \<le> b \<and> b < 192)
      \<and> (128 \<le> b \<and> b < 192 \<longrightarrow> b XOR Tx = b - 128)) (0 # 1 # [2..<256])"
  by (simp add: upt_rec_numeral del: upt_Suc) (simp flip: numeral_3_eq_3)

lemma byte_xor:
  assumes "b < 256"
  shows "((b XOR Tx) AND Testx = 0) \<longleftrightarrow> is_cont b"
    and "is_cont b \<Longrightarrow> b XOR Tx = b - 128"
proof -
  have "b = 0 \<or> b = 1 \<or> b \<in> {2..<256}"
    unfolding atLeastLessThan_iff using assms by linarith
  then have "b \<in> set (0 # 1 # [2..<256])"
    by (simp only: list.set set_upt insert_iff)
  with byte_xor_list show "((b XOR Tx) AND Testx = 0) \<longleftrightarrow> is_cont b"
    and "is_cont b \<Longrightarrow> b XOR Tx = b - 128"
    unfolding list_all_iff is_cont_def by blast+
qed

lemma decode_arith:
  "c1 < 64 \<Longrightarrow> decode2 c c1 = (c * 64 + c1) mod 2048"
  "c1 < 64 \<Longrightarrow> c2 < 64 \<Longrightarrow> decode3 c c1 c2 = ((c * 64 + c1) * 64 + c2) mod 65536"
  "c1 < 64 \<Longrightarrow> c2 < 64 \<Longrightarrow> c3 < 64 \<Longrightarrow>
     decode4 c c1 c2 c3 = (((c * 64 + c1) * 64 + c2) * 64 + c3) mod 2097152"
  unfolding decode2_def decode3_def decode4_def
  by (simp_all only: or_shift6 and_Rune2 and_Rune3 and_Rune4)

lemma lead_or:
  "q < 64 \<Longrightarrow> Tx OR q = 128 + q" "q < 32 \<Longrightarrow> T2 OR q = 192 + q"
  "q < 16 \<Longrightarrow> T3 OR q = 224 + q" "q < 8 \<Longrightarrow> T4 OR q = 240 + q"
  using or_shift [of q 7 1] or_shift [of q 6 3] or_shift [of q 5 7] or_shift [of q 4 15]
  by (simp_all add: push_bit_eq_mult)

lemma cont_test: "((byte_at s i XOR Tx) AND Testx = 0) = is_cont (byte_at s i)"
  by (rule byte_xor(1) [OF byte_at_less])

lemma cont_val: "is_cont (byte_at s i) \<Longrightarrow> byte_at s i XOR Tx = byte_at s i - 128"
  by (rule byte_xor(2) [OF byte_at_less])

lemma cont_less: "is_cont b \<Longrightarrow> b - 128 < 64"
  by (auto simp: is_cont_def)

lemma chartorune_arith:
  "chartorune s =
    (let c = byte_at s 0; b1 = byte_at s 1; b2 = byte_at s 2; b3 = byte_at s 3;
         l2 = (c * 64 + (b1 - 128)) mod 2048;
         l3 = ((c * 64 + (b1 - 128)) * 64 + (b2 - 128)) mod 65536;
         l4 = (((c * 64 + (b1 - 128)) * 64 + (b2 - 128)) * 64 + (b3 - 128)) mod 2097152
     in if c < 128 then (of_nat c, 1)
        else if \<not> is_cont b1 then bad_rune
        else if c < 224 then (if c < 192 \<or> l2 < 128 then bad_rune else (of_nat l2, 2))
        else if \<not> is_cont b2 then bad_rune
        else if c < 240 then (if l3 < 2048 then bad_rune else (of_nat l3, 3))
        else if \<not> is_cont b3 then bad_rune
        else if c < 248 \<and> 65536 \<le> l4 \<and> l4 \<le> Runemax then (of_nat l4, 4) else bad_rune)"
  unfolding chartorune_def chartorune2_def chartorune3_def chartorune4_def Let_def cont_test
  by (auto simp: cont_val cont_less decode_arith)

lemma encode_arith:
  "encode c =
     (if c < 128 then [char_of c]
      else if c < 2048 then [char_of (192 + c div 64), char_of (128 + c mod 64)]
      else if c < 65536 then
        [char_of (224 + c div 4096), char_of (128 + c div 64 mod 64), char_of (128 + c mod 64)]
      else
        [char_of (T4 OR c div 262144), char_of (128 + c div 4096 mod 64),
         char_of (128 + c div 64 mod 64), char_of (128 + c mod 64)])"
  by (simp add: encode_def and_Maskx lead_or drop_bit_eq_div less_mult_imp_div_less)

lemma of_char_byte [simp]: "n < 256 \<Longrightarrow> of_char (char_of n :: char) = (n :: nat)"
  by (simp add: of_char_of)

section \<open>Lengths\<close>

lemma length_encode:
  "length (encode c) = (if c < 128 then 1 else if c < 2048 then 2 else if c < 65536 then 3 else 4)"
  by (simp add: encode_def)

lemma runelen_cases:
  "runelen r = (if unat r < 128 then 1 else if unat r < 2048 then 2
                else if unat r < 65536 \<or> Runemax < unat r then 3 else 4)"
  by (auto simp: runelen_def runetochar_def length_encode)

lemma runelen_pos: "0 < runelen r"
  by (simp add: runelen_cases)

lemma runelen_le: "runelen r \<le> 4"
  by (simp add: runelen_cases)

lemma runenlen_sum: "runenlen rs = sum_list (map runelen rs)"
  by (induction rs) (auto simp: runelen_cases)

lemma chartorune_len: "1 \<le> snd (chartorune s) \<and> snd (chartorune s) \<le> 4"
  by (simp add: chartorune_arith bad_rune_def Let_def)

lemma cont_inside: "is_cont (byte_at s i) \<Longrightarrow> i < length s"
  by (auto simp: is_cont_def byte_at_def split: if_splits)

text \<open>The decoder never claims bytes beyond the end of the string.\<close>

lemma chartorune_conts:
  assumes "0 < i" "i < snd (chartorune s)"
  shows "is_cont (byte_at s i)"
proof -
  have "i = 1 \<or> i = 2 \<or> i = 3" using assms chartorune_len [of s] by linarith
  with assms(2) show ?thesis
    by (auto simp: chartorune_def chartorune2_def chartorune3_def chartorune4_def
        bad_rune_def cont_test split: if_splits)
qed

lemma chartorune_inside: "s \<noteq> [] \<Longrightarrow> snd (chartorune s) \<le> length s"
  using chartorune_conts [of "snd (chartorune s) - 1" s] cont_inside
    chartorune_len [of s] by (cases "snd (chartorune s) = 1") (force simp: Suc_le_eq)+

section \<open>Decoding inverts encoding\<close>

lemma split64: "c div 64 * 64 + c mod 64 = c" for c :: nat
  by (rule div_mult_mod_eq)

lemma div_chain: "c div 64 div 64 = c div 4096" "c div 4096 div 64 = c div 262144" for c :: nat
  by (simp_all add: div_mult2_eq [symmetric])

lemma join3: "(c div 4096 * 64 + c div 64 mod 64) * 64 + c mod 64 = c" for c :: nat
proof -
  have "c div 4096 * 64 + c div 64 mod 64 = c div 64"
    using split64 [of "c div 64"] by (simp add: div_chain)
  then show ?thesis using split64 [of c] by simp
qed

lemma join4:
  "((c div 262144 * 64 + c div 4096 mod 64) * 64 + c div 64 mod 64) * 64 + c mod 64 = c"
  for c :: nat
proof -
  have "c div 262144 * 64 + c div 4096 mod 64 = c div 4096"
    using split64 [of "c div 4096"] by (simp add: div_chain)
  then show ?thesis using join3 [of c] by simp
qed

lemma drop_multiple: "x < m \<Longrightarrow> n = k * m \<Longrightarrow> (n + x) mod m = x" for x m n k :: nat
  by simp

lemma low64: "w < 64 \<Longrightarrow> (x * 64 + w) div 64 = x" "w < 64 \<Longrightarrow> (x * 64 + w) mod 64 = w"
  for x w :: nat
  by simp_all

lemma chartorune_three:
  assumes "224 \<le> byte_at s 0" "byte_at s 0 < 240" "is_cont (byte_at s 1)" "is_cont (byte_at s 2)"
    and "((byte_at s 0 * 64 + (byte_at s 1 - 128)) * 64 + (byte_at s 2 - 128)) mod 65536 = l"
    and "2048 \<le> l"
  shows "chartorune s = (of_nat l, 3)"
  using assms(1-4,6) unfolding chartorune_arith Let_def assms(5) by auto

lemma chartorune_four:
  assumes "240 \<le> byte_at s 0" "byte_at s 0 < 248" "is_cont (byte_at s 1)"
      "is_cont (byte_at s 2)" "is_cont (byte_at s 3)"
    and "(((byte_at s 0 * 64 + (byte_at s 1 - 128)) * 64 + (byte_at s 2 - 128)) * 64
           + (byte_at s 3 - 128)) mod 2097152 = l"
    and "65536 \<le> l" "l \<le> Runemax"
  shows "chartorune s = (of_nat l, 4)"
  using assms(1-5,7,8) unfolding chartorune_arith Let_def assms(6) by auto

lemma shift3: "(x * 64 + y) * 64 + z = c \<Longrightarrow> ((224 + x) * 64 + y) * 64 + z = 917504 + c"
  for x y z c :: nat
  by simp

lemma shift4:
  "((x * 64 + v) * 64 + y) * 64 + z = c \<Longrightarrow> (((240 + x) * 64 + v) * 64 + y) * 64 + z = 62914560 + c"
  for x v y z c :: nat
  by simp

lemma cont_byte: "x < 64 \<Longrightarrow> is_cont (128 + x)"
  by (simp add: is_cont_def)

lemma chartorune_encode:
  assumes "c \<le> Runemax"
  shows "chartorune (encode c @ rest) = (of_nat c, length (encode c))"
proof -
  consider "c < 128" | "128 \<le> c" "c < 2048" | "2048 \<le> c" "c < 65536" | "65536 \<le> c"
    by linarith
  then show ?thesis
  proof cases
    case 1
    then show ?thesis by (simp add: chartorune_arith encode_arith Let_def)
  next
    case 2
    then have lead: "c div 64 < 32" "2 \<le> c div 64" by simp_all
    then have "((192 + c div 64) * 64 + c mod 64) mod 2048 = c"
      using split64 [of c] 2 by (simp add: mod_if)
    with 2 lead show ?thesis
      by (simp add: chartorune_arith encode_arith Let_def cont_byte)
  next
    case 3
    then have lead: "c div 4096 < 16" by simp
    have e: "((224 + c div 4096) * 64 + c div 64 mod 64) * 64 + c mod 64 = 917504 + c"
      by (rule shift3 [OF join3])
    have m: "(917504 + c) mod 65536 = c"
      using 3 by (intro drop_multiple [where k = 14]) simp_all
    have b: "byte_at (encode c @ rest) 0 = 224 + c div 4096"
      "byte_at (encode c @ rest) 1 = 128 + c div 64 mod 64"
      "byte_at (encode c @ rest) 2 = 128 + c mod 64"
      using 3 lead by (simp_all add: encode_arith)
    have "chartorune (encode c @ rest) = (of_nat c, 3)"
      by (rule chartorune_three, unfold b add_diff_cancel_left' e m)
        (use 3 lead in \<open>simp_all add: cont_byte\<close>)
    with 3 show ?thesis by (simp add: length_encode)
  next
    case 4
    then have lead: "c div 262144 < 8" using assms by simp
    have e: "(((240 + c div 262144) * 64 + c div 4096 mod 64) * 64 + c div 64 mod 64) * 64
          + c mod 64 = 62914560 + c"
      by (rule shift4 [OF join4])
    have m: "(62914560 + c) mod 2097152 = c"
      using assms by (intro drop_multiple [where k = 30]) simp_all
    have b: "byte_at (encode c @ rest) 0 = 240 + c div 262144"
      "byte_at (encode c @ rest) 1 = 128 + c div 4096 mod 64"
      "byte_at (encode c @ rest) 2 = 128 + c div 64 mod 64"
      "byte_at (encode c @ rest) 3 = 128 + c mod 64"
      using 4 lead by (simp_all add: encode_arith lead_or)
    have "chartorune (encode c @ rest) = (of_nat c, 4)"
      by (rule chartorune_four, unfold b add_diff_cancel_left' e m)
        (use 4 lead assms in \<open>simp_all add: cont_byte\<close>)
    with 4 show ?thesis by (simp add: length_encode)
  qed
qed

lemma of_nat_unat_le: "unat r \<le> n \<Longrightarrow> of_nat (unat r) = (r :: rune)"
  by simp

lemma unat_rune: "c \<le> Runemax \<Longrightarrow> unat (of_nat c :: rune) = c"
  by (simp add: unat_of_nat)

text \<open>Whatever is decoded without error was encoded in its shortest form.\<close>

lemma take_bytes:
  "i \<le> length s \<Longrightarrow> take i s = map (\<lambda>j. char_of (byte_at s j)) [0..<i]"
  by (rule nth_equalityI) (simp_all add: byte_at_def)

lemma take_few:
  "1 \<le> length s \<Longrightarrow> take 1 s = [char_of (byte_at s 0)]"
  "2 \<le> length s \<Longrightarrow> take 2 s = [char_of (byte_at s 0), char_of (byte_at s 1)]"
  "3 \<le> length s \<Longrightarrow> take 3 s = [char_of (byte_at s 0), char_of (byte_at s 1), char_of (byte_at s 2)]"
  "4 \<le> length s \<Longrightarrow> take 4 s = [char_of (byte_at s 0), char_of (byte_at s 1),
     char_of (byte_at s 2), char_of (byte_at s 3)]"
  by (simp_all add: take_bytes eval_nat_numeral)

lemma mod_rune: "x mod 2048 \<le> Runemax" "x mod 65536 \<le> Runemax"
  using mod_less_divisor [of 2048 x] mod_less_divisor [of 65536 x] by linarith+

lemma cont_obtain:
  assumes "is_cont b"
  obtains w where "b = 128 + w" "w < 64"
  using assms by (intro that [of "b - 128"]) (auto simp: is_cont_def)

lemma decode_two:
  assumes "192 \<le> c" "c < 224" "is_cont b"
    and l: "l = (c * 64 + (b - 128)) mod 2048" "128 \<le> l"
  shows "encode l = [char_of c, char_of b]"
proof -
  obtain q where q: "c = 192 + q" "q < 32"
    using assms(1,2) by (intro that [of "c - 192"]) auto
  obtain w where w: "b = 128 + w" "w < 64" using assms(3) by (rule cont_obtain)
  have e: "c * 64 + (b - 128) = 12288 + (q * 64 + w)" using q w by simp
  have "l = q * 64 + w"
    unfolding l(1) e using q w by (intro drop_multiple [where k = 6]) simp_all
  then show ?thesis using q w l(2) by (simp add: encode_arith)
qed

lemma decode_three:
  assumes "224 \<le> c" "c < 240" "is_cont b1" "is_cont b2"
    and l: "l = ((c * 64 + (b1 - 128)) * 64 + (b2 - 128)) mod 65536" "2048 \<le> l"
  shows "encode l = [char_of c, char_of b1, char_of b2]"
proof -
  obtain q where q: "c = 224 + q" "q < 16"
    using assms(1,2) by (intro that [of "c - 224"]) auto
  obtain v where v: "b1 = 128 + v" "v < 64" using assms(3) by (rule cont_obtain)
  obtain w where w: "b2 = 128 + w" "w < 64" using assms(4) by (rule cont_obtain)
  have e: "(c * 64 + (b1 - 128)) * 64 + (b2 - 128) = 917504 + ((q * 64 + v) * 64 + w)"
    using q v w by simp
  have L: "l = (q * 64 + v) * 64 + w"
    unfolding l(1) e using q v w by (intro drop_multiple [where k = 14]) simp_all
  moreover have "l div 64 = q * 64 + v" "l mod 64 = w"
    unfolding L using w(2) by (simp_all only: low64)
  moreover have "l div 4096 = q" using L v w by simp
  ultimately show ?thesis using q v w l(2) by (simp add: encode_arith)
qed

lemma decode_four:
  assumes "240 \<le> c" "c < 248" "is_cont b1" "is_cont b2" "is_cont b3"
    and l: "l = (((c * 64 + (b1 - 128)) * 64 + (b2 - 128)) * 64 + (b3 - 128)) mod 2097152"
      "65536 \<le> l"
  shows "encode l = [char_of c, char_of b1, char_of b2, char_of b3]"
proof -
  obtain q where q: "c = 240 + q" "q < 8"
    using assms(1,2) by (intro that [of "c - 240"]) auto
  obtain u where u: "b1 = 128 + u" "u < 64" using assms(3) by (rule cont_obtain)
  obtain v where v: "b2 = 128 + v" "v < 64" using assms(4) by (rule cont_obtain)
  obtain w where w: "b3 = 128 + w" "w < 64" using assms(5) by (rule cont_obtain)
  have e: "((c * 64 + (b1 - 128)) * 64 + (b2 - 128)) * 64 + (b3 - 128)
      = 62914560 + (((q * 64 + u) * 64 + v) * 64 + w)"
    using q u v w by simp
  have L: "l = ((q * 64 + u) * 64 + v) * 64 + w"
    unfolding l(1) e using q u v w by (intro drop_multiple [where k = 30]) simp_all
  moreover have "l div 64 = (q * 64 + u) * 64 + v" "l mod 64 = w"
    unfolding L using w(2) by (simp_all only: low64)
  moreover have "l div 4096 = q * 64 + u" using L v w by simp
  moreover have "l div 262144 = q" using L u v w by simp
  moreover have "((q * 64 + u) * 64 + v) mod 64 = v" "(q * 64 + u) mod 64 = u"
    using u v by (simp_all only: low64)
  ultimately have "encode l = [char_of (240 + q), char_of (128 + u), char_of (128 + v), char_of (128 + w)]"
    using q l(2) by (simp only: encode_arith lead_or) simp
  then show ?thesis using q u v w by simp
qed

lemma chartorune_shortest:
  assumes "s \<noteq> []" "chartorune s = (r, n)" "(r, n) \<noteq> bad_rune"
  shows "take n s = runetochar r"
proof -
  let ?c = "byte_at s 0"
  have n: "n \<le> length s" using chartorune_inside [OF assms(1)] assms(2) by simp
  have c: "?c < 256" by (rule byte_at_less)
  have "take n s = encode (unat r) \<and> unat r \<le> Runemax"
  proof -
    define l2 where "l2 = (?c * 64 + (byte_at s 1 - 128)) mod 2048"
    define l3 where
      "l3 = ((?c * 64 + (byte_at s 1 - 128)) * 64 + (byte_at s 2 - 128)) mod 65536"
    define l4 where
      "l4 = (((?c * 64 + (byte_at s 1 - 128)) * 64 + (byte_at s 2 - 128)) * 64
               + (byte_at s 3 - 128)) mod 2097152"
    note ls = l2_def [symmetric] l3_def [symmetric] l4_def [symmetric]
    consider (one) "?c < 128" "r = of_nat ?c" "n = 1"
      | (two) "192 \<le> ?c" "?c < 224" "is_cont (byte_at s 1)" "n = 2" "128 \<le> l2" "r = of_nat l2"
      | (three) "224 \<le> ?c" "?c < 240" "is_cont (byte_at s 1)" "is_cont (byte_at s 2)" "n = 3"
          "2048 \<le> l3" "r = of_nat l3"
      | (four) "240 \<le> ?c" "?c < 248" "is_cont (byte_at s 1)" "is_cont (byte_at s 2)"
          "is_cont (byte_at s 3)" "n = 4" "65536 \<le> l4" "l4 \<le> Runemax" "r = of_nat l4"
      using assms(2,3) unfolding chartorune_arith Let_def ls
      by (auto simp: not_less split: if_splits)
    then show ?thesis
    proof cases
      case one
      then show ?thesis using n take_few(1) [of s] by (simp add: encode_arith unat_rune)
    next
      case two
      then show ?thesis using n decode_two [OF two(1-3) l2_def two(5)]
        by (simp add: take_few unat_rune l2_def mod_rune)
    next
      case three
      then show ?thesis using n decode_three [OF three(1-4) l3_def three(6)]
        by (simp add: take_few unat_rune l3_def mod_rune)
    next
      case four
      then show ?thesis using n decode_four [OF four(1-5) l4_def four(7)]
        by (simp add: take_few unat_rune)
    qed
  qed
  then show ?thesis by (simp add: runetochar_def)
qed

section \<open>Scanning a buffer\<close>

lemma fullrune_fits: "fullrune s n \<Longrightarrow> int (snd (chartorune s)) \<le> n"
  by (auto simp: fullrune_def chartorune_def chartorune2_def chartorune3_def chartorune4_def
      bad_rune_def split: if_splits)

lemma charntorune_Some:
  "charntorune s n = Some (r, k) \<longleftrightarrow> fullrune s n \<and> chartorune s = (r, k)"
  by (simp add: charntorune_def)

lemma charntorune_bounds:
  assumes "charntorune s n = Some (r, k)"
  shows "0 < k" "int k \<le> n"
  using assms fullrune_fits [of s n] chartorune_len [of s]
  by (auto simp: charntorune_Some)

lemma charntorune_nonpos [simp]: "n \<le> 0 \<Longrightarrow> charntorune s n = None"
  by (simp add: charntorune_def fullrune_def)

text \<open>A byte below 0x80 is a rune of its own.\<close>

lemma charntorune_ascii [utf_simps]:
  "0 < n \<Longrightarrow> byte_at s 0 < 128 \<Longrightarrow> charntorune s n = Some (of_nat (byte_at s 0), 1)"
  by (simp add: charntorune_def fullrune_def chartorune_def)

lemma runelen_ascii [utf_simps]: "n < 128 \<Longrightarrow> runelen (of_nat n) = 1"
  by (simp add: runelen_cases unat_of_nat)

lemma runetochar_ascii [utf_simps]: "n < 128 \<Longrightarrow> runetochar (of_nat n) = [char_of n]"
  by (simp add: runetochar_def encode_def unat_of_nat)

lemma fullrune_runetochar:
  assumes "unat r \<le> Runemax"
  shows "fullrune (runetochar r @ rest) (int (runelen r) + int k)"
proof -
  have "unat r div 262144 < 8" using assms by simp
  then show ?thesis using assms
    by (auto simp: fullrune_def runelen_cases runetochar_def encode_arith lead_or
        less_mult_imp_div_less)
qed

section \<open>Properties\<close>

text \<open>
  C27. Encoding a rune and decoding the bytes, whatever follows them, gives the rune back and
  consumes exactly the bytes that were written, for every rune up to the largest code point.
\<close>

theorem utf8_roundtrip:
  assumes "unat r \<le> Runemax"
  shows "charntorune (runetochar r @ rest) (int (length (runetochar r @ rest))) = Some (r, runelen r)
         \<and> runelen r = length (runetochar r)"
  using chartorune_encode [OF assms, of rest] fullrune_runetochar [OF assms, of rest "length rest"]
    assms
  by (simp add: charntorune_def runelen_def runetochar_def)

theorem utf8_roundtrip_witness:
  "charntorune (runetochar 0x2265 @ ''x'') (int (length (runetochar 0x2265 @ ''x'')))
     = Some (0x2265, runelen 0x2265) \<and> runelen 0x2265 = length (runetochar 0x2265)"
  by (rule utf8_roundtrip) simp

text \<open>
  The decoder accepts shortest forms only: unless it reports the error rune with length
  one, the bytes it consumed are exactly the encoding of the rune it returns.
\<close>

theorem utf8_shortest_form:
  assumes "s \<noteq> []" "chartorune s = (r, n)"
  shows "(r, n) = bad_rune \<or> take n s = runetochar r"
  using chartorune_shortest [OF assms] by blast

theorem utf8_shortest_form_witness:
  "(0xE5, 2) = bad_rune \<or> take 2 [CHR 0xC3, CHR 0xA5] = runetochar 0xE5"
  by (rule utf8_shortest_form)
    (simp_all add: chartorune_arith is_cont_def)

text \<open>
  Scanning with the length-checked decoder makes progress and stays inside the buffer: a
  rune it returns takes at least one byte and never more than the bytes that are left, and the
  decoder reads nothing beyond the NUL of the string.
\<close>

theorem charntorune_progress:
  assumes "charntorune s (int n) = Some (r, k)"
  shows "0 < k \<and> k \<le> n \<and> k \<le> max 1 (length s)"
proof -
  have "1 < k \<Longrightarrow> k - 1 < length s"
    using assms cont_inside chartorune_conts [of "k - 1" s] by (auto simp: charntorune_Some)
  then show ?thesis using charntorune_bounds [OF assms] by linarith
qed

theorem charntorune_progress_witness:
  "charntorune [CHR 0xC3, CHR 0xA5, CHR ''x''] (int 3) = Some (0xE5, 2) \<and>
   0 < (2::nat) \<and> 2 \<le> (3::nat) \<and> 2 \<le> max 1 (length [CHR 0xC3, CHR 0xA5, CHR ''x''])"
proof -
  have "charntorune [CHR 0xC3, CHR 0xA5, CHR ''x''] (int 3) = Some (0xE5, 2)"
    by (simp add: charntorune_def fullrune_def chartorune_arith is_cont_def)
  then show ?thesis using charntorune_progress by blast
qed

end
