(* ===== verification/RuneTables.thy ===== *)
theory RuneTables
  imports Utf
begin

text \<open>
  The character tables of \<^verbatim>\<open>libutf/runetype.c\<close>, row by row as they stand there: ranges
  \<open>[first, last]\<close> or \<open>[first, last, delta + 500]\<close>, single runes \<open>[rune]\<close> or
  \<open>[rune, delta + 500]\<close>. The long tables are cut into chunks, each definition transcribing
  consecutive rows of the source; \<open>RuneTypes\<close> searches them.
\<close>

section \<open>\<^verbatim>\<open>__alpha2\<close>\<close>

definition alpha2_a :: "rune list list" where
  "alpha2_a = [
    [0xd8, 0xf6], [0xf8, 0x1f5], [0x250, 0x2a8], [0x38e, 0x3a1], [0x3a3, 0x3ce], [0x3d0, 0x3d6],
    [0x3e2, 0x3f3], [0x490, 0x4c4], [0x561, 0x587], [0x5d0, 0x5ea], [0x5f0, 0x5f2],
    [0x621, 0x63a], [0x640, 0x64a], [0x671, 0x6b7], [0x6ba, 0x6be], [0x6c0, 0x6ce],
    [0x6d0, 0x6d3], [0x905, 0x939], [0x958, 0x961], [0x985, 0x98c], [0x98f, 0x990],
    [0x993, 0x9a8], [0x9aa, 0x9b0], [0x9b6, 0x9b9], [0x9dc, 0x9dd], [0x9df, 0x9e1],
    [0x9f0, 0x9f1], [0xa05, 0xa0a], [0xa0f, 0xa10], [0xa13, 0xa28], [0xa2a, 0xa30],
    [0xa32, 0xa33], [0xa35, 0xa36], [0xa38, 0xa39], [0xa59, 0xa5c], [0xa85, 0xa8b],
    [0xa8f, 0xa91], [0xa93, 0xaa8], [0xaaa, 0xab0], [0xab2, 0xab3], [0xab5, 0xab9],
    [0xb05, 0xb0c], [0xb0f, 0xb10], [0xb13, 0xb28], [0xb2a, 0xb30], [0xb32, 0xb33],
    [0xb36, 0xb39], [0xb5c, 0xb5d], [0xb5f, 0xb61], [0xb85, 0xb8a], [0xb8e, 0xb90],
    [0xb92, 0xb95], [0xb99, 0xb9a], [0xb9e, 0xb9f], [0xba3, 0xba4], [0xba8, 0xbaa],
    [0xbae, 0xbb5], [0xbb7, 0xbb9], [0xc05, 0xc0c], [0xc0e, 0xc10], [0xc12, 0xc28],
    [0xc2a, 0xc33], [0xc35, 0xc39], [0xc60, 0xc61], [0xc85, 0xc8c], [0xc8e, 0xc90],
    [0xc92, 0xca8], [0xcaa, 0xcb3], [0xcb5, 0xcb9], [0xce0, 0xce1], [0xd05, 0xd0c],
    [0xd0e, 0xd10], [0xd12, 0xd28], [0xd2a, 0xd39], [0xd60, 0xd61], [0xe01, 0xe30],
    [0xe32, 0xe33], [0xe40, 0xe46], [0xe5a, 0xe5b], [0xe81, 0xe82], [0xe87, 0xe88],
    [0xe94, 0xe97], [0xe99, 0xe9f], [0xea1, 0xea3], [0xeaa, 0xeab], [0xead, 0xeae],
    [0xeb2, 0xeb3], [0xec0, 0xec4], [0xedc, 0xedd], [0xf18, 0xf19], [0xf40, 0xf47],
    [0xf49, 0xf69], [0x10d0, 0x10f6], [0x1100, 0x1159], [0x115f, 0x11a2], [0x11a8, 0x11f9],
    [0x1e00, 0x1e9b], [0x1f50, 0x1f57], [0x1f80, 0x1fb4], [0x1fb6, 0x1fbc], [0x1fc2, 0x1fc4],
    [0x1fc6, 0x1fcc], [0x1fd0, 0x1fd3], [0x1fd6, 0x1fdb], [0x1fe0, 0x1fec], [0x1ff2, 0x1ff4],
    [0x1ff6, 0x1ffc], [0x210a, 0x2113], [0x2115, 0x211d], [0x2120, 0x2122], [0x212a, 0x2131],
    [0x2133, 0x2138], [0x3041, 0x3094], [0x30a1, 0x30fa], [0x3105, 0x312c], [0x3131, 0x318e],
    [0x3192, 0x319f], [0x3260, 0x327b], [0x328a, 0x32b0], [0x32d0, 0x32fe]]"

definition alpha2_b :: "rune list list" where
  "alpha2_b = [
    [0x3300, 0x3357], [0x3371, 0x3376], [0x337b, 0x3394], [0x3399, 0x339e], [0x33a9, 0x33ad],
    [0x33b0, 0x33c1], [0x33c3, 0x33c5], [0x33c7, 0x33d7], [0x33d9, 0x33dd], [0x4e00, 0x9fff],
    [0xac00, 0xd7a3], [0xf900, 0xfb06], [0xfb13, 0xfb17], [0xfb1f, 0xfb28], [0xfb2a, 0xfb36],
    [0xfb38, 0xfb3c], [0xfb40, 0xfb41], [0xfb43, 0xfb44], [0xfb46, 0xfbb1], [0xfbd3, 0xfd3d],
    [0xfd50, 0xfd8f], [0xfd92, 0xfdc7], [0xfdf0, 0xfdf9], [0xfe70, 0xfe72], [0xfe76, 0xfefc],
    [0xff66, 0xff6f], [0xff71, 0xff9d], [0xffa0, 0xffbe], [0xffc2, 0xffc7], [0xffca, 0xffcf],
    [0xffd2, 0xffd7], [0xffda, 0xffdc]]"

definition alpha2_tbl :: "rune list list" where
  "alpha2_tbl = alpha2_a @ alpha2_b"

lemmas alpha2_defs = alpha2_tbl_def alpha2_a_def alpha2_b_def

section \<open>\<^verbatim>\<open>__alpha1\<close>\<close>

definition alpha1_tbl :: "rune list list" where
  "alpha1_tbl = [
    [0xaa], [0xb5], [0xba], [0x3da], [0x3dc], [0x3de], [0x3e0], [0x6d5], [0x9b2], [0xa5e],
    [0xa8d], [0xae0], [0xb9c], [0xcde], [0xe4f], [0xe84], [0xe8a], [0xe8d], [0xea5], [0xea7],
    [0xeb0], [0xebd], [0x1fbe], [0x207f], [0x20a8], [0x2102], [0x2107], [0x2124], [0x2126],
    [0x2128], [0xfb3e], [0xfe74]]"

lemmas alpha1_defs = alpha1_tbl_def

section \<open>\<^verbatim>\<open>__space2\<close>\<close>

definition space2_tbl :: "rune list list" where
  "space2_tbl = [
    [0x9, 0xa], [0x20, 0x20], [0xa0, 0xa0], [0x2000, 0x200b], [0x2028, 0x2029],
    [0x3000, 0x3000], [0xfeff, 0xfeff]]"

lemmas space2_defs = space2_tbl_def

section \<open>\<^verbatim>\<open>__toupper2\<close>\<close>

definition toupper2_tbl :: "rune list list" where
  "toupper2_tbl = [
    [0x61, 0x7a, 468], [0xe0, 0xf6, 468], [0xf8, 0xfe, 468], [0x256, 0x257, 295],
    [0x258, 0x259, 298], [0x28a, 0x28b, 283], [0x3ad, 0x3af, 463], [0x3b1, 0x3c1, 468],
    [0x3c3, 0x3cb, 468], [0x3cd, 0x3ce, 437], [0x430, 0x44f, 468], [0x451, 0x45c, 420],
    [0x45e, 0x45f, 420], [0x561, 0x586, 452], [0x1f00, 0x1f07, 508], [0x1f10, 0x1f15, 508],
    [0x1f20, 0x1f27, 508], [0x1f30, 0x1f37, 508], [0x1f40, 0x1f45, 508], [0x1f60, 0x1f67, 508],
    [0x1f70, 0x1f71, 574], [0x1f72, 0x1f75, 586], [0x1f76, 0x1f77, 600], [0x1f78, 0x1f79, 628],
    [0x1f7a, 0x1f7b, 612], [0x1f7c, 0x1f7d, 626], [0x1f80, 0x1f87, 508], [0x1f90, 0x1f97, 508],
    [0x1fa0, 0x1fa7, 508], [0x1fb0, 0x1fb1, 508], [0x1fd0, 0x1fd1, 508], [0x1fe0, 0x1fe1, 508],
    [0x2170, 0x217f, 484], [0x24d0, 0x24e9, 474], [0xff41, 0xff5a, 468]]"

lemmas toupper2_defs = toupper2_tbl_def

section \<open>\<^verbatim>\<open>__toupper1\<close>\<close>

definition toupper1_a :: "rune list list" where
  "toupper1_a = [
    [0xff, 621], [0x101, 499], [0x103, 499], [0x105, 499], [0x107, 499], [0x109, 499],
    [0x10b, 499], [0x10d, 499], [0x10f, 499], [0x111, 499], [0x113, 499], [0x115, 499],
    [0x117, 499], [0x119, 499], [0x11b, 499], [0x11d, 499], [0x11f, 499], [0x121, 499],
    [0x123, 499], [0x125, 499], [0x127, 499], [0x129, 499], [0x12b, 499], [0x12d, 499],
    [0x12f, 499], [0x131, 268], [0x133, 499], [0x135, 499], [0x137, 499], [0x13a, 499],
    [0x13c, 499], [0x13e, 499], [0x140, 499], [0x142, 499], [0x144, 499], [0x146, 499],
    [0x148, 499], [0x14b, 499], [0x14d, 499], [0x14f, 499], [0x151, 499], [0x153, 499],
    [0x155, 499], [0x157, 499], [0x159, 499], [0x15b, 499], [0x15d, 499], [0x15f, 499],
    [0x161, 499], [0x163, 499], [0x165, 499], [0x167, 499], [0x169, 499], [0x16b, 499],
    [0x16d, 499], [0x16f, 499], [0x171, 499], [0x173, 499], [0x175, 499], [0x177, 499],
    [0x17a, 499], [0x17c, 499], [0x17e, 499], [0x17f, 200], [0x183, 499], [0x185, 499],
    [0x188, 499], [0x18c, 499], [0x192, 499], [0x199, 499], [0x1a1, 499], [0x1a3, 499],
    [0x1a5, 499], [0x1a8, 499], [0x1ad, 499], [0x1b0, 499], [0x1b4, 499], [0x1b6, 499],
    [0x1b9, 499], [0x1bd, 499], [0x1c5, 499], [0x1c6, 498], [0x1c8, 499], [0x1c9, 498],
    [0x1cb, 499], [0x1cc, 498], [0x1ce, 499], [0x1d0, 499], [0x1d2, 499], [0x1d4, 499],
    [0x1d6, 499], [0x1d8, 499], [0x1da, 499], [0x1dc, 499], [0x1df, 499], [0x1e1, 499],
    [0x1e3, 499], [0x1e5, 499], [0x1e7, 499], [0x1e9, 499], [0x1eb, 499], [0x1ed, 499],
    [0x1ef, 499], [0x1f2, 499], [0x1f3, 498], [0x1f5, 499], [0x1fb, 499], [0x1fd, 499],
    [0x1ff, 499], [0x201, 499], [0x203, 499], [0x205, 499], [0x207, 499], [0x209, 499],
    [0x20b, 499], [0x20d, 499], [0x20f, 499], [0x211, 499], [0x213, 499], [0x215, 499]]"

definition toupper1_b :: "rune list list" where
  "toupper1_b = [
    [0x217, 499], [0x253, 290], [0x254, 294], [0x25b, 297], [0x260, 295], [0x263, 293],
    [0x268, 291], [0x269, 289], [0x26f, 289], [0x272, 287], [0x283, 282], [0x288, 282],
    [0x292, 281], [0x3ac, 462], [0x3cc, 436], [0x3d0, 438], [0x3d1, 443], [0x3d5, 453],
    [0x3d6, 446], [0x3e3, 499], [0x3e5, 499], [0x3e7, 499], [0x3e9, 499], [0x3eb, 499],
    [0x3ed, 499], [0x3ef, 499], [0x3f0, 414], [0x3f1, 420], [0x461, 499], [0x463, 499],
    [0x465, 499], [0x467, 499], [0x469, 499], [0x46b, 499], [0x46d, 499], [0x46f, 499],
    [0x471, 499], [0x473, 499], [0x475, 499], [0x477, 499], [0x479, 499], [0x47b, 499],
    [0x47d, 499], [0x47f, 499], [0x481, 499], [0x491, 499], [0x493, 499], [0x495, 499],
    [0x497, 499], [0x499, 499], [0x49b, 499], [0x49d, 499], [0x49f, 499], [0x4a1, 499],
    [0x4a3, 499], [0x4a5, 499], [0x4a7, 499], [0x4a9, 499], [0x4ab, 499], [0x4ad, 499],
    [0x4af, 499], [0x4b1, 499], [0x4b3, 499], [0x4b5, 499], [0x4b7, 499], [0x4b9, 499],
    [0x4bb, 499], [0x4bd, 499], [0x4bf, 499], [0x4c2, 499], [0x4c4, 499], [0x4c8, 499],
    [0x4cc, 499], [0x4d1, 499], [0x4d3, 499], [0x4d5, 499], [0x4d7, 499], [0x4d9, 499],
    [0x4db, 499], [0x4dd, 499], [0x4df, 499], [0x4e1, 499], [0x4e3, 499], [0x4e5, 499],
    [0x4e7, 499], [0x4e9, 499], [0x4eb, 499], [0x4ef, 499], [0x4f1, 499], [0x4f3, 499],
    [0x4f5, 499], [0x4f9, 499], [0x1e01, 499], [0x1e03, 499], [0x1e05, 499], [0x1e07, 499],
    [0x1e09, 499], [0x1e0b, 499], [0x1e0d, 499], [0x1e0f, 499], [0x1e11, 499], [0x1e13, 499],
    [0x1e15, 499], [0x1e17, 499], [0x1e19, 499], [0x1e1b, 499], [0x1e1d, 499], [0x1e1f, 499],
    [0x1e21, 499], [0x1e23, 499], [0x1e25, 499], [0x1e27, 499], [0x1e29, 499], [0x1e2b, 499],
    [0x1e2d, 499], [0x1e2f, 499], [0x1e31, 499], [0x1e33, 499], [0x1e35, 499], [0x1e37, 499]]"

definition toupper1_c :: "rune list list" where
  "toupper1_c = [
    [0x1e39, 499], [0x1e3b, 499], [0x1e3d, 499], [0x1e3f, 499], [0x1e41, 499], [0x1e43, 499],
    [0x1e45, 499], [0x1e47, 499], [0x1e49, 499], [0x1e4b, 499], [0x1e4d, 499], [0x1e4f, 499],
    [0x1e51, 499], [0x1e53, 499], [0x1e55, 499], [0x1e57, 499], [0x1e59, 499], [0x1e5b, 499],
    [0x1e5d, 499], [0x1e5f, 499], [0x1e61, 499], [0x1e63, 499], [0x1e65, 499], [0x1e67, 499],
    [0x1e69, 499], [0x1e6b, 499], [0x1e6d, 499], [0x1e6f, 499], [0x1e71, 499], [0x1e73, 499],
    [0x1e75, 499], [0x1e77, 499], [0x1e79, 499], [0x1e7b, 499], [0x1e7d, 499], [0x1e7f, 499],
    [0x1e81, 499], [0x1e83, 499], [0x1e85, 499], [0x1e87, 499], [0x1e89, 499], [0x1e8b, 499],
    [0x1e8d, 499], [0x1e8f, 499], [0x1e91, 499], [0x1e93, 499], [0x1e95, 499], [0x1ea1, 499],
    [0x1ea3, 499], [0x1ea5, 499], [0x1ea7, 499], [0x1ea9, 499], [0x1eab, 499], [0x1ead, 499],
    [0x1eaf, 499], [0x1eb1, 499], [0x1eb3, 499], [0x1eb5, 499], [0x1eb7, 499], [0x1eb9, 499],
    [0x1ebb, 499], [0x1ebd, 499], [0x1ebf, 499], [0x1ec1, 499], [0x1ec3, 499], [0x1ec5, 499],
    [0x1ec7, 499], [0x1ec9, 499], [0x1ecb, 499], [0x1ecd, 499], [0x1ecf, 499], [0x1ed1, 499],
    [0x1ed3, 499], [0x1ed5, 499], [0x1ed7, 499], [0x1ed9, 499], [0x1edb, 499], [0x1edd, 499],
    [0x1edf, 499], [0x1ee1, 499], [0x1ee3, 499], [0x1ee5, 499], [0x1ee7, 499], [0x1ee9, 499],
    [0x1eeb, 499], [0x1eed, 499], [0x1eef, 499], [0x1ef1, 499], [0x1ef3, 499], [0x1ef5, 499],
    [0x1ef7, 499], [0x1ef9, 499], [0x1f51, 508], [0x1f53, 508], [0x1f55, 508], [0x1f57, 508],
    [0x1fb3, 509], [0x1fc3, 509], [0x1fe5, 507], [0x1ff3, 509]]"

definition toupper1_tbl :: "rune list list" where
  "toupper1_tbl = toupper1_a @ toupper1_b @ toupper1_c"

lemmas toupper1_defs = toupper1_tbl_def toupper1_a_def toupper1_b_def toupper1_c_def

section \<open>\<^verbatim>\<open>__tolower2\<close>\<close>

definition tolower2_tbl :: "rune list list" where
  "tolower2_tbl = [
    [0x41, 0x5a, 532], [0xc0, 0xd6, 532], [0xd8, 0xde, 532], [0x189, 0x18a, 705],
    [0x18e, 0x18f, 702], [0x1b1, 0x1b2, 717], [0x388, 0x38a, 537], [0x38e, 0x38f, 563],
    [0x391, 0x3a1, 532], [0x3a3, 0x3ab, 532], [0x401, 0x40c, 580], [0x40e, 0x40f, 580],
    [0x410, 0x42f, 532], [0x531, 0x556, 548], [0x10a0, 0x10c5, 548], [0x1f08, 0x1f0f, 492],
    [0x1f18, 0x1f1d, 492], [0x1f28, 0x1f2f, 492], [0x1f38, 0x1f3f, 492], [0x1f48, 0x1f4d, 492],
    [0x1f68, 0x1f6f, 492], [0x1f88, 0x1f8f, 492], [0x1f98, 0x1f9f, 492], [0x1fa8, 0x1faf, 492],
    [0x1fb8, 0x1fb9, 492], [0x1fba, 0x1fbb, 426], [0x1fc8, 0x1fcb, 414], [0x1fd8, 0x1fd9, 492],
    [0x1fda, 0x1fdb, 400], [0x1fe8, 0x1fe9, 492], [0x1fea, 0x1feb, 388], [0x1ff8, 0x1ff9, 372],
    [0x1ffa, 0x1ffb, 374], [0x2160, 0x216f, 516], [0x24b6, 0x24cf, 526], [0xff21, 0xff3a, 532]]"

lemmas tolower2_defs = tolower2_tbl_def

section \<open>\<^verbatim>\<open>__tolower1\<close>\<close>

definition tolower1_a :: "rune list list" where
  "tolower1_a = [
    [0x100, 501], [0x102, 501], [0x104, 501], [0x106, 501], [0x108, 501], [0x10a, 501],
    [0x10c, 501], [0x10e, 501], [0x110, 501], [0x112, 501], [0x114, 501], [0x116, 501],
    [0x118, 501], [0x11a, 501], [0x11c, 501], [0x11e, 501], [0x120, 501], [0x122, 501],
    [0x124, 501], [0x126, 501], [0x128, 501], [0x12a, 501], [0x12c, 501], [0x12e, 501],
    [0x130, 301], [0x132, 501], [0x134, 501], [0x136, 501], [0x139, 501], [0x13b, 501],
    [0x13d, 501], [0x13f, 501], [0x141, 501], [0x143, 501], [0x145, 501], [0x147, 501],
    [0x14a, 501], [0x14c, 501], [0x14e, 501], [0x150, 501], [0x152, 501], [0x154, 501],
    [0x156, 501], [0x158, 501], [0x15a, 501], [0x15c, 501], [0x15e, 501], [0x160, 501],
    [0x162, 501], [0x164, 501], [0x166, 501], [0x168, 501], [0x16a, 501], [0x16c, 501],
    [0x16e, 501], [0x170, 501], [0x172, 501], [0x174, 501], [0x176, 501], [0x178, 379],
    [0x179, 501], [0x17b, 501], [0x17d, 501], [0x181, 710], [0x182, 501], [0x184, 501],
    [0x186, 706], [0x187, 501], [0x18b, 501], [0x190, 703], [0x191, 501], [0x193, 705],
    [0x194, 707], [0x196, 711], [0x197, 709], [0x198, 501], [0x19c, 711], [0x19d, 713],
    [0x1a0, 501], [0x1a2, 501], [0x1a4, 501], [0x1a7, 501], [0x1a9, 718], [0x1ac, 501],
    [0x1ae, 718], [0x1af, 501], [0x1b3, 501], [0x1b5, 501], [0x1b7, 719], [0x1b8, 501],
    [0x1bc, 501], [0x1c4, 502], [0x1c5, 501], [0x1c7, 502], [0x1c8, 501], [0x1ca, 502],
    [0x1cb, 501], [0x1cd, 501], [0x1cf, 501], [0x1d1, 501], [0x1d3, 501], [0x1d5, 501],
    [0x1d7, 501], [0x1d9, 501], [0x1db, 501], [0x1de, 501], [0x1e0, 501], [0x1e2, 501],
    [0x1e4, 501], [0x1e6, 501], [0x1e8, 501], [0x1ea, 501], [0x1ec, 501], [0x1ee, 501],
    [0x1f1, 502], [0x1f2, 501], [0x1f4, 501], [0x1fa, 501], [0x1fc, 501], [0x1fe, 501]]"

definition tolower1_b :: "rune list list" where
  "tolower1_b = [
    [0x200, 501], [0x202, 501], [0x204, 501], [0x206, 501], [0x208, 501], [0x20a, 501],
    [0x20c, 501], [0x20e, 501], [0x210, 501], [0x212, 501], [0x214, 501], [0x216, 501],
    [0x386, 538], [0x38c, 564], [0x3e2, 501], [0x3e4, 501], [0x3e6, 501], [0x3e8, 501],
    [0x3ea, 501], [0x3ec, 501], [0x3ee, 501], [0x460, 501], [0x462, 501], [0x464, 501],
    [0x466, 501], [0x468, 501], [0x46a, 501], [0x46c, 501], [0x46e, 501], [0x470, 501],
    [0x472, 501], [0x474, 501], [0x476, 501], [0x478, 501], [0x47a, 501], [0x47c, 501],
    [0x47e, 501], [0x480, 501], [0x490, 501], [0x492, 501], [0x494, 501], [0x496, 501],
    [0x498, 501], [0x49a, 501], [0x49c, 501], [0x49e, 501], [0x4a0, 501], [0x4a2, 501],
    [0x4a4, 501], [0x4a6, 501], [0x4a8, 501], [0x4aa, 501], [0x4ac, 501], [0x4ae, 501],
    [0x4b0, 501], [0x4b2, 501], [0x4b4, 501], [0x4b6, 501], [0x4b8, 501], [0x4ba, 501],
    [0x4bc, 501], [0x4be, 501], [0x4c1, 501], [0x4c3, 501], [0x4c7, 501], [0x4cb, 501],
    [0x4d0, 501], [0x4d2, 501], [0x4d4, 501], [0x4d6, 501], [0x4d8, 501], [0x4da, 501],
    [0x4dc, 501], [0x4de, 501], [0x4e0, 501], [0x4e2, 501], [0x4e4, 501], [0x4e6, 501],
    [0x4e8, 501], [0x4ea, 501], [0x4ee, 501], [0x4f0, 501], [0x4f2, 501], [0x4f4, 501],
    [0x4f8, 501], [0x1e00, 501], [0x1e02, 501], [0x1e04, 501], [0x1e06, 501], [0x1e08, 501],
    [0x1e0a, 501], [0x1e0c, 501], [0x1e0e, 501], [0x1e10, 501], [0x1e12, 501], [0x1e14, 501],
    [0x1e16, 501], [0x1e18, 501], [0x1e1a, 501], [0x1e1c, 501], [0x1e1e, 501], [0x1e20, 501],
    [0x1e22, 501], [0x1e24, 501], [0x1e26, 501], [0x1e28, 501], [0x1e2a, 501], [0x1e2c, 501],
    [0x1e2e, 501], [0x1e30, 501], [0x1e32, 501], [0x1e34, 501], [0x1e36, 501], [0x1e38, 501],
    [0x1e3a, 501], [0x1e3c, 501], [0x1e3e, 501], [0x1e40, 501], [0x1e42, 501], [0x1e44, 501]]"

definition tolower1_c :: "rune list list" where
  "tolower1_c = [
    [0x1e46, 501], [0x1e48, 501], [0x1e4a, 501], [0x1e4c, 501], [0x1e4e, 501], [0x1e50, 501],
    [0x1e52, 501], [0x1e54, 501], [0x1e56, 501], [0x1e58, 501], [0x1e5a, 501], [0x1e5c, 501],
    [0x1e5e, 501], [0x1e60, 501], [0x1e62, 501], [0x1e64, 501], [0x1e66, 501], [0x1e68, 501],
    [0x1e6a, 501], [0x1e6c, 501], [0x1e6e, 501], [0x1e70, 501], [0x1e72, 501], [0x1e74, 501],
    [0x1e76, 501], [0x1e78, 501], [0x1e7a, 501], [0x1e7c, 501], [0x1e7e, 501], [0x1e80, 501],
    [0x1e82, 501], [0x1e84, 501], [0x1e86, 501], [0x1e88, 501], [0x1e8a, 501], [0x1e8c, 501],
    [0x1e8e, 501], [0x1e90, 501], [0x1e92, 501], [0x1e94, 501], [0x1ea0, 501], [0x1ea2, 501],
    [0x1ea4, 501], [0x1ea6, 501], [0x1ea8, 501], [0x1eaa, 501], [0x1eac, 501], [0x1eae, 501],
    [0x1eb0, 501], [0x1eb2, 501], [0x1eb4, 501], [0x1eb6, 501], [0x1eb8, 501], [0x1eba, 501],
    [0x1ebc, 501], [0x1ebe, 501], [0x1ec0, 501], [0x1ec2, 501], [0x1ec4, 501], [0x1ec6, 501],
    [0x1ec8, 501], [0x1eca, 501], [0x1ecc, 501], [0x1ece, 501], [0x1ed0, 501], [0x1ed2, 501],
    [0x1ed4, 501], [0x1ed6, 501], [0x1ed8, 501], [0x1eda, 501], [0x1edc, 501], [0x1ede, 501],
    [0x1ee0, 501], [0x1ee2, 501], [0x1ee4, 501], [0x1ee6, 501], [0x1ee8, 501], [0x1eea, 501],
    [0x1eec, 501], [0x1eee, 501], [0x1ef0, 501], [0x1ef2, 501], [0x1ef4, 501], [0x1ef6, 501],
    [0x1ef8, 501], [0x1f59, 492], [0x1f5b, 492], [0x1f5d, 492], [0x1f5f, 492], [0x1fbc, 491],
    [0x1fcc, 491], [0x1fec, 493], [0x1ffc, 491]]"

definition tolower1_tbl :: "rune list list" where
  "tolower1_tbl = tolower1_a @ tolower1_b @ tolower1_c"

lemmas tolower1_defs = tolower1_tbl_def tolower1_a_def tolower1_b_def tolower1_c_def

section \<open>\<^verbatim>\<open>__totitle1\<close>\<close>

definition totitle1_tbl :: "rune list list" where
  "totitle1_tbl = [
    [0x1c4, 501], [0x1c6, 499], [0x1c7, 501], [0x1c9, 499], [0x1ca, 501], [0x1cc, 499],
    [0x1f1, 501], [0x1f3, 499]]"

lemmas totitle1_defs = totitle1_tbl_def

end
