(* ===== verification/RuneTypes.thy ===== *)
theory RuneTypes
  imports RuneTables
begin

text \<open>
  Character classes and case mapping, \<^verbatim>\<open>libutf/runetype.c\<close>: the binary search \<open>bsearch\<close> over
  the tables of \<open>RuneTables\<close> and the functions \<open>tolowerrune\<close>, \<open>toupperrune\<close>, \<open>totitlerune\<close>,
  \<open>islowerrune\<close>, \<open>isupperrune\<close>, \<open>istitlerune\<close>, \<open>isalpharune\<close> and \<open>isspacerune\<close> built on it.

  A table is the list of its rows; the pointer \<open>t\<close> of the search is the index of a row, and a
  rune or delta of a row is a 32-bit word as in the code, so \<open>c + p[2] - 500\<close> wraps as there.
\<close>

section \<open>The binary search\<close>

function bsearch_loop :: "rune list list \<Rightarrow> rune \<Rightarrow> nat \<Rightarrow> nat \<Rightarrow> nat \<times> nat" where
  "bsearch_loop tbl c t n =
     (if n > 1 then
        if c \<ge> tbl ! (t + n div 2) ! 0
        then bsearch_loop tbl c (t + n div 2) (n - n div 2)
        else bsearch_loop tbl c t (n div 2)
      else (t, n))"
  by pat_completeness auto
termination by (relation "measure (\<lambda>(_, _, _, n). n)") auto

declare bsearch_loop.simps [simp del]

definition bsearch :: "rune \<Rightarrow> rune list list \<Rightarrow> rune list option" where
  "bsearch c tbl =
     (let (t, n) = bsearch_loop tbl c 0 (length tbl)
      in if n \<noteq> 0 \<and> c \<ge> tbl ! t ! 0 then Some (tbl ! t) else None)"

section \<open>Case mapping and classes\<close>

text \<open>The two tests the functions apply to the row found.\<close>

definition in_range :: "rune \<Rightarrow> rune list option \<Rightarrow> bool" where
  "in_range c p = (case p of None \<Rightarrow> False | Some r \<Rightarrow> c \<ge> r ! 0 \<and> c \<le> r ! 1)"

definition is_single :: "rune \<Rightarrow> rune list option \<Rightarrow> bool" where
  "is_single c p = (case p of None \<Rightarrow> False | Some r \<Rightarrow> c = r ! 0)"

definition tolowerrune :: "rune \<Rightarrow> rune" where
  "tolowerrune c =
     (let p = bsearch c tolower2_tbl in
      if in_range c p then c + the p ! 2 - 500
      else let p = bsearch c tolower1_tbl in
      if is_single c p then c + the p ! 1 - 500
      else c)"

definition toupperrune :: "rune \<Rightarrow> rune" where
  "toupperrune c =
     (let p = bsearch c toupper2_tbl in
      if in_range c p then c + the p ! 2 - 500
      else let p = bsearch c toupper1_tbl in
      if is_single c p then c + the p ! 1 - 500
      else c)"

definition totitlerune :: "rune \<Rightarrow> rune" where
  "totitlerune c =
     (let p = bsearch c totitle1_tbl in
      if is_single c p then c + the p ! 1 - 500
      else c)"

definition islowerrune :: "rune \<Rightarrow> bool" where
  "islowerrune c =
     (if in_range c (bsearch c toupper2_tbl) then True
      else if is_single c (bsearch c toupper1_tbl) then True
      else False)"

definition isupperrune :: "rune \<Rightarrow> bool" where
  "isupperrune c =
     (if in_range c (bsearch c tolower2_tbl) then True
      else if is_single c (bsearch c tolower1_tbl) then True
      else False)"

definition isalpharune :: "rune \<Rightarrow> bool" where
  "isalpharune c =
     (if isupperrune c \<or> islowerrune c then True
      else if in_range c (bsearch c alpha2_tbl) then True
      else if is_single c (bsearch c alpha1_tbl) then True
      else False)"

definition istitlerune :: "rune \<Rightarrow> bool" where
  "istitlerune c = (isupperrune c \<and> islowerrune c)"

definition isspacerune :: "rune \<Rightarrow> bool" where
  "isspacerune c = (if in_range c (bsearch c space2_tbl) then True else False)"

section \<open>The search against its specification\<close>

text \<open>
  The specification of the search: the last row whose first rune is at most \<open>c\<close>, by a linear
  scan. The keys of a table must ascend.
\<close>

definition row_below :: "rune \<Rightarrow> rune list list \<Rightarrow> rune list option" where
  "row_below c tbl =
     (case filter (\<lambda>r. r ! 0 \<le> c) tbl of [] \<Rightarrow> None | r # rs \<Rightarrow> Some (last (r # rs)))"

fun ascending :: "rune list list \<Rightarrow> bool" where
  "ascending (r # r' # rs) = (r ! 0 < r' ! 0 \<and> ascending (r' # rs))"
| "ascending _ = True"

lemma ascending_Cons: "ascending (r # rs) \<Longrightarrow> ascending rs \<and> (\<forall>r' \<in> set rs. r ! 0 < r' ! 0)"
  by (induction rs arbitrary: r) (auto dest: less_trans)

lemma ascending_nth:
  "ascending tbl \<Longrightarrow> i < j \<Longrightarrow> j < length tbl \<Longrightarrow> tbl ! i ! 0 < tbl ! j ! 0"
proof (induction tbl arbitrary: i j)
  case (Cons r rs)
  then show ?case
    using ascending_Cons [of r rs] by (cases i; cases j) auto
qed simp

lemma ascending_nth_le:
  "ascending tbl \<Longrightarrow> i \<le> j \<Longrightarrow> j < length tbl \<Longrightarrow> tbl ! i ! 0 \<le> tbl ! j ! 0"
  using ascending_nth [of tbl i j] by (cases "i = j") auto

lemma bsearch_loop_spec:
  assumes "ascending tbl" and "t + n \<le> length tbl" and "0 < n"
    and "0 < t \<Longrightarrow> tbl ! t ! 0 \<le> c"
    and "t + n < length tbl \<Longrightarrow> c < tbl ! (t + n) ! 0"
  obtains i where "bsearch_loop tbl c t n = (i, 1)" and "i < length tbl"
    and "0 < i \<Longrightarrow> tbl ! i ! 0 \<le> c"
    and "Suc i < length tbl \<Longrightarrow> c < tbl ! Suc i ! 0"
proof -
  have "\<exists>i. bsearch_loop tbl c t n = (i, 1) \<and> i < length tbl \<and>
      (0 < i \<longrightarrow> tbl ! i ! 0 \<le> c) \<and> (Suc i < length tbl \<longrightarrow> c < tbl ! Suc i ! 0)"
    using assms
  proof (induction tbl c t n rule: bsearch_loop.induct)
    case (1 tbl c t n)
    show ?case
    proof (cases "n > 1")
      case True
      show ?thesis
      proof (cases "c \<ge> tbl ! (t + n div 2) ! 0")
        case ge: True
        have "t + n div 2 + (n - n div 2) = t + n" and "0 < n - n div 2"
          using True by auto
        with 1(1) [OF True ge] 1(3-) True ge show ?thesis
          by (subst bsearch_loop.simps) simp
      next
        case False
        with 1(2) [OF True False] 1(3-) True show ?thesis
          by (subst bsearch_loop.simps) simp
      qed
    next
      case False
      with 1(5) have "n = 1"
        by simp
      with 1(3-) show ?thesis
        by (subst bsearch_loop.simps) auto
    qed
  qed
  then show ?thesis
    using that by blast
qed

lemma row_below_prefix:
  assumes "\<And>r. r \<in> set xs \<Longrightarrow> r ! 0 \<le> c" and "\<And>r. r \<in> set ys \<Longrightarrow> \<not> r ! 0 \<le> c"
  shows "row_below c (xs @ ys) = (if xs = [] then None else Some (last xs))"
proof -
  have "filter (\<lambda>r. r ! 0 \<le> c) (xs @ ys) = xs"
    using assms by (auto simp: filter_empty_conv filter_id_conv)
  then show ?thesis
    by (cases xs) (auto simp: row_below_def simp del: filter_append)
qed

lemma bsearch_row_below:
  assumes "ascending tbl"
  shows "bsearch c tbl = row_below c tbl"
proof (cases "tbl = []")
  case True
  then show ?thesis
    by (simp add: bsearch_def row_below_def bsearch_loop.simps)
next
  case False
  then obtain i where i: "bsearch_loop tbl c 0 (length tbl) = (i, 1)" "i < length tbl"
    "0 < i \<Longrightarrow> tbl ! i ! 0 \<le> c" "Suc i < length tbl \<Longrightarrow> c < tbl ! Suc i ! 0"
    using bsearch_loop_spec [OF assms, of 0 "length tbl" c] by auto
  have above: "\<not> tbl ! j ! 0 \<le> c" if "i < j" "j < length tbl" for j
    using ascending_nth_le [OF assms, of "Suc i" j] i(4) that by (auto simp: not_le)
  show ?thesis
  proof (cases "tbl ! i ! 0 \<le> c")
    case True
    have below: "tbl ! j ! 0 \<le> c" if "j \<le> i" for j
      using ascending_nth_le [OF assms that i(2)] True by (rule order_trans)
    have last_take: "last (take (Suc i) tbl) = tbl ! i"
      using i(2) by (simp add: take_Suc_conv_app_nth)
    have "row_below c (take (Suc i) tbl @ drop (Suc i) tbl) = Some (last (take (Suc i) tbl))"
      using i(2) below above by (subst row_below_prefix) (auto simp: in_set_conv_nth)
    then have "row_below c tbl = Some (tbl ! i)"
      using i(2) last_take by (simp only: append_take_drop_id)
    then show ?thesis
      using i True by (simp add: bsearch_def)
  next
    case False
    then have "i = 0"
      using i(3) by auto
    then have "\<not> tbl ! j ! 0 \<le> c" if "j < length tbl" for j
      using above [of j] False that by (cases "j = 0") auto
    then have "row_below c ([] @ tbl) = None"
      by (subst row_below_prefix) (auto simp: in_set_conv_nth)
    then show ?thesis
      using i False by (simp add: bsearch_def)
  qed
qed

section \<open>Membership of the tables\<close>

text \<open>
  A table of ranges whose rows are ordered and disjoint answers exactly the membership
  question, and so does a table of single runes.
\<close>

fun ranges_ok :: "rune list list \<Rightarrow> bool" where
  "ranges_ok (r # r' # rs) = (r ! 0 \<le> r ! 1 \<and> r ! 1 < r' ! 0 \<and> ranges_ok (r' # rs))"
| "ranges_ok [r] = (r ! 0 \<le> r ! 1)"
| "ranges_ok [] = True"

definition any_range :: "rune \<Rightarrow> rune list list \<Rightarrow> bool" where
  "any_range c tbl = list_ex (\<lambda>r. r ! 0 \<le> c \<and> c \<le> r ! 1) tbl"

definition any_single :: "rune \<Rightarrow> rune list list \<Rightarrow> bool" where
  "any_single c tbl = list_ex (\<lambda>r. c = r ! 0) tbl"

lemma ranges_ok_ascending: "ranges_ok tbl \<Longrightarrow> ascending tbl"
  by (induction tbl rule: ranges_ok.induct) auto

lemma ranges_ok_Cons: "ranges_ok (r # rs) \<Longrightarrow> ranges_ok rs \<and> (\<forall>r' \<in> set rs. r ! 1 < r' ! 0)"
proof (induction rs arbitrary: r)
  case (Cons r' rs)
  then have "r ! 1 < r' ! 0" "r' ! 0 \<le> r' ! 1" "ranges_ok (r' # rs)"
    by (cases rs; simp)+
  with Cons.IH [of r'] show ?case
    by (auto dest!: bspec)
qed simp

lemma row_below_Cons:
  "row_below c (r # rs) =
     (case row_below c rs of Some r' \<Rightarrow> Some r' | None \<Rightarrow> if r ! 0 \<le> c then Some r else None)"
  by (auto simp: row_below_def split: list.splits)

lemma row_below_Nil [simp]: "row_below c [] = None"
  by (simp add: row_below_def)

lemma row_below_None: "row_below c rs = None \<longleftrightarrow> (\<forall>r \<in> set rs. \<not> r ! 0 \<le> c)"
  by (induction rs) (auto simp: row_below_Cons split: option.splits)

lemma row_below_Some: "row_below c rs = Some r \<Longrightarrow> r \<in> set rs \<and> r ! 0 \<le> c"
  by (induction rs) (auto simp: row_below_Cons split: option.splits if_splits)

lemma in_range_row_below: "ranges_ok tbl \<Longrightarrow> in_range c (row_below c tbl) = any_range c tbl"
proof (induction tbl)
  case (Cons r rs)
  note rs = ranges_ok_Cons [OF Cons.prems]
  show ?case
  proof (cases "row_below c rs")
    case None
    then have "\<not> any_range c rs"
      by (auto simp: row_below_None any_range_def list_ex_iff)
    then show ?thesis
      using None by (auto simp: row_below_Cons in_range_def any_range_def)
  next
    case (Some r')
    then have "r ! 1 < c"
      using row_below_Some [OF Some] rs by (auto intro: less_le_trans)
    then show ?thesis
      using Cons.IH rs Some by (auto simp: row_below_Cons any_range_def)
  qed
qed (simp add: in_range_def any_range_def)

lemma is_single_row_below: "ascending tbl \<Longrightarrow> is_single c (row_below c tbl) = any_single c tbl"
proof (induction tbl)
  case (Cons r rs)
  note rs = ascending_Cons [OF Cons.prems]
  show ?case
  proof (cases "row_below c rs")
    case None
    then have "\<not> any_single c rs"
      by (auto simp: row_below_None any_single_def list_ex_iff)
    then show ?thesis
      using None by (auto simp: row_below_Cons is_single_def any_single_def)
  next
    case (Some r')
    then have "r ! 0 < c"
      using row_below_Some [OF Some] rs by (auto intro: less_le_trans)
    then show ?thesis
      using Cons.IH rs Some by (auto simp: row_below_Cons any_single_def)
  qed
qed (simp add: is_single_def any_single_def)

lemma tables_ok:
  "ranges_ok alpha2_tbl" "ranges_ok space2_tbl" "ranges_ok toupper2_tbl" "ranges_ok tolower2_tbl"
  "ascending alpha1_tbl" "ascending toupper1_tbl" "ascending tolower1_tbl" "ascending totitle1_tbl"
  by (simp_all add: alpha2_defs space2_defs toupper2_defs tolower2_defs alpha1_defs toupper1_defs
      tolower1_defs totitle1_defs)

lemma in_range_bsearch: "ranges_ok tbl \<Longrightarrow> in_range c (bsearch c tbl) = any_range c tbl"
  by (simp add: bsearch_row_below ranges_ok_ascending in_range_row_below)

lemma is_single_bsearch: "ascending tbl \<Longrightarrow> is_single c (bsearch c tbl) = any_single c tbl"
  by (simp add: bsearch_row_below is_single_row_below)

section \<open>ASCII\<close>

lemma row_below_high:
  assumes "c < m" "list_all (\<lambda>r. m \<le> r ! 0) rs"
  shows "row_below c rs = None"
  using assms by (induction rs) (auto simp: row_below_Cons dest: leD less_le_trans)

lemma any_range_high: "c < m \<Longrightarrow> list_all (\<lambda>r. m \<le> r ! 0) rs \<Longrightarrow> \<not> any_range c rs"
  by (induction rs) (auto simp: any_range_def dest: leD less_le_trans)

lemma any_single_high: "c < m \<Longrightarrow> list_all (\<lambda>r. m \<le> r ! 0) rs \<Longrightarrow> \<not> any_single c rs"
  by (induction rs) (auto simp: any_single_def dest: leD)

lemma any_range_Cons: "any_range c (r # rs) \<longleftrightarrow> (r ! 0 \<le> c \<and> c \<le> r ! 1) \<or> any_range c rs"
  by (simp add: any_range_def)

lemma tables_high:
  "list_all (\<lambda>r. 128 \<le> r ! 0) alpha2_tbl" "list_all (\<lambda>r. 128 \<le> r ! 0) (drop 2 space2_tbl)"
  "list_all (\<lambda>r. 128 \<le> r ! 0) (tl toupper2_tbl)" "list_all (\<lambda>r. 128 \<le> r ! 0) (tl tolower2_tbl)"
  "list_all (\<lambda>r. 128 \<le> r ! 0) alpha1_tbl" "list_all (\<lambda>r. 128 \<le> r ! 0) toupper1_tbl"
  "list_all (\<lambda>r. 128 \<le> r ! 0) tolower1_tbl"
  by (simp_all add: alpha2_defs space2_defs toupper2_defs tolower2_defs alpha1_defs toupper1_defs
      tolower1_defs)

lemma tables_low:
  "tolower2_tbl = [0x41, 0x5a, 532] # tl tolower2_tbl"
  "toupper2_tbl = [0x61, 0x7a, 468] # tl toupper2_tbl"
  "space2_tbl = [0x9, 0xa] # [0x20, 0x20] # drop 2 space2_tbl"
  by (simp_all add: toupper2_defs tolower2_defs space2_defs)

lemmas class_eqs =
  tables_ok(1-4) [THEN in_range_bsearch] tables_ok(5-8) [THEN is_single_bsearch]

lemma isupperrune_ascii: "c < 128 \<Longrightarrow> isupperrune c \<longleftrightarrow> 0x41 \<le> c \<and> c \<le> 0x5a"
  unfolding isupperrune_def class_eqs
  by (subst tables_low) (simp add: any_range_Cons any_range_high any_single_high tables_high)

lemma islowerrune_ascii: "c < 128 \<Longrightarrow> islowerrune c \<longleftrightarrow> 0x61 \<le> c \<and> c \<le> 0x7a"
  unfolding islowerrune_def class_eqs
  by (subst tables_low) (simp add: any_range_Cons any_range_high any_single_high tables_high)

lemma isalpharune_ascii [utf_simps]:
  "c < 128 \<Longrightarrow> isalpharune c \<longleftrightarrow> (0x41 \<le> c \<and> c \<le> 0x5a) \<or> (0x61 \<le> c \<and> c \<le> 0x7a)"
  unfolding isalpharune_def class_eqs
  by (simp add: isupperrune_ascii islowerrune_ascii any_range_high any_single_high tables_high)

lemma isspacerune_ascii [utf_simps]:
  "c < 128 \<Longrightarrow> isspacerune c \<longleftrightarrow> (0x9 \<le> c \<and> c \<le> 0xa) \<or> c = 0x20"
  unfolding isspacerune_def class_eqs
  by (subst tables_low) (auto simp: any_range_Cons any_range_high tables_high)

lemma tolowerrune_ascii [utf_simps]:
  assumes "c < 128"
  shows "tolowerrune c = (if 0x41 \<le> c \<and> c \<le> 0x5a then c + 32 else c)"
proof -
  have "row_below c tolower2_tbl = (if 0x41 \<le> c then Some [0x41, 0x5a, 532] else None)"
    using assms by (subst tables_low) (simp add: row_below_Cons row_below_high tables_high)
  moreover have "row_below c tolower1_tbl = None"
    using assms tables_high(7) by (rule row_below_high)
  ultimately show ?thesis
    by (simp add: tolowerrune_def bsearch_row_below ranges_ok_ascending tables_ok in_range_def
        is_single_def)
qed

section \<open>Lower case keeps the encoded length\<close>

definition len_class :: "nat \<Rightarrow> nat" where
  "len_class n = (if n < 128 then 1 else if n < 2048 then 2 else if n < 65536 then 3 else 4)"

lemma len_class_mono: "m \<le> n \<Longrightarrow> len_class m \<le> len_class n"
  by (simp add: len_class_def)

lemma runelen_class: "unat r \<le> Runemax \<Longrightarrow> runelen r = len_class (unat r)"
  by (simp add: runelen_cases len_class_def)

text \<open>A row keeps lengths when its ends and their images are in one length class.\<close>

definition keeps_len :: "rune \<Rightarrow> rune \<Rightarrow> rune \<Rightarrow> bool" where
  "keeps_len a b d \<longleftrightarrow>
     500 < unat a + unat d \<and> unat b + unat d < 66036 \<and> unat b < 65536 \<and>
     len_class (unat b) = len_class (unat a) \<and>
     len_class (unat a + unat d - 500) = len_class (unat a) \<and>
     len_class (unat b + unat d - 500) = len_class (unat a)"

lemma tolower_rows_keep:
  "list_all (\<lambda>r. keeps_len (r ! 0) (r ! 1) (r ! 2)) tolower2_tbl"
  "list_all (\<lambda>r. r ! 0 = 0x130 \<or> keeps_len (r ! 0) (r ! 0) (r ! 1)) tolower1_tbl"
  by (simp_all add: tolower2_defs tolower1_defs keeps_len_def len_class_def)

lemma keeps_len_range:
  assumes "keeps_len a b d" "a \<le> c" "c \<le> b"
  shows "runelen (c + d - 500) = runelen c \<and> c + d - 500 \<noteq> 0 \<and> unat (c + d - 500) \<le> Runemax"
proof -
  note k = assms(1) [unfolded keeps_len_def]
  have c: "unat a \<le> unat c" "unat c \<le> unat b"
    using assms by (simp_all add: word_le_nat_alt)
  have "unat (c + d) = unat c + unat d"
    using k c by (subst unat_add_lem [symmetric]) simp
  moreover have "(500 :: rune) \<le> c + d"
    using k c calculation by (simp add: word_le_nat_alt)
  ultimately have img: "unat (c + d - 500) = unat c + unat d - 500"
    by (simp add: unat_sub)
  have "len_class (unat c) = len_class (unat a)"
    using k len_class_mono [OF c(1)] len_class_mono [OF c(2)] by simp
  moreover have "len_class (unat c + unat d - 500) = len_class (unat a)"
    using k le_antisym len_class_mono [OF diff_le_mono [OF add_right_mono [OF c(1)]]]
      len_class_mono [OF diff_le_mono [OF add_right_mono [OF c(2)]]] by metis
  moreover have "unat c \<le> Runemax" "unat (c + d - 500) \<le> Runemax"
    using k c by (auto simp: img)
  moreover have "c + d - 500 \<noteq> 0"
  proof
    assume "c + d - 500 = 0"
    then have "unat (c + d - 500) = 0"
      by (simp only: unat_0)
    then show False
      using k c by (simp add: img)
  qed
  ultimately show ?thesis
    by (simp add: runelen_class img)
qed

lemma tolowerrune_cases:
  obtains (range) r where "r \<in> set tolower2_tbl" "r ! 0 \<le> c" "c \<le> r ! 1"
      "tolowerrune c = c + r ! 2 - 500"
  | (single) r where "r \<in> set tolower1_tbl" "c = r ! 0" "tolowerrune c = c + r ! 1 - 500"
  | (same) "tolowerrune c = c"
proof (cases "in_range c (bsearch c tolower2_tbl)")
  case True
  then obtain r where "bsearch c tolower2_tbl = Some r" "r ! 0 \<le> c" "c \<le> r ! 1"
    by (auto simp: in_range_def split: option.splits)
  then show ?thesis
    using True row_below_Some [of c tolower2_tbl r]
    by (intro range) (auto simp: tolowerrune_def bsearch_row_below ranges_ok_ascending tables_ok)
next
  case no: False
  show ?thesis
  proof (cases "is_single c (bsearch c tolower1_tbl)")
    case True
    then obtain r where "bsearch c tolower1_tbl = Some r" "c = r ! 0"
      by (auto simp: is_single_def split: option.splits)
    then show ?thesis
      using True no row_below_Some [of c tolower1_tbl r]
      by (intro single) (auto simp: tolowerrune_def bsearch_row_below tables_ok)
  next
    case False
    then show ?thesis
      using no by (intro same) (simp add: tolowerrune_def)
  qed
qed

lemma runelen_tolower:
  assumes "c \<noteq> 0x130"
  shows "runelen (tolowerrune c) = runelen c"
proof (cases c rule: tolowerrune_cases)
  case (range r)
  then show ?thesis
    using tolower_rows_keep(1) keeps_len_range [of "r ! 0" "r ! 1" "r ! 2" c]
    by (auto simp: list_all_iff)
next
  case (single r)
  then show ?thesis
    using tolower_rows_keep(2) keeps_len_range [of "r ! 0" "r ! 0" "r ! 1" c] assms
    by (auto simp: list_all_iff)
qed simp

lemma tolower_dotted_I: "tolowerrune 0x130 = 0x69"
proof -
  have "bsearch 0x130 tolower2_tbl = Some [0xd8, 0xde, 532]"
    by (simp add: bsearch_row_below ranges_ok_ascending tables_ok row_below_def)
      (simp add: tolower2_defs)
  moreover have "bsearch 0x130 tolower1_tbl = Some [0x130, 301]"
    by (simp add: bsearch_row_below ranges_ok_ascending tables_ok row_below_def)
      (simp add: tolower1_defs)
  ultimately show ?thesis
    by (simp add: tolowerrune_def in_range_def is_single_def)
qed

lemma tolowerrune_nonzero: "r \<noteq> 0 \<Longrightarrow> tolowerrune r \<noteq> 0"
proof (cases r rule: tolowerrune_cases)
  case (range row)
  then show ?thesis
    using tolower_rows_keep(1) keeps_len_range [of "row ! 0" "row ! 1" "row ! 2" r]
    by (auto simp: list_all_iff)
next
  case (single row)
  then show ?thesis
    using tolower_rows_keep keeps_len_range [of "row ! 0" "row ! 0" "row ! 1" r] tolower_dotted_I
    by (auto simp: list_all_iff)
qed simp

lemma unat_tolower: "unat r \<le> Runemax \<Longrightarrow> unat (tolowerrune r) \<le> Runemax"
proof (cases r rule: tolowerrune_cases)
  case (range row)
  then show ?thesis
    using tolower_rows_keep(1) keeps_len_range [of "row ! 0" "row ! 1" "row ! 2" r]
    by (auto simp: list_all_iff)
next
  case (single row)
  then show ?thesis
    using tolower_rows_keep keeps_len_range [of "row ! 0" "row ! 0" "row ! 1" r] tolower_dotted_I
    by (auto simp: list_all_iff)
qed simp

text \<open>Two runes lower case never produces from another rune.\<close>

lemma keeps_len_image:
  assumes "keeps_len a b d" "a \<le> c" "c \<le> b" "c + d - 500 = v"
  shows "unat a + unat d - 500 \<le> unat v \<and> unat v \<le> unat b + unat d - 500"
proof -
  note k = assms(1) [unfolded keeps_len_def]
  have c: "unat a \<le> unat c" "unat c \<le> unat b"
    using assms by (simp_all add: word_le_nat_alt)
  have sum: "unat (c + d) = unat c + unat d"
    using k c by (subst unat_add_lem [symmetric]) simp
  have "(500 :: rune) \<le> c + d"
    using k c sum by (simp add: word_le_nat_alt)
  then have "unat v = unat c + unat d - 500"
    unfolding assms(4) [symmetric] by (simp add: unat_sub sum)
  then show ?thesis
    using c by (simp add: diff_le_mono)
qed

definition avoids :: "nat \<Rightarrow> rune \<Rightarrow> rune \<Rightarrow> rune \<Rightarrow> bool" where
  "avoids v a b d \<longleftrightarrow> v < unat a + unat d - 500 \<or> unat b + unat d - 500 < v"

lemma tolower_rows_avoid:
  "list_all (\<lambda>r. avoids 0x130 (r ! 0) (r ! 1) (r ! 2) \<and> avoids 0x22 (r ! 0) (r ! 1) (r ! 2)) tolower2_tbl"
  "list_all (\<lambda>r. avoids 0x130 (r ! 0) (r ! 0) (r ! 1) \<and> avoids 0x22 (r ! 0) (r ! 0) (r ! 1)) tolower1_tbl"
  by (simp_all add: tolower2_defs tolower1_defs avoids_def)

lemma tolower_avoids:
  assumes "tolowerrune c = v" "v = 0x130 \<or> v = 0x22"
  shows "c = v \<and> v \<noteq> 0x130"
proof (cases c rule: tolowerrune_cases)
  case (range r)
  then show ?thesis
    using tolower_rows_keep(1) tolower_rows_avoid(1) keeps_len_image [of "r ! 0" "r ! 1" "r ! 2" c v] assms
    by (fastforce simp: list_all_iff avoids_def)
next
  case (single r)
  then show ?thesis
    using tolower_rows_keep(2) tolower_rows_avoid(2) keeps_len_image [of "r ! 0" "r ! 0" "r ! 1" c v]
      assms tolower_dotted_I
    by (cases "c = 0x130") (fastforce simp: list_all_iff avoids_def)+
next
  case same
  then show ?thesis
    using assms tolower_dotted_I by auto
qed

lemma runelen_tolower_le: "runelen (tolowerrune c) \<le> runelen c"
  using runelen_tolower [of c] by (cases "c = 0x130") (auto simp: tolower_dotted_I runelen_cases)

lemma tolowerrune_other: "\<not> isupperrune c \<Longrightarrow> tolowerrune c = c"
  by (simp add: tolowerrune_def isupperrune_def split: if_splits)

lemma tolower_bad_rune: "tolowerrune 0xFFFD = 0xFFFD"
proof -
  have "\<not> any_range 0xFFFD tolower2_tbl" "\<not> any_single 0xFFFD tolower1_tbl"
    by (simp_all add: any_range_def any_single_def tolower2_defs tolower1_defs)
  then show ?thesis
    by (intro tolowerrune_other) (simp add: isupperrune_def class_eqs)
qed

section \<open>Properties\<close>

text \<open>
  The binary search agrees with a linear scan for the last row whose key is at most the
  rune, on every table whose keys ascend.
\<close>

theorem bsearch_linear:
  assumes "ascending tbl"
  shows "bsearch c tbl = row_below c tbl"
  using assms by (rule bsearch_row_below)

theorem bsearch_linear_witness:
  "bsearch 0x2005 space2_tbl = row_below 0x2005 space2_tbl"
  by (rule bsearch_linear) (simp add: space2_defs)

text \<open>
  C28. The character classes are exactly the membership of the tables: a rune is alphabetic when
  it lies in one of the ranges or single entries of the case and alphabet tables, and white
  space when it lies in a range of the space table, although the code only looks at one row.
\<close>

theorem rune_classes_exact:
  "(isalpharune c \<longleftrightarrow>
      any_range c tolower2_tbl \<or> any_single c tolower1_tbl \<or>
      any_range c toupper2_tbl \<or> any_single c toupper1_tbl \<or>
      any_range c alpha2_tbl \<or> any_single c alpha1_tbl) \<and>
   (isupperrune c \<longleftrightarrow> any_range c tolower2_tbl \<or> any_single c tolower1_tbl) \<and>
   (islowerrune c \<longleftrightarrow> any_range c toupper2_tbl \<or> any_single c toupper1_tbl) \<and>
   (isspacerune c \<longleftrightarrow> any_range c space2_tbl)"
  by (auto simp: isalpharune_def isupperrune_def islowerrune_def isspacerune_def class_eqs)

text \<open>
  Lower-casing a rune never makes its UTF-8 encoding longer, and keeps the length of every
  rune except the capital I with a dot (U+0130), which becomes the one-byte ASCII \<open>i\<close>.
\<close>

theorem tolower_length:
  "runelen (tolowerrune c) \<le> runelen c \<and>
   (runelen (tolowerrune c) = runelen c \<longleftrightarrow> c \<noteq> 0x130) \<and> tolowerrune 0x130 = 0x69"
proof (cases "c = 0x130")
  case True
  then show ?thesis
    by (simp add: tolower_dotted_I runelen_cases)
next
  case False
  then show ?thesis
    by (simp add: runelen_tolower tolower_dotted_I)
qed

end
