(* ===== verification/Doubles.thy ===== *)
theory Doubles
  imports Complex_Main Prelude
begin

text \<open>
  The C types \<open>double\<close> (IEEE binary64) and \<open>float\<close> (binary32) with the operations the library
  applies to them, executable and correctly rounded: a finite value is sign, integer
  significand and exponent, and every arithmetic operation computes the exact result and
  rounds it once, to nearest with ties to even, as the hardware does. NaN payloads are not
  distinguished.
\<close>

section \<open>Formats and values\<close>

datatype fp = NaN | Inf bool | Fin bool nat int
  \<comment> \<open>\<open>Fin s m e\<close> is m * 2^e, negated when \<open>s\<close> holds\<close>

record fp_format =
  prec :: nat      \<comment> \<open>bits of the significand\<close>
  emin :: int      \<comment> \<open>exponent of the smallest subnormal\<close>
  emax :: int      \<comment> \<open>largest exponent of a finite value's significand\<close>

definition binary64 :: fp_format where
  "binary64 = \<lparr>prec = 53, emin = -1074, emax = 971\<rparr>"

definition binary32 :: fp_format where
  "binary32 = \<lparr>prec = 24, emin = -149, emax = 104\<rparr>"

fun bitlen :: "nat \<Rightarrow> nat" where
  "bitlen n = (if n = 0 then 0 else Suc (bitlen (n div 2)))"

declare bitlen.simps [simp del]

lemma bitlen_0 [simp]: "bitlen 0 = 0"
  by (simp add: bitlen.simps)

lemma bitlen_le_iff: "bitlen n \<le> k \<longleftrightarrow> n < 2 ^ k"
proof (induction n arbitrary: k rule: bitlen.induct)
  case (1 n)
  show ?case
  proof (cases "n = 0")
    case False
    show ?thesis
    proof (cases k)
      case 0
      with False show ?thesis by (simp add: bitlen.simps [of n])
    next
      case (Suc j)
      with False "1.IH" [of j] show ?thesis
        by (auto simp: bitlen.simps [of n])
    qed
  qed simp
qed

lemma bitlen_gt_iff: "k < bitlen n \<longleftrightarrow> 2 ^ k \<le> n"
  using bitlen_le_iff [of n k] by linarith

lemma bitlen_double: "n > 0 \<Longrightarrow> bitlen (2 * n) = Suc (bitlen n)"
  by (simp add: bitlen.simps [of "2 * n"])

lemma bitlen_shift: "n > 0 \<Longrightarrow> bitlen (n * 2 ^ k) = bitlen n + k"
proof (induction k)
  case (Suc k)
  have "n * 2 ^ Suc k = 2 * (n * 2 ^ k)" by simp
  then have "bitlen (n * 2 ^ Suc k) = Suc (bitlen (n * 2 ^ k))"
    using Suc.prems by (simp only: bitlen_double [of "n * 2 ^ k"] mult_pos_pos zero_less_power zero_less_numeral)
  with Suc show ?case by simp
qed simp

lemma bitlen_numeral [simp]:
  "bitlen (Suc 0) = 1"
  "bitlen 1 = 1"
  "bitlen (numeral (num.Bit0 n)) = Suc (bitlen (numeral n))"
  "bitlen (numeral (num.Bit1 n)) = Suc (bitlen (numeral n))"
  by (simp_all add: bitlen.simps [of "Suc 0"] bitlen.simps [of 1]
    bitlen.simps [of "numeral (num.Bit0 n)"] bitlen.simps [of "numeral (num.Bit1 n)"])

lemma format_simps [simp]:
  "prec binary64 = 53" "emin binary64 = -1074" "emax binary64 = 971"
  "prec binary32 = 24" "emin binary32 = -149" "emax binary32 = 104"
  by (simp_all add: binary64_def binary32_def)

section \<open>Rounding\<close>

text \<open>
  \<open>fp_round f s m e sticky\<close> rounds the value \<open>m * 2^e\<close>, or when \<open>sticky\<close> holds a value
  strictly between \<open>m * 2^e\<close> and \<open>(m + 1) * 2^e\<close> (then \<open>m\<close> carries at least two more bits than
  the precision). The target exponent keeps \<open>prec\<close> bits, and never goes below \<open>emin\<close>.
\<close>

definition fp_target :: "fp_format \<Rightarrow> nat \<Rightarrow> int \<Rightarrow> int" where
  "fp_target f m e = max (emin f) (e + int (bitlen m) - int (prec f))"

definition fp_zero :: "fp_format \<Rightarrow> bool \<Rightarrow> fp" where
  "fp_zero f s = Fin s 0 (emin f)"

text \<open>Nearest integer to \<open>m / 2^k\<close> (a little more than that when \<open>sticky\<close>), ties to even.\<close>

definition rne_up :: "nat \<Rightarrow> nat \<Rightarrow> nat \<Rightarrow> bool \<Rightarrow> bool" where
  "rne_up q r half sticky \<longleftrightarrow> half < r \<or> (r = half \<and> (sticky \<or> odd q))"

definition rne :: "nat \<Rightarrow> nat \<Rightarrow> bool \<Rightarrow> nat" where
  "rne m k sticky =
     (if rne_up (m div 2 ^ k) (m mod 2 ^ k) (2 ^ (k - 1)) sticky
      then m div 2 ^ k + 1 else m div 2 ^ k)"

text \<open>A significand of at most \<open>2^prec\<close> at exponent \<open>t\<close>; overflow gives an infinity.\<close>

definition fp_pack :: "fp_format \<Rightarrow> bool \<Rightarrow> nat \<Rightarrow> int \<Rightarrow> fp" where
  "fp_pack f s q t =
     (if q = 0 then fp_zero f s
      else if q = 2 ^ prec f
        then (if emax f < t + 1 then Inf s else Fin s (2 ^ (prec f - 1)) (t + 1))
      else if emax f < t then Inf s else Fin s q t)"

definition fp_round_at :: "fp_format \<Rightarrow> bool \<Rightarrow> nat \<Rightarrow> int \<Rightarrow> bool \<Rightarrow> int \<Rightarrow> fp" where
  "fp_round_at f s m e sticky t =
     (if t \<le> e then fp_pack f s (m * 2 ^ nat (e - t)) t
      else fp_pack f s (rne m (nat (t - e)) sticky) t)"

definition fp_round :: "fp_format \<Rightarrow> bool \<Rightarrow> nat \<Rightarrow> int \<Rightarrow> bool \<Rightarrow> fp" where
  "fp_round f s m e sticky =
     (if m = 0 then fp_zero f s else fp_round_at f s m e sticky (fp_target f m e))"

definition fp_of_int :: "fp_format \<Rightarrow> int \<Rightarrow> fp" where
  "fp_of_int f i = fp_round f (i < 0) (nat \<bar>i\<bar>) 0 False"

section \<open>Arithmetic\<close>

definition signed :: "bool \<Rightarrow> nat \<Rightarrow> int" where
  "signed s m = (if s then - int m else int m)"

fun fp_neg :: "fp \<Rightarrow> fp" where
  "fp_neg NaN = NaN"
| "fp_neg (Inf s) = Inf (\<not> s)"
| "fp_neg (Fin s m e) = Fin (\<not> s) m e"

text \<open>Two finite values over their common exponent.\<close>

definition aligned :: "bool \<Rightarrow> nat \<Rightarrow> int \<Rightarrow> int \<Rightarrow> int" where
  "aligned s m e e0 = signed s (m * 2 ^ nat (e - e0))"

definition fp_sum :: "fp_format \<Rightarrow> bool \<Rightarrow> int \<Rightarrow> int \<Rightarrow> fp" where
  "fp_sum f s z e =
     (if z = 0 then fp_zero f s else fp_round f (z < 0) (nat \<bar>z\<bar>) e False)"

fun fp_add :: "fp_format \<Rightarrow> fp \<Rightarrow> fp \<Rightarrow> fp" where
  "fp_add f NaN y = NaN"
| "fp_add f x NaN = NaN"
| "fp_add f (Inf s) (Inf t) = (if s = t then Inf s else NaN)"
| "fp_add f (Inf s) (Fin t m e) = Inf s"
| "fp_add f (Fin t m e) (Inf s) = Inf s"
| "fp_add f (Fin s1 m1 e1) (Fin s2 m2 e2) =
     fp_sum f (s1 \<and> s2)
       (aligned s1 m1 e1 (min e1 e2) + aligned s2 m2 e2 (min e1 e2)) (min e1 e2)"

definition fp_sub :: "fp_format \<Rightarrow> fp \<Rightarrow> fp \<Rightarrow> fp" where
  "fp_sub f x y = fp_add f x (fp_neg y)"

fun fp_mul :: "fp_format \<Rightarrow> fp \<Rightarrow> fp \<Rightarrow> fp" where
  "fp_mul f NaN y = NaN"
| "fp_mul f x NaN = NaN"
| "fp_mul f (Inf s) (Inf t) = Inf (s \<noteq> t)"
| "fp_mul f (Inf s) (Fin t m e) = (if m = 0 then NaN else Inf (s \<noteq> t))"
| "fp_mul f (Fin t m e) (Inf s) = (if m = 0 then NaN else Inf (s \<noteq> t))"
| "fp_mul f (Fin s1 m1 e1) (Fin s2 m2 e2) = fp_round f (s1 \<noteq> s2) (m1 * m2) (e1 + e2) False"

definition fp_quotient :: "fp_format \<Rightarrow> bool \<Rightarrow> nat \<Rightarrow> nat \<Rightarrow> int \<Rightarrow> nat \<Rightarrow> fp" where
  "fp_quotient f s n d e k =
     fp_round f s (n * 2 ^ k div d) (e - int k) (n * 2 ^ k mod d \<noteq> 0)"

fun fp_div :: "fp_format \<Rightarrow> fp \<Rightarrow> fp \<Rightarrow> fp" where
  "fp_div f NaN y = NaN"
| "fp_div f x NaN = NaN"
| "fp_div f (Inf s) (Inf t) = NaN"
| "fp_div f (Inf s) (Fin t m e) = Inf (s \<noteq> t)"
| "fp_div f (Fin t m e) (Inf s) = fp_zero f (s \<noteq> t)"
| "fp_div f (Fin s1 m1 e1) (Fin s2 m2 e2) =
     (if m2 = 0 then (if m1 = 0 then NaN else Inf (s1 \<noteq> s2))
      else fp_quotient f (s1 \<noteq> s2) m1 m2 (e1 - e2) (prec f + 2 + bitlen m2))"

section \<open>Comparison and conversion\<close>

fun fp_lt :: "fp \<Rightarrow> fp \<Rightarrow> bool" where
  "fp_lt NaN y = False"
| "fp_lt x NaN = False"
| "fp_lt (Inf s) (Inf t) = (s \<and> \<not> t)"
| "fp_lt (Inf s) (Fin t m e) = s"
| "fp_lt (Fin t m e) (Inf s) = (\<not> s)"
| "fp_lt (Fin s1 m1 e1) (Fin s2 m2 e2) =
     (aligned s1 m1 e1 (min e1 e2) < aligned s2 m2 e2 (min e1 e2))"

fun fp_eq :: "fp \<Rightarrow> fp \<Rightarrow> bool" where
  "fp_eq NaN y = False"
| "fp_eq x NaN = False"
| "fp_eq (Inf s) (Inf t) = (s = t)"
| "fp_eq (Inf s) (Fin t m e) = False"
| "fp_eq (Fin t m e) (Inf s) = False"
| "fp_eq (Fin s1 m1 e1) (Fin s2 m2 e2) =
     (aligned s1 m1 e1 (min e1 e2) = aligned s2 m2 e2 (min e1 e2))"

definition fp_le :: "fp \<Rightarrow> fp \<Rightarrow> bool" where
  "fp_le x y \<longleftrightarrow> fp_lt x y \<or> fp_eq x y"

text \<open>
  Conversion to \<open>size_t\<close>: truncation towards zero, undefined when the truncated value does
  not fit (NaN and the infinities included).
\<close>

fun fp_trunc :: "fp \<Rightarrow> int option" where
  "fp_trunc NaN = None"
| "fp_trunc (Inf s) = None"
| "fp_trunc (Fin s m e) =
     Some (signed s (if 0 \<le> e then m * 2 ^ nat e else m div 2 ^ nat (- e)))"

definition fp_to_size :: "fp \<Rightarrow> nat run" where
  "fp_to_size x =
     (case fp_trunc x of
        None \<Rightarrow> Inl BadConvert
      | Some i \<Rightarrow> if 0 \<le> i \<and> i < 2 ^ 64 then Inr (nat i) else Inl BadConvert)"

section \<open>The C type \<open>double\<close>\<close>

abbreviation d_add :: "fp \<Rightarrow> fp \<Rightarrow> fp" where "d_add \<equiv> fp_add binary64"
abbreviation d_sub :: "fp \<Rightarrow> fp \<Rightarrow> fp" where "d_sub \<equiv> fp_sub binary64"
abbreviation d_mul :: "fp \<Rightarrow> fp \<Rightarrow> fp" where "d_mul \<equiv> fp_mul binary64"
abbreviation d_div :: "fp \<Rightarrow> fp \<Rightarrow> fp" where "d_div \<equiv> fp_div binary64"
abbreviation d_int :: "int \<Rightarrow> fp" where "d_int \<equiv> fp_of_int binary64"
abbreviation d_zero :: fp where "d_zero \<equiv> Fin False 0 (-1074)"

section \<open>Values of finite numbers, and the order\<close>

definition fp_val :: "bool \<Rightarrow> nat \<Rightarrow> int \<Rightarrow> real" where
  "fp_val s m e = real_of_int (signed s m) * 2 powi e"

lemma aligned_val: "e0 \<le> e \<Longrightarrow> real_of_int (aligned s m e e0) * 2 powi e0 = fp_val s m e"
proof -
  assume "e0 \<le> e"
  then have "(2::real) powi e = 2 ^ nat (e - e0) * 2 powi e0"
    by (metis add.commute diff_add_cancel power_int_add power_int_of_nat zero_neq_numeral
        int_nat_eq diff_ge_0_iff_ge)
  then show ?thesis by (simp add: aligned_def signed_def fp_val_def)
qed

lemma aligned_less:
  assumes "e0 \<le> e1" "e0 \<le> e2"
  shows "aligned s1 m1 e1 e0 < aligned s2 m2 e2 e0 \<longleftrightarrow> fp_val s1 m1 e1 < fp_val s2 m2 e2"
proof -
  have "fp_val s1 m1 e1 < fp_val s2 m2 e2 \<longleftrightarrow>
        real_of_int (aligned s1 m1 e1 e0) * 2 powi e0 < real_of_int (aligned s2 m2 e2 e0) * 2 powi e0"
    using assms by (simp add: aligned_val)
  then show ?thesis by simp
qed

lemma aligned_eq:
  assumes "e0 \<le> e1" "e0 \<le> e2"
  shows "aligned s1 m1 e1 e0 = aligned s2 m2 e2 e0 \<longleftrightarrow> fp_val s1 m1 e1 = fp_val s2 m2 e2"
  using aligned_less [OF assms, of s1 m1 s2 m2] aligned_less [OF assms(2,1), of s2 m2 s1 m1]
  by linarith

text \<open>
  From here on the comparisons of finite values are those of their values; the executable
  equations stay available in \<open>fp_eval\<close>, which evaluates closed terms.
\<close>

lemmas fp_eval = fp_lt.simps fp_eq.simps fp_le_def fp_of_int_def fp_round_def fp_target_def
  fp_round_at_def fp_pack_def rne_def rne_up_def aligned_def signed_def fp_zero_def
  fp_sum_def fp_quotient_def fp_sub_def fp_to_size_def

lemma fp_lt_Fin [fp_simps]:
  "fp_lt (Fin s1 m1 e1) (Fin s2 m2 e2) \<longleftrightarrow> fp_val s1 m1 e1 < fp_val s2 m2 e2"
  by (simp add: aligned_less)

lemma fp_eq_Fin [fp_simps]:
  "fp_eq (Fin s1 m1 e1) (Fin s2 m2 e2) \<longleftrightarrow> fp_val s1 m1 e1 = fp_val s2 m2 e2"
  by (simp add: aligned_eq)

lemma fp_lt_Inf [fp_simps]:
  "fp_lt (Inf s) (Inf t) = (s \<and> \<not> t)" "fp_lt (Inf s) (Fin t m e) = s"
  "fp_lt (Fin t m e) (Inf s) = (\<not> s)" "fp_eq (Inf s) (Inf t) = (s = t)"
  "\<not> fp_eq (Inf s) (Fin t m e)" "\<not> fp_eq (Fin t m e) (Inf s)"
  by simp_all

declare fp_lt.simps [simp del] fp_eq.simps [simp del]

lemma fp_NaN [simp]: "\<not> fp_lt x NaN" "\<not> fp_eq x NaN" "\<not> fp_lt NaN x" "\<not> fp_eq NaN x"
  by (cases x; simp add: fp_lt.simps fp_eq.simps)+

lemma fp_lt_irrefl [simp]: "\<not> fp_lt x x"
  by (cases x) (auto simp: fp_simps)

lemma fp_eq_refl: "x \<noteq> NaN \<Longrightarrow> fp_eq x x"
  by (cases x) (auto simp: fp_simps)

lemma fp_eq_sym: "fp_eq x y \<Longrightarrow> fp_eq y x"
  by (cases x; cases y) (auto simp: fp_simps)

lemma fp_lt_trans: "fp_lt x y \<Longrightarrow> fp_lt y z \<Longrightarrow> fp_lt x z"
  by (cases x; cases y; cases z) (auto simp: fp_simps)

lemma fp_lt_asym: "fp_lt x y \<Longrightarrow> \<not> fp_lt y x"
  using fp_lt_trans fp_lt_irrefl by blast

lemma fp_lt_not_eq: "fp_lt x y \<Longrightarrow> \<not> fp_eq x y"
  by (cases x; cases y) (auto simp: fp_simps)

lemma fp_eq_lt_trans: "fp_eq x y \<Longrightarrow> fp_lt y z \<Longrightarrow> fp_lt x z"
  by (cases x; cases y; cases z)
    (auto simp: fp_simps)

lemma fp_lt_eq_trans: "fp_lt x y \<Longrightarrow> fp_eq y z \<Longrightarrow> fp_lt x z"
  by (cases x; cases y; cases z)
    (auto simp: fp_simps)

lemma fp_total: "x \<noteq> NaN \<Longrightarrow> y \<noteq> NaN \<Longrightarrow> fp_lt x y \<or> fp_eq x y \<or> fp_lt y x"
  by (cases x; cases y) (auto simp: fp_simps)

lemma fp_not_lt: "x \<noteq> NaN \<Longrightarrow> y \<noteq> NaN \<Longrightarrow> \<not> fp_lt x y \<longleftrightarrow> fp_le y x"
  using fp_total [of x y] fp_lt_asym [of y x] fp_lt_not_eq [of x y] fp_eq_sym [of x y]
    fp_eq_sym [of y x] by (auto simp: fp_le_def)

section \<open>Integers are exact\<close>

text \<open>Rounding looks at the value only: scaling the significand by a power of two is undone.\<close>

lemma fp_target_shift: "m > 0 \<Longrightarrow> fp_target f (m * 2 ^ k) e = fp_target f m (e + int k)"
  by (simp add: fp_target_def bitlen_shift)

lemma rne_shift:
  assumes "k < j"
  shows "rne (m * 2 ^ k) j False = rne m (j - k) False"
proof -
  obtain d where d: "j = k + d" "d > 0"
    using assms by (metis less_imp_add_positive)
  have 1: "m * 2 ^ k div 2 ^ j = m div 2 ^ d"
    by (simp add: d power_add mult.commute)
  have 2: "m * 2 ^ k mod 2 ^ j = (m mod 2 ^ d) * 2 ^ k"
    by (simp add: d power_add mult.commute mod_mult_mult1)
  have 3: "(2::nat) ^ (j - 1) = 2 ^ (d - 1) * 2 ^ k"
    using d by (simp add: power_add [symmetric])
  have 4: "j - k = d" using d by simp
  show ?thesis unfolding rne_def rne_up_def 1 2 3 4 by simp
qed

lemma rne_exact: "j \<le> k \<Longrightarrow> rne (m * 2 ^ k) j False = m * 2 ^ (k - j)"
proof -
  assume "j \<le> k"
  then have e: "m * 2 ^ k = m * 2 ^ (k - j) * 2 ^ j"
    by (simp add: power_add [symmetric])
  show ?thesis unfolding e by (simp add: rne_def rne_up_def)
qed

lemma fp_round_shift:
  assumes "m > 0"
  shows "fp_round f s (m * 2 ^ k) e False = fp_round f s m (e + int k) False"
proof -
  let ?t = "fp_target f m (e + int k)"
  have t: "fp_target f (m * 2 ^ k) e = ?t" using assms by (rule fp_target_shift)
  consider "?t \<le> e" | "e < ?t" "?t \<le> e + int k" | "e + int k < ?t" by linarith
  then have "fp_round_at f s (m * 2 ^ k) e False ?t = fp_round_at f s m (e + int k) False ?t"
  proof cases
    case 1
    then have "nat (e + int k - ?t) = k + nat (e - ?t)" by linarith
    with 1 show ?thesis by (simp add: fp_round_at_def power_add mult.assoc)
  next
    case 2
    then have "nat (e + int k - ?t) = k - nat (?t - e)" "nat (?t - e) \<le> k" by linarith+
    with 2 show ?thesis by (simp add: fp_round_at_def rne_exact)
  next
    case 3
    then have "nat (?t - (e + int k)) = nat (?t - e) - k" "k < nat (?t - e)" by linarith+
    with 3 show ?thesis by (simp add: fp_round_at_def rne_shift)
  qed
  with assms t show ?thesis by (simp add: fp_round_def)
qed

lemma d_int_eq:
  assumes "i \<noteq> 0" "\<bar>i\<bar> < 2 ^ 53"
  shows "d_int i = Fin (i < 0) (nat \<bar>i\<bar> * 2 ^ (53 - bitlen (nat \<bar>i\<bar>)))
                     (int (bitlen (nat \<bar>i\<bar>)) - 53)"
proof -
  let ?m = "nat \<bar>i\<bar>" and ?L = "bitlen (nat \<bar>i\<bar>)"
  have lt: "?m < 2 ^ 53" using assms(2) by (simp add: nat_less_iff)
  then have L: "?L \<le> 53" by (simp only: bitlen_le_iff)
  have t: "fp_target binary64 ?m 0 = int ?L - 53"
    by (simp add: fp_target_def)
  have "?m * 2 ^ (53 - ?L) < 2 ^ 53"
  proof -
    have "?m < 2 ^ ?L" using bitlen_le_iff [of ?m ?L] by simp
    then have "?m * 2 ^ (53 - ?L) < 2 ^ ?L * 2 ^ (53 - ?L)" by simp
    also have "\<dots> = 2 ^ 53" using L by (simp only: power_add [symmetric]) simp
    finally show ?thesis .
  qed
  moreover have "?m * 2 ^ (53 - ?L) \<noteq> 0" using assms(1) by simp
  moreover have "nat (0 - (int ?L - 53)) = 53 - ?L" using L by linarith
  ultimately show ?thesis using assms(1) L t
    by (simp add: fp_of_int_def fp_round_def fp_round_at_def fp_pack_def)
qed

lemma d_int_0 [simp]: "d_int 0 = d_zero"
  by (simp add: fp_of_int_def fp_round_def fp_zero_def)

text \<open>The shape shared by all exactly represented integers, zero included.\<close>

definition int_rep :: "int \<Rightarrow> nat \<Rightarrow> int \<Rightarrow> bool" where
  "int_rep i m e \<longleftrightarrow> e \<le> 0 \<and> m = nat \<bar>i\<bar> * 2 ^ nat (- e)"

lemma d_int_rep:
  assumes "\<bar>i\<bar> < 2 ^ 53"
  obtains m e where "d_int i = Fin (i < 0) m e" "int_rep i m e"
proof (cases "i = 0")
  case True
  then show ?thesis by (intro that [of 0 "-1074"]) (simp_all add: int_rep_def)
next
  case False
  have "nat \<bar>i\<bar> < 2 ^ 53" using assms by (simp add: nat_less_iff)
  then have "bitlen (nat \<bar>i\<bar>) \<le> 53" by (simp only: bitlen_le_iff)
  then have "nat (- (int (bitlen (nat \<bar>i\<bar>)) - 53)) = 53 - bitlen (nat \<bar>i\<bar>)" by linarith
  then show ?thesis
    using False assms \<open>bitlen (nat \<bar>i\<bar>) \<le> 53\<close>
    by (intro that [OF d_int_eq]) (simp_all add: int_rep_def)
qed

lemma aligned_rep:
  assumes "int_rep i m e" "e0 \<le> e"
  shows "aligned (i < 0) m e e0 = i * 2 ^ nat (- e0)"
proof -
  have "nat (- e0) = nat (- e) + nat (e - e0)"
    using assms by (auto simp: int_rep_def)
  then show ?thesis
    using assms by (auto simp: int_rep_def aligned_def signed_def power_add)
qed

lemma fp_val_rep: "int_rep i m e \<Longrightarrow> fp_val (i < 0) m e = real_of_int i"
  by (cases "e = 0")
    (auto simp: int_rep_def fp_val_def signed_def power_int_def power_inverse
      simp flip: power_mult_distrib)

lemma round_rep:
  assumes "z \<noteq> 0"
  shows "fp_round binary64 (z < 0) (nat \<bar>z * 2 ^ k\<bar>) (- int k) False = d_int z"
proof -
  have "nat \<bar>z * 2 ^ k\<bar> = nat \<bar>z\<bar> * 2 ^ k"
    by (simp add: abs_mult nat_mult_distrib nat_power_eq)
  then show ?thesis
    using fp_round_shift [of "nat \<bar>z\<bar>" binary64 "z < 0" k "- int k"] assms
    by (simp add: fp_of_int_def)
qed

lemma sign_shift: "(z * 2 ^ k < 0) = (z < (0::int))"
  by (simp add: mult_less_0_iff)

lemma d_int_add:
  assumes "\<bar>a\<bar> < 2 ^ 53" "\<bar>b\<bar> < 2 ^ 53"
  shows "d_add (d_int a) (d_int b) = d_int (a + b)"
proof -
  obtain m1 e1 where 1: "d_int a = Fin (a < 0) m1 e1" "int_rep a m1 e1"
    using assms(1) by (rule d_int_rep)
  obtain m2 e2 where 2: "d_int b = Fin (b < 0) m2 e2" "int_rep b m2 e2"
    using assms(2) by (rule d_int_rep)
  let ?e = "min e1 e2"
  have e: "?e \<le> 0" using 1(2) by (auto simp: int_rep_def min_def)
  have z: "aligned (a < 0) m1 e1 ?e + aligned (b < 0) m2 e2 ?e = (a + b) * 2 ^ nat (- ?e)"
    using aligned_rep [OF 1(2), of ?e] aligned_rep [OF 2(2), of ?e] by (simp add: distrib_right)
  have r: "fp_round binary64 (a + b < 0) (nat \<bar>(a + b) * 2 ^ nat (- ?e)\<bar>) ?e False = d_int (a + b)"
    if "a + b \<noteq> 0" using round_rep [OF that, of "nat (- ?e)"] e by simp
  show ?thesis
    unfolding 1(1) 2(1) fp_add.simps z fp_sum_def sign_shift
    using r by (auto simp: fp_zero_def)
qed

lemma d_int_neg: "i \<noteq> 0 \<Longrightarrow> \<bar>i\<bar> < 2 ^ 53 \<Longrightarrow> fp_neg (d_int i) = d_int (- i)"
  by (auto simp: d_int_eq)

lemma d_int_mul:
  assumes "\<bar>a\<bar> < 2 ^ 53" "\<bar>b\<bar> < 2 ^ 53" "a \<noteq> 0 \<and> b \<noteq> 0 \<or> 0 \<le> a \<and> 0 \<le> b"
  shows "d_mul (d_int a) (d_int b) = d_int (a * b)"
proof -
  obtain m1 e1 where 1: "d_int a = Fin (a < 0) m1 e1" "int_rep a m1 e1"
    using assms(1) by (rule d_int_rep)
  obtain m2 e2 where 2: "d_int b = Fin (b < 0) m2 e2" "int_rep b m2 e2"
    using assms(2) by (rule d_int_rep)
  have m: "m1 * m2 = nat \<bar>a * b * 2 ^ nat (- (e1 + e2))\<bar>"
  proof -
    have "nat (- (e1 + e2)) = nat (- e1) + nat (- e2)"
      using 1(2) 2(2) by (auto simp: int_rep_def)
    then show ?thesis using 1(2) 2(2)
      by (simp add: int_rep_def abs_mult nat_mult_distrib nat_power_eq power_add)
  qed
  have "fp_round binary64 ((a < 0) \<noteq> (b < 0)) (m1 * m2) (e1 + e2) False = d_int (a * b)"
  proof (cases "a * b = 0")
    case True
    with assms(3) m show ?thesis by (auto simp: fp_round_def fp_zero_def)
  next
    case False
    then have "(a * b < 0) = ((a < 0) \<noteq> (b < 0))" by (auto simp: mult_less_0_iff)
    moreover have "- int (nat (- (e1 + e2))) = e1 + e2"
      using 1(2) 2(2) by (simp add: int_rep_def)
    ultimately show ?thesis
      using round_rep [OF False, of "nat (- (e1 + e2))"] m by simp
  qed
  then show ?thesis by (simp add: 1(1) 2(1))
qed

lemma d_int_sub:
  assumes "\<bar>a\<bar> < 2 ^ 53" "\<bar>b\<bar> < 2 ^ 53"
  shows "d_sub (d_int a) (d_int b) = d_int (a - b)"
proof -
  obtain m1 e1 where 1: "d_int a = Fin (a < 0) m1 e1" "int_rep a m1 e1"
    using assms(1) by (rule d_int_rep)
  obtain m2 e2 where 2: "d_int b = Fin (b < 0) m2 e2" "int_rep b m2 e2"
    using assms(2) by (rule d_int_rep)
  let ?e = "min e1 e2"
  have e: "?e \<le> 0" using 1(2) by (auto simp: int_rep_def min_def)
  have "aligned (\<not> b < 0) m2 e2 ?e = - aligned (b < 0) m2 e2 ?e"
    by (simp add: aligned_def signed_def)
  then have z: "aligned (a < 0) m1 e1 ?e + aligned (\<not> b < 0) m2 e2 ?e = (a - b) * 2 ^ nat (- ?e)"
    using aligned_rep [OF 1(2), of ?e] aligned_rep [OF 2(2), of ?e] by (simp add: left_diff_distrib)
  have r: "fp_round binary64 (a - b < 0) (nat \<bar>(a - b) * 2 ^ nat (- ?e)\<bar>) ?e False = d_int (a - b)"
    if "a - b \<noteq> 0" using round_rep [OF that, of "nat (- ?e)"] e by simp
  show ?thesis
    unfolding fp_sub_def 1(1) 2(1) fp_neg.simps fp_add.simps z fp_sum_def sign_shift
    using r by (auto simp: fp_zero_def)
qed

lemma d_int_lt:
  assumes "\<bar>a\<bar> < 2 ^ 53" "\<bar>b\<bar> < 2 ^ 53"
  shows "fp_lt (d_int a) (d_int b) \<longleftrightarrow> a < b"
  using assms by (elim d_int_rep) (simp add: fp_simps fp_val_rep)

lemma d_int_eq_iff:
  assumes "\<bar>a\<bar> < 2 ^ 53" "\<bar>b\<bar> < 2 ^ 53"
  shows "fp_eq (d_int a) (d_int b) \<longleftrightarrow> a = b"
  using assms by (elim d_int_rep) (simp add: fp_simps fp_val_rep)

lemma d_int_le:
  assumes "\<bar>a\<bar> < 2 ^ 53" "\<bar>b\<bar> < 2 ^ 53"
  shows "fp_le (d_int a) (d_int b) \<longleftrightarrow> a \<le> b"
  using d_int_lt [OF assms] d_int_eq_iff [OF assms] by (auto simp: fp_le_def)

lemma d_int_div:
  assumes "\<bar>a * b\<bar> < 2 ^ 53" "0 < b" "b < 2 ^ 53"
  shows "d_div (d_int (a * b)) (d_int b) = d_int a"
proof -
  obtain m1 e1 where 1: "d_int (a * b) = Fin (a * b < 0) m1 e1" "int_rep (a * b) m1 e1"
    using assms(1) by (rule d_int_rep)
  have "\<bar>b\<bar> < 2 ^ 53" using assms by simp
  then obtain m2 e2 where 2: "d_int b = Fin (b < 0) m2 e2" "int_rep b m2 e2"
    by (rule d_int_rep)
  define k where "k = prec binary64 + 2 + bitlen m2"
  define j where "j = nat (- e1) + k - nat (- e2)"
  have m2: "m2 = nat b * 2 ^ nat (- e2)" "m2 > 0"
    using 2(2) assms(2) by (simp_all add: int_rep_def)
  have k: "nat (- e2) \<le> k"
    using m2 assms(2) by (simp add: k_def bitlen_shift)
  have "nat (- e2) + j = nat (- e1) + k" using k by (simp add: j_def)
  then have pw: "(2::nat) ^ nat (- e1) * 2 ^ k = 2 ^ nat (- e2) * 2 ^ j"
    by (simp only: power_add [symmetric])
  have "m1 * 2 ^ k = nat \<bar>a\<bar> * nat b * (2 ^ nat (- e1) * 2 ^ k)"
    using 1(2) assms(2) by (simp add: int_rep_def abs_mult nat_mult_distrib)
  also have "\<dots> = m2 * (nat \<bar>a\<bar> * 2 ^ j)"
    unfolding pw m2(1) by simp
  finally have n: "m1 * 2 ^ k = m2 * (nat \<bar>a\<bar> * 2 ^ j)" .
  have ej: "e1 - e2 - int k = - int j"
    using 1(2) 2(2) k by (auto simp: int_rep_def j_def)
  have "fp_round binary64 (a < 0) (nat \<bar>a\<bar> * 2 ^ j) (- int j) False = d_int a"
  proof (cases "a = 0")
    case True
    then show ?thesis by (simp add: fp_round_def fp_zero_def)
  next
    case False
    have "nat \<bar>a * 2 ^ j\<bar> = nat \<bar>a\<bar> * 2 ^ j"
      by (simp add: abs_mult nat_mult_distrib nat_power_eq)
    with round_rep [OF False, of j] show ?thesis by simp
  qed
  moreover have "((a * b < 0) \<noteq> (b < 0)) = (a < 0)"
    using assms(2) by (simp add: mult_less_0_iff)
  ultimately show ?thesis
    unfolding 1(1) 2(1) fp_div.simps fp_quotient_def k_def [symmetric] n ej
    using m2(2) by simp
qed

lemma fp_to_size_int:
  assumes "0 \<le> n" "n < 2 ^ 53"
  shows "fp_to_size (d_int n) = Inr (nat n)"
proof -
  have "\<bar>n\<bar> < 2 ^ 53" using assms by simp
  then obtain m e where 1: "d_int n = Fin (n < 0) m e" "int_rep n m e"
    by (rule d_int_rep)
  have "n < 2 ^ 64" using assms(2) by simp
  with 1 assms(1) show ?thesis
    by (cases "e = 0") (auto simp: fp_to_size_def int_rep_def signed_def)
qed

section \<open>The interface: numbers the simulation's clock runs on\<close>

text \<open>
  The time keeping of the simulator needs sums, products and comparisons that agree with
  the integers on a range. \<open>exact_arith\<close> states that contract for an embedding \<open>of\<close> of the
  integers whose absolute value is below \<open>bound\<close>.
\<close>

locale exact_arith =
  fixes emb :: "int \<Rightarrow> 'd"
    and add :: "'d \<Rightarrow> 'd \<Rightarrow> 'd"
    and mul :: "'d \<Rightarrow> 'd \<Rightarrow> 'd"
    and le :: "'d \<Rightarrow> 'd \<Rightarrow> bool"
    and bound :: int
  assumes emb_add: "\<bar>a\<bar> < bound \<Longrightarrow> \<bar>b\<bar> < bound \<Longrightarrow> add (emb a) (emb b) = emb (a + b)"
    and emb_mul: "0 \<le> a \<Longrightarrow> 0 \<le> b \<Longrightarrow> a < bound \<Longrightarrow> b < bound \<Longrightarrow> mul (emb a) (emb b) = emb (a * b)"
    and emb_le: "\<bar>a\<bar> < bound \<Longrightarrow> \<bar>b\<bar> < bound \<Longrightarrow> le (emb a) (emb b) \<longleftrightarrow> a \<le> b"
begin

text \<open>The clock formula \<open>start + n * dt\<close> is exact.\<close>

lemma clock_exact:
  assumes "\<bar>start\<bar> < bound" "0 \<le> n" "n < bound" "0 \<le> dt" "dt < bound" "n * dt < bound"
  shows "add (emb start) (mul (emb n) (emb dt)) = emb (start + n * dt)"
proof -
  have "\<bar>n * dt\<bar> < bound" using assms by simp
  then show ?thesis using assms by (simp add: emb_mul emb_add)
qed

text \<open>Repeated addition of a constant, as an integrator does it.\<close>

lemma accumulate_exact:
  assumes "\<And>k. k \<le> n \<Longrightarrow> \<bar>start + int k * d\<bar> < bound" "\<bar>d\<bar> < bound"
  shows "((\<lambda>x. add x (emb d)) ^^ n) (emb start) = emb (start + int n * d)"
  using assms
proof (induction n)
  case (Suc n)
  have "\<bar>start + int n * d\<bar> < bound" using Suc.prems(1) [of n] by simp
  with Suc show ?case by (simp add: emb_add algebra_simps)
qed simp

end

interpretation dbl: exact_arith d_int d_add d_mul fp_le "2 ^ 53"
  by unfold_locales (simp_all add: d_int_add d_int_mul d_int_le)

end
