(* ===== verification/CStrings.thy ===== *)
theory CStrings
  imports RuneTypes Doubles
begin

text \<open>
  String and numeric helpers of \<^verbatim>\<open>util.c\<close>: \<open>strrepl\<close>, \<open>strtrim\<close>, \<open>utf8_tolower\<close>, \<open>round_up\<close>,
  \<open>canonicalize\<close>, and the interpolating \<open>lookup\<close> of graphical functions. Strings that are only
  read, or rewritten from left to right, are byte lists without their NUL; \<open>utf8_tolower\<close>
  rewrites its buffer in place while it reads it, so it works on the buffer itself, a list of
  optional bytes in which \<open>None\<close> is a byte nobody has written. Allocations succeed.
\<close>

section \<open>Replacing\<close>

text \<open>\<open>strstr\<close>: the offset of the first occurrence.\<close>

fun strstr :: "cstr \<Rightarrow> cstr \<Rightarrow> nat option" where
  "strstr [] orig = (if orig = [] then Some 0 else None)"
| "strstr (c # cs) orig =
     (if take (length orig) (c # cs) = orig then Some 0 else map_option Suc (strstr cs orig))"

text \<open>
  The loop of \<open>strrepl\<close>, from the current position: the rest of the string as the loop leaves
  it and the number of replacements; \<open>None\<close> when the loop does not end.
\<close>

partial_function (option) strrepl_loop :: "cstr \<Rightarrow> cstr \<Rightarrow> cstr \<Rightarrow> (cstr \<times> nat) option" where
  "strrepl_loop orig new s =
     (case strstr s orig of
        None \<Rightarrow> Some (s, 0)
      | Some i \<Rightarrow>
          Option.bind (strrepl_loop orig new (drop (i + length orig) s))
            (\<lambda>(t, k). Some (take i s @ new @ t, Suc k)))"

definition strrepl :: "cstr \<Rightarrow> cstr \<Rightarrow> cstr \<Rightarrow> (cstr \<times> nat) option" where
  "strrepl s orig new =
     (if int (length orig) - int (length new) < 0 then Some (s, 0)
      else strrepl_loop orig new s)"

text \<open>The reference: one pass over the string.\<close>

function replace_all :: "cstr \<Rightarrow> cstr \<Rightarrow> cstr \<Rightarrow> cstr" where
  "replace_all orig new s =
     (if s = [] \<or> orig = [] then s
      else if take (length orig) s = orig then new @ replace_all orig new (drop (length orig) s)
      else hd s # replace_all orig new (tl s))"
  by pat_completeness auto
termination by (relation "measure (\<lambda>(_, _, s). length s)") auto

declare replace_all.simps [simp del]

lemma replace_all_Nil [simp]: "replace_all orig new [] = []"
  by (simp add: replace_all.simps)

lemma strstr_None: "strstr s orig = None \<Longrightarrow> replace_all orig new s = s"
  by (induction s orig rule: strstr.induct)
    (auto simp: replace_all.simps [of orig new "c # cs" for orig c cs] split: if_splits)

lemma strstr_Some:
  "strstr s orig = Some i \<Longrightarrow> orig \<noteq> [] \<Longrightarrow>
   replace_all orig new s = take i s @ new @ replace_all orig new (drop (i + length orig) s)"
proof (induction s orig arbitrary: i rule: strstr.induct)
  case (2 c cs orig)
  then show ?case
    by (cases "take (length orig) (c # cs) = orig")
      (auto simp: replace_all.simps [of orig new "c # cs"] split: if_splits)
qed (simp split: if_splits)

lemma strstr_inside: "strstr s orig = Some i \<Longrightarrow> i + length orig \<le> length s"
proof (induction s orig arbitrary: i rule: strstr.induct)
  case (2 c cs orig)
  show ?case
  proof (cases "take (length orig) (c # cs) = orig")
    case True
    then have "length orig \<le> length (c # cs)"
      by (metis length_take min.cobounded1)
    then show ?thesis
      using 2(2) True by simp
  next
    case False
    then show ?thesis
      using 2 by auto
  qed
qed (simp split: if_splits)

lemma strrepl_loop_replace:
  "orig \<noteq> [] \<Longrightarrow> \<exists>k. strrepl_loop orig new s = Some (replace_all orig new s, k)"
proof (induction s rule: length_induct)
  case (1 s)
  show ?case
  proof (cases "strstr s orig")
    case None
    then show ?thesis
      by (simp add: strrepl_loop.simps strstr_None)
  next
    case (Some i)
    then have "length (drop (i + length orig) s) < length s"
      using strstr_inside [OF Some] 1(2) by (cases orig) auto
    then obtain k where "strrepl_loop orig new (drop (i + length orig) s) =
        Some (replace_all orig new (drop (i + length orig) s), k)"
      using 1 by blast
    then show ?thesis
      using Some 1(2) by (subst strrepl_loop.simps) (simp add: strstr_Some [of s orig i new])
  qed
qed

lemma strstr_empty [simp]: "strstr s [] = Some 0"
  by (cases s) simp_all

lemma strrepl_loop_empty: "strrepl_loop [] new s = None"
proof -
  have "orig \<noteq> []" if "strrepl_loop orig new s = Some y" for orig new s y
  proof (rule strrepl_loop.raw_induct [OF _ that], rule notI)
    fix f orig new s y
    assume IH: "\<And>orig new s y. f orig new s = Some y \<Longrightarrow> orig \<noteq> []" and "orig = []"
      and "(case strstr s orig of None \<Rightarrow> Some (s, 0)
            | Some i \<Rightarrow> Option.bind (f orig new (drop (i + length orig) s))
                (\<lambda>(t, k). Some (take i s @ new @ t, Suc k))) = Some y"
    then obtain z where "f [] new s = Some z"
      by (auto split: bind_splits)
    then show False
      using IH by blast
  qed
  then show ?thesis
    by (metis not_None_eq)
qed

lemma replace_all_char:
  "replace_all [a] [b] s = map (\<lambda>c. if c = a then b else c) s"
  by (induction s) (auto simp: replace_all.simps [of _ _ "c # cs" for c cs])

lemma replace_all_length:
  assumes "length new \<le> length orig"
  shows "length (replace_all orig new s) \<le> length s"
proof (induction s rule: length_induct)
  case (1 s)
  show ?case
  proof (cases "s = [] \<or> orig = []")
    case True
    then show ?thesis
      by (subst replace_all.simps) auto
  next
    case False
    then obtain c cs where s: "s = c # cs" and o: "orig \<noteq> []"
      by (cases s) auto
    show ?thesis
    proof (cases "take (length orig) s = orig")
      case True
      then have "length orig \<le> length s"
        by (metis length_take min.cobounded1)
      moreover have "length (drop (length orig) s) < length s"
        using o s by (cases orig) auto
      then have "length (replace_all orig new (drop (length orig) s)) \<le> length (drop (length orig) s)"
        using 1 by blast
      ultimately show ?thesis
        using True False assms by (subst replace_all.simps) simp
    next
      case no: False
      have "length (replace_all orig new cs) \<le> length cs"
        using 1 s by simp
      then show ?thesis
        using no False s by (subst replace_all.simps) simp
    qed
  qed
qed

section \<open>Lower-casing in place\<close>

type_synonym buffer = "char option list"

text \<open>The C string in a buffer: its bytes up to the first NUL.\<close>

fun cstr_of :: "buffer \<Rightarrow> cstr run" where
  "cstr_of [] = Inl OutOfBounds"
| "cstr_of (None # bs) = Inl Indeterminate"
| "cstr_of (Some c # bs) = (if c = CHR 0x00 then Inr [] else rbind (cstr_of bs) (\<lambda>s. Inr (c # s)))"

text \<open>What the decoder sees from offset \<open>off\<close>.\<close>

definition bytes_from :: "buffer \<Rightarrow> nat \<Rightarrow> cstr" where
  "bytes_from buf off = map the (takeWhile (\<lambda>b. b \<noteq> None) (drop off buf))"

definition put_bytes :: "buffer \<Rightarrow> nat \<Rightarrow> cstr \<Rightarrow> buffer" where
  "put_bytes buf doff out = take doff buf @ map Some out @ drop (doff + length out) buf"

definition realloc_to :: "nat \<Rightarrow> buffer \<Rightarrow> buffer" where
  "realloc_to n buf = take n buf @ replicate (n - length buf) None"

lemma charntorune_less: "charntorune s len = Some (r, n) \<Longrightarrow> nat (len - int n) < nat len"
  using charntorune_bounds [of s len r n] by linarith

text \<open>The first loop: whether some rune grows, and the length of the result.\<close>

function lower_need :: "cstr \<Rightarrow> int \<Rightarrow> bool \<times> nat" where
  "lower_need s len =
     (case charntorune s len of
        None \<Rightarrow> (False, 0)
      | Some (u, n) \<Rightarrow>
          (let (need, dlen) = lower_need (drop n s) (len - int n)
           in (n < runelen (tolowerrune u) \<or> need, runelen (tolowerrune u) + dlen)))"
  by pat_completeness auto
termination
  by (relation "measure (\<lambda>(_, len). nat len)") (auto dest!: charntorune_less)

text \<open>
  How many bytes the decoder looks at, and the fault when the buffer from \<open>off\<close> on, \<open>s\<close>, has
  fewer: a shorter result can leave the second loop reading beyond the reallocated buffer.
\<close>

definition decoder_reads :: "cstr \<Rightarrow> int \<Rightarrow> nat" where
  "decoder_reads s n =
     (if n \<le> 0 then 0
      else if \<not> fullrune s n \<or> byte_at s 0 < Tx then 1
      else if \<not> is_cont (byte_at s 1) \<or> byte_at s 0 < T3 then 2
      else if \<not> is_cont (byte_at s 2) \<or> byte_at s 0 < T4 then 3
      else 4)"

definition read_fault :: "buffer \<Rightarrow> nat \<Rightarrow> int \<Rightarrow> fault option" where
  "read_fault buf off len =
     (let s = bytes_from buf off
      in if decoder_reads s len \<le> length s then None
         else if off + length s < length buf then Some Indeterminate
         else Some OutOfBounds)"

text \<open>The second loop, which reads at \<open>off\<close> and writes at \<open>doff\<close> of the same buffer.\<close>

function lower_write :: "buffer \<Rightarrow> nat \<Rightarrow> int \<Rightarrow> nat \<Rightarrow> buffer run" where
  "lower_write buf off len doff =
     (case read_fault buf off len of
        Some e \<Rightarrow> Inl e
      | None \<Rightarrow>
          (case charntorune (bytes_from buf off) len of
             None \<Rightarrow> Inr buf
           | Some (u, n) \<Rightarrow>
               (let out = runetochar (tolowerrune u)
                in if doff + length out \<le> length buf
                   then lower_write (put_bytes buf doff out) (off + n) (len - int n) (doff + length out)
                   else Inl OutOfBounds)))"
  by pat_completeness auto
termination
  by (relation "measure (\<lambda>(_, _, len, _). nat len)") (auto dest!: charntorune_less)

declare lower_need.simps [simp del] lower_write.simps [simp del]

definition utf8_tolower :: "buffer \<Rightarrow> buffer run" where
  "utf8_tolower buf =
     rbind (cstr_of buf) (\<lambda>s.
       (case lower_need s (int (length s)) of
          (needs_realloc, dlen) \<Rightarrow>
            lower_write (if needs_realloc then realloc_to dlen buf else buf)
              0 (int (length s)) 0))"

text \<open>\<open>strdup\<close>: a fresh buffer with the string and its NUL.\<close>

definition strdup :: "cstr \<Rightarrow> buffer" where
  "strdup s = map Some s @ [Some (CHR 0x00)]"

definition tolower_str :: "cstr \<Rightarrow> cstr run" where
  "tolower_str s = rbind (utf8_tolower (strdup s)) cstr_of"

section \<open>Canonical names\<close>

text \<open>
  \<open>canonicalize\<close>: \<open>result[len - 2*off] = 0\<close> writes before the buffer when the name is a lone
  quote. The replacements never grow the string and look for non-empty strings, so they end.
\<close>

definition repl :: "cstr \<Rightarrow> cstr \<Rightarrow> cstr \<Rightarrow> cstr run" where
  "repl orig new s = (case strrepl s orig new of None \<Rightarrow> Inl Diverges | Some (t, k) \<Rightarrow> Inr t)"

definition quoted :: "cstr \<Rightarrow> bool" where
  "quoted n \<longleftrightarrow> 0 < length n \<and> n ! 0 = CHR 0x22 \<and> n ! (length n - 1) = CHR 0x22"

definition canonicalize :: "cstr \<Rightarrow> cstr run" where
  "canonicalize n =
     (let len = length n; off = (if quoted n then 1 else 0); result = strdup (drop off n) in
      rbind (if 2 * off \<le> len then awrite result (len - 2 * off) (Some (CHR 0x00))
             else Inl OutOfBounds) (\<lambda>result.
      rbind (utf8_tolower result) (\<lambda>result.
      rbind (cstr_of result) (\<lambda>s.
      rbind (repl (CHR 0x5C # CHR 0x5C # []) (CHR 0x5C # []) s) (\<lambda>s.
      rbind (repl (CHR 0x5C # ''n'') ''_'' s) (\<lambda>s.
      rbind (repl (CHR 0x5C # ''r'') ''_'' s) (\<lambda>s.
      rbind (repl [CHR 0x0A] ''_'' s) (\<lambda>s.
      rbind (repl [CHR 0x0D] ''_'' s) (\<lambda>s.
      repl '' '' ''_'' s)))))))))"

section \<open>Trimming\<close>

text \<open>
  \<open>isspace\<close> of the C locale: its argument must fit an \<open>unsigned char\<close>; any other value reads
  outside the table of the C library.
\<close>

definition isspace_byte :: "nat \<Rightarrow> bool" where
  "isspace_byte b \<longleftrightarrow> b = 32 \<or> 9 \<le> b \<and> b \<le> 13"

definition c_isspace :: "rune \<Rightarrow> bool run" where
  "c_isspace r = (if unat r < 256 then Inr (isspace_byte (unat r)) else Inl OutOfBounds)"

function trim_front :: "cstr \<Rightarrow> nat \<Rightarrow> int \<Rightarrow> (nat \<times> int) run" where
  "trim_front s off len =
     (case charntorune (drop off s) len of
        None \<Rightarrow> Inr (off, len)
      | Some (r, n) \<Rightarrow>
          if r = 0 then Inr (off, len)
          else rbind (c_isspace r)
                 (\<lambda>sp. if sp then trim_front s (off + n) (len - int n) else Inr (off, len)))"
  by pat_completeness auto
termination
  by (relation "measure (\<lambda>(_, _, len). nat len)") (auto dest!: charntorune_less)

function trim_back :: "cstr \<Rightarrow> nat \<Rightarrow> int \<Rightarrow> nat \<Rightarrow> int run" where
  "trim_back s off len i =
     (if 0 < len then
        if int off + len - int i < 0 then Inl OutOfBounds
        else
          (case charntorune (drop (nat (int off + len - int i)) s) (int i) of
             None \<Rightarrow> Inr len
           | Some (r, n) \<Rightarrow>
               if r = of_nat Runeerror then trim_back s off len (i + 1)
               else rbind (c_isspace r)
                      (\<lambda>sp. if sp then trim_back s off (len - int i) 1 else Inr len))
      else Inr len)"
  by pat_completeness auto
termination
proof (relation "measures [\<lambda>(_, _, len, _). nat len, \<lambda>(_, off, len, i). Suc (off + nat len) - i]",
    goal_cases)
  case (3 s off len i a r n sp)
  then have "0 < i"
    by (cases i) auto
  with 3 show ?case
    by auto
qed auto

declare trim_front.simps [simp del] trim_back.simps [simp del]

text \<open>The new start of the string and the length \<open>strtrim\<close> returns.\<close>

definition strtrim :: "cstr \<Rightarrow> int \<Rightarrow> (nat \<times> int) run" where
  "strtrim s len =
     rbind (trim_front s 0 len) (\<lambda>(off, len).
       rbind (trim_back s off len 1) (\<lambda>len. Inr (off, len)))"

section \<open>Rounding and interpolation\<close>

definition round_up :: "64 word \<Rightarrow> 64 word \<Rightarrow> 64 word" where
  "round_up i n = n * ((i - 1) div n + 1)"

record table =
  tbl_x :: "fp list"
  tbl_y :: "fp list"
  tbl_len :: nat

function lookup_search :: "fp list \<Rightarrow> fp \<Rightarrow> nat \<Rightarrow> nat \<Rightarrow> nat run" where
  "lookup_search x index low high =
     (if low < high then
        let mid = low + (high - low) div 2 in
        rbind (aread x mid) (\<lambda>v.
          if fp_lt v index then lookup_search x index (mid + 1) high
          else lookup_search x index low mid)
      else Inr low)"
  by pat_completeness auto
termination
  by (relation "measure (\<lambda>(_, _, low, high). high - low)") auto

declare lookup_search.simps [simp del]

text \<open>The interpolation between the points \<open>i - 1\<close> and \<open>i\<close>; \<open>x[-1]\<close> is outside the array.\<close>

definition interpolate :: "fp \<Rightarrow> fp \<Rightarrow> fp \<Rightarrow> fp \<Rightarrow> fp \<Rightarrow> fp" where
  "interpolate index x0 x1 y0 y1 =
     d_add (d_mul (d_sub index x0) (d_div (d_sub y1 y0) (d_sub x1 x0))) y0"

definition lookup_at :: "table \<Rightarrow> fp \<Rightarrow> nat \<Rightarrow> fp run" where
  "lookup_at t index i =
     rbind (aread (tbl_x t) i) (\<lambda>xi.
       if fp_eq xi index then aread (tbl_y t) i
       else if i = 0 then Inl OutOfBounds
       else
         rbind (aread (tbl_y t) i) (\<lambda>y1.
         rbind (aread (tbl_y t) (i - 1)) (\<lambda>y0.
         rbind (aread (tbl_x t) (i - 1)) (\<lambda>x0.
         Inr (interpolate index x0 xi y0 y1)))))"

definition lookup :: "table \<Rightarrow> fp \<Rightarrow> fp run" where
  "lookup t index =
     (if tbl_len t = 0 then Inr d_zero
      else
        rbind (aread (tbl_x t) 0) (\<lambda>first.
          if fp_lt index first then aread (tbl_y t) 0
          else
            rbind (aread (tbl_x t) (tbl_len t - 1)) (\<lambda>top.
              if fp_lt top index then aread (tbl_y t) (tbl_len t - 1)
              else
                rbind (lookup_search (tbl_x t) index 0 (tbl_len t)) (\<lambda>i. lookup_at t index i))))"

section \<open>Texts\<close>

text \<open>The UTF-8 text of a list of runes, and its lower case.\<close>

definition utf8 :: "rune list \<Rightarrow> cstr" where
  "utf8 rs = concat (map runetochar rs)"

definition lowered :: "rune list \<Rightarrow> cstr" where
  "lowered rs = utf8 (map tolowerrune rs)"

definition text_ok :: "rune list \<Rightarrow> bool" where
  "text_ok rs = list_all (\<lambda>r. r \<noteq> 0 \<and> unat r \<le> Runemax) rs"

lemma utf8_simps [simp]: "utf8 [] = []" "utf8 (r # rs) = runetochar r @ utf8 rs"
  by (simp_all add: utf8_def)

lemma lowered_simps [simp]:
  "lowered [] = []" "lowered (r # rs) = runetochar (tolowerrune r) @ lowered rs"
  by (simp_all add: lowered_def)

lemma text_ok_simps [simp]:
  "text_ok []" "text_ok (r # rs) \<longleftrightarrow> r \<noteq> 0 \<and> unat r \<le> Runemax \<and> text_ok rs"
  by (simp_all add: text_ok_def)

lemma charntorune_text:
  assumes "unat r \<le> Runemax"
  shows "charntorune (runetochar r @ rest) (int (length (runetochar r) + k)) = Some (r, length (runetochar r))"
  using chartorune_encode [OF assms, of rest] fullrune_runetochar [OF assms, of rest k] assms
  by (simp add: charntorune_def runetochar_def runelen_def)

lemma decoder_reads_text:
  assumes "unat r \<le> Runemax"
  shows "decoder_reads (runetochar r @ rest) (int (length (runetochar r) + k)) \<le> length (runetochar r)"
proof -
  have "unat r div 262144 < 8"
    using assms by simp
  then show ?thesis
    using assms fullrune_runetochar [OF assms, of rest k]
    by (auto simp: decoder_reads_def runelen_def runetochar_def encode_arith lead_or
        less_mult_imp_div_less)
qed

lemma length_lowered_le: "length (lowered rs) \<le> length (utf8 rs)"
  by (induction rs) (use runelen_tolower_le in \<open>auto simp: runelen_def intro: add_mono\<close>)

lemma length_lowered: "0x130 \<notin> set rs \<Longrightarrow> length (lowered rs) = length (utf8 rs)"
  by (induction rs) (use runelen_tolower in \<open>auto simp: runelen_def\<close>)

lemma of_char_Char_0: "of_char (CHR 0x00) = (0 :: nat)"
  by simp

lemma char_of_nonzero: "0 < n \<Longrightarrow> n < 256 \<Longrightarrow> char_of (n :: nat) \<noteq> CHR 0x00"
  using of_char_byte [of n] by (metis less_irrefl of_char_Char_0)

lemma cstr_ok_encode:
  assumes "0 < c" "c \<le> Runemax"
  shows "cstr_ok (encode c)"
proof -
  have "c div 262144 < 8"
    using assms by simp
  then show ?thesis
    using assms
    by (auto simp: encode_arith lead_or char_of_nonzero less_mult_imp_div_less)
qed

lemma cstr_ok_runetochar: "r \<noteq> 0 \<Longrightarrow> cstr_ok (runetochar r)"
  by (auto simp: runetochar_def unat_gt_0 intro!: cstr_ok_encode)

lemma cstr_ok_utf8: "list_all (\<lambda>r. r \<noteq> 0) rs \<Longrightarrow> cstr_ok (utf8 rs)"
  by (induction rs) (auto simp: cstr_ok_runetochar)

section \<open>Lower-casing a text\<close>

lemma lower_need_text:
  "text_ok rs \<Longrightarrow> lower_need (utf8 rs @ rest) (int (length (utf8 rs))) = (False, length (lowered rs))"
proof (induction rs)
  case Nil
  then show ?case
    by (simp add: lower_need.simps)
next
  case (Cons r rs)
  have "length (runetochar (tolowerrune r)) \<le> length (runetochar r)"
    using runelen_tolower_le [of r] by (simp add: runelen_def)
  then show ?case
    using Cons charntorune_text [of r "utf8 rs @ rest" "length (utf8 rs)"]
    by (subst lower_need.simps) (simp add: runelen_def)
qed

lemma takeWhile_drop:
  "n \<le> length (takeWhile P xs) \<Longrightarrow> takeWhile P (drop n xs) = drop n (takeWhile P xs)"
proof (induction xs arbitrary: n)
  case (Cons x xs)
  then show ?case
    by (cases n) (auto split: if_splits)
qed simp

lemma bytes_from_add:
  "n \<le> length (bytes_from buf off) \<Longrightarrow> bytes_from buf (off + n) = drop n (bytes_from buf off)"
  by (simp add: bytes_from_def drop_map add.commute takeWhile_drop flip: drop_drop)

lemma put_bytes_drop:
  "doff + length out \<le> k \<Longrightarrow> doff \<le> length buf \<Longrightarrow> drop k (put_bytes buf doff out) = drop k buf"
  by (simp add: put_bytes_def)

lemma length_put_bytes:
  "doff + length out \<le> length buf \<Longrightarrow> length (put_bytes buf doff out) = length buf"
  by (simp add: put_bytes_def)

lemma put_bytes_put:
  "doff + length (a @ b) \<le> length buf \<Longrightarrow>
   put_bytes (put_bytes buf doff a) (doff + length a) b = put_bytes buf doff (a @ b)"
  by (simp add: put_bytes_def ac_simps)

lemma bytes_from_length: "length (bytes_from buf off) \<le> length buf - off"
  by (simp add: bytes_from_def) (metis length_drop length_takeWhile_le)

lemma bytes_from_cong: "drop k buf = drop k buf' \<Longrightarrow> bytes_from buf k = bytes_from buf' k"
  by (simp add: bytes_from_def)

lemma lower_write_text:
  assumes "text_ok rs" "doff \<le> off" "bytes_from buf off = utf8 rs @ rest"
    "off + length (utf8 rs) \<le> length buf"
  shows "lower_write buf off (int (length (utf8 rs))) doff = Inr (put_bytes buf doff (lowered rs))"
  using assms
proof (induction rs arbitrary: buf off doff)
  case Nil
  then show ?case
    by (simp add: lower_write.simps put_bytes_def read_fault_def decoder_reads_def Let_def)
next
  case (Cons r rs)
  define out where "out = runetochar (tolowerrune r)"
  define n where "n = length (runetochar r)"
  have out: "length out \<le> n"
    using runelen_tolower_le [of r] by (simp add: runelen_def out_def n_def)
  then have fits: "doff + length out \<le> length buf" and ahead: "doff + length out \<le> off + n"
    using Cons.prems by (auto simp: n_def)
  have "bytes_from (put_bytes buf doff out) (off + n) = bytes_from buf (off + n)"
    using ahead fits by (intro bytes_from_cong put_bytes_drop) auto
  also have "... = utf8 rs @ rest"
    using Cons.prems(3) by (subst bytes_from_add) (auto simp: n_def)
  finally have "lower_write (put_bytes buf doff out) (off + n) (int (length (utf8 rs))) (doff + length out)
      = Inr (put_bytes (put_bytes buf doff out) (doff + length out) (lowered rs))"
    using Cons.prems ahead fits by (intro Cons.IH) (auto simp: length_put_bytes n_def)
  also have "put_bytes (put_bytes buf doff out) (doff + length out) (lowered rs) =
      put_bytes buf doff (lowered (r # rs))"
    using Cons.prems length_lowered_le [of rs] out
    by (subst put_bytes_put) (auto simp: out_def n_def)
  finally have "lower_write (put_bytes buf doff out) (off + n) (int (length (utf8 rs))) (doff + length out)
      = Inr (put_bytes buf doff (lowered (r # rs)))" .
  moreover have "read_fault buf off (int (length (utf8 (r # rs)))) = None"
    using Cons.prems decoder_reads_text [of r "utf8 rs @ rest" "length (utf8 rs)"]
    by (simp add: read_fault_def Let_def)
  ultimately show ?case
    using Cons.prems charntorune_text [of r "utf8 rs @ rest" "length (utf8 rs)"] fits
    by (subst lower_write.simps) (simp add: out_def [symmetric] n_def [symmetric] Let_def)
qed

lemma cstr_of_string [simp]: "cstr_ok s \<Longrightarrow> cstr_of (map Some s @ Some (CHR 0x00) # bs) = Inr s"
  by (induction s) auto

lemma bytes_from_string: "bytes_from (map Some t @ bs) 0 = t @ bytes_from bs 0"
  by (induction t) (auto simp: bytes_from_def)

lemma text_ok_nonzero: "text_ok rs \<Longrightarrow> list_all (\<lambda>r. r \<noteq> 0) rs"
  by (induction rs) auto

lemma cstr_ok_lowered: "text_ok rs \<Longrightarrow> cstr_ok (lowered rs)"
  unfolding lowered_def
  by (rule cstr_ok_utf8) (induction rs, auto simp: tolowerrune_nonzero)

lemma utf8_tolower_buffer:
  assumes "text_ok rs" and buf: "buf = map Some (utf8 rs) @ Some (CHR 0x00) # tail"
  shows "utf8_tolower buf = Inr (put_bytes buf 0 (lowered rs))"
proof -
  have str: "cstr_of buf = Inr (utf8 rs)"
    using assms cstr_ok_utf8 [OF text_ok_nonzero] by simp
  have need: "lower_need (utf8 rs) (int (length (utf8 rs))) = (False, length (lowered rs))"
    using lower_need_text [OF assms(1), of "[]"] by simp
  have "bytes_from buf 0 = utf8 rs @ bytes_from (Some (CHR 0x00) # tail) 0"
    unfolding buf by (rule bytes_from_string)
  then show ?thesis
    using lower_write_text [OF assms(1), of 0 0 buf] str need by (simp add: utf8_tolower_def buf)
qed

text \<open>
  What a well-formed text becomes: its lower case, then the bytes of the old text that the
  shorter result does not reach, which nobody cuts off.
\<close>

lemma tolower_str_text:
  assumes "text_ok rs"
  shows "tolower_str (utf8 rs) = Inr (lowered rs @ drop (length (lowered rs)) (utf8 rs))"
proof -
  have "put_bytes (strdup (utf8 rs)) 0 (lowered rs) =
      map Some (lowered rs @ drop (length (lowered rs)) (utf8 rs)) @ [Some (CHR 0x00)]"
    using length_lowered_le [of rs] by (simp add: put_bytes_def strdup_def drop_map)
  moreover have "cstr_ok (lowered rs @ drop (length (lowered rs)) (utf8 rs))"
    using cstr_ok_lowered [OF assms] cstr_ok_utf8 [OF text_ok_nonzero [OF assms]]
    by (auto simp: cstr_ok_def list_all_iff dest: in_set_dropD)
  ultimately show ?thesis
    using utf8_tolower_buffer [OF assms, of "strdup (utf8 rs)" "[]"]
      cstr_of_string [of "lowered rs @ drop (length (lowered rs)) (utf8 rs)" "[]"]
    by (simp add: tolower_str_def strdup_def)
qed

text \<open>ASCII texts.\<close>

definition ascii_ok :: "cstr \<Rightarrow> bool" where
  "ascii_ok s = list_all (\<lambda>c. 0 < (of_char c :: nat) \<and> (of_char c :: nat) < 128) s"

definition ascii_lower :: "char \<Rightarrow> char" where
  "ascii_lower c =
     (if 65 \<le> (of_char c :: nat) \<and> (of_char c :: nat) \<le> 90 then char_of (of_char c + 32 :: nat) else c)"

definition ascii_runes :: "cstr \<Rightarrow> rune list" where
  "ascii_runes s = map (\<lambda>c. of_nat (of_char c)) s"

lemma ascii_ok_simps [simp]:
  "ascii_ok []"
  "ascii_ok (c # s) \<longleftrightarrow> 0 < (of_char c :: nat) \<and> (of_char c :: nat) < 128 \<and> ascii_ok s"
  by (simp_all add: ascii_ok_def)

lemma ascii_runes_simps [simp]:
  "ascii_runes [] = []" "ascii_runes (c # s) = of_nat (of_char c) # ascii_runes s"
  by (simp_all add: ascii_runes_def)

lemma utf8_ascii: "ascii_ok s \<Longrightarrow> utf8 (ascii_runes s) = s"
  by (induction s) (auto simp: runetochar_ascii)

lemma unat_small: "n < 256 \<Longrightarrow> unat (of_nat n :: rune) = n"
  by (simp add: unat_of_nat)

lemma text_ok_ascii: "ascii_ok s \<Longrightarrow> text_ok (ascii_runes s)"
  by (induction s) (auto simp: unat_small unat_eq_zero [symmetric])

lemma lowered_ascii: "ascii_ok s \<Longrightarrow> lowered (ascii_runes s) = map ascii_lower s"
proof (induction s)
  case (Cons c s)
  let ?n = "of_char c :: nat"
  have n: "?n < 128"
    using Cons.prems by simp
  have "runetochar (tolowerrune (of_nat ?n)) = [ascii_lower c]"
  proof (cases "65 \<le> ?n \<and> ?n \<le> 90")
    case True
    then have "tolowerrune (of_nat ?n) = of_nat (?n + 32)"
      using n by (simp add: tolowerrune_ascii word_le_nat_alt word_less_nat_alt unat_small)
    then show ?thesis
      using True runetochar_ascii [of "?n + 32"] by (simp add: ascii_lower_def)
  next
    case False
    then have "tolowerrune (of_nat ?n) = of_nat ?n"
      using n by (auto simp: tolowerrune_ascii word_le_nat_alt word_less_nat_alt unat_small)
    then show ?thesis
      using False n runetochar_ascii [of ?n] by (auto simp: ascii_lower_def)
  qed
  then show ?case
    using Cons by simp
qed simp

lemma ascii_no_dotted: "ascii_ok s \<Longrightarrow> 0x130 \<notin> set (ascii_runes s)"
proof (induction s)
  case (Cons c s)
  then have "(of_nat (of_char c) :: rune) \<noteq> 0x130"
    using unat_small [of "of_char c"] by auto
  then show ?case
    using Cons by auto
qed simp

lemma tolower_ascii: "ascii_ok s \<Longrightarrow> tolower_str s = Inr (map ascii_lower s)"
  using tolower_str_text [OF text_ok_ascii, of s] length_lowered [OF ascii_no_dotted, of s]
  by (simp add: utf8_ascii lowered_ascii)

section \<open>Canonical names\<close>

lemma repl_all:
  "orig \<noteq> [] \<Longrightarrow> length new \<le> length orig \<Longrightarrow> repl orig new s = Inr (replace_all orig new s)"
  using strrepl_loop_replace [of orig new s] by (auto simp: repl_def strrepl_def)

text \<open>What becomes of a lower-cased name: escapes are undone and blanks become underscores.\<close>

definition underscore :: "char \<Rightarrow> char" where
  "underscore c = (if c = CHR 0x0A \<or> c = CHR 0x0D \<or> c = CHR 0x20 then CHR ''_'' else c)"

definition canon :: "cstr \<Rightarrow> cstr" where
  "canon s =
     map underscore
       (replace_all (CHR 0x5C # ''r'') ''_''
         (replace_all (CHR 0x5C # ''n'') ''_''
           (replace_all (CHR 0x5C # CHR 0x5C # []) (CHR 0x5C # []) s)))"

lemma canon_steps:
  "rbind (repl (CHR 0x5C # CHR 0x5C # []) (CHR 0x5C # []) s) (\<lambda>s.
   rbind (repl (CHR 0x5C # ''n'') ''_'' s) (\<lambda>s.
   rbind (repl (CHR 0x5C # ''r'') ''_'' s) (\<lambda>s.
   rbind (repl [CHR 0x0A] ''_'' s) (\<lambda>s.
   rbind (repl [CHR 0x0D] ''_'' s) (\<lambda>s.
   repl '' '' ''_'' s))))) = Inr (canon s)"
  by (simp add: repl_all replace_all_char canon_def underscore_def comp_def)

lemma canonicalize_eq:
  "canonicalize n =
     rbind (if 2 * (if quoted n then 1 else 0) \<le> length n
            then awrite (strdup (drop (if quoted n then 1 else 0) n))
                   (length n - 2 * (if quoted n then 1 else 0)) (Some (CHR 0x00))
            else Inl OutOfBounds) (\<lambda>result.
     rbind (utf8_tolower result) (\<lambda>result.
     rbind (cstr_of result) (\<lambda>s. Inr (canon s))))"
  by (simp add: canonicalize_def Let_def canon_steps)

lemma canon_no_blank: "c \<in> set (canon s) \<Longrightarrow> c \<noteq> CHR 0x0A \<and> c \<noteq> CHR 0x0D \<and> c \<noteq> CHR 0x20"
  by (auto simp: canon_def underscore_def)

lemma canonicalize_canon: "canonicalize n = Inr t \<Longrightarrow> \<exists>s. t = canon s"
  by (auto simp: canonicalize_eq rbind_eq_Inr split: if_splits)

lemma put_bytes_whole:
  "length out = length s \<Longrightarrow>
   put_bytes (map Some s @ bs) 0 out = map Some out @ bs"
  by (simp add: put_bytes_def)

lemma canonicalize_buffer:
  assumes "text_ok rs" "0x130 \<notin> set rs"
  shows "rbind (utf8_tolower (map Some (utf8 rs) @ Some (CHR 0x00) # tail))
           (\<lambda>b. rbind (cstr_of b) (\<lambda>s. Inr (canon s))) = Inr (canon (lowered rs))"
  using utf8_tolower_buffer [OF assms(1) refl, of tail] length_lowered [OF assms(2)]
    cstr_ok_lowered [OF assms(1)] by (simp add: put_bytes_whole)

lemma canonicalize_plain:
  assumes "text_ok rs" "0x130 \<notin> set rs" "\<not> quoted (utf8 rs)"
  shows "canonicalize (utf8 rs) = Inr (canon (lowered rs))"
proof -
  have "awrite (strdup (utf8 rs)) (length (utf8 rs)) (Some (CHR 0x00)) = Inr (strdup (utf8 rs))"
    by (simp add: strdup_def awrite_def list_update_append)
  then show ?thesis
    using assms(3) canonicalize_buffer [OF assms(1,2), of "[]"]
    by (simp add: canonicalize_eq strdup_def)
qed

lemma canonicalize_quoted:
  assumes "text_ok rs" "0x130 \<notin> set rs"
  shows "canonicalize (CHR 0x22 # utf8 rs @ [CHR 0x22]) = Inr (canon (lowered rs))"
proof -
  have "quoted (CHR 0x22 # utf8 rs @ [CHR 0x22])"
    by (simp add: quoted_def nth_append)
  moreover have "awrite (strdup (utf8 rs @ [CHR 0x22])) (length (utf8 rs)) (Some (CHR 0x00)) =
      Inr (map Some (utf8 rs) @ Some (CHR 0x00) # [Some (CHR 0x00)])"
    by (simp add: strdup_def awrite_def list_update_append)
  ultimately show ?thesis
    using canonicalize_buffer [OF assms, of "[Some (CHR 0x00)]"]
    by (simp add: canonicalize_eq)
qed

section \<open>Trimming\<close>

lemma chartorune_high:
  assumes "128 \<le> byte_at s 0"
  shows "128 \<le> unat (fst (chartorune s))"
proof (rule ccontr)
  assume low: "\<not> 128 \<le> unat (fst (chartorune s))"
  obtain r n where rn: "chartorune s = (r, n)"
    by fastforce
  have "s \<noteq> []"
    using assms by auto
  then have "(r, n) = bad_rune \<or> take n s = runetochar r"
    using chartorune_shortest rn by blast
  moreover have "(r, n) \<noteq> bad_rune"
    using low rn by (auto simp: bad_rune_def)
  ultimately have "take n s = [char_of (unat r)]"
    using low rn by (simp add: runetochar_def encode_def)
  then have "s ! 0 = char_of (unat r)"
    by (cases s; cases n) auto
  then show False
    using assms low rn \<open>s \<noteq> []\<close> by (simp add: byte_at_def)
qed

definition blank :: "char \<Rightarrow> bool" where
  "blank c = isspace_byte (of_char c)"

lemma trim_back_list:
  "trim_back (pre @ u @ post) (length pre) (int (length u)) 1 =
   Inr (int (length (rev (dropWhile blank (rev u)))))"
proof (induction u arbitrary: post rule: rev_induct)
  case Nil
  then show ?case
    by (simp add: trim_back.simps)
next
  case (snoc c u)
  have pos: "nat (int (length pre) + int (length (u @ [c])) - int 1) = length pre + length u"
    by simp
  have rest: "drop (length pre + length u) (pre @ (u @ [c]) @ post) = c # post"
    by simp
  show ?case
  proof (cases "(of_char c :: nat) < 128")
    case True
    then have dec: "charntorune (c # post) (int 1) = Some (of_nat (of_char c), 1)"
      by (simp add: charntorune_ascii)
    have "(of_nat (of_char c) :: rune) \<noteq> of_nat Runeerror"
      using True unat_small [of "of_char c"] by auto
    moreover have "c_isspace (of_nat (of_char c)) = Inr (blank c)"
      using True by (simp add: c_isspace_def unat_small blank_def)
    ultimately show ?thesis
      using snoc.IH [of "c # post"] True
      by (subst trim_back.simps) (simp only: pos rest dec, simp)
  next
    case False
    then have "charntorune (c # post) (int 1) = None"
      by (simp add: charntorune_def fullrune_def)
    moreover have "\<not> blank c"
      using False by (auto simp: blank_def isspace_byte_def)
    ultimately show ?thesis
      by (subst trim_back.simps) (simp only: pos rest, simp)
  qed
qed

text \<open>Whether the first rune of the rest can be handed to \<open>isspace\<close>.\<close>

definition front_ok :: "cstr \<Rightarrow> bool" where
  "front_ok t = (case charntorune t (int (length t)) of None \<Rightarrow> True | Some (r, _) \<Rightarrow> unat r < 256)"

lemma trim_front_list:
  "trim_front (pre @ u) (length pre) (int (length u)) =
     (if front_ok (dropWhile blank u)
      then Inr (length pre + length (takeWhile blank u), int (length (dropWhile blank u)))
      else Inl OutOfBounds)"
proof (induction u arbitrary: pre)
  case Nil
  then show ?case
    by (simp add: trim_front.simps front_ok_def)
next
  case (Cons c u)
  show ?case
  proof (cases "blank c")
    case True
    then have c: "(of_char c :: nat) < 128" "(of_char c :: nat) \<noteq> 0"
      by (auto simp: blank_def isspace_byte_def)
    then have "(of_nat (of_char c) :: rune) \<noteq> 0"
      using unat_small [of "of_char c"] by auto
    moreover have "c_isspace (of_nat (of_char c)) = Inr True"
      using c True by (simp add: c_isspace_def unat_small blank_def)
    ultimately show ?thesis
      using Cons.IH [of "pre @ [c]"] True c
      by (subst trim_front.simps) (simp add: charntorune_ascii)
  next
    case False
    have not_blank: "\<not> isspace_byte (unat r)" if "chartorune (c # u) = (r, n)" for r n
    proof (cases "(of_char c :: nat) < 128")
      case True
      then show ?thesis
        using that False by (auto simp: chartorune_def blank_def unat_small)
    next
      case high: False
      then show ?thesis
        using that chartorune_high [of "c # u"] by (auto simp: isspace_byte_def)
    qed
    then show ?thesis
      using False
      by (subst trim_front.simps)
        (auto simp: front_ok_def charntorune_Some c_isspace_def split: option.splits)
  qed
qed

lemma strtrim_eq:
  "strtrim s (int (length s)) =
     (if front_ok (dropWhile blank s)
      then Inr (length (takeWhile blank s),
                int (length (rev (dropWhile blank (rev (dropWhile blank s))))))
      else Inl OutOfBounds)"
  using trim_front_list [of "[]" s] trim_back_list [of "takeWhile blank s" "dropWhile blank s" "[]"]
  by (simp add: strtrim_def)

section \<open>Rounding up\<close>

lemma round_up_nat:
  assumes "0 < i" "0 < n" "unat i + unat n < 2 ^ 64"
  shows "unat (round_up i n) = unat n * ((unat i - 1) div unat n + 1)"
proof -
  have i: "unat (i - 1) = unat i - 1"
    using assms(1) by (simp add: unat_sub word_le_nat_alt word_less_nat_alt)
  have n: "0 < unat n"
    using assms(2) by (simp add: word_less_nat_alt)
  have bound: "unat n * ((unat i - 1) div unat n) \<le> unat i - 1"
    by (metis div_times_less_eq_dividend mult.commute)
  have q: "unat ((i - 1) div n) = (unat i - 1) div unat n"
    by (simp add: unat_div i)
  have "(unat i - 1) div unat n \<le> unat i - 1"
    by (rule div_le_dividend)
  then have "(unat i - 1) div unat n + 1 < 2 ^ 64"
    using assms(3) n by linarith
  then have q1: "unat ((i - 1) div n + 1) = (unat i - 1) div unat n + 1"
    by (subst unat_add_lem [THEN iffD1]) (simp_all add: q)
  have "unat n * ((unat i - 1) div unat n + 1) = unat n * ((unat i - 1) div unat n) + unat n"
    by simp
  also have "... < 2 ^ 64"
    using bound assms(3) by linarith
  finally have "unat n * ((unat i - 1) div unat n + 1) < 2 ^ 64" .
  then show ?thesis
    unfolding round_up_def by (subst unat_mult_lem [THEN iffD1]) (simp_all add: q1)
qed

lemma round_up_bounds:
  fixes i n :: nat
  assumes "0 < i" "0 < n"
  shows "i \<le> n * ((i - 1) div n + 1)" "n * ((i - 1) div n + 1) < i + n"
proof -
  have "n * ((i - 1) div n) + (i - 1) mod n = i - 1" "(i - 1) mod n < n"
    "n * ((i - 1) div n + 1) = n * ((i - 1) div n) + n"
    using assms by simp_all
  then show "i \<le> n * ((i - 1) div n + 1)" "n * ((i - 1) div n + 1) < i + n"
    using assms by linarith+
qed

section \<open>Interpolation\<close>

text \<open>
  The specification: below the first point the first value, above the last point the last
  value, at a point its value, and otherwise the line through the two neighbours.
\<close>

fun interp_scan :: "fp \<Rightarrow> fp \<Rightarrow> (fp \<times> fp) list \<Rightarrow> fp \<Rightarrow> fp" where
  "interp_scan x0 y0 [] index = y0"
| "interp_scan x0 y0 ((x1, y1) # ps) index =
     (if fp_lt x1 index then interp_scan x1 y1 ps index
      else if fp_eq x1 index then y1
      else interpolate index x0 x1 y0 y1)"

fun interp :: "(fp \<times> fp) list \<Rightarrow> fp \<Rightarrow> fp" where
  "interp [] index = d_zero"
| "interp ((x, y) # ps) index = (if fp_lt x index then interp_scan x y ps index else y)"

text \<open>A table as the builder makes it: both arrays filled, the abscissae numbers in order.\<close>

definition table_ok :: "table \<Rightarrow> bool" where
  "table_ok t \<longleftrightarrow> length (tbl_x t) = tbl_len t \<and> length (tbl_y t) = tbl_len t \<and>
     sorted_wrt fp_le (tbl_x t) \<and> list_all (\<lambda>x. x \<noteq> NaN) (tbl_x t)"

lemma fp_le_lt_trans: "fp_le x y \<Longrightarrow> fp_lt y z \<Longrightarrow> fp_lt x z"
  by (auto simp: fp_le_def intro: fp_lt_trans fp_eq_lt_trans)

definition splits :: "fp list \<Rightarrow> fp \<Rightarrow> nat \<Rightarrow> nat \<Rightarrow> bool" where
  "splits x index low high \<longleftrightarrow>
     low \<le> high \<and> high \<le> length x \<and> (\<forall>j < low. fp_lt (x ! j) index) \<and>
     (\<forall>j < length x. high \<le> j \<longrightarrow> \<not> fp_lt (x ! j) index)"

lemma splits_mid:
  assumes "sorted_wrt fp_le x" "splits x index low high" "low \<le> m" "m < high"
  shows "fp_lt (x ! m) index \<Longrightarrow> splits x index (m + 1) high"
    and "\<not> fp_lt (x ! m) index \<Longrightarrow> splits x index low m"
proof -
  have le: "fp_le (x ! i) (x ! j)" if "i < j" "j < length x" for i j
    using assms(1) that by (rule sorted_wrt_nth_less)
  have m: "m < length x"
    using assms by (simp add: splits_def)
  {
    assume lt: "fp_lt (x ! m) index"
    have "fp_lt (x ! j) index" if "j < m + 1" for j
      using lt le [of j m] m that fp_le_lt_trans by (cases "j = m") auto
    then show "splits x index (m + 1) high"
      using assms by (simp add: splits_def)
  next
    assume ge: "\<not> fp_lt (x ! m) index"
    have "\<not> fp_lt (x ! j) index" if "m \<le> j" "j < length x" for j
      using ge le [of m j] that fp_le_lt_trans by (cases "j = m") auto
    then show "splits x index low m"
      using assms m by (simp add: splits_def)
  }
qed

lemma lookup_search_splits:
  "sorted_wrt fp_le x \<Longrightarrow> splits x index low high \<Longrightarrow>
   \<exists>i. lookup_search x index low high = Inr i \<and> splits x index i i"
proof (induction x index low high rule: lookup_search.induct)
  case (1 x index low high)
  show ?case
  proof (cases "low < high")
    case True
    define m where "m = low + (high - low) div 2"
    have m: "low \<le> m" "m < high" "m < length x"
      using True 1(4) by (auto simp: m_def splits_def)
    show ?thesis
      using 1(1) [OF True m_def] 1(2) [OF True m_def] splits_mid [OF 1(3,4) m(1,2)] m True 1(3)
      by (subst lookup_search.simps) (auto simp: m_def [symmetric] Let_def)
  next
    case False
    with 1(4) have "low = high"
      by (simp add: splits_def)
    with 1(4) show ?thesis
      by (subst lookup_search.simps) auto
  qed
qed

text \<open>The linear scan from point \<open>i\<close> on, when all points before it are below the index.\<close>

lemma interp_scan_at:
  assumes "length ys = length xs" "k \<le> length xs" "\<And>j. j < k \<Longrightarrow> fp_lt (xs ! j) index"
    "k < length xs \<Longrightarrow> \<not> fp_lt (xs ! k) index"
  shows "interp_scan x0 y0 (zip xs ys) index =
    (if k = length xs then (if k = 0 then y0 else ys ! (k - 1))
     else if fp_eq (xs ! k) index then ys ! k
     else if k = 0 then interpolate index x0 (xs ! 0) y0 (ys ! 0)
     else interpolate index (xs ! (k - 1)) (xs ! k) (ys ! (k - 1)) (ys ! k))"
  using assms
proof (induction xs arbitrary: ys k x0 y0)
  case (Cons x xs)
  then obtain y ys' where ys: "ys = y # ys'"
    by (cases ys) auto
  show ?case
  proof (cases k)
    case 0
    then show ?thesis
      using Cons.prems ys by auto
  next
    case (Suc k')
    have IH: "interp_scan x y (zip xs ys') index =
        (if k' = length xs then (if k' = 0 then y else ys' ! (k' - 1))
         else if fp_eq (xs ! k') index then ys' ! k'
         else if k' = 0 then interpolate index x (xs ! 0) y (ys' ! 0)
         else interpolate index (xs ! (k' - 1)) (xs ! k') (ys' ! (k' - 1)) (ys' ! k'))"
      using Cons.prems(1,2,4) Cons.prems(3) [of "Suc j" for j] ys Suc by (intro Cons.IH) auto
    have "fp_lt x index"
      using Cons.prems(3) [of 0] Suc by simp
    then show ?thesis
      unfolding ys Suc using IH by (cases k') auto
  qed
qed simp

lemma fp_lt_last:
  assumes "sorted_wrt fp_le xs" "xs \<noteq> []" "fp_lt (last xs) index" "j < length xs"
  shows "fp_lt (xs ! j) index"
proof (cases "j = length xs - 1")
  case False
  then have "fp_le (xs ! j) (xs ! (length xs - 1))"
    using assms by (intro sorted_wrt_nth_less [OF assms(1)]) auto
  then show ?thesis
    using assms(2,3) fp_le_lt_trans by (auto simp: last_conv_nth)
qed (use assms in \<open>simp add: last_conv_nth\<close>)

lemma lookup_interp:
  assumes "table_ok t" "index \<noteq> NaN"
  shows "lookup t index = Inr (interp (zip (tbl_x t) (tbl_y t)) index)"
proof (cases "tbl_len t = 0")
  case True
  then show ?thesis
    using assms by (simp add: lookup_def table_ok_def)
next
  case False
  define n where "n = tbl_len t"
  then obtain x xs y ys where xy: "tbl_x t = x # xs" "tbl_y t = y # ys"
    "length xs = n - 1" "length ys = n - 1" "0 < n"
    using assms False by (cases "tbl_x t"; cases "tbl_y t") (auto simp: table_ok_def)
  have sorted: "sorted_wrt fp_le (x # xs)" and num: "x \<noteq> NaN" "\<And>z. z \<in> set xs \<Longrightarrow> z \<noteq> NaN"
    using assms xy by (auto simp: table_ok_def list_all_iff)
  have top: "(x # xs) ! (n - 1) = last (x # xs)" "(y # ys) ! (n - 1) = last (y # ys)"
    using xy by (metis One_nat_def diff_Suc_1 last_conv_nth length_Cons list.distinct(1))+
  consider (below) "fp_lt index x" | (above) "\<not> fp_lt index x" "fp_lt (last (x # xs)) index"
    | (inside) "\<not> fp_lt index x" "\<not> fp_lt (last (x # xs)) index"
    by blast
  then show ?thesis
  proof cases
    case below
    then show ?thesis
      using xy False fp_lt_asym by (auto simp: lookup_def)
  next
    case above
    then have all: "fp_lt ((x # xs) ! j) index" if "j < n" for j
      using fp_lt_last [OF sorted] that xy by simp
    have "interp (zip (x # xs) (y # ys)) index = last (y # ys)"
      using interp_scan_at [of ys xs "length xs" index x y] all [of 0] all [of "Suc j" for j] xy
      by (auto simp: last_conv_nth)
    then show ?thesis
      using above xy False top by (simp add: lookup_def n_def [symmetric])
  next
    case inside
    have "splits (x # xs) index 0 n"
      using xy by (simp add: splits_def)
    then obtain i where i: "lookup_search (x # xs) index 0 n = Inr i" "splits (x # xs) index i i"
      using lookup_search_splits [OF sorted] by blast
    have "i < n"
    proof (rule ccontr)
      assume "\<not> i < n"
      then have "fp_lt ((x # xs) ! (n - 1)) index"
        using i(2) xy by (simp add: splits_def)
      then show False
        using inside top by simp
    qed
    have lookup: "lookup t index = lookup_at t index i"
      using inside xy False top i(1) by (simp add: lookup_def n_def [symmetric])
    show ?thesis
    proof (cases i)
      case 0
      then have "\<not> fp_lt x index"
        using i(2) by (auto simp: splits_def)
      then have "fp_eq x index"
        using inside fp_total [of index x] num assms(2) fp_eq_sym by blast
      then show ?thesis
        using 0 xy lookup \<open>\<not> fp_lt x index\<close> by (simp add: lookup_at_def)
    next
      case (Suc k)
      have x: "fp_lt x index" and before: "\<And>j. j < k \<Longrightarrow> fp_lt (xs ! j) index"
        and at: "\<not> fp_lt (xs ! k) index" and k: "k < length xs"
        using i(2) Suc xy \<open>i < n\<close> by (auto simp: splits_def dest: spec [of _ "Suc j" for j])
      have "interp (zip (x # xs) (y # ys)) index =
          (if fp_eq (xs ! k) index then ys ! k
           else interpolate index ((x # xs) ! k) (xs ! k) ((y # ys) ! k) (ys ! k))"
        using interp_scan_at [of ys xs k index x y] x before at k xy by (cases k) auto
      then show ?thesis
        using Suc k xy lookup by (simp add: lookup_at_def)
    qed
  qed
qed

section \<open>Properties\<close>



text \<open>
  With an empty search string the replacement loop never returns: \<open>strstr\<close> finds it at
  every position without moving on.
\<close>

theorem strrepl_empty_diverges: "strrepl s [] [] = None"
  by (simp add: strrepl_def strrepl_loop_empty)



text \<open>
  When the lower case is shorter, the NUL is not moved: the bytes of the old text beyond the
  shorter result stay in the string.
\<close>

theorem utf8_tolower_keeps_tail:
  assumes "text_ok rs"
  shows "tolower_str (utf8 rs) = Inr (lowered rs @ drop (length (lowered rs)) (utf8 rs))"
  using assms by (rule tolower_str_text)

theorem utf8_tolower_keeps_tail_witness:
  "tolower_str (utf8 [0x130]) = Inr (lowered [0x130] @ drop (length (lowered [0x130])) (utf8 [0x130])) \<and>
   tolower_str (utf8 [0x130]) = Inr [CHR ''i'', CHR 0xB0]"
proof -
  have "tolower_str (utf8 [0x130]) = Inr (lowered [0x130] @ drop (length (lowered [0x130])) (utf8 [0x130]))"
    by (rule utf8_tolower_keeps_tail) simp
  then show ?thesis
    by (simp add: tolower_dotted_I runetochar_def encode_arith char_of_eq_iff)
qed

text \<open>
  On a text that is not valid UTF-8 the result can be longer than the buffer: each bad byte
  is written back as three bytes, the decoder then reads the bytes just written, and the write
  runs past the end of the reallocated buffer.
\<close>

theorem utf8_tolower_overflows: "tolower_str (CHR 0x80 # ''aa'') = Inl OutOfBounds"
proof -
  have "tolowerrune 0xFFFD = 0xFFFD"
    by (rule tolower_bad_rune)
  moreover have "tolowerrune 0x61 = 0x61"
    by (simp add: tolowerrune_ascii)
  ultimately show ?thesis
    by (simp add: tolower_str_def utf8_tolower_def strdup_def lower_need.simps lower_write.simps
        charntorune_def fullrune_def chartorune_arith is_cont_def bad_rune_def runelen_def
        runetochar_def encode_def realloc_to_def bytes_from_def put_bytes_def read_fault_def
        decoder_reads_def Let_def)
qed



text \<open>
  No canonical name holds a space, a newline or a carriage return, whatever bytes the name
  had.
\<close>

theorem canonicalize_no_blank:
  assumes "canonicalize n = Inr t" "c \<in> set t"
  shows "c \<noteq> CHR '' '' \<and> c \<noteq> CHR 0x0A \<and> c \<noteq> CHR 0x0D"
  using canonicalize_canon [OF assms(1)] canon_no_blank assms(2) by auto

theorem canonicalize_no_blank_witness:
  "canonicalize ''a b'' = Inr ''a_b'' \<and> CHR ''_'' \<noteq> CHR '' '' \<and> CHR ''_'' \<noteq> CHR 0x0A \<and> CHR ''_'' \<noteq> CHR 0x0D"
proof -
  have ok: "ascii_ok ''a b''" "\<not> quoted ''a b''"
    by (simp_all add: quoted_def)
  then have "canonicalize ''a b'' = Inr (canon (map ascii_lower ''a b''))"
    using canonicalize_plain [of "ascii_runes ''a b''"] text_ok_ascii ascii_no_dotted
    by (simp only: utf8_ascii lowered_ascii simp_thms)
  then have "canonicalize ''a b'' = Inr ''a_b''"
    by (simp add: ascii_lower_def canon_def underscore_def replace_all.simps)
  then show ?thesis
    using canonicalize_no_blank [of "''a b''" "''a_b''" "CHR ''_''"] by simp
qed

text \<open>
  The canonical form of a name that is a lone double quote writes before the start of the
  buffer.
\<close>

theorem canonicalize_lone_quote: "canonicalize [CHR 0x22] = Inl OutOfBounds"
  by (simp add: canonicalize_def quoted_def)

text \<open>
  Trimming a whole string yields the part between its leading and trailing white space; it
  goes wrong exactly when the first rune that is not white space is too large for the argument
  of \<open>isspace\<close>.
\<close>

theorem strtrim_correct:
  "strtrim s (int (length s)) =
     (if front_ok (dropWhile blank s)
      then Inr (length (takeWhile blank s),
                int (length (rev (dropWhile blank (rev (dropWhile blank s))))))
      else Inl OutOfBounds)"
  by (rule strtrim_eq)

text \<open>
  Rounding up to a multiple, on 64-bit values that do not wrap around: the result is a
  multiple of \<open>n\<close>, at least \<open>i\<close> and less than \<open>i + n\<close>.
\<close>

theorem round_up_correct:
  assumes "0 < i" "0 < n" "unat i + unat n < 2 ^ 64"
  shows "unat n dvd unat (round_up i n) \<and> unat i \<le> unat (round_up i n) \<and>
         unat (round_up i n) < unat i + unat n"
  using round_up_nat [OF assms] round_up_bounds [of "unat i" "unat n"] assms(1,2)
  by (simp add: unat_gt_0)

theorem round_up_correct_witness:
  "unat (8 :: 64 word) dvd unat (round_up 17 8) \<and> unat (17 :: 64 word) \<le> unat (round_up 17 8) \<and>
   unat (round_up 17 8) < unat (17 :: 64 word) + unat (8 :: 64 word)"
  by (rule round_up_correct) simp_all


definition small_table :: table where
  "small_table =
     \<lparr> tbl_x = [d_int 1, d_int 3], tbl_y = [d_int 10, d_int 30], tbl_len = 2 \<rparr>"

lemma small_table_ok: "table_ok small_table"
  by (simp add: table_ok_def small_table_def d_int_le) (simp add: fp_eval)


lemma lookup_search_nan:
  "low \<le> high \<Longrightarrow> high \<le> length x \<Longrightarrow> lookup_search x NaN low high = Inr low"
proof (induction x "NaN" low high rule: lookup_search.induct)
  case (1 x low high)
  then show ?case
    by (subst lookup_search.simps) (auto simp: Let_def)
qed

text \<open>
  A lookup at a NaN, which an equation such as 0/0 produces, reads before the start of the
  table's arrays.
\<close>

theorem lookup_nan:
  assumes "table_ok t" "0 < tbl_len t"
  shows "lookup t NaN = Inl OutOfBounds"
  using assms by (simp add: lookup_def lookup_search_nan lookup_at_def table_ok_def)

theorem lookup_nan_witness: "lookup small_table NaN = Inl OutOfBounds"
  by (rule lookup_nan [OF small_table_ok]) (simp add: small_table_def)

section \<open>Texts one after the other\<close>

lemma utf8_append [simp]: "utf8 (a @ b) = utf8 a @ utf8 b"
  by (simp add: utf8_def)

lemma text_ok_append [simp]: "text_ok (a @ b) \<longleftrightarrow> text_ok a \<and> text_ok b"
  by (simp add: text_ok_def)

end
