(* ===== verification/UtfStrings.thy ===== *)
theory UtfStrings
  imports CStrings
begin

text \<open>
  The functions of libutf on UTF-8 strings: \<^verbatim>\<open>utflen.c\<close>, \<^verbatim>\<open>utfnlen.c\<close>, \<^verbatim>\<open>utfrune.c\<close>, \<^verbatim>\<open>utfrrune.c\<close>,
  \<^verbatim>\<open>utfutf.c\<close> and \<^verbatim>\<open>utfecpy.c\<close>. A pointer into a string is its offset; following one beyond the NUL
  of the string is a fault. On texts of whole runes the functions count, find and copy runes; the
  search for a substring can run past the end of a string that is not well-formed.
\<close>

section \<open>Functions of the C library\<close>

text \<open>\<open>strchr\<close> and \<open>strrchr\<close> convert \<open>c\<close> to a character and find the NUL, too.\<close>

definition strchr :: "cstr \<Rightarrow> nat \<Rightarrow> int \<Rightarrow> nat option run" where
  "strchr s p c =
     (if length s < p then Inl OutOfBounds
      else Inr (find (\<lambda>i. int (byte_at s i) = c mod 256) [p..<Suc (length s)]))"

definition strrchr :: "cstr \<Rightarrow> nat \<Rightarrow> int \<Rightarrow> nat option run" where
  "strrchr s p c =
     (if length s < p then Inl OutOfBounds
      else Inr (find (\<lambda>i. int (byte_at s i) = c mod 256) (rev [p..<Suc (length s)])))"

definition starts_at :: "cstr \<Rightarrow> nat \<Rightarrow> cstr \<Rightarrow> bool" where
  "starts_at s p t \<longleftrightarrow> take (length t) (drop p s) = t"

definition strstr :: "cstr \<Rightarrow> nat \<Rightarrow> cstr \<Rightarrow> nat option run" where
  "strstr s p t =
     (if length s < p then Inl OutOfBounds
      else Inr (find (\<lambda>i. starts_at s i t) [p..<Suc (length s)]))"

section \<open>Counting\<close>

function utflen :: "cstr \<Rightarrow> nat" where
  "utflen s =
     (let c = byte_at s 0
      in if c < Tx then if c = 0 then 0 else 1 + utflen (drop 1 s)
         else 1 + utflen (drop (snd (chartorune s)) s))"
  by pat_completeness auto
termination
proof (relation "measure length", goal_cases)
  case (2 s c)
  then show ?case by (cases s) auto
next
  case (3 s c)
  moreover have "s \<noteq> []" using 3 by (cases s) auto
  ultimately show ?case using chartorune_len [of s] by (cases s) auto
qed simp

declare utflen.simps [simp del]

text \<open>The first \<open>m\<close> bytes; a rune that is not whole there is not counted.\<close>

function utfnlen :: "cstr \<Rightarrow> int \<Rightarrow> nat" where
  "utfnlen s m =
     (if 0 < m then
        let c = byte_at s 0
        in if c < Tx then if c = 0 then 0 else 1 + utfnlen (drop 1 s) (m - 1)
           else if \<not> fullrune s m then 0
           else 1 + utfnlen (drop (snd (chartorune s)) s) (m - int (snd (chartorune s)))
      else 0)"
  by pat_completeness auto
termination
proof (relation "measure (\<lambda>(s, m). length s)", goal_cases)
  case (2 s m c)
  then show ?case by (cases s) auto
next
  case (3 s m c)
  moreover have "s \<noteq> []" using 3 by (cases s) auto
  ultimately show ?case using chartorune_len [of s] by (cases s) auto
qed simp

declare utfnlen.simps [simp del]

section \<open>Finding\<close>

function utfrune_loop :: "cstr \<Rightarrow> nat \<Rightarrow> int \<Rightarrow> nat option run" where
  "utfrune_loop s p c =
     (if length s < p then Inl OutOfBounds
      else
        let c1 = byte_at s p
        in if c1 < Tx then
             if c1 = 0 then Inr None
             else if int c1 = c then Inr (Some p)
             else utfrune_loop s (p + 1) c
           else
             let (r, n) = chartorune (drop p s)
             in if int (unat r) = c then Inr (Some p) else utfrune_loop s (p + n) c)"
  by pat_completeness auto
termination
proof (relation "measure (\<lambda>(s, p, c). Suc (length s) - p)", goal_cases)
  case (3 s p c c1 x r n)
  then show ?case using chartorune_len [of "drop p s"] by (cases "chartorune (drop p s)") auto
qed auto

declare utfrune_loop.simps [simp del]

definition utfrune :: "cstr \<Rightarrow> nat \<Rightarrow> int \<Rightarrow> nat option run" where
  "utfrune s p c = (if c < 0x80 then strchr s p c else utfrune_loop s p c)"

text \<open>\<open>s1\<close> is the last place found so far.\<close>

function utfrrune_loop :: "cstr \<Rightarrow> nat \<Rightarrow> int \<Rightarrow> nat option \<Rightarrow> nat option run" where
  "utfrrune_loop s p c s1 =
     (if length s < p then Inl OutOfBounds
      else
        let c1 = byte_at s p
        in if c1 < Tx then
             if c1 = 0 then Inr s1
             else utfrrune_loop s (p + 1) c (if int c1 = c then Some p else s1)
           else
             let (r, c1) = chartorune (drop p s)
             in utfrrune_loop s (p + c1) c (if int (unat r) = c then Some p else s1))"
  by pat_completeness auto
termination
proof (relation "measure (\<lambda>(s, p, c, s1). Suc (length s) - p)", goal_cases)
  case (3 s p c s1 c1 x r n)
  then show ?case using chartorune_len [of "drop p s"] by (cases "chartorune (drop p s)") auto
qed auto

declare utfrrune_loop.simps [simp del]

definition utfrrune :: "cstr \<Rightarrow> nat \<Rightarrow> int \<Rightarrow> nat option run" where
  "utfrrune s p c = (if c < 0x80 then strrchr s p c else utfrrune_loop s p c None)"

lemma find_in: "find P xs = Some x \<Longrightarrow> x \<in> set xs \<and> P x"
  by (induction xs) (auto split: if_splits)

lemma utfrune_loop_inside: "utfrune_loop s p c = Inr (Some q) \<Longrightarrow> p \<le> q \<and> q \<le> length s"
  by (induction s p c rule: utfrune_loop.induct)
    (subst (asm) (3) utfrune_loop.simps, fastforce simp: Let_def split: if_splits prod.splits)

lemma utfrune_inside: "utfrune s p c = Inr (Some q) \<Longrightarrow> p \<le> q \<and> q \<le> length s"
  using utfrune_loop_inside [of s p c q]
  by (auto simp: utfrune_def strchr_def split: if_splits dest!: find_in)

text \<open>The loop of \<open>utfutf\<close>: \<open>f\<close> is the first rune of \<open>t\<close>, \<open>n1\<close> the number of its bytes.\<close>

function utfutf_loop :: "cstr \<Rightarrow> cstr \<Rightarrow> int \<Rightarrow> nat \<Rightarrow> nat \<Rightarrow> nat option run" where
  "utfutf_loop s t f n1 p =
     rbind (utfrune s p f) (\<lambda>r. case r of
       None \<Rightarrow> Inr None
     | Some q \<Rightarrow>
         if starts_at s q t then Inr (Some q)
         else if n1 = 0 then Inl Diverges
         else utfutf_loop s t f n1 (q + n1))"
  by pat_completeness auto
termination
proof (relation "measure (\<lambda>(s, t, f, n1, p). Suc (length s) - p)", goal_cases)
  case (2 s t f n1 p r q)
  then show ?case using utfrune_inside [of s p f q] by auto
qed simp

declare utfutf_loop.simps [simp del]

definition utfutf :: "cstr \<Rightarrow> cstr \<Rightarrow> nat option run" where
  "utfutf s1 s2 =
     (let (r, n1) = chartorune s2; f = int (unat r)
      in if f \<le> 0x80 then strstr s1 0 s2 else utfutf_loop s1 s2 f n1 0)"

section \<open>Copying\<close>

text \<open>
  \<open>buf\<close> holds the bytes from \<open>to\<close> up to \<open>e\<close>; \<open>move_back\<close> is the loop that moves \<open>end\<close> to the front of a
  rune. The result is the returned offset and the bytes afterwards.
\<close>

fun move_back :: "cstr \<Rightarrow> nat \<Rightarrow> nat" where
  "move_back buf 0 = 0"
| "move_back buf (Suc n) = (if byte_at buf n AND 0xC0 = 0x80 then move_back buf n else n)"

definition utfecpy :: "cstr \<Rightarrow> cstr \<Rightarrow> nat \<times> cstr" where
  "utfecpy buf from =
     (if buf = [] then (0, buf)
      else if length from < length buf then
        (length from, from @ [CHR 0x00] @ drop (length from + 1) buf)
      else
        let buf' = take (length buf) from; end = move_back buf' (length buf - 1)
        in (end, buf'[end := CHR 0x00]))"

section \<open>On texts of whole runes\<close>

lemma runetochar_head:
  assumes "unat r \<le> Runemax" "r \<noteq> 0"
  shows "byte_at (runetochar r @ rest) 0 < Tx \<longleftrightarrow> unat r < 128"
    and "unat r < 128 \<Longrightarrow> runetochar r = [char_of (unat r)]" "byte_at (runetochar r @ rest) 0 \<noteq> 0"
proof -
  have l: "unat r div 262144 < 8" "0 < unat r" using assms by (simp_all add: unat_gt_0)
  show "byte_at (runetochar r @ rest) 0 < Tx \<longleftrightarrow> unat r < 128" "byte_at (runetochar r @ rest) 0 \<noteq> 0"
    using l assms(1) by (auto simp: runetochar_def encode_arith lead_or less_mult_imp_div_less)
  show "runetochar r = [char_of (unat r)]" if "unat r < 128"
    using that by (simp add: runetochar_def encode_def)
qed

lemma chartorune_runetochar:
  assumes "unat r \<le> Runemax"
  shows "chartorune (runetochar r @ rest) = (r, length (runetochar r))"
  using chartorune_encode [OF assms, of rest] assms by (simp add: runetochar_def)

lemma fullrune_iff:
  assumes "unat r \<le> Runemax"
  shows "fullrune (runetochar r @ rest) m \<longleftrightarrow> int (length (runetochar r)) \<le> m"
proof
  assume "fullrune (runetochar r @ rest) m"
  from fullrune_fits [OF this] show "int (length (runetochar r)) \<le> m"
    by (simp add: chartorune_runetochar [OF assms])
next
  assume m: "int (length (runetochar r)) \<le> m"
  then have "int (runelen r) + int (nat (m - int (runelen r))) = m" by (simp add: runelen_def)
  with fullrune_runetochar [OF assms, of rest "nat (m - int (runelen r))"]
  show "fullrune (runetochar r @ rest) m" by simp
qed

lemma utflen_utf8: "text_ok rs \<Longrightarrow> utflen (utf8 rs) = length rs"
proof (induction rs)
  case Nil
  then show ?case by (simp add: utflen.simps)
next
  case (Cons r rs)
  then have r: "unat r \<le> Runemax" "r \<noteq> 0" "text_ok rs" by simp_all
  note h = runetochar_head(1) [OF r(1,2), of "utf8 rs"] runetochar_head(2) [OF r(1,2)] runetochar_head(3) [OF r(1,2), of "utf8 rs"]
  show ?case using Cons.IH [OF r(3)] h chartorune_runetochar [OF r(1), of "utf8 rs"]
    by (subst utflen.simps) (cases "unat r < 128", auto simp: Let_def)
qed

text \<open>How many runes of a list fit into \<open>m\<close> bytes.\<close>

fun fitting :: "rune list \<Rightarrow> int \<Rightarrow> nat" where
  "fitting [] m = 0"
| "fitting (r # rs) m = (if int (runelen r) \<le> m then 1 + fitting rs (m - int (runelen r)) else 0)"

lemma utfnlen_utf8: "text_ok rs \<Longrightarrow> utfnlen (utf8 rs) m = fitting rs m"
proof (induction rs arbitrary: m)
  case Nil
  then show ?case by (simp add: utfnlen.simps)
next
  case (Cons r rs)
  then have r: "unat r \<le> Runemax" "r \<noteq> 0" "text_ok rs" by simp_all
  note h = runetochar_head(1) [OF r(1,2), of "utf8 rs"] runetochar_head(2) [OF r(1,2)] runetochar_head(3) [OF r(1,2), of "utf8 rs"]
  have "0 < length (runetochar r)" using runelen_pos [of r] by (simp add: runelen_def)
  then have pos: "0 < m" if "int (length (runetochar r)) \<le> m" using that by linarith
  show ?case using Cons.IH [OF r(3)] h chartorune_runetochar [OF r(1), of "utf8 rs"] fullrune_iff [OF r(1), of "utf8 rs" m] pos
    by (subst utfnlen.simps) (cases "unat r < 128", auto simp: Let_def runelen_def)
qed

lemma byte_at_append_end [simp]: "byte_at (pre @ s) (length pre) = byte_at s 0"
  by (simp add: byte_at_def nth_append)

lemma byte_at_end [simp]: "byte_at s (length s) = 0"
  by (simp add: byte_at_def)

lemma utfrune_loop_utf8:
  assumes "text_ok rs"
  shows "utfrune_loop (pre @ utf8 rs) (length pre) (uint c) =
    Inr (if c \<in> set rs then Some (length pre + length (utf8 (takeWhile (\<lambda>r. r \<noteq> c) rs))) else None)"
  using assms
proof (induction rs arbitrary: pre)
  case Nil
  then show ?case by (simp add: utfrune_loop.simps)
next
  case (Cons r rs)
  then have r: "unat r \<le> Runemax" "r \<noteq> 0" "text_ok rs" by simp_all
  note h = runetochar_head(1) [OF r(1,2), of "utf8 rs"] runetochar_head(2) [OF r(1,2)] runetochar_head(3) [OF r(1,2), of "utf8 rs"]
  have eq: "uint r = uint c \<longleftrightarrow> r = c" by (simp add: word_uint_eq_iff)
  have IH: "utfrune_loop (pre @ runetochar r @ utf8 rs) (length pre + length (runetochar r)) (uint c) =
      Inr (if c \<in> set rs then Some (length pre + length (runetochar r) + length (utf8 (takeWhile (\<lambda>r. r \<noteq> c) rs))) else None)"
    using Cons.IH [OF r(3), of "pre @ runetochar r"] by simp
  have u: "utfrune_loop (pre @ utf8 (r # rs)) (length pre) (uint c) =
      (if r = c then Inr (Some (length pre))
       else utfrune_loop (pre @ runetochar r @ utf8 rs) (length pre + length (runetochar r)) (uint c))"
  proof (cases "unat r < 128")
    case True
    then have "byte_at (runetochar r @ utf8 rs) 0 = unat r" "length (runetochar r) = 1" using h(2) by simp_all
    then show ?thesis using h(1,3) True r(2)
      by (subst utfrune_loop.simps) (auto simp: Let_def eq)
  next
    case False
    then show ?thesis using h(1) chartorune_runetochar [OF r(1), of "utf8 rs"]
      by (subst utfrune_loop.simps) (auto simp: Let_def eq)
  qed
  then show ?case using IH by auto
qed

lemma utfrune_utf8:
  assumes "text_ok rs" "128 \<le> uint c"
  shows "utfrune (pre @ utf8 rs) (length pre) (uint c) =
    Inr (if c \<in> set rs then Some (length pre + length (utf8 (takeWhile (\<lambda>r. r \<noteq> c) rs))) else None)"
  using utfrune_loop_utf8 [OF assms(1), of pre c] assms(2) by (simp add: utfrune_def)

text \<open>The last occurrence is the first one of the reversed text.\<close>

fun last_offset :: "rune \<Rightarrow> rune list \<Rightarrow> nat \<Rightarrow> nat option \<Rightarrow> nat option" where
  "last_offset c [] p found = found"
| "last_offset c (r # rs) p found =
     last_offset c rs (p + runelen r) (if r = c then Some p else found)"

lemma last_offset_append:
  "last_offset c (xs @ ys) p found = last_offset c ys (p + length (utf8 xs)) (last_offset c xs p found)"
  by (induction xs arbitrary: p found) (simp_all add: runelen_def add.assoc)

lemma last_offset_none: "c \<notin> set rs \<Longrightarrow> last_offset c rs p found = found"
  by (induction rs arbitrary: p found) auto

lemma utfrrune_loop_utf8:
  assumes "text_ok rs"
  shows "utfrrune_loop (pre @ utf8 rs) (length pre) (uint c) found = Inr (last_offset c rs (length pre) found)"
  using assms
proof (induction rs arbitrary: pre found)
  case Nil
  then show ?case by (simp add: utfrrune_loop.simps)
next
  case (Cons r rs)
  then have r: "unat r \<le> Runemax" "r \<noteq> 0" "text_ok rs" by simp_all
  note h = runetochar_head(1) [OF r(1,2), of "utf8 rs"] runetochar_head(2) [OF r(1,2)] runetochar_head(3) [OF r(1,2), of "utf8 rs"]
  have eq: "uint r = uint c \<longleftrightarrow> r = c" by (simp add: word_uint_eq_iff)
  have IH: "utfrrune_loop (pre @ runetochar r @ utf8 rs) (length pre + length (runetochar r)) (uint c) found =
      Inr (last_offset c rs (length pre + length (runetochar r)) found)" for found
    using Cons.IH [OF r(3), of "pre @ runetochar r"] by simp
  show ?case
  proof (cases "unat r < 128")
    case True
    then have "byte_at (runetochar r @ utf8 rs) 0 = unat r" "length (runetochar r) = 1" using h(2) by simp_all
    then show ?thesis using h(1,3) True r(2) IH
      by (subst utfrrune_loop.simps) (auto simp: Let_def eq runelen_def)
  next
    case False
    then show ?thesis using h(1) chartorune_runetochar [OF r(1), of "utf8 rs"] IH
      by (subst utfrrune_loop.simps) (auto simp: Let_def eq runelen_def)
  qed
qed

section \<open>Searching a text in a text\<close>

lemma runetochar_prefix_free:
  assumes "unat r \<le> Runemax" "unat q \<le> Runemax" "runetochar r @ a = runetochar q @ b"
  shows "r = q \<and> a = b"
  using chartorune_runetochar [OF assms(1), of a] chartorune_runetochar [OF assms(2), of b] assms(3) by auto

lemma starts_at_utf8:
  assumes "text_ok rs" "text_ok qs"
  shows "take (length (utf8 qs)) (utf8 rs) = utf8 qs \<longleftrightarrow> take (length qs) rs = qs"
  using assms
proof (induction qs arbitrary: rs)
  case (Cons q qs)
  then have q: "unat q \<le> Runemax" "text_ok qs" by simp_all
  have nn: "runetochar q \<noteq> []" using runelen_pos [of q] by (auto simp: runelen_def)
  show ?case
  proof (cases rs)
    case Nil
    then show ?thesis using nn by simp
  next
    case (Cons r rs')
    then have r: "unat r \<le> Runemax" "text_ok rs'" using Cons.prems(1) by simp_all
    show ?thesis
    proof
      assume l: "take (length (utf8 (q # qs))) (utf8 rs) = utf8 (q # qs)"
      then have "utf8 rs = utf8 (q # qs) @ drop (length (utf8 (q # qs))) (utf8 rs)"
        by (metis append_take_drop_id)
      then have "runetochar r @ utf8 rs' = runetochar q @ (utf8 qs @ drop (length (utf8 (q # qs))) (utf8 rs))"
        using Cons by simp
      from runetochar_prefix_free [OF r(1) q(1) this] l Cons Cons.IH [OF r(2) q(2)]
      show "take (length (q # qs)) rs = q # qs" by simp
    next
      assume "take (length (q # qs)) rs = q # qs"
      then show "take (length (utf8 (q # qs))) (utf8 rs) = utf8 (q # qs)"
        using Cons Cons.IH [OF r(2) q(2)] by simp
    qed
  qed
qed simp

text \<open>The index of the first occurrence of a list of runes.\<close>

fun first_sub :: "rune list \<Rightarrow> rune list \<Rightarrow> nat option" where
  "first_sub qs [] = (if qs = [] then Some 0 else None)"
| "first_sub qs (r # rs) = (if take (length qs) (r # rs) = qs then Some 0 else map_option Suc (first_sub qs rs))"

lemma first_sub_skip:
  "q \<notin> set xs \<Longrightarrow> first_sub (q # qs) (xs @ ys) = map_option (\<lambda>i. length xs + i) (first_sub (q # qs) ys)"
  by (induction xs) (cases "first_sub (q # qs) ys"; auto)+

lemma utfutf_loop_utf8:
  assumes "text_ok rs" "text_ok (q # qs)" "128 \<le> uint q"
  shows "utfutf_loop (pre @ utf8 rs) (utf8 (q # qs)) (uint q) (length (runetochar q)) (length pre) =
    Inr (map_option (\<lambda>i. length pre + length (utf8 (take i rs))) (first_sub (q # qs) rs))"
  using assms(1)
proof (induction "length rs" arbitrary: rs pre rule: less_induct)
  case less
  let ?t = "utf8 (q # qs)"
  have n1: "length (runetochar q) \<noteq> 0" using runelen_pos [of q] by (simp add: runelen_def)
  show ?case
  proof (cases "q \<in> set rs")
    case False
    then have "first_sub (q # qs) rs = None" using first_sub_skip [OF False, of qs "[]"] by simp
    then show ?thesis using utfrune_utf8 [OF less.prems assms(3), of pre] False by (subst utfutf_loop.simps) simp
  next
    case True
    then obtain xs ys where rs: "rs = xs @ q # ys" "q \<notin> set xs" using split_list_first by metis
    let ?p = "length pre + length (utf8 xs)"
    have tw: "takeWhile (\<lambda>r. r \<noteq> q) rs = xs" using rs by (auto simp: takeWhile_append)
    have found: "utfrune (pre @ utf8 rs) (length pre) (uint q) = Inr (Some ?p)"
      using utfrune_utf8 [OF less.prems assms(3), of pre] True by (simp add: tw)
    have ok: "text_ok (q # ys)" using less.prems rs(1) by simp
    have starts: "starts_at (pre @ utf8 rs) ?p ?t \<longleftrightarrow> take (length (q # qs)) (q # ys) = q # qs"
      unfolding starts_at_utf8 [OF ok assms(2), symmetric] by (simp add: starts_at_def rs(1) utf8_append)
    have first: "first_sub (q # qs) rs =
        (if take (length (q # qs)) (q # ys) = q # qs then Some (length xs)
         else map_option (\<lambda>i. length xs + Suc i) (first_sub (q # qs) ys))"
      using first_sub_skip [OF rs(2), of qs "q # ys"] by (auto simp: rs(1) option.map_comp comp_def)
    show ?thesis
    proof (cases "take (length (q # qs)) (q # ys) = q # qs")
      case True
      then show ?thesis using found starts first by (subst utfutf_loop.simps) (simp add: rs(1))
    next
      case False
      let ?pre = "pre @ utf8 xs @ runetochar q"
      have "utfutf_loop (?pre @ utf8 ys) ?t (uint q) (length (runetochar q)) (length ?pre) =
          Inr (map_option (\<lambda>i. length ?pre + length (utf8 (take i ys))) (first_sub (q # qs) ys))"
        using rs(1) ok by (intro less.hyps) simp_all
      then have IH: "utfutf_loop (pre @ utf8 rs) ?t (uint q) (length (runetochar q)) (?p + length (runetochar q)) =
          Inr (map_option (\<lambda>i. ?p + length (runetochar q) + length (utf8 (take i ys))) (first_sub (q # qs) ys))"
        by (simp add: rs(1) utf8_append add.assoc)
      show ?thesis using False found starts first n1 IH
        by (subst utfutf_loop.simps) (simp add: rs(1) utf8_append option.map_comp comp_def add.assoc)
    qed
  qed
qed

section \<open>Copying a text\<close>

text \<open>A byte of a text that is not a continuation byte starts a rune.\<close>

lemma boundary:
  assumes "text_ok rs" "j < length (utf8 rs)" "\<not> is_cont (byte_at (utf8 rs) j)"
  shows "\<exists>k \<le> length rs. j = length (utf8 (take k rs))"
  using assms
proof (induction rs arbitrary: j)
  case (Cons r rs)
  then have r: "unat r \<le> Runemax" "text_ok rs" by simp_all
  let ?n = "length (runetochar r)"
  consider "j = 0" | "0 < j" "j < ?n" | "?n \<le> j" by linarith
  then show ?case
  proof cases
    case 1
    then show ?thesis by (intro exI [of _ 0]) simp
  next
    case 2
    then show ?thesis using chartorune_conts [of j "utf8 (r # rs)"] Cons.prems(3)
      by (simp add: chartorune_runetochar [OF r(1)])
  next
    case 3
    have "byte_at (utf8 (r # rs)) j = byte_at (utf8 rs) (j - ?n)"
      using 3 byte_at_drop [of ?n "utf8 (r # rs)" "j - ?n"] by simp
    then obtain k where "k \<le> length rs" "j - ?n = length (utf8 (take k rs))"
      using Cons.IH [OF r(2), of "j - ?n"] Cons.prems(2,3) 3 by (auto simp: less_diff_conv2)
    then show ?thesis using 3 by (intro exI [of _ "Suc k"]) simp
  qed
qed simp

lemma byte_mask_list: "list_all (\<lambda>b. (b AND 0xC0 = 0x80) = (128 \<le> b \<and> b < 192)) (0 # 1 # [2..<256 :: nat])"
  by (simp add: upt_rec_numeral del: upt_Suc)

lemma cont_mask: "byte_at s i AND 0xC0 = 0x80 \<longleftrightarrow> is_cont (byte_at s i)"
proof -
  have "byte_at s i = 0 \<or> byte_at s i = 1 \<or> byte_at s i \<in> {2..<256}"
    unfolding atLeastLessThan_iff using byte_at_less [of s i] by linarith
  then have "byte_at s i \<in> set (0 # 1 # [2..<256])"
    by (simp only: list.set set_upt insert_iff)
  with byte_mask_list show ?thesis unfolding list_all_iff is_cont_def by blast
qed

lemma move_back_stops:
  "move_back buf n \<le> n \<and> (move_back buf n = 0 \<or> \<not> is_cont (byte_at buf (move_back buf n)) \<and> move_back buf n < n)"
  by (induction n) (auto simp: cont_mask)

section \<open>Properties\<close>



text \<open>
  Copying a text into a buffer that is too short keeps whole runes and ends the string in the
  buffer; a text that fits is copied whole.
\<close>

theorem utfecpy_whole_runes:
  assumes "text_ok rs" "buf \<noteq> []"
  shows "\<exists>k buf'. utfecpy buf (utf8 rs) = (length (utf8 (take k rs)), buf') \<and> k \<le> length rs \<and>
    length buf' = length buf \<and> length (utf8 (take k rs)) < length buf \<and>
    take (length (utf8 (take k rs)) + 1) buf' = utf8 (take k rs) @ [CHR 0x00] \<and>
    (length (utf8 rs) < length buf \<longrightarrow> k = length rs)"
proof (cases "length (utf8 rs) < length buf")
  case True
  then show ?thesis using assms(2)
    by (intro exI [of _ "length rs"] exI [of _ "utf8 rs @ [CHR 0x00] @ drop (length (utf8 rs) + 1) buf"])
      (simp add: utfecpy_def)
next
  case False
  let ?b = "take (length buf) (utf8 rs)"
  define n where "n = move_back ?b (length buf - 1)"
  have len: "length ?b = length buf" using False by simp
  have n: "n < length buf" "n = 0 \<or> \<not> is_cont (byte_at ?b n)"
    using move_back_stops [of ?b "length buf - 1"] assms(2) by (auto simp: n_def)
  have "\<exists>k \<le> length rs. n = length (utf8 (take k rs))"
  proof (cases "n = 0")
    case True
    then show ?thesis by (intro exI [of _ 0]) simp
  next
    case False
    then have "\<not> is_cont (byte_at (utf8 rs) n)" using n len by (auto simp: byte_at_def split: if_splits)
    then show ?thesis using boundary [OF assms(1)] n(1) len by simp
  qed
  then obtain k where k: "k \<le> length rs" "n = length (utf8 (take k rs))" by blast
  have "utf8 rs = utf8 (take k rs) @ utf8 (drop k rs)" by (simp flip: utf8_append)
  then have "take n ?b = utf8 (take k rs)" using n(1) k(2) by (metis append_eq_conv_conj min.strict_order_iff take_take)
  then have "take (n + 1) (?b[n := CHR 0x00]) = utf8 (take k rs) @ [CHR 0x00]"
    using n(1) len by (simp add: take_Suc_update)
  moreover have "utfecpy buf (utf8 rs) = (n, ?b[n := CHR 0x00])"
    using False assms(2) by (simp add: utfecpy_def n_def Let_def)
  ultimately show ?thesis using k n(1) False len by (intro exI [of _ k] exI [of _ "?b[n := CHR 0x00]"]) simp
qed

lemma utfecpy_whole_runes_witness:
  "\<exists>k buf'. utfecpy ''abcd'' (utf8 [0xE5, 0x2265]) = (length (utf8 (take k [0xE5, 0x2265])), buf') \<and>
    k \<le> length [0xE5, 0x2265 :: rune] \<and>
    take (length (utf8 (take k [0xE5, 0x2265])) + 1) buf' = utf8 (take k [0xE5, 0x2265]) @ [CHR 0x00]"
proof -
  have "text_ok [0xE5, 0x2265]" "''abcd'' \<noteq> []" by simp_all
  from utfecpy_whole_runes [OF this] show ?thesis by blast
qed

text \<open>
  \<open>utfutf\<close> steps by the length of the first rune of the text searched for, also past a byte that
  merely decodes to the same error rune: searching \<open>U+FFFD\<close> in a string of one stray byte, it goes on
  two bytes behind the end of the string, and in a longer string it misses an occurrence.
\<close>

theorem utfutf_overruns:
  "utfutf [CHR 0x80] (runetochar 0xFFFD) = Inl OutOfBounds \<and>
   starts_at ([CHR 0x80] @ runetochar 0xFFFD @ ''abc'') 1 (runetochar 0xFFFD) \<and>
   utfutf ([CHR 0x80] @ runetochar 0xFFFD @ ''abc'') (runetochar 0xFFFD) = Inr None"
proof -
  have t: "runetochar 0xFFFD = [CHR 0xEF, CHR 0xBF, CHR 0xBD]"
    by (simp add: runetochar_def encode_arith lead_or) (simp add: char_of_def bit_0)
  show ?thesis
    by (simp add: t utfutf_def utfutf_loop.simps utfrune_def utfrune_loop.simps starts_at_def
        chartorune_arith is_cont_def bad_rune_def)
qed

end
