(* ===== verification/RuneStrings.thy ===== *)
theory RuneStrings
  imports UtfStrings
begin

text \<open>
  The functions of libutf on strings of runes, \<^verbatim>\<open>runestr*.c\<close>. An array of runes is a list, a pointer an
  index into it, and reading or writing outside of it a fault; the arrays of source and destination
  are different. On strings that are ended by a zero in their array and have room in the
  destination the functions do on lists what their names say.
\<close>

section \<open>Length and searching\<close>

text \<open>\<open>while (*s++);\<close> and the pointer back at the zero.\<close>

function runestrend :: "rune list \<Rightarrow> nat \<Rightarrow> nat run" where
  "runestrend m s = rbind (aread m s) (\<lambda>c. if c \<noteq> 0 then runestrend m (s + 1) else Inr s)"
  by pat_completeness auto
termination
  by (relation "measure (\<lambda>(m, s). length m - s)") (auto simp: aread_Inr)

declare runestrend.simps [simp del]

function runestrchr_loop :: "rune list \<Rightarrow> nat \<Rightarrow> rune \<Rightarrow> nat option run" where
  "runestrchr_loop m s c0 =
     rbind (aread m s) (\<lambda>c1.
       if c1 \<noteq> 0 then if c1 = c0 then Inr (Some s) else runestrchr_loop m (s + 1) c0 else Inr None)"
  by pat_completeness auto
termination
  by (relation "measure (\<lambda>(m, s, c). length m - s)") (auto simp: aread_Inr)

declare runestrchr_loop.simps [simp del]

definition runestrchr :: "rune list \<Rightarrow> nat \<Rightarrow> rune \<Rightarrow> nat option run" where
  "runestrchr m s c =
     (if c = 0 then rbind (runestrend m s) (\<lambda>e. Inr (Some e)) else runestrchr_loop m s c)"

definition runestrlen :: "rune list \<Rightarrow> nat \<Rightarrow> nat run" where
  "runestrlen m s =
     rbind (runestrchr m s 0) (\<lambda>r. case r of None \<Rightarrow> Inl NullDeref | Some e \<Rightarrow> Inr (e - s))"

lemma runestrchr_loop_inside: "runestrchr_loop m s c = Inr (Some p) \<Longrightarrow> s \<le> p \<and> p < length m"
proof (induction m s c rule: runestrchr_loop.induct)
  case (1 m s c0)
  then show ?case
    by (subst (asm) (2) runestrchr_loop.simps) (fastforce simp: rbind_eq_Inr aread_Inr split: if_splits)
qed

text \<open>The loop of \<open>runestrrchr\<close>, for a rune other than zero; \<open>r\<close> is the last place found.\<close>

function runestrrchr_loop :: "rune list \<Rightarrow> nat \<Rightarrow> rune \<Rightarrow> nat option \<Rightarrow> nat option run" where
  "runestrrchr_loop m s c r =
     rbind (runestrchr_loop m s c) (\<lambda>p. case p of
       None \<Rightarrow> Inr r
     | Some s \<Rightarrow> runestrrchr_loop m (s + 1) c (Some s))"
  by pat_completeness auto
termination
  by (relation "measure (\<lambda>(m, s, c, r). length m - s)") (auto dest!: runestrchr_loop_inside)

declare runestrrchr_loop.simps [simp del]

definition runestrrchr :: "rune list \<Rightarrow> nat \<Rightarrow> rune \<Rightarrow> nat option run" where
  "runestrrchr m s c = (if c = 0 then runestrchr m s 0 else runestrrchr_loop m s c None)"

text \<open>
  The inner loop of \<open>runestrstr\<close>: whether the string at \<open>pb\<close> follows the rune at \<open>pa\<close>. The outer
  one goes from one place of the first rune to the next.
\<close>

function follows :: "rune list \<Rightarrow> nat \<Rightarrow> rune list \<Rightarrow> nat \<Rightarrow> bool run" where
  "follows m pa t pb =
     rbind (aread t pb) (\<lambda>c.
       if c = 0 then Inr True
       else rbind (aread m (pa + 1)) (\<lambda>d. if c \<noteq> d then Inr False else follows m (pa + 1) t (pb + 1)))"
  by pat_completeness auto
termination
  by (relation "measure (\<lambda>(m, pa, t, pb). length t - pb)") (auto simp: aread_Inr)

declare follows.simps [simp del]

function runestrstr_loop :: "rune list \<Rightarrow> nat \<Rightarrow> rune \<Rightarrow> rune list \<Rightarrow> nat \<Rightarrow> nat option run" where
  "runestrstr_loop m s c0 t s2 =
     rbind (runestrchr_loop m s c0) (\<lambda>p. case p of
       None \<Rightarrow> Inr None
     | Some p \<Rightarrow>
         rbind (follows m p t s2) (\<lambda>b. if b then Inr (Some p) else runestrstr_loop m (p + 1) c0 t s2))"
  by pat_completeness auto
termination
  by (relation "measure (\<lambda>(m, s, c, t, s2). length m - s)") (auto dest!: runestrchr_loop_inside)

declare runestrstr_loop.simps [simp del]

definition runestrstr :: "rune list \<Rightarrow> nat \<Rightarrow> rune list \<Rightarrow> nat \<Rightarrow> nat option run" where
  "runestrstr m s1 t s2 =
     rbind (aread t s2) (\<lambda>c0.
       if c0 = 0 then Inr (Some s1) else runestrstr_loop m s1 c0 t (s2 + 1))"

section \<open>Comparing\<close>

function runestrcmp :: "rune list \<Rightarrow> nat \<Rightarrow> rune list \<Rightarrow> nat \<Rightarrow> int run" where
  "runestrcmp m s1 t s2 =
     rbind (aread m s1) (\<lambda>c1.
     rbind (aread t s2) (\<lambda>c2.
       if c1 \<noteq> c2 then if c1 > c2 then Inr 1 else Inr (-1)
       else if c1 = 0 then Inr 0
       else runestrcmp m (s1 + 1) t (s2 + 1)))"
  by pat_completeness auto
termination
  by (relation "measure (\<lambda>(m, s1, t, s2). length m - s1)") (auto simp: aread_Inr)

declare runestrcmp.simps [simp del]

function runestrncmp :: "rune list \<Rightarrow> nat \<Rightarrow> rune list \<Rightarrow> nat \<Rightarrow> int \<Rightarrow> int run" where
  "runestrncmp m s1 t s2 n =
     (if n > 0 then
        rbind (aread m s1) (\<lambda>c1.
        rbind (aread t s2) (\<lambda>c2.
          if c1 \<noteq> c2 then if c1 > c2 then Inr 1 else Inr (-1)
          else if c1 = 0 then Inr 0
          else runestrncmp m (s1 + 1) t (s2 + 1) (n - 1)))
      else Inr 0)"
  by pat_completeness auto
termination
  by (relation "measure (\<lambda>(m, s1, t, s2, n). length m - s1)") (auto simp: aread_Inr)

declare runestrncmp.simps [simp del]

section \<open>Copying\<close>

text \<open>The destination array \<open>d\<close> afterwards; the returned pointer is the one passed.\<close>

function runestrcpy :: "rune list \<Rightarrow> nat \<Rightarrow> rune list \<Rightarrow> nat \<Rightarrow> rune list run" where
  "runestrcpy d s1 m s2 =
     rbind (aread m s2) (\<lambda>c.
     rbind (awrite d s1 c) (\<lambda>d. if c \<noteq> 0 then runestrcpy d (s1 + 1) m (s2 + 1) else Inr d))"
  by pat_completeness auto
termination
  by (relation "measure (\<lambda>(d, s1, m, s2). length m - s2)") (auto simp: aread_Inr)

declare runestrcpy.simps [simp del]

definition runestrcat :: "rune list \<Rightarrow> nat \<Rightarrow> rune list \<Rightarrow> nat \<Rightarrow> rune list run" where
  "runestrcat d s1 m s2 =
     rbind (runestrchr d s1 0) (\<lambda>r. case r of None \<Rightarrow> Inl NullDeref | Some e \<Rightarrow> runestrcpy d e m s2)"

text \<open>\<open>alloc n\<close> is a new array of \<open>n\<close> runes, whatever they are, or null.\<close>

definition runestrdup :: "(nat \<Rightarrow> rune list option) \<Rightarrow> rune list \<Rightarrow> nat \<Rightarrow> rune list option run" where
  "runestrdup alloc m s =
     rbind (runestrlen m s) (\<lambda>n.
       case alloc (n + 1) of
         None \<Rightarrow> Inr None
       | Some ns \<Rightarrow> rbind (runestrcpy ns 0 m s) (\<lambda>d. Inr (Some d)))"

text \<open>The returned pointer and the destination; it must not be written from \<open>es1\<close> on.\<close>

function runestrecpy_loop :: "rune list \<Rightarrow> nat \<Rightarrow> nat \<Rightarrow> rune list \<Rightarrow> nat \<Rightarrow> (nat \<times> rune list) run" where
  "runestrecpy_loop d s1 es1 m s2 =
     rbind (aread m s2) (\<lambda>c.
     rbind (awrite d s1 c) (\<lambda>d.
       if c \<noteq> 0 then
         if s1 + 1 = es1 then rbind (awrite d s1 0) (\<lambda>d. Inr (s1, d))
         else runestrecpy_loop d (s1 + 1) es1 m (s2 + 1)
       else Inr (s1 + 1, d)))"
  by pat_completeness auto
termination
  by (relation "measure (\<lambda>(d, s1, es1, m, s2). length m - s2)") (auto simp: aread_Inr)

declare runestrecpy_loop.simps [simp del]

definition runestrecpy :: "rune list \<Rightarrow> nat \<Rightarrow> nat \<Rightarrow> rune list \<Rightarrow> nat \<Rightarrow> (nat \<times> rune list) run" where
  "runestrecpy d s1 es1 m s2 = (if s1 \<ge> es1 then Inr (s1, d) else runestrecpy_loop d s1 es1 m s2)"

function runestrncat_loop :: "rune list \<Rightarrow> nat \<Rightarrow> rune list \<Rightarrow> nat \<Rightarrow> int \<Rightarrow> rune list run" where
  "runestrncat_loop d s1 m s2 n =
     rbind (aread m s2) (\<lambda>c.
     rbind (awrite d s1 c) (\<lambda>d.
       if c \<noteq> 0 then
         if n - 1 < 0 then awrite d s1 0
         else runestrncat_loop d (s1 + 1) m (s2 + 1) (n - 1)
       else Inr d))"
  by pat_completeness auto
termination
  by (relation "measure (\<lambda>(d, s1, m, s2, n). length m - s2)") (auto simp: aread_Inr)

declare runestrncat_loop.simps [simp del]

definition runestrncat :: "rune list \<Rightarrow> nat \<Rightarrow> rune list \<Rightarrow> nat \<Rightarrow> int \<Rightarrow> rune list run" where
  "runestrncat d s1 m s2 n =
     rbind (runestrchr d s1 0) (\<lambda>r. case r of None \<Rightarrow> Inl NullDeref | Some e \<Rightarrow> runestrncat_loop d e m s2 n)"

text \<open>\<open>n\<close> is the number of runes still to write; after the zero they are zeros.\<close>

primrec runestrncpy_pad :: "nat \<Rightarrow> rune list \<Rightarrow> nat \<Rightarrow> rune list run" where
  "runestrncpy_pad 0 d s1 = Inr d"
| "runestrncpy_pad (Suc n) d s1 = rbind (awrite d s1 0) (\<lambda>d. runestrncpy_pad n d (s1 + 1))"

primrec runestrncpy_loop :: "nat \<Rightarrow> rune list \<Rightarrow> nat \<Rightarrow> rune list \<Rightarrow> nat \<Rightarrow> rune list run" where
  "runestrncpy_loop 0 d s1 m s2 = Inr d"
| "runestrncpy_loop (Suc n) d s1 m s2 =
     rbind (aread m s2) (\<lambda>c.
     rbind (awrite d s1 c) (\<lambda>d.
       if c = 0 then runestrncpy_pad n d (s1 + 1) else runestrncpy_loop n d (s1 + 1) m (s2 + 1)))"

definition runestrncpy :: "rune list \<Rightarrow> nat \<Rightarrow> rune list \<Rightarrow> nat \<Rightarrow> int \<Rightarrow> rune list run" where
  "runestrncpy d s1 m s2 n = runestrncpy_loop (nat n) d s1 m s2"

section \<open>Strings in arrays\<close>

text \<open>The string at \<open>s\<close> in the array \<open>m\<close> is \<open>xs\<close>.\<close>

fun str_in :: "rune list \<Rightarrow> nat \<Rightarrow> rune list \<Rightarrow> bool" where
  "str_in m s [] \<longleftrightarrow> s < length m \<and> m ! s = 0"
| "str_in m s (x # xs) \<longleftrightarrow> s < length m \<and> m ! s = x \<and> x \<noteq> 0 \<and> str_in m (s + 1) xs"

lemma str_in_bound: "str_in m s xs \<Longrightarrow> s + length xs < length m"
  by (induction xs arbitrary: s) fastforce+

lemma str_in_cat: "str_in m s (xs @ ys) \<Longrightarrow> str_in m (s + length xs) ys"
  by (induction xs arbitrary: s) fastforce+

lemma str_in_nonzero: "str_in m s xs \<Longrightarrow> 0 \<notin> set xs"
  by (induction xs arbitrary: s) fastforce+

lemma str_in_array: "0 \<notin> set xs \<Longrightarrow> str_in (pre @ xs @ 0 # rest) (length pre) xs"
proof (induction xs arbitrary: pre)
  case (Cons x xs)
  from Cons.IH [of "pre @ [x]"] Cons.prems show ?case by (simp add: nth_append)
qed simp

lemma runestrend_str: "str_in m s xs \<Longrightarrow> runestrend m s = Inr (s + length xs)"
  by (induction xs arbitrary: s) (simp_all add: runestrend.simps [of m])

lemma runestrchr_loop_str:
  "str_in m s xs \<Longrightarrow> runestrchr_loop m s c =
     Inr (if c \<noteq> 0 \<and> c \<in> set xs then Some (s + length (takeWhile (\<lambda>x. x \<noteq> c) xs)) else None)"
  by (induction xs arbitrary: s) (auto simp: runestrchr_loop.simps [of m])

lemma runestrlen_str: "str_in m s xs \<Longrightarrow> runestrlen m s = Inr (length xs)"
  by (simp add: runestrlen_def runestrchr_def runestrend_str)

lemma runestrcmp_str:
  "str_in m s xs \<Longrightarrow> str_in t u ys \<Longrightarrow>
     runestrcmp m s t u = Inr (if xs = ys then 0 else if ord_class.lexordp xs ys then -1 else 1)"
proof (induction xs arbitrary: s u ys)
  case Nil
  then show ?case by (subst runestrcmp.simps) (cases ys, auto simp: word_gt_0)
next
  case (Cons x xs)
  show ?case
  proof (cases ys)
    case Nil
    then show ?thesis using Cons.prems by (subst runestrcmp.simps) (auto simp: word_gt_0)
  next
    case c: (Cons y zs)
    then have "runestrcmp m (s + 1) t (u + 1) = Inr (if xs = zs then 0 else if ord_class.lexordp xs zs then -1 else 1)"
      using Cons.prems by (intro Cons.IH) simp_all
    then show ?thesis using Cons.prems c by (subst runestrcmp.simps) (auto simp: not_less)
  qed
qed

lemma runestrncmp_str:
  "str_in m s xs \<Longrightarrow> str_in t u ys \<Longrightarrow>
     runestrncmp m s t u (int n) =
       Inr (if take n xs = take n ys then 0 else if ord_class.lexordp (take n xs) (take n ys) then -1 else 1)"
proof (induction xs arbitrary: s u ys n)
  case Nil
  then show ?case by (subst runestrncmp.simps) (cases ys; cases n; auto simp: word_gt_0)
next
  case (Cons x xs)
  show ?case
  proof (cases n)
    case 0
    then show ?thesis by (subst runestrncmp.simps) simp
  next
    case n: (Suc k)
    show ?thesis
    proof (cases ys)
      case Nil
      then show ?thesis using Cons.prems n by (subst runestrncmp.simps) (auto simp: word_gt_0)
    next
      case c: (Cons y zs)
      then have "runestrncmp m (s + 1) t (u + 1) (int k) =
          Inr (if take k xs = take k zs then 0 else if ord_class.lexordp (take k xs) (take k zs) then -1 else 1)"
        using Cons.prems by (intro Cons.IH) simp_all
      then show ?thesis using Cons.prems c n by (subst runestrncmp.simps) (auto simp: not_less)
    qed
  qed
qed

section \<open>Finding a string in a string\<close>

lemma follows_str:
  "str_in m (pa + 1) xs \<Longrightarrow> str_in t pb ys \<Longrightarrow> follows m pa t pb = Inr (take (length ys) xs = ys)"
proof (induction ys arbitrary: pa pb xs)
  case Nil
  then show ?case by (simp add: follows.simps)
next
  case (Cons y ys)
  then show ?case by (cases xs) (auto simp: follows.simps [of m])
qed

lemma runestrstr_loop_str:
  assumes "str_in m s xs" "str_in t s2 qs" "q \<noteq> 0"
  shows "runestrstr_loop m s q t s2 = Inr (map_option (\<lambda>i. s + i) (first_sub (q # qs) xs))"
  using assms(1)
proof (induction "length xs" arbitrary: xs s rule: less_induct)
  case less
  note found = runestrchr_loop_str [OF less.prems, of q]
  show ?case
  proof (cases "q \<in> set xs")
    case False
    then have "first_sub (q # qs) xs = None" using first_sub_skip [OF False, of qs "[]"] by simp
    then show ?thesis using found False by (subst runestrstr_loop.simps) simp
  next
    case True
    then obtain us ys where xs: "xs = us @ q # ys" "q \<notin> set us" using split_list_first by metis
    let ?p = "s + length us"
    have tw: "takeWhile (\<lambda>x. x \<noteq> q) xs = us" using xs by (auto simp: takeWhile_append)
    have p: "runestrchr_loop m s q = Inr (Some ?p)" using found True assms(3) by (simp add: tw)
    have ys: "str_in m (?p + 1) ys" using str_in_cat [of m s us "q # ys"] less.prems xs(1) by simp
    have first: "first_sub (q # qs) xs =
        (if take (length qs) ys = qs then Some (length us)
         else map_option (\<lambda>i. length us + Suc i) (first_sub (q # qs) ys))"
      using first_sub_skip [OF xs(2), of qs "q # ys"] by (auto simp: xs(1) option.map_comp comp_def)
    have IH: "runestrstr_loop m (?p + 1) q t s2 = Inr (map_option (\<lambda>i. ?p + 1 + i) (first_sub (q # qs) ys))"
      using xs(1) ys by (intro less.hyps) simp_all
    show ?thesis using p follows_str [OF ys assms(2)] first IH
      by (subst runestrstr_loop.simps) (auto simp: option.map_comp comp_def add.assoc)
  qed
qed

lemma runestrstr_str:
  assumes "str_in m s xs" "str_in t s2 ys"
  shows "runestrstr m s t s2 = Inr (map_option (\<lambda>i. s + i) (first_sub ys xs))"
proof (cases ys)
  case Nil
  then have "first_sub ys xs = Some 0" by (cases xs) simp_all
  then show ?thesis using assms(2) Nil by (simp add: runestrstr_def)
next
  case (Cons q qs)
  then show ?thesis using runestrstr_loop_str [OF assms(1), of t "s2 + 1" qs q] assms(2)
    by (simp add: runestrstr_def)
qed

section \<open>Copies\<close>

lemma take_write: "s < length d \<Longrightarrow> take (s + 1) (d[s := x]) = take s d @ [x]"
  by (simp add: take_Suc_update)

lemma runestrcpy_str:
  "str_in m s2 xs \<Longrightarrow> s1 + length xs < length d \<Longrightarrow>
     runestrcpy d s1 m s2 = Inr (take s1 d @ xs @ [0] @ drop (s1 + length xs + 1) d)"
proof (induction xs arbitrary: d s1 s2)
  case Nil
  then show ?case by (simp add: runestrcpy.simps upd_conv_take_nth_drop)
next
  case (Cons x xs)
  then have "runestrcpy (d[s1 := x]) (s1 + 1) m (s2 + 1) =
      Inr (take (s1 + 1) (d[s1 := x]) @ xs @ [0] @ drop (s1 + 1 + length xs + 1) (d[s1 := x]))"
    by (intro Cons.IH) simp_all
  then show ?case using Cons.prems take_write [of s1 d x] by (simp add: runestrcpy.simps [of d])
qed

text \<open>What a string in an array is after a copy over the end of another one.\<close>

lemma str_in_take: "str_in d s xs \<Longrightarrow> str_in (take (s + length xs) d @ zs @ 0 # rest) s (xs @ zs) \<longleftrightarrow> 0 \<notin> set zs"
proof -
  assume d: "str_in d s xs"
  have l: "s + length xs < length d" using str_in_bound [OF d] .
  have "take (s + length xs) d = take s d @ xs" using d l
  proof (induction xs arbitrary: s)
    case (Cons x xs)
    then have "take (s + 1 + length xs) d = take (s + 1) d @ xs" by (intro Cons.IH) simp_all
    then show ?case using Cons.prems by (simp add: take_Suc_conv_app_nth)
  qed simp
  then have e: "take (s + length xs) d @ zs @ 0 # rest = take s d @ (xs @ zs) @ 0 # rest" by simp
  have "length (take s d) = s" using l by simp
  then show ?thesis using str_in_array [of "xs @ zs" "take s d" rest] str_in_nonzero [of _ s "xs @ zs"] str_in_nonzero [OF d]
    unfolding e by auto
qed

lemma runestrcat_str:
  assumes "str_in d s1 xs" "str_in m s2 ys" "s1 + length xs + length ys < length d"
  shows "\<exists>d'. runestrcat d s1 m s2 = Inr d' \<and> length d' = length d \<and> str_in d' s1 (xs @ ys) \<and>
    take s1 d' = take s1 d \<and> drop (s1 + length xs + length ys + 1) d' = drop (s1 + length xs + length ys + 1) d"
proof -
  let ?e = "s1 + length xs"
  let ?d = "take ?e d @ ys @ [0] @ drop (?e + length ys + 1) d"
  have "runestrcat d s1 m s2 = Inr ?d"
    using runestrcpy_str [OF assms(2), of ?e d] assms(3)
    by (simp add: runestrcat_def runestrchr_def runestrend_str [OF assms(1)])
  moreover have "str_in ?d s1 (xs @ ys)" using str_in_take [OF assms(1), of ys] str_in_nonzero [OF assms(2)] by simp
  ultimately show ?thesis using assms(3) by (intro exI [of _ ?d]) simp
qed

lemma runestrncat_loop_str:
  "str_in m s2 xs \<Longrightarrow> s1 + min n (length xs) < length d \<Longrightarrow>
     runestrncat_loop d s1 m s2 (int n) =
       Inr (take s1 d @ take n xs @ [0] @ drop (s1 + min n (length xs) + 1) d)"
proof (induction xs arbitrary: d s1 s2 n)
  case Nil
  then show ?case by (subst runestrncat_loop.simps) (simp add: upd_conv_take_nth_drop)
next
  case (Cons x xs)
  show ?case
  proof (cases n)
    case 0
    then show ?thesis using Cons.prems
      by (subst runestrncat_loop.simps) (simp add: upd_conv_take_nth_drop)
  next
    case (Suc k)
    then have "runestrncat_loop (d[s1 := x]) (s1 + 1) m (s2 + 1) (int k) =
        Inr (take (s1 + 1) (d[s1 := x]) @ take k xs @ [0] @ drop (s1 + 1 + min k (length xs) + 1) (d[s1 := x]))"
      using Cons.prems by (intro Cons.IH) simp_all
    then show ?thesis using Cons.prems take_write [of s1 d x] Suc
      by (subst runestrncat_loop.simps) simp
  qed
qed

lemma runestrecpy_loop_str:
  "str_in m s2 xs \<Longrightarrow> s1 < es1 \<Longrightarrow> es1 \<le> length d \<Longrightarrow>
     runestrecpy_loop d s1 es1 m s2 =
       (if s1 + length xs < es1
        then Inr (s1 + length xs + 1, take s1 d @ xs @ [0] @ drop (s1 + length xs + 1) d)
        else Inr (es1 - 1, take s1 d @ take (es1 - 1 - s1) xs @ [0] @ drop es1 d))"
proof (induction xs arbitrary: d s1 s2)
  case Nil
  then show ?case by (subst runestrecpy_loop.simps) (simp add: upd_conv_take_nth_drop)
next
  case (Cons x xs)
  show ?case
  proof (cases "s1 + 1 = es1")
    case True
    then show ?thesis using Cons.prems
      by (subst runestrecpy_loop.simps) (auto simp: upd_conv_take_nth_drop)
  next
    case False
    then have "runestrecpy_loop (d[s1 := x]) (s1 + 1) es1 m (s2 + 1) =
       (if s1 + 1 + length xs < es1
        then Inr (s1 + 1 + length xs + 1, take (s1 + 1) (d[s1 := x]) @ xs @ [0] @ drop (s1 + 1 + length xs + 1) (d[s1 := x]))
        else Inr (es1 - 1, take (s1 + 1) (d[s1 := x]) @ take (es1 - 1 - (s1 + 1)) xs @ [0] @ drop es1 (d[s1 := x])))"
      using Cons.prems by (intro Cons.IH) simp_all
    moreover have "take (es1 - 1 - s1) (x # xs) = x # take (es1 - 1 - (s1 + 1)) xs"
    proof -
      have "es1 - 1 - s1 = Suc (es1 - 1 - (s1 + 1))" using False Cons.prems(2) by simp
      then show ?thesis by simp
    qed
    ultimately show ?thesis using Cons.prems take_write [of s1 d x] False
      by (subst runestrecpy_loop.simps) auto
  qed
qed

lemma runestrncpy_pad_zeros:
  "s1 + n \<le> length d \<Longrightarrow> runestrncpy_pad n d s1 = Inr (take s1 d @ replicate n 0 @ drop (s1 + n) d)"
proof (induction n arbitrary: d s1)
  case (Suc n)
  then have "runestrncpy_pad n (d[s1 := 0]) (s1 + 1) =
      Inr (take (s1 + 1) (d[s1 := 0]) @ replicate n 0 @ drop (s1 + 1 + n) (d[s1 := 0]))"
    by (intro Suc.IH) simp
  then show ?case using Suc.prems take_write [of s1 d 0] by simp
qed simp

lemma runestrncpy_loop_str:
  "str_in m s2 xs \<Longrightarrow> s1 + n \<le> length d \<Longrightarrow>
     runestrncpy_loop n d s1 m s2 =
       Inr (take s1 d @ take n (xs @ replicate n 0) @ drop (s1 + n) d)"
proof (induction n arbitrary: d s1 s2 xs)
  case (Suc n)
  show ?case
  proof (cases xs)
    case Nil
    then show ?thesis using Suc.prems runestrncpy_pad_zeros [of "s1 + 1" n "d[s1 := 0]"] take_write [of s1 d 0]
      by simp
  next
    case (Cons x ys)
    then have "runestrncpy_loop n (d[s1 := x]) (s1 + 1) m (s2 + 1) =
        Inr (take (s1 + 1) (d[s1 := x]) @ take n (ys @ replicate n 0) @ drop (s1 + 1 + n) (d[s1 := x]))"
      using Suc.prems by (intro Suc.IH) simp_all
    moreover have "take n (ys @ 0 # replicate n 0) = take n (ys @ replicate n (0 :: rune))"
      by (simp add: replicate_append_same [symmetric] del: replicate_append_same)
    ultimately show ?thesis using Suc.prems take_write [of s1 d x] Cons by simp
  qed
qed simp

section \<open>Properties\<close>

text \<open>
  On strings in arrays: \<open>runestrlen\<close> is the length, \<open>runestrchr\<close> finds the first place of a rune,
  \<open>runestrcmp\<close> compares lexicographically, \<open>runestrncmp\<close> the first \<open>n\<close> runes, and \<open>runestrstr\<close>
  finds the first place of a string; nothing outside of the arrays is read.
\<close>

theorem rune_strings_read:
  assumes "str_in m s xs" "str_in t u ys" "c \<noteq> 0"
  shows "runestrlen m s = Inr (length xs) \<and>
    runestrchr m s c = Inr (if c \<in> set xs then Some (s + length (takeWhile (\<lambda>x. x \<noteq> c) xs)) else None) \<and>
    runestrcmp m s t u = Inr (if xs = ys then 0 else if ord_class.lexordp xs ys then -1 else 1) \<and>
    runestrncmp m s t u (int n) =
      Inr (if take n xs = take n ys then 0 else if ord_class.lexordp (take n xs) (take n ys) then -1 else 1) \<and>
    runestrstr m s t u = Inr (map_option (\<lambda>i. s + i) (first_sub ys xs))"
  using runestrlen_str [OF assms(1)] runestrchr_loop_str [OF assms(1), of c] runestrcmp_str [OF assms(1,2)]
    runestrncmp_str [OF assms(1,2)] runestrstr_str [OF assms(1,2)] assms(3)
  by (simp add: runestrchr_def)

lemma rune_strings_read_witness:
  "runestrlen [7, 8, 7, 0] 0 = Inr 3 \<and> runestrchr [7, 8, 7, 0] 0 8 = Inr (Some 1) \<and>
   runestrcmp [7, 8, 7, 0] 0 [8, 7, 0] 0 = Inr (-1) \<and> runestrncmp [7, 8, 7, 0] 0 [8, 7, 0] 0 (int 0) = Inr 0 \<and>
   runestrstr [7, 8, 7, 0] 0 [8, 7, 0] 0 = Inr (Some 1)"
proof -
  have "str_in [7, 8, 7, 0] 0 [7, 8, 7]" "str_in [8, 7, 0] 0 [8, 7]" "(8 :: rune) \<noteq> 0" by simp_all
  from rune_strings_read [OF this, of 0] show ?thesis by simp
qed

text \<open>
  With room in the destination, \<open>runestrcpy\<close>, \<open>runestrcat\<close>, \<open>runestrncat\<close> and \<open>runestrncpy\<close>
  write exactly the copy, the concatenation, the concatenation with the first \<open>n\<close> runes, and \<open>n\<close>
  runes filled up with zeros; all other runes of the destination stay.
\<close>

theorem rune_strings_write:
  assumes "str_in m s2 ys" "str_in d s1 xs" "s1 + length xs + length ys < length d" "s1 + n \<le> length d"
  shows "runestrcpy d s1 m s2 = Inr (take s1 d @ ys @ [0] @ drop (s1 + length ys + 1) d) \<and>
    runestrcat d s1 m s2 = Inr (take (s1 + length xs) d @ ys @ [0] @ drop (s1 + length xs + length ys + 1) d) \<and>
    runestrncat d s1 m s2 (int n) = Inr (take (s1 + length xs) d @ take n ys @ [0] @
      drop (s1 + length xs + min n (length ys) + 1) d) \<and>
    runestrncpy d s1 m s2 (int n) = Inr (take s1 d @ take n (ys @ replicate n 0) @ drop (s1 + n) d)"
  using runestrcpy_str [OF assms(1), of s1 d] runestrcpy_str [OF assms(1), of "s1 + length xs" d]
    runestrncat_loop_str [OF assms(1), of "s1 + length xs" n d] runestrncpy_loop_str [OF assms(1,4)] assms(3)
  by (simp add: runestrcat_def runestrncat_def runestrncpy_def runestrchr_def runestrend_str [OF assms(2)])

lemma rune_strings_write_witness:
  "runestrcpy [5, 0, 1, 1, 1] 0 [8, 7, 0] 0 = Inr [8, 7, 0, 1, 1] \<and>
   runestrcat [5, 0, 1, 1, 1] 0 [8, 7, 0] 0 = Inr [5, 8, 7, 0, 1] \<and>
   runestrncat [5, 0, 1, 1, 1] 0 [8, 7, 0] 0 (int 4) = Inr [5, 8, 7, 0, 1] \<and>
   runestrncpy [5, 0, 1, 1, 1] 0 [8, 7, 0] 0 (int 4) = Inr [8, 7, 0, 0, 1]"
proof -
  have "str_in [8, 7, 0] 0 [8, 7]" "str_in [5, 0, 1, 1, 1] 0 [5]" by simp_all
  from rune_strings_write [OF this, of 4] show ?thesis by (simp add: eval_nat_numeral)
qed

text \<open>
  \<open>runestrecpy\<close> never writes at \<open>es1\<close> or behind and ends the string; but the pointer it returns is
  that of the zero when the string was cut, and the one behind the zero when it fitted.
\<close>

theorem runestrecpy_pointer:
  assumes "str_in m s2 xs" "s1 < es1" "es1 \<le> length d"
  shows "runestrecpy d s1 es1 m s2 =
    (if s1 + length xs < es1
     then Inr (s1 + length xs + 1, take s1 d @ xs @ [0] @ drop (s1 + length xs + 1) d)
     else Inr (es1 - 1, take s1 d @ take (es1 - 1 - s1) xs @ [0] @ drop es1 d))"
  using runestrecpy_loop_str [OF assms] assms(2) by (simp add: runestrecpy_def)

lemma runestrecpy_pointer_witness:
  "runestrecpy [1, 1, 1, 1] 0 4 [8, 7, 0] 0 = Inr (3, [8, 7, 0, 1]) \<and>
   runestrecpy [1, 1, 1, 1] 0 2 [8, 7, 0] 0 = Inr (1, [8, 0, 1, 1])"
proof -
  have "str_in [8, 7, 0] 0 [8, 7]" by simp
  from runestrecpy_pointer [OF this, of 0 4 "[1, 1, 1, 1]"] runestrecpy_pointer [OF this, of 0 2 "[1, 1, 1, 1]"]
  show ?thesis by (simp add: eval_nat_numeral)
qed

end
