(* ===== verification/HashTable.thy ===== *)
theory HashTable
  imports Doubles
begin

text \<open>
  The hash table of \<^verbatim>\<open>hash_table.c\<close>: open addressing with linear probing from a keyed FNV-1a
  hash, doubled when the load passes 0.6. Keys and values are pointers, that is 64-bit words;
  the hash and the comparison are fields of the table, as in the code. \<open>calloc\<close> is the argument
  \<open>alloc\<close>: \<open>alloc n\<close> says whether an array of \<open>n\<close> entries can be had. \<open>sd_die\<close> and a failed
  \<open>assert\<close> are the fault \<open>Aborts\<close>.
\<close>

unbundle bit_operations_syntax

section \<open>The load test\<close>

text \<open>\<open>((float)(size + 1))/tbl_size > LOAD_FACTOR\<close>, a \<open>float\<close> division compared with a \<open>double\<close>.\<close>

definition LOAD_FACTOR :: fp where
  "LOAD_FACTOR = Fin False 5404319552844595 (-53)"

definition too_full :: "nat \<Rightarrow> nat \<Rightarrow> bool" where
  "too_full n cells =
     fp_lt LOAD_FACTOR (fp_div binary32 (fp_of_int binary32 (int n)) (fp_of_int binary32 (int cells)))"

text \<open>Conversion of an integer to \<open>float\<close> stays between the powers of two around it.\<close>

lemma fp_val_pow: "fp_val False m (int j) = real m * 2 ^ j" "fp_val False (m * 2 ^ k) (e - int k) = fp_val False m e"
  by (simp_all add: fp_val_def signed_def power_int_diff)

lemma bitlen_bounds: "0 < n \<Longrightarrow> 2 ^ (bitlen n - 1) \<le> n \<and> n < 2 ^ bitlen n \<and> 0 < bitlen n"
  using bitlen_le_iff [of n "bitlen n"] bitlen_gt_iff [of "bitlen n - 1" n] bitlen_gt_iff [of 0 n] by auto

lemma float_int:
  assumes "0 < n" "n < 2 ^ 64"
  obtains q t where "fp_of_int binary32 (int n) = Fin False q t" "0 < q" "q < 2 ^ 24" "- 23 \<le> t" "t \<le> 41"
    "2 ^ (bitlen n - 1) \<le> fp_val False q t" "fp_val False q t \<le> 2 ^ bitlen n"
proof -
  let ?L = "bitlen n"
  have L: "0 < ?L" "?L \<le> 64" "2 ^ (?L - 1) \<le> n" "n < 2 ^ ?L"
    using bitlen_bounds [OF assms(1)] assms(2) bitlen_le_iff [of n 64] by auto
  have t: "fp_target binary32 n 0 = int ?L - 24" using L by (simp add: fp_target_def)
  have R: "fp_of_int binary32 (int n) = fp_round_at binary32 False n 0 False (int ?L - 24)"
    using assms(1) t by (simp add: fp_of_int_def fp_round_def)
  show thesis
  proof (cases "?L \<le> 24")
    case True
    let ?q = "n * 2 ^ (24 - ?L)"
    have "?q < 2 ^ ?L * 2 ^ (24 - ?L)" using L(4) by simp
    also have "\<dots> = 2 ^ 24" using True by (simp only: power_add [symmetric]) simp
    finally have q: "?q < 2 ^ 24" .
    have n: "nat (0 - (int ?L - 24)) = 24 - ?L" using True by simp
    have p: "fp_of_int binary32 (int n) = Fin False ?q (int ?L - 24)"
      using R q assms(1) True n by (simp add: fp_round_at_def fp_pack_def)
    have "fp_val False ?q (0 - int (24 - ?L)) = fp_val False n 0" by (rule fp_val_pow(2))
    then have v: "fp_val False ?q (int ?L - 24) = real n" using True by (simp add: fp_val_def signed_def)
    have "2 ^ (?L - 1) \<le> real n" "real n \<le> 2 ^ ?L" using L(3,4) by (simp_all flip: of_nat_le_iff)
    with p q v L True assms(1) show thesis by (intro that [of ?q "int ?L - 24"]) simp_all
  next
    case False
    let ?k = "?L - 24" and ?q = "rne n (?L - 24) False"
    have k: "int ?L - 24 = int ?k" "\<not> int ?k \<le> 0" "nat (int ?k - 0) = ?k" using False by simp_all
    have q1: "2 ^ 23 \<le> n div 2 ^ ?k"
    proof -
      have "(2::nat) ^ 23 * 2 ^ ?k = 2 ^ (?L - 1)" using False by (simp only: power_add [symmetric]) simp
      then show ?thesis using L(3) by (simp add: less_eq_div_iff_mult_less_eq)
    qed
    have q2: "n div 2 ^ ?k < 2 ^ 24"
    proof -
      have "(2::nat) ^ 24 * 2 ^ ?k = 2 ^ ?L" using False by (simp only: power_add [symmetric]) simp
      then show ?thesis using L(4) by (simp add: div_less_iff_less_mult)
    qed
    then have q: "2 ^ 23 \<le> ?q" "?q \<le> 2 ^ 24" using q1 by (auto simp: rne_def)
    have P: "fp_of_int binary32 (int n) = fp_pack binary32 False ?q (int ?k)"
      unfolding R k(1) fp_round_at_def by (simp only: k if_False)
    have e: "(2::real) ^ (?L - 1) = 2 ^ 23 * 2 ^ ?k" "(2::real) ^ ?L = 2 ^ 24 * 2 ^ ?k"
      using False by (simp_all only: power_add [symmetric]) simp_all
    show thesis
    proof (cases "?q = 2 ^ 24")
      case True
      then have f: "fp_of_int binary32 (int n) = Fin False (2 ^ 23) (int ?k + 1)" using P L by (simp add: fp_pack_def)
      have v: "fp_val False (2 ^ 23) (int ?k + 1) = 2 ^ ?L"
        using fp_val_pow(1) [of "2 ^ 23" "?k + 1"] e by (simp add: add.commute)
      show thesis
        by (rule that [OF f]) (use L v in simp_all)
    next
      case False
      then have l: "?q < 2 ^ 24" "?q \<noteq> 0" using q by auto
      then have "fp_of_int binary32 (int n) = Fin False ?q (int ?k)" using P L by (simp add: fp_pack_def)
      moreover have "2 ^ (?L - 1) \<le> fp_val False ?q (int ?k)" "fp_val False ?q (int ?k) \<le> 2 ^ ?L"
        using q e by (simp_all add: fp_val_pow(1))
      ultimately show thesis using l L by (intro that [of ?q "int ?k"]) simp_all
    qed
  qed
qed

lemma float_pow:
  assumes "k < 64" shows "fp_of_int binary32 (int (2 ^ k)) = Fin False (2 ^ 23) (int k - 23)"
proof -
  have L: "bitlen (2 ^ k) = k + 1" using bitlen_shift [of 1 k] by simp
  have R: "fp_of_int binary32 (int (2 ^ k)) = fp_round_at binary32 False (2 ^ k) 0 False (int k - 23)"
    using assms L by (simp add: fp_of_int_def fp_round_def fp_target_def nat_power_eq)
  show ?thesis
  proof (cases "k \<le> 23")
    case True
    then have "nat (0 - (int k - 23)) = 23 - k" by simp
    moreover have "(2::nat) ^ k * 2 ^ (23 - k) = 2 ^ 23" using True by (simp only: power_add [symmetric]) simp
    ultimately show ?thesis unfolding R fp_round_at_def using True by (simp add: fp_pack_def)
  next
    case False
    have n: "\<not> int k - 23 \<le> 0" "nat (int k - 23 - 0) = k - 23" using False by simp_all
    have "(2::nat) ^ k = 2 ^ 23 * 2 ^ (k - 23)" using False by (simp only: power_add [symmetric]) simp
    then have "rne (2 ^ k) (k - 23) False = 2 ^ 23" using rne_exact [of "k - 23" "k - 23" "2 ^ 23"] by simp
    then show ?thesis unfolding R fp_round_at_def using n assms by (simp add: fp_pack_def)
  qed
qed

text \<open>A significand that fits is kept, with its value.\<close>

lemma float_exact:
  assumes "0 < q" "q < 2 ^ 24" "- 100 \<le> e" "e \<le> 100"
  obtains q' t where "fp_round binary32 False q e False = Fin False q' t" "fp_val False q' t = fp_val False q e"
proof -
  let ?L = "bitlen q" let ?j = "24 - ?L" let ?t = "e - int ?j"
  have L: "0 < ?L" "?L \<le> 24" "q < 2 ^ ?L"
    using bitlen_bounds [OF assms(1)] assms(2) bitlen_le_iff [of q 24] by auto
  have t: "fp_target binary32 q e = ?t" using L assms by (simp add: fp_target_def)
  have "q * 2 ^ ?j < 2 ^ ?L * 2 ^ ?j" using L(3) by simp
  also have "\<dots> = 2 ^ 24" using L(2) by (simp only: power_add [symmetric]) simp
  finally have q: "q * 2 ^ ?j < 2 ^ 24" .
  have "nat (e - ?t) = ?j" "?t \<le> e" by simp_all
  then have "fp_round binary32 False q e False = Fin False (q * 2 ^ ?j) ?t"
    using t q assms by (simp add: fp_round_def fp_round_at_def fp_pack_def)
  moreover have "fp_val False (q * 2 ^ ?j) ?t = fp_val False q e" by (rule fp_val_pow(2))
  ultimately show thesis by (rule that)
qed

lemma float_div_pow:
  assumes "0 < n" "n < 2 ^ 64" "k < 64"
  obtains q t q' t' where
    "fp_div binary32 (fp_of_int binary32 (int n)) (fp_of_int binary32 (int (2 ^ k))) = Fin False q' t'"
    "fp_val False q' t' = fp_val False q t / 2 ^ k" "2 ^ (bitlen n - 1) \<le> fp_val False q t" "fp_val False q t \<le> 2 ^ bitlen n"
    "fp_of_int binary32 (int n) = Fin False q t"
proof -
  obtain q t where q: "fp_of_int binary32 (int n) = Fin False q t" "0 < q" "q < 2 ^ 24" "- 23 \<le> t" "t \<le> 41"
    "2 ^ (bitlen n - 1) \<le> fp_val False q t" "fp_val False q t \<le> 2 ^ bitlen n"
    by (rule float_int [OF assms(1,2)])
  have b: "bitlen (2 ^ 23) = 24" using bitlen_shift [of 1 23] by simp
  have e: "q * 2 ^ 50 = q * 2 ^ 27 * 2 ^ 23" by simp
  have "fp_div binary32 (Fin False q t) (Fin False (2 ^ 23) (int k - 23)) =
      fp_quotient binary32 False q (2 ^ 23) (t - (int k - 23)) 50" using b by simp
  also have "\<dots> = fp_round binary32 False (q * 2 ^ 27) (t - (int k - 23) - 50) False"
    unfolding fp_quotient_def e by (simp add: mult.commute)
  also have "\<dots> = fp_round binary32 False q (t - int k) False"
    using fp_round_shift [OF q(2), of binary32 False 27 "t - (int k - 23) - 50"] by simp
  finally have d: "fp_div binary32 (Fin False q t) (Fin False (2 ^ 23) (int k - 23)) = fp_round binary32 False q (t - int k) False" .
  obtain q' t' where q': "fp_round binary32 False q (t - int k) False = Fin False q' t'" "fp_val False q' t' = fp_val False q (t - int k)"
    using float_exact [of q "t - int k"] q assms(3) by auto
  have "fp_val False q (t - int k) = fp_val False q t / 2 ^ k"
    by (simp add: fp_val_def power_int_diff)
  with that [of q' t' q t] d q q' float_pow [OF assms(3)] show thesis by simp
qed

text \<open>A table at most half full is not doubled, a full one is.\<close>

lemma load_factor: "fp_val False 5404319552844595 (-53) = 5404319552844595 / 2 ^ 53"
  by (simp add: fp_val_def signed_def power_int_minus_divide)

lemma half_full: "k < 63 \<Longrightarrow> n \<le> 2 ^ k \<Longrightarrow> 0 < n \<Longrightarrow> \<not> too_full n (2 ^ Suc k)"
proof -
  assume k: "k < 63" "n \<le> 2 ^ k" "0 < n"
  have "n < 2 ^ 64" using k power_strict_increasing [of k 64 "2::nat"] by linarith
  obtain q t q' t' where d: "fp_div binary32 (fp_of_int binary32 (int n)) (fp_of_int binary32 (int (2 ^ Suc k))) = Fin False q' t'"
    and v: "fp_val False q' t' = fp_val False q t / 2 ^ Suc k" "2 ^ (bitlen n - 1) \<le> fp_val False q t"
      "fp_val False q t \<le> 2 ^ bitlen n" "fp_of_int binary32 (int n) = Fin False q t"
    by (rule float_div_pow [OF k(3) \<open>n < 2 ^ 64\<close>, of "Suc k"]) (use k(1) in linarith, blast)
  have "fp_val False q t \<le> 2 ^ k"
  proof (cases "n = 2 ^ k")
    case True
    then have "fp_val False q t = fp_val False (2 ^ 23) (int k - 23)" using v(4) float_pow [of k] k(1) by auto
    also have "\<dots> = 2 ^ k" by (simp add: fp_val_def signed_def power_int_diff)
    finally show ?thesis by simp
  next
    case False
    then have "bitlen n \<le> k" using k by (simp add: bitlen_le_iff)
    then have "(2::real) ^ bitlen n \<le> 2 ^ k" by (intro power_increasing) simp_all
    with v(3) show ?thesis by linarith
  qed
  then have "fp_val False q' t' \<le> 1 / 2" unfolding v(1) by (simp add: field_simps)
  then have "\<not> 5404319552844595 / 2 ^ 53 < fp_val False q' t'" by simp
  then show ?thesis unfolding too_full_def d LOAD_FACTOR_def fp_lt_Fin load_factor .
qed

lemma full_table: "k < 64 \<Longrightarrow> 2 ^ k \<le> n \<Longrightarrow> n < 2 ^ 64 \<Longrightarrow> too_full n (2 ^ k)"
proof -
  assume k: "k < 64" "2 ^ k \<le> n" "n < 2 ^ 64"
  then have "0 < n" by (meson less_le_trans zero_less_numeral zero_less_power)
  obtain q t q' t' where d: "fp_div binary32 (fp_of_int binary32 (int n)) (fp_of_int binary32 (int (2 ^ k))) = Fin False q' t'"
    and v: "fp_val False q' t' = fp_val False q t / 2 ^ k" "2 ^ (bitlen n - 1) \<le> fp_val False q t"
      "fp_val False q t \<le> 2 ^ bitlen n" "fp_of_int binary32 (int n) = Fin False q t"
    by (rule float_div_pow [OF \<open>0 < n\<close> k(3) k(1)]) blast
  have "k < bitlen n" using k by (simp add: bitlen_gt_iff)
  then have "(2::real) ^ k \<le> 2 ^ (bitlen n - 1)" by (intro power_increasing) simp_all
  from order_trans [OF this v(2)] have "1 \<le> fp_val False q' t'" unfolding v(1) by (simp add: pos_le_divide_eq)
  then have "5404319552844595 / 2 ^ 53 < fp_val False q' t'" by simp
  then show ?thesis unfolding too_full_def d LOAD_FACTOR_def fp_lt_Fin load_factor .
qed

section \<open>The table and its operations\<close>

type_synonym key = "64 word"
type_synonym bytes = "8 word list"

record entry =
  in_use :: bool
  ekey :: key
  evalue :: "64 word"

record hash_table =
  hash_fn :: "bytes \<Rightarrow> key \<Rightarrow> 64 word"
  equal_fn :: "key \<Rightarrow> key \<Rightarrow> bool"
  key_removed_fn :: bool
  k1 :: bytes
  k2 :: bytes
  size :: nat
  tbl_size :: nat
  tbl :: "entry list"
  refcount :: int

definition entry_zero :: entry where
  "entry_zero = \<lparr> in_use = False, ekey = 0, evalue = 0 \<rparr>"

text \<open>FNV-1a over the eight bytes of the key, the least significant first, and the sixteen of \<open>k\<close>.\<close>

definition fnv_step :: "64 word \<Rightarrow> 8 word \<Rightarrow> 64 word" where
  "fnv_step h b = (h XOR ucast b) * 0x100000001b3"

definition long_bytes :: "64 word \<Rightarrow> bytes" where
  "long_bytes w = map (\<lambda>i. ucast (drop_bit (8 * i) w)) [0..<8]"

definition hash_long :: "bytes \<Rightarrow> key \<Rightarrow> 64 word" where
  "hash_long k key = foldl fnv_step 0xcbf29ce484222325 (long_bytes key @ take 16 k)"

definition equal_long :: "key \<Rightarrow> key \<Rightarrow> bool" where
  "equal_long a b \<longleftrightarrow> a = b"

definition INIT_SIZE :: nat where
  "INIT_SIZE = 8"

datatype hash_table_type = SD_HASH_LONG_KEY | SD_HASH_STRING_KEY | SD_HASH_POINTER_KEY

text \<open>
  \<open>rand\<close> are the words \<open>arc4random\<close> delivers. Each is widened to a \<open>long\<close>; the first sixteen
  bytes of the four of them, that is the first two words, are the hash key.
\<close>

definition key_bytes :: "32 word list \<Rightarrow> bytes" where
  "key_bytes ws = take 16 (concat (map (\<lambda>w. long_bytes (ucast w)) (take 4 ws)))"

definition sd_hash_table_new ::
  "(nat \<Rightarrow> bool) \<Rightarrow> 32 word list \<Rightarrow> hash_table_type \<Rightarrow> bool \<Rightarrow> hash_table option" where
  "sd_hash_table_new alloc rand ty removed =
     (case ty of
        SD_HASH_LONG_KEY \<Rightarrow>
          if alloc INIT_SIZE then
            Some \<lparr> hash_fn = hash_long, equal_fn = equal_long, key_removed_fn = removed,
              k1 = key_bytes rand, k2 = key_bytes (drop 4 rand), size = 0, tbl_size = INIT_SIZE,
              tbl = replicate INIT_SIZE entry_zero, refcount = 1 \<rparr>
          else None
      | _ \<Rightarrow> None)"

text \<open>The loop of \<open>ht_index\<close> from \<open>i\<close> on, for \<open>n\<close> more passes; \<open>None\<close> is the result -1.\<close>

primrec probe :: "hash_table \<Rightarrow> key \<Rightarrow> 64 word \<Rightarrow> nat \<Rightarrow> nat \<Rightarrow> nat option run" where
  "probe ht key h1 i 0 = Inr None"
| "probe ht key h1 i (Suc n) =
     (let hash = unat (h1 + of_nat i) mod tbl_size ht
      in rbind (aread (tbl ht) hash) (\<lambda>entry.
           if \<not> in_use entry \<or> equal_fn ht key (ekey entry) then Inr (Some hash)
           else probe ht key h1 (i + 1) n))"

definition ht_index :: "hash_table \<Rightarrow> key \<Rightarrow> nat option run" where
  "ht_index ht key =
     (if size ht < tbl_size ht then probe ht key (hash_fn ht (k1 ht) key) 0 (tbl_size ht * 16 mod 2 ^ 64)
      else Inl Aborts)"

text \<open>The index, where the callers die when there is none.\<close>

definition ht_find :: "hash_table \<Rightarrow> key \<Rightarrow> nat run" where
  "ht_find ht key = rbind (ht_index ht key) (\<lambda>r. case r of None \<Rightarrow> Inl Aborts | Some i \<Rightarrow> Inr i)"

text \<open>\<open>sd_hash_table_insert\<close>, where \<open>double\<close> is \<open>ht_double_table\<close>.\<close>

definition insert_body :: "(hash_table \<Rightarrow> hash_table run) \<Rightarrow> hash_table \<Rightarrow> key \<Rightarrow> 64 word \<Rightarrow> hash_table run" where
  "insert_body double ht key val =
     rbind (ht_find ht key) (\<lambda>i.
     rbind (aread (tbl ht) i) (\<lambda>entry.
       let ht1 = ht\<lparr> tbl := (tbl ht)[i := entry\<lparr> ekey := key, evalue := val \<rparr>] \<rparr>
       in if in_use entry then Inr ht1
          else
            (let ht2 = ht1\<lparr> tbl := (tbl ht)[i := \<lparr> in_use = True, ekey = key, evalue = val \<rparr>], size := size ht1 + 1 \<rparr>
             in if too_full (size ht2 + 1) (tbl_size ht2) then double ht2 else Inr ht2)))"

primrec reinsert :: "(hash_table \<Rightarrow> key \<Rightarrow> 64 word \<Rightarrow> hash_table run) \<Rightarrow> entry list \<Rightarrow> hash_table \<Rightarrow> hash_table run" where
  "reinsert ins [] ht = Inr ht"
| "reinsert ins (e # es) ht =
     (if \<not> in_use e then reinsert ins es ht
      else rbind (ins ht (ekey e) (evalue e)) (\<lambda>ht. reinsert ins es ht))"

definition double_body ::
  "(nat \<Rightarrow> bool) \<Rightarrow> (hash_table \<Rightarrow> key \<Rightarrow> 64 word \<Rightarrow> hash_table run) \<Rightarrow> hash_table \<Rightarrow> hash_table run" where
  "double_body alloc ins ht =
     (let cells = tbl_size ht * 2 mod 2 ^ 64
      in if \<not> alloc cells then Inl Aborts
         else
           rbind (reinsert ins (tbl ht) (ht\<lparr> size := 0, tbl_size := cells, tbl := replicate cells entry_zero \<rparr>)) (\<lambda>ht'.
             if size ht' \<noteq> size ht then Inl Aborts else Inr ht'))"

text \<open>
  Insertion doubles a table by inserting its entries into the new one. The first argument bounds
  the nesting; a doubled table is at most half full, so one level is all there is.
\<close>

primrec insert_in :: "nat \<Rightarrow> (nat \<Rightarrow> bool) \<Rightarrow> hash_table \<Rightarrow> key \<Rightarrow> 64 word \<Rightarrow> hash_table run" where
  "insert_in 0 alloc ht key val = Inl OutOfFuel"
| "insert_in (Suc n) alloc ht key val = insert_body (double_body alloc (insert_in n alloc)) ht key val"

definition ht_double_table :: "(nat \<Rightarrow> bool) \<Rightarrow> hash_table \<Rightarrow> hash_table run" where
  "ht_double_table alloc = double_body alloc (insert_in 1 alloc)"

definition sd_hash_table_insert :: "(nat \<Rightarrow> bool) \<Rightarrow> hash_table option \<Rightarrow> key \<Rightarrow> 64 word \<Rightarrow> hash_table option run" where
  "sd_hash_table_insert alloc ht key val =
     (case ht of None \<Rightarrow> Inr None | Some t \<Rightarrow> rbind (insert_in 2 alloc t key val) (\<lambda>t. Inr (Some t)))"

text \<open>The value, null when there is none, and whether the key was found.\<close>

definition sd_hash_table_lookup :: "hash_table \<Rightarrow> key \<Rightarrow> (64 word \<times> bool) run" where
  "sd_hash_table_lookup ht key =
     rbind (ht_find ht key) (\<lambda>i.
     rbind (aread (tbl ht) i) (\<lambda>e. Inr (if in_use e then (evalue e, True) else (0, False))))"

definition sd_hash_table_contains :: "hash_table \<Rightarrow> key \<Rightarrow> bool run" where
  "sd_hash_table_contains ht key =
     rbind (ht_find ht key) (\<lambda>i. rbind (aread (tbl ht) i) (\<lambda>e. Inr (in_use e)))"

text \<open>The new table and the arguments of the calls of \<open>key_removed_fn\<close>, in order.\<close>

definition sd_hash_table_remove :: "hash_table \<Rightarrow> key \<Rightarrow> (hash_table \<times> 64 word list) run" where
  "sd_hash_table_remove ht key =
     rbind (ht_find ht key) (\<lambda>i.
     rbind (aread (tbl ht) i) (\<lambda>e.
       if in_use e then
         Inr (ht\<lparr> tbl := (tbl ht)[i := entry_zero], size := size ht - 1 \<rparr>,
              if key_removed_fn ht then [ekey e, evalue e] else [])
       else Inr (ht, [])))"

definition sd_hash_table_size :: "hash_table \<Rightarrow> nat" where
  "sd_hash_table_size ht = size ht"

definition sd_hash_table_ref :: "hash_table \<Rightarrow> hash_table" where
  "sd_hash_table_ref ht = ht\<lparr> refcount := refcount ht + 1 \<rparr>"

definition sd_hash_table_unref :: "hash_table option \<Rightarrow> hash_table option" where
  "sd_hash_table_unref ht =
     (case ht of None \<Rightarrow> None
      | Some t \<Rightarrow> if refcount t - 1 = 0 then None else Some (t\<lparr> refcount := refcount t - 1 \<rparr>))"

section \<open>Iteration\<close>

record iter =
  it_i :: nat
  it_size :: nat
  it_tbl_size :: nat

definition sd_hash_table_iter_init :: "hash_table \<Rightarrow> iter" where
  "sd_hash_table_iter_init ht = \<lparr> it_i = 0, it_size = size ht, it_tbl_size = tbl_size ht \<rparr>"

text \<open>The loop from \<open>i\<close>, for \<open>n\<close> more cells: the entry found and the index after it, or the end.\<close>

primrec next_entry :: "entry list \<Rightarrow> nat \<Rightarrow> nat \<Rightarrow> (entry option \<times> nat) run" where
  "next_entry t i 0 = Inr (None, i)"
| "next_entry t i (Suc n) =
     rbind (aread t i) (\<lambda>e. if in_use e then Inr (Some e, i + 1) else next_entry t (i + 1) n)"

definition sd_hash_table_iter_next :: "iter \<Rightarrow> hash_table \<Rightarrow> ((key \<times> 64 word) option \<times> iter) run" where
  "sd_hash_table_iter_next it ht =
     (if it_size it \<noteq> size ht \<or> it_tbl_size it \<noteq> tbl_size ht then Inr (None, it)
      else if it_tbl_size it \<le> it_i it then Inr (None, it)
      else
        rbind (next_entry (tbl ht) (it_i it) (it_tbl_size it - it_i it)) (\<lambda>(e, i).
          Inr (map_option (\<lambda>e. (ekey e, evalue e)) e, it\<lparr> it_i := i \<rparr>)))"

section \<open>Invariant and contents\<close>

text \<open>The cell looked at after \<open>j\<close> collisions.\<close>

definition cell :: "hash_table \<Rightarrow> key \<Rightarrow> nat \<Rightarrow> nat" where
  "cell ht key j = (unat (hash_fn ht (k1 ht) key) + j) mod tbl_size ht"

definition passed :: "hash_table \<Rightarrow> key \<Rightarrow> nat \<Rightarrow> bool" where
  "passed ht key d \<longleftrightarrow> (\<forall>j < d. in_use (tbl ht ! cell ht key j) \<and> ekey (tbl ht ! cell ht key j) \<noteq> key)"

text \<open>
  Probing for the key of an entry reaches the entry. The size of the table is a power of two
  that leaves the bound of the loop below \<open>2^64\<close>.
\<close>

definition reachable :: "hash_table \<Rightarrow> bool" where
  "reachable ht \<longleftrightarrow> (\<forall>p < tbl_size ht. in_use (tbl ht ! p) \<longrightarrow>
     (\<exists>d < tbl_size ht. cell ht (ekey (tbl ht ! p)) d = p \<and> passed ht (ekey (tbl ht ! p)) d))"

definition ht_sized :: "hash_table \<Rightarrow> bool" where
  "ht_sized ht \<longleftrightarrow> (\<exists>k. 3 \<le> k \<and> k < 60 \<and> tbl_size ht = 2 ^ k) \<and> length (tbl ht) = tbl_size ht \<and>
     equal_fn ht = equal_long"

definition ht_shape :: "hash_table \<Rightarrow> bool" where
  "ht_shape ht \<longleftrightarrow> ht_sized ht \<and> size ht = length (filter in_use (tbl ht)) \<and> reachable ht"

definition ht_inv :: "hash_table \<Rightarrow> bool" where
  "ht_inv ht \<longleftrightarrow> ht_shape ht \<and> size ht + 1 < tbl_size ht"

definition view :: "hash_table \<Rightarrow> key \<Rightarrow> 64 word option" where
  "view ht = map_of (map (\<lambda>e. (ekey e, evalue e)) (filter in_use (tbl ht)))"

text \<open>The value of a key looked up with a false stop: the probe ends in the cell of the key.\<close>

definition stops :: "hash_table \<Rightarrow> key \<Rightarrow> nat \<Rightarrow> bool" where
  "stops ht key d \<longleftrightarrow> d < tbl_size ht \<and> passed ht key d \<and>
     (\<not> in_use (tbl ht ! cell ht key d) \<or> ekey (tbl ht ! cell ht key d) = key)"

lemma sized_pow:
  assumes "ht_sized ht"
  obtains k where "3 \<le> k" "k < 60" "tbl_size ht = 2 ^ k"
  using assms by (auto simp: ht_sized_def)

lemma shape_sized: "ht_shape ht \<Longrightarrow> ht_sized ht"
  by (simp add: ht_shape_def)

lemma shape_fields: "ht_shape ht \<Longrightarrow> length (tbl ht) = tbl_size ht \<and> equal_fn ht = equal_long"
  by (simp add: ht_shape_def ht_sized_def)

lemma cell_less: "ht_sized ht \<Longrightarrow> cell ht key j < tbl_size ht"
  by (auto simp: cell_def ht_sized_def)

lemma cell_word:
  assumes "ht_sized ht"
  shows "unat (hash_fn ht (k1 ht) key + of_nat j) mod tbl_size ht = cell ht key j"
proof -
  obtain k where k: "k < 60" "tbl_size ht = 2 ^ k" using sized_pow [OF assms] by blast
  have d: "(2::nat) ^ k dvd 2 ^ 64" using k(1) by (intro le_imp_power_dvd) simp
  have "unat (hash_fn ht (k1 ht) key + of_nat j) = (unat (hash_fn ht (k1 ht) key) + j) mod 2 ^ 64"
    by (simp add: unat_word_ariths(1) unat_of_nat mod_add_right_eq)
  then show ?thesis unfolding cell_def k(2) by (simp only: mod_mod_cancel [OF d])
qed

lemma probe_stops:
  assumes "ht_sized ht"
  shows "passed ht key d \<Longrightarrow> \<not> in_use (tbl ht ! cell ht key d) \<or> ekey (tbl ht ! cell ht key d) = key \<Longrightarrow>
     d < i + n \<Longrightarrow> i \<le> d \<Longrightarrow> probe ht key (hash_fn ht (k1 ht) key) i n = Inr (Some (cell ht key d))"
proof (induction n arbitrary: i)
  case (Suc n)
  have c: "aread (tbl ht) (cell ht key i) = Inr (tbl ht ! cell ht key i)"
    using cell_less [OF assms, of key i] assms by (simp add: ht_sized_def)
  have eq: "equal_fn ht = equal_long" using assms by (simp add: ht_sized_def)
  show ?case
  proof (cases "i = d")
    case True
    with Suc.prems(2) c show ?thesis by (auto simp: cell_word [OF assms] eq equal_long_def)
  next
    case False
    then have "in_use (tbl ht ! cell ht key i)" "ekey (tbl ht ! cell ht key i) \<noteq> key"
      using Suc.prems by (auto simp: passed_def)
    with Suc.IH [of "i + 1"] Suc.prems False c show ?thesis by (simp add: cell_word [OF assms] eq equal_long_def)
  qed
qed simp

lemma free_cell:
  assumes "ht_inv ht" shows "\<exists>j < tbl_size ht. \<not> in_use (tbl ht ! cell ht key j)"
proof -
  have sh: "ht_shape ht" and l: "length (tbl ht) = tbl_size ht" "0 < tbl_size ht"
    and "length (filter in_use (tbl ht)) < length (tbl ht)"
    using assms by (auto simp: ht_inv_def ht_shape_def ht_sized_def)
  then have "\<not> (\<forall>e \<in> set (tbl ht). in_use e)" by (metis filter_True less_irrefl)
  then obtain p where p: "p < tbl_size ht" "\<not> in_use (tbl ht ! p)" using l by (auto simp: in_set_conv_nth)
  let ?h = "unat (hash_fn ht (k1 ht) key)" and ?T = "tbl_size ht"
  let ?j = "(p + (?T - ?h mod ?T)) mod ?T"
  have "cell ht key ?j = (?h mod ?T + (p + (?T - ?h mod ?T))) mod ?T"
    unfolding cell_def by (simp add: mod_add_left_eq mod_add_right_eq)
  also have "?h mod ?T + (p + (?T - ?h mod ?T)) = p + ?T" using mod_less_divisor [OF l(2), of ?h] by linarith
  finally have "cell ht key ?j = p" using p(1) by simp
  with p l show ?thesis by (intro exI [of _ ?j]) simp
qed

lemma stops_exists: "ht_inv ht \<Longrightarrow> \<exists>d. stops ht key d"
proof -
  assume "ht_inv ht"
  let ?P = "\<lambda>d. \<not> in_use (tbl ht ! cell ht key d) \<or> ekey (tbl ht ! cell ht key d) = key"
  obtain j where j: "j < tbl_size ht" "?P j" using free_cell [OF \<open>ht_inv ht\<close>, of key] by blast
  have "?P (LEAST d. ?P d)" by (rule LeastI [of ?P, OF j(2)])
  moreover have "(LEAST d. ?P d) \<le> j" by (rule Least_le [of ?P, OF j(2)])
  moreover have "passed ht key (LEAST d. ?P d)" unfolding passed_def using not_less_Least by blast
  ultimately show ?thesis using j by (intro exI [of _ "LEAST d. ?P d"]) (simp add: stops_def)
qed

lemma ht_find_stops:
  assumes sh: "ht_sized ht" and sz: "size ht < tbl_size ht" and st: "stops ht key d"
  shows "ht_find ht key = Inr (cell ht key d)"
proof -
  obtain k where k: "k < 60" "tbl_size ht = 2 ^ k" using sized_pow [OF sh] by blast
  have "tbl_size ht * 16 < 2 ^ 64"
  proof -
    have "(2::nat) ^ k < 2 ^ 60" using k by (intro power_strict_increasing) simp_all
    with k show ?thesis by simp
  qed
  then have "probe ht key (hash_fn ht (k1 ht) key) 0 (tbl_size ht * 16 mod 2 ^ 64) = Inr (Some (cell ht key d))"
    using st by (intro probe_stops [OF sh]) (auto simp: stops_def)
  with sz show ?thesis by (simp add: ht_find_def ht_index_def)
qed

lemma ht_inv_find: "ht_inv ht \<Longrightarrow> stops ht key d \<Longrightarrow> ht_find ht key = Inr (cell ht key d)"
  by (rule ht_find_stops) (simp_all add: ht_inv_def ht_shape_def)

text \<open>An entry is found where the probe for its key stops.\<close>

lemma entry_stops:
  assumes "reachable ht" "stops ht key d" "p < tbl_size ht" "in_use (tbl ht ! p)" "ekey (tbl ht ! p) = key"
  shows "p = cell ht key d"
proof -
  obtain e where e: "cell ht key e = p" "passed ht key e" using assms by (auto simp: reachable_def)
  have "\<not> e < d" "\<not> d < e" using assms(2,4,5) e by (auto simp: stops_def passed_def)
  with e(1) show ?thesis by (metis linorder_neqE_nat)
qed

lemma entry_unique:
  assumes "ht_shape u" "p < tbl_size u" "q < tbl_size u" "in_use (tbl u ! p)" "in_use (tbl u ! q)"
    "ekey (tbl u ! p) = ekey (tbl u ! q)"
  shows "p = q"
proof -
  have R: "reachable u" using assms(1) by (simp add: ht_shape_def ht_sized_def)
  obtain e where "e < tbl_size u" "cell u (ekey (tbl u ! p)) e = p" "passed u (ekey (tbl u ! p)) e"
    using R assms(2,4) by (auto simp: reachable_def)
  then have "stops u (ekey (tbl u ! p)) e" by (simp add: stops_def)
  from entry_stops [OF R this, of p] entry_stops [OF R this, of q] assms show ?thesis by simp
qed

lemma view_Some: "view ht key = Some v \<Longrightarrow> \<exists>p < length (tbl ht). in_use (tbl ht ! p) \<and> ekey (tbl ht ! p) = key \<and> evalue (tbl ht ! p) = v"
  by (auto simp: view_def in_set_conv_nth dest!: map_of_SomeD)

lemma view_None: "view ht key = None \<longleftrightarrow> (\<forall>p < length (tbl ht). in_use (tbl ht ! p) \<longrightarrow> ekey (tbl ht ! p) \<noteq> key)"
proof -
  have "view ht key = None \<longleftrightarrow> (\<forall>e \<in> set (tbl ht). in_use e \<longrightarrow> ekey e \<noteq> key)"
    by (auto simp: view_def map_of_eq_None_iff image_iff)
  then show ?thesis by (simp only: all_set_conv_all_nth)
qed

lemma view_stops:
  assumes "ht_shape ht" "stops ht key d"
  shows "view ht key = (if in_use (tbl ht ! cell ht key d) then Some (evalue (tbl ht ! cell ht key d)) else None)"
proof (cases "view ht key")
  case None
  then show ?thesis using assms cell_less [OF shape_sized [OF assms(1)], of key d] by (auto simp: view_None ht_shape_def ht_sized_def stops_def)
next
  case (Some v)
  from view_Some [OF this] obtain p where p: "p < length (tbl ht)" "in_use (tbl ht ! p)" "ekey (tbl ht ! p) = key" "evalue (tbl ht ! p) = v"
    by blast
  then have "p = cell ht key d" using assms by (intro entry_stops) (auto simp: ht_shape_def ht_sized_def)
  with p Some show ?thesis by simp
qed

section \<open>Insertion\<close>

definition put_entry :: "hash_table \<Rightarrow> nat \<Rightarrow> key \<Rightarrow> 64 word \<Rightarrow> hash_table" where
  "put_entry ht p key val = ht\<lparr> tbl := (tbl ht)[p := \<lparr> in_use = True, ekey = key, evalue = val \<rparr>],
     size := (if in_use (tbl ht ! p) then size ht else size ht + 1) \<rparr>"

lemma put_entry_fields [simp]:
  "hash_fn (put_entry ht p key val) = hash_fn ht" "k1 (put_entry ht p key val) = k1 ht"
  "tbl_size (put_entry ht p key val) = tbl_size ht" "equal_fn (put_entry ht p key val) = equal_fn ht"
  "key_removed_fn (put_entry ht p key val) = key_removed_fn ht"
  "cell (put_entry ht p key val) = cell ht"
  by (simp_all add: put_entry_def cell_def fun_eq_iff)

lemma length_filter_update:
  "p < length xs \<Longrightarrow> P y \<Longrightarrow> length (filter P (xs[p := y])) = length (filter P xs) + (if P (xs ! p) then 0 else 1)"
  by (induction xs arbitrary: p) (auto split: nat.split)

lemma put_entry_shape:
  assumes "ht_inv ht" "stops ht key d"
    and t_def: "t = put_entry ht (cell ht key d) key val"
  shows "ht_shape t \<and> view t = (view ht)(key \<mapsto> val)"
proof -
  let ?c = "cell ht key d"
  have sh: "ht_shape ht" and R: "reachable ht" and L: "length (tbl ht) = tbl_size ht"
    using assms(1) by (simp_all add: ht_inv_def ht_shape_def ht_sized_def)
  have c: "?c < tbl_size ht" by (rule cell_less [OF shape_sized [OF sh]])
  have nth: "tbl t ! p = (if p = ?c then \<lparr> in_use = True, ekey = key, evalue = val \<rparr> else tbl ht ! p)" if "p < tbl_size ht" for p
    using that c L by (simp add: t_def put_entry_def)
  have stop: "d < tbl_size ht" "passed ht key d" "\<not> in_use (tbl ht ! ?c) \<or> ekey (tbl ht ! ?c) = key"
    using assms(2) by (simp_all add: stops_def)
  have pass: "passed t y e" if "passed ht y e" "y \<noteq> key \<or> e = d" for y e
    unfolding passed_def
  proof (intro allI impI)
    fix j assume j: "j < e"
    have l: "cell ht y j < tbl_size ht" by (rule cell_less [OF shape_sized [OF sh]])
    have q: "in_use (tbl ht ! cell ht y j)" "ekey (tbl ht ! cell ht y j) \<noteq> y" using that(1) j by (simp_all add: passed_def)
    show "in_use (tbl t ! cell t y j) \<and> ekey (tbl t ! cell t y j) \<noteq> y"
    proof (cases "cell ht y j = ?c")
      case True
      have "y \<noteq> key"
      proof
        assume "y = key"
        with that(2) True q stop(3) show False by auto
      qed
      with True l nth [OF l] show ?thesis by (simp add: t_def)
    qed (use q nth [OF l] in \<open>simp add: t_def\<close>)
  qed
  have "reachable t" unfolding reachable_def
  proof (intro allI impI)
    fix p assume p: "p < tbl_size t" "in_use (tbl t ! p)"
    then have pl: "p < tbl_size ht" by (simp add: t_def)
    show "\<exists>e < tbl_size t. cell t (ekey (tbl t ! p)) e = p \<and> passed t (ekey (tbl t ! p)) e"
    proof (cases "p = ?c")
      case True
      with nth [OF pl] pass [OF stop(2)] stop(1) show ?thesis by (auto simp: t_def)
    next
      case False
      then have e: "tbl t ! p = tbl ht ! p" "in_use (tbl ht ! p)" using nth [OF pl] p(2) by simp_all
      have "ekey (tbl ht ! p) \<noteq> key" using entry_stops [OF R assms(2) pl e(2)] False by blast
      moreover obtain e' where "e' < tbl_size ht" "cell ht (ekey (tbl ht ! p)) e' = p" "passed ht (ekey (tbl ht ! p)) e'"
        using R pl e(2) by (auto simp: reachable_def)
      ultimately show ?thesis using pass [of "ekey (tbl ht ! p)" e'] e(1) by (auto simp: t_def)
    qed
  qed
  moreover have "size t = length (filter in_use (tbl t))"
    using sh c L length_filter_update [of ?c "tbl ht" in_use] by (simp add: t_def put_entry_def ht_shape_def ht_sized_def)
  ultimately have sht: "ht_shape t" using sh by (simp add: ht_shape_def ht_sized_def) (simp add: t_def put_entry_def)
  have "view t y = ((view ht)(key \<mapsto> val)) y" for y
  proof (cases "y = key")
    case True
    have "stops t key d" using stop(1) pass [OF stop(2)] nth [OF c] by (simp add: stops_def t_def)
    from view_stops [OF sht this] nth [OF c] True show ?thesis by (simp add: t_def)
  next
    case False
    have same: "(in_use (tbl t ! p) \<and> ekey (tbl t ! p) = y) = (in_use (tbl ht ! p) \<and> ekey (tbl ht ! p) = y)" if "p < tbl_size ht" for p
      using nth [OF that] False stop(3) by auto
    have lt: "length (tbl t) = tbl_size ht" using L by (simp add: t_def put_entry_def)
    show ?thesis
    proof (cases "view ht y")
      case None
      with same lt L have "view t y = None" unfolding view_None by auto
      with None False show ?thesis by simp
    next
      case (Some v)
      from view_Some [OF this] L obtain p where p: "p < tbl_size ht" "in_use (tbl ht ! p)" "ekey (tbl ht ! p) = y" "evalue (tbl ht ! p) = v"
        by auto
      have "p \<noteq> ?c" using p stop(3) False by auto
      then have pt: "tbl t ! p = tbl ht ! p" using nth [OF p(1)] by simp
      have "view t y \<noteq> None" using p pt lt by (auto simp: view_None)
      then obtain w where w: "view t y = Some w" by blast
      from view_Some [OF this] lt obtain q where q: "q < tbl_size ht" "in_use (tbl t ! q)" "ekey (tbl t ! q) = y" "evalue (tbl t ! q) = w"
        by auto
      have "q = p" using entry_unique [OF sht, of q p] q p pt by (simp add: t_def)
      with q p pt w Some False show ?thesis by simp
    qed
  qed
  with sht show ?thesis by blast
qed

lemma insert_body_put:
  assumes "ht_inv ht" "stops ht key d"
  defines "t \<equiv> put_entry ht (cell ht key d) key"
  shows "insert_body double ht key val =
    (if in_use (tbl ht ! cell ht key d) \<or> \<not> too_full (size (t val) + 1) (tbl_size ht) then Inr (t val) else double (t val))"
proof -
  have "cell ht key d < length (tbl ht)"
    using assms(1) cell_less [of ht key d] by (simp add: ht_inv_def ht_shape_def ht_sized_def)
  moreover obtain b x v where "tbl ht ! cell ht key d = \<lparr> in_use = b, ekey = x, evalue = v \<rparr>"
    by (cases "tbl ht ! cell ht key d")
  ultimately show ?thesis
    using ht_inv_find [OF assms(1,2)]
    by (auto simp: insert_body_def put_entry_def t_def Let_def)
qed

lemma put_entry_inv:
  assumes "ht_inv ht" "stops ht key d" "t = put_entry ht (cell ht key d) key val"
    "in_use (tbl ht ! cell ht key d) \<or> \<not> too_full (size t + 1) (tbl_size ht)"
  shows "ht_inv t"
proof -
  have sh: "ht_shape t" using put_entry_shape [OF assms(1,2), of t val] assms(3) by simp
  obtain k where k: "k < 60" "tbl_size t = 2 ^ k" using sized_pow [OF shape_sized [OF sh]] by blast
  have T: "tbl_size t = tbl_size ht" using assms(3) by simp
  have "size t + 1 < tbl_size t"
  proof (cases "in_use (tbl ht ! cell ht key d)")
    case True
    then have "size t = size ht" using assms(3) by (simp add: put_entry_def)
    with assms(1) T show ?thesis by (simp add: ht_inv_def)
  next
    case False
    then have "size t = size ht + 1" using assms(3) by (simp add: put_entry_def)
    then have "size t < 2 ^ k" using assms(1) T k by (simp add: ht_inv_def)
    moreover have "(2::nat) ^ k < 2 ^ 60" using k(1) by (intro power_strict_increasing) simp_all
    ultimately have "size t + 1 < 2 ^ 64" by simp
    then have "2 ^ k \<le> size t + 1 \<Longrightarrow> too_full (size t + 1) (2 ^ k)" using k(1) by (intro full_table) simp_all
    with False assms(4) k(2) T show ?thesis by fastforce
  qed
  with sh show ?thesis by (simp add: ht_inv_def)
qed

text \<open>The entries of a table put into one that stays at most half full.\<close>

abbreviation pairs :: "entry list \<Rightarrow> (key \<times> 64 word) list" where
  "pairs es \<equiv> map (\<lambda>e. (ekey e, evalue e)) (filter in_use es)"

lemma reinsert_half:
  assumes "k < 60"
  shows "ht_inv u \<Longrightarrow> tbl_size u = 2 ^ Suc k \<Longrightarrow> distinct (map fst (pairs es)) \<Longrightarrow>
    size u + length (pairs es) + 1 \<le> 2 ^ k \<Longrightarrow> (\<forall>y \<in> fst ` set (pairs es). view u y = None) \<Longrightarrow>
    \<exists>u'. reinsert (insert_in (Suc n) alloc) es u = Inr u' \<and> ht_inv u' \<and>
      size u' = size u + length (pairs es) \<and> view u' = view u ++ map_of (pairs es)"
proof (induction es arbitrary: u)
  case (Cons e es)
  show ?case
  proof (cases "in_use e")
    case False
    with Cons show ?thesis by simp
  next
    case True
    obtain d where d: "stops u (ekey e) d" using stops_exists [OF Cons.prems(1)] by blast
    let ?t = "put_entry u (cell u (ekey e) d) (ekey e) (evalue e)"
    have sh: "ht_shape u" using Cons.prems(1) by (simp add: ht_inv_def)
    have new: "\<not> in_use (tbl u ! cell u (ekey e) d)"
      using view_stops [OF sh d] Cons.prems(5) True by (auto split: if_split_asm)
    then have sz: "size ?t = size u + 1" by (simp add: put_entry_def)
    have "\<not> too_full (size ?t + 1) (2 ^ Suc k)"
      using sz Cons.prems(4) True assms by (intro half_full) simp_all
    then have nf: "\<not> too_full (size ?t + 1) (tbl_size u)" using Cons.prems(2) by simp
    have i: "insert_in (Suc n) alloc u (ekey e) (evalue e) = Inr ?t"
      using insert_body_put [OF Cons.prems(1) d] nf by simp
    have inv: "ht_inv ?t" using put_entry_inv [OF Cons.prems(1) d refl] nf by blast
    have vt: "view ?t = (view u)(ekey e \<mapsto> evalue e)" using put_entry_shape [OF Cons.prems(1) d refl] by blast
    have fresh: "\<forall>y \<in> fst ` set (pairs es). view ?t y = None"
      using Cons.prems(3,5) True vt by (auto simp: image_iff)
    have "\<exists>u'. reinsert (insert_in (Suc n) alloc) es ?t = Inr u' \<and> ht_inv u' \<and>
      size u' = size ?t + length (pairs es) \<and> view u' = view ?t ++ map_of (pairs es)"
      using Cons.prems True sz by (intro Cons.IH [OF inv _ _ _ fresh]) simp_all
    then obtain u' where u': "reinsert (insert_in (Suc n) alloc) es ?t = Inr u'" "ht_inv u'"
      "size u' = size ?t + length (pairs es)" "view u' = view ?t ++ map_of (pairs es)" by blast
    have eq: "view ?t ++ map_of (pairs es) = view u ++ map_of (pairs (e # es))"
    proof -
      have "map_of (pairs es) (ekey e) = None"
        using Cons.prems(3) True by (auto simp: map_of_eq_None_iff image_iff)
      then show ?thesis using True vt by (auto simp: map_add_def fun_eq_iff split: option.split)
    qed
    have "reinsert (insert_in (Suc n) alloc) (e # es) u = Inr u'" using i u'(1) True by (simp del: insert_in.simps)
    moreover have "size u' = size u + length (pairs (e # es))" using u'(3) sz True by simp
    ultimately show ?thesis using u'(2) trans [OF u'(4) eq] by blast
  qed
qed simp

lemma distinct_filter_keys:
  "(\<And>p q. p < length xs \<Longrightarrow> q < length xs \<Longrightarrow> P (xs ! p) \<Longrightarrow> P (xs ! q) \<Longrightarrow> f (xs ! p) = f (xs ! q) \<Longrightarrow> p = q) \<Longrightarrow>
   distinct (map f (filter P xs))"
proof (induction xs)
  case (Cons x xs)
  have "distinct (map f (filter P xs))"
  proof (rule Cons.IH)
    fix p q assume "p < length xs" "q < length xs" "P (xs ! p)" "P (xs ! q)" "f (xs ! p) = f (xs ! q)"
    then show "p = q" using Cons.prems [of "Suc p" "Suc q"] by simp
  qed
  moreover have "f x \<notin> f ` set (filter P xs)" if "P x"
  proof
    assume "f x \<in> f ` set (filter P xs)"
    then obtain q where "q < length xs" "P (xs ! q)" "f x = f (xs ! q)" by (auto simp: in_set_conv_nth)
    then show False using Cons.prems [of 0 "Suc q"] that by simp
  qed
  ultimately show ?case by simp
qed simp

definition empty_table :: "hash_table \<Rightarrow> nat \<Rightarrow> hash_table" where
  "empty_table t c = t\<lparr> size := 0, tbl_size := c, tbl := replicate c entry_zero \<rparr>"

lemma empty_table_inv:
  assumes "3 \<le> k" "k < 60" "equal_fn t = equal_long"
  shows "ht_inv (empty_table t (2 ^ k)) \<and> view (empty_table t (2 ^ k)) = Map.empty"
proof -
  have f: "filter in_use (replicate n entry_zero) = []" for n by (simp add: entry_zero_def)
  have "(2::nat) ^ 3 \<le> 2 ^ k" using assms(1) by (intro power_increasing) simp_all
  with assms f show ?thesis
    by (auto simp: ht_inv_def ht_shape_def ht_sized_def empty_table_def view_def reachable_def entry_zero_def)
qed

text \<open>Doubling keeps the contents.\<close>

lemma double_body_view:
  assumes sh: "ht_shape t" and sz: "size t < tbl_size t" and al: "\<And>n. alloc n \<Longrightarrow> n < 2 ^ 60"
  shows "if alloc (tbl_size t * 2)
    then \<exists>t'. double_body alloc (insert_in (Suc n) alloc) t = Inr t' \<and> ht_inv t' \<and> view t' = view t
    else double_body alloc (insert_in (Suc n) alloc) t = Inl Aborts"
proof -
  obtain k where k: "3 \<le> k" "k < 60" "tbl_size t = 2 ^ k" using sized_pow [OF shape_sized [OF sh]] by blast
  have "(2::nat) ^ k < 2 ^ 60" using k by (intro power_strict_increasing) simp_all
  then have cells: "tbl_size t * 2 mod 2 ^ 64 = 2 ^ Suc k" "tbl_size t * 2 = 2 ^ Suc k" using k(3) by simp_all
  let ?u = "empty_table t (2 ^ Suc k)"
  have b: "double_body alloc (insert_in (Suc n) alloc) t =
      (if \<not> alloc (2 ^ Suc k) then Inl Aborts
       else rbind (reinsert (insert_in (Suc n) alloc) (tbl t) ?u) (\<lambda>t'. if size t' \<noteq> size t then Inl Aborts else Inr t'))"
    unfolding double_body_def cells(1) Let_def empty_table_def ..
  show ?thesis
  proof (cases "alloc (2 ^ Suc k)")
    case True
    then have k1: "Suc k < 60" using al power_less_imp_less_exp [of "2::nat" "Suc k" 60] by simp
    have u: "ht_inv ?u" "view ?u = Map.empty" "tbl_size ?u = 2 ^ Suc k" "size ?u = 0"
      using empty_table_inv [of "Suc k" t] k k1 sh by (simp_all add: ht_shape_def ht_sized_def) (simp_all add: empty_table_def)
    have "distinct (map ekey (filter in_use (tbl t)))"
      using entry_unique [OF sh] sh by (intro distinct_filter_keys) (simp add: ht_shape_def ht_sized_def)
    then have dst: "distinct (map fst (pairs (tbl t)))" by (simp add: comp_def)
    have len: "size t = length (pairs (tbl t))" using sh by (simp add: ht_shape_def ht_sized_def)
    have "\<exists>u'. reinsert (insert_in (Suc n) alloc) (tbl t) ?u = Inr u' \<and> ht_inv u' \<and>
      size u' = size ?u + length (pairs (tbl t)) \<and> view u' = view ?u ++ map_of (pairs (tbl t))"
      using sz k len u(2,4) by (intro reinsert_half [OF k(2) u(1,3) dst]) simp_all
    with True b len u(2,4) show ?thesis unfolding cells(2) by (auto simp: view_def)
  next
    case False
    with b show ?thesis unfolding cells(2) by simp
  qed
qed

section \<open>The interface: a store of keyed values\<close>

text \<open>Storing a list of pairs one after the other.\<close>

primrec puts :: "('s \<Rightarrow> 'k \<Rightarrow> 'v \<Rightarrow> 's run) \<Rightarrow> ('k \<times> 'v) list \<Rightarrow> 's \<Rightarrow> 's run" where
  "puts put [] s = Inr s"
| "puts put (x # xs) s = rbind (put s (fst x) (snd x)) (puts put xs)"

locale keyed_store =
  fixes inv :: "'s \<Rightarrow> bool"
    and contents :: "'s \<Rightarrow> 'k \<Rightarrow> 'v option"
    and put :: "'s \<Rightarrow> 'k \<Rightarrow> 'v \<Rightarrow> 's run"
    and get :: "'s \<Rightarrow> 'k \<Rightarrow> 'v option run"
  assumes put_contents: "inv s \<Longrightarrow> put s k v = Inr t \<Longrightarrow> inv t \<and> contents t = (contents s)(k \<mapsto> v)"
    and get_contents: "inv s \<Longrightarrow> get s k = Inr (contents s k)"
begin

lemma get_put: "inv s \<Longrightarrow> put s k v = Inr t \<Longrightarrow> get t j = (if j = k then Inr (Some v) else get s j)"
  using put_contents [of s k v t] get_contents [of s j] get_contents [of t j] by simp

lemma puts_contents: "inv s \<Longrightarrow> puts put xs s = Inr t \<Longrightarrow> inv t \<and> contents t = contents s ++ map_of (rev xs)"
proof (induction xs arbitrary: s)
  case (Cons x xs)
  then obtain u where u: "put s (fst x) (snd x) = Inr u" "puts put xs u = Inr t" by (auto simp: rbind_eq_Inr)
  have "inv u \<and> contents u = (contents s)(fst x \<mapsto> snd x)" by (rule put_contents [OF Cons.prems(1) u(1)])
  with Cons.IH [OF _ u(2)] show ?case by (auto simp: map_add_def fun_eq_iff split: option.split)
qed simp

lemma get_puts: "inv s \<Longrightarrow> puts put xs s = Inr t \<Longrightarrow> get t k = Inr ((contents s ++ map_of (rev xs)) k)"
  using puts_contents [of s xs t] get_contents [of t k] by simp

end

text \<open>The hash table is one.\<close>

lemma insert_in_view:
  assumes inv: "ht_inv t" and al: "\<And>n. alloc n \<Longrightarrow> n < 2 ^ 60"
  shows "(\<exists>t'. insert_in (Suc (Suc n)) alloc t key val = Inr t' \<and> ht_inv t' \<and> view t' = (view t)(key \<mapsto> val)) \<or>
    (insert_in (Suc (Suc n)) alloc t key val = Inl Aborts \<and> \<not> alloc (tbl_size t * 2))"
proof -
  obtain d where d: "stops t key d" using stops_exists [OF inv] by blast
  let ?u = "put_entry t (cell t key d) key val"
  have u: "ht_shape ?u" "view ?u = (view t)(key \<mapsto> val)" using put_entry_shape [OF inv d refl] by blast+
  note b = insert_body_put [OF inv d, of "double_body alloc (insert_in (Suc n) alloc)" val, folded insert_in.simps]
  show ?thesis
  proof (cases "in_use (tbl t ! cell t key d) \<or> \<not> too_full (size ?u + 1) (tbl_size t)")
    case True
    with b u put_entry_inv [OF inv d refl True] show ?thesis by (simp del: insert_in.simps)
  next
    case False
    then have e: "insert_in (Suc (Suc n)) alloc t key val = double_body alloc (insert_in (Suc n) alloc) ?u"
      using b by (simp del: insert_in.simps)
    have "size ?u < tbl_size ?u" using inv False by (simp add: put_entry_def ht_inv_def)
    from double_body_view [OF u(1) this al, of alloc n] u(2) show ?thesis
      unfolding e by (auto simp del: insert_in.simps split: if_split_asm)
  qed
qed

definition ht_get :: "hash_table \<Rightarrow> key \<Rightarrow> 64 word option run" where
  "ht_get t key = rbind (sd_hash_table_lookup t key) (\<lambda>(v, ok). Inr (if ok then Some v else None))"

lemma lookup_view:
  assumes "ht_inv t"
  shows "sd_hash_table_lookup t key = Inr (case view t key of None \<Rightarrow> (0, False) | Some v \<Rightarrow> (v, True))"
    and "sd_hash_table_contains t key = Inr (view t key \<noteq> None)"
proof -
  obtain d where d: "stops t key d" using stops_exists [OF assms] by blast
  have sh: "ht_shape t" using assms by (simp add: ht_inv_def)
  have "cell t key d < length (tbl t)" using cell_less [OF shape_sized [OF sh]] shape_fields [OF sh] by simp
  with ht_inv_find [OF assms d] view_stops [OF sh d]
  show "sd_hash_table_lookup t key = Inr (case view t key of None \<Rightarrow> (0, False) | Some v \<Rightarrow> (v, True))"
    "sd_hash_table_contains t key = Inr (view t key \<noteq> None)"
    by (auto simp: sd_hash_table_lookup_def sd_hash_table_contains_def)
qed

interpretation table: keyed_store ht_inv view "insert_in 2 (\<lambda>n. n < 2 ^ 60 \<and> alloc n)" ht_get
proof
  fix t k v t'
  assume "ht_inv t" "insert_in 2 (\<lambda>n. n < 2 ^ 60 \<and> alloc n) t k v = Inr t'"
  then show "ht_inv t' \<and> view t' = (view t)(k \<mapsto> v)"
    using insert_in_view [of t "\<lambda>n. n < 2 ^ 60 \<and> alloc n" 0 k v] by (auto simp: numeral_2_eq_2 simp del: insert_in.simps)
next
  fix t k assume "ht_inv t"
  from lookup_view(1) [OF this] show "ht_get t k = Inr (view t k)" by (simp add: ht_get_def split: option.split)
qed

lemma new_table_inv:
  assumes "sd_hash_table_new alloc rand ty r = Some t" shows "ht_inv t \<and> view t = Map.empty"
proof -
  have "t = empty_table t (2 ^ 3) \<and> equal_fn t = equal_long"
    using assms by (auto simp: sd_hash_table_new_def empty_table_def INIT_SIZE_def split: hash_table_type.splits if_split_asm)
  with empty_table_inv [of 3 t] show ?thesis by simp
qed

lemma size_view: "ht_inv t \<Longrightarrow> size t = card (dom (view t))"
proof -
  assume "ht_inv t"
  then have sh: "ht_shape t" by (simp add: ht_inv_def)
  have "distinct (map ekey (filter in_use (tbl t)))"
    using entry_unique [OF sh] shape_fields [OF sh] by (intro distinct_filter_keys) simp
  then have "distinct (map fst (pairs (tbl t)))" by (simp add: comp_def)
  then have "card (set (map fst (pairs (tbl t)))) = length (pairs (tbl t))" by (subst distinct_card) simp_all
  then have "card (dom (view t)) = length (pairs (tbl t))"
    by (simp only: view_def dom_map_of_conv_image_fst set_map)
  then show ?thesis using sh by (simp add: ht_shape_def)
qed

section \<open>Properties\<close>

text \<open>
  C18. Inserting into a well-formed table, doubling included, leaves a well-formed table that maps
  the key to the value and all other keys as before; the program is left only when the memory for
  a doubled table cannot be had. (\<open>calloc\<close> cannot deliver \<open>2^60\<close> entries of 24 bytes.)
\<close>

theorem sd_hash_table_insert_refines:
  assumes "ht_inv t" "\<forall>n. alloc n \<longrightarrow> n < 2 ^ 60"
  shows "(\<exists>t'. sd_hash_table_insert alloc (Some t) key val = Inr (Some t') \<and> ht_inv t' \<and>
      view t' = (view t)(key \<mapsto> val)) \<or>
    (sd_hash_table_insert alloc (Some t) key val = Inl Aborts \<and> \<not> alloc (tbl_size t * 2))"
proof -
  have "n < 2 ^ 60" if "alloc n" for n using assms(2) that by blast
  from insert_in_view [OF assms(1) this, of alloc 0 key val] show ?thesis
    by (auto simp: sd_hash_table_insert_def numeral_2_eq_2 simp del: insert_in.simps)
qed

definition zero_table :: hash_table where
  "zero_table = \<lparr> hash_fn = hash_long, equal_fn = equal_long, key_removed_fn = False, k1 = replicate 16 0,
     k2 = replicate 16 0, size = 0, tbl_size = 8, tbl = replicate 8 entry_zero, refcount = 1 \<rparr>"

lemma zero_table_new: "sd_hash_table_new (\<lambda>_. True) (replicate 8 0) SD_HASH_LONG_KEY False = Some zero_table"
proof -
  have "long_bytes (ucast (0 :: 32 word)) = replicate 8 0"
    by (simp add: long_bytes_def upt_rec numeral_eq_Suc)
  then have "key_bytes (replicate 8 0) = replicate 16 0" "key_bytes (drop 4 (replicate 8 0)) = replicate 16 0"
    by (simp_all add: key_bytes_def numeral_eq_Suc)
  then show ?thesis by (simp add: sd_hash_table_new_def zero_table_def INIT_SIZE_def)
qed

lemma sd_hash_table_insert_refines_witness:
  "\<exists>t'. sd_hash_table_insert (\<lambda>n. n < 2 ^ 60) (Some zero_table) 2 7 = Inr (Some t') \<and> view t' 2 = Some 7"
proof -
  have "ht_inv zero_table" using new_table_inv [OF zero_table_new] by blast
  from sd_hash_table_insert_refines [OF this, of "\<lambda>n. n < 2 ^ 60" 2 7] show ?thesis
    by (auto simp: zero_table_def)
qed

text \<open>
  C19. What a client sees of a new table after any list of insertions: a lookup gives the value
  last inserted for the key, and null and not found when there was none; the size is the number of
  different keys.
\<close>

theorem sd_hash_table_session:
  assumes "sd_hash_table_new alloc rand ty r = Some t0"
    "puts (insert_in 2 (\<lambda>n. n < 2 ^ 60 \<and> alloc n)) xs t0 = Inr t"
  shows "sd_hash_table_lookup t key =
      Inr (case map_of (rev xs) key of None \<Rightarrow> (0, False) | Some v \<Rightarrow> (v, True)) \<and>
    sd_hash_table_contains t key = Inr (key \<in> fst ` set xs) \<and>
    sd_hash_table_size t = card (fst ` set xs)"
proof -
  have t0: "ht_inv t0" "view t0 = Map.empty" using new_table_inv [OF assms(1)] by simp_all
  have t: "ht_inv t" "view t = map_of (rev xs)" using table.puts_contents [OF t0(1) assms(2)] t0(2) by simp_all
  have "(map_of (rev xs) key \<noteq> None) = (key \<in> fst ` set xs)" by (simp add: map_of_eq_None_iff)
  moreover have "dom (map_of (rev xs)) = fst ` set xs" by (simp add: dom_map_of_conv_image_fst)
  ultimately show ?thesis
    using lookup_view [OF t(1), of key] size_view [OF t(1)] t(2) by (simp add: sd_hash_table_size_def)
qed

lemma zeros: "replicate 16 (0 :: 8 word) = [0, 0, 0, 0, 0, 0, 0, 0, 0, 0, 0, 0, 0, 0, 0, 0]"
  by (simp add: numeral_eq_Suc)

text \<open>Two keys of the same cell.\<close>

lemma hash_zero:
  "hash_long (replicate 16 0) 0 = 0x81d23fd7003c2305"
  "hash_long (replicate 16 0) 8 = 0xb70f89b4eb8b760d"
  by (simp_all add: hash_long_def long_bytes_def fnv_step_def upt_rec zeros)

definition one_entry :: hash_table where
  "one_entry = put_entry zero_table 5 0 7"

definition two_entries :: hash_table where
  "two_entries = put_entry one_entry 6 8 9"

lemma few_entries: "\<not> too_full (Suc (Suc 0)) 8" "\<not> too_full 3 8"
  using half_full [of 2 "Suc (Suc 0)"] half_full [of 2 3] by simp_all

lemma zero_cells: "cell zero_table 0 0 = 5" "cell zero_table 8 0 = 5" "cell zero_table 8 (Suc 0) = 6"
  by (simp_all add: cell_def zero_table_def hash_zero)

lemma entry_cells: "cell one_entry = cell zero_table" "cell two_entries = cell zero_table"
  by (simp_all add: one_entry_def two_entries_def)

lemma zero_inv: "ht_inv zero_table"
  using new_table_inv [OF zero_table_new] by blast

lemma zero_tbl: "tbl zero_table = [entry_zero, entry_zero, entry_zero, entry_zero, entry_zero, entry_zero, entry_zero, entry_zero]"
  "tbl_size zero_table = 8" "size zero_table = 0"
  by (simp_all add: zero_table_def numeral_eq_Suc)

lemma entries_tbl:
  "tbl one_entry = [entry_zero, entry_zero, entry_zero, entry_zero, entry_zero,
     \<lparr> in_use = True, ekey = 0, evalue = 7 \<rparr>, entry_zero, entry_zero]"
  "tbl two_entries = [entry_zero, entry_zero, entry_zero, entry_zero, entry_zero,
     \<lparr> in_use = True, ekey = 0, evalue = 7 \<rparr>, \<lparr> in_use = True, ekey = 8, evalue = 9 \<rparr>, entry_zero]"
  "size one_entry = 1" "size two_entries = 2" "tbl_size one_entry = 8" "tbl_size two_entries = 8"
  "key_removed_fn two_entries = False"
  by (simp_all add: one_entry_def two_entries_def put_entry_def zero_tbl entry_zero_def) (simp add: zero_table_def)

lemma insert_two:
  "insert_in (Suc n) alloc zero_table 0 7 = Inr one_entry" "insert_in (Suc n) alloc one_entry 8 9 = Inr two_entries"
  "ht_inv one_entry" "ht_inv two_entries"
proof -
  have s0: "stops zero_table 0 0" by (simp add: stops_def passed_def zero_cells zero_tbl entry_zero_def)
  have f0: "\<not> in_use (tbl zero_table ! 5)" "\<not> too_full (size one_entry + 1) (tbl_size zero_table)"
    using few_entries by (simp_all add: zero_tbl entries_tbl entry_zero_def)
  show "insert_in (Suc n) alloc zero_table 0 7 = Inr one_entry"
    using insert_body_put [OF zero_inv s0, of _ 7] f0 by (simp add: zero_cells one_entry_def)
  show i1: "ht_inv one_entry"
    using put_entry_inv [OF zero_inv s0, of one_entry 7] f0 by (simp add: zero_cells one_entry_def)
  have s1: "stops one_entry 8 1"
    by (simp add: stops_def passed_def entry_cells zero_cells entries_tbl entry_zero_def)
  have f1: "\<not> in_use (tbl one_entry ! 6)" "\<not> too_full (size two_entries + 1) (tbl_size one_entry)"
    using few_entries by (simp_all add: entries_tbl entry_zero_def)
  show "insert_in (Suc n) alloc one_entry 8 9 = Inr two_entries"
    using insert_body_put [OF i1 s1, of _ 9] f1 by (simp add: entry_cells zero_cells two_entries_def)
  show "ht_inv two_entries"
    using put_entry_inv [OF i1 s1, of two_entries 9] f1 by (simp add: entry_cells zero_cells two_entries_def)
qed

lemma sd_hash_table_session_witness:
  "sd_hash_table_lookup two_entries 8 = Inr (9, True) \<and> sd_hash_table_size two_entries = card {0 :: key, 8}"
proof -
  have "puts (insert_in 2 (\<lambda>n. n < 2 ^ 60 \<and> True)) [(0, 7), (8, 9)] zero_table = Inr two_entries"
    by (simp add: insert_two numeral_2_eq_2 del: insert_in.simps)
  from sd_hash_table_session [OF zero_table_new this, of 8] show ?thesis by simp
qed

text \<open>
  Removal loses entries: with two keys of the same cell, removing the first makes the second
  unfindable, though the size still counts it.
\<close>

theorem sd_hash_table_remove_loses:
  "\<exists>t. sd_hash_table_insert alloc (Some zero_table) 0 7 = Inr (Some one_entry) \<and>
    sd_hash_table_insert alloc (Some one_entry) 8 9 = Inr (Some two_entries) \<and>
    sd_hash_table_lookup two_entries 8 = Inr (9, True) \<and>
    sd_hash_table_remove two_entries 0 = Inr (t, []) \<and>
    sd_hash_table_lookup t 8 = Inr (0, False) \<and> sd_hash_table_size t = 1"
proof -
  obtain t where t: "t = two_entries\<lparr> tbl := (tbl two_entries)[5 := entry_zero], size := 1 \<rparr>" by blast
  have f: "tbl t = (tbl two_entries)[5 := entry_zero]" "size t = 1" "tbl_size t = 8" "cell t = cell zero_table"
    unfolding t by (simp_all add: entries_tbl) (simp add: cell_def fun_eq_iff two_entries_def one_entry_def put_entry_def)
  have "stops two_entries 0 0"
    by (simp add: stops_def passed_def entry_cells zero_cells entries_tbl)
  from ht_inv_find [OF insert_two(4) this] have r: "sd_hash_table_remove two_entries 0 = Inr (t, [])"
    unfolding t by (simp add: sd_hash_table_remove_def entry_cells zero_cells entries_tbl)
  have "stops t 8 0" by (simp add: stops_def passed_def f zero_cells entries_tbl entry_zero_def)
  moreover have "ht_sized t"
    using insert_two(4) unfolding t by (simp add: ht_inv_def ht_shape_def ht_sized_def)
  ultimately have "ht_find t 8 = Inr 5"
    using ht_find_stops [of t 8 0] by (simp add: f zero_cells)
  then have l: "sd_hash_table_lookup t 8 = Inr (0, False)"
    by (simp add: sd_hash_table_lookup_def f entries_tbl entry_zero_def)
  have "stops two_entries 8 1"
    by (simp add: stops_def passed_def entry_cells zero_cells entries_tbl)
  from ht_inv_find [OF insert_two(4) this] have "sd_hash_table_lookup two_entries 8 = Inr (9, True)"
    by (simp add: sd_hash_table_lookup_def entry_cells zero_cells entries_tbl)
  with r l f(2) show ?thesis
    by (simp add: sd_hash_table_insert_def insert_two numeral_2_eq_2 sd_hash_table_size_def del: insert_in.simps)
qed

text \<open>Iterating to the end, for at most \<open>n\<close> calls.\<close>

primrec iterate :: "nat \<Rightarrow> iter \<Rightarrow> hash_table \<Rightarrow> (key \<times> 64 word) list run" where
  "iterate 0 it t = Inl OutOfFuel"
| "iterate (Suc n) it t =
     rbind (sd_hash_table_iter_next it t) (\<lambda>(r, it).
       case r of None \<Rightarrow> Inr [] | Some kv \<Rightarrow> rbind (iterate n it t) (\<lambda>xs. Inr (kv # xs)))"

lemma next_entry_drop:
  "i + n = length t \<Longrightarrow> \<exists>e j. next_entry t i n = Inr (e, j) \<and> j \<le> length t \<and>
     (case e of None \<Rightarrow> filter in_use (drop i t) = [] | Some x \<Rightarrow> filter in_use (drop i t) = x # filter in_use (drop j t))"
proof (induction n arbitrary: i)
  case (Suc n)
  then have "i < length t" by simp
  then have d: "filter in_use (drop i t) =
      (if in_use (t ! i) then t ! i # filter in_use (drop (Suc i) t) else filter in_use (drop (Suc i) t))"
    by (simp flip: Cons_nth_drop_Suc)
  show ?case
  proof (cases "in_use (t ! i)")
    case True
    with d \<open>i < length t\<close> show ?thesis by (intro exI [of _ "Some (t ! i)"] exI [of _ "i + 1"]) simp
  next
    case False
    then have eq: "filter in_use (drop i t) = filter in_use (drop (Suc i) t)" using d by simp
    show ?thesis unfolding eq using Suc.IH [of "Suc i"] Suc.prems \<open>i < length t\<close> False by simp
  qed
qed simp

lemma iterate_drop:
  "length (tbl t) = tbl_size t \<Longrightarrow> it_size it = size t \<Longrightarrow> it_tbl_size it = tbl_size t \<Longrightarrow>
   length (pairs (drop (it_i it) (tbl t))) < n \<Longrightarrow> it_i it \<le> tbl_size t \<Longrightarrow> iterate n it t = Inr (pairs (drop (it_i it) (tbl t)))"
proof (induction n arbitrary: it)
  case (Suc n)
  show ?case
  proof (cases "it_i it < tbl_size t")
    case False
    with Suc.prems show ?thesis by (simp add: sd_hash_table_iter_next_def)
  next
    case True
    obtain e j where n: "next_entry (tbl t) (it_i it) (tbl_size t - it_i it) = Inr (e, j)" "j \<le> tbl_size t"
      "case e of None \<Rightarrow> filter in_use (drop (it_i it) (tbl t)) = []
        | Some x \<Rightarrow> filter in_use (drop (it_i it) (tbl t)) = x # filter in_use (drop j (tbl t))"
      using next_entry_drop [of "it_i it" "tbl_size t - it_i it" "tbl t"] True Suc.prems(1) by auto
    have step: "sd_hash_table_iter_next it t = Inr (map_option (\<lambda>e. (ekey e, evalue e)) e, it\<lparr> it_i := j \<rparr>)"
      using Suc.prems True n(1) by (simp add: sd_hash_table_iter_next_def)
    show ?thesis
    proof (cases e)
      case None
      with step n show ?thesis by simp
    next
      case (Some x)
      have "iterate n (it\<lparr> it_i := j \<rparr>) t = Inr (pairs (drop j (tbl t)))"
        using Suc.IH [of "it\<lparr> it_i := j \<rparr>"] Suc.prems n Some by simp
      with step n Some show ?thesis by simp
    qed
  qed
qed simp

text \<open>
  Iterating over a table from the start delivers every key once, with its value, and then
  reports the end.
\<close>

theorem sd_hash_table_iteration:
  assumes "ht_inv t"
  shows "\<exists>xs. iterate (size t + 1) (sd_hash_table_iter_init t) t = Inr xs \<and>
    distinct (map fst xs) \<and> map_of xs = view t"
proof -
  have sh: "ht_shape t" using assms by (simp add: ht_inv_def)
  have "iterate (size t + 1) (sd_hash_table_iter_init t) t = Inr (pairs (drop (it_i (sd_hash_table_iter_init t)) (tbl t)))"
    using sh by (intro iterate_drop) (simp_all add: sd_hash_table_iter_init_def ht_shape_def ht_sized_def)
  moreover have "distinct (map ekey (filter in_use (tbl t)))"
    using entry_unique [OF sh] shape_fields [OF sh] by (intro distinct_filter_keys) simp
  ultimately show ?thesis by (simp add: sd_hash_table_iter_init_def view_def comp_def)
qed

lemma sd_hash_table_iteration_witness:
  "\<exists>xs. iterate 3 (sd_hash_table_iter_init two_entries) two_entries = Inr xs \<and> map_of xs 8 = Some 9"
proof -
  have "view two_entries 8 = Some 9" by (simp add: view_def entries_tbl entry_zero_def)
  with sd_hash_table_iteration [OF insert_two(4)] show ?thesis by (auto simp: entries_tbl numeral_eq_Suc simp del: iterate.simps)
qed

end
