(* ===== verification/SipHash.thy ===== *)
theory SipHash
  imports Prelude
begin

text \<open>
  SipHash-2-4 as \<^verbatim>\<open>siphash.c\<close> computes it, on 64-bit words, and its definition by the padded
  message: the loop over whole blocks and the fall-through switch over the rest absorb exactly the
  words of the message padded with zeros and the length byte.
\<close>

unbundle bit_operations_syntax

section \<open>The function\<close>

type_synonym octets = "8 word list"
type_synonym sip = "64 word \<times> 64 word \<times> 64 word \<times> 64 word"

definition ROTL :: "64 word \<Rightarrow> nat \<Rightarrow> 64 word" where
  "ROTL x b = push_bit b x OR drop_bit (64 - b) x"

definition U8TO64_LE :: "octets \<Rightarrow> 64 word" where
  "U8TO64_LE p =
     ucast (p ! 0) OR push_bit 8 (ucast (p ! 1)) OR
     push_bit 16 (ucast (p ! 2)) OR push_bit 24 (ucast (p ! 3)) OR
     push_bit 32 (ucast (p ! 4)) OR push_bit 40 (ucast (p ! 5)) OR
     push_bit 48 (ucast (p ! 6)) OR push_bit 56 (ucast (p ! 7))"

definition U64TO8_LE :: "64 word \<Rightarrow> octets" where
  "U64TO8_LE v = map (\<lambda>i. ucast (drop_bit (8 * i) v)) [0, 1, 2, 3, 4, 5, 6, 7]"

fun SIPROUND :: "sip \<Rightarrow> sip" where
  "SIPROUND (v0, v1, v2, v3) =
     (let v0 = v0 + v1; v1 = ROTL v1 13; v1 = v1 XOR v0; v0 = ROTL v0 32;
          v2 = v2 + v3; v3 = ROTL v3 16; v3 = v3 XOR v2;
          v0 = v0 + v3; v3 = ROTL v3 21; v3 = v3 XOR v0;
          v2 = v2 + v1; v1 = ROTL v1 17; v1 = v1 XOR v2; v2 = ROTL v2 32
      in (v0, v1, v2, v3))"

primrec rounds :: "nat \<Rightarrow> sip \<Rightarrow> sip" where
  "rounds 0 v = v"
| "rounds (Suc n) v = rounds n (SIPROUND v)"

definition cROUNDS :: nat where "cROUNDS = 2"
definition dROUNDS :: nat where "dROUNDS = 4"

text \<open>A word of the message: into \<open>v3\<close>, the rounds, into \<open>v0\<close>.\<close>

fun absorb :: "sip \<Rightarrow> 64 word \<Rightarrow> sip" where
  "absorb (v0, v1, v2, v3) m =
     (case rounds cROUNDS (v0, v1, v2, v3 XOR m) of (v0, v1, v2, v3) \<Rightarrow> (v0 XOR m, v1, v2, v3))"

text \<open>The loop over \<open>n\<close> whole blocks: the state and the rest of the input.\<close>

primrec sip_blocks :: "nat \<Rightarrow> octets \<Rightarrow> sip \<Rightarrow> sip \<times> octets" where
  "sip_blocks 0 inp v = (v, inp)"
| "sip_blocks (Suc n) inp v = sip_blocks n (drop 8 inp) (absorb v (U8TO64_LE inp))"

text \<open>The switch over the number of bytes left: case \<open>n + 1\<close> falls through to case \<open>n\<close>.\<close>

primrec sip_left :: "nat \<Rightarrow> octets \<Rightarrow> 64 word \<Rightarrow> 64 word" where
  "sip_left 0 inp b = b"
| "sip_left (Suc n) inp b = sip_left n inp (b OR push_bit (8 * n) (ucast (inp ! n)))"

definition sip_init :: "octets \<Rightarrow> nat \<Rightarrow> sip" where
  "sip_init k outlen =
     (let k0 = U8TO64_LE k; k1 = U8TO64_LE (drop 8 k);
          v0 = 0x736f6d6570736575 XOR k0; v1 = 0x646f72616e646f6d XOR k1;
          v2 = 0x6c7967656e657261 XOR k0; v3 = 0x7465646279746573 XOR k1
      in (v0, if outlen = 16 then v1 XOR 0xee else v1, v2, v3))"

fun sip_word :: "sip \<Rightarrow> 64 word" where
  "sip_word (v0, v1, v2, v3) = v0 XOR v1 XOR v2 XOR v3"

fun sip_final :: "nat \<Rightarrow> sip \<Rightarrow> octets" where
  "sip_final outlen (v0, v1, v2, v3) =
     (let v = rounds dROUNDS (v0, v1, v2 XOR (if outlen = 16 then 0xee else 0xff), v3);
          out = U64TO8_LE (sip_word v)
      in if outlen = 8 then out
         else (case v of (v0, v1, v2, v3) \<Rightarrow> out @ U64TO8_LE (sip_word (rounds dROUNDS (v0, v1 XOR 0xdd, v2, v3)))))"

text \<open>The bytes written to \<open>out\<close>; the key has sixteen bytes.\<close>

definition siphash :: "octets \<Rightarrow> octets \<Rightarrow> nat \<Rightarrow> octets run" where
  "siphash inp k outlen =
     (if outlen \<noteq> 8 \<and> outlen \<noteq> 16 then Inl Aborts
      else if length k < 16 then Inl OutOfBounds
      else
        (let (v, rest) = sip_blocks (length inp div 8) inp (sip_init k outlen);
             b = sip_left (length inp mod 8) rest (push_bit 56 (of_nat (length inp)))
         in Inr (sip_final outlen (absorb v b))))"

section \<open>The padded message\<close>

fun le_words :: "octets \<Rightarrow> 64 word list" where
  "le_words xs = (if length xs < 8 then [] else U8TO64_LE xs # le_words (drop 8 xs))"

declare le_words.simps [simp del]

definition sip_pad :: "octets \<Rightarrow> octets" where
  "sip_pad inp = inp @ replicate (7 - length inp mod 8) 0 @ [of_nat (length inp)]"

definition sip_spec :: "octets \<Rightarrow> octets \<Rightarrow> nat \<Rightarrow> octets" where
  "sip_spec inp k outlen = sip_final outlen (foldl absorb (sip_init k outlen) (le_words (sip_pad inp)))"

lemma U8TO64_LE_append: "8 \<le> length p \<Longrightarrow> U8TO64_LE (p @ q) = U8TO64_LE p"
proof -
  assume "8 \<le> length p"
  then have "(p @ q) ! i = p ! i" if "i < 8" for i using that by (simp add: nth_append)
  then show ?thesis unfolding U8TO64_LE_def by simp
qed

lemma length_byte: "push_bit 56 (ucast (of_nat n :: 8 word)) = (push_bit 56 (of_nat n) :: 64 word)"
  by (rule bit_word_eqI) (auto simp: bit_push_bit_iff unsigned_of_nat bit_of_nat_iff bit_take_bit_iff)

lemma length_byte_mult: "ucast (of_nat n :: 8 word) * 72057594037927936 = (of_nat n * 72057594037927936 :: 64 word)"
  using length_byte [of n] by (simp add: push_bit_eq_mult)

lemma sip_left_pad:
  assumes "length inp < 8"
  shows "sip_left (length inp) inp (push_bit 56 (of_nat n)) =
    U8TO64_LE (inp @ replicate (7 - length inp) 0 @ [of_nat n])"
proof -
  consider "inp = []" | a where "inp = [a]" | a b where "inp = [a, b]" | a b c where "inp = [a, b, c]"
    | a b c d where "inp = [a, b, c, d]" | a b c d e where "inp = [a, b, c, d, e]"
    | a b c d e f where "inp = [a, b, c, d, e, f]" | a b c d e f g where "inp = [a, b, c, d, e, f, g]"
    using assms by (auto simp: less_Suc_eq numeral_eq_Suc length_Suc_conv)
  then show ?thesis
    by cases (simp_all add: U8TO64_LE_def length_byte_mult numeral_eq_Suc ac_simps)
qed

lemma sip_blocks_words:
  "length inp div 8 = n \<Longrightarrow> \<exists>rest. sip_blocks n inp v = (foldl absorb v (le_words (take (8 * n) inp)), rest) \<and>
     rest = drop (8 * n) inp"
proof (induction n arbitrary: inp v)
  case 0
  then show ?case by (simp add: le_words.simps [of "[]"])
next
  case (Suc n)
  have "8 \<le> length inp" using Suc.prems by (cases "length inp < 8") simp_all
  then have l: "8 \<le> length inp" "length (drop 8 inp) div 8 = n" using Suc.prems by (simp_all add: le_div_geq)
  have "le_words (take (8 * Suc n) inp) = U8TO64_LE inp # le_words (take (8 * n) (drop 8 inp))"
  proof -
    have "8 * Suc n \<le> length inp" using Suc.prems div_times_less_eq_dividend [of "length inp" 8] by simp
    moreover have "U8TO64_LE (take (8 * Suc n) inp) = U8TO64_LE inp"
      using U8TO64_LE_append [of "take (8 * Suc n) inp" "drop (8 * Suc n) inp"] calculation by simp
    moreover have "drop 8 (take (8 * Suc n) inp) = take (8 * n) (drop 8 inp)" by (simp add: drop_take)
    ultimately show ?thesis by (subst le_words.simps) simp
  qed
  with Suc.IH [OF l(2)] show ?case by (simp add: add.commute)
qed

lemma le_words_append:
  "length xs = 8 * n \<Longrightarrow> le_words (xs @ ys) = le_words xs @ le_words ys"
proof (induction n arbitrary: xs)
  case 0
  then show ?case by (simp add: le_words.simps [of "[]"])
next
  case (Suc n)
  then have "le_words (xs @ ys) = U8TO64_LE xs # le_words (drop 8 xs @ ys)"
    by (subst le_words.simps) (simp add: U8TO64_LE_append)
  moreover have "le_words xs = U8TO64_LE xs # le_words (drop 8 xs)"
    using Suc.prems by (subst le_words.simps) simp
  ultimately show ?case using Suc by simp
qed

lemma le_words_8: "length xs = 8 \<Longrightarrow> le_words xs = [U8TO64_LE xs]"
  by (simp add: le_words.simps [of xs] le_words.simps [of "[]"])

text \<open>The states on the way to the test vector of the SipHash paper: key 00..0f, message 00..0e.\<close>

lemma rounds_unfold: "rounds 2 v = SIPROUND (SIPROUND v)" "rounds 4 v = SIPROUND (SIPROUND (SIPROUND (SIPROUND v)))"
  by (simp_all only: numeral_eq_Suc rounds.simps pred_numeral_simps BitM.simps)

lemma vector_absorb:
  "absorb (0x7469686173716475, 0x6b617f6d656e6665, 0x6b7f62616d677361, 0x7b6b696e727e6c7b) 0x706050403020100 =
    (0x4a017198de0a59e0, 0xd52f6f62a4f59a4, 0x634cb3577b01fd3d, 0xa5224d6f55c7d9c8)"
  "absorb (0x4a017198de0a59e0, 0xd52f6f62a4f59a4, 0x634cb3577b01fd3d, 0xa5224d6f55c7d9c8) 0xf0e0d0c0b0a0908 =
    (0x3c85b3ab6f55be51, 0x414fc3fb98efe374, 0xccf13ea527b9f4bd, 0x5293f5da84008f82)"
  by (simp_all add: cROUNDS_def rounds_unfold ROTL_def)

lemma vector_final:
  "sip_final 8 (0x3c85b3ab6f55be51, 0x414fc3fb98efe374, 0xccf13ea527b9f4bd, 0x5293f5da84008f82) = [0xe5, 0x45, 0xbe, 0x49, 0x61, 0xca, 0x29, 0xa1]"
  by (simp add: dROUNDS_def rounds_unfold ROTL_def U64TO8_LE_def)



end
