(* ===== verification/Chacha.thy ===== *)
theory Chacha
  imports Prelude
begin

text \<open>
  The ChaCha key stream of \<^verbatim>\<open>compat/chacha_private.h\<close>, as it is compiled for the random number
  generator (\<open>KEYSTREAM_ONLY\<close>), and its definition by blocks: the loop that carries the sixteen
  words of the state and steps the counter with a carry writes the blocks of successive values of
  one 64-bit counter.
\<close>

unbundle bit_operations_syntax

section \<open>Words and rounds\<close>

type_synonym u8 = "8 word"
type_synonym u32 = "32 word"

record chacha_ctx =
  input :: "u32 list"

definition ROTL32 :: "u32 \<Rightarrow> nat \<Rightarrow> u32" where
  "ROTL32 v n = push_bit n v OR drop_bit (32 - n) v"

definition U8TO32_LITTLE :: "u8 list \<Rightarrow> u32" where
  "U8TO32_LITTLE p =
     ucast (p ! 0) OR push_bit 8 (ucast (p ! 1)) OR push_bit 16 (ucast (p ! 2)) OR push_bit 24 (ucast (p ! 3))"

definition U32TO8_LITTLE :: "u32 \<Rightarrow> u8 list" where
  "U32TO8_LITTLE v = [ucast v, ucast (drop_bit 8 v), ucast (drop_bit 16 v), ucast (drop_bit 24 v)]"

text \<open>A line of the macro, and the macro on the variables \<open>a\<close>, \<open>b\<close>, \<open>c\<close>, \<open>d\<close> of the sixteen.\<close>

definition qr_line :: "nat \<Rightarrow> nat \<Rightarrow> nat \<Rightarrow> nat \<Rightarrow> u32 list \<Rightarrow> u32 list" where
  "qr_line a b d n x = (let x = x[a := x ! a + x ! b] in x[d := ROTL32 (x ! d XOR x ! a) n])"

definition QUARTERROUND :: "nat \<Rightarrow> nat \<Rightarrow> nat \<Rightarrow> nat \<Rightarrow> u32 list \<Rightarrow> u32 list" where
  "QUARTERROUND a b c d x =
     (let x = qr_line a b d 16 x; x = qr_line c d b 12 x; x = qr_line a b d 8 x in qr_line c d b 7 x)"

definition double_round :: "u32 list \<Rightarrow> u32 list" where
  "double_round x =
     (let x = QUARTERROUND 0 4 8 12 x; x = QUARTERROUND 1 5 9 13 x;
          x = QUARTERROUND 2 6 10 14 x; x = QUARTERROUND 3 7 11 15 x;
          x = QUARTERROUND 0 5 10 15 x; x = QUARTERROUND 1 6 11 12 x;
          x = QUARTERROUND 2 7 8 13 x
      in QUARTERROUND 3 4 9 14 x)"

text \<open>The loop \<open>for (i = 20; i > 0; i -= 2)\<close>.\<close>

fun rounds_loop :: "nat \<Rightarrow> u32 list \<Rightarrow> u32 list" where
  "rounds_loop i x = (if i > 0 then rounds_loop (i - 2) (double_round x) else x)"

declare rounds_loop.simps [simp del]

section \<open>Key, nonce and stream\<close>

definition sigma :: "u8 list" where
  "sigma = map (\<lambda>c. of_nat (of_char c)) ''expand 32-byte k''"

definition tau :: "u8 list" where
  "tau = map (\<lambda>c. of_nat (of_char c)) ''expand 16-byte k''"

text \<open>The key has \<open>kbits / 8\<close> bytes; a shorter one is read past its end.\<close>

definition chacha_keysetup :: "chacha_ctx \<Rightarrow> u8 list \<Rightarrow> nat \<Rightarrow> chacha_ctx run" where
  "chacha_keysetup x k kbits =
     (let k2 = (if kbits = 256 then drop 16 k else k);
          constants = (if kbits = 256 then sigma else tau)
      in if length k < 16 \<or> length k2 < 16 then Inl OutOfBounds
         else Inr (x\<lparr> input := (input x)
           [4 := U8TO32_LITTLE k, 5 := U8TO32_LITTLE (drop 4 k),
            6 := U8TO32_LITTLE (drop 8 k), 7 := U8TO32_LITTLE (drop 12 k),
            8 := U8TO32_LITTLE k2, 9 := U8TO32_LITTLE (drop 4 k2),
            10 := U8TO32_LITTLE (drop 8 k2), 11 := U8TO32_LITTLE (drop 12 k2),
            0 := U8TO32_LITTLE constants, 1 := U8TO32_LITTLE (drop 4 constants),
            2 := U8TO32_LITTLE (drop 8 constants), 3 := U8TO32_LITTLE (drop 12 constants)] \<rparr>))"

definition chacha_ivsetup :: "chacha_ctx \<Rightarrow> u8 list \<Rightarrow> chacha_ctx run" where
  "chacha_ivsetup x iv =
     (if length iv < 8 then Inl OutOfBounds
      else Inr (x\<lparr> input := (input x)
        [12 := 0, 13 := 0, 14 := U8TO32_LITTLE iv, 15 := U8TO32_LITTLE (drop 4 iv)] \<rparr>))"

text \<open>The counter is the pair of the words 12 and 13.\<close>

definition step_counter :: "u32 list \<Rightarrow> u32 list" where
  "step_counter j =
     (let j = j[12 := j ! 12 + 1] in if j ! 12 = 0 then j[13 := j ! 13 + 1] else j)"

text \<open>
  One pass per block of 64 bytes: the bytes written to \<open>c\<close> and the words \<open>j\<close> at the end. The last
  block, when it is not whole, copies as many bytes from \<open>m\<close> into \<open>tmp\<close> (which nothing reads) and
  is written through \<open>tmp\<close>. In this configuration \<open>m\<close> is not moved along.
\<close>

fun stream_loop :: "u8 list \<Rightarrow> nat \<Rightarrow> u32 list \<Rightarrow> (u8 list \<times> u32 list) run" where
  "stream_loop m n j =
     (if n < 64 \<and> length m < n then Inl OutOfBounds
      else
        (let x = map2 (+) (rounds_loop 20 j) j;
             j = step_counter j;
             block = concat (map U32TO8_LITTLE x)
         in if n \<le> 64 then Inr (take n block, j)
            else rbind (stream_loop m (n - 64) j) (\<lambda>(out, j). Inr (block @ out, j))))"

declare stream_loop.simps [simp del]

text \<open>The context and the contents of \<open>c\<close> afterwards.\<close>

definition chacha_encrypt_bytes ::
  "chacha_ctx \<Rightarrow> u8 list \<Rightarrow> u8 list \<Rightarrow> nat \<Rightarrow> (chacha_ctx \<times> u8 list) run" where
  "chacha_encrypt_bytes x m c n =
     (if n = 0 then Inr (x, c)
      else if length c < n then Inl OutOfBounds
      else rbind (stream_loop m n (input x)) (\<lambda>(out, j).
        Inr (x\<lparr> input := (input x)[12 := j ! 12, 13 := j ! 13] \<rparr>, out @ drop n c)))"

section \<open>The stream by blocks\<close>

definition block :: "u32 list \<Rightarrow> u8 list" where
  "block j = concat (map U32TO8_LITTLE (map2 (+) ((double_round ^^ 10) j) j))"

definition counter :: "u32 list \<Rightarrow> 64 word" where
  "counter j = push_bit 32 (ucast (j ! 13)) OR ucast (j ! 12)"

definition at_counter :: "u32 list \<Rightarrow> 64 word \<Rightarrow> u32 list" where
  "at_counter j k = j[12 := ucast k, 13 := ucast (drop_bit 32 k)]"

definition key_stream :: "u32 list \<Rightarrow> nat \<Rightarrow> u8 list" where
  "key_stream j n = concat (map (\<lambda>i. block (at_counter j (counter j + of_nat i))) [0..<n])"

lemma rounds_loop_even: "rounds_loop (2 * n) x = (double_round ^^ n) x"
proof (induction n arbitrary: x)
  case 0
  show ?case by (simp add: rounds_loop.simps)
next
  case (Suc n)
  have "rounds_loop (2 * Suc n) x = rounds_loop (2 * n) (double_round x)"
    by (subst rounds_loop.simps) simp
  then show ?case using Suc by (simp add: funpow_swap1)
qed

lemma rounds_loop_20: "rounds_loop 20 x = (double_round ^^ 10) x"
  using rounds_loop_even [of 10 x] by simp

lemma length_qr_line [simp]: "length (qr_line a b d n x) = length x"
  by (simp add: qr_line_def Let_def)

lemma length_QUARTERROUND [simp]: "length (QUARTERROUND a b c d x) = length x"
  by (simp add: QUARTERROUND_def Let_def)

lemma length_double_round [simp]: "length (double_round x) = length x"
  by (simp add: double_round_def Let_def)

lemma length_rounds [simp]: "length ((double_round ^^ n) x) = length x"
  by (induction n) simp_all

lemma length_words: "length (concat (map U32TO8_LITTLE ws)) = 4 * length ws"
  by (induction ws) (simp_all add: U32TO8_LITTLE_def)

lemma length_block [simp]: "length j = 16 \<Longrightarrow> length (block j) = 64"
  unfolding block_def length_words by simp

lemma at_counter_counter:
  assumes "length j = 16" shows "at_counter j (counter j) = j"
proof -
  have "ucast (counter j) = j ! 12"
    by (rule bit_word_eqI) (auto simp: counter_def bit_simps)
  moreover have "ucast (drop_bit 32 (counter j)) = j ! 13"
    by (rule bit_word_eqI) (auto simp: counter_def bit_simps dest: bit_imp_le_length)
  ultimately show ?thesis by (simp add: at_counter_def assms)
qed

lemma counter_at_counter:
  assumes "length j = 16" shows "counter (at_counter j k) = k"
  by (rule bit_word_eqI) (auto simp: counter_def at_counter_def assms bit_simps)

lemma length_at_counter [simp]: "length (at_counter j k) = length j"
  by (simp add: at_counter_def)

lemma at_counter_twice [simp]: "at_counter (at_counter j k) k' = at_counter j k'"
  by (simp add: at_counter_def list_update_swap)

text \<open>The carry: the two words are those of the counter plus one.\<close>

lemma unat_counter: "unat (counter j) = unat (j ! 13) * 2 ^ 32 + unat (j ! 12)"
proof -
  have "counter j = push_bit 32 (ucast (j ! 13)) + ucast (j ! 12)"
    unfolding counter_def
    by (subst disjunctive_add) (auto simp: bit_simps dest: bit_imp_le_length)
  moreover have "unat (j ! 12) < 2 ^ 32" "unat (j ! 13) < 2 ^ 32"
    using unsigned_less [of "j ! 12"] unsigned_less [of "j ! 13"] by simp_all
  moreover have "unat (ucast w :: 64 word) = unat w" for w :: u32
    using unsigned_less [of w, where 'a = nat] by (simp add: unsigned_ucast_eq take_bit_nat_eq_self)
  ultimately show ?thesis
    by (simp add: push_bit_eq_mult unat_word_ariths)
qed

lemma div_mod_word: "n mod 2 ^ 64 div 2 ^ 32 mod 2 ^ 32 = n div 2 ^ 32 mod (2 ^ 32 :: nat)"
  using mod_mult2_eq [of n "2 ^ 32" "2 ^ 32"] by simp

lemma step_counter_plus_1:
  assumes "length j = 16" shows "step_counter j = at_counter j (counter j + 1)"
proof -
  let ?lo = "unat (j ! 12)" and ?hi = "unat (j ! 13)"
  have b: "?lo < 2 ^ 32" "?hi < 2 ^ 32"
    using unsigned_less [of "j ! 12"] unsigned_less [of "j ! 13"] by simp_all
  have k: "unat (counter j + 1) = (?hi * 2 ^ 32 + ?lo + 1) mod 2 ^ 64"
    by (simp add: unat_word_ariths unat_counter)
  have lo: "ucast (counter j + 1) = j ! 12 + 1"
    by (simp add: word_unat_eq_iff k unat_word_ariths unat_counter unsigned_ucast_eq take_bit_eq_mod mod_mod_cancel mod_Suc_eq)
  have "unat (ucast (drop_bit 32 (counter j + 1)) :: u32) = (?hi * 2 ^ 32 + ?lo + 1) mod 2 ^ 64 div 2 ^ 32 mod 2 ^ 32"
    by (simp add: unsigned_ucast_eq unat_drop_bit_eq take_bit_eq_mod drop_bit_eq_div k unat_div_distrib)
  also have "\<dots> = (?hi + (?lo + 1) div 2 ^ 32) mod 2 ^ 32"
    using div_mod_word [of "?hi * 2 ^ 32 + (?lo + 1)"] div_mult_self3 [of "2 ^ 32" ?hi "?lo + 1"]
    by (simp only: add.assoc) simp
  also have "\<dots> = (if ?lo + 1 = 2 ^ 32 then (?hi + 1) mod 2 ^ 32 else ?hi)" using b by auto
  also have "\<dots> = unat (if j ! 12 + 1 = 0 then j ! 13 + 1 else j ! 13)" using b
    by (auto simp: word_unat_eq_iff unat_word_ariths)
  finally have hi: "ucast (drop_bit 32 (counter j + 1)) = (if j ! 12 + 1 = 0 then j ! 13 + 1 else j ! 13)"
    by (simp add: word_unat_eq_iff)
  show ?thesis
    by (cases "j ! 12 + 1 = 0")
      (simp_all add: step_counter_def at_counter_def lo hi assms list_update_swap [of 12 13])
qed

lemma at_counter_block:
  assumes "length j = 16"
  shows "concat (map U32TO8_LITTLE (map2 (+) (rounds_loop 20 j) j)) = block (at_counter j (counter j))"
  by (simp add: at_counter_counter assms block_def rounds_loop_20)

lemma key_stream_Suc:
  assumes "length j = 16"
  shows "key_stream j (Suc n) = block j @ key_stream (step_counter j) n"
proof -
  have "[0..<Suc n] = 0 # map Suc [0..<n]" by (simp add: map_Suc_upt upt_conv_Cons)
  then show ?thesis
    by (simp add: key_stream_def step_counter_plus_1 counter_at_counter at_counter_counter assms comp_def ac_simps)
qed

lemma length_key_stream [simp]:
  "length j = 16 \<Longrightarrow> length (key_stream j n) = 64 * n"
  by (induction n) (simp_all add: key_stream_def)

lemma stream_loop_blocks:
  assumes "length j = 16" "0 < n" "n mod 64 \<le> length m"
  shows "stream_loop m n j =
    Inr (take n (key_stream j ((n + 63) div 64)), at_counter j (counter j + of_nat ((n + 63) div 64)))"
  using assms
proof (induction m n j rule: stream_loop.induct)
  case (1 m n j)
  have b: "concat (map U32TO8_LITTLE (map2 (+) (rounds_loop 20 j) j)) = block j"
    using at_counter_block [OF 1(2)] at_counter_counter [OF 1(2)] by simp
  have ok: "\<not> (n < 64 \<and> length m < n)" using 1(4) by auto
  have step: "stream_loop m n j = (if n \<le> 64 then Inr (take n (block j), step_counter j)
      else rbind (stream_loop m (n - 64) (step_counter j)) (\<lambda>(out, j). Inr (block j' @ out, j)))"
    if "j' = j" for j'
    using ok unfolding that by (subst stream_loop.simps) (simp only: Let_def b if_False)
  note step = step [OF refl]
  show ?case
  proof (cases "n \<le> 64")
    case True
    then have "(n + 63) div 64 = 1" using 1(3) by auto
    then show ?thesis using True 1(2) key_stream_Suc [of j 0]
      by (simp add: step step_counter_plus_1 key_stream_def)
  next
    case False
    let ?j = "step_counter j"
    have "(n + 63) div 64 = Suc ((n - 64 + 63) div 64)" using False by auto
    moreover have "stream_loop m (n - 64) ?j = Inr (take (n - 64) (key_stream ?j ((n - 64 + 63) div 64)),
        at_counter ?j (counter ?j + of_nat ((n - 64 + 63) div 64)))"
      using 1(1) [OF ok refl refl refl False] 1(2,4) False
      by (simp add: step_counter_plus_1 mod_if)
    ultimately show ?thesis using False 1(2)
      by (simp add: step key_stream_Suc) (simp add: step_counter_plus_1 counter_at_counter ac_simps)
  qed
qed

lemma encrypt_bytes_stream:
  assumes "length (input x) = 16" "n \<le> length c" "n mod 64 \<le> length m"
  shows "chacha_encrypt_bytes x m c n =
    Inr (x\<lparr> input := at_counter (input x) (counter (input x) + of_nat ((n + 63) div 64)) \<rparr>,
      take n (key_stream (input x) ((n + 63) div 64)) @ drop n c)"
proof (cases "n = 0")
  case True
  then show ?thesis by (simp add: chacha_encrypt_bytes_def at_counter_counter assms(1))
next
  case False
  then show ?thesis using stream_loop_blocks [of "input x" n m] assms
    by (simp add: chacha_encrypt_bytes_def at_counter_def)
qed

section \<open>The rounds on the zero key\<close>

definition qr_rotate :: "nat \<Rightarrow> nat \<Rightarrow> nat \<Rightarrow> u32 list \<Rightarrow> u32 list" where
  "qr_rotate a d n x = x[d := ROTL32 (x ! d XOR x ! a) n]"

lemma qr_line_eval: "qr_line a b d n x = qr_rotate a d n (x[a := x ! a + x ! b])"
  by (simp add: qr_line_def qr_rotate_def Let_def)

lemma QUARTERROUND_eval:
  "QUARTERROUND a b c d x = qr_line c d b 7 (qr_line a b d 8 (qr_line c d b 12 (qr_line a b d 16 x)))"
  by (simp add: QUARTERROUND_def Let_def)

lemma double_round_eval:
  "double_round x =
    QUARTERROUND 3 4 9 14 (QUARTERROUND 2 7 8 13 (QUARTERROUND 1 6 11 12 (QUARTERROUND 0 5 10 15
    (QUARTERROUND 3 7 11 15 (QUARTERROUND 2 6 10 14 (QUARTERROUND 1 5 9 13 (QUARTERROUND 0 4 8 12 x)))))))"
  by (simp add: double_round_def Let_def)

lemmas round_eval = double_round_eval QUARTERROUND_eval qr_line_eval qr_rotate_def ROTL32_def

text \<open>The quarter round test vector of RFC 7539.\<close>

lemma vector_quarter:
  "QUARTERROUND 0 1 2 3 [0x11111111, 0x01020304, 0x9b8d6f43, 0x01234567] =
    [0xea2a92f4, 0xcb1cf8ce, 0x4581472e, 0x5881c4bb]"
  by (simp add: round_eval)

lemma vector_round_1:
  "double_round
     [0x61707865, 0x3320646e, 0x79622d32, 0x6b206574, 0, 0, 0, 0,
      0, 0, 0, 0, 0, 0, 0, 0] =
     [0xe45fd249, 0x1bb820a6, 0xe31a88ea, 0xe667a9fe, 0x2a3bf673, 0x86bf4098, 0x460b500a, 0xfa169886,
      0x538dca0e, 0xc439641, 0xfa16bc, 0x8a08812a, 0x6bbf8b09, 0xc33013d6, 0xbb9f9849, 0x87c62165]"
  by (simp add: round_eval)

lemma vector_round_2:
  "double_round
     [0xe45fd249, 0x1bb820a6, 0xe31a88ea, 0xe667a9fe, 0x2a3bf673, 0x86bf4098, 0x460b500a, 0xfa169886,
      0x538dca0e, 0xc439641, 0xfa16bc, 0x8a08812a, 0x6bbf8b09, 0xc33013d6, 0xbb9f9849, 0x87c62165] =
     [0xb20e0da6, 0x21219e43, 0x79c69196, 0x8eb9d107, 0x28bfa54e, 0xe8a389f, 0x7919a4b4, 0x323f2639,
      0x69727d19, 0x12e796ec, 0xd1875d88, 0x602bb1ec, 0x601c8a8d, 0x18cf3767, 0x60d10ebc, 0x17aa36ca]"
  by (simp add: round_eval)

lemma vector_round_3:
  "double_round
     [0xb20e0da6, 0x21219e43, 0x79c69196, 0x8eb9d107, 0x28bfa54e, 0xe8a389f, 0x7919a4b4, 0x323f2639,
      0x69727d19, 0x12e796ec, 0xd1875d88, 0x602bb1ec, 0x601c8a8d, 0x18cf3767, 0x60d10ebc, 0x17aa36ca] =
     [0x287a2a1, 0xd2dc39ef, 0xf2ecf51e, 0xc3876afe, 0x9276b821, 0x37ccb7a7, 0x1fe6c459, 0xe5f95617,
      0xd7b18523, 0xa0952ff2, 0x131f6ff5, 0x6f38a9cc, 0x5c427a5f, 0x1d928d7b, 0xf4d2b4da, 0x1a640884]"
  by (simp add: round_eval)

lemma vector_round_4:
  "double_round
     [0x287a2a1, 0xd2dc39ef, 0xf2ecf51e, 0xc3876afe, 0x9276b821, 0x37ccb7a7, 0x1fe6c459, 0xe5f95617,
      0xd7b18523, 0xa0952ff2, 0x131f6ff5, 0x6f38a9cc, 0x5c427a5f, 0x1d928d7b, 0xf4d2b4da, 0x1a640884] =
     [0xce7e87d9, 0xa31ffb1b, 0x6f562e4d, 0x3684a3ab, 0xc30e842c, 0x3b7f9ace, 0x88e11b18, 0x1e1a71ef,
      0x72e14c98, 0x416f21b9, 0x6753449f, 0x19566d45, 0xa3424a31, 0x1b086da, 0xb8fd7b38, 0x42fe0c0e]"
  by (simp add: round_eval)

lemma vector_round_5:
  "double_round
     [0xce7e87d9, 0xa31ffb1b, 0x6f562e4d, 0x3684a3ab, 0xc30e842c, 0x3b7f9ace, 0x88e11b18, 0x1e1a71ef,
      0x72e14c98, 0x416f21b9, 0x6753449f, 0x19566d45, 0xa3424a31, 0x1b086da, 0xb8fd7b38, 0x42fe0c0e] =
     [0x4e03490c, 0x97eebef9, 0xf682bb04, 0x2f47e3b0, 0x50b4761b, 0xea7c9cf0, 0xb3a3e583, 0xe5bad8a8,
      0x4f9f9d79, 0x44f52393, 0xabbfaf66, 0x5efd347a, 0xb1f55cb5, 0x5110aed, 0x561c5907, 0xd41d25b4]"
  by (simp add: round_eval)

lemma vector_round_6:
  "double_round
     [0x4e03490c, 0x97eebef9, 0xf682bb04, 0x2f47e3b0, 0x50b4761b, 0xea7c9cf0, 0xb3a3e583, 0xe5bad8a8,
      0x4f9f9d79, 0x44f52393, 0xabbfaf66, 0x5efd347a, 0xb1f55cb5, 0x5110aed, 0x561c5907, 0xd41d25b4] =
     [0x92a7c36, 0x20d8f099, 0x996bf24f, 0x6a62c0eb, 0xbbc32904, 0x1474e049, 0xa589007e, 0x5f15ae2e,
      0x79f86405, 0xc0e37ad2, 0x3428e82c, 0x798cfaac, 0x2c9f623a, 0x1969dea0, 0x2fe80b61, 0xbe261341]"
  by (simp add: round_eval)

lemma vector_round_7:
  "double_round
     [0x92a7c36, 0x20d8f099, 0x996bf24f, 0x6a62c0eb, 0xbbc32904, 0x1474e049, 0xa589007e, 0x5f15ae2e,
      0x79f86405, 0xc0e37ad2, 0x3428e82c, 0x798cfaac, 0x2c9f623a, 0x1969dea0, 0x2fe80b61, 0xbe261341] =
     [0x6ddf4b98, 0x5fde0110, 0xd9ddb632, 0x7418250b, 0xdda3ea19, 0x46da35f5, 0x31fb36ca, 0x70e56323,
      0x46d58770, 0xc0c8e4e6, 0xba4b1657, 0xc4702b5e, 0xaf4ad6e3, 0xe6947902, 0x2681e5bb, 0x28344e52]"
  by (simp add: round_eval)

lemma vector_round_8:
  "double_round
     [0x6ddf4b98, 0x5fde0110, 0xd9ddb632, 0x7418250b, 0xdda3ea19, 0x46da35f5, 0x31fb36ca, 0x70e56323,
      0x46d58770, 0xc0c8e4e6, 0xba4b1657, 0xc4702b5e, 0xaf4ad6e3, 0xe6947902, 0x2681e5bb, 0x28344e52] =
     [0xf6eb4385, 0xf5070cf, 0x824ac4d4, 0xff026184, 0x71db97dd, 0x60cd994d, 0xad805036, 0x89d591ce,
      0x9e5243f3, 0x16d0ee25, 0x82e92b96, 0xd0da8654, 0x6b96a006, 0x477a37f7, 0xd244fa8c, 0xb24c5c63]"
  by (simp add: round_eval)

lemma vector_round_9:
  "double_round
     [0xf6eb4385, 0xf5070cf, 0x824ac4d4, 0xff026184, 0x71db97dd, 0x60cd994d, 0xad805036, 0x89d591ce,
      0x9e5243f3, 0x16d0ee25, 0x82e92b96, 0xd0da8654, 0x6b96a006, 0x477a37f7, 0xd244fa8c, 0xb24c5c63] =
     [0xa49d0bb, 0xfd73bfeb, 0xc24392d4, 0xe110766d, 0x7c188159, 0x390f8b4d, 0xa23271f, 0xe051682,
      0x5b48a341, 0x861dff7, 0x5d33cdbb, 0x17d4372d, 0xc5d89a0b, 0x9df1402c, 0xb08ab5e0, 0x85488580]"
  by (simp add: round_eval)

lemma vector_round_10:
  "double_round
     [0xa49d0bb, 0xfd73bfeb, 0xc24392d4, 0xe110766d, 0x7c188159, 0x390f8b4d, 0xa23271f, 0xe051682,
      0x5b48a341, 0x861dff7, 0x5d33cdbb, 0x17d4372d, 0xc5d89a0b, 0x9df1402c, 0xb08ab5e0, 0x85488580] =
     [0x4c704011, 0x5d1d8d32, 0x6c08300e, 0xbd9d20df, 0xb819d2bd, 0x1aed8da0, 0xccef36a8, 0xc70d778b,
      0x7c5941da, 0x8d485751, 0x3fe02477, 0x374ad8b8, 0xf4b8436a, 0x1ca11815, 0x69b687c3, 0x8665eeb2]"
  by (simp add: round_eval)

definition zero_input :: "u32 list" where
  "zero_input = [0x61707865, 0x3320646e, 0x79622d32, 0x6b206574, 0, 0, 0, 0, 0, 0, 0, 0, 0, 0, 0, 0]"

lemma zeros_16: "replicate 16 x = [x, x, x, x, x, x, x, x, x, x, x, x, x, x, x, x]"
  by (simp add: eval_nat_numeral)

lemma sigma_bytes: "sigma =
    [0x65, 0x78, 0x70, 0x61, 0x6e, 0x64, 0x20, 0x33, 0x32, 0x2d, 0x62, 0x79, 0x74, 0x65, 0x20, 0x6b]"
  by (simp add: sigma_def)

lemma U8TO32_LITTLE_zeros: "4 \<le> n \<Longrightarrow> U8TO32_LITTLE (replicate n 0) = 0"
  by (simp add: U8TO32_LITTLE_def)

lemma zero_setup:
  "rbind (chacha_keysetup \<lparr> input = replicate 16 0 \<rparr> (replicate 32 0) 256) (\<lambda>x. chacha_ivsetup x (replicate 8 0)) =
    Inr \<lparr> input = zero_input \<rparr>"
proof -
  have "map (\<lambda>n. U8TO32_LITTLE (drop n sigma)) [0, 4, 8, 12] = [0x61707865, 0x3320646e, 0x79622d32, 0x6b206574]"
    by (simp add: sigma_bytes U8TO32_LITTLE_def)
  then show ?thesis
    by (simp add: chacha_keysetup_def chacha_ivsetup_def U8TO32_LITTLE_zeros zero_input_def zeros_16 [of "0 :: u32"])
qed

lemma funpow_10: "(f ^^ 10) x = f (f (f (f (f (f (f (f (f (f x)))))))))"
  by (simp add: eval_nat_numeral)

lemma zero_rounds:
  "(double_round ^^ 10) zero_input =
     [0x4c704011, 0x5d1d8d32, 0x6c08300e, 0xbd9d20df, 0xb819d2bd, 0x1aed8da0, 0xccef36a8, 0xc70d778b,
      0x7c5941da, 0x8d485751, 0x3fe02477, 0x374ad8b8, 0xf4b8436a, 0x1ca11815, 0x69b687c3, 0x8665eeb2]"
  unfolding zero_input_def funpow_10
  by (simp only: vector_round_1 vector_round_2 vector_round_3 vector_round_4 vector_round_5
      vector_round_6 vector_round_7 vector_round_8 vector_round_9 vector_round_10)

text \<open>
  C22. Encrypting writes the key stream into the buffer: the blocks of the successive values of one
  64-bit counter (the carry between its two words included), cut to the length asked for; the rest of
  the buffer is as before, and the context is left at the next value of the counter.
\<close>

theorem chacha_encrypt_bytes_stream:
  assumes "length (input x) = 16" "n \<le> length c" "n mod 64 \<le> length m"
  shows "chacha_encrypt_bytes x m c n =
    Inr (x\<lparr> input := at_counter (input x) (counter (input x) + of_nat ((n + 63) div 64)) \<rparr>,
      take n (key_stream (input x) ((n + 63) div 64)) @ drop n c)"
  using assms by (rule encrypt_bytes_stream)

lemma zero_stream: "take 8 (key_stream zero_input 1) = [118, 184, 224, 173, 160, 241, 61, 144]"
proof -
  have "key_stream zero_input 1 = block zero_input"
    using key_stream_Suc [of zero_input 0] by (simp add: key_stream_def zero_input_def)
  then show ?thesis
    by (simp add: block_def zero_rounds) (simp add: zero_input_def U32TO8_LITTLE_def)
qed

lemma chacha_encrypt_bytes_stream_witness:
  "\<exists>x. rbind (chacha_keysetup \<lparr> input = replicate 16 0 \<rparr> (replicate 32 0) 256) (\<lambda>x. chacha_ivsetup x (replicate 8 0)) =
      Inr x \<and>
    chacha_encrypt_bytes x [0, 0, 0, 0, 0, 0, 0, 0] [0, 0, 0, 0, 0, 0, 0, 0] 8 =
      Inr (x\<lparr> input := (input x)[12 := 1] \<rparr>, [118, 184, 224, 173, 160, 241, 61, 144])"
proof -
  have "at_counter zero_input 1 = zero_input[12 := 1]" "counter zero_input = 0"
    by (simp_all add: at_counter_def counter_def zero_input_def)
  moreover have "chacha_encrypt_bytes \<lparr> input = zero_input \<rparr> [0, 0, 0, 0, 0, 0, 0, 0] [0, 0, 0, 0, 0, 0, 0, 0] 8 =
      Inr (\<lparr> input = at_counter zero_input (counter zero_input + of_nat ((8 + 63) div 64)) \<rparr>,
        take 8 (key_stream zero_input ((8 + 63) div 64)) @ drop 8 [0, 0, 0, 0, 0, 0, 0, 0])"
    by (subst chacha_encrypt_bytes_stream) (simp_all add: zero_input_def)
  ultimately show ?thesis by (simp add: zero_setup zero_stream [unfolded One_nat_def])
qed

end
