(* ===== verification/Arc4random.thy ===== *)
theory Arc4random
  imports Chacha
begin

text \<open>
  The random number generator of \<^verbatim>\<open>compat/arc4random.c\<close> with the fork detection of
  \<^verbatim>\<open>compat/arc4random_linux.h\<close>: a buffer of key stream that is wiped as it is handed out, rekeyed
  from itself and reseeded from the operating system. It never faults, whatever is asked of it; at
  rest no byte handed out and no key is left in the buffer; and it reseeds exactly when it should.

  The operating system is a parameter: what the calls of \<open>getentropy\<close> deliver, counted by \<open>seeds\<close>,
  whether \<open>mmap\<close> succeeds, and the process a call is made in. The lock is left out.
\<close>

section \<open>State\<close>

definition KEYSZ :: nat where "KEYSZ = 32"
definition IVSZ :: nat where "IVSZ = 8"
definition BLOCKSZ :: nat where "BLOCKSZ = 64"
definition RSBUFSZ :: nat where "RSBUFSZ = 16 * BLOCKSZ"

lemmas arc4_sizes = KEYSZ_def IVSZ_def BLOCKSZ_def RSBUFSZ_def

record rs_page =
  rs_have :: nat   \<comment> \<open>valid bytes at end of \<open>rs_buf\<close>\<close>
  rs_count :: nat  \<comment> \<open>bytes till reseed\<close>

record rsx_page =
  rs_chacha :: chacha_ctx
  rs_buf :: "u8 list"

text \<open>The static variables, and the number of calls of \<open>getentropy\<close> so far.\<close>

record arc4 =
  rs :: "rs_page option"
  rsx :: "rsx_page option"
  rs_pid :: int
  rs_forked :: bool
  seeds :: nat

record os =
  getentropy :: "nat \<Rightarrow> u8 list option"
  mmap_ok :: bool

definition arc4_start :: arc4 where
  "arc4_start = \<lparr> rs = None, rsx = None, rs_pid = 0, rs_forked = False, seeds = 0 \<rparr>"

definition rs_zero :: rs_page where
  "rs_zero = \<lparr> rs_have = 0, rs_count = 0 \<rparr>"

definition rsx_zero :: rsx_page where
  "rsx_zero = \<lparr> rs_chacha = \<lparr> input = replicate 16 0 \<rparr>, rs_buf = replicate RSBUFSZ 0 \<rparr>"

section \<open>Operations\<close>

text \<open>Anonymous pages are zero. When there are none the caller aborts.\<close>

definition rs_allocate :: "os \<Rightarrow> arc4 \<Rightarrow> arc4 option" where
  "rs_allocate os st =
     (if mmap_ok os then Some (st\<lparr> rs := Some rs_zero, rsx := Some rsx_zero \<rparr>) else None)"

definition rs_forkhandler :: "arc4 \<Rightarrow> arc4" where
  "rs_forkhandler st = st\<lparr> rs_forked := True \<rparr>"

definition rs_forkdetect :: "int \<Rightarrow> arc4 \<Rightarrow> arc4" where
  "rs_forkdetect pid st =
     (if rs_pid st = 0 \<or> rs_pid st \<noteq> pid \<or> rs_forked st
      then st\<lparr> rs_pid := pid, rs_forked := False, rs := map_option (\<lambda>_. rs_zero) (rs st) \<rparr>
      else st)"

definition rs_init :: "os \<Rightarrow> u8 list \<Rightarrow> nat \<Rightarrow> arc4 \<Rightarrow> arc4 run" where
  "rs_init os buf n st =
     (if n < KEYSZ + IVSZ then Inr st
      else rbind (case rs st of
              None \<Rightarrow> (case rs_allocate os st of None \<Rightarrow> Inl Aborts | Some st \<Rightarrow> Inr st)
            | Some r \<Rightarrow> Inr st) (\<lambda>st.
        case rsx st of
          None \<Rightarrow> Inl NullDeref
        | Some x \<Rightarrow>
            rbind (chacha_keysetup (rs_chacha x) buf (KEYSZ * 8)) (\<lambda>c.
            rbind (chacha_ivsetup c (drop KEYSZ buf)) (\<lambda>c.
              Inr (st\<lparr> rsx := Some (x\<lparr> rs_chacha := c \<rparr>) \<rparr>)))))"

text \<open>\<open>buf[i] ^= dat[i]\<close> for the first \<open>m\<close> bytes.\<close>

definition mix_in :: "nat \<Rightarrow> u8 list \<Rightarrow> u8 list \<Rightarrow> u8 list run" where
  "mix_in m dat buf =
     (if length dat < m \<or> length buf < m then Inl OutOfBounds
      else Inr (map2 (XOR) (take m buf) (take m dat) @ drop m buf))"

text \<open>The last lines of \<open>_rs_rekey\<close>: the new key is wiped, the rest of the buffer may be handed out.\<close>

definition rekey_done :: "arc4 \<Rightarrow> arc4 run" where
  "rekey_done st =
     (case (rs st, rsx st) of
        (Some r, Some x) \<Rightarrow>
          Inr (st\<lparr> rs := Some (r\<lparr> rs_have := RSBUFSZ - KEYSZ - IVSZ \<rparr>),
                   rsx := Some (x\<lparr> rs_buf := replicate (KEYSZ + IVSZ) 0 @ drop (KEYSZ + IVSZ) (rs_buf x) \<rparr>) \<rparr>)
      | _ \<Rightarrow> Inl NullDeref)"

definition rs_rekey :: "os \<Rightarrow> u8 list option \<Rightarrow> nat \<Rightarrow> arc4 \<Rightarrow> arc4 run" where
  "rs_rekey os dat datlen st =
     (case rsx st of
        None \<Rightarrow> Inl NullDeref
      | Some x \<Rightarrow>
          rbind (chacha_encrypt_bytes (rs_chacha x) (rs_buf x) (rs_buf x) RSBUFSZ) (\<lambda>(c, buf).
          rbind (case dat of
              None \<Rightarrow> Inr buf
            | Some dat \<Rightarrow> mix_in (min datlen (KEYSZ + IVSZ)) dat buf) (\<lambda>buf.
          rbind (rs_init os buf (KEYSZ + IVSZ) (st\<lparr> rsx := Some \<lparr> rs_chacha = c, rs_buf = buf \<rparr> \<rparr>))
            rekey_done)))"

text \<open>Without entropy the process kills itself.\<close>

definition rs_stir :: "os \<Rightarrow> arc4 \<Rightarrow> arc4 run" where
  "rs_stir os st =
     (case getentropy os (seeds st) of
        None \<Rightarrow> Inl Aborts
      | Some rnd \<Rightarrow>
          rbind (case rs st of
              None \<Rightarrow> rs_init os rnd (KEYSZ + IVSZ) (st\<lparr> seeds := seeds st + 1 \<rparr>)
            | Some r \<Rightarrow> rs_rekey os (Some rnd) (KEYSZ + IVSZ) (st\<lparr> seeds := seeds st + 1 \<rparr>)) (\<lambda>st.
            case (rs st, rsx st) of
              (Some r, Some x) \<Rightarrow>
                Inr (st\<lparr> rs := Some \<lparr> rs_have = 0, rs_count = 1600000 \<rparr>,
                         rsx := Some (x\<lparr> rs_buf := replicate RSBUFSZ 0 \<rparr>) \<rparr>)
            | _ \<Rightarrow> Inl NullDeref))"

definition rs_stir_if_needed :: "os \<Rightarrow> int \<Rightarrow> nat \<Rightarrow> arc4 \<Rightarrow> arc4 run" where
  "rs_stir_if_needed os pid len st =
     (let st = rs_forkdetect pid st
      in rbind (if (case rs st of None \<Rightarrow> True | Some r \<Rightarrow> rs_count r \<le> len) then rs_stir os st else Inr st) (\<lambda>st.
           case rs st of
             None \<Rightarrow> Inl NullDeref
           | Some r \<Rightarrow>
               Inr (st\<lparr> rs := Some (r\<lparr> rs_count := if rs_count r \<le> len then 0 else rs_count r - len \<rparr>) \<rparr>)))"

text \<open>Copying \<open>m\<close> bytes of key stream to the caller and wiping them, as both users do it.\<close>

definition hand_out :: "nat \<Rightarrow> arc4 \<Rightarrow> (u8 list \<times> arc4) run" where
  "hand_out m st =
     (case (rs st, rsx st) of
        (Some r, Some x) \<Rightarrow>
          (let off = RSBUFSZ - rs_have r
           in if RSBUFSZ < rs_have r \<or> rs_have r < m then Inl OutOfBounds
              else Inr (take m (drop off (rs_buf x)),
                st\<lparr> rs := Some (r\<lparr> rs_have := rs_have r - m \<rparr>),
                    rsx := Some (x\<lparr> rs_buf := take off (rs_buf x) @ replicate m 0 @ drop (off + m) (rs_buf x) \<rparr>) \<rparr>))
      | _ \<Rightarrow> Inl NullDeref)"

definition bytes_left :: "arc4 \<Rightarrow> nat" where
  "bytes_left st = (case rs st of None \<Rightarrow> 0 | Some r \<Rightarrow> rs_have r)"

lemma rekey_done_left: "rekey_done st = Inr st' \<Longrightarrow> bytes_left st' = 984"
  by (auto simp: rekey_done_def bytes_left_def arc4_sizes split: option.splits)

lemma rs_rekey_left: "rs_rekey os dat n st = Inr st' \<Longrightarrow> bytes_left st' = 984"
  unfolding rs_rekey_def
  by (auto simp: rbind_eq_Inr split: option.split_asm dest: rekey_done_left)

text \<open>The loop of \<open>_rs_random_buf\<close>: the bytes for the caller.\<close>

function random_loop :: "os \<Rightarrow> nat \<Rightarrow> arc4 \<Rightarrow> (u8 list \<times> arc4) run" where
  "random_loop os n st =
     (if n = 0 then Inr ([], st)
      else if rs st = None then Inl NullDeref
      else
        let m = min n (bytes_left st)
        in rbind (if bytes_left st > 0 then hand_out m st else Inr ([], st)) (\<lambda>(bytes, st1).
           rbind (if bytes_left st - m = 0 then rs_rekey os None 0 st1 else Inr st1) (\<lambda>st2.
           rbind (random_loop os (n - m) st2) (\<lambda>(rest, st3). Inr (bytes @ rest, st3)))))"
  by pat_completeness auto
termination
proof (relation "measures [\<lambda>(os, n, st). n, \<lambda>(os, n, st). if bytes_left st = 0 then 1 else 0]", goal_cases)
  case 1
  show ?case by simp
next
  case (2 os n st m p bytes st1 st2)
  then show ?case
    by (cases "bytes_left st = 0") (auto dest: rs_rekey_left)
qed

declare random_loop.simps [simp del]

definition rs_random_buf :: "os \<Rightarrow> int \<Rightarrow> nat \<Rightarrow> arc4 \<Rightarrow> (u8 list \<times> arc4) run" where
  "rs_random_buf os pid n st = rbind (rs_stir_if_needed os pid n st) (random_loop os n)"

definition rs_random_u32 :: "os \<Rightarrow> int \<Rightarrow> arc4 \<Rightarrow> (u32 \<times> arc4) run" where
  "rs_random_u32 os pid st =
     rbind (rs_stir_if_needed os pid 4 st) (\<lambda>st.
     rbind (if bytes_left st < 4 then rs_rekey os None 0 st else Inr st) (\<lambda>st.
     rbind (hand_out 4 st) (\<lambda>(bytes, st). Inr (U8TO32_LITTLE bytes, st))))"

text \<open>The two functions of the interface take and release the lock around these.\<close>

definition arc4random :: "os \<Rightarrow> int \<Rightarrow> arc4 \<Rightarrow> (u32 \<times> arc4) run" where
  "arc4random = rs_random_u32"

definition arc4random_buf :: "os \<Rightarrow> int \<Rightarrow> nat \<Rightarrow> arc4 \<Rightarrow> (u8 list \<times> arc4) run" where
  "arc4random_buf = rs_random_buf"

section \<open>The invariant\<close>

text \<open>The pages are there together; at rest everything before the last \<open>rs_have\<close> bytes is wiped.\<close>

definition arc4_shape :: "arc4 \<Rightarrow> bool" where
  "arc4_shape st = (case (rs st, rsx st) of
       (None, None) \<Rightarrow> True
     | (Some r, Some x) \<Rightarrow> length (input (rs_chacha x)) = 16 \<and> length (rs_buf x) = 1024
     | _ \<Rightarrow> False)"

definition arc4_ok :: "arc4 \<Rightarrow> bool" where
  "arc4_ok st = (case (rs st, rsx st) of
       (None, None) \<Rightarrow> True
     | (Some r, Some x) \<Rightarrow>
         length (input (rs_chacha x)) = 16 \<and> length (rs_buf x) = 1024 \<and> rs_have r \<le> 984 \<and>
         take (1024 - rs_have r) (rs_buf x) = replicate (1024 - rs_have r) 0
     | _ \<Rightarrow> False)"

lemma arc4_ok_shape: "arc4_ok st \<Longrightarrow> arc4_shape st"
  by (simp add: arc4_ok_def arc4_shape_def split: option.splits)

lemma arc4_shape_cases:
  assumes "arc4_shape st"
  obtains (unborn) "rs st = None" "rsx st = None"
  | (pages) r x where "rs st = Some r" "rsx st = Some x" "length (input (rs_chacha x)) = 16" "length (rs_buf x) = 1024"
  using assms that by (auto simp: arc4_shape_def split: option.splits)

text \<open>The operating system delivers the forty bytes asked for, and memory for the two pages.\<close>

definition os_ok :: "os \<Rightarrow> bool" where
  "os_ok os \<longleftrightarrow> mmap_ok os \<and> (\<forall>i. \<exists>rnd. getentropy os i = Some rnd \<and> length rnd = 40)"

lemma chacha_setup_ok:
  assumes "length (input c) = 16" "40 \<le> length buf"
  shows "\<exists>c'. rbind (chacha_keysetup c buf 256) (\<lambda>c. chacha_ivsetup c (drop 32 buf)) = Inr c' \<and> length (input c') = 16"
  using assms by (simp add: chacha_keysetup_def chacha_ivsetup_def Let_def) linarith

lemma rs_init_ok:
  assumes "rs st = Some r" "rsx st = Some x" "length (input (rs_chacha x)) = 16" "40 \<le> length buf"
  shows "\<exists>c. rs_init os buf 40 st = Inr (st\<lparr> rsx := Some (x\<lparr> rs_chacha := c \<rparr>) \<rparr>) \<and> length (input c) = 16"
proof -
  obtain c' where "rbind (chacha_keysetup (rs_chacha x) buf 256) (\<lambda>c. chacha_ivsetup c (drop 32 buf)) = Inr c'"
    "length (input c') = 16"
    using chacha_setup_ok [OF assms(3,4)] by blast
  then show ?thesis using assms
    by (auto simp: rs_init_def arc4_sizes rbind_eq_Inr)
qed

lemma rs_rekey_ok:
  assumes "rs st = Some r" "rsx st = Some x" "length (input (rs_chacha x)) = 16" "length (rs_buf x) = 1024"
    "dat = None \<or> (\<exists>d. dat = Some d \<and> n \<le> length d)"
  shows "\<exists>c tl. rs_rekey os dat n st = Inr (st\<lparr> rs := Some (r\<lparr> rs_have := 984 \<rparr>),
      rsx := Some \<lparr> rs_chacha = c, rs_buf = replicate 40 0 @ tl \<rparr> \<rparr>) \<and>
    length (input c) = 16 \<and> length tl = 984"
proof -
  obtain c out where e: "chacha_encrypt_bytes (rs_chacha x) (rs_buf x) (rs_buf x) 1024 = Inr (c, out)"
      "length (input c) = 16" "length out = 1024"
    using encrypt_bytes_stream [of "rs_chacha x" 1024 "rs_buf x" "rs_buf x"] assms(3,4) by simp
  obtain buf where b: "(case dat of None \<Rightarrow> Inr out | Some d \<Rightarrow> mix_in (min n 40) d out) = Inr buf" "length buf = 1024"
    using assms(5) e(3) by (auto simp: mix_in_def)
  obtain c' where i: "rs_init os buf 40 (st\<lparr> rsx := Some \<lparr> rs_chacha = c, rs_buf = buf \<rparr> \<rparr>) =
      Inr (st\<lparr> rsx := Some \<lparr> rs_chacha = c', rs_buf = buf \<rparr> \<rparr>)" "length (input c') = 16"
    using rs_init_ok [of "st\<lparr> rsx := Some \<lparr> rs_chacha = c, rs_buf = buf \<rparr> \<rparr>" r _ buf os] assms(1) e(2) b(2) by auto
  have "rs_rekey os dat n st = rekey_done (st\<lparr> rsx := Some \<lparr> rs_chacha = c', rs_buf = buf \<rparr> \<rparr>)"
    using assms(2) e(1) b(1) i(1) by (cases dat) (simp_all add: rs_rekey_def arc4_sizes)
  then show ?thesis using assms(1) b(2) i(2)
    by (intro exI [of _ c'] exI [of _ "drop 40 buf"]) (simp add: rekey_done_def arc4_sizes)
qed

lemma rs_stir_ok:
  assumes "arc4_shape st" "os_ok os"
  shows "\<exists>c. rs_stir os st = Inr (st\<lparr> seeds := seeds st + 1, rs := Some \<lparr> rs_have = 0, rs_count = 1600000 \<rparr>,
      rsx := Some \<lparr> rs_chacha = c, rs_buf = replicate 1024 0 \<rparr> \<rparr>) \<and> length (input c) = 16"
proof -
  let ?st = "st\<lparr> seeds := seeds st + 1 \<rparr>"
  obtain rnd where rnd: "getentropy os (seeds st) = Some rnd" "length rnd = 40" "mmap_ok os"
    using assms(2) by (auto simp: os_ok_def)
  from assms(1) show ?thesis
  proof (cases rule: arc4_shape_cases)
    case unborn
    let ?new = "?st\<lparr> rs := Some rs_zero, rsx := Some rsx_zero \<rparr>"
    have "rs_init os rnd 40 ?st = rs_init os rnd 40 ?new"
      using rnd(3) unborn by (simp add: rs_init_def rs_allocate_def arc4_sizes)
    moreover obtain c where "rs_init os rnd 40 ?new = Inr (?new\<lparr> rsx := Some (rsx_zero\<lparr> rs_chacha := c \<rparr>) \<rparr>)"
      "length (input c) = 16"
      using rs_init_ok [of ?new rs_zero rsx_zero rnd os] rnd(2) by (auto simp: rsx_zero_def)
    ultimately show ?thesis using unborn rnd(1)
      by (intro exI [of _ c]) (simp add: rs_stir_def arc4_sizes rsx_zero_def)
  next
    case (pages r x)
    then obtain c tl where "rs_rekey os (Some rnd) 40 ?st = Inr (?st\<lparr> rs := Some (r\<lparr> rs_have := 984 \<rparr>),
        rsx := Some \<lparr> rs_chacha = c, rs_buf = replicate 40 0 @ tl \<rparr> \<rparr>)" "length (input c) = 16"
      using rs_rekey_ok [of ?st r x "Some rnd" 40 os] rnd(2) by auto
    then show ?thesis using pages(1) rnd(1)
      by (intro exI [of _ c]) (simp add: rs_stir_def arc4_sizes)
  qed
qed

text \<open>When a call for \<open>len\<close> bytes in process \<open>pid\<close> has to reseed first.\<close>

definition must_stir :: "int \<Rightarrow> nat \<Rightarrow> arc4 \<Rightarrow> bool" where
  "must_stir pid len st \<longleftrightarrow> rs_pid st = 0 \<or> rs_pid st \<noteq> pid \<or> rs_forked st \<or>
     (case rs st of None \<Rightarrow> True | Some r \<Rightarrow> rs_count r \<le> len)"

lemma rs_stir_if_needed_ok:
  assumes "arc4_ok st" "os_ok os"
  shows "\<exists>st' r. rs_stir_if_needed os pid len st = Inr st' \<and> arc4_ok st' \<and> rs st' = Some r \<and>
    rs_pid st' = pid \<and> \<not> rs_forked st' \<and> seeds st' = seeds st + (if must_stir pid len st then 1 else 0)"
proof -
  let ?st = "rs_forkdetect pid st"
  have sh: "arc4_shape ?st" using arc4_ok_shape [OF assms(1)]
    by (auto simp: rs_forkdetect_def arc4_shape_def split: option.splits)
  have f: "rs_pid ?st = pid" "\<not> rs_forked ?st" "seeds ?st = seeds st"
    by (auto simp: rs_forkdetect_def)
  show ?thesis
  proof (cases "must_stir pid len st")
    case True
    then have "(case rs ?st of None \<Rightarrow> True | Some r \<Rightarrow> rs_count r \<le> len)"
      by (auto simp: must_stir_def rs_forkdetect_def rs_zero_def split: option.splits)
    moreover obtain c where "rs_stir os ?st = Inr (?st\<lparr> seeds := seeds ?st + 1,
        rs := Some \<lparr> rs_have = 0, rs_count = 1600000 \<rparr>,
        rsx := Some \<lparr> rs_chacha = c, rs_buf = replicate 1024 0 \<rparr> \<rparr>)" "length (input c) = 16"
      using rs_stir_ok [OF sh assms(2)] by blast
    ultimately show ?thesis using f True by (auto simp: rs_stir_if_needed_def arc4_ok_def)
  next
    case False
    then have "?st = st" "rs_pid st = pid" by (auto simp: must_stir_def rs_forkdetect_def)
    moreover obtain r x where "rs st = Some r" "rsx st = Some x" "\<not> rs_count r \<le> len"
      using False assms(1) by (auto simp: must_stir_def arc4_ok_def split: option.splits)
    ultimately show ?thesis using f False assms(1) by (auto simp: rs_stir_if_needed_def arc4_ok_def)
  qed
qed

lemma hand_out_ok:
  assumes "arc4_ok st" "rs st = Some r" "m \<le> bytes_left st"
  shows "\<exists>bytes st' r'. hand_out m st = Inr (bytes, st') \<and> length bytes = m \<and> arc4_ok st' \<and> rs st' = Some r' \<and>
    rs_have r' = rs_have r - m \<and> rs_count r' = rs_count r \<and>
    rs_pid st' = rs_pid st \<and> rs_forked st' = rs_forked st \<and> seeds st' = seeds st"
proof -
  obtain x where x: "rsx st = Some x" "length (input (rs_chacha x)) = 16" "length (rs_buf x) = 1024"
      "rs_have r \<le> 984" "take (1024 - rs_have r) (rs_buf x) = replicate (1024 - rs_have r) 0"
    using assms(1,2) by (auto simp: arc4_ok_def split: option.splits)
  have a: "rs_have r - m \<le> 984 \<and> 1024 + m - rs_have r = (1024 - rs_have r) + m" using x(4) assms(2,3) by (auto simp: bytes_left_def)
  moreover have "replicate (1024 + m - rs_have r) 0 = replicate (1024 - rs_have r) 0 @ replicate m (0 :: u8)"
    unfolding conjunct2 [OF a] by (rule replicate_add)
  moreover have "hand_out m st = Inr (take m (drop (1024 - rs_have r) (rs_buf x)),
      st\<lparr> rs := Some (r\<lparr> rs_have := rs_have r - m \<rparr>),
          rsx := Some (x\<lparr> rs_buf := take (1024 - rs_have r) (rs_buf x) @ replicate m 0 @
            drop (1024 - rs_have r + m) (rs_buf x) \<rparr>) \<rparr>)"
    using x assms(2,3) by (simp add: hand_out_def bytes_left_def arc4_sizes Let_def)
  ultimately show ?thesis using x assms(2,3)
    by (simp add: bytes_left_def arc4_ok_def)
qed

lemma rs_rekey_wiped:
  assumes "arc4_ok st" "rs st = Some r"
  shows "\<exists>st' r'. rs_rekey os None 0 st = Inr st' \<and> arc4_ok st' \<and> rs st' = Some r' \<and>
    rs_have r' = 984 \<and> rs_count r' = rs_count r \<and>
    rs_pid st' = rs_pid st \<and> rs_forked st' = rs_forked st \<and> seeds st' = seeds st"
proof -
  obtain x where x: "rsx st = Some x" "length (input (rs_chacha x)) = 16" "length (rs_buf x) = 1024"
    using assms by (auto simp: arc4_ok_def split: option.splits)
  from rs_rekey_ok [OF assms(2) this, of None 0 os] show ?thesis by (auto simp: arc4_ok_def)
qed

lemma random_loop_ok:
  assumes "arc4_ok st" "rs st = Some r"
  shows "\<exists>bytes st' r'. random_loop os n st = Inr (bytes, st') \<and> length bytes = n \<and> arc4_ok st' \<and> rs st' = Some r' \<and>
    rs_count r' = rs_count r \<and> rs_pid st' = rs_pid st \<and> rs_forked st' = rs_forked st \<and> seeds st' = seeds st"
  using assms
proof (induction os n st arbitrary: r rule: random_loop.induct)
  case (1 os n st)
  show ?case
  proof (cases "n = 0")
    case True
    then show ?thesis using 1(2,3) by (simp add: random_loop.simps)
  next
    case False
    let ?m = "min n (bytes_left st)"
    obtain bytes st1 r1 where s1: "(if bytes_left st > 0 then hand_out ?m st else Inr ([], st)) = Inr (bytes, st1)"
        "length bytes = ?m" "arc4_ok st1" "rs st1 = Some r1" "rs_count r1 = rs_count r" "rs_pid st1 = rs_pid st"
        "rs_forked st1 = rs_forked st" "seeds st1 = seeds st"
      using hand_out_ok [OF 1(2,3), of ?m] 1(2,3) by (cases "bytes_left st > 0") auto
    obtain st2 r2 where s2: "(if bytes_left st - ?m = 0 then rs_rekey os None 0 st1 else Inr st1) = Inr st2"
        "arc4_ok st2" "rs st2 = Some r2" "rs_count r2 = rs_count r" "rs_pid st2 = rs_pid st"
        "rs_forked st2 = rs_forked st" "seeds st2 = seeds st"
      using rs_rekey_wiped [OF s1(3,4), of os] s1(3-8) by (cases "bytes_left st - ?m = 0") auto
    have "rs st \<noteq> None" using 1(3) by simp
    from 1(1) [OF False this refl s1(1) refl s2(1,2,3)] show ?thesis
      using False 1(3) s1(1,2) s2 by (subst random_loop.simps) (auto simp: Let_def simp del: if_split)
  qed
qed

section \<open>Requests one after the other\<close>

lemma hand_out_eq:
  assumes "rs st = Some r" "rsx st = Some x" "off + rs_have r = 1024" "m \<le> rs_have r"
  shows "hand_out m st = Inr (take m (drop off (rs_buf x)),
    st\<lparr> rs := Some (r\<lparr> rs_have := rs_have r - m \<rparr>),
        rsx := Some (x\<lparr> rs_buf := take off (rs_buf x) @ replicate m 0 @ drop (off + m) (rs_buf x) \<rparr>) \<rparr>)"
proof -
  have "RSBUFSZ - rs_have r = off" "\<not> RSBUFSZ < rs_have r" using assms(3) by (simp_all add: arc4_sizes)
  then show ?thesis using assms(1,2,4) by (simp add: hand_out_def)
qed

lemma hand_out_add:
  assumes "arc4_ok st" "rs st = Some r" "p + q \<le> bytes_left st"
  shows "hand_out (p + q) st = rbind (hand_out p st) (\<lambda>(xs, st). rbind (hand_out q st) (\<lambda>(ys, st). Inr (xs @ ys, st)))"
proof -
  obtain x where x: "rsx st = Some x" "length (rs_buf x) = 1024" "rs_have r \<le> 984"
    using assms(1,2) by (auto simp: arc4_ok_def split: option.splits)
  have le: "p + q \<le> rs_have r" using assms(2,3) by (simp add: bytes_left_def)
  define off where "off = 1024 - rs_have r"
  have off: "off + rs_have r = 1024" using x(3) by (simp add: off_def)
  define b1 where "b1 = take off (rs_buf x) @ replicate p 0 @ drop (off + p) (rs_buf x)"
  define r1 where "r1 = r\<lparr> rs_have := rs_have r - p \<rparr>"
  define st1 where "st1 = st\<lparr> rs := Some r1, rsx := Some (x\<lparr> rs_buf := b1 \<rparr>) \<rparr>"
  have l: "length (take off (rs_buf x) @ replicate p 0) = off + p" using x(2) off by simp
  have b1: "take q (drop (off + p) b1) = take q (drop (off + p) (rs_buf x))"
    "take (off + p) b1 = take off (rs_buf x) @ replicate p 0"
    "drop (off + p + q) b1 = drop (off + (p + q)) (rs_buf x)"
    unfolding b1_def append_assoc [symmetric] drop_append take_append l by (simp_all add: ac_simps)
  have "hand_out p st = Inr (take p (drop off (rs_buf x)), st1)"
    using hand_out_eq [OF assms(2) x(1) off, of p] le by (simp add: st1_def r1_def b1_def)
  moreover have "hand_out q st1 = Inr (take q (drop (off + p) b1),
      st1\<lparr> rs := Some (r1\<lparr> rs_have := rs_have r1 - q \<rparr>),
          rsx := Some (x\<lparr> rs_buf := take (off + p) b1 @ replicate q 0 @ drop (off + p + q) b1 \<rparr>) \<rparr>)"
    using hand_out_eq [of st1 r1 "x\<lparr> rs_buf := b1 \<rparr>" "off + p" q] off le by (simp add: st1_def r1_def)
  note this [unfolded b1]
  ultimately show ?thesis using hand_out_eq [OF assms(2) x(1) off le]
    by (simp add: take_add replicate_add st1_def r1_def add.commute [of p off])
qed

lemma random_loop_0 [simp]: "random_loop os 0 st = Inr ([], st)"
  by (simp add: random_loop.simps)

lemma rbind_return [simp]: "rbind r Inr = r"
  by (cases r) auto

text \<open>A request below what is left is served from the buffer.\<close>

lemma random_loop_buffered:
  assumes "arc4_ok st" "rs st = Some r" "a < bytes_left st"
  shows "random_loop os a st = hand_out a st"
proof (cases "a = 0")
  case True
  then show ?thesis using assms
    by (auto simp: hand_out_def arc4_ok_def arc4_sizes Let_def split: option.splits)
next
  case False
  then have m: "min a (bytes_left st) = a" "bytes_left st - a \<noteq> 0" "0 < bytes_left st" using assms(3) by simp_all
  have nle: "bytes_left st \<le> a \<longleftrightarrow> False" using assms(3) by simp
  show ?thesis using False assms(2)
    by (subst random_loop.simps) (simp add: m nle Let_def case_prod_beta)
qed

lemma random_loop_add_buffered:
  assumes "arc4_ok st" "rs st = Some r" "a < bytes_left st" "0 < a" "0 < b"
  shows "random_loop os (a + b) st =
    rbind (hand_out a st) (\<lambda>(xs, st). rbind (random_loop os b st) (\<lambda>(ys, st). Inr (xs @ ys, st)))"
proof -
  obtain xs st1 r1 where h: "hand_out a st = Inr (xs, st1)" "arc4_ok st1" "rs st1 = Some r1" "rs_have r1 = rs_have r - a"
    using hand_out_ok [OF assms(1,2), of a] assms(3) by auto
  have left: "bytes_left st = rs_have r" "bytes_left st1 = rs_have r - a" using assms(2) h(3,4) by (simp_all add: bytes_left_def)
  define q where "q = min b (rs_have r - a)"
  have m: "min (a + b) (rs_have r) = a + q" "0 < rs_have r" "rs_have r - a \<noteq> 0" "a + q \<le> rs_have r"
    using assms(3,4) left(1) by (auto simp: q_def)
  have "hand_out (a + q) st = rbind (hand_out q st1) (\<lambda>(ys, st). Inr (xs @ ys, st))"
    using hand_out_add [OF assms(1,2), of a q] m(4) left(1) h(1) by simp
  moreover have "random_loop os (a + b) st = rbind (hand_out (a + q) st) (\<lambda>(bytes, st1).
      rbind (if rs_have r - (a + q) = 0 then rs_rekey os None 0 st1 else Inr st1) (\<lambda>st2.
      rbind (random_loop os (b - q) st2) (\<lambda>(rest, st3). Inr (bytes @ rest, st3))))"
    using assms(2,4) m(2) by (subst random_loop.simps) (simp add: left(1) Let_def m(1))
  moreover have "random_loop os b st1 = rbind (hand_out q st1) (\<lambda>(bytes, st1).
      rbind (if rs_have r - (a + q) = 0 then rs_rekey os None 0 st1 else Inr st1) (\<lambda>st2.
      rbind (random_loop os (b - q) st2) (\<lambda>(rest, st3). Inr (bytes @ rest, st3))))"
    using assms(5) h(3) m(3) by (subst random_loop.simps) (simp add: left(2) Let_def q_def [symmetric])
  ultimately show ?thesis using h(1)
    by (simp add: rbind_assoc case_prod_unfold cong: if_cong)
qed

lemma random_loop_add:
  assumes "arc4_ok st" "rs st = Some r"
  shows "random_loop os (a + b) st =
    rbind (random_loop os a st) (\<lambda>(xs, st). rbind (random_loop os b st) (\<lambda>(ys, st). Inr (xs @ ys, st)))"
  using assms
proof (induction os a st arbitrary: r rule: random_loop.induct)
  case (1 os a st)
  consider "a = 0" | "b = 0" | "0 < b" "0 < a" "a < bytes_left st" | "0 < a" "bytes_left st \<le> a" by linarith
  then show ?case
  proof cases
    case 1
    then show ?thesis by simp
  next
    case 2
    then show ?thesis by simp
  next
    case 3
    from random_loop_add_buffered [OF "1.prems" 3(3,2,1)] random_loop_buffered [OF "1.prems" 3(3)]
    show ?thesis by simp
  next
    case 4
    let ?m = "bytes_left st"
    have m: "min a ?m = ?m" "min (a + b) ?m = ?m" "a + b - ?m = (a - ?m) + b" using 4 by auto
    obtain bytes st1 r1 where s1: "(if ?m > 0 then hand_out ?m st else Inr ([], st)) = Inr (bytes, st1)"
        "arc4_ok st1" "rs st1 = Some r1"
      using hand_out_ok [OF "1.prems", of ?m] "1.prems" by (cases "?m > 0") auto
    obtain st2 r2 where s2: "rs_rekey os None 0 st1 = Inr st2" "arc4_ok st2" "rs st2 = Some r2"
      using rs_rekey_wiped [OF s1(2,3), of os] by auto
    have u: "random_loop os n st = rbind (random_loop os (n - ?m) st2) (\<lambda>(rest, st3). Inr (bytes @ rest, st3))"
      if "?m \<le> n" "n \<noteq> 0" for n
      using that(2) "1.prems"(2) s2(1)
      by (subst random_loop.simps) (simp only: min_absorb2 [OF that(1)] Let_def s1(1), simp)
    have "random_loop os (a - ?m + b) st2 = rbind (random_loop os (a - ?m) st2)
        (\<lambda>(xs, st). rbind (random_loop os b st) (\<lambda>(ys, st). Inr (xs @ ys, st)))"
      using "1.IH" [of ?m "(bytes, st1)" bytes st1 st2 r2] s1(1) s2 4 "1.prems"(2) m(1) by simp
    moreover have n: "?m \<le> a + b" "a + b \<noteq> 0" "a \<noteq> 0" using 4 by simp_all
    ultimately show ?thesis
      by (simp only: u [OF n(1,2)] u [OF 4(2) n(3)] m(3) rbind_assoc case_prod_unfold rbind_Inr fst_conv snd_conv append_assoc)
  qed
qed

text \<open>The count of bytes till the next reseed has no influence on what is handed out.\<close>

definition with_count :: "nat \<Rightarrow> arc4 \<Rightarrow> arc4" where
  "with_count k st = st\<lparr> rs := map_option (\<lambda>r. r\<lparr> rs_count := k \<rparr>) (rs st) \<rparr>"

lemma with_count_simps [simp]:
  "rs (with_count k st) = None \<longleftrightarrow> rs st = None" "bytes_left (with_count k st) = bytes_left st"
  "rsx (with_count k st) = rsx st"
  by (simp_all add: with_count_def bytes_left_def split: option.split)

lemma hand_out_count:
  "hand_out m (with_count k st) = rbind (hand_out m st) (\<lambda>(b, st). Inr (b, with_count k st))"
  by (cases "rs st"; cases "rsx st") (auto simp: hand_out_def with_count_def Let_def)

lemma pages_commute: "st\<lparr> rs := u, rsx := v \<rparr> = st\<lparr> rsx := v, rs := u \<rparr>"
  by simp

lemma rs_init_count:
  assumes "rs st \<noteq> None"
  shows "rs_init os buf n (with_count k st) = rbind (rs_init os buf n st) (\<lambda>st. Inr (with_count k st))"
  using assms by (cases "rsx st") (auto simp: rs_init_def with_count_def rbind_assoc pages_commute)

lemma rekey_done_count: "rekey_done (with_count k st) = rbind (rekey_done st) (\<lambda>st. Inr (with_count k st))"
  by (cases "rs st"; cases "rsx st") (auto simp: rekey_done_def with_count_def)

lemma rs_rekey_count:
  assumes "rs st \<noteq> None"
  shows "rs_rekey os None 0 (with_count k st) = rbind (rs_rekey os None 0 st) (\<lambda>st. Inr (with_count k st))"
proof (cases "rsx st")
  case (Some x)
  have "with_count k st\<lparr> rsx := y \<rparr> = with_count k (st\<lparr> rsx := y \<rparr>)" for y by (simp add: with_count_def)
  then show ?thesis using assms Some
    by (simp add: rs_rekey_def rs_init_count rekey_done_count rbind_assoc case_prod_unfold)
qed (simp add: rs_rekey_def)

lemma random_loop_count:
  assumes "arc4_ok st" "rs st = Some r"
  shows "random_loop os n (with_count k st) = rbind (random_loop os n st) (\<lambda>(b, st). Inr (b, with_count k st))"
  using assms
proof (induction os n st arbitrary: r rule: random_loop.induct)
  case (1 os n st)
  show ?case
  proof (cases "n = 0")
    case True
    then show ?thesis by simp
  next
    case False
    let ?m = "min n (bytes_left st)"
    obtain bytes st1 r1 where s1: "(if bytes_left st > 0 then hand_out ?m st else Inr ([], st)) = Inr (bytes, st1)"
        "arc4_ok st1" "rs st1 = Some r1"
      using hand_out_ok [OF 1(2,3), of ?m] 1(2,3) by (cases "bytes_left st > 0") auto
    obtain st2 r2 where s2: "(if bytes_left st - ?m = 0 then rs_rekey os None 0 st1 else Inr st1) = Inr st2"
        "arc4_ok st2" "rs st2 = Some r2"
      using rs_rekey_wiped [OF s1(2,3), of os] s1(2,3) by (cases "bytes_left st - ?m = 0") auto
    have c1: "(if bytes_left st > 0 then hand_out ?m (with_count k st) else Inr ([], with_count k st)) =
        Inr (bytes, with_count k st1)"
      using s1(1) by (auto simp: hand_out_count split: if_splits)
    have c2: "(if bytes_left st - ?m = 0 then rs_rekey os None 0 (with_count k st1) else Inr (with_count k st1)) =
        Inr (with_count k st2)"
      using s2(1) s1(3) by (auto simp: rs_rekey_count split: if_splits)
    have u: "random_loop os n st = rbind (random_loop os (n - ?m) st2) (\<lambda>(rest, st3). Inr (bytes @ rest, st3))"
      using False 1(3) by (subst random_loop.simps) (simp add: Let_def s1(1) s2(1) del: if_split diff_is_0_eq)
    have v: "random_loop os n (with_count k st) =
        rbind (random_loop os (n - ?m) (with_count k st2)) (\<lambda>(rest, st3). Inr (bytes @ rest, st3))"
      using False 1(3) by (subst random_loop.simps) (simp add: Let_def c1 c2 del: if_split diff_is_0_eq)
    have "rs st \<noteq> None" using 1(3) by simp
    from 1(1) [OF False this refl s1(1) refl s2] show ?thesis
      by (simp only: u v rbind_assoc case_prod_unfold rbind_Inr fst_conv snd_conv)
  qed
qed

section \<open>Properties\<close>

lemma u32_ok:
  assumes "arc4_ok st" "os_ok os"
  shows "\<exists>w st'. arc4random os pid st = Inr (w, st') \<and> arc4_ok st' \<and> rs_pid st' = pid \<and> \<not> rs_forked st' \<and>
    seeds st' = seeds st + (if must_stir pid 4 st then 1 else 0)"
proof -
  obtain st1 r1 where s1: "rs_stir_if_needed os pid 4 st = Inr st1" "arc4_ok st1" "rs st1 = Some r1" "rs_pid st1 = pid"
      "\<not> rs_forked st1" "seeds st1 = seeds st + (if must_stir pid 4 st then 1 else 0)"
    using rs_stir_if_needed_ok [OF assms] by blast
  obtain st2 r2 where s2: "(if bytes_left st1 < 4 then rs_rekey os None 0 st1 else Inr st1) = Inr st2" "arc4_ok st2"
      "rs st2 = Some r2" "4 \<le> bytes_left st2" "rs_pid st2 = pid" "\<not> rs_forked st2" "seeds st2 = seeds st1"
    using rs_rekey_wiped [OF s1(2,3), of os] s1 by (cases "bytes_left st1 < 4") (auto simp: bytes_left_def)
  from hand_out_ok [OF s2(2-4)] s1 s2 show ?thesis
    by (auto simp: arc4random_def rs_random_u32_def simp del: if_split)
qed

lemma buf_ok:
  assumes "arc4_ok st" "os_ok os"
  shows "\<exists>bytes st'. arc4random_buf os pid n st = Inr (bytes, st') \<and> length bytes = n \<and> arc4_ok st' \<and>
    rs_pid st' = pid \<and> \<not> rs_forked st' \<and> seeds st' = seeds st + (if must_stir pid n st then 1 else 0)"
proof -
  obtain st1 r1 where s1: "rs_stir_if_needed os pid n st = Inr st1" "arc4_ok st1" "rs st1 = Some r1" "rs_pid st1 = pid"
      "\<not> rs_forked st1" "seeds st1 = seeds st + (if must_stir pid n st then 1 else 0)"
    using rs_stir_if_needed_ok [OF assms] by blast
  from random_loop_ok [OF s1(2,3), of os n] s1 show ?thesis
    by (auto simp: arc4random_buf_def rs_random_buf_def)
qed

text \<open>A history of the process: calls of the two functions, made in some process, and forks noticed by the handler.\<close>

datatype event = Word_of int | Bytes_of int nat | Forked

fun happens :: "os \<Rightarrow> event \<Rightarrow> arc4 \<Rightarrow> arc4 run" where
  "happens os (Word_of pid) st = rbind (arc4random os pid st) (\<lambda>(w, st). Inr st)"
| "happens os (Bytes_of pid n) st = rbind (arc4random_buf os pid n st) (\<lambda>(b, st). Inr st)"
| "happens os Forked st = Inr (rs_forkhandler st)"

fun history :: "os \<Rightarrow> event list \<Rightarrow> arc4 \<Rightarrow> arc4 run" where
  "history os [] st = Inr st"
| "history os (e # es) st = rbind (happens os e st) (history os es)"

lemma happens_ok: "arc4_ok st \<Longrightarrow> os_ok os \<Longrightarrow> \<exists>st'. happens os e st = Inr st' \<and> arc4_ok st'"
proof (cases e)
  case (Word_of pid)
  assume "arc4_ok st" "os_ok os"
  from u32_ok [OF this, of pid] Word_of show ?thesis by auto
next
  case (Bytes_of pid n)
  assume "arc4_ok st" "os_ok os"
  from buf_ok [OF this, of pid n] Bytes_of show ?thesis by auto
qed (simp add: rs_forkhandler_def arc4_ok_def split: option.splits)

lemma history_ok: "arc4_ok st \<Longrightarrow> os_ok os \<Longrightarrow> \<exists>st'. history os es st = Inr st' \<and> arc4_ok st'"
proof (induction es arbitrary: st)
  case Nil
  then show ?case by simp
next
  case (Cons e es)
  obtain st1 where "happens os e st = Inr st1" "arc4_ok st1" using happens_ok [OF Cons.prems] by blast
  with Cons.IH [of st1] Cons.prems(2) show ?case by auto
qed

definition os_example :: os where
  "os_example = \<lparr> getentropy = (\<lambda>i. Some (replicate 40 (of_nat i))), mmap_ok = True \<rparr>"

lemma os_example_ok: "os_ok os_example"
  by (simp add: os_ok_def os_example_def)

text \<open>
  C21. Whatever calls and forks happen from the start of the program, no call faults or loops, and
  between the calls nothing that was handed out and no key is left in the buffer: everything before
  its last \<open>rs_have\<close> bytes is zero.
\<close>

theorem arc4random_wiped:
  assumes "os_ok os"
  shows "\<exists>st. history os es arc4_start = Inr st \<and>
    (\<forall>r x. rs st = Some r \<and> rsx st = Some x \<longrightarrow>
      length (rs_buf x) = 1024 \<and> rs_have r \<le> 984 \<and>
      take (1024 - rs_have r) (rs_buf x) = replicate (1024 - rs_have r) 0)"
proof -
  have "arc4_ok arc4_start" by (simp add: arc4_ok_def arc4_start_def)
  from history_ok [OF this assms] show ?thesis by (fastforce simp: arc4_ok_def)
qed

lemma arc4random_wiped_witness:
  "\<exists>st. history os_example
     [Bytes_of 7 2000, Word_of 7, Forked, Word_of 8] arc4_start = Inr st"
  using arc4random_wiped [OF os_example_ok] by blast

text \<open>
  A call takes entropy from the operating system once if it is the first, if it is made in
  another process than the last or after the fork handler has run, or if the bytes till the next
  reseed are used up; otherwise not at all.
\<close>

theorem arc4random_reseeds:
  assumes "os_ok os" "history os es arc4_start = Inr st"
  shows "\<exists>bytes st'. arc4random_buf os pid n st = Inr (bytes, st') \<and> length bytes = n \<and>
    seeds st' = seeds st +
      (if rs_pid st = 0 \<or> rs_pid st \<noteq> pid \<or> rs_forked st \<or>
          (case rs st of None \<Rightarrow> True | Some r \<Rightarrow> rs_count r \<le> n) then 1 else 0)"
proof -
  have "arc4_ok arc4_start" by (simp add: arc4_ok_def arc4_start_def)
  then have "arc4_ok st" using history_ok [OF _ assms(1), of arc4_start es] assms(2) by auto
  from buf_ok [OF this assms(1), of pid n] show ?thesis by (auto simp: must_stir_def)
qed

text \<open>
  Between two reseedings the generator hands out one stream: asking for \<open>a\<close> bytes and then for
  \<open>b\<close> bytes gives the bytes, and leaves the state, of asking for \<open>a + b\<close> bytes at once.
\<close>

theorem arc4random_buf_append:
  assumes "os_ok os" "history os es arc4_start = Inr st"
    "rs st = Some r" "a + b < rs_count r" "rs_pid st = pid" "pid \<noteq> 0" "\<not> rs_forked st"
  shows "arc4random_buf os pid (a + b) st =
    rbind (arc4random_buf os pid a st) (\<lambda>(xs, st). rbind (arc4random_buf os pid b st) (\<lambda>(ys, st). Inr (xs @ ys, st)))"
proof -
  have "arc4_ok arc4_start" by (simp add: arc4_ok_def arc4_start_def)
  then have ok: "arc4_ok st" using history_ok [OF _ assms(1), of arc4_start es] assms(2) by auto
  have stir: "rs_stir_if_needed os pid len st' = Inr (with_count (rs_count r' - len) st')"
    if "rs st' = Some r'" "len < rs_count r'" "rs_pid st' = pid" "\<not> rs_forked st'" for len st' r'
    using that assms(6) by (simp add: rs_stir_if_needed_def rs_forkdetect_def with_count_def)
  have buf: "arc4random_buf os pid len st' = rbind (random_loop os len st') (\<lambda>(x, st). Inr (x, with_count (rs_count r' - len) st))"
    if "arc4_ok st'" "rs st' = Some r'" "len < rs_count r'" "rs_pid st' = pid" "\<not> rs_forked st'" for len st' r'
    using stir [OF that(2-5)] random_loop_count [OF that(1,2)] by (simp add: arc4random_buf_def rs_random_buf_def)
  obtain xs st1 r1 where l: "random_loop os a st = Inr (xs, st1)" "arc4_ok st1" "rs st1 = Some r1" "rs_count r1 = rs_count r"
      "rs_pid st1 = pid" "\<not> rs_forked st1"
    using random_loop_ok [OF ok assms(3), of os a] assms(5,7) by auto
  let ?st1 = "with_count (rs_count r - a) st1"
  have "arc4_ok ?st1" "rs ?st1 = Some (r1\<lparr> rs_count := rs_count r - a \<rparr>)" "rs_pid ?st1 = pid" "\<not> rs_forked ?st1"
    using l by (auto simp: with_count_def arc4_ok_def split: option.splits)
  from buf [OF this(1,2) _ this(3,4), of b] buf [OF ok assms(3) _ assms(5,7)] assms(4)
  show ?thesis using l(1) random_loop_count [OF l(2,3)] random_loop_add [OF ok assms(3), of os a b]
    by (simp add: rbind_assoc case_prod_unfold with_count_def option.map_comp comp_def)
qed

lemma first_call:
  assumes "os_ok os"
  shows "\<exists>c. history os [Bytes_of 7 0] arc4_start = Inr \<lparr> rs = Some \<lparr> rs_have = 0, rs_count = 1600000 \<rparr>,
    rsx = Some \<lparr> rs_chacha = c, rs_buf = replicate 1024 0 \<rparr>, rs_pid = 7, rs_forked = False, seeds = 1 \<rparr>"
proof -
  have "arc4_shape (rs_forkdetect 7 arc4_start)" by (simp add: arc4_shape_def rs_forkdetect_def arc4_start_def)
  from rs_stir_ok [OF this assms] show ?thesis
    by (auto simp: arc4random_buf_def rs_random_buf_def rs_stir_if_needed_def rs_forkdetect_def arc4_start_def)
qed

lemma arc4random_reseeds_witness:
  "\<exists>bytes st'. arc4random_buf os_example 7 2000000 arc4_start = Inr (bytes, st') \<and> length bytes = 2000000 \<and> seeds st' = 1"
  using arc4random_reseeds [OF os_example_ok, of "[]" arc4_start 7 2000000] by (simp add: arc4_start_def)

lemma arc4random_buf_append_witness:
  "\<exists>st. history os_example [Bytes_of 7 0] arc4_start = Inr st \<and>
    arc4random_buf os_example 7 (900 + 600) st = rbind (arc4random_buf os_example 7 900 st)
      (\<lambda>(xs, st). rbind (arc4random_buf os_example 7 600 st) (\<lambda>(ys, st). Inr (xs @ ys, st)))"
proof -
  obtain c where h: "history os_example [Bytes_of 7 0] arc4_start = Inr \<lparr> rs = Some \<lparr> rs_have = 0, rs_count = 1600000 \<rparr>,
      rsx = Some \<lparr> rs_chacha = c, rs_buf = replicate 1024 0 \<rparr>, rs_pid = 7, rs_forked = False, seeds = 1 \<rparr>"
    using first_call [OF os_example_ok] by blast
  have "arc4random_buf os_example 7 (900 + 600) st = rbind (arc4random_buf os_example 7 900 st)
      (\<lambda>(xs, st). rbind (arc4random_buf os_example 7 600 st) (\<lambda>(ys, st). Inr (xs @ ys, st)))"
    if "st = \<lparr> rs = Some \<lparr> rs_have = 0, rs_count = 1600000 \<rparr>,
      rsx = Some \<lparr> rs_chacha = c, rs_buf = replicate 1024 0 \<rparr>, rs_pid = 7, rs_forked = False, seeds = 1 \<rparr>" for st
    using arc4random_buf_append [OF os_example_ok h [folded that], of "\<lparr> rs_have = 0, rs_count = 1600000 \<rparr>" 900 600 7]
    by (simp add: that)
  with h show ?thesis by blast
qed

end
