(* ===== verification/Project.thy ===== *)
theory Project
  imports CStrings
begin

text \<open>
  The data model of a project (\<^verbatim>\<open>sd_internal.h\<close>): variables, models, files with their header and
  simulation specification, and the operations of \<^verbatim>\<open>project.c\<close> on them: the lookup of a model by
  name, the addition of a file, the messages of the error codes, and the reference counts.

  A \<open>char *\<close> that may be null is a \<open>cstr option\<close>. A model points to its file; here it keeps the
  file's simulation specification, the only part of the file its users read through that pointer,
  and the project is the one every file of it points back to. The field \<open>model\<close> of a variable is
  never assigned and is left out. Releasing memory is not modelled.
\<close>

section \<open>Data\<close>

datatype var_type = VAR_UNKNOWN | VAR_STOCK | VAR_FLOW | VAR_AUX | VAR_MODULE | VAR_REF

datatype var =
  Var (vtype: var_type) (vname: "cstr option") (veqn: "cstr option") (vsrc: "cstr option")
    (vinflows: "cstr list") (voutflows: "cstr list") (vconns: "var list")
    (vgf: "table option") (is_nonneg: bool)

record sim_spec =
  time_units :: "cstr option"
  sp_start :: fp
  sp_stop :: fp
  sp_dt :: fp
  sp_savestep :: fp
  sp_method :: "cstr option"

record product =
  pr_name :: "cstr option"
  pr_version :: "cstr option"
  pr_lang :: "cstr option"

record header =
  smile_version :: "cstr option"
  smile_namespace :: "cstr option"
  hd_name :: "cstr option"
  hd_uuid :: "cstr option"
  hd_vendor :: "cstr option"
  hd_product :: product

record model =
  m_file_specs :: sim_spec
  m_name :: "cstr option"
  m_vars :: "var list"
  m_refcount :: int

record sd_file =
  f_header :: header
  f_sim_specs :: sim_spec
  f_models :: "model list"

record project =
  dir_path :: cstr
  pfiles :: "sd_file list"
  p_refcount :: int

definition spec_zero :: sim_spec where
  "spec_zero = \<lparr> time_units = None, sp_start = d_zero, sp_stop = d_zero, sp_dt = d_zero,
     sp_savestep = d_zero, sp_method = None \<rparr>"

definition file_zero :: sd_file where
  "file_zero = \<lparr> f_header = \<lparr> smile_version = None, smile_namespace = None, hd_name = None,
       hd_uuid = None, hd_vendor = None,
       hd_product = \<lparr> pr_name = None, pr_version = None, pr_lang = None \<rparr> \<rparr>,
     f_sim_specs = spec_zero, f_models = [] \<rparr>"

section \<open>Messages\<close>

definition SD_ERROR_MSGS :: "cstr list" where
  "SD_ERROR_MSGS = [''no error'', ''no memory'', ''bad file'', ''unspecified error'', ''bad XML'',
     ''bad equation lex'', ''EOF'', ''circularity error'']"

definition sd_error_str :: "int \<Rightarrow> cstr run" where
  "sd_error_str err =
     (if err < sd_error_code SD_ERR_NO_ERROR \<and> sd_error_code SD_ERR_MIN < err
      then aread SD_ERROR_MSGS (nat (- err))
      else Inr ''unknown error'')"

section \<open>Models of a project\<close>

text \<open>
  The two nested loops of \<open>sd_project_get_model\<close> scan the models of all files in order; the
  result is the position of the model, whose reference count goes up.
\<close>

fun model_named :: "cstr option \<Rightarrow> model \<Rightarrow> bool" where
  "model_named n m =
     (case (m_name m, n) of
        (None, None) \<Rightarrow> True
      | (Some a, Some b) \<Rightarrow> a = b
      | _ \<Rightarrow> False)"

definition sd_model_ref :: "model \<Rightarrow> model" where
  "sd_model_ref m = m\<lparr> m_refcount := m_refcount m + 1 \<rparr>"

primrec scan_models :: "cstr option \<Rightarrow> model list \<Rightarrow> model option" where
  "scan_models n [] = None"
| "scan_models n (m # ms) = (if model_named n m then Some m else scan_models n ms)"

primrec scan_files :: "cstr option \<Rightarrow> sd_file list \<Rightarrow> model option" where
  "scan_files n [] = None"
| "scan_files n (f # fs) =
     (case scan_models n (f_models f) of Some m \<Rightarrow> Some m | None \<Rightarrow> scan_files n fs)"

definition sd_project_get_model :: "project option \<Rightarrow> cstr option \<Rightarrow> model option" where
  "sd_project_get_model p n =
     map_option sd_model_ref (case p of None \<Rightarrow> None | Some p \<Rightarrow> scan_files n (pfiles p))"

definition project_add_file :: "(nat \<Rightarrow> bool) \<Rightarrow> project \<Rightarrow> sd_file \<Rightarrow> sd_error \<times> project" where
  "project_add_file alloc p f =
     (if alloc (length (pfiles p)) then (SD_ERR_NO_ERROR, p\<lparr> pfiles := pfiles p @ [f] \<rparr>)
      else (SD_ERR_NOMEM, p\<lparr> pfiles := [] \<rparr>))"

section \<open>Reference counts\<close>

definition sd_project_ref :: "project \<Rightarrow> project" where
  "sd_project_ref p = p\<lparr> p_refcount := p_refcount p + 1 \<rparr>"

text \<open>\<open>None\<close> when the last reference is gone and the project is freed.\<close>

definition sd_project_unref :: "project option \<Rightarrow> project option" where
  "sd_project_unref p =
     (case p of
        None \<Rightarrow> None
      | Some p \<Rightarrow>
          (let p = p\<lparr> p_refcount := p_refcount p - 1 \<rparr>
           in if p_refcount p = 0 then None else Some p))"

section \<open>Properties\<close>

lemma scan_files_find:
  "scan_files n fs = find (model_named n) (concat (map f_models fs))"
proof (induction fs)
  case (Cons f fs)
  have "scan_models n ms = find (model_named n) ms" for ms
    by (induction ms) (auto simp del: model_named.simps)
  moreover have "find P (xs @ ys) = (case find P xs of None \<Rightarrow> find P ys | Some x \<Rightarrow> Some x)" for P :: "model \<Rightarrow> bool" and xs ys
    by (induction xs) auto
  ultimately show ?case using Cons by (simp del: model_named.simps split: option.splits)
qed simp

end
