(* ===== verification/Strtod.thy ===== *)
theory Strtod
  imports Doubles
begin

text \<open>
  The conversions \<open>strtod\<close> and \<open>atof\<close> of the C standard library, in the "C" locale, as the
  library uses them on number literals, simulation specifications and graphical functions:
  optional white space and sign, then a decimal or hexadecimal number, an infinity or a NaN,
  the longest prefix that is one; the result is the nearest double (ties to even), the number
  of bytes used, and whether \<open>errno\<close> is set to \<open>ERANGE\<close> (overflow, or an inexact result in the
  subnormal range).
\<close>

section \<open>Scanning\<close>

definition is_blank :: "char \<Rightarrow> bool" where
  "is_blank c \<longleftrightarrow> c = CHR '' '' \<or> of_char c \<in> {9..13::nat}"

fun digit_of :: "nat \<Rightarrow> char \<Rightarrow> nat option" where
  "digit_of base c =
     (let n = of_char c :: nat;
          d = (if 48 \<le> n \<and> n \<le> 57 then n - 48
               else if 97 \<le> n \<and> n \<le> 122 then n - 87
               else if 65 \<le> n \<and> n \<le> 90 then n - 55
               else 99)
      in if d < base then Some d else None)"

fun scan_digits :: "nat \<Rightarrow> cstr \<Rightarrow> nat list \<times> cstr" where
  "scan_digits base [] = ([], [])"
| "scan_digits base (c # s) =
     (case digit_of base c of
        None \<Rightarrow> ([], c # s)
      | Some d \<Rightarrow> (let (ds, t) = scan_digits base s in (d # ds, t)))"

definition digits_value :: "nat \<Rightarrow> nat list \<Rightarrow> nat" where
  "digits_value base ds = foldl (\<lambda>n d. base * n + d) 0 ds"

definition is_letter :: "char \<Rightarrow> char \<Rightarrow> bool" where
  "is_letter lc c \<longleftrightarrow> c = lc \<or> of_char c + 32 = (of_char lc :: nat)"

fun has_word :: "cstr \<Rightarrow> cstr \<Rightarrow> bool" where
  "has_word [] s = True"
| "has_word (w # ws) [] = False"
| "has_word (w # ws) (c # s) = (is_letter w c \<and> has_word ws s)"

text \<open>An optional sign.\<close>

fun scan_sign :: "cstr \<Rightarrow> bool \<times> cstr" where
  "scan_sign (c # s) = (if c = CHR ''-'' then (True, s) else if c = CHR ''+'' then (False, s) else (False, c # s))"
| "scan_sign [] = (False, [])"

text \<open>An exponent part: the exponent and what follows, or 0 and the text itself.\<close>

definition scan_exponent :: "char \<Rightarrow> cstr \<Rightarrow> int \<times> cstr" where
  "scan_exponent mark s =
     (case s of
        [] \<Rightarrow> (0, s)
      | c # t \<Rightarrow>
          if is_letter mark c then
            (let (neg, u) = scan_sign t; (ds, r) = scan_digits 10 u
             in if ds = [] then (0, s)
                else (if neg then - int (digits_value 10 ds) else int (digits_value 10 ds), r))
          else (0, s))"

section \<open>Values\<close>

text \<open>The value \<open>d * 10^e\<close>, rounded once.\<close>

definition fp_decimal :: "bool \<Rightarrow> nat \<Rightarrow> int \<Rightarrow> fp" where
  "fp_decimal s d e =
     (if 0 \<le> e then fp_round binary64 s (d * 10 ^ nat e) 0 False
      else fp_quotient binary64 s d (10 ^ nat (- e)) 0 (prec binary64 + 2 + bitlen (10 ^ nat (- e))))"

text \<open>
  \<open>ERANGE\<close> for a result of the exact value \<open>n / d\<close>: an infinity, or a number below the normal
  range that is not exactly \<open>n / d\<close>.
\<close>

fun out_of_range :: "fp \<Rightarrow> nat \<Rightarrow> nat \<Rightarrow> bool" where
  "out_of_range (Fin s m e) n d =
     (m < 2 ^ 52 \<and> e = emin binary64 \<and> m * d \<noteq> n * 2 ^ nat (- e))"
| "out_of_range x n d = (x \<noteq> NaN)"

text \<open>\<open>Some (value, rest, erange)\<close> of an unsigned number at the start of \<open>s\<close>.\<close>

definition scan_decimal :: "bool \<Rightarrow> cstr \<Rightarrow> (fp \<times> cstr \<times> bool) option" where
  "scan_decimal neg s =
     (let (ip, t) = scan_digits 10 s;
          (fr, u) = (case t of c # t' \<Rightarrow> if c = CHR ''.'' then scan_digits 10 t' else ([], t) | [] \<Rightarrow> ([], t))
      in if ip = [] \<and> fr = [] then None
         else
           (let (e, r) = scan_exponent (CHR ''e'') u;
                d = digits_value 10 (ip @ fr);
                e10 = e - int (length fr);
                v = fp_decimal neg d e10
            in Some (v, r, out_of_range v (d * 10 ^ nat e10) (10 ^ nat (- e10)))))"

definition scan_hex :: "bool \<Rightarrow> cstr \<Rightarrow> (fp \<times> cstr \<times> bool) option" where
  "scan_hex neg s =
     (let (ip, t) = scan_digits 16 s;
          (fr, u) = (case t of c # t' \<Rightarrow> if c = CHR ''.'' then scan_digits 16 t' else ([], t) | [] \<Rightarrow> ([], t))
      in if ip = [] \<and> fr = [] then None
         else
           (let (e, r) = scan_exponent (CHR ''p'') u;
                d = digits_value 16 (ip @ fr);
                e2 = e - 4 * int (length fr);
                v = fp_round binary64 neg d e2 False
            in Some (v, r, out_of_range v (d * 2 ^ nat e2) (2 ^ nat (- e2)))))"

fun nan_tail :: "cstr \<Rightarrow> cstr \<Rightarrow> cstr" where
  "nan_tail s [] = s"
| "nan_tail s (c # t) =
     (if c = CHR '')'' then t
      else if digit_of 36 c \<noteq> None \<or> c = CHR ''_'' then nan_tail s t else s)"

definition scan_number :: "bool \<Rightarrow> cstr \<Rightarrow> (fp \<times> cstr \<times> bool) option" where
  "scan_number neg s =
     (if has_word ''infinity'' s then Some (Inf neg, drop 8 s, False)
      else if has_word ''inf'' s then Some (Inf neg, drop 3 s, False)
      else if has_word ''nan'' s then
        Some (NaN, (case drop 3 s of c # t \<Rightarrow> if c = CHR ''('' then nan_tail (drop 3 s) t else drop 3 s | [] \<Rightarrow> []), False)
      else if has_word ''0x'' s \<and> scan_hex neg (drop 2 s) \<noteq> None then scan_hex neg (drop 2 s)
      else scan_decimal neg s)"

text \<open>
  \<open>strtod\<close>: the value, the text at the end pointer, and whether \<open>errno\<close> becomes \<open>ERANGE\<close>; when
  there is no number the value is 0 and the end pointer is the start.
\<close>

definition strtod :: "cstr \<Rightarrow> fp \<times> cstr \<times> bool" where
  "strtod s =
     (let (neg, t) = scan_sign (dropWhile is_blank s) in
      case scan_number neg t of None \<Rightarrow> (d_zero, s, False) | Some r \<Rightarrow> r)"

definition atof :: "cstr \<Rightarrow> fp" where
  "atof s = fst (strtod s)"

lemmas strtod_eval = strtod_def atof_def scan_number_def scan_decimal_def scan_hex_def scan_exponent_def
  digits_value_def fp_decimal_def is_letter_def is_blank_def fp_eval

end
