(* ===== verification/Lexer.thy ===== *)
theory Lexer
  imports CStrings
begin

text \<open>
  The lexer of equations, the first half of \<^verbatim>\<open>parse.c\<close>: \<open>lexer_init\<close>, \<open>nextrune\<close>,
  \<open>skip_whitespace\<close>, \<open>lex_number\<close>, \<open>lex_ident\<close>, \<open>lexer_nexttok\<close> and \<open>lexer_peek\<close>, with their
  state. The text of a token is the C string at \<open>start\<close>; where that string lives (inside the
  token or on the heap) and who frees it is not modelled, and allocations succeed. The
  \<open>short\<close> counters of the position are 16-bit words. The pair \<open>havetpeek\<close>, \<open>tpeek\<close> is one
  optional token. The second half of the file, the parser, is in \<open>Parser\<close>.
\<close>

section \<open>State\<close>

datatype token_type = TOK_TOKEN | TOK_IDENT | TOK_RESERVED | TOK_NUMBER

record token =
  t_start :: cstr
  t_len :: nat
  t_line :: "16 word"
  t_pos :: "16 word"
  t_type :: token_type

record lexer =
  l_src :: cstr
  l_peek :: rune
  l_len :: nat
  l_pos :: nat
  l_line :: "16 word"
  l_lstart :: "16 word"
  l_tpeek :: "token option"

definition peek_at :: "cstr \<Rightarrow> nat \<Rightarrow> int \<Rightarrow> rune" where
  "peek_at s off n = (case charntorune (drop off s) n of None \<Rightarrow> 0 | Some (r, _) \<Rightarrow> r)"

text \<open>
  \<open>lexer_init\<close>: the text is lower-cased into a copy, but the first rune is read from the
  caller's string, before lower-casing.
\<close>

definition lexer_init :: "cstr \<Rightarrow> lexer run" where
  "lexer_init src =
     rbind (utf8_tolower (strdup src)) (\<lambda>buf.
     rbind (cstr_of buf) (\<lambda>s.
     Inr \<lparr> l_src = s,
           l_peek = (if length s \<noteq> 0 then peek_at src 0 (int (length s)) else 0),
           l_len = length s, l_pos = 0, l_line = 0, l_lstart = 0, l_tpeek = None \<rparr>))"

section \<open>Operations\<close>

definition nextrune :: "lexer \<Rightarrow> lexer" where
  "nextrune l =
     (if l_pos l < l_len l then
        let pos = l_pos l + runelen (l_peek l)
        in l\<lparr> l_pos := pos, l_peek := peek_at (l_src l) pos (int (l_len l) - int pos) \<rparr>
      else l\<lparr> l_peek := 0 \<rparr>)"

lemma nextrune_less:
  "l_peek (nextrune l) \<noteq> 0 \<Longrightarrow> l_len (nextrune l) - l_pos (nextrune l) < l_len l - l_pos l"
  using runelen_pos [of "l_peek l"] by (auto simp: nextrune_def Let_def split: if_splits)

definition newline :: "lexer \<Rightarrow> lexer" where
  "newline l =
     (if l_peek l = 10
      then l\<lparr> l_line := l_line l + 1, l_lstart := of_nat (l_pos l + 1) \<rparr> else l)"

lemma newline_simps [simp]:
  "l_peek (newline l) = l_peek l" "l_pos (newline l) = l_pos l" "l_len (newline l) = l_len l"
  "l_src (newline l) = l_src l" "l_tpeek (newline l) = l_tpeek l"
  by (simp_all add: newline_def)

text \<open>The loop of \<open>skip_whitespace\<close>; \<open>None\<close> of the inner step means \<open>break\<close>.\<close>

definition skip_step :: "bool \<Rightarrow> rune \<Rightarrow> bool option" where
  "skip_step in_comment r =
     (if in_comment then Some (r \<noteq> 0x7D)
      else if r = 0x7B then Some True
      else if \<not> isspacerune r then None
      else Some in_comment)"

function skip_whitespace :: "bool \<Rightarrow> lexer \<Rightarrow> lexer" where
  "skip_whitespace in_comment l =
     (case skip_step in_comment (l_peek l) of
        None \<Rightarrow> newline l
      | Some in_comment' \<Rightarrow>
          (let l' = nextrune (newline l)
           in if l_peek l' \<noteq> 0 then skip_whitespace in_comment' l' else l'))"
  by pat_completeness auto
termination
  by (relation "measure (\<lambda>(_, l). l_len l - l_pos l)") (auto dest!: nextrune_less)

definition is_digit :: "rune \<Rightarrow> bool" where
  "is_digit r \<longleftrightarrow> 0x30 \<le> r \<and> r \<le> 0x39"

definition numstart :: "rune \<Rightarrow> bool" where
  "numstart r \<longleftrightarrow> is_digit r \<or> r = 0x2E"

definition identstart :: "rune \<Rightarrow> bool" where
  "identstart r \<longleftrightarrow> \<not> numstart r \<and> (isalpharune r \<or> r = 0x5F \<or> r = 0x22)"

text \<open>
  The flags of \<open>lex_number\<close> after a rune the number goes on with: \<open>have_e\<close>, \<open>have_dot1\<close>,
  \<open>have_dot2\<close>.
\<close>

type_synonym num_state = "bool \<times> bool \<times> bool"

fun num_step :: "num_state \<Rightarrow> rune \<Rightarrow> num_state option" where
  "num_step (e, d1, d2) r =
     (if is_digit r then Some (e, d1, d2)
      else if r = 0x2E then
        if \<not> e \<and> \<not> d1 then Some (e, True, d2)
        else if e \<and> \<not> d2 then Some (e, d1, True)
        else None
      else if r = 0x65 then
        if \<not> e then Some (True, d1, d2) else None
      else None)"

function number_loop :: "num_state \<Rightarrow> lexer \<Rightarrow> lexer" where
  "number_loop st l =
     (let l' = nextrune l
      in if l_peek l' = 0 then l'
         else (case num_step st (l_peek l') of None \<Rightarrow> l' | Some st' \<Rightarrow> number_loop st' l'))"
  by pat_completeness auto
termination
  by (relation "measure (\<lambda>(_, l). l_len l - l_pos l)") (auto dest!: nextrune_less)

definition ident_rune :: "rune \<Rightarrow> bool" where
  "ident_rune r \<longleftrightarrow> isalpharune r \<or> r = 0x5F \<or> is_digit r"

function ident_loop :: "bool \<Rightarrow> lexer \<Rightarrow> lexer" where
  "ident_loop q l =
     (let l' = nextrune l; r = l_peek l'
      in if r = 0 then l'
         else if ident_rune r then ident_loop q l'
         else if q \<and> r = 0x22 then nextrune l'
         else if q \<and> isspacerune r then ident_loop q l'
         else l')"
  by pat_completeness auto
termination
  by (relation "measure (\<lambda>(_, l). l_len l - l_pos l)") (auto dest!: nextrune_less)

declare skip_whitespace.simps [simp del] number_loop.simps [simp del] ident_loop.simps [simp del]

text \<open>
  The bytes \<open>[pos, pos + n)\<close> of the buffer, up to a NUL: the buffer has \<open>l_len + 1\<close> bytes.
\<close>

definition token_text :: "lexer \<Rightarrow> nat \<Rightarrow> nat \<Rightarrow> cstr run" where
  "token_text l pos n =
     (if pos + n \<le> l_len l + 1 then Inr (take n (drop pos (l_src l))) else Inl OutOfBounds)"

definition lex_number :: "lexer \<Rightarrow> (token \<times> lexer) run" where
  "lex_number l =
     (let pos = l_pos l; l' = number_loop (False, False, False) l; n = l_pos l' - pos in
      rbind (token_text l' pos n) (\<lambda>s.
        Inr (\<lparr> t_start = s, t_len = n, t_line = l_line l', t_pos = of_nat pos - l_lstart l',
               t_type = TOK_NUMBER \<rparr>, l')))"

definition RESERVED :: "cstr list" where
  "RESERVED = [''if'', ''then'', ''else'']"

definition OP_WORDS :: "(cstr \<times> cstr) list" where
  "OP_WORDS = [(''not'', ''!''), (''and'', ''&''), (''or'', ''|''), (''mod'', ''%'')]"

text \<open>The two loops at the end of \<open>lex_ident\<close>: reserved words and operators spelt as words.\<close>

definition classify_word :: "token \<Rightarrow> token" where
  "classify_word t =
     (let t = (if t_start t \<in> set RESERVED then t\<lparr> t_type := TOK_RESERVED \<rparr> else t)
      in case map_of OP_WORDS (t_start t) of
           None \<Rightarrow> t
         | Some s \<Rightarrow> t\<lparr> t_start := s, t_len := length s, t_type := TOK_TOKEN \<rparr>)"

definition lex_ident :: "lexer \<Rightarrow> (token \<times> lexer) run" where
  "lex_ident l =
     (let q = (l_peek l = 0x22); pos = l_pos l;
          l' = ident_loop q (if q then nextrune l else l); n = l_pos l' - pos in
      rbind (token_text l' pos n) (\<lambda>s.
        Inr (classify_word
          \<lparr> t_start = s, t_len = n, t_line = l_line l', t_pos = of_nat pos - l_lstart l',
            t_type = TOK_IDENT \<rparr>, l')))"

text \<open>The UTF-8 bytes of the operators the source spells as \<open>\<ge>\<close>, \<open>\<le>\<close> and \<open>\<noteq>\<close>.\<close>

definition op_ge :: cstr where "op_ge = [CHR 0xE2, CHR 0x89, CHR 0xA5]"
definition op_le :: cstr where "op_le = [CHR 0xE2, CHR 0x89, CHR 0xA4]"
definition op_ne :: cstr where "op_ne = [CHR 0xE2, CHR 0x89, CHR 0xA0]"

text \<open>The second rune a two-rune operator may take.\<close>

definition second_rune :: "rune \<Rightarrow> rune \<Rightarrow> bool" where
  "second_rune first r =
     (if first = 0x3D then r = 0x3D
      else if first = 0x3C then r = 0x3D \<or> r = 0x3E
      else if first = 0x3E then r = 0x3D
      else False)"

definition op_text :: "cstr \<Rightarrow> cstr" where
  "op_text s = (if s = ''>='' then op_ge else if s = ''<='' then op_le
                else if s = ''<>'' then op_ne else s)"

definition lex_op :: "lexer \<Rightarrow> token \<times> lexer" where
  "lex_op l =
     (let pos = l_pos l; first = l_peek l; n = runelen first; l1 = nextrune l;
          two = second_rune first (l_peek l1);
          l2 = (if two then nextrune l1 else l1);
          s = op_text (take (if two then n + 1 else n) (drop pos (l_src l)))
      in (\<lparr> t_start = s, t_len = length s, t_line = l_line l2, t_pos = of_nat pos - l_lstart l2,
            t_type = TOK_TOKEN \<rparr>, l2))"

definition lexer_nexttok :: "lexer \<Rightarrow> ((sd_error + token) \<times> lexer) run" where
  "lexer_nexttok l =
     (case l_tpeek l of
        Some t \<Rightarrow> Inr (Inr t, l\<lparr> l_tpeek := None \<rparr>)
      | None \<Rightarrow>
          (let l = skip_whitespace False l in
           if l_peek l = 0 then Inr (Inl SD_ERR_EOF, l)
           else if numstart (l_peek l) then rbind (lex_number l) (\<lambda>(t, l). Inr (Inr t, l))
           else if identstart (l_peek l) then rbind (lex_ident l) (\<lambda>(t, l). Inr (Inr t, l))
           else (let (t, l) = lex_op l in Inr (Inr t, l))))"

definition lexer_peek :: "lexer \<Rightarrow> ((sd_error + token) \<times> lexer) run" where
  "lexer_peek l =
     (case l_tpeek l of
        Some t \<Rightarrow> Inr (Inr t, l)
      | None \<Rightarrow>
          rbind (lexer_nexttok l) (\<lambda>(res, l).
            case res of
              Inl err \<Rightarrow> Inr (Inl err, l)
            | Inr t \<Rightarrow> Inr (Inr t, l\<lparr> l_tpeek := Some t \<rparr>)))"

section \<open>The lexer on lists of runes\<close>

text \<open>
  What the lexer promises, on the runes that are left: white space and comments in braces are
  dropped, and a token takes a prefix of the rest.
\<close>

fun a_skip :: "bool \<Rightarrow> rune list \<Rightarrow> rune list" where
  "a_skip c [] = []"
| "a_skip c (r # rs) = (case skip_step c r of None \<Rightarrow> r # rs | Some c' \<Rightarrow> a_skip c' rs)"

fun a_num :: "num_state \<Rightarrow> rune list \<Rightarrow> nat" where
  "a_num st [] = 0"
| "a_num st (r # rs) = (case num_step st r of None \<Rightarrow> 0 | Some st' \<Rightarrow> Suc (a_num st' rs))"

fun a_ident :: "bool \<Rightarrow> rune list \<Rightarrow> nat" where
  "a_ident q [] = 0"
| "a_ident q (r # rs) =
     (if ident_rune r then Suc (a_ident q rs)
      else if q \<and> r = 0x22 then 1
      else if q \<and> isspacerune r then Suc (a_ident q rs)
      else 0)"

definition word_token :: "cstr \<Rightarrow> token_type \<times> cstr" where
  "word_token s =
     (case map_of OP_WORDS s of
        Some s' \<Rightarrow> (TOK_TOKEN, s')
      | None \<Rightarrow> (if s \<in> set RESERVED then TOK_RESERVED else TOK_IDENT, s))"

text \<open>The number of runes the token takes after its first one.\<close>

definition a_extent :: "rune \<Rightarrow> rune list \<Rightarrow> nat" where
  "a_extent r rs =
     (if numstart r then a_num (False, False, False) rs
      else if identstart r then
        (if r = 0x22 then (case rs of [] \<Rightarrow> 0 | r1 # rs1 \<Rightarrow> Suc (a_ident True rs1))
         else a_ident False rs)
      else (case rs of [] \<Rightarrow> 0 | r1 # rs1 \<Rightarrow> if second_rune r r1 then 1 else 0))"

definition a_class :: "rune \<Rightarrow> cstr \<Rightarrow> token_type \<times> cstr" where
  "a_class r s =
     (if numstart r then (TOK_NUMBER, s)
      else if identstart r then word_token s
      else (TOK_TOKEN, op_text s))"

definition a_next :: "rune list \<Rightarrow> ((token_type \<times> cstr) \<times> rune list) option" where
  "a_next rs =
     (case a_skip False rs of
        [] \<Rightarrow> None
      | r # rs' \<Rightarrow>
          (let n = a_extent r rs'
           in Some (a_class r (utf8 (r # take n rs')), drop n rs')))"

lemma length_a_skip: "length (a_skip c rs) \<le> length rs"
  by (induction c rs rule: a_skip.induct) (auto split: option.splits intro: le_SucI)

lemma a_next_less: "a_next rs = Some (t, rs') \<Longrightarrow> length rs' < length rs"
  using length_a_skip [of False rs] by (auto simp: a_next_def Let_def split: list.splits)

function a_tokens :: "rune list \<Rightarrow> (token_type \<times> cstr) list" where
  "a_tokens rs = (case a_next rs of None \<Rightarrow> [] | Some (t, rs') \<Rightarrow> t # a_tokens rs')"
  by pat_completeness auto
termination
  by (relation "measure length") (auto dest: a_next_less)

declare a_tokens.simps [simp del]

text \<open>Evaluation on concrete ASCII texts.\<close>

lemma eq_char_of_iff: "c = char_of n \<longleftrightarrow> take_bit 8 n = of_char c"
  by (metis char_of_eq_iff)

lemmas lex_eval = eq_char_of_iff a_tokens.simps a_next_def skip_step_def isspacerune_ascii a_extent_def
  second_rune_def Let_def a_class_def numstart_def identstart_def is_digit_def isalpharune_ascii
  runetochar_def encode_def op_text_def word_token_def OP_WORDS_def RESERVED_def ident_rune_def
  char_of_eq_iff op_ge_def op_le_def op_ne_def

section \<open>Refinement\<close>

text \<open>The lexer stands before the runes \<open>rest\<close> of the text \<open>before @ rest\<close>.\<close>

definition lexer_at :: "lexer \<Rightarrow> rune list \<Rightarrow> rune list \<Rightarrow> bool" where
  "lexer_at l before rest \<longleftrightarrow>
     text_ok (before @ rest) \<and> l_src l = utf8 (before @ rest) \<and> l_len l = length (l_src l) \<and>
     l_pos l = length (utf8 before) \<and> l_peek l = (case rest of [] \<Rightarrow> 0 | r # _ \<Rightarrow> r)"

lemma runetochar_nonempty [simp]: "runetochar r \<noteq> []"
  using runelen_pos [of r] by (auto simp: runelen_def)

lemma peek_at_text:
  assumes "text_ok rest"
  shows "peek_at (pre @ utf8 rest) (length pre) (int (length (utf8 rest))) =
    (case rest of [] \<Rightarrow> 0 | r # _ \<Rightarrow> r)"
proof (cases rest)
  case (Cons r rs)
  then show ?thesis
    using assms charntorune_text [of r "utf8 rs" "length (utf8 rs)"] by (simp add: peek_at_def)
qed (simp add: peek_at_def)

lemma nextrune_at:
  assumes "lexer_at l before (r # rest)"
  shows "lexer_at (nextrune l) (before @ [r]) rest"
proof -
  have "peek_at ((utf8 before @ runetochar r) @ utf8 rest) (length (utf8 before @ runetochar r))
      (int (length (utf8 rest))) = (case rest of [] \<Rightarrow> 0 | r # _ \<Rightarrow> r)"
    using assms by (intro peek_at_text) (simp add: lexer_at_def)
  then show ?thesis
    using assms by (auto simp: lexer_at_def nextrune_def runelen_def Let_def)
qed

lemma nextrune_end: "lexer_at l before [] \<Longrightarrow> lexer_at (nextrune l) before []"
  by (simp add: lexer_at_def nextrune_def)

lemma nextrune_tpeek [simp]: "l_tpeek (nextrune l) = l_tpeek l"
  by (simp add: nextrune_def Let_def)

lemma newline_at [simp]: "lexer_at (newline l) before rest \<longleftrightarrow> lexer_at l before rest"
  by (simp add: lexer_at_def)

lemma lexer_at_peek: "lexer_at l before rest \<Longrightarrow> l_peek l = 0 \<longleftrightarrow> rest = []"
  by (auto simp: lexer_at_def split: list.splits)

lemma skip_zero: "skip_step c 0 = (if c then Some True else None)"
  by (simp add: skip_step_def isspacerune_ascii)

lemma skip_whitespace_at:
  "lexer_at l before rest \<Longrightarrow>
   \<exists>before'. lexer_at (skip_whitespace c l) before' (a_skip c rest) \<and>
     l_tpeek (skip_whitespace c l) = l_tpeek l"
proof (induction rest arbitrary: l before c)
  case Nil
  then have "l_peek l = 0" "l_peek (nextrune (newline l)) = 0"
    using nextrune_end [of "newline l" before] by (auto simp: lexer_at_def)
  with Nil show ?case
    using nextrune_end [of "newline l" before]
    by (subst (1 2) skip_whitespace.simps) (auto simp: skip_zero Let_def)
next
  case (Cons r rest)
  have peek: "l_peek l = r"
    using Cons.prems by (simp add: lexer_at_def)
  have next': "lexer_at (nextrune (newline l)) (before @ [r]) rest"
    using Cons.prems by (intro nextrune_at) simp
  show ?case
  proof (cases "skip_step c r")
    case None
    then show ?thesis
      using Cons.prems peek by (subst (1 2) skip_whitespace.simps) auto
  next
    case (Some c')
    show ?thesis
    proof (cases rest)
      case Nil
      then show ?thesis
        using next' Some peek lexer_at_peek [OF next']
        by (subst (1 2) skip_whitespace.simps) (auto simp: Let_def)
    next
      case (Cons r' rest')
      then show ?thesis
        using Cons.IH [OF next', of c'] Some peek lexer_at_peek [OF next']
        by (subst (1 2) skip_whitespace.simps) (auto simp: Let_def)
    qed
  qed
qed

lemma number_loop_at:
  "lexer_at l before (r # rest) \<Longrightarrow>
   lexer_at (number_loop st l) (before @ r # take (a_num st rest) rest) (drop (a_num st rest) rest) \<and>
   l_tpeek (number_loop st l) = l_tpeek l"
proof (induction rest arbitrary: l before r st)
  case Nil
  then show ?case
    using nextrune_at [OF Nil] lexer_at_peek [OF nextrune_at [OF Nil]]
    by (subst (1 2) number_loop.simps) (simp add: Let_def)
next
  case (Cons r' rest)
  note at = nextrune_at [OF Cons.prems]
  have peek: "l_peek (nextrune l) = r'" "r' \<noteq> 0"
    using at by (simp_all add: lexer_at_def)
  show ?case
  proof (cases "num_step st r'")
    case None
    then show ?thesis
      using at peek by (subst (1 2) number_loop.simps) (simp add: Let_def)
  next
    case (Some st')
    then show ?thesis
      using Cons.IH [OF at, of st'] peek by (subst (1 2) number_loop.simps) (simp add: Let_def)
  qed
qed

lemma ident_loop_at:
  "lexer_at l before (r # rest) \<Longrightarrow>
   lexer_at (ident_loop q l) (before @ r # take (a_ident q rest) rest) (drop (a_ident q rest) rest) \<and>
   l_tpeek (ident_loop q l) = l_tpeek l"
proof (induction rest arbitrary: l before r)
  case Nil
  then show ?case
    using nextrune_at [OF Nil] lexer_at_peek [OF nextrune_at [OF Nil]]
    by (subst (1 2) ident_loop.simps) (simp add: Let_def)
next
  case (Cons r' rest)
  note at = nextrune_at [OF Cons.prems]
  have peek: "l_peek (nextrune l) = r'" "r' \<noteq> 0"
    using at by (simp_all add: lexer_at_def)
  show ?case
    using Cons.IH [OF at] nextrune_at [OF at] at peek
    by (cases q; subst (1 2) ident_loop.simps) (auto simp: Let_def)
qed

lemma ident_loop_end:
  "lexer_at l before [] \<Longrightarrow>
   lexer_at (ident_loop q l) before [] \<and> l_tpeek (ident_loop q l) = l_tpeek l"
  using nextrune_end [of l before] lexer_at_peek [of "nextrune l" before "[]"]
  by (subst (1 2) ident_loop.simps) (simp add: Let_def)

lemma token_text_at:
  assumes "lexer_at l (before @ taken) rest"
  shows "token_text l (length (utf8 before)) (l_pos l - length (utf8 before)) = Inr (utf8 taken)"
    and "l_pos l - length (utf8 before) = length (utf8 taken)"
  using assms by (auto simp: lexer_at_def token_text_def)

lemma classify_word_simps:
  assumes "t_len t = length (t_start t)" "t_type t = TOK_IDENT"
  shows "(t_type (classify_word t), t_start (classify_word t)) = word_token (t_start t) \<and>
    t_len (classify_word t) = length (t_start (classify_word t))"
  using assms by (auto simp: classify_word_def word_token_def Let_def split: option.splits)

text \<open>A token of the lexer against a token of the specification.\<close>

definition tok_rep :: "token \<Rightarrow> token_type \<times> cstr \<Rightarrow> bool" where
  "tok_rep t x \<longleftrightarrow> (t_type t, t_start t) = x \<and> t_len t = length (t_start t)"

lemma lex_number_at:
  assumes "lexer_at l before (r # rest)"
  defines "n \<equiv> a_num (False, False, False) rest"
  shows "\<exists>t l'. lex_number l = Inr (t, l') \<and> tok_rep t (TOK_NUMBER, utf8 (r # take n rest)) \<and>
    lexer_at l' (before @ r # take n rest) (drop n rest) \<and> l_tpeek l' = l_tpeek l"
proof -
  note at = number_loop_at [OF assms(1), of "(False, False, False)", folded n_def]
  have pos: "l_pos l = length (utf8 before)"
    using assms(1) by (simp add: lexer_at_def)
  show ?thesis
    using at token_text_at [of "number_loop (False, False, False) l" before "r # take n rest" "drop n rest"]
    by (simp add: lex_number_def pos Let_def tok_rep_def)
qed

lemma lex_ident_at:
  assumes "lexer_at l before (r # rest)"
  defines "n \<equiv> (if r = 0x22 then (case rest of [] \<Rightarrow> 0 | r1 # rs1 \<Rightarrow> Suc (a_ident True rs1))
                 else a_ident False rest)"
  shows "\<exists>t l'. lex_ident l = Inr (t, l') \<and> tok_rep t (word_token (utf8 (r # take n rest))) \<and>
    lexer_at l' (before @ r # take n rest) (drop n rest) \<and> l_tpeek l' = l_tpeek l"
proof -
  let ?q = "l_peek l = 0x22"
  define l' where "l' = ident_loop ?q (if ?q then nextrune l else l)"
  have peek: "l_peek l = r" and pos: "l_pos l = length (utf8 before)"
    using assms(1) by (simp_all add: lexer_at_def)
  have at: "lexer_at l' (before @ r # take n rest) (drop n rest) \<and> l_tpeek l' = l_tpeek l"
  proof (cases "r = 0x22")
    case True
    then show ?thesis
      using ident_loop_end [OF nextrune_at, of l before r True] assms(1) peek
        ident_loop_at [OF nextrune_at, of l before r _ _ True]
      by (cases rest) (auto simp: l'_def n_def)
  next
    case False
    then show ?thesis
      using ident_loop_at [OF assms(1), of False] peek by (simp add: l'_def n_def)
  qed
  define t where "t = \<lparr> t_start = utf8 (r # take n rest), t_len = length (utf8 (r # take n rest)),
    t_line = l_line l', t_pos = of_nat (length (utf8 before)) - l_lstart l', t_type = TOK_IDENT \<rparr>"
  have "lex_ident l = Inr (classify_word t, l')"
    using token_text_at [of l' before "r # take n rest" "drop n rest"] at
    by (simp add: lex_ident_def Let_def l'_def [symmetric] t_def pos del: utf8_simps)
  moreover have "tok_rep (classify_word t) (word_token (utf8 (r # take n rest)))"
    using classify_word_simps [of t] by (simp add: t_def tok_rep_def)
  ultimately show ?thesis
    using at by blast
qed

lemma second_rune_ascii: "second_rune r r1 \<Longrightarrow> runetochar r1 = [char_of (unat r1)] \<and> r1 \<noteq> 0"
  by (auto simp: second_rune_def runetochar_def encode_def split: if_splits)

lemma lex_op_at:
  assumes "lexer_at l before (r # rest)"
  defines "n \<equiv> (case rest of [] \<Rightarrow> 0 | r1 # rs1 \<Rightarrow> if second_rune r r1 then 1 else 0)"
  shows "\<exists>t l'. lex_op l = (t, l') \<and> tok_rep t (TOK_TOKEN, op_text (utf8 (r # take n rest))) \<and>
    lexer_at l' (before @ r # take n rest) (drop n rest) \<and> l_tpeek l' = l_tpeek l"
proof -
  have peek: "l_peek l = r" and pos: "l_pos l = length (utf8 before)"
    and src: "drop (length (utf8 before)) (l_src l) = runetochar r @ utf8 rest"
    using assms(1) by (simp_all add: lexer_at_def)
  note at1 = nextrune_at [OF assms(1)]
  show ?thesis
  proof (cases "\<exists>r1 rs1. rest = r1 # rs1 \<and> second_rune r r1")
    case True
    then obtain r1 rs1 where rest: "rest = r1 # rs1" and two: "second_rune r r1"
      by blast
    have "l_peek (nextrune l) = r1"
      using at1 rest by (simp add: lexer_at_def)
    moreover have "take (runelen r + 1) (runetochar r @ utf8 rest) = utf8 [r, r1]"
      using second_rune_ascii [OF two] rest by (simp add: runelen_def)
    ultimately show ?thesis
      using nextrune_at [of "nextrune l" "before @ [r]" r1 rs1] at1 rest two
      by (simp add: lex_op_def Let_def peek pos src tok_rep_def n_def del: utf8_simps)
  next
    case False
    have "\<not> second_rune r 0"
      by (simp add: second_rune_def)
    then have "\<not> second_rune r (l_peek (nextrune l))"
      using False at1 by (cases rest) (auto simp: lexer_at_def)
    moreover have "n = 0"
      using False by (auto simp: n_def split: list.splits)
    moreover have "take (runelen r) (runetochar r @ utf8 rest) = utf8 [r]"
      by (simp add: runelen_def)
    ultimately show ?thesis
      using at1 by (simp add: lex_op_def Let_def peek pos src tok_rep_def)
  qed
qed

lemma lexer_at_unpeek [simp]: "lexer_at (l\<lparr> l_tpeek := t \<rparr>) before rest \<longleftrightarrow> lexer_at l before rest"
  by (simp add: lexer_at_def)

lemma lexer_nexttok_at:
  assumes "lexer_at l before rest" "l_tpeek l = None"
  shows "case a_next rest of
      None \<Rightarrow> \<exists>l' before'. lexer_nexttok l = Inr (Inl SD_ERR_EOF, l') \<and> lexer_at l' before' [] \<and>
        l_tpeek l' = None
    | Some (x, rest') \<Rightarrow> \<exists>t l' before'. lexer_nexttok l = Inr (Inr t, l') \<and> tok_rep t x \<and>
        lexer_at l' before' rest' \<and> l_tpeek l' = None"
proof -
  define l1 where "l1 = skip_whitespace False l"
  obtain before1 where at1: "lexer_at l1 before1 (a_skip False rest)" and none: "l_tpeek l1 = None"
    using skip_whitespace_at [OF assms(1), of False] assms(2) by (auto simp: l1_def)
  show ?thesis
  proof (cases "a_skip False rest")
    case Nil
    then show ?thesis
      using at1 none assms(2) lexer_at_peek [OF at1]
      by (auto simp: a_next_def lexer_nexttok_def l1_def [symmetric])
  next
    case (Cons r rs)
    have at: "lexer_at l1 before1 (r # rs)"
      using at1 Cons by simp
    have peek: "l_peek l1 = r" "r \<noteq> 0"
      using at by (simp_all add: lexer_at_def)
    consider (num) "numstart r" | (ident) "\<not> numstart r" "identstart r"
      | (op) "\<not> numstart r" "\<not> identstart r"
      by blast
    then show ?thesis
    proof cases
      case num
      then show ?thesis
        using lex_number_at [OF at] assms(2) peek none Cons
        by (auto simp: a_next_def lexer_nexttok_def l1_def [symmetric] a_extent_def a_class_def Let_def)
    next
      case ident
      then show ?thesis
        using lex_ident_at [OF at] assms(2) peek none Cons
        by (fastforce simp: a_next_def lexer_nexttok_def l1_def [symmetric] a_extent_def a_class_def
            Let_def simp del: utf8_simps)
    next
      case op
      then show ?thesis
        using lex_op_at [OF at] assms(2) peek none Cons
        by (fastforce simp: a_next_def lexer_nexttok_def l1_def [symmetric] a_extent_def a_class_def
            Let_def simp del: utf8_simps)
    qed
  qed
qed

section \<open>The start of a text\<close>

text \<open>
  After \<open>lexer_init\<close> the first rune is the caller's, not the lower-cased one. A letter there
  makes no difference: the token it starts is cut out of the lower-cased copy.
\<close>

lemma nextrune_peek_cong:
  "runelen c = runelen (l_peek l) \<Longrightarrow> nextrune (l\<lparr> l_peek := c \<rparr>) = nextrune l"
  by (simp add: nextrune_def Let_def)

definition plain_letter :: "rune \<Rightarrow> bool" where
  "plain_letter c \<longleftrightarrow> isalpharune c \<and> \<not> isspacerune c \<and> \<not> numstart c \<and> c \<notin> {0, 10, 0x7B, 0x22}"

lemma lexer_nexttok_letter:
  assumes "plain_letter c" "plain_letter (l_peek l)" "runelen c = runelen (l_peek l)"
    "l_tpeek l = None"
  shows "lexer_nexttok (l\<lparr> l_peek := c \<rparr>) = lexer_nexttok l"
proof -
  have skip: "skip_whitespace False l' = l'" if "plain_letter (l_peek l')" for l'
    using that by (subst skip_whitespace.simps)
      (auto simp: skip_step_def plain_letter_def newline_def)
  have "ident_loop False (l\<lparr> l_peek := c \<rparr>) = ident_loop False l"
    using assms(3) by (subst (1 2) ident_loop.simps) (simp add: nextrune_peek_cong)
  then have "lex_ident (l\<lparr> l_peek := c \<rparr>) = lex_ident l"
    using assms(1,2) by (simp add: lex_ident_def plain_letter_def)
  then show ?thesis
    using assms by (simp add: lexer_nexttok_def skip)
      (simp add: plain_letter_def identstart_def)
qed

lemma plain_letter_range:
  assumes "0x41 \<le> c \<and> c \<le> 0x5A \<or> 0x61 \<le> c \<and> c \<le> 0x7A"
  shows "plain_letter c"
proof -
  have "c < 128"
    using assms by (auto simp: word_le_nat_alt word_less_nat_alt)
  then show ?thesis
    using assms
    by (auto simp: plain_letter_def isalpharune_ascii isspacerune_ascii numstart_def is_digit_def
        word_le_nat_alt)
qed

lemma plain_letter_ascii:
  assumes "0x41 \<le> c" "c \<le> 0x5A"
  shows "plain_letter c" "plain_letter (c + 32)" "tolowerrune c = c + 32"
proof -
  have c: "c < 128" "unat (c + 32) = unat c + 32"
    using assms by (simp_all add: word_le_nat_alt word_less_nat_alt unat_word_ariths)
  then have c32: "0x61 \<le> c + 32" "c + 32 \<le> 0x7A"
    using assms by (simp_all add: word_le_nat_alt)
  show "plain_letter c" "plain_letter (c + 32)"
    using assms c32 plain_letter_range by blast+
  show "tolowerrune c = c + 32"
    using assms c(1) by (simp add: tolowerrune_ascii)
qed

text \<open>
  The lexer \<open>l\<close> stands before the tokens \<open>ts\<close>: the peeked one, if any, and those of the rest.
  \<open>same_next\<close> covers the first rune.
\<close>

definition tokens_at :: "lexer \<Rightarrow> (token_type \<times> cstr) list \<Rightarrow> bool" where
  "tokens_at l ts \<longleftrightarrow> (\<exists>before rest. lexer_at l before rest \<and>
     (case l_tpeek l of
        None \<Rightarrow> ts = a_tokens rest
      | Some t \<Rightarrow> \<exists>x. tok_rep t x \<and> ts = x # a_tokens rest))"

definition same_next :: "lexer \<Rightarrow> lexer \<Rightarrow> bool" where
  "same_next l l' \<longleftrightarrow>
     l = l' \<or> l_tpeek l = None \<and> l_tpeek l' = None \<and> lexer_nexttok l = lexer_nexttok l'"

definition lex_rep :: "lexer \<Rightarrow> (token_type \<times> cstr) list \<Rightarrow> bool" where
  "lex_rep l ts \<longleftrightarrow> (\<exists>l'. same_next l l' \<and> tokens_at l' ts)"

definition start_ok :: "rune list \<Rightarrow> bool" where
  "start_ok rs \<longleftrightarrow> text_ok rs \<and> 0x130 \<notin> set rs \<and>
     (case rs of [] \<Rightarrow> True | r # _ \<Rightarrow> tolowerrune r = r \<or> r < 128)"

lemma start_ok_ascii: "ascii_ok s \<Longrightarrow> start_ok (ascii_runes s)"
  using text_ok_ascii [of s] ascii_no_dotted [of s]
  by (cases s) (auto simp: start_ok_def word_less_nat_alt unat_small)

lemma text_ok_tolower: "text_ok rs \<Longrightarrow> text_ok (map tolowerrune rs)"
  by (induction rs) (auto simp: tolowerrune_nonzero unat_tolower)

lemma lexer_init_rep:
  assumes "start_ok rs"
  shows "\<exists>l. lexer_init (utf8 rs) = Inr l \<and> lex_rep l (a_tokens (map tolowerrune rs))"
proof -
  have ok: "text_ok rs" "0x130 \<notin> set rs"
    using assms by (simp_all add: start_ok_def)
  have buf: "utf8_tolower (strdup (utf8 rs)) = Inr (strdup (lowered rs))"
    using utf8_tolower_buffer [OF ok(1), of "strdup (utf8 rs)" "[]"] length_lowered [OF ok(2)]
    by (simp add: strdup_def put_bytes_whole)
  have str: "cstr_of (strdup (lowered rs)) = Inr (lowered rs)"
    using cstr_ok_lowered [OF ok(1)] by (simp add: strdup_def)
  define l where "l = \<lparr> l_src = lowered rs, l_peek = (case rs of [] \<Rightarrow> 0 | r # _ \<Rightarrow> r),
    l_len = length (lowered rs), l_pos = 0, l_line = 0, l_lstart = 0, l_tpeek = None \<rparr>"
  define l0 where "l0 = l\<lparr> l_peek := (case rs of [] \<Rightarrow> 0 | r # _ \<Rightarrow> tolowerrune r) \<rparr>"
  have "peek_at (utf8 rs) 0 (int (length (lowered rs))) = (case rs of [] \<Rightarrow> 0 | r # _ \<Rightarrow> r)"
    using peek_at_text [OF ok(1), of "[]"] length_lowered [OF ok(2)] by simp
  then have init: "lexer_init (utf8 rs) = Inr l"
    by (auto simp: lexer_init_def buf str l_def split: list.splits)
  have "lexer_at l0 [] (map tolowerrune rs)"
    using text_ok_tolower [OF ok(1)]
    by (auto simp: lexer_at_def l0_def l_def lowered_def split: list.splits)
  then have "tokens_at l0 (a_tokens (map tolowerrune rs))"
    by (auto simp: tokens_at_def l0_def l_def)
  moreover have "same_next l l0"
  proof (cases rs)
    case Nil
    then show ?thesis
      by (simp add: same_next_def l0_def l_def)
  next
    case (Cons r rs')
    show ?thesis
    proof (cases "tolowerrune r = r")
      case True
      then show ?thesis
        using Cons by (simp add: same_next_def l0_def l_def)
    next
      case False
      then have "r < 128"
        using assms Cons by (simp add: start_ok_def)
      then have r: "0x41 \<le> r" "r \<le> 0x5A"
        using False by (auto simp: tolowerrune_ascii split: if_splits)
      have "lexer_nexttok (l0\<lparr> l_peek := r \<rparr>) = lexer_nexttok l0"
        using plain_letter_ascii [OF r] runelen_tolower [of r] ok(2) Cons
        by (intro lexer_nexttok_letter) (auto simp: l0_def l_def)
      moreover have "l0\<lparr> l_peek := r \<rparr> = l"
        using Cons by (simp add: l0_def l_def)
      ultimately show ?thesis
        by (simp add: same_next_def l0_def l_def)
    qed
  qed
  ultimately show ?thesis
    using init by (auto simp: lex_rep_def)
qed

section \<open>The lexer as a stream of tokens\<close>

text \<open>Taking the next token if it passes a test, the way every \<open>consume\<close> function does.\<close>

definition take_if ::
  "('s \<Rightarrow> ((sd_error + 't) \<times> 's) run) \<Rightarrow> ('s \<Rightarrow> ((sd_error + 't) \<times> 's) run) \<Rightarrow> ('t \<Rightarrow> bool) \<Rightarrow>
   's \<Rightarrow> ('t option \<times> 's) run" where
  "take_if peek take_next p s =
     rbind (peek s) (\<lambda>(res, s).
       case res of
         Inl _ \<Rightarrow> Inr (None, s)
       | Inr t \<Rightarrow>
           if p t
           then rbind (take_next s)
                  (\<lambda>(res, s). Inr (Some (case res of Inl _ \<Rightarrow> t | Inr t' \<Rightarrow> t'), s))
           else Inr (None, s))"

text \<open>
  The interface the parser works against: looking at the next token leaves it in place, and
  taking a token that was looked at gives that token.
\<close>

locale token_stream =
  fixes peek :: "'s \<Rightarrow> ((sd_error + 't) \<times> 's) run"
    and take_next :: "'s \<Rightarrow> ((sd_error + 't) \<times> 's) run"
    and rep :: "'s \<Rightarrow> 'x list \<Rightarrow> bool"
    and trep :: "'t \<Rightarrow> 'x \<Rightarrow> bool"
    and peeked :: "'s \<Rightarrow> 't \<Rightarrow> bool"
  assumes peek_empty: "rep s [] \<Longrightarrow> \<exists>s'. peek s = Inr (Inl SD_ERR_EOF, s') \<and> rep s' []"
    and peek_token: "rep s (x # xs) \<Longrightarrow>
      \<exists>t s'. peek s = Inr (Inr t, s') \<and> trep t x \<and> rep s' (x # xs) \<and> peeked s' t"
    and next_peeked: "peeked s t \<Longrightarrow> rep s (x # xs) \<Longrightarrow>
      \<exists>s'. take_next s = Inr (Inr t, s') \<and> rep s' xs"
begin

lemma take_if_empty: "rep s [] \<Longrightarrow> \<exists>s'. take_if peek take_next p s = Inr (None, s') \<and> rep s' []"
  using peek_empty [of s] by (auto simp: take_if_def)

lemma take_if_no:
  assumes "rep s (x # xs)" "\<And>t. trep t x \<Longrightarrow> \<not> p t"
  shows "\<exists>s'. take_if peek take_next p s = Inr (None, s') \<and> rep s' (x # xs)"
  using peek_token [OF assms(1)] assms(2) by (auto simp: take_if_def)

lemma take_if_yes:
  assumes "rep s (x # xs)" "\<And>t. trep t x \<Longrightarrow> p t"
  shows "\<exists>t s'. take_if peek take_next p s = Inr (Some t, s') \<and> trep t x \<and> rep s' xs"
proof -
  obtain t s' where t: "peek s = Inr (Inr t, s')" "trep t x" "rep s' (x # xs)" "peeked s' t"
    using peek_token [OF assms(1)] by blast
  then show ?thesis
    using next_peeked [OF t(4,3)] assms(2) by (auto simp: take_if_def)
qed

text \<open>Looking again at the next token finds the same tokens.\<close>

lemma peek_twice:
  "rep s (x # xs) \<Longrightarrow> peek s = Inr (r, s') \<Longrightarrow> \<exists>t s''. peek s' = Inr (Inr t, s'') \<and> trep t x"
  using peek_token [of s x xs] peek_token [of s' x xs] by auto

end

lemma tokens_at_next:
  assumes "tokens_at l ts" "l_tpeek l = None"
  shows "case ts of
      [] \<Rightarrow> \<exists>l'. lexer_nexttok l = Inr (Inl SD_ERR_EOF, l') \<and> tokens_at l' [] \<and> l_tpeek l' = None
    | x # xs \<Rightarrow> \<exists>t l'. lexer_nexttok l = Inr (Inr t, l') \<and> tok_rep t x \<and> tokens_at l' xs \<and>
        l_tpeek l' = None"
proof -
  obtain before rest where at: "lexer_at l before rest" and ts: "ts = a_tokens rest"
    using assms by (auto simp: tokens_at_def)
  have end_tokens: "a_tokens [] = []"
    by (simp add: a_tokens.simps a_next_def)
  show ?thesis
    using lexer_nexttok_at [OF at assms(2)] end_tokens
    by (subst ts, subst a_tokens.simps)
      (force simp: tokens_at_def split: option.splits prod.splits)
qed

lemma lex_rep_peeked: "l_tpeek l = Some t \<Longrightarrow> lex_rep l ts \<longleftrightarrow> tokens_at l ts"
  by (auto simp: lex_rep_def same_next_def)

lemma tokens_at_rep: "tokens_at l ts \<Longrightarrow> lex_rep l ts"
  by (auto simp: lex_rep_def same_next_def)

lemma tokens_at_store:
  "tokens_at l ts \<Longrightarrow> l_tpeek l = None \<Longrightarrow> tok_rep t x \<Longrightarrow> tokens_at (l\<lparr> l_tpeek := Some t \<rparr>) (x # ts)"
  by (cases x) (fastforce simp: tokens_at_def)

lemma lex_rep_next:
  assumes "lex_rep l ts" "l_tpeek l = None"
  shows "case ts of
      [] \<Rightarrow> \<exists>l'. lexer_nexttok l = Inr (Inl SD_ERR_EOF, l') \<and> tokens_at l' [] \<and> l_tpeek l' = None
    | x # xs \<Rightarrow> \<exists>t l'. lexer_nexttok l = Inr (Inr t, l') \<and> tok_rep t x \<and> tokens_at l' xs \<and>
        l_tpeek l' = None"
proof -
  obtain l0 where l0: "same_next l l0" "tokens_at l0 ts"
    using assms(1) by (auto simp: lex_rep_def)
  then have "lexer_nexttok l = lexer_nexttok l0" "l_tpeek l0 = None"
    using assms(2) by (auto simp: same_next_def)
  then show ?thesis
    using tokens_at_next [OF l0(2)] by (cases ts) simp_all
qed

interpretation lx: token_stream lexer_peek lexer_nexttok lex_rep tok_rep "\<lambda>l t. l_tpeek l = Some t"
proof unfold_locales
  fix s :: lexer
  assume rep: "lex_rep s ([] :: (token_type \<times> cstr) list)"
  then have "l_tpeek s = None"
    by (cases "l_tpeek s") (auto simp: lex_rep_peeked tokens_at_def)
  then show "\<exists>s'. lexer_peek s = Inr (Inl SD_ERR_EOF, s') \<and> lex_rep s' []"
    using lex_rep_next [OF rep] by (auto simp: lexer_peek_def tokens_at_rep)
next
  fix s :: lexer and x and xs :: "(token_type \<times> cstr) list"
  assume rep: "lex_rep s (x # xs)"
  show "\<exists>t s'. lexer_peek s = Inr (Inr t, s') \<and> tok_rep t x \<and> lex_rep s' (x # xs) \<and>
      l_tpeek s' = Some t"
  proof (cases "l_tpeek s")
    case None
    then obtain t l' where t: "lexer_nexttok s = Inr (Inr t, l')" "tok_rep t x" "tokens_at l' xs"
      "l_tpeek l' = None"
      using lex_rep_next [OF rep] by auto
    then show ?thesis
      using None tokens_at_store [OF t(3,4,2)] by (auto simp: lexer_peek_def lex_rep_peeked)
  next
    case (Some t)
    then show ?thesis
      using rep by (auto simp: lexer_peek_def lex_rep_peeked tokens_at_def)
  qed
next
  fix s :: lexer and t x and xs :: "(token_type \<times> cstr) list"
  assume "l_tpeek s = Some t" "lex_rep s (x # xs)"
  then show "\<exists>s'. lexer_nexttok s = Inr (Inr t, s') \<and> lex_rep s' xs"
    by (cases x) (fastforce simp: lexer_nexttok_def lex_rep_peeked tokens_at_def
        intro: tokens_at_rep)
qed

section \<open>Properties\<close>

text \<open>
  C17. One call of \<open>lexer_nexttok\<close> on a lexer that stands anywhere in a well-formed text: it
  skips the white space and comments, cuts out exactly the token the specification describes,
  of any of the four kinds, and stands right after it; no read leaves the buffer.
\<close>

theorem lexer_nexttok_refines:
  assumes "lexer_at l before rest" "l_tpeek l = None" "a_next rest = Some ((ty, s), rest')"
  shows "\<exists>t l' before'. lexer_nexttok l = Inr (Inr t, l') \<and> t_type t = ty \<and> t_start t = s \<and>
           t_len t = length s \<and> lexer_at l' before' rest'"
  using lexer_nexttok_at [OF assms(1,2)] assms(3) by (auto simp: tok_rep_def)

definition lexer_example :: lexer where
  "lexer_example = \<lparr> l_src = ''{x}<>a'', l_peek = 0x7B, l_len = 6, l_pos = 0, l_line = 0,
     l_lstart = 0, l_tpeek = None \<rparr>"

theorem lexer_nexttok_refines_witness:
  "\<exists>t l' before'. lexer_nexttok lexer_example = Inr (Inr t, l') \<and> t_type t = TOK_TOKEN \<and>
     t_start t = op_ne \<and> t_len t = length op_ne \<and> lexer_at l' before' [0x61]"
proof (rule lexer_nexttok_refines)
  show "lexer_at lexer_example [] [0x7B, 0x78, 0x7D, 0x3C, 0x3E, 0x61]"
    by (simp add: lexer_at_def lexer_example_def lex_eval)
  show "a_next [0x7B, 0x78, 0x7D, 0x3C, 0x3E, 0x61] = Some ((TOK_TOKEN, op_ne), [0x61])"
    by (simp add: lex_eval)
qed (simp add: lexer_example_def)

text \<open>
  From \<open>lexer_init\<close> on a well-formed text the lexer delivers the tokens of the lower-cased
  text, although its first rune is read from the text before it is lower-cased; the stream can
  be peeked at and taken from.
\<close>

theorem lexer_init_stream:
  assumes "start_ok rs"
  shows "\<exists>l. lexer_init (utf8 rs) = Inr l \<and> lex_rep l (a_tokens (map tolowerrune rs))"
  using assms by (rule lexer_init_rep)

theorem lexer_init_stream_witness:
  "\<exists>l. lexer_init (utf8 [0x41, 0x62]) = Inr l \<and> lex_rep l (a_tokens (map tolowerrune [0x41, 0x62]))"
  by (rule lexer_init_stream) (simp add: start_ok_def)

text \<open>
  Peeking does not consume: after a peek, the next token is the one that was peeked at, and
  after taking it the lexer stands before the remaining tokens.
\<close>

theorem lexer_peek_then_take:
  assumes "lex_rep l (x # xs)"
  shows "\<exists>t l' l''. lexer_peek l = Inr (Inr t, l') \<and> tok_rep t x \<and>
           lexer_nexttok l' = Inr (Inr t, l'') \<and> lex_rep l'' xs"
  using lx.peek_token [OF assms] lx.next_peeked by blast

theorem lexer_peek_then_take_witness:
  "\<exists>t l' l''. lexer_peek lexer_example = Inr (Inr t, l') \<and> tok_rep t (TOK_TOKEN, op_ne) \<and>
     lexer_nexttok l' = Inr (Inr t, l'') \<and> lex_rep l'' [(TOK_IDENT, ''a'')]"
proof (rule lexer_peek_then_take, rule tokens_at_rep)
  have "lexer_at lexer_example [] [0x7B, 0x78, 0x7D, 0x3C, 0x3E, 0x61]"
    by (simp add: lexer_at_def lexer_example_def lex_eval)
  moreover have "a_tokens [0x7B, 0x78, 0x7D, 0x3C, 0x3E, 0x61] = [(TOK_TOKEN, op_ne), (TOK_IDENT, ''a'')]"
    by (simp add: lex_eval)
  moreover have "l_tpeek lexer_example = None"
    by (simp add: lexer_example_def)
  ultimately show "tokens_at lexer_example [(TOK_TOKEN, op_ne), (TOK_IDENT, ''a'')]"
    unfolding tokens_at_def
    by (intro exI [of _ "[]"] exI [of _ "[0x7B, 0x78, 0x7D, 0x3C, 0x3E, 0x61]"]) simp
qed

end
