(* ===== verification/Parser.thy ===== *)
theory Parser
  imports Lexer
begin

text \<open>
  The parser of equations, the second half of \<^verbatim>\<open>parse.c\<close>: the recursive-descent functions
  \<open>expr\<close>, \<open>fact\<close>, \<open>call\<close>, \<open>ident\<close>, \<open>num\<close>, the \<open>consume\<close> functions they share, and
  \<open>avar_eqn_parse\<close>. A node is a value of the datatype \<open>node\<close> with a constructor per
  \<open>NodeType\<close>; \<open>Null\<close> is a null pointer. The functions recurse under a bound on the depth that
  \<open>parse_fuel\<close> provides and \<open>eqn_parse_total\<close> shows to be enough. Allocations succeed.
\<close>

section \<open>Nodes\<close>

text \<open>The functions of the run time a call can be bound to (\<open>RT_FNS\<close> of \<^verbatim>\<open>sim.c\<close>).\<close>

datatype rt_fn = RT_PULSE | RT_MIN | RT_MAX

text \<open>
  The fields \<open>fval\<close>, \<open>av\<close> and \<open>fn\<close> are filled by the walker of \<^verbatim>\<open>sim.c\<close>; \<open>av\<close> is the index of
  a variable. A fresh node has them zero.
\<close>

datatype node =
    Null
  | Paren node
  | FloatLit cstr fp
  | Ident cstr "nat option"
  | Call node "node list" "rt_fn option"
  | Binary rune node node
  | Unary rune node
  | If node node node

section \<open>State and tables\<close>

record parser =
  p_lex :: lexer
  p_errs :: "cstr list"

definition UNARY :: cstr where
  "UNARY = ''+-!''"

definition BINARY :: "cstr list" where
  "BINARY = [''^'', ''!'', ''*/%'', ''+-'', ''><'' @ op_ge @ op_le, ''='' @ op_ne, ''&'', ''|'']"

definition MAX_BINARY :: nat where
  "MAX_BINARY = length BINARY"

definition parser_errorf :: "parser \<Rightarrow> cstr \<Rightarrow> parser" where
  "parser_errorf p msg = p\<lparr> p_errs := p_errs p @ [take 63 msg] \<rparr>"

section \<open>Taking tokens\<close>

definition consume_if :: "(token \<Rightarrow> bool) \<Rightarrow> parser \<Rightarrow> (token option \<times> parser) run" where
  "consume_if test p =
     rbind (take_if lexer_peek lexer_nexttok test (p_lex p)) (\<lambda>(t, l). Inr (t, p\<lparr> p_lex := l \<rparr>))"

definition consume_tok :: "rune \<Rightarrow> parser \<Rightarrow> (bool \<times> parser) run" where
  "consume_tok r p =
     rbind (consume_if (\<lambda>t. t_type t = TOK_TOKEN \<and> peek_at (t_start t) 0 (int (t_len t)) = r) p)
       (\<lambda>(t, p). Inr (t \<noteq> None, p))"

definition consume_reserved :: "cstr \<Rightarrow> parser \<Rightarrow> (bool \<times> parser) run" where
  "consume_reserved s p =
     rbind (consume_if (\<lambda>t. t_type t = TOK_RESERVED \<and> t_start t = s) p)
       (\<lambda>(t, p). Inr (t \<noteq> None, p))"

lemma consume_any_less:
  "charntorune s (int (length ops) - int pos) = Some (r, n) \<Longrightarrow>
   length ops - (pos + n) < length ops - pos"
  using charntorune_bounds [of s _ r n] by fastforce

function consume_any :: "cstr \<Rightarrow> nat \<Rightarrow> parser \<Rightarrow> (rune option \<times> parser) run" where
  "consume_any ops pos p =
     (case charntorune (drop pos ops) (int (length ops) - int pos) of
        None \<Rightarrow> Inr (None, p)
      | Some (r, n) \<Rightarrow>
          rbind (consume_tok r p) (\<lambda>(ok, p).
            if ok then Inr (Some r, p) else consume_any ops (pos + n) p))"
  by pat_completeness auto
termination
  by (relation "measure (\<lambda>(ops, pos, _). length ops - pos)")
    (auto dest!: consume_any_less)

declare consume_any.simps [simp del]

definition num :: "parser \<Rightarrow> (node option \<times> parser) run" where
  "num p =
     rbind (consume_if (\<lambda>t. t_type t = TOK_NUMBER) p) (\<lambda>(t, p).
       case t of
         None \<Rightarrow> Inr (None, p)
       | Some t \<Rightarrow> Inr (Some (FloatLit (t_start t) d_zero), p))"

definition ident :: "parser \<Rightarrow> (node option \<times> parser) run" where
  "ident p =
     rbind (consume_if (\<lambda>t. t_type t = TOK_IDENT) p) (\<lambda>(t, p).
       case t of
         None \<Rightarrow> Inr (None, p)
       | Some t \<Rightarrow> rbind (canonicalize (t_start t)) (\<lambda>s. Inr (Some (Ident s None), p)))"

section \<open>The recursive descent\<close>

text \<open>
  The result is \<open>None\<close> when the C function returns false, and otherwise the node it stored
  through its pointer argument, \<open>Null\<close> when it returned true without storing one.
\<close>

type_synonym parsed = "(node option \<times> parser) run"

text \<open>
  Each function below is the body of the C function of that name (\<open>binary_loop\<close> is the loop of
  \<open>expr\<close>, \<open>fact_if\<close> the \<open>if\<close> branch of \<open>fact\<close>, \<open>call_args\<close> the loop of \<open>call\<close>); the calls it makes
  to one of them go through the argument \<open>rec\<close>, and \<open>descend\<close> ties the knot.
\<close>

datatype task = T_expr nat | T_loop nat node | T_fact | T_if | T_call node | T_args node "node list"

type_synonym callee = "task \<Rightarrow> parser \<Rightarrow> parsed"

definition expr :: "callee \<Rightarrow> nat \<Rightarrow> parser \<Rightarrow> parsed" where
  "expr rec level p =
     rbind (lexer_peek (p_lex p)) (\<lambda>(res, l).
       if res = Inl SD_ERR_EOF then Inr (Some Null, p\<lparr> p_lex := l \<rparr>)
       else
         rbind (if level + 1 = MAX_BINARY then rec T_fact (p\<lparr> p_lex := l \<rparr>)
                else rec (T_expr (level + 1)) (p\<lparr> p_lex := l \<rparr>)) (\<lambda>(lhs, p).
           case lhs of
             None \<Rightarrow> Inr (None, p)
           | Some lhs \<Rightarrow> rec (T_loop level lhs) p))"

definition binary_loop :: "callee \<Rightarrow> nat \<Rightarrow> node \<Rightarrow> parser \<Rightarrow> parsed" where
  "binary_loop rec level lhs p =
     rbind (consume_any (BINARY ! level) 0 p) (\<lambda>(op, p).
       case op of
         None \<Rightarrow> Inr (Some lhs, p)
       | Some op \<Rightarrow>
           rbind (if level + 1 = MAX_BINARY then rec T_fact p else rec (T_expr (level + 1)) p) (\<lambda>(rhs, p).
             case rhs of
               None \<Rightarrow> Inr (None, p)
             | Some rhs \<Rightarrow>
                 if rhs = Null then Inr (None, p)
                 else rec (T_loop level (Binary op lhs rhs)) p))"

definition fact :: "callee \<Rightarrow> parser \<Rightarrow> parsed" where
  "fact rec p =
     rbind (consume_tok 0x28 p) (\<lambda>(ok, p).
     if ok then
       rbind (rec (T_expr 0) p) (\<lambda>(l, p).
         case l of
           None \<Rightarrow> Inr (None, p)
         | Some l \<Rightarrow>
             rbind (consume_tok 0x29 p) (\<lambda>(ok, p).
               if ok then Inr (Some (Paren l), p)
               else Inr (None, parser_errorf p (''expected '' @ [CHR 0x27, CHR '')'', CHR 0x27]))))
     else
     rbind (consume_any UNARY 0 p) (\<lambda>(op, p).
     case op of
       Some op \<Rightarrow>
         rbind (rec (T_expr 0) p) (\<lambda>(l, p).
           case l of None \<Rightarrow> Inr (None, p) | Some l \<Rightarrow> Inr (Some (Unary op l), p))
     | None \<Rightarrow>
     rbind (num p) (\<lambda>(x, p).
     case x of
       Some x \<Rightarrow> Inr (Some x, p)
     | None \<Rightarrow>
     rbind (consume_reserved ''if'' p) (\<lambda>(ok, p).
     if ok then rec T_if p
     else
     rbind (ident p) (\<lambda>(x, p).
     case x of
       None \<Rightarrow> Inr (None, p)
     | Some x \<Rightarrow>
         rbind (consume_tok 0x28 p) (\<lambda>(ok, p).
           if ok then rec (T_call x) p else Inr (Some x, p)))))))"

definition fact_if :: "callee \<Rightarrow> parser \<Rightarrow> parsed" where
  "fact_if rec p =
     rbind (rec (T_expr 0) p) (\<lambda>(c, p).
     case c of
       None \<Rightarrow> Inr (None, p)
     | Some c \<Rightarrow>
     rbind (consume_reserved ''then'' p) (\<lambda>(ok, p).
     if \<not> ok then
       Inr (None, parser_errorf p (''expected '' @ CHR 0x27 # ''then'' @ [CHR 0x27]))
     else
     rbind (rec (T_expr 0) p) (\<lambda>(l, p).
     case l of
       None \<Rightarrow> Inr (None, p)
     | Some l \<Rightarrow>
     if l = Null then Inr (None, p)
     else
     rbind (consume_reserved ''else'' p) (\<lambda>(ok, p).
     if ok then
       rbind (rec (T_expr 0) p) (\<lambda>(r, p).
         case r of
           None \<Rightarrow> Inr (None, p)
         | Some r \<Rightarrow> if r = Null then Inr (None, p) else Inr (Some (If c l r), p))
     else Inr (Some (If c l Null), p)))))"

definition call :: "callee \<Rightarrow> node \<Rightarrow> parser \<Rightarrow> parsed" where
  "call rec fn p =
     rbind (consume_tok 0x29 p) (\<lambda>(ok, p).
       if ok then Inr (Some (Call fn [] None), p) else rec (T_args fn []) p)"

definition call_args :: "callee \<Rightarrow> node \<Rightarrow> node list \<Rightarrow> parser \<Rightarrow> parsed" where
  "call_args rec fn args p =
     rbind (rec (T_expr 0) p) (\<lambda>(arg, p).
     case arg of
       None \<Rightarrow> Inr (None, parser_errorf p ''call: expected expr arg'')
     | Some arg \<Rightarrow>
     rbind (consume_tok 0x2C p) (\<lambda>(ok, p).
     if ok then rec (T_args fn (args @ [arg])) p
     else
     rbind (consume_tok 0x29 p) (\<lambda>(ok, p).
     if ok then Inr (Some (Call fn (args @ [arg]) None), p)
     else Inr (None, parser_errorf p
       (''call: expected '' @ [CHR 0x27, CHR '','', CHR 0x27] @ '' or '' @ [CHR 0x27, CHR '')'', CHR 0x27])))))"

primrec descend :: "nat \<Rightarrow> callee" where
  "descend 0 t p = Inl OutOfFuel"
| "descend (Suc f) t p =
     (case t of
        T_expr level \<Rightarrow> expr (descend f) level p
      | T_loop level lhs \<Rightarrow> binary_loop (descend f) level lhs p
      | T_fact \<Rightarrow> fact (descend f) p
      | T_if \<Rightarrow> fact_if (descend f) p
      | T_call fn \<Rightarrow> call (descend f) fn p
      | T_args fn args \<Rightarrow> call_args (descend f) fn args p)"

text \<open>
  The bound: a token takes at least a byte, and from one token to the next the functions
  recurse at most twelve deep.
\<close>

definition parse_fuel :: "cstr \<Rightarrow> nat" where
  "parse_fuel src = 12 * (length src + 2)"

text \<open>
  \<open>avar_eqn_parse\<close>: the error code and the node stored in the variable (\<open>Null\<close> if none is
  stored, or if the equation is empty). \<open>None\<close> stands for an equation pointer that is null.
\<close>

definition avar_eqn_parse :: "cstr option \<Rightarrow> (sd_error \<times> node) run" where
  "avar_eqn_parse eqn =
     (case eqn of
        None \<Rightarrow> Inr (SD_ERR_UNSPECIFIED, Null)
      | Some src \<Rightarrow>
          rbind (lexer_init src) (\<lambda>l.
          rbind (descend (parse_fuel src) (T_expr 0) \<lparr> p_lex = l, p_errs = [] \<rparr>) (\<lambda>(n, p).
            case n of
              None \<Rightarrow> Inr (SD_ERR_UNSPECIFIED, Null)
            | Some n \<Rightarrow> Inr (SD_ERR_NO_ERROR, n))))"

section \<open>The descent on lists of tokens\<close>

text \<open>
  The same functions without the lexer: the state is the list of tokens that are left. What
  they do is what the grammar is about; that the parser does the same is a refinement.
\<close>

type_synonym tok = "token_type \<times> cstr"

type_synonym g_parsed = "(node option \<times> tok list) run"

type_synonym g_callee = "task \<Rightarrow> tok list \<Rightarrow> g_parsed"

definition UNARY_RUNES :: "rune list" where
  "UNARY_RUNES = [0x2B, 0x2D, 0x21]"

definition BINARY_RUNES :: "rune list list" where
  "BINARY_RUNES = [[0x5E], [0x21], [0x2A, 0x2F, 0x25], [0x2B, 0x2D],
     [0x3E, 0x3C, 0x2265, 0x2264], [0x3D, 0x2260], [0x26], [0x7C]]"

definition g_take :: "(tok \<Rightarrow> bool) \<Rightarrow> tok list \<Rightarrow> (tok option \<times> tok list) run" where
  "g_take test ts =
     (case ts of
        [] \<Rightarrow> Inr (None, [])
      | x # xs \<Rightarrow> if test x then Inr (Some x, xs) else Inr (None, ts))"

text \<open>The rune a token stands for as an operator.\<close>

definition is_op :: "tok \<Rightarrow> rune \<Rightarrow> bool" where
  "is_op x r \<longleftrightarrow> fst x = TOK_TOKEN \<and> peek_at (snd x) 0 (int (length (snd x))) = r"

definition g_tok :: "rune \<Rightarrow> tok list \<Rightarrow> (bool \<times> tok list) run" where
  "g_tok r ts = rbind (g_take (\<lambda>x. is_op x r) ts) (\<lambda>(t, ts). Inr (t \<noteq> None, ts))"

definition g_reserved :: "cstr \<Rightarrow> tok list \<Rightarrow> (bool \<times> tok list) run" where
  "g_reserved s ts = rbind (g_take (\<lambda>x. x = (TOK_RESERVED, s)) ts) (\<lambda>(t, ts). Inr (t \<noteq> None, ts))"

fun g_any :: "rune list \<Rightarrow> tok list \<Rightarrow> (rune option \<times> tok list) run" where
  "g_any [] ts = Inr (None, ts)"
| "g_any (r # rs) ts =
     rbind (g_tok r ts) (\<lambda>(ok, ts). if ok then Inr (Some r, ts) else g_any rs ts)"

definition g_num :: "tok list \<Rightarrow> g_parsed" where
  "g_num ts =
     rbind (g_take (\<lambda>x. fst x = TOK_NUMBER) ts) (\<lambda>(t, ts).
       case t of None \<Rightarrow> Inr (None, ts) | Some t \<Rightarrow> Inr (Some (FloatLit (snd t) d_zero), ts))"

definition g_ident :: "tok list \<Rightarrow> g_parsed" where
  "g_ident ts =
     rbind (g_take (\<lambda>x. fst x = TOK_IDENT) ts) (\<lambda>(t, ts).
       case t of
         None \<Rightarrow> Inr (None, ts)
       | Some t \<Rightarrow> rbind (canonicalize (snd t)) (\<lambda>s. Inr (Some (Ident s None), ts)))"

definition g_expr :: "g_callee \<Rightarrow> nat \<Rightarrow> tok list \<Rightarrow> g_parsed" where
  "g_expr rec level ts =
     (if ts = [] then Inr (Some Null, ts)
      else
        rbind (if level + 1 = MAX_BINARY then rec T_fact ts else rec (T_expr (level + 1)) ts) (\<lambda>(lhs, ts).
          case lhs of
            None \<Rightarrow> Inr (None, ts)
          | Some lhs \<Rightarrow> rec (T_loop level lhs) ts))"

definition g_binary_loop :: "g_callee \<Rightarrow> nat \<Rightarrow> node \<Rightarrow> tok list \<Rightarrow> g_parsed" where
  "g_binary_loop rec level lhs ts =
     rbind (g_any (BINARY_RUNES ! level) ts) (\<lambda>(op, ts).
       case op of
         None \<Rightarrow> Inr (Some lhs, ts)
       | Some op \<Rightarrow>
           rbind (if level + 1 = MAX_BINARY then rec T_fact ts else rec (T_expr (level + 1)) ts) (\<lambda>(rhs, ts).
             case rhs of
               None \<Rightarrow> Inr (None, ts)
             | Some rhs \<Rightarrow>
                 if rhs = Null then Inr (None, ts)
                 else rec (T_loop level (Binary op lhs rhs)) ts))"

definition g_fact :: "g_callee \<Rightarrow> tok list \<Rightarrow> g_parsed" where
  "g_fact rec ts =
     rbind (g_tok 0x28 ts) (\<lambda>(ok, ts).
     if ok then
       rbind (rec (T_expr 0) ts) (\<lambda>(l, ts).
         case l of
           None \<Rightarrow> Inr (None, ts)
         | Some l \<Rightarrow>
             rbind (g_tok 0x29 ts) (\<lambda>(ok, ts).
               if ok then Inr (Some (Paren l), ts)
               else Inr (None, ts)))
     else
     rbind (g_any UNARY_RUNES ts) (\<lambda>(op, ts).
     case op of
       Some op \<Rightarrow>
         rbind (rec (T_expr 0) ts) (\<lambda>(l, ts).
           case l of None \<Rightarrow> Inr (None, ts) | Some l \<Rightarrow> Inr (Some (Unary op l), ts))
     | None \<Rightarrow>
     rbind (g_num ts) (\<lambda>(x, ts).
     case x of
       Some x \<Rightarrow> Inr (Some x, ts)
     | None \<Rightarrow>
     rbind (g_reserved ''if'' ts) (\<lambda>(ok, ts).
     if ok then rec T_if ts
     else
     rbind (g_ident ts) (\<lambda>(x, ts).
     case x of
       None \<Rightarrow> Inr (None, ts)
     | Some x \<Rightarrow>
         rbind (g_tok 0x28 ts) (\<lambda>(ok, ts).
           if ok then rec (T_call x) ts else Inr (Some x, ts)))))))"

definition g_fact_if :: "g_callee \<Rightarrow> tok list \<Rightarrow> g_parsed" where
  "g_fact_if rec ts =
     rbind (rec (T_expr 0) ts) (\<lambda>(c, ts).
     case c of
       None \<Rightarrow> Inr (None, ts)
     | Some c \<Rightarrow>
     rbind (g_reserved ''then'' ts) (\<lambda>(ok, ts).
     if \<not> ok then
       Inr (None, ts)
     else
     rbind (rec (T_expr 0) ts) (\<lambda>(l, ts).
     case l of
       None \<Rightarrow> Inr (None, ts)
     | Some l \<Rightarrow>
     if l = Null then Inr (None, ts)
     else
     rbind (g_reserved ''else'' ts) (\<lambda>(ok, ts).
     if ok then
       rbind (rec (T_expr 0) ts) (\<lambda>(r, ts).
         case r of
           None \<Rightarrow> Inr (None, ts)
         | Some r \<Rightarrow> if r = Null then Inr (None, ts) else Inr (Some (If c l r), ts))
     else Inr (Some (If c l Null), ts)))))"

definition g_call :: "g_callee \<Rightarrow> node \<Rightarrow> tok list \<Rightarrow> g_parsed" where
  "g_call rec fn ts =
     rbind (g_tok 0x29 ts) (\<lambda>(ok, ts).
       if ok then Inr (Some (Call fn [] None), ts) else rec (T_args fn []) ts)"

definition g_call_args :: "g_callee \<Rightarrow> node \<Rightarrow> node list \<Rightarrow> tok list \<Rightarrow> g_parsed" where
  "g_call_args rec fn args ts =
     rbind (rec (T_expr 0) ts) (\<lambda>(arg, ts).
     case arg of
       None \<Rightarrow> Inr (None, ts)
     | Some arg \<Rightarrow>
     rbind (g_tok 0x2C ts) (\<lambda>(ok, ts).
     if ok then rec (T_args fn (args @ [arg])) ts
     else
     rbind (g_tok 0x29 ts) (\<lambda>(ok, ts).
     if ok then Inr (Some (Call fn (args @ [arg]) None), ts)
     else Inr (None, ts))))"

primrec g_descend :: "nat \<Rightarrow> g_callee" where
  "g_descend 0 t ts = Inl OutOfFuel"
| "g_descend (Suc f) t ts =
     (case t of
        T_expr level \<Rightarrow> g_expr (g_descend f) level ts
      | T_loop level lhs \<Rightarrow> g_binary_loop (g_descend f) level lhs ts
      | T_fact \<Rightarrow> g_fact (g_descend f) ts
      | T_if \<Rightarrow> g_fact_if (g_descend f) ts
      | T_call fn \<Rightarrow> g_call (g_descend f) fn ts
      | T_args fn args \<Rightarrow> g_call_args (g_descend f) fn args ts)"

section \<open>Refinement\<close>

definition parser_at :: "parser \<Rightarrow> tok list \<Rightarrow> bool" where
  "parser_at p ts \<longleftrightarrow> lex_rep (p_lex p) ts"

text \<open>Both sides fail alike, or give the same value and related states.\<close>

fun same_run :: "('a \<times> parser) run \<Rightarrow> ('a \<times> tok list) run \<Rightarrow> bool" where
  "same_run (Inr (x, p)) (Inr (y, ts)) = (x = y \<and> parser_at p ts)"
| "same_run (Inl e) (Inl e') = (e = e')"
| "same_run _ _ = False"

lemma same_run_bind:
  assumes "same_run a b" "\<And>x p ts. parser_at p ts \<Longrightarrow> same_run (f (x, p)) (g (x, ts))"
  shows "same_run (rbind a f) (rbind b g)"
  using assms by (cases a; cases b) auto

lemma parser_at_errorf [simp]: "parser_at (parser_errorf p msg) ts \<longleftrightarrow> parser_at p ts"
  by (simp add: parser_at_def parser_errorf_def)

lemma consume_if_run:
  assumes at: "parser_at p ts" and test: "\<And>t x. tok_rep t x \<Longrightarrow> test t = test' x"
  shows "\<exists>t' p'. consume_if test p = Inr (t', p') \<and>
    (case ts of
       [] \<Rightarrow> t' = None \<and> parser_at p' []
     | x # xs \<Rightarrow> if test' x then (\<exists>t. t' = Some t \<and> tok_rep t x) \<and> parser_at p' xs
                 else t' = None \<and> parser_at p' ts)"
proof (cases ts)
  case Nil
  then show ?thesis
    using at lx.take_if_empty [of "p_lex p" test] by (auto simp: consume_if_def parser_at_def)
next
  case (Cons x xs)
  then have rep: "lex_rep (p_lex p) (x # xs)"
    using at by (simp add: parser_at_def)
  show ?thesis
  proof (cases "test' x")
    case True
    then show ?thesis
      using Cons lx.take_if_yes [OF rep, of test] test by (auto simp: consume_if_def parser_at_def)
  next
    case False
    then show ?thesis
      using Cons lx.take_if_no [OF rep, of test] test by (auto simp: consume_if_def parser_at_def)
  qed
qed

lemma consume_tok_run: "parser_at p ts \<Longrightarrow> same_run (consume_tok r p) (g_tok r ts)"
  using consume_if_run [of p ts
      "\<lambda>t. t_type t = TOK_TOKEN \<and> peek_at (t_start t) 0 (int (t_len t)) = r" "\<lambda>x. is_op x r"]
  by (cases ts) (auto simp: consume_tok_def g_tok_def g_take_def tok_rep_def is_op_def split: if_splits)

lemma consume_reserved_run: "parser_at p ts \<Longrightarrow> same_run (consume_reserved s p) (g_reserved s ts)"
  using consume_if_run [of p ts "\<lambda>t. t_type t = TOK_RESERVED \<and> t_start t = s"
      "\<lambda>x. x = (TOK_RESERVED, s)"]
  by (cases ts) (auto simp: consume_reserved_def g_reserved_def g_take_def tok_rep_def split: if_splits)

lemma num_run: "parser_at p ts \<Longrightarrow> same_run (num p) (g_num ts)"
  using consume_if_run [of p ts "\<lambda>t. t_type t = TOK_NUMBER" "\<lambda>x. fst x = TOK_NUMBER"]
  by (cases ts) (auto simp: num_def g_num_def g_take_def tok_rep_def split: if_splits)

lemma ident_run: "parser_at p ts \<Longrightarrow> same_run (ident p) (g_ident ts)"
proof -
  assume at: "parser_at p ts"
  show ?thesis
    using consume_if_run [OF at, of "\<lambda>t. t_type t = TOK_IDENT" "\<lambda>x. fst x = TOK_IDENT"]
    by (cases ts; cases "canonicalize (snd (hd ts))")
      (auto simp: ident_def g_ident_def g_take_def tok_rep_def split: if_splits)
qed

lemma consume_any_run:
  "text_ok rs \<Longrightarrow> parser_at p ts \<Longrightarrow>
   same_run (consume_any (utf8 (before @ rs)) (length (utf8 before)) p) (g_any rs ts)"
proof (induction rs arbitrary: before p ts)
  case Nil
  then show ?case
    by (subst consume_any.simps) simp
next
  case (Cons r rs)
  have "charntorune (runetochar r @ utf8 rs) (int (length (runetochar r)) + int (length (utf8 rs))) =
      Some (r, length (runetochar r))"
    using Cons.prems charntorune_text [of r "utf8 rs" "length (utf8 rs)"] by simp
  moreover have "same_run (consume_any (utf8 (before @ r # rs)) (length (utf8 before) + length (runetochar r)) p)
      (g_any rs ts)" if "parser_at p ts" for p ts
    using Cons.IH [of p ts "before @ [r]"] Cons.prems that by simp
  ultimately show ?case
    by (subst consume_any.simps)
      (auto intro!: same_run_bind consume_tok_run Cons.prems(2))
qed

lemma op_tables:
  "UNARY = utf8 UNARY_RUNES" "BINARY = map utf8 BINARY_RUNES" "text_ok UNARY_RUNES"
  "list_all text_ok BINARY_RUNES" "length BINARY_RUNES = MAX_BINARY" "MAX_BINARY = 8"
  by (simp_all add: UNARY_def UNARY_RUNES_def BINARY_def BINARY_RUNES_def MAX_BINARY_def
      runetochar_def encode_arith eq_char_of_iff op_ge_def op_le_def op_ne_def)

lemma unary_run: "parser_at p ts \<Longrightarrow> same_run (consume_any UNARY 0 p) (g_any UNARY_RUNES ts)"
  using consume_any_run [of UNARY_RUNES p ts "[]"] op_tables by simp

lemma binary_run:
  assumes "level < MAX_BINARY" "parser_at p ts"
  shows "same_run (consume_any (BINARY ! level) 0 p) (g_any (BINARY_RUNES ! level) ts)"
proof -
  have "BINARY ! level = utf8 (BINARY_RUNES ! level)"
    using assms(1) op_tables(2,5) by (metis nth_map)
  then show ?thesis
    using consume_any_run [of "BINARY_RUNES ! level" p ts "[]"] op_tables(4,5) assms
    by (simp add: list_all_length)
qed

definition task_ok :: "task \<Rightarrow> bool" where
  "task_ok t = (case t of T_expr level \<Rightarrow> level < MAX_BINARY | T_loop level _ \<Rightarrow> level < MAX_BINARY | _ \<Rightarrow> True)"

lemma task_ok_simps [simp]:
  "task_ok (T_expr level) = (level < MAX_BINARY)" "task_ok (T_loop level n) = (level < MAX_BINARY)"
  "task_ok T_fact" "task_ok T_if" "task_ok (T_call n)" "task_ok (T_args n ns)"
  by (simp_all add: task_ok_def)

lemma expr_run:
  assumes rec: "\<And>t p ts. task_ok t \<Longrightarrow> parser_at p ts \<Longrightarrow> same_run (c t p) (g t ts)"
    and "parser_at p ts" "level < MAX_BINARY"
  shows "same_run (expr c level p) (g_expr g level ts)"
proof (cases ts)
  case Nil
  then show ?thesis
    using lx.peek_empty [of "p_lex p"] assms(2) by (auto simp: expr_def g_expr_def parser_at_def)
next
  case (Cons x xs)
  then obtain t l where t: "lexer_peek (p_lex p) = Inr (Inr t, l)" "lex_rep l ts"
    using lx.peek_token [of "p_lex p" x xs] assms(2) by (auto simp: parser_at_def)
  then have at: "parser_at (p\<lparr> p_lex := l \<rparr>) ts"
    by (simp add: parser_at_def)
  show ?thesis
    using t(1) Cons assms(3) at
    by (auto simp: expr_def g_expr_def intro!: same_run_bind rec split: option.splits)
qed

lemma binary_loop_run:
  assumes rec: "\<And>t p ts. task_ok t \<Longrightarrow> parser_at p ts \<Longrightarrow> same_run (c t p) (g t ts)"
    and "parser_at p ts" "level < MAX_BINARY"
  shows "same_run (binary_loop c level lhs p) (g_binary_loop g level lhs ts)"
  unfolding binary_loop_def g_binary_loop_def
  using assms(2,3) by (auto intro!: same_run_bind rec binary_run split: option.splits)

lemma fact_run:
  assumes rec: "\<And>t p ts. task_ok t \<Longrightarrow> parser_at p ts \<Longrightarrow> same_run (c t p) (g t ts)"
    and "parser_at p ts"
  shows "same_run (fact c p) (g_fact g ts)"
  unfolding fact_def g_fact_def
  using assms(2) op_tables(6)
  by (auto intro!: same_run_bind rec consume_tok_run consume_reserved_run unary_run num_run ident_run
      split: option.splits)

lemma fact_if_run:
  assumes rec: "\<And>t p ts. task_ok t \<Longrightarrow> parser_at p ts \<Longrightarrow> same_run (c t p) (g t ts)"
    and "parser_at p ts"
  shows "same_run (fact_if c p) (g_fact_if g ts)"
  unfolding fact_if_def g_fact_if_def
  using assms(2) op_tables(6)
  by (auto intro!: same_run_bind rec consume_reserved_run split: option.splits)

lemma call_run:
  assumes rec: "\<And>t p ts. task_ok t \<Longrightarrow> parser_at p ts \<Longrightarrow> same_run (c t p) (g t ts)"
    and "parser_at p ts"
  shows "same_run (call c fn p) (g_call g fn ts)"
    and "same_run (call_args c fn args p) (g_call_args g fn args ts)"
  unfolding call_def g_call_def call_args_def g_call_args_def
  using assms(2) op_tables(6)
  by (auto intro!: same_run_bind rec consume_tok_run split: option.splits)

lemma descend_run:
  "task_ok t \<Longrightarrow> parser_at p ts \<Longrightarrow> same_run (descend f t p) (g_descend f t ts)"
proof (induction f arbitrary: t p ts)
  case (Suc f)
  then show ?case
    using expr_run [of "descend f" "g_descend f"] binary_loop_run [of "descend f" "g_descend f"]
      fact_run [of "descend f" "g_descend f"] fact_if_run [of "descend f" "g_descend f"]
      call_run [of "descend f" "g_descend f"]
    by (cases t) simp_all
qed simp

section \<open>The bound is enough\<close>

definition fits :: "('a \<Rightarrow> bool) \<Rightarrow> 'a run \<Rightarrow> bool" where
  "fits P r = (case r of Inl e \<Rightarrow> e \<noteq> OutOfFuel | Inr x \<Rightarrow> P x)"

lemma fits_simps [simp]: "fits P (Inr x) = P x" "fits P (Inl e) \<longleftrightarrow> e \<noteq> OutOfFuel"
  by (simp_all add: fits_def)

lemma fits_bind: "fits Q r \<Longrightarrow> (\<And>x. Q x \<Longrightarrow> fits P (f x)) \<Longrightarrow> fits P (rbind r f)"
  by (cases r) auto

lemma lower_write_fuel: "lower_write buf off len doff \<noteq> Inl OutOfFuel"
proof (induction buf off len doff rule: lower_write.induct)
  case (1 buf off len doff)
  then show ?case
    by (subst lower_write.simps) (auto simp: Let_def read_fault_def split: option.splits)
qed

lemma cstr_of_fuel: "cstr_of buf \<noteq> Inl OutOfFuel"
  by (induction buf rule: cstr_of.induct) (auto simp: rbind_eq_Inl)

lemma canonicalize_fuel: "canonicalize n \<noteq> Inl OutOfFuel"
  using lower_write_fuel cstr_of_fuel
  by (auto simp: canonicalize_eq rbind_eq_Inl utf8_tolower_def awrite_def split: prod.splits)

text \<open>What a sub-parser promises about the tokens it leaves and the node it returns.\<close>

definition promise :: "task \<Rightarrow> tok list \<Rightarrow> node option \<times> tok list \<Rightarrow> bool" where
  "promise t ts r =
     (case r of
        (None, _) \<Rightarrow> True
      | (Some n, ts') \<Rightarrow>
          length ts' \<le> length ts \<and>
          (case t of
             T_expr _ \<Rightarrow> ts \<noteq> [] \<longrightarrow> n \<noteq> Null \<and> length ts' < length ts
           | T_loop _ lhs \<Rightarrow> lhs \<noteq> Null \<longrightarrow> n \<noteq> Null
           | T_fact \<Rightarrow> n \<noteq> Null \<and> length ts' < length ts
           | _ \<Rightarrow> n \<noteq> Null))"

definition need :: "task \<Rightarrow> nat \<Rightarrow> nat" where
  "need t n =
     (case t of
        T_expr level \<Rightarrow> 12 * n + 9 - level
      | T_loop _ _ \<Rightarrow> 12 * n + 1
      | T_fact \<Rightarrow> 12 * n + 1
      | T_if \<Rightarrow> 12 * n + 10
      | T_call _ \<Rightarrow> 12 * n + 11
      | T_args _ _ \<Rightarrow> 12 * n + 10)"

lemma g_tok_fits:
  "fits (\<lambda>(ok, ts'). if ok then \<exists>x. ts = x # ts' else ts' = ts) (g_tok r ts)"
  "fits (\<lambda>(ok, ts'). if ok then \<exists>x. ts = x # ts' else ts' = ts) (g_reserved s ts)"
  by (auto simp: g_tok_def g_reserved_def g_take_def split: list.splits)

lemma g_any_fits:
  "fits (\<lambda>(op, ts'). case op of None \<Rightarrow> ts' = ts | Some r \<Rightarrow> \<exists>x. ts = x # ts') (g_any rs ts)"
proof (induction rs)
  case (Cons r rs)
  then show ?case
    by (auto intro!: fits_bind [OF g_tok_fits(1)] split: if_splits)
qed simp

lemma g_leaf_fits:
  "fits (\<lambda>(n, ts'). case n of None \<Rightarrow> ts' = ts | Some n \<Rightarrow> n \<noteq> Null \<and> (\<exists>x. ts = x # ts')) (g_num ts)"
  "fits (\<lambda>(n, ts'). case n of None \<Rightarrow> ts' = ts | Some n \<Rightarrow> n \<noteq> Null \<and> (\<exists>x. ts = x # ts')) (g_ident ts)"
proof -
  show "fits (\<lambda>(n, ts'). case n of None \<Rightarrow> ts' = ts | Some n \<Rightarrow> n \<noteq> Null \<and> (\<exists>x. ts = x # ts')) (g_num ts)"
    by (auto simp: g_num_def g_take_def split: list.splits)
  have "fits (\<lambda>_. True) (canonicalize n)" for n
    using canonicalize_fuel [of n] by (cases "canonicalize n") auto
  then show "fits (\<lambda>(n, ts'). case n of None \<Rightarrow> ts' = ts | Some n \<Rightarrow> n \<noteq> Null \<and> (\<exists>x. ts = x # ts')) (g_ident ts)"
    by (auto simp: g_ident_def g_take_def intro!: fits_bind split: list.splits)
qed

lemma promise_None [simp]: "promise t ts (None, ts')"
  by (simp add: promise_def)

text \<open>A callee that keeps its promise on every task that needs at most \<open>f\<close>.\<close>

definition keeps :: "g_callee \<Rightarrow> nat \<Rightarrow> bool" where
  "keeps g f \<longleftrightarrow> (\<forall>t ts. task_ok t \<longrightarrow> need t (length ts) \<le> f \<longrightarrow> fits (promise t ts) (g t ts))"

lemma keeps_bind:
  assumes "keeps g f" "task_ok t" "need t (length ts) \<le> f"
    and "\<And>ts'. fits P (k (None, ts'))"
    and "\<And>n ts'. promise t ts (Some n, ts') \<Longrightarrow> fits P (k (Some n, ts'))"
  shows "fits P (rbind (g t ts) k)"
proof (rule fits_bind)
  show "fits (promise t ts) (g t ts)"
    using assms by (simp add: keeps_def)
  show "fits P (k x)" if "promise t ts x" for x
    using assms(4,5) that by (cases x; cases "fst x") auto
qed

lemma keeps_fits: "keeps g f \<Longrightarrow> task_ok t \<Longrightarrow> need t (length ts) \<le> f \<Longrightarrow>
  (\<And>r. promise t ts r \<Longrightarrow> P r) \<Longrightarrow> fits P (g t ts)"
  unfolding keeps_def by (metis (no_types) fits_def sum.case_eq_if)

lemma keeps_loop:
  assumes "keeps g f" "level < MAX_BINARY" "12 * length ts' + 1 \<le> f" "length ts' < length ts"
  shows "lhs \<noteq> Null \<Longrightarrow> fits (promise (T_expr level) ts) (g (T_loop level lhs) ts')"
    and "fits (promise (T_loop level n) ts) (g (T_loop level (Binary op lhs rhs)) ts')"
  using assms
  by (auto intro!: keeps_fits [OF assms(1)] simp: need_def promise_def split: option.splits)

lemma keeps_rest:
  assumes "keeps g f"
  shows "12 * length ts' + 10 \<le> f \<Longrightarrow> length ts' < length ts \<Longrightarrow>
      fits (promise T_fact ts) (g T_if ts')"
    and "12 * length ts' + 11 \<le> f \<Longrightarrow> length ts' < length ts \<Longrightarrow>
      fits (promise T_fact ts) (g (T_call n) ts')"
    and "12 * length ts' + 10 \<le> f \<Longrightarrow> length ts' \<le> length ts \<Longrightarrow>
      fits (promise (T_call n) ts) (g (T_args n ns) ts')"
    and "12 * length ts' + 10 \<le> f \<Longrightarrow> length ts' \<le> length ts \<Longrightarrow>
      fits (promise (T_args n ns) ts) (g (T_args n' ns') ts')"
  using assms
  by (auto intro!: keeps_fits [OF assms] simp: need_def promise_def split: option.splits)

lemma need_expr: "12 * n + 9 \<le> f \<Longrightarrow> need (T_expr level) n \<le> f"
  by (simp add: need_def)

lemma g_expr_keeps:
  assumes "keeps g f" "level < MAX_BINARY" "need (T_expr level) (length ts) \<le> Suc f"
  shows "fits (promise (T_expr level) ts) (g_expr g level ts)"
proof (cases "ts = []")
  case False
  then have n: "0 < length ts"
    by simp
  have level: "level < 8"
    using assms(2) op_tables(6) by simp
  have "12 * length ts + 2 \<le> Suc f"
    using assms(3) level by (simp add: need_def)
  then show ?thesis
    using False n assms(2,3) level
    by (auto simp: g_expr_def op_tables(6) need_def promise_def [of T_fact] promise_def [of "T_expr (Suc _)"]
        intro!: keeps_bind [OF assms(1)] keeps_loop [OF assms(1)])
qed (simp add: g_expr_def promise_def)

lemma g_loop_keeps:
  assumes "keeps g f" "level < MAX_BINARY" "need (T_loop level lhs) (length ts) \<le> Suc f"
  shows "fits (promise (T_loop level lhs) ts) (g_binary_loop g level lhs ts)"
proof -
  have level: "level < 8"
    using assms(2) op_tables(6) by simp
  have "12 * length ts \<le> f"
    using assms(3) by (simp add: need_def)
  then show ?thesis
    unfolding g_binary_loop_def using level
    by (auto simp: op_tables(6) need_def [of T_fact] promise_def [of T_fact] promise_def [of "T_expr _"]
        promise_def [of "T_loop _ _" _ "(Some lhs, ts)"]
        intro!: fits_bind [OF g_any_fits] keeps_bind [OF assms(1)] keeps_loop(2) [OF assms(1)] need_expr
        split: option.splits)
qed

lemma g_fact_keeps:
  assumes "keeps g f" "need T_fact (length ts) \<le> Suc f"
  shows "fits (promise T_fact ts) (g_fact g ts)"
proof -
  have "12 * length ts \<le> f"
    using assms(2) by (simp add: need_def)
  then show ?thesis
    unfolding g_fact_def
    by (auto simp: op_tables(6) promise_def [of "T_expr _"] promise_def [of "T_fact" _ "(Some _, _)"]
        intro!: fits_bind [OF g_any_fits] fits_bind [OF g_tok_fits(1)] fits_bind [OF g_tok_fits(2)]
          fits_bind [OF g_leaf_fits(1)] fits_bind [OF g_leaf_fits(2)] keeps_bind [OF assms(1)]
          keeps_rest [OF assms(1)] need_expr
        split: option.splits if_splits)
qed

lemma g_if_keeps:
  assumes "keeps g f" "need T_if (length ts) \<le> Suc f"
  shows "fits (promise T_if ts) (g_fact_if g ts)"
proof -
  have "12 * length ts + 9 \<le> f"
    using assms(2) by (simp add: need_def)
  then show ?thesis
    unfolding g_fact_if_def
    by (auto simp: op_tables(6) promise_def [of "T_expr _"] promise_def [of "T_if" _ "(Some _, _)"]
        intro!: fits_bind [OF g_tok_fits(2)] keeps_bind [OF assms(1)] need_expr
        split: option.splits if_splits)
qed

lemma g_call_keeps:
  assumes "keeps g f"
  shows "need (T_call n) (length ts) \<le> Suc f \<Longrightarrow> fits (promise (T_call n) ts) (g_call g n ts)"
    and "need (T_args n ns) (length ts) \<le> Suc f \<Longrightarrow>
      fits (promise (T_args n ns) ts) (g_call_args g n ns ts)"
  unfolding g_call_def g_call_args_def
  by (auto simp: op_tables(6) promise_def [of "T_expr _"] promise_def [of "T_call _" _ "(Some _, _)"]
      promise_def [of "T_args _ _" _ "(Some _, _)"] need_def [of "T_call _"] need_def [of "T_args _ _"]
      intro!: fits_bind [OF g_tok_fits(1)] keeps_bind [OF assms(1)] keeps_rest [OF assms(1)] need_expr
      split: option.splits if_splits)

lemma need_pos: "task_ok t \<Longrightarrow> 0 < need t n"
  by (auto simp: need_def op_tables(6) split: task.splits)

lemma g_descend_keeps: "keeps (g_descend f) f"
proof (induction f)
  case 0
  then show ?case
    using need_pos by (fastforce simp: keeps_def)
next
  case (Suc f)
  show ?case
    unfolding keeps_def
  proof (intro allI impI)
    fix t and ts :: "tok list"
    assume "task_ok t" "need t (length ts) \<le> Suc f"
    then show "fits (promise t ts) (g_descend (Suc f) t ts)"
      using Suc by (cases t) (simp_all add: g_expr_keeps g_loop_keeps g_fact_keeps g_if_keeps g_call_keeps)
  qed
qed

section \<open>Where a fault can come from\<close>

text \<open>The only fault besides the bound is a name \<open>canonicalize\<close> cannot handle.\<close>

definition bad_name :: "tok list \<Rightarrow> fault \<Rightarrow> bool" where
  "bad_name ts e \<longleftrightarrow> (\<exists>s. (TOK_IDENT, s) \<in> set ts \<and> canonicalize s = Inl e)"

definition blames :: "tok list \<Rightarrow> ('a \<times> tok list) run \<Rightarrow> bool" where
  "blames ts r =
     (case r of Inl e \<Rightarrow> e = OutOfFuel \<or> bad_name ts e | Inr (_, ts') \<Rightarrow> set ts' \<subseteq> set ts)"

lemma blames_simps [simp]:
  "blames ts (Inr (x, ts')) \<longleftrightarrow> set ts' \<subseteq> set ts"
  "blames ts (Inl e) \<longleftrightarrow> e = OutOfFuel \<or> bad_name ts e"
  by (simp_all add: blames_def)

lemma blames_mono: "blames ts' r \<Longrightarrow> set ts' \<subseteq> set ts \<Longrightarrow> blames ts r"
  by (cases r) (auto simp: bad_name_def blames_def)

lemma blames_bind:
  assumes "blames ts r" "\<And>x ts'. blames ts' (k (x, ts'))"
  shows "blames ts (rbind r k)"
  using assms(1) by (cases r) (auto intro: blames_mono [OF assms(2)])

lemma g_tok_blames: "blames ts (g_tok r ts)" "blames ts (g_reserved s ts)" "blames ts (g_num ts)"
  by (auto simp: g_tok_def g_reserved_def g_num_def g_take_def split: list.splits)

lemma g_any_blames: "blames ts (g_any rs ts)"
proof (induction rs arbitrary: ts)
  case (Cons r rs)
  then show ?case
    by (auto intro!: blames_bind g_tok_blames)
qed simp

lemma g_ident_blames: "blames ts (g_ident ts)"
proof (cases ts)
  case (Cons x xs)
  then show ?thesis
    by (cases x; cases "canonicalize (snd x)")
      (auto simp: g_ident_def g_take_def bad_name_def)
qed (simp add: g_ident_def g_take_def)

lemma g_descend_blames: "blames ts (g_descend f t ts)"
proof (induction f arbitrary: t ts)
  case (Suc f)
  note rules = blames_bind g_tok_blames g_any_blames g_ident_blames Suc
  show ?case
  proof (cases t)
    case (T_expr level)
    then show ?thesis
      by (auto simp: g_expr_def intro!: rules split: option.splits)
  next
    case (T_loop level n)
    then show ?thesis
      by (auto simp: g_binary_loop_def intro!: rules split: option.splits)
  next
    case T_fact
    then show ?thesis
      by (auto simp: g_fact_def intro!: rules split: option.splits)
  next
    case T_if
    then show ?thesis
      by (auto simp: g_fact_if_def intro!: rules split: option.splits)
  next
    case (T_call n)
    then show ?thesis
      by (auto simp: g_call_def intro!: rules)
  next
    case (T_args n ns)
    then show ?thesis
      by (auto simp: g_call_args_def intro!: rules split: option.splits)
  qed
qed simp

text \<open>Names without double quotes cut out of a text can be canonicalised.\<close>

definition unquoted :: "rune list \<Rightarrow> bool" where
  "unquoted rs \<longleftrightarrow> text_ok rs \<and> 0x130 \<notin> set rs \<and> 0x22 \<notin> set rs"

lemma unquoted_append [simp]: "unquoted (a @ b) \<longleftrightarrow> unquoted a \<and> unquoted b"
  by (auto simp: unquoted_def)

lemma unquoted_sub:
  assumes "unquoted rs"
  shows "unquoted (take n rs)" "unquoted (drop n rs)"
  using assms unquoted_append [of "take n rs" "drop n rs"] by simp_all

lemma hd_runetochar_quote: "unat r \<le> Runemax \<Longrightarrow> runetochar r ! 0 = CHR 0x22 \<Longrightarrow> r = 0x22"
proof -
  assume r: "unat r \<le> Runemax" and q: "runetochar r ! 0 = CHR 0x22"
  have "byte_at (runetochar r) 0 = 0x22"
    using q by (simp add: byte_at_def)
  then have "fst (chartorune (runetochar r)) = 0x22"
    by (simp add: chartorune_def)
  then show "r = 0x22"
    using charntorune_text [OF r, of "[]" 0] by (simp add: charntorune_Some)
qed

lemma unquoted_canonicalize: "unquoted rs \<Longrightarrow> \<exists>s. canonicalize (utf8 rs) = Inr s"
proof -
  assume u: "unquoted rs"
  have "\<not> quoted (utf8 rs)"
  proof (cases rs)
    case (Cons r rs')
    then have "utf8 rs ! 0 = runetochar r ! 0" "unat r \<le> Runemax" "r \<noteq> 0x22"
      using u by (auto simp: unquoted_def nth_append)
    then show ?thesis
      using hd_runetochar_quote by (auto simp: quoted_def)
  qed (simp add: quoted_def)
  then show ?thesis
    using canonicalize_plain [of rs] u by (auto simp: unquoted_def)
qed

lemma a_skip_suffix: "\<exists>pre. rs = pre @ a_skip c rs"
proof (induction c rs rule: a_skip.induct)
  case (2 c r rs)
  show ?case
  proof (cases "skip_step c r")
    case (Some c')
    then obtain pre where "rs = pre @ a_skip c' rs"
      using 2 by blast
    then have "r # rs = (r # pre) @ a_skip c' rs"
      by simp
    then show ?thesis
      using Some by (metis a_skip.simps(2) option.simps(5))
  qed simp
qed simp

lemma word_token_ident: "word_token s = (TOK_IDENT, t) \<Longrightarrow> t = s"
  by (auto simp: word_token_def split: option.splits if_splits)

lemma a_tokens_names:
  "unquoted rs \<Longrightarrow> (TOK_IDENT, s) \<in> set (a_tokens rs) \<Longrightarrow> \<exists>rs'. unquoted rs' \<and> s = utf8 rs'"
proof (induction rs rule: a_tokens.induct)
  case (1 rs)
  obtain pre where pre: "rs = pre @ a_skip False rs"
    using a_skip_suffix by blast
  show ?case
  proof (cases "a_skip False rs")
    case Nil
    then show ?thesis
      using 1(3) by (subst (asm) a_tokens.simps) (simp add: a_next_def)
  next
    case (Cons r rs1)
    define n where "n = a_extent r rs1"
    have next': "a_next rs = Some (a_class r (utf8 (r # take n rs1)), drop n rs1)"
      using Cons by (simp add: a_next_def n_def Let_def)
    have u: "unquoted (r # rs1)"
      using 1(2) pre Cons by (metis unquoted_append)
    then have u1: "unquoted (r # take n rs1)" "unquoted (drop n rs1)"
      using unquoted_sub(1) [OF u, of "Suc n"] unquoted_sub(2) [OF u, of "Suc n"] by simp_all
    have "(TOK_IDENT, s) = a_class r (utf8 (r # take n rs1)) \<or> (TOK_IDENT, s) \<in> set (a_tokens (drop n rs1))"
      using 1(3) next' by (subst (asm) a_tokens.simps) auto
    then show ?thesis
    proof
      assume "(TOK_IDENT, s) = a_class r (utf8 (r # take n rs1))"
      then have "s = utf8 (r # take n rs1)"
        by (auto simp: a_class_def dest!: word_token_ident [OF sym] split: if_splits simp del: utf8_simps)
      then show ?thesis
        using u1 by blast
    next
      assume "(TOK_IDENT, s) \<in> set (a_tokens (drop n rs1))"
      then show ?thesis
        using 1(1) [OF next' _ u1(2)] by (cases "a_class r (utf8 (r # take n rs1))") auto
    qed
  qed
qed

section \<open>The whole equation\<close>

lemma length_a_tokens: "length (a_tokens rs) \<le> length rs"
proof (induction rs rule: a_tokens.induct)
  case (1 rs)
  show ?case
  proof (cases "a_next rs")
    case None
    then show ?thesis
      by (subst a_tokens.simps) simp
  next
    case (Some x)
    then obtain t rs' where x: "a_next rs = Some (t, rs')"
      by (cases x) auto
    then show ?thesis
      using 1 [OF x refl] a_next_less [OF x] by (subst a_tokens.simps) simp
  qed
qed

lemma length_utf8_ge: "length rs \<le> length (utf8 rs)"
proof (induction rs)
  case (Cons r rs)
  then show ?case
    using runelen_pos [of r, unfolded runelen_def]
    unfolding utf8_simps length_append list.size by linarith
qed simp

definition eqn_result :: "(node option \<times> tok list) run \<Rightarrow> (sd_error \<times> node) run" where
  "eqn_result r =
     rbind r (\<lambda>(n, _). case n of None \<Rightarrow> Inr (SD_ERR_UNSPECIFIED, Null) | Some n \<Rightarrow> Inr (SD_ERR_NO_ERROR, n))"

lemma eqn_parse_refines:
  assumes "start_ok rs"
  shows "avar_eqn_parse (Some (utf8 rs)) =
    eqn_result (g_descend (parse_fuel (utf8 rs)) (T_expr 0) (a_tokens (map tolowerrune rs)))"
proof -
  obtain l where l: "lexer_init (utf8 rs) = Inr l" "lex_rep l (a_tokens (map tolowerrune rs))"
    using lexer_init_rep [OF assms] by blast
  then have "parser_at \<lparr> p_lex = l, p_errs = [] \<rparr> (a_tokens (map tolowerrune rs))"
    by (simp add: parser_at_def)
  then have run: "same_run (descend (parse_fuel (utf8 rs)) (T_expr 0) \<lparr> p_lex = l, p_errs = [] \<rparr>)
      (g_descend (parse_fuel (utf8 rs)) (T_expr 0) (a_tokens (map tolowerrune rs)))"
    by (intro descend_run) (simp_all add: op_tables)
  show ?thesis
  proof (cases "descend (parse_fuel (utf8 rs)) (T_expr 0) \<lparr> p_lex = l, p_errs = [] \<rparr>")
    case (Inl e)
    then show ?thesis
      using run l by (cases "g_descend (parse_fuel (utf8 rs)) (T_expr 0) (a_tokens (map tolowerrune rs))")
        (auto simp: avar_eqn_parse_def eqn_result_def)
  next
    case (Inr x)
    then show ?thesis
      using run l by (cases x; cases "g_descend (parse_fuel (utf8 rs)) (T_expr 0) (a_tokens (map tolowerrune rs))")
        (auto simp: avar_eqn_parse_def eqn_result_def)
  qed
qed

lemma g_descend_fuel: "12 * length ts + 9 \<le> f \<Longrightarrow> g_descend f (T_expr 0) ts \<noteq> Inl OutOfFuel"
  using g_descend_keeps [of f] need_expr [of "length ts" f 0] op_tables(6)
  by (fastforce simp: keeps_def dest: spec [of _ "T_expr 0"] spec [of _ ts])

lemma parse_fuel_enough:
  "12 * length (a_tokens (map tolowerrune rs)) + 9 \<le> parse_fuel (utf8 rs)"
  using length_a_tokens [of "map tolowerrune rs"] length_utf8_ge [of rs] by (simp add: parse_fuel_def)

lemma unquoted_lower:
  assumes "start_ok rs" "0x22 \<notin> set rs"
  shows "unquoted (map tolowerrune rs)"
  using assms text_ok_tolower [of rs] tolower_avoids
  by (fastforce simp: unquoted_def start_ok_def)

section \<open>Printing\<close>

lemma less_8: "(l < (8::nat)) \<longleftrightarrow> l = 0 \<or> l = 1 \<or> l = 2 \<or> l = 3 \<or> l = 4 \<or> l = 5 \<or> l = 6 \<or> l = 7"
  by auto

definition level_of :: "rune \<Rightarrow> nat option" where
  "level_of r = find (\<lambda>l. r \<in> set (BINARY_RUNES ! l)) [0, 1, 2, 3, 4, 5, 6, 7]"

lemma level_of_table:
  "list_all (\<lambda>l. list_all (\<lambda>r. level_of r = Some l) (BINARY_RUNES ! l)) [0, 1, 2, 3, 4, 5, 6, 7]"
  by (simp add: level_of_def BINARY_RUNES_def)

lemma level_of: "r \<in> set (BINARY_RUNES ! l) \<Longrightarrow> l < 8 \<Longrightarrow> level_of r = Some l"
  using level_of_table by (auto simp: less_8 list_all_iff)

lemma find_SomeD: "find P xs = Some x \<Longrightarrow> x \<in> set xs \<and> P x"
  by (induction xs) (auto split: if_splits)

lemma level_of_Some: "level_of r = Some l \<longleftrightarrow> l < 8 \<and> r \<in> set (BINARY_RUNES ! l)"
proof
  assume "level_of r = Some l"
  then have "l \<in> set [0, 1, 2, 3, 4, 5, 6, 7] \<and> r \<in> set (BINARY_RUNES ! l)"
    unfolding level_of_def by (rule find_SomeD)
  then show "l < 8 \<and> r \<in> set (BINARY_RUNES ! l)"
    by (simp only: set_simps insert_iff empty_iff less_8 simp_thms)
qed (simp add: level_of)

text \<open>
  The trees the parser builds, printed back as tokens. \<open>show_node\<close> adds no parentheses; \<open>printable\<close>
  says which trees it fits: at level \<open>k\<close> a binary operator of a level from \<open>k\<close> up, its left
  operand closed (not ending in a unary operator or a conditional, which would swallow what
  follows) and its right operand of a higher level. Names must be canonical.
\<close>

definition op_tok :: "rune \<Rightarrow> tok" where
  "op_tok r = (TOK_TOKEN, runetochar r)"

fun show_node :: "node \<Rightarrow> tok list" where
  "show_node Null = []"
| "show_node (Paren e) = op_tok 0x28 # show_node e @ [op_tok 0x29]"
| "show_node (FloatLit s v) = [(TOK_NUMBER, s)]"
| "show_node (Ident s v) = [(TOK_IDENT, s)]"
| "show_node (Call f as v) =
     show_node f @ op_tok 0x28 #
       (case as of
          [] \<Rightarrow> [op_tok 0x29]
        | a # as' \<Rightarrow> show_node a @ concat (map (\<lambda>b. op_tok 0x2C # show_node b) as') @ [op_tok 0x29])"
| "show_node (Binary r a b) = show_node a @ op_tok r # show_node b"
| "show_node (Unary r a) = op_tok r # show_node a"
| "show_node (If c a b) =
     (TOK_RESERVED, ''if'') # show_node c @ (TOK_RESERVED, ''then'') # show_node a @
     (TOK_RESERVED, ''else'') # show_node b"

fun closed :: "node \<Rightarrow> bool" where
  "closed (Binary r a b) = closed b"
| "closed (Unary r a) = False"
| "closed (If c a b) = False"
| "closed _ = True"

fun printable :: "nat \<Rightarrow> node \<Rightarrow> bool" where
  "printable k Null = False"
| "printable k (Paren e) = printable 0 e"
| "printable k (FloatLit s v) = (v = d_zero)"
| "printable k (Ident s v) = (v = None \<and> canonicalize s = Inr s)"
| "printable k (Call f as v) =
     (v = None \<and> (case f of Ident s w \<Rightarrow> w = None \<and> canonicalize s = Inr s | _ \<Rightarrow> False) \<and>
      list_all (printable 0) as)"
| "printable k (Binary r a b) =
     (case level_of r of
        None \<Rightarrow> False
      | Some l \<Rightarrow> k \<le> l \<and> printable l a \<and> closed a \<and> printable (Suc l) b)"
| "printable k (Unary r a) = (r \<in> set UNARY_RUNES \<and> printable 0 a)"
| "printable k (If c a b) = (printable 0 c \<and> printable 0 a \<and> printable 0 b)"

section \<open>More fuel changes nothing\<close>

definition less_def :: "'a run \<Rightarrow> 'a run \<Rightarrow> bool" where
  "less_def a b \<longleftrightarrow> a = Inl OutOfFuel \<or> a = b"

lemma less_def_refl [simp]: "less_def a a" "less_def (Inl OutOfFuel) a"
  by (simp_all add: less_def_def)

lemma less_def_bind:
  "less_def a b \<Longrightarrow> (\<And>x. less_def (f x) (g x)) \<Longrightarrow> less_def (rbind a f) (rbind b g)"
  by (cases a; cases b) (auto simp: less_def_def)

lemma bodies_mono:
  assumes "\<And>t ts. less_def (g t ts) (h t ts)"
  shows "less_def (g_expr g level ts) (g_expr h level ts)"
    "less_def (g_binary_loop g level n ts) (g_binary_loop h level n ts)"
    "less_def (g_fact g ts) (g_fact h ts)"
    "less_def (g_fact_if g ts) (g_fact_if h ts)"
    "less_def (g_call g n ts) (g_call h n ts)"
    "less_def (g_call_args g n ns ts) (g_call_args h n ns ts)"
  unfolding g_expr_def g_binary_loop_def g_fact_def g_fact_if_def g_call_def g_call_args_def
  by (auto intro!: less_def_bind assms split: option.splits)

definition g_step :: "g_callee \<Rightarrow> g_callee" where
  "g_step g t ts =
     (case t of
        T_expr level \<Rightarrow> g_expr g level ts
      | T_loop level lhs \<Rightarrow> g_binary_loop g level lhs ts
      | T_fact \<Rightarrow> g_fact g ts
      | T_if \<Rightarrow> g_fact_if g ts
      | T_call fn \<Rightarrow> g_call g fn ts
      | T_args fn args \<Rightarrow> g_call_args g fn args ts)"

lemma g_descend_step: "g_descend (Suc f) = g_step (g_descend f)"
  by (intro ext) (simp add: g_step_def)

lemma g_step_mono: "(\<And>t ts. less_def (g t ts) (h t ts)) \<Longrightarrow> less_def (g_step g t ts) (g_step h t ts)"
  using bodies_mono [of g h] by (cases t) (simp_all add: g_step_def)

lemma g_descend_Suc: "less_def (g_descend f t ts) (g_descend (Suc f) t ts)"
proof (induction f arbitrary: t ts)
  case (Suc f)
  then show ?case
    unfolding g_descend_step [of "Suc f"] by (subst g_descend_step) (rule g_step_mono)
qed simp

lemma g_descend_mono:
  assumes "f \<le> f'" "g_descend f t ts \<noteq> Inl OutOfFuel"
  shows "g_descend f' t ts = g_descend f t ts"
  using assms
proof (induction f')
  case (Suc f')
  then show ?case
    using g_descend_Suc [of f' t ts] by (cases "f = Suc f'") (auto simp: less_def_def)
qed simp

section \<open>Printing and parsing\<close>

text \<open>With enough fuel the task \<open>t\<close> gives \<open>r\<close>.\<close>

definition yields :: "task \<Rightarrow> tok list \<Rightarrow> (node option \<times> tok list) run \<Rightarrow> bool" where
  "yields t ts r \<longleftrightarrow> (\<exists>f0. \<forall>f \<ge> f0. g_descend f t ts = r)"

definition level_task :: "nat \<Rightarrow> task" where
  "level_task k = (if k = 8 then T_fact else T_expr k)"

text \<open>The next token does not go on with an expression of level \<open>k\<close>.\<close>

definition not_open :: "tok list \<Rightarrow> bool" where
  "not_open ts = (case ts of [] \<Rightarrow> True | x # _ \<Rightarrow> \<not> is_op x 0x28)"

definition stop :: "nat \<Rightarrow> tok list \<Rightarrow> bool" where
  "stop k ts \<longleftrightarrow> not_open ts \<and>
     (case ts of [] \<Rightarrow> True | x # _ \<Rightarrow> \<forall>l < 8. k \<le> l \<longrightarrow> (\<forall>r \<in> set (BINARY_RUNES ! l). \<not> is_op x r))"

lemma stop_mono: "stop k ts \<Longrightarrow> k \<le> k' \<Longrightarrow> stop k' ts"
  by (auto simp: stop_def split: list.splits)

lemma g_any_none: "(case ts of [] \<Rightarrow> True | x # _ \<Rightarrow> \<forall>r \<in> set rs. \<not> is_op x r) \<Longrightarrow> g_any rs ts = Inr (None, ts)"
  by (induction rs) (auto simp: g_tok_def g_take_def split: list.splits)

lemma g_any_some:
  "r \<in> set rs \<Longrightarrow> is_op x r \<Longrightarrow> g_any rs (x # ts) = Inr (Some r, ts)"
  by (induction rs) (auto simp: g_tok_def g_take_def is_op_def)

lemma g_tok_simps [simp]:
  "g_tok r [] = Inr (False, [])"
  "is_op x r \<Longrightarrow> g_tok r (x # ts) = Inr (True, ts)"
  "\<not> is_op x r \<Longrightarrow> g_tok r (x # ts) = Inr (False, x # ts)"
  by (simp_all add: g_tok_def g_take_def)

lemma g_reserved_simps [simp]:
  "g_reserved s ((TOK_RESERVED, s) # ts) = Inr (True, ts)"
  "fst x \<noteq> TOK_RESERVED \<Longrightarrow> g_reserved s (x # ts) = Inr (False, x # ts)"
  by (auto simp: g_reserved_def g_take_def)

lemma is_op_other [simp]:
  "\<not> is_op (TOK_NUMBER, s) r" "\<not> is_op (TOK_IDENT, s) r" "\<not> is_op (TOK_RESERVED, s) r"
  by (simp_all add: is_op_def)

lemma is_op_tok: "unat r \<le> Runemax \<Longrightarrow> is_op (op_tok r) r' \<longleftrightarrow> r' = r"
  using charntorune_text [of r "[]" 0] by (auto simp: is_op_def op_tok_def peek_at_def)

lemma yields_loop_stop:
  assumes "k < 8" "stop k rest"
  shows "yields (T_loop k n) rest (Inr (Some n, rest))"
proof -
  have "g_any (BINARY_RUNES ! k) rest = Inr (None, rest)"
    using assms by (intro g_any_none) (auto simp: stop_def split: list.splits)
  then have "g_descend f (T_loop k n) rest = Inr (Some n, rest)" if "1 \<le> f" for f
    using that by (cases f) (simp_all add: g_binary_loop_def)
  then show ?thesis
    by (auto simp: yields_def)
qed

lemma yields_expr:
  assumes "k < 8" "ts \<noteq> []" "yields (level_task (Suc k)) ts (Inr (Some n, rest))"
    "yields (T_loop k n) rest r"
  shows "yields (level_task k) ts r"
proof -
  obtain f1 f2 where f: "\<And>f. f \<ge> f1 \<Longrightarrow> g_descend f (level_task (Suc k)) ts = Inr (Some n, rest)"
    "\<And>f. f \<ge> f2 \<Longrightarrow> g_descend f (T_loop k n) rest = r"
    using assms(3,4) by (auto simp: yields_def)
  have "g_descend f (level_task k) ts = r" if "Suc (max f1 f2) \<le> f" for f
    using that assms(1,2) f [of "f - 1"]
    by (cases f) (auto simp: g_expr_def level_task_def op_tables(6))
  then show ?thesis
    by (auto simp: yields_def)
qed

lemma yields_climb:
  assumes "yields (level_task j) ts (Inr (Some n, rest))" "j \<le> 8" "k < j" "ts \<noteq> []" "stop (Suc k) rest"
    "yields (T_loop k n) rest r"
  shows "yields (level_task k) ts r"
proof -
  have "i < j - k \<Longrightarrow> yields (level_task (j - i)) ts (Inr (Some n, rest))" for i
  proof (induction i)
    case 0
    then show ?case
      using assms(1) by simp
  next
    case (Suc i)
    let ?l = "j - Suc i"
    have l: "Suc ?l = j - i" "?l < 8" "Suc k \<le> ?l"
      using Suc.prems assms by auto
    then show ?case
      using Suc.IH Suc.prems yields_loop_stop [of ?l rest n] stop_mono [OF assms(5), of ?l] assms(4)
      by (intro yields_expr [of ?l ts n rest]) auto
  qed
  moreover have "j - (j - k - 1) = Suc k"
    using assms(3) by arith
  ultimately have "yields (level_task (Suc k)) ts (Inr (Some n, rest))"
    using assms(3) by (metis diff_less zero_less_diff zero_less_one)
  then show ?thesis
    using assms by (intro yields_expr [of k ts n rest]) auto
qed

lemma op_level:
  assumes "r \<in> set (BINARY_RUNES ! l)" "l < 8"
  shows "unat r \<le> Runemax" "r \<noteq> 0x28" "r \<noteq> 0x29" "r \<noteq> 0x2C"
  using assms by (auto simp: less_8 BINARY_RUNES_def)

lemma op_level_unique:
  "r \<in> set (BINARY_RUNES ! l) \<Longrightarrow> r \<in> set (BINARY_RUNES ! l') \<Longrightarrow> l < 8 \<Longrightarrow> l' < 8 \<Longrightarrow> l = l'"
  using level_of by (metis option.inject)

lemma stop_op_tok:
  "unat r \<le> Runemax \<Longrightarrow> stop k (op_tok r # ts) \<longleftrightarrow>
     r \<noteq> 0x28 \<and> (\<forall>l < 8. k \<le> l \<longrightarrow> r \<notin> set (BINARY_RUNES ! l))"
  by (auto simp: stop_def not_open_def is_op_tok)

lemma stop_closers [simp]:
  "stop k (op_tok 0x29 # ts)" "stop k (op_tok 0x2C # ts)" "stop k ((TOK_RESERVED, s) # ts)" "stop k []"
  using op_level(3) [of "0x29"] op_level(4) [of "0x2C"]
  by (auto simp: stop_op_tok) (simp_all add: stop_def not_open_def)

lemma stop_op:
  assumes "r \<in> set (BINARY_RUNES ! l)" "l < 8"
  shows "stop (Suc l) (op_tok r # ts)"
proof -
  have "r \<notin> set (BINARY_RUNES ! l')" if "l' < 8" "Suc l \<le> l'" for l'
    using op_level_unique [OF assms(1) _ assms(2) that(1)] that(2) by auto
  then show ?thesis
    using op_level(1,2) [OF assms] by (simp add: stop_op_tok)
qed

lemma unary_op: "r \<in> set UNARY_RUNES \<Longrightarrow> unat r \<le> Runemax \<and> r \<noteq> 0x28"
  by (auto simp: UNARY_RUNES_def)

fun primary :: "node \<Rightarrow> bool" where
  "primary (Binary r a b) = False"
| "primary Null = False"
| "primary _ = True"

text \<open>The two claims of the induction.\<close>

definition fact_ok :: "node \<Rightarrow> bool" where
  "fact_ok n \<longleftrightarrow> (\<forall>k rest. primary n \<longrightarrow> printable k n \<longrightarrow> not_open rest \<longrightarrow> closed n \<or> stop 0 rest \<longrightarrow>
     yields T_fact (show_node n @ rest) (Inr (Some n, rest)))"

definition expr_ok :: "node \<Rightarrow> bool" where
  "expr_ok n \<longleftrightarrow> (\<forall>k rest r. printable k n \<longrightarrow> k < 8 \<longrightarrow> stop (Suc k) rest \<longrightarrow> closed n \<or> stop 0 rest \<longrightarrow>
     yields (T_loop k n) rest r \<longrightarrow> yields (level_task k) (show_node n @ rest) r)"

lemma printable_not_Null: "printable k n \<Longrightarrow> n \<noteq> Null"
  by auto

lemma show_nonempty: "printable k n \<Longrightarrow> show_node n \<noteq> []"
  by (cases n) auto

lemma stop_not_open: "stop k ts \<Longrightarrow> not_open ts"
  by (simp add: stop_def)

lemma expr_ok_primary:
  assumes "fact_ok n" "primary n"
  shows "expr_ok n"
  unfolding expr_ok_def
proof (intro allI impI)
  fix k rest r
  assume p: "printable k n" "k < 8" "stop (Suc k) rest" "closed n \<or> stop 0 rest"
    "yields (T_loop k n) rest r"
  have "yields T_fact (show_node n @ rest) (Inr (Some n, rest))"
    using assms p(1,4) stop_not_open [OF p(3)] unfolding fact_ok_def by blast
  then have "yields (level_task 8) (show_node n @ rest) (Inr (Some n, rest))"
    by (simp add: level_task_def)
  then show "yields (level_task k) (show_node n @ rest) r"
    using p(2,3,5) show_nonempty [OF p(1)] by (elim yields_climb) simp_all
qed

lemma level_ok:
  assumes "fact_ok n" "expr_ok n" "printable k n" "k \<le> 8" "stop k rest" "closed n \<or> stop 0 rest"
  shows "yields (level_task k) (show_node n @ rest) (Inr (Some n, rest))"
proof (cases "k = 8")
  case True
  then have "primary n"
    using assms(3) level_of_Some by (cases n) (auto split: option.splits)
  then show ?thesis
    using assms True stop_not_open [OF assms(5)]
    unfolding fact_ok_def by (simp add: level_task_def) blast
next
  case False
  then have "k < 8"
    using assms(4) by simp
  moreover have "yields (T_loop k n) rest (Inr (Some n, rest))"
    using \<open>k < 8\<close> assms(5) by (rule yields_loop_stop)
  ultimately show ?thesis
    using assms(2,3,6) stop_mono [OF assms(5) le_SucI [OF order_refl]] unfolding expr_ok_def by blast
qed

lemma expr0_ok:
  assumes "fact_ok n" "expr_ok n" "printable 0 n" "stop 0 rest"
  shows "yields (T_expr 0) (show_node n @ rest) (Inr (Some n, rest))"
  using level_ok [OF assms(1,2,3) _ assms(4)] assms(4) by (simp add: level_task_def)

lemma expr_ok_Binary:
  assumes a: "fact_ok a" "expr_ok a" and b: "fact_ok b" "expr_ok b"
  shows "expr_ok (Binary r a b)"
  unfolding expr_ok_def
proof (intro allI impI)
  fix k rest res
  assume p: "printable k (Binary r a b)" and k: "k < 8" "stop (Suc k) rest"
    "closed (Binary r a b) \<or> stop 0 rest" "yields (T_loop k (Binary r a b)) rest res"
  obtain l where l: "l < 8" "k \<le> l" "r \<in> set (BINARY_RUNES ! l)" "printable l a" "closed a"
    "printable (Suc l) b"
    using p level_of_Some by (auto split: option.splits)
  have top: "yields (level_task l) (show_node (Binary r a b) @ rest) res'"
    if res: "yields (T_loop l (Binary r a b)) rest res'" for res'
  proof -
    have "stop (Suc l) rest"
      using k(2) l(2) stop_mono by auto
    then have "yields (level_task (Suc l)) (show_node b @ rest) (Inr (Some b, rest))"
      using b l k(3) by (intro level_ok) auto
    then obtain f1 where f1: "\<And>f. f \<ge> f1 \<Longrightarrow> g_descend f (level_task (Suc l)) (show_node b @ rest) =
        Inr (Some b, rest)"
      by (auto simp: yields_def)
    obtain f2 where f2: "\<And>f. f \<ge> f2 \<Longrightarrow> g_descend f (T_loop l (Binary r a b)) rest = res'"
      using res by (auto simp: yields_def)
    have op: "g_any (BINARY_RUNES ! l) (op_tok r # show_node b @ rest) = Inr (Some r, show_node b @ rest)"
      using l op_level [of r l] by (intro g_any_some) (auto simp: is_op_tok)
    have "g_descend f (T_loop l a) (op_tok r # show_node b @ rest) = res'" if "Suc (max f1 f2) \<le> f" for f
      using that f1 [of "f - 1"] f2 [of "f - 1"] op l(1) printable_not_Null [OF l(6)]
      by (cases f) (auto simp: g_binary_loop_def level_task_def op_tables(6) split: if_splits)
    then have "yields (T_loop l a) (op_tok r # show_node b @ rest) res'"
      by (auto simp: yields_def)
    then show ?thesis
      using a l stop_op [of r l "show_node b @ rest"] by (auto simp: expr_ok_def)
  qed
  show "yields (level_task k) (show_node (Binary r a b) @ rest) res"
  proof (cases "k = l")
    case True
    then show ?thesis
      using top k(4) by simp
  next
    case False
    then have "yields (level_task l) (show_node (Binary r a b) @ rest) (Inr (Some (Binary r a b), rest))"
      using k(2) l yields_loop_stop [of l rest] stop_mono [of "Suc k" rest l] by (intro top) auto
    then show ?thesis
      using False l(1,2) k(2,4) show_nonempty [OF p] by (elim yields_climb) simp_all
  qed
qed

lemma yields_fact:
  assumes "yields t ts (Inr (Some x, rest))"
    and "\<And>f. g_descend f t ts = Inr (Some x, rest) \<Longrightarrow> g_fact (g_descend f) ts' = r"
  shows "yields T_fact ts' r"
proof -
  obtain f0 where "\<And>f. f \<ge> f0 \<Longrightarrow> g_descend f t ts = Inr (Some x, rest)"
    using assms(1) by (auto simp: yields_def)
  then have "g_descend f T_fact ts' = r" if "Suc f0 \<le> f" for f
    using that assms(2) [of "f - 1"] by (cases f) auto
  then show ?thesis
    by (auto simp: yields_def)
qed

lemma yields_leaf:
  assumes "\<And>f. g_fact (g_descend f) ts = r"
  shows "yields T_fact ts r"
proof -
  have "g_descend f T_fact ts = r" if "1 \<le> f" for f
    using that assms by (cases f) auto
  then show ?thesis
    by (auto simp: yields_def)
qed

lemma g_any_unary_skip:
  "fst x \<noteq> TOK_TOKEN \<Longrightarrow> g_any UNARY_RUNES (x # ts) = Inr (None, x # ts)"
  by (rule g_any_none) (simp add: is_op_def)

lemma g_num_simps [simp]:
  "g_num ((TOK_NUMBER, s) # ts) = Inr (Some (FloatLit s d_zero), ts)"
  "fst x \<noteq> TOK_NUMBER \<Longrightarrow> g_num (x # ts) = Inr (None, x # ts)"
  by (auto simp: g_num_def g_take_def)

lemma g_ident_simp:
  "canonicalize s = Inr s \<Longrightarrow> g_ident ((TOK_IDENT, s) # ts) = Inr (Some (Ident s None), ts)"
  by (simp add: g_ident_def g_take_def)

lemma not_open_tok: "not_open ts \<Longrightarrow> g_tok 0x28 ts = Inr (False, ts)"
  by (cases ts) (auto simp: not_open_def)

lemma fact_ok_leaf: "fact_ok (FloatLit s v)" "fact_ok (Ident s w)"
  by (auto simp: fact_ok_def g_fact_def g_any_unary_skip g_ident_simp not_open_tok intro!: yields_leaf)

lemma fact_ok_Paren:
  assumes "fact_ok e" "expr_ok e"
  shows "fact_ok (Paren e)"
  unfolding fact_ok_def
proof (intro allI impI)
  fix k rest
  assume "printable k (Paren e)"
  then have "yields (T_expr 0) (show_node e @ op_tok 0x29 # rest) (Inr (Some e, op_tok 0x29 # rest))"
    using assms by (intro expr0_ok) auto
  then show "yields T_fact (show_node (Paren e) @ rest) (Inr (Some (Paren e), rest))"
    by (rule yields_fact) (simp add: g_fact_def is_op_tok)
qed

lemma fact_ok_Unary:
  assumes "fact_ok e" "expr_ok e"
  shows "fact_ok (Unary r e)"
  unfolding fact_ok_def
proof (intro allI impI)
  fix k rest
  assume p: "printable k (Unary r e)" "closed (Unary r e) \<or> stop 0 rest"
  then have "yields (T_expr 0) (show_node e @ rest) (Inr (Some e, rest))"
    using assms by (intro expr0_ok) auto
  moreover have "g_any UNARY_RUNES (op_tok r # show_node e @ rest) = Inr (Some r, show_node e @ rest)"
    using p unary_op [of r] by (intro g_any_some) (auto simp: is_op_tok)
  ultimately show "yields T_fact (show_node (Unary r e) @ rest) (Inr (Some (Unary r e), rest))"
    using p unary_op [of r] by (elim yields_fact) (simp add: g_fact_def is_op_tok)
qed

lemma yields_if:
  assumes c: "fact_ok c" "expr_ok c" "printable 0 c" and a: "fact_ok a" "expr_ok a" "printable 0 a"
    and b: "fact_ok b" "expr_ok b" "printable 0 b" and "stop 0 rest"
  shows "yields T_if (show_node c @ (TOK_RESERVED, ''then'') # show_node a @
    (TOK_RESERVED, ''else'') # show_node b @ rest) (Inr (Some (If c a b), rest))"
proof -
  let ?e = "(TOK_RESERVED, ''else'') # show_node b @ rest"
  let ?t = "(TOK_RESERVED, ''then'') # show_node a @ ?e"
  obtain f1 where f1: "\<And>f. f \<ge> f1 \<Longrightarrow> g_descend f (T_expr 0) (show_node c @ ?t) = Inr (Some c, ?t)"
    using expr0_ok [OF c, of ?t] by (auto simp: yields_def)
  obtain f2 where f2: "\<And>f. f \<ge> f2 \<Longrightarrow> g_descend f (T_expr 0) (show_node a @ ?e) = Inr (Some a, ?e)"
    using expr0_ok [OF a, of ?e] by (auto simp: yields_def)
  obtain f3 where f3: "\<And>f. f \<ge> f3 \<Longrightarrow> g_descend f (T_expr 0) (show_node b @ rest) = Inr (Some b, rest)"
    using expr0_ok [OF b \<open>stop 0 rest\<close>] by (auto simp: yields_def)
  have "g_descend f T_if (show_node c @ ?t) = Inr (Some (If c a b), rest)"
    if "Suc (max f1 (max f2 f3)) \<le> f" for f
    using that f1 [of "f - 1"] f2 [of "f - 1"] f3 [of "f - 1"] printable_not_Null [OF a(3)]
      printable_not_Null [OF b(3)]
    by (cases f) (simp_all add: g_fact_if_def)
  then show ?thesis
    by (auto simp: yields_def)
qed

lemma fact_ok_If:
  assumes "fact_ok c" "expr_ok c" "fact_ok a" "expr_ok a" "fact_ok b" "expr_ok b"
  shows "fact_ok (If c a b)"
  unfolding fact_ok_def
proof (intro allI impI)
  fix k rest
  assume p: "printable k (If c a b)" "closed (If c a b) \<or> stop 0 rest"
  then show "yields T_fact (show_node (If c a b) @ rest) (Inr (Some (If c a b), rest))"
    using assms by (intro yields_fact [OF yields_if [of c a b rest]])
      (auto simp: g_fact_def g_any_unary_skip)
qed

definition show_args :: "node list \<Rightarrow> tok list" where
  "show_args ns = concat (map (\<lambda>b. op_tok 0x2C # show_node b) ns)"

lemma show_args_Cons: "show_args (b # ns) = op_tok 0x2C # show_node b @ show_args ns"
  by (simp add: show_args_def)

lemma show_args_close: "stop 0 (show_args ns @ op_tok 0x29 # rest)"
  by (cases ns) (auto simp: show_args_def)

lemma yields_args:
  assumes "\<forall>b \<in> set (a # ns). fact_ok b \<and> expr_ok b \<and> printable 0 b"
  shows "yields (T_args fn acc) (show_node a @ show_args ns @ op_tok 0x29 # rest)
    (Inr (Some (Call fn (acc @ a # ns) None), rest))"
  using assms
proof (induction ns arbitrary: a acc)
  case Nil
  then obtain f1 where f1: "\<And>f. f \<ge> f1 \<Longrightarrow>
      g_descend f (T_expr 0) (show_node a @ op_tok 0x29 # rest) = Inr (Some a, op_tok 0x29 # rest)"
    using expr0_ok [of a "op_tok 0x29 # rest"] by (auto simp: yields_def)
  have "g_descend f (T_args fn acc) (show_node a @ op_tok 0x29 # rest) =
      Inr (Some (Call fn (acc @ [a]) None), rest)" if "Suc f1 \<le> f" for f
    using that f1 [of "f - 1"] by (cases f) (simp_all add: g_call_args_def is_op_tok)
  then show ?case
    by (auto simp: yields_def show_args_def)
next
  case (Cons b ns)
  let ?r = "show_args (b # ns) @ op_tok 0x29 # rest"
  obtain f1 where f1: "\<And>f. f \<ge> f1 \<Longrightarrow> g_descend f (T_expr 0) (show_node a @ ?r) = Inr (Some a, ?r)"
    using expr0_ok [of a ?r] Cons.prems show_args_close by (auto simp: yields_def)
  obtain f2 where f2: "\<And>f. f \<ge> f2 \<Longrightarrow>
      g_descend f (T_args fn (acc @ [a])) (show_node b @ show_args ns @ op_tok 0x29 # rest) =
      Inr (Some (Call fn ((acc @ [a]) @ b # ns) None), rest)"
    using Cons.IH [of b "acc @ [a]"] Cons.prems unfolding yields_def by fastforce
  have "g_descend f (T_args fn acc) (show_node a @ ?r) = Inr (Some (Call fn (acc @ a # b # ns) None), rest)"
    if "Suc (max f1 f2) \<le> f" for f
    using that f1 [of "f - 1"] f2 [of "f - 1"]
    by (cases f) (simp_all add: g_call_args_def show_args_Cons is_op_tok)
  then show ?case
    unfolding yields_def by blast
qed

lemma show_first: "printable k n \<Longrightarrow> \<exists>x ts. show_node n = x # ts \<and> \<not> is_op x 0x29"
proof (induction n arbitrary: k)
  case (Call f as v)
  then show ?case
    by (cases f) auto
next
  case (Binary r a b)
  then show ?case
    by (fastforce split: option.splits)
next
  case (Unary r a)
  then show ?case
    using unary_op [of r] by (auto simp: is_op_tok UNARY_RUNES_def)
qed (auto simp: is_op_tok)

lemma yields_T_call:
  assumes "\<forall>b \<in> set ns. fact_ok b \<and> expr_ok b \<and> printable 0 b"
  shows "yields (T_call fn)
    ((case ns of [] \<Rightarrow> [op_tok 0x29] | a # ns' \<Rightarrow> show_node a @ show_args ns' @ [op_tok 0x29]) @ rest)
    (Inr (Some (Call fn ns None), rest))"
proof (cases ns)
  case Nil
  have "g_descend f (T_call fn) (op_tok 0x29 # rest) = Inr (Some (Call fn [] None), rest)" if "1 \<le> f" for f
    using that by (cases f) (simp_all add: g_call_def is_op_tok)
  then show ?thesis
    using Nil by (auto simp: yields_def)
next
  case (Cons a ns')
  let ?ts = "show_node a @ show_args ns' @ op_tok 0x29 # rest"
  obtain f1 where f1: "\<And>f. f \<ge> f1 \<Longrightarrow> g_descend f (T_args fn []) ?ts = Inr (Some (Call fn ns None), rest)"
    using yields_args [of a ns' fn "[]" rest] assms Cons by (auto simp: yields_def)
  have first: "g_tok 0x29 ?ts = Inr (False, ?ts)"
    using show_first [of 0 a] assms Cons by auto
  have "g_descend f (T_call fn) ?ts = Inr (Some (Call fn ns None), rest)" if "Suc f1 \<le> f" for f
    using that f1 [of "f - 1"] first by (cases f) (simp_all add: g_call_def)
  then show ?thesis
    using Cons by (auto simp: yields_def)
qed

lemma fact_ok_Call:
  assumes "\<And>b. b \<in> set ns \<Longrightarrow> fact_ok b \<and> expr_ok b"
  shows "fact_ok (Call fn ns v)"
  unfolding fact_ok_def
proof (intro allI impI)
  fix k rest
  assume p: "printable k (Call fn ns v)"
  then obtain s where fn: "fn = Ident s None" "canonicalize s = Inr s" "v = None"
    and args: "\<forall>b \<in> set ns. fact_ok b \<and> expr_ok b \<and> printable 0 b"
    using assms by (auto simp: list_all_iff split: node.splits)
  show "yields T_fact (show_node (Call fn ns v) @ rest) (Inr (Some (Call fn ns v), rest))"
    using fn by (intro yields_fact [OF yields_T_call [OF args, of fn rest]])
      (auto simp: g_fact_def g_any_unary_skip g_ident_simp is_op_tok show_args_def split: list.splits)
qed

lemma print_ok: "fact_ok n \<and> expr_ok n"
proof (induction n)
  case Null
  then show ?case
    by (simp add: fact_ok_def expr_ok_def)
next
  case (Binary r a b)
  then show ?case
    using expr_ok_Binary [of a b r] by (simp add: fact_ok_def)
next
  case (Call fn ns v)
  then show ?case
    using fact_ok_Call [of ns fn v] expr_ok_primary [of "Call fn ns v"] by simp
qed (auto intro!: expr_ok_primary fact_ok_Paren fact_ok_leaf fact_ok_Call fact_ok_Unary fact_ok_If)

lemma yields_run:
  assumes "yields (T_expr 0) ts r" "12 * length ts + 9 \<le> f"
  shows "g_descend f (T_expr 0) ts = r"
proof -
  obtain f0 where "\<And>f. f \<ge> f0 \<Longrightarrow> g_descend f (T_expr 0) ts = r"
    using assms(1) by (auto simp: yields_def)
  then show ?thesis
    using g_descend_mono [of f "max f f0" "T_expr 0" ts] g_descend_fuel [OF assms(2)] by simp
qed

lemma parse_show:
  assumes "printable 0 n" "12 * length (show_node n) + 9 \<le> f"
  shows "g_descend f (T_expr 0) (show_node n) = Inr (Some n, [])"
  using print_ok [of n] expr0_ok [of n "[]"] yields_run [OF _ assms(2)] assms(1) by simp

section \<open>Properties\<close>

text \<open>
  C15. The parser refines the descent on token lists: on a well-formed text \<open>avar_eqn_parse\<close>
  returns what the descent makes of the tokens of the lower-cased text, faults included.
\<close>

theorem avar_eqn_parse_refines:
  assumes "start_ok rs"
  shows "avar_eqn_parse (Some (utf8 rs)) =
    eqn_result (g_descend (parse_fuel (utf8 rs)) (T_expr 0) (a_tokens (map tolowerrune rs)))"
  using assms by (rule eqn_parse_refines)

theorem avar_eqn_parse_refines_witness:
  "avar_eqn_parse (Some (utf8 (ascii_runes ''a+1''))) =
     eqn_result (g_descend (parse_fuel (utf8 (ascii_runes ''a+1''))) (T_expr 0)
       (a_tokens (map tolowerrune (ascii_runes ''a+1''))))"
  by (rule avar_eqn_parse_refines, rule start_ok_ascii) simp

text \<open>
  C16. Parsing always returns: on a well-formed text without double quotes \<open>avar_eqn_parse\<close> gives
  a result, an error code or a tree, and neither runs out of its recursion bound nor faults.
\<close>

theorem avar_eqn_parse_returns:
  assumes "start_ok rs" "0x22 \<notin> set rs"
  shows "\<exists>err n. avar_eqn_parse (Some (utf8 rs)) = Inr (err, n) \<and> err \<in> {SD_ERR_NO_ERROR, SD_ERR_UNSPECIFIED}"
proof -
  let ?ts = "a_tokens (map tolowerrune rs)"
  let ?r = "g_descend (parse_fuel (utf8 rs)) (T_expr 0) ?ts"
  have "?r \<noteq> Inl OutOfFuel"
    by (rule g_descend_fuel [OF parse_fuel_enough])
  moreover have "\<not> bad_name ?ts e" for e
    using a_tokens_names [OF unquoted_lower [OF assms]] unquoted_canonicalize
    by (fastforce simp: bad_name_def)
  ultimately obtain n ts' where "?r = Inr (n, ts')"
    using g_descend_blames [of ?ts "parse_fuel (utf8 rs)" "T_expr 0"] by (cases ?r) auto
  then show ?thesis
    using eqn_parse_refines [OF assms(1)] by (cases n) (auto simp: eqn_result_def)
qed

theorem avar_eqn_parse_returns_witness:
  "\<exists>err n. avar_eqn_parse (Some (utf8 (ascii_runes ''(1''))) = Inr (err, n) \<and>
     err \<in> {SD_ERR_NO_ERROR, SD_ERR_UNSPECIFIED}"
  by (rule avar_eqn_parse_returns, rule start_ok_ascii) simp_all

text \<open>
  C14. Printing and parsing: if the tokens of an equation are those of a printable tree, the
  parser returns exactly that tree, so operators of a later level bind tighter, operators of
  one level associate to the left, and a unary operator or a conditional takes everything up
  to the next closing token.
\<close>

theorem avar_eqn_parse_print:
  assumes "start_ok rs" "printable 0 n" "a_tokens (map tolowerrune rs) = show_node n"
  shows "avar_eqn_parse (Some (utf8 rs)) = Inr (SD_ERR_NO_ERROR, n)"
  using eqn_parse_refines [OF assms(1)] parse_show [OF assms(2)] parse_fuel_enough [of rs] assms(3)
  by (simp add: eqn_result_def)

definition sum_product :: node where
  "sum_product =
     Binary 0x2A (Binary 0x2B (FloatLit ''1'' d_zero) (FloatLit ''2'' d_zero)) (FloatLit ''3'' d_zero)"

lemma sum_product_tokens:
  "a_tokens (map tolowerrune (ascii_runes ''1+2*3'')) = show_node sum_product"
  by (simp add: tolowerrune_ascii) (simp add: lex_eval sum_product_def op_tok_def)

lemma sum_product_printable: "printable 0 sum_product"
  by (simp add: sum_product_def level_of_def BINARY_RUNES_def)

theorem avar_eqn_parse_print_witness:
  "avar_eqn_parse (Some (utf8 (ascii_runes ''1+2*3''))) = Inr (SD_ERR_NO_ERROR, sum_product)"
  by (rule avar_eqn_parse_print [OF start_ok_ascii sum_product_printable sum_product_tokens]) simp

text \<open>
  The levels of the operator table are upside down: the parser groups \<open>1+2*3\<close> as
  \<open>(1+2)*3\<close>, since the operators of a later level bind tighter and the table lists
  multiplication before addition.
\<close>

theorem parser_precedence_inverted:
  "avar_eqn_parse (Some ''1+2*3'') =
     Inr (SD_ERR_NO_ERROR,
          Binary 0x2A (Binary 0x2B (FloatLit ''1'' d_zero) (FloatLit ''2'' d_zero)) (FloatLit ''3'' d_zero))"
  using parse_show [OF sum_product_printable] parse_fuel_enough [of "ascii_runes ''1+2*3''"]
    eqn_parse_refines [OF start_ok_ascii, of "''1+2*3''"] sum_product_tokens
  by (simp add: utf8_ascii eqn_result_def sum_product_def del: ascii_runes_simps)

text \<open>
  An operator without its operand at the end of an equation is accepted: \<open>-\<close> parses, and
  the tree has a null operand.
\<close>

theorem parser_accepts_bare_minus:
  "avar_eqn_parse (Some ''-'') = Inr (SD_ERR_NO_ERROR, Unary 0x2D Null)"
proof -
  have "g_descend f (T_expr 0) [] = Inr (Some Null, [])" if "1 \<le> f" for f
    using that by (cases f) (simp_all add: g_expr_def)
  then have "yields (T_expr 0) [] (Inr (Some Null, []))"
    by (auto simp: yields_def)
  then have "yields T_fact [op_tok 0x2D] (Inr (Some (Unary 0x2D Null), []))"
    by (rule yields_fact) (simp add: g_fact_def is_op_tok UNARY_RUNES_def)
  then have "yields (level_task 8) [op_tok 0x2D] (Inr (Some (Unary 0x2D Null), []))"
    by (simp add: level_task_def)
  then have "yields (level_task 0) [op_tok 0x2D] (Inr (Some (Unary 0x2D Null), []))"
    by (rule yields_climb) (simp_all add: yields_loop_stop)
  then have "g_descend 36 (T_expr 0) [op_tok 0x2D] = Inr (Some (Unary 0x2D Null), [])"
    by (intro yields_run) (simp_all add: level_task_def)
  moreover have "a_tokens (map tolowerrune (ascii_runes ''-'')) = [op_tok 0x2D]"
    by (simp add: tolowerrune_ascii) (simp add: lex_eval op_tok_def)
  ultimately show ?thesis
    using eqn_parse_refines [OF start_ok_ascii, of "''-''"]
    by (simp add: utf8_ascii eqn_result_def parse_fuel_def del: ascii_runes_simps)
qed

end
