(* ===== verification/AVars.thy ===== *)
theory AVars
  imports Project Strtod Parser
begin

text \<open>
  The annotated variables of \<^verbatim>\<open>sim.c\<close>: \<open>module\<close> and \<open>avar\<close> build one object per variable and
  module instance of a model, \<open>avar_init\<close> and \<open>module_compile\<close> resolve the names in the
  equations, and \<open>module_assign_offsets\<close> gives each variable its place in a row of results.

  The objects refer to each other by pointers, so they live in a heap: the list of all objects
  ever allocated, an address being a position in it. Objects are only added, so an address
  handed out stays valid; \<open>hread\<close> faults at an address that was never handed out. The two
  recursions over modules (building, and everything that descends into submodules afterwards)
  carry a bound on the depth. Memory is taken to be sufficient and is never released.
\<close>

section \<open>Objects and the heap\<close>

type_synonym addr = nat

record avar =
  av_v :: "var option"
  av_node :: node
  av_parent :: "addr option"
  qual_name :: "cstr option"
  direct_deps :: "addr list"
  av_inflows :: "addr list"
  av_outflows :: "addr list"
  av_model :: "model option"
  initials :: "addr list"
  flows :: "addr list"
  stocks :: "addr list"
  avars :: "addr list"
  av_src :: "addr option"
  offset :: nat
  is_const :: bool
  visited :: bool
  visiting :: bool

type_synonym heap = "avar list"

definition avar_zero :: avar where
  "avar_zero = \<lparr> av_v = None, av_node = Null, av_parent = None, qual_name = None, direct_deps = [],
     av_inflows = [], av_outflows = [], av_model = None, initials = [], flows = [], stocks = [],
     avars = [], av_src = None, offset = 0, is_const = False, visited = False, visiting = False \<rparr>"

definition hread :: "heap \<Rightarrow> addr \<Rightarrow> avar run" where
  "hread h a = aread h a"

definition hupd :: "heap \<Rightarrow> addr \<Rightarrow> (avar \<Rightarrow> avar) \<Rightarrow> heap run" where
  "hupd h a f = rbind (hread h a) (\<lambda>x. Inr (h[a := f x]))"

text \<open>\<open>av->v->...\<close>, and a comparison \<open>strcmp(a, b) == 0\<close> of pointers that may be null.\<close>

definition var_of :: "avar \<Rightarrow> var run" where
  "var_of av = (case av_v av of None \<Rightarrow> Inl NullDeref | Some v \<Rightarrow> Inr v)"

definition str_eq :: "cstr option \<Rightarrow> cstr option \<Rightarrow> bool run" where
  "str_eq a b =
     (case (a, b) of (Some x, Some y) \<Rightarrow> Inr (x = y) | _ \<Rightarrow> Inl NullDeref)"

section \<open>Resolving a name\<close>

text \<open>\<open>strchr(name, '.')\<close>: the text before the first dot and the text after it.\<close>

primrec split_dot :: "cstr \<Rightarrow> (cstr \<times> cstr) option" where
  "split_dot [] = None"
| "split_dot (c # s) =
     (if c = CHR ''.'' then Some ([], s)
      else map_option (\<lambda>(a, b). (c # a, b)) (split_dot s))"

lemma split_dot_less: "split_dot s = Some (a, b) \<Longrightarrow> length b < length s"
  by (induction s arbitrary: a) (auto split: if_splits)

text \<open>
  The loop of \<open>resolve\<close> ends at the first variable that either is a module whose name starts
  with the part before the dot (\<open>strncmp\<close> compares only that many bytes), or has the whole
  name: \<open>Some (a, True)\<close> in the first case, \<open>Some (a, False)\<close> in the second.
\<close>

primrec resolve_scan :: "heap \<Rightarrow> cstr option \<Rightarrow> cstr \<Rightarrow> addr list \<Rightarrow> (addr \<times> bool) option run" where
  "resolve_scan h prefix name [] = Inr None"
| "resolve_scan h prefix name (a # as) =
     rbind (hread h a) (\<lambda>av.
     rbind (var_of av) (\<lambda>v.
     rbind (case prefix of
              Some p \<Rightarrow>
                if vtype v = VAR_MODULE then
                  (case vname v of None \<Rightarrow> Inl NullDeref | Some n \<Rightarrow> Inr (take (length p) n = p))
                else Inr False
            | None \<Rightarrow> Inr False) (\<lambda>descend.
       if descend then Inr (Some (a, True))
       else rbind (str_eq (vname v) (Some name)) (\<lambda>same.
         if same then Inr (Some (a, False)) else resolve_scan h prefix name as))))"

definition skip_dot :: "cstr \<Rightarrow> cstr" where
  "skip_dot name = (case name of [] \<Rightarrow> [] | c # s \<Rightarrow> if c = CHR ''.'' then s else name)"

lemma length_skip_dot: "length (skip_dot name) \<le> length name"
  by (auto simp: skip_dot_def split: list.splits)

function resolve_in :: "heap \<Rightarrow> addr \<Rightarrow> cstr \<Rightarrow> addr option run" where
  "resolve_in h m name0 =
     (case split_dot (skip_dot name0) of
        None \<Rightarrow>
          rbind (hread h m) (\<lambda>md.
          rbind (resolve_scan h None (skip_dot name0) (avars md)) (\<lambda>hit.
            Inr (map_option fst hit)))
      | Some (prefix, subvar) \<Rightarrow>
          rbind (hread h m) (\<lambda>md.
          rbind (resolve_scan h (Some prefix) (skip_dot name0) (avars md)) (\<lambda>hit.
            case hit of
              None \<Rightarrow> Inr None
            | Some (a, sub) \<Rightarrow> if sub then resolve_in h a subvar else Inr (Some a))))"
  by pat_completeness auto
termination
proof (relation "measure (\<lambda>(h, m, name). length name)", goal_cases)
  case (2 h m name0 x prefix subvar)
  then show ?case
    using split_dot_less [of "skip_dot name0" prefix subvar] length_skip_dot [of name0] by auto
qed simp

declare resolve_in.simps [simp del]

text \<open>The module and the name may both be null pointers; the name is looked at first.\<close>

definition resolve :: "heap \<Rightarrow> addr option \<Rightarrow> cstr option \<Rightarrow> addr option run" where
  "resolve h m name =
     (case name of
        None \<Rightarrow> Inr None
      | Some n \<Rightarrow> (case m of None \<Rightarrow> Inl NullDeref | Some a \<Rightarrow> resolve_in h a n))"

section \<open>Walking an equation\<close>

definition RT_FNS :: "(cstr \<times> rt_fn) list" where
  "RT_FNS = [(''pulse'', RT_PULSE), (''min'', RT_MIN), (''max'', RT_MAX)]"

text \<open>The text field \<open>sval\<close> of a node; reading a node through a null pointer faults.\<close>

fun node_sval :: "node \<Rightarrow> cstr option run" where
  "node_sval Null = Inl NullDeref"
| "node_sval (FloatLit s x) = Inr (Some s)"
| "node_sval (Ident s a) = Inr (Some s)"
| "node_sval n = Inr None"

definition find_fn :: "node \<Rightarrow> rt_fn option run" where
  "find_fn left =
     rbind (node_sval left) (\<lambda>s.
       case s of None \<Rightarrow> Inl NullDeref | Some name \<Rightarrow> Inr (map_of RT_FNS name))"

text \<open>A step over the elements of a list from left to right, for the nested recursion below.\<close>

fun map_run :: "('a \<Rightarrow> 'b run) \<Rightarrow> 'a list \<Rightarrow> 'b list run" where
  "map_run f [] = Inr []"
| "map_run f (x # xs) = rbind (f x) (\<lambda>y. rbind (map_run f xs) (\<lambda>ys. Inr (y # ys)))"

lemma map_run_cong [fundef_cong]:
  "xs = ys \<Longrightarrow> (\<And>x. x \<in> set ys \<Longrightarrow> f x = g x) \<Longrightarrow> map_run f xs = map_run g ys"
  by (induction xs arbitrary: ys) auto

text \<open>
  \<open>visit\<close> with the operations of \<open>AVarWalker\<close>: the annotated tree, and the variables appended
  to \<open>direct_deps\<close> in the order in which they are met. A name that does not resolve, or a
  function that does not exist, is reported on the output and left null. The argument
  \<open>res\<close> is \<open>resolve\<close> in the module of the walker, which the walk does not change; every node
  the parser builds has one of the known types, so the walk itself always succeeds.
\<close>

fun visit :: "(cstr \<Rightarrow> addr option run) \<Rightarrow> node \<Rightarrow> (node \<times> addr list) run" where
  "visit res Null = Inl NullDeref"
| "visit res (Paren n) = rbind (visit res n) (\<lambda>(n', d). Inr (Paren n', d))"
| "visit res (FloatLit s x) = Inr (FloatLit s (atof s), [])"
| "visit res (Ident s a) =
     rbind (res s) (\<lambda>dep.
       case dep of None \<Rightarrow> Inr (Ident s a, []) | Some d \<Rightarrow> Inr (Ident s (Some d), [d]))"
| "visit res (Call left args fn) =
     rbind (find_fn left) (\<lambda>f.
     rbind (map_run (visit res) args) (\<lambda>ys.
       Inr (Call left (map fst ys) (case f of None \<Rightarrow> fn | Some g \<Rightarrow> Some g), concat (map snd ys))))"
| "visit res (Unary op l) = rbind (visit res l) (\<lambda>(l', d). Inr (Unary op l', d))"
| "visit res (Binary op l r) =
     rbind (visit res l) (\<lambda>(l', d).
     rbind (visit res r) (\<lambda>(r', e). Inr (Binary op l' r', d @ e)))"
| "visit res (If c l r) =
     rbind (visit res c) (\<lambda>(c', b).
     rbind (visit res l) (\<lambda>(l', d).
     rbind (visit res r) (\<lambda>(r', e). Inr (If c' l' r', b @ d @ e))))"

text \<open>\<open>None\<close> when \<open>node_walk\<close> returns false, which it does for a null root only.\<close>

definition node_walk :: "(cstr \<Rightarrow> addr option run) \<Rightarrow> node \<Rightarrow> (node \<times> addr list) option run" where
  "node_walk res n = (if n = Null then Inr None else rbind (visit res n) (\<lambda>r. Inr (Some r)))"

section \<open>Building the objects of a module\<close>

type_synonym builder = "heap \<Rightarrow> addr option \<Rightarrow> model \<Rightarrow> var option \<Rightarrow> (heap \<times> addr option) run"

text \<open>
  \<open>avar\<close>: an object for a variable, or the module instance for a module variable; \<open>None\<close> when
  that fails. \<open>build\<close> is the call of \<open>module\<close>.
\<close>

definition avar_new :: "builder \<Rightarrow> project \<Rightarrow> heap \<Rightarrow> addr \<Rightarrow> var \<Rightarrow> (heap \<times> addr option) run" where
  "avar_new build p h parent v =
     (if vtype v = VAR_MODULE then
        (case sd_project_get_model (Some p) (vname v) of
           None \<Rightarrow> Inr (h, None)
         | Some model \<Rightarrow>
             rbind (build h (Some parent) model (Some v)) (\<lambda>(h, av).
               case av of
                 None \<Rightarrow> Inr (h, None)
               | Some a \<Rightarrow> rbind (hupd h a (\<lambda>x. x\<lparr> av_v := Some v \<rparr>)) (\<lambda>h. Inr (h, Some a))))
      else
        rbind (if veqn v = None then Inr (SD_ERR_NO_ERROR, Null) else avar_eqn_parse (veqn v))
          (\<lambda>(err, n).
             if err \<noteq> SD_ERR_NO_ERROR then Inr (h, None)
             else
               Inr (h @ [avar_zero\<lparr> av_v := Some v, av_parent := Some parent, av_node := n,
                           is_const := (case n of FloatLit _ _ \<Rightarrow> True | _ \<Rightarrow> False) \<rparr>],
                    Some (length h))))"

text \<open>The first connection of the module with the name of the variable: it replaces the variable.\<close>

primrec find_conn :: "var list \<Rightarrow> var \<Rightarrow> var option run" where
  "find_conn [] v = Inr None"
| "find_conn (r # rs) v =
     rbind (str_eq (vname v) (vname r)) (\<lambda>same. if same then Inr (Some r) else find_conn rs v)"

text \<open>When no object can be made for the connection, the variable itself is tried.\<close>

definition member_new :: "builder \<Rightarrow> project \<Rightarrow> var list \<Rightarrow> heap \<Rightarrow> addr \<Rightarrow> var \<Rightarrow> (heap \<times> addr option) run" where
  "member_new build p conns h m v =
     rbind (find_conn conns v) (\<lambda>r.
     rbind (case r of None \<Rightarrow> Inr (h, None) | Some r \<Rightarrow> avar_new build p h m r) (\<lambda>(h, av).
       if av = None then avar_new build p h m v else Inr (h, av)))"

primrec members_new ::
  "builder \<Rightarrow> project \<Rightarrow> var list \<Rightarrow> addr \<Rightarrow> var list \<Rightarrow> heap \<Rightarrow> (heap \<times> bool) run" where
  "members_new build p conns m [] h = Inr (h, True)"
| "members_new build p conns m (v # vs) h =
     rbind (member_new build p conns h m v) (\<lambda>(h, av).
       case av of
         None \<Rightarrow> Inr (h, False)
       | Some a \<Rightarrow>
           rbind (hupd h m (\<lambda>x. x\<lparr> avars := avars x @ [a] \<rparr>)) (\<lambda>h.
             members_new build p conns m vs h))"

text \<open>The variable \<open>time\<close> of the root module.\<close>

definition time_var :: var where
  "time_var = Var VAR_AUX (Some ''time'') None None [] [] [] None False"

definition module_body :: "builder \<Rightarrow> project \<Rightarrow> builder" where
  "module_body build p h parent model vmodule =
     (let m = length h;
          md = avar_zero\<lparr> av_v := vmodule, av_model := Some model, av_parent := parent \<rparr>;
          h = (if parent = None
               then h @ [md\<lparr> avars := [m + 1] \<rparr>,
                         avar_zero\<lparr> av_v := Some time_var, av_parent := Some m \<rparr>]
               else h @ [md]);
          conns = (case vmodule of None \<Rightarrow> [] | Some v \<Rightarrow> vconns v)
      in rbind (members_new build p conns m (m_vars model) h) (\<lambda>(h, ok).
           Inr (h, if ok then Some m else None)))"

text \<open>
  A chain of modules inside each other instantiates a different model at each level unless the
  models contain each other, in which case the C function does not return; one more level than
  there are models is therefore enough for every call that returns.
\<close>

primrec module_new :: "nat \<Rightarrow> project \<Rightarrow> builder" where
  "module_new 0 p h parent model vmodule = Inl OutOfFuel"
| "module_new (Suc n) p h parent model vmodule = module_body (module_new n p) p h parent model vmodule"

definition module_fuel :: "project \<Rightarrow> nat" where
  "module_fuel p = Suc (length (concat (map f_models (pfiles p))))"

section \<open>Resolving the names in the equations\<close>

primrec resolve_list :: "heap \<Rightarrow> addr option \<Rightarrow> cstr list \<Rightarrow> addr list \<Rightarrow> addr list option run" where
  "resolve_list h m [] acc = Inr (Some acc)"
| "resolve_list h m (n # ns) acc =
     rbind (resolve h m (Some n)) (\<lambda>r.
       case r of None \<Rightarrow> Inr None | Some a \<Rightarrow> resolve_list h m ns (acc @ [a]))"

text \<open>
  \<open>avar_init\<close> of a variable that is no module. On failure the lists keep what was appended
  before it; as every failure makes \<open>sd_sim_new\<close> give up the whole heap, the heap is returned
  as it was.
\<close>

definition avar_init_var :: "heap \<Rightarrow> addr \<Rightarrow> addr option \<Rightarrow> (sd_error \<times> heap) run" where
  "avar_init_var h a mo =
     rbind (hread h a) (\<lambda>av.
     rbind (var_of av) (\<lambda>v.
       if vtype v = VAR_REF \<and> mo \<noteq> None then
         rbind (hread h (the mo)) (\<lambda>md.
         rbind (resolve h (av_parent md) (vsrc v)) (\<lambda>src.
           case src of
             None \<Rightarrow> Inr (SD_ERR_UNSPECIFIED, h)
           | Some s \<Rightarrow> rbind (hupd h a (\<lambda>x. x\<lparr> av_src := Some s \<rparr>)) (\<lambda>h. Inr (SD_ERR_NO_ERROR, h))))
       else if veqn v = None \<and> vname v = Some ''time'' then Inr (SD_ERR_NO_ERROR, h)
       else
         rbind (node_walk (\<lambda>s. resolve h mo (Some s)) (av_node av)) (\<lambda>w.
         case w of
           None \<Rightarrow> Inr (SD_ERR_UNSPECIFIED, h)
         | Some (n, deps) \<Rightarrow>
         rbind (resolve_list h mo (vinflows v) []) (\<lambda>ins.
         case ins of
           None \<Rightarrow> Inr (SD_ERR_UNSPECIFIED, h)
         | Some ins \<Rightarrow>
         rbind (resolve_list h mo (voutflows v) []) (\<lambda>outs.
         case outs of
           None \<Rightarrow> Inr (SD_ERR_UNSPECIFIED, h)
         | Some outs \<Rightarrow>
             rbind (hupd h a (\<lambda>x. x\<lparr> av_node := n, direct_deps := direct_deps x @ deps,
                       av_inflows := av_inflows x @ ins, av_outflows := av_outflows x @ outs \<rparr>)) (\<lambda>h.
               Inr (SD_ERR_NO_ERROR, h)))))))"

text \<open>The two loops of \<open>module_compile\<close>; \<open>compile\<close> is its call for a submodule.\<close>

definition avar_init :: "(heap \<Rightarrow> addr \<Rightarrow> (sd_error \<times> heap) run) \<Rightarrow> heap \<Rightarrow> addr \<Rightarrow> addr option \<Rightarrow> (sd_error \<times> heap) run" where
  "avar_init compile h a mo =
     rbind (hread h a) (\<lambda>av.
       if av_model av \<noteq> None then compile h a else avar_init_var h a mo)"

primrec init_members ::
  "(heap \<Rightarrow> addr \<Rightarrow> (sd_error \<times> heap) run) \<Rightarrow> addr \<Rightarrow> addr list \<Rightarrow> nat \<Rightarrow> heap \<Rightarrow> (nat \<times> heap) run" where
  "init_members compile m [] failed h = Inr (failed, h)"
| "init_members compile m (a # as) failed h =
     rbind (avar_init compile h a (Some m)) (\<lambda>(err, h).
       init_members compile m as (if err \<noteq> SD_ERR_NO_ERROR then failed + 1 else failed) h)"

primrec copy_offsets :: "addr list \<Rightarrow> heap \<Rightarrow> heap run" where
  "copy_offsets [] h = Inr h"
| "copy_offsets (a # as) h =
     rbind (hread h a) (\<lambda>av.
     rbind (var_of av) (\<lambda>v.
     rbind (if vtype v = VAR_REF then
              (case av_src av of
                 None \<Rightarrow> Inl NullDeref
               | Some s \<Rightarrow> rbind (hread h s) (\<lambda>src. hupd h a (\<lambda>x. x\<lparr> offset := offset src \<rparr>)))
            else Inr h) (\<lambda>h. copy_offsets as h)))"

definition module_compile_body ::
  "(heap \<Rightarrow> addr \<Rightarrow> (sd_error \<times> heap) run) \<Rightarrow> heap \<Rightarrow> addr \<Rightarrow> (sd_error \<times> heap) run" where
  "module_compile_body compile h m =
     rbind (hread h m) (\<lambda>md.
     rbind (init_members compile m (avars md) 0 h) (\<lambda>(failed, h).
       if failed \<noteq> 0 then Inr (SD_ERR_UNSPECIFIED, h)
       else rbind (copy_offsets (avars md) h) (\<lambda>h. Inr (SD_ERR_NO_ERROR, h))))"

primrec module_compile :: "nat \<Rightarrow> heap \<Rightarrow> addr \<Rightarrow> (sd_error \<times> heap) run" where
  "module_compile 0 h m = Inl OutOfFuel"
| "module_compile (Suc n) h m = module_compile_body (module_compile n) h m"

text \<open>A submodule has a larger address than its module, so the heap bounds the nesting.\<close>

definition depth_fuel :: "heap \<Rightarrow> nat" where
  "depth_fuel h = Suc (length h)"

section \<open>Offsets\<close>

primrec offset_members ::
  "(addr \<Rightarrow> nat \<Rightarrow> heap \<Rightarrow> (nat \<times> heap) run) \<Rightarrow> addr list \<Rightarrow> nat \<Rightarrow> heap \<Rightarrow> (nat \<times> heap) run" where
  "offset_members assign [] off h = Inr (off, h)"
| "offset_members assign (a # as) off h =
     rbind (hread h a) (\<lambda>av.
     rbind (if av_model av \<noteq> None then assign a off h
            else if av_src av = None then
              rbind (hupd h a (\<lambda>x. x\<lparr> offset := off \<rparr>)) (\<lambda>h. Inr (off + 1, h))
            else Inr (off, h)) (\<lambda>(off, h).
       offset_members assign as off h))"

primrec module_assign_offsets :: "nat \<Rightarrow> addr \<Rightarrow> nat \<Rightarrow> heap \<Rightarrow> (nat \<times> heap) run" where
  "module_assign_offsets 0 m off h = Inl OutOfFuel"
| "module_assign_offsets (Suc n) m off h =
     rbind (hread h m) (\<lambda>md. offset_members (module_assign_offsets n) (avars md) off h)"

end
