(* ===== verification/Runlists.thy ===== *)
theory Runlists
  imports AVars
begin

text \<open>
  The run lists of a module (\<^verbatim>\<open>sim.c\<close>): \<open>module_sort_runlists\<close> orders the variables of a
  module by a depth-first search along \<open>direct_deps\<close>, so that a simulation phase can compute
  them from left to right, and reports a circularity when there is no such order.
\<close>

section \<open>The operations\<close>

primrec deps_loop ::
  "(heap \<Rightarrow> addr \<Rightarrow> (sd_error \<times> heap) run) \<Rightarrow> addr list \<Rightarrow> heap \<Rightarrow> (sd_error \<times> heap) run" where
  "deps_loop add [] h = Inr (SD_ERR_NO_ERROR, h)"
| "deps_loop add (d # ds) h =
     rbind (hread h d) (\<lambda>dep.
       if visited dep then deps_loop add ds h
       else rbind (add h d) (\<lambda>(err, h).
         if err \<noteq> SD_ERR_NO_ERROR then Inr (err, h) else deps_loop add ds h))"

text \<open>The lists a variable is appended to, by its type.\<close>

definition runlist_append :: "avar \<Rightarrow> var \<Rightarrow> addr \<Rightarrow> avar \<Rightarrow> avar" where
  "runlist_append av v a md =
     (if vtype v = VAR_MODULE then
        md\<lparr> initials := initials md @ [a], flows := flows md @ [a], stocks := stocks md @ [a] \<rparr>
      else if vtype v = VAR_STOCK then
        md\<lparr> initials := initials md @ [a], stocks := stocks md @ [a] \<rparr>
      else if vtype v \<noteq> VAR_REF then
        (if is_const av then md\<lparr> initials := initials md @ [a], stocks := stocks md @ [a] \<rparr>
         else md\<lparr> initials := initials md @ [a], flows := flows md @ [a] \<rparr>)
      else md)"

definition add_to_runlists_body ::
  "(heap \<Rightarrow> addr \<Rightarrow> (sd_error \<times> heap) run) \<Rightarrow> addr \<Rightarrow> heap \<Rightarrow> addr \<Rightarrow> (sd_error \<times> heap) run" where
  "add_to_runlists_body add m h a =
     rbind (hread h a) (\<lambda>av.
       if visited av then Inr (SD_ERR_NO_ERROR, h)
       else if visiting av then Inr (SD_ERR_CIRCULAR, h)
       else
         rbind (hupd h a (\<lambda>x. x\<lparr> visiting := True \<rparr>)) (\<lambda>h.
         rbind (deps_loop add (direct_deps av) h) (\<lambda>(err, h).
           if err \<noteq> SD_ERR_NO_ERROR then Inr (err, h)
           else
             rbind (var_of av) (\<lambda>v.
             rbind (hupd h m (runlist_append av v a)) (\<lambda>h.
             rbind (hupd h a (\<lambda>x. x\<lparr> visited := True, visiting := False \<rparr>)) (\<lambda>h.
               Inr (SD_ERR_NO_ERROR, h)))))))"

text \<open>
  Every call below another marks a variable as being visited, so the recursion is at most as
  deep as there are objects.
\<close>

primrec module_add_to_runlists :: "nat \<Rightarrow> addr \<Rightarrow> heap \<Rightarrow> addr \<Rightarrow> (sd_error \<times> heap) run" where
  "module_add_to_runlists 0 m h a = Inl OutOfFuel"
| "module_add_to_runlists (Suc n) m h a = add_to_runlists_body (module_add_to_runlists n m) m h a"

primrec clear_members :: "(heap \<Rightarrow> addr \<Rightarrow> heap run) \<Rightarrow> addr list \<Rightarrow> heap \<Rightarrow> heap run" where
  "clear_members clear [] h = Inr h"
| "clear_members clear (a # as) h =
     rbind (hread h a) (\<lambda>av.
     rbind (if av_model av \<noteq> None then clear h a
            else hupd h a (\<lambda>x. x\<lparr> visited := False, visiting := False \<rparr>)) (\<lambda>h.
       clear_members clear as h))"

primrec module_clear_visited :: "nat \<Rightarrow> heap \<Rightarrow> addr \<Rightarrow> heap run" where
  "module_clear_visited 0 h m = Inl OutOfFuel"
| "module_clear_visited (Suc n) h m =
     rbind (hread h m) (\<lambda>md.
     rbind (clear_members (module_clear_visited n) (avars md) h) (\<lambda>h.
       hupd h m (\<lambda>x. x\<lparr> visited := False, visiting := False \<rparr>)))"

primrec sort_members ::
  "(heap \<Rightarrow> addr \<Rightarrow> (sd_error \<times> heap) run) \<Rightarrow> addr \<Rightarrow> addr list \<Rightarrow> heap \<Rightarrow> (sd_error \<times> heap) run" where
  "sort_members rec m [] h = Inr (SD_ERR_NO_ERROR, h)"
| "sort_members rec m (a # as) h =
     rbind (hread h a) (\<lambda>sub.
       if visited sub then sort_members rec m as h
       else
         rbind (var_of sub) (\<lambda>v.
         rbind (if vtype v = VAR_MODULE then rec h a else Inr (SD_ERR_NO_ERROR, h)) (\<lambda>(err, h).
           if err \<noteq> SD_ERR_NO_ERROR then Inr (err, h)
           else
             rbind (module_add_to_runlists (depth_fuel h) m h a) (\<lambda>(err, h).
               if err \<noteq> SD_ERR_NO_ERROR then Inr (err, h) else sort_members rec m as h))))"

definition module_sort_body ::
  "(heap \<Rightarrow> addr \<Rightarrow> (sd_error \<times> heap) run) \<Rightarrow> heap \<Rightarrow> addr \<Rightarrow> (sd_error \<times> heap) run" where
  "module_sort_body rec h m =
     rbind (module_clear_visited (depth_fuel h) h m) (\<lambda>h.
     rbind (hupd h m (\<lambda>x. x\<lparr> visiting := True \<rparr>)) (\<lambda>h.
     rbind (hread h m) (\<lambda>md.
     rbind (sort_members rec m (drop (if av_parent md = None then 1 else 0) (avars md)) h) (\<lambda>(err, h).
       if err \<noteq> SD_ERR_NO_ERROR then Inr (err, h)
       else rbind (hupd h m (\<lambda>x. x\<lparr> visiting := False \<rparr>)) (\<lambda>h. Inr (SD_ERR_NO_ERROR, h))))))"

primrec module_sort_runlists :: "nat \<Rightarrow> heap \<Rightarrow> addr \<Rightarrow> (sd_error \<times> heap) run" where
  "module_sort_runlists 0 h m = Inl OutOfFuel"
| "module_sort_runlists (Suc n) h m = module_sort_body (module_sort_runlists n) h m"

section \<open>Depth-first search on a graph\<close>

text \<open>
  The search without the heap: \<open>g\<close> gives the dependencies of a node, \<open>path\<close> holds the nodes
  being visited, \<open>dn\<close> the finished ones in the order in which they finished. The result is
  the new \<open>dn\<close>, or \<open>None\<close> for a circularity.
\<close>

primrec search_list :: "(addr \<Rightarrow> addr list \<Rightarrow> addr list option) \<Rightarrow> addr list \<Rightarrow> addr list \<Rightarrow> addr list option" where
  "search_list s [] dn = Some dn"
| "search_list s (x # xs) dn =
     (case (if x \<in> set dn then Some dn else s x dn) of
        None \<Rightarrow> None | Some dn' \<Rightarrow> search_list s xs dn')"

primrec search :: "nat \<Rightarrow> (addr \<Rightarrow> addr list) \<Rightarrow> addr set \<Rightarrow> addr \<Rightarrow> addr list \<Rightarrow> addr list option" where
  "search 0 g path x dn = None"
| "search (Suc n) g path x dn =
     (if x \<in> set dn then Some dn
      else if x \<in> path then None
      else map_option (\<lambda>d. d @ [x]) (search_list (search n g (insert x path)) (g x) dn))"

text \<open>A topological order: every node once, and after everything it depends on.\<close>

inductive ordered :: "(addr \<Rightarrow> addr list) \<Rightarrow> addr list \<Rightarrow> bool" for g where
  ordered_Nil: "ordered g []"
| ordered_snoc: "ordered g xs \<Longrightarrow> set (g x) \<subseteq> set xs \<Longrightarrow> x \<notin> set xs \<Longrightarrow> ordered g (xs @ [x])"

definition edges :: "(addr \<Rightarrow> addr list) \<Rightarrow> (addr \<times> addr) set" where
  "edges g = {(x, y). y \<in> set (g x)}"

lemma ordered_distinct: "ordered g xs \<Longrightarrow> distinct xs"
  by (induction rule: ordered.induct) auto

lemma ordered_before:
  assumes "ordered g (ys @ x # zs)" shows "set (g x) \<subseteq> set ys"
proof -
  have "xs = ys @ x # zs \<Longrightarrow> set (g x) \<subseteq> set ys" if "ordered g xs" for xs
    using that
  proof (induction arbitrary: zs rule: ordered.induct)
    case (ordered_snoc xs y)
    show ?case
    proof (cases zs rule: rev_cases)
      case Nil with ordered_snoc show ?thesis by simp
    next
      case (snoc us u) with ordered_snoc show ?thesis by simp
    qed
  qed simp
  with assms show ?thesis by blast
qed

lemma ordered_closed: "ordered g xs \<Longrightarrow> x \<in> set xs \<Longrightarrow> set (g x) \<subseteq> set xs"
  by (induction rule: ordered.induct) auto

text \<open>No path inside an ordered list returns to where it started.\<close>

lemma ordered_trancl: "(x, y) \<in> (edges g)\<^sup>+ \<Longrightarrow> ordered g (xs @ [x]) \<Longrightarrow> y \<in> set xs"
proof (induction rule: trancl_induct)
  case (base y)
  then show ?case using ordered_before [of g xs x "[]"] by (auto simp: edges_def)
next
  case (step y z)
  have "ordered g xs" using step.prems by (cases rule: ordered.cases) auto
  with step ordered_closed [of g xs y] show ?case by (auto simp: edges_def)
qed

lemma ordered_prefix: "ordered g (xs @ ys) \<Longrightarrow> ordered g xs"
  by (induction ys rule: rev_induct) (auto elim: ordered.cases)

lemma ordered_no_cycle:
  assumes "ordered g xs" "x \<in> set xs" shows "(x, x) \<notin> (edges g)\<^sup>+"
proof
  assume c: "(x, x) \<in> (edges g)\<^sup>+"
  obtain ys zs where xs: "xs = ys @ x # zs" using assms(2) by (meson split_list)
  have o: "ordered g (ys @ [x])" using assms(1) xs ordered_prefix [of g "ys @ [x]" zs] by simp
  have "x \<in> set ys" by (rule ordered_trancl [OF c o])
  with ordered_distinct [OF o] show False by simp
qed


text \<open>
  What the search returns, inside a set \<open>U\<close> closed under dependencies: the finished nodes grow,
  stay in order and keep clear of the path, and hold the node at the end.
\<close>

definition closed_under :: "(addr \<Rightarrow> addr list) \<Rightarrow> addr set \<Rightarrow> bool" where
  "closed_under g U \<longleftrightarrow> (\<forall>y \<in> U. set (g y) \<subseteq> U)"

definition progress :: "(addr \<Rightarrow> addr list) \<Rightarrow> addr set \<Rightarrow> addr set \<Rightarrow> addr list \<Rightarrow> bool" where
  "progress g U path dn \<longleftrightarrow> ordered g dn \<and> set dn \<inter> path = {} \<and> set dn \<subseteq> U"

lemma search_list_Some:
  assumes s: "\<And>x dn d. x \<in> U \<Longrightarrow> x \<notin> set dn \<Longrightarrow> s x dn = Some d \<Longrightarrow> progress g U path dn \<Longrightarrow>
      progress g U path d \<and> set dn \<subseteq> set d \<and> x \<in> set d"
    and "search_list s xs dn = Some d" "progress g U path dn" "set xs \<subseteq> U"
  shows "progress g U path d \<and> set dn \<subseteq> set d \<and> set xs \<subseteq> set d"
  using assms(2-)
proof (induction xs arbitrary: dn)
  case (Cons x xs)
  show ?case
  proof (cases "x \<in> set dn")
    case True
    with Cons show ?thesis by auto
  next
    case False
    then obtain dn' where r: "s x dn = Some dn'" "search_list s xs dn' = Some d"
      using Cons.prems(1) by (auto split: option.splits)
    have "progress g U path dn' \<and> set dn \<subseteq> set dn' \<and> x \<in> set dn'"
      using s [OF _ False r(1)] Cons.prems by simp
    with Cons.IH [OF r(2)] Cons.prems(3) show ?thesis by auto
  qed
qed simp

lemma search_Some:
  assumes "closed_under g U" "search n g path x dn = Some d" "progress g U path dn" "x \<in> U"
  shows "progress g U path d \<and> set dn \<subseteq> set d \<and> x \<in> set d"
  using assms(2-)
proof (induction n arbitrary: path x dn d)
  case (Suc n)
  show ?case
  proof (cases "x \<in> set dn")
    case True with Suc.prems show ?thesis by auto
  next
    case False
    with Suc.prems(1) obtain e where "x \<notin> path"
      and e: "search_list (search n g (insert x path)) (g x) dn = Some e" and d: "d = e @ [x]"
      by (auto split: if_splits)
    have p: "progress g U (insert x path) dn" using Suc.prems(2) False by (auto simp: progress_def)
    have "set (g x) \<subseteq> U" using assms(1) Suc.prems(3) by (auto simp: closed_under_def)
    from search_list_Some [OF Suc.IH e p this]
    have "progress g U (insert x path) e" "set dn \<subseteq> set e" "set (g x) \<subseteq> set e" by blast+
    then show ?thesis using d \<open>x \<notin> path\<close> Suc.prems(3)
      by (auto simp: progress_def intro: ordered_snoc)
  qed
qed simp

text \<open>When it fails with enough fuel, the node depends on a cycle.\<close>

definition leads_to_cycle :: "(addr \<Rightarrow> addr list) \<Rightarrow> addr \<Rightarrow> bool" where
  "leads_to_cycle g x \<longleftrightarrow> (\<exists>c. (x, c) \<in> (edges g)\<^sup>* \<and> (c, c) \<in> (edges g)\<^sup>+)"

lemma leads_to_cycle_step: "y \<in> set (g x) \<Longrightarrow> leads_to_cycle g y \<Longrightarrow> leads_to_cycle g x"
  by (auto simp: leads_to_cycle_def edges_def intro: converse_rtrancl_into_rtrancl)

lemma search_list_None:
  "search_list s xs dn = None \<Longrightarrow> \<exists>x \<in> set xs. \<exists>dn'. x \<notin> set dn' \<and> s x dn' = None"
  by (induction xs arbitrary: dn) (auto split: if_splits option.splits)

lemma search_None:
  assumes "finite U" "closed_under g U"
  shows "search n g path x dn = None \<Longrightarrow> x \<in> U \<Longrightarrow> card (U - path) < n \<Longrightarrow>
    (\<forall>p \<in> path \<inter> U. (p, x) \<in> (edges g)\<^sup>+) \<Longrightarrow> leads_to_cycle g x"
proof (induction n arbitrary: path x dn)
  case (Suc n)
  show ?case
  proof (cases "x \<in> path")
    case True
    with Suc.prems have "(x, x) \<in> (edges g)\<^sup>+" by blast
    then show ?thesis by (auto simp: leads_to_cycle_def)
  next
    case False
    with Suc.prems(1) have "search_list (search n g (insert x path)) (g x) dn = None"
      by (auto split: if_splits)
    then obtain y dn' where y: "y \<in> set (g x)" and f: "search n g (insert x path) y dn' = None"
      using search_list_None by blast
    have xy: "(x, y) \<in> edges g" using y by (simp add: edges_def)
    have "U - insert x path = (U - path) - {x}" by auto
    moreover have "card ((U - path) - {x}) < card (U - path)"
      using False Suc.prems(2) assms(1) by (intro card_Diff1_less) auto
    ultimately have "card (U - insert x path) < n" using Suc.prems(3) by simp
    moreover have "y \<in> U" using y Suc.prems(2) assms(2) by (auto simp: closed_under_def)
    moreover have "\<forall>p \<in> insert x path \<inter> U. (p, y) \<in> (edges g)\<^sup>+"
      using Suc.prems(4) xy by (auto intro: trancl_into_trancl)
    ultimately have "leads_to_cycle g y" using Suc.IH f by blast
    with y show ?thesis by (rule leads_to_cycle_step)
  qed
qed simp

lemma ordered_no_lead:
  assumes "ordered g xs" "x \<in> set xs" shows "\<not> leads_to_cycle g x"
proof
  assume "leads_to_cycle g x"
  then obtain c where c: "(x, c) \<in> (edges g)\<^sup>*" "(c, c) \<in> (edges g)\<^sup>+" by (auto simp: leads_to_cycle_def)
  have "c \<in> set xs" using c(1) assms(2)
    by (induction rule: rtrancl_induct) (use ordered_closed [OF assms(1)] in \<open>auto simp: edges_def\<close>)
  with ordered_no_cycle [OF assms(1)] c(2) show False by blast
qed

section \<open>The heap during a search\<close>

text \<open>
  The heap \<open>marked h m path dn\<close> that a search in module \<open>m\<close> has made of \<open>h\<close>: the nodes of the
  path are being visited, the finished ones are visited and have been appended to the run lists.
\<close>

definition deps :: "heap \<Rightarrow> addr \<Rightarrow> addr list" where
  "deps h a = (if a < length h then direct_deps (h ! a) else [])"

definition enlist :: "heap \<Rightarrow> avar \<Rightarrow> addr list \<Rightarrow> avar" where
  "enlist h md dn = foldl (\<lambda>md a. runlist_append (h ! a) (the (av_v (h ! a))) a md) md dn"

definition marked :: "heap \<Rightarrow> addr \<Rightarrow> addr set \<Rightarrow> addr list \<Rightarrow> heap" where
  "marked h m path dn = map (\<lambda>i.
     (if i = m then enlist h (h ! m) dn else h ! i)
       \<lparr> visited := visited (h ! i) \<or> i \<in> set dn, visiting := visiting (h ! i) \<or> i \<in> path \<rparr>)
     [0..<length h]"

lemma hread_eq: "hread h a = (if a < length h then Inr (h ! a) else Inl OutOfBounds)"
  by (simp add: hread_def aread_def)

lemma hupd_eq: "hupd h a f = (if a < length h then Inr (h[a := f (h ! a)]) else Inl OutOfBounds)"
  by (simp add: hupd_def hread_eq)

lemma length_marked [simp]: "length (marked h m path dn) = length h"
  by (simp add: marked_def)

lemma nth_marked: "i < length h \<Longrightarrow> marked h m path dn ! i =
     (if i = m then enlist h (h ! m) dn else h ! i)
       \<lparr> visited := visited (h ! i) \<or> i \<in> set dn, visiting := visiting (h ! i) \<or> i \<in> path \<rparr>"
  by (simp add: marked_def)

lemma runlist_append_fields [simp]:
  "visited (runlist_append x v a md) = visited md" "visiting (runlist_append x v a md) = visiting md"
  "avars (runlist_append x v a md) = avars md" "av_parent (runlist_append x v a md) = av_parent md"
  "av_v (runlist_append x v a md) = av_v md" "av_model (runlist_append x v a md) = av_model md"
  "direct_deps (runlist_append x v a md) = direct_deps md" "offset (runlist_append x v a md) = offset md"
  by (simp_all add: runlist_append_def)

lemma runlist_append_flags:
  "runlist_append x v a (md\<lparr> visited := b, visiting := c \<rparr>) =
     (runlist_append x v a md)\<lparr> visited := b, visiting := c \<rparr>"
  by (simp add: runlist_append_def)

lemma runlist_append_const: "is_const x = is_const y \<Longrightarrow> runlist_append x v a md = runlist_append y v a md"
  by (simp add: runlist_append_def)

lemma enlist_snoc [simp]:
  "enlist h md (dn @ [a]) = runlist_append (h ! a) (the (av_v (h ! a))) a (enlist h md dn)"
  by (simp add: enlist_def)

lemma enlist_Nil [simp]: "enlist h md [] = md"
  by (simp add: enlist_def)

lemma marked_nothing: "marked h m {} [] = h"
  by (rule nth_equalityI) (auto simp: nth_marked)

lemma marked_visit:
  "a < length h \<Longrightarrow>
   hupd (marked h m path dn) a (\<lambda>x. x\<lparr> visiting := True \<rparr>) = Inr (marked h m (insert a path) dn)"
  by (auto simp: hupd_eq nth_marked nth_list_update intro!: nth_equalityI)

lemma marked_leave:
  "a < length h \<Longrightarrow> \<not> visiting (h ! a) \<Longrightarrow> a \<notin> path \<Longrightarrow>
   hupd (marked h m (insert a path) dn) a (\<lambda>x. x\<lparr> visiting := False \<rparr>) = Inr (marked h m path dn)"
  by (auto simp: hupd_eq nth_marked nth_list_update intro!: nth_equalityI)

lemma marked_finish:
  assumes "a < length h" "m < length h" "a \<noteq> m" "\<not> visiting (h ! a)" "a \<notin> path"
    "is_const x = is_const (h ! a)" "av_v (h ! a) = Some v"
  shows "rbind (hupd (marked h m (insert a path) dn) m (runlist_append x v a)) (\<lambda>h1.
           hupd h1 a (\<lambda>x. x\<lparr> visited := True, visiting := False \<rparr>)) = Inr (marked h m path (dn @ [a]))"
  using assms
  by (auto simp: hupd_eq nth_marked nth_list_update runlist_append_flags
      runlist_append_const [of x "h ! a"] intro!: nth_equalityI)

text \<open>A set of variables that a search in module \<open>m\<close> stays in, with no flag set yet.\<close>

definition searchable :: "heap \<Rightarrow> addr \<Rightarrow> addr set \<Rightarrow> bool" where
  "searchable h m U \<longleftrightarrow> m < length h \<and> m \<notin> U \<and> finite U \<and> closed_under (deps h) U \<and>
     (\<forall>a \<in> U. a < length h \<and> \<not> visited (h ! a) \<and> \<not> visiting (h ! a) \<and> av_v (h ! a) \<noteq> None)"

definition agrees :: "heap \<Rightarrow> addr \<Rightarrow> addr set \<Rightarrow> (sd_error \<times> heap) run \<Rightarrow> addr list option \<Rightarrow> bool" where
  "agrees h m path r d \<longleftrightarrow>
     (case d of
        Some d \<Rightarrow> r = Inr (SD_ERR_NO_ERROR, marked h m path d)
      | None \<Rightarrow> (\<exists>h'. r = Inr (SD_ERR_CIRCULAR, h')))"

lemma deps_loop_agrees:
  assumes add: "\<And>x dn. x \<in> U \<Longrightarrow> x \<notin> set dn \<Longrightarrow> progress (deps h) U path dn \<Longrightarrow>
      agrees h m path (add (marked h m path dn) x) (s x dn)"
    and s: "\<And>x dn d. x \<in> U \<Longrightarrow> x \<notin> set dn \<Longrightarrow> s x dn = Some d \<Longrightarrow> progress (deps h) U path dn \<Longrightarrow>
      progress (deps h) U path d"
    and "searchable h m U" "set xs \<subseteq> U" "progress (deps h) U path dn"
  shows "agrees h m path (deps_loop add xs (marked h m path dn)) (search_list s xs dn)"
  using assms(4-)
proof (induction xs arbitrary: dn)
  case Nil
  then show ?case by (simp add: agrees_def)
next
  case (Cons x xs)
  have x: "x < length h" "x \<noteq> m" "\<not> visited (h ! x)" "x \<in> U"
    using assms(3) Cons.prems by (auto simp: searchable_def)
  show ?case
  proof (cases "x \<in> set dn")
    case True
    with Cons x show ?thesis by (simp add: hread_eq nth_marked)
  next
    case False
    note a = add [OF x(4) False Cons.prems(2)]
    show ?thesis
    proof (cases "s x dn")
      case None
      with a False x show ?thesis by (auto simp: agrees_def hread_eq nth_marked)
    next
      case (Some d)
      with a have "add (marked h m path dn) x = Inr (SD_ERR_NO_ERROR, marked h m path d)"
        by (simp add: agrees_def)
      with Cons.IH [of d] Cons.prems s [OF x(4) False Some] False Some x
      show ?thesis by (simp add: hread_eq nth_marked)
    qed
  qed
qed

lemma add_to_runlists_agrees:
  assumes "searchable h m U"
  shows "x \<in> U \<Longrightarrow> progress (deps h) U path dn \<Longrightarrow> card (U - path) < n \<Longrightarrow>
     agrees h m path (module_add_to_runlists n m (marked h m path dn) x) (search n (deps h) path x dn)"
proof (induction n arbitrary: x path dn)
  case (Suc n)
  have x: "x < length h" "x \<noteq> m" "\<not> visited (h ! x)" "\<not> visiting (h ! x)" "set (deps h x) \<subseteq> U" "m < length h"
    and U: "finite U" "closed_under (deps h) U"
    using assms Suc.prems by (auto simp: searchable_def closed_under_def)
  obtain v where v: "av_v (h ! x) = Some v" using assms Suc.prems by (auto simp: searchable_def)
  let ?p = "insert x path"
  show ?case
  proof (cases "x \<in> set dn \<or> x \<in> path")
    case True
    with x show ?thesis by (auto simp: agrees_def add_to_runlists_body_def hread_eq nth_marked)
  next
    case False
    have p: "progress (deps h) U ?p dn" using Suc.prems False by (auto simp: progress_def)
    have "U - ?p = (U - path) - {x}" by auto
    moreover have "card ((U - path) - {x}) < card (U - path)"
      using False Suc.prems(1) U(1) by (intro card_Diff1_less) auto
    ultimately have c: "card (U - ?p) < n" using Suc.prems(3) by simp
    have a: "agrees h m ?p (deps_loop (module_add_to_runlists n m) (deps h x) (marked h m ?p dn))
        (search_list (search n (deps h) ?p) (deps h x) dn)"
      using Suc.IH [OF _ _ c] search_Some [OF U(2)] by (intro deps_loop_agrees [OF _ _ assms x(5) p]) blast+
    let ?r = "search_list (search n (deps h) ?p) (deps h x) dn"
    have s: "search (Suc n) (deps h) path x dn = map_option (\<lambda>d. d @ [x]) ?r"
      using False by simp
    have d: "direct_deps (marked h m path dn ! x) = deps h x" and
      vv: "av_v (marked h m path dn ! x) = Some v"
      using x v by (simp_all add: nth_marked deps_def)
    have r: "module_add_to_runlists (Suc n) m (marked h m path dn) x =
        rbind (deps_loop (module_add_to_runlists n m) (deps h x) (marked h m ?p dn)) (\<lambda>(err, h1).
          if err \<noteq> SD_ERR_NO_ERROR then Inr (err, h1)
          else rbind (rbind (hupd h1 m (runlist_append (marked h m path dn ! x) v x)) (\<lambda>h1.
             hupd h1 x (\<lambda>x. x\<lparr> visited := True, visiting := False \<rparr>))) (\<lambda>h1. Inr (SD_ERR_NO_ERROR, h1)))"
      using False x d vv
      by (simp add: add_to_runlists_body_def hread_eq marked_visit var_of_def rbind_assoc cong: if_cong)
        (simp add: nth_marked)
    show ?thesis
    proof (cases ?r)
      case None
      with a show ?thesis by (subst s, subst r) (auto simp: agrees_def)
    next
      case (Some e)
      with a have "deps_loop (module_add_to_runlists n m) (deps h x) (marked h m ?p dn) =
          Inr (SD_ERR_NO_ERROR, marked h m ?p e)"
        by (simp add: agrees_def)
      moreover have "is_const (marked h m path dn ! x) = is_const (h ! x)" using x by (simp add: nth_marked)
      ultimately show ?thesis using Some False x v
        by (subst s, subst r) (simp add: agrees_def marked_finish)
    qed
  qed
qed simp

section \<open>Sorting a module without submodules\<close>

definition flat :: "heap \<Rightarrow> addr \<Rightarrow> bool" where
  "flat h m \<longleftrightarrow> m < length h \<and> m \<notin> set (avars (h ! m)) \<and>
     (\<forall>a \<in> set (avars (h ! m)). a < length h \<and> av_model (h ! a) = None \<and>
        (case av_v (h ! a) of None \<Rightarrow> False | Some v \<Rightarrow> vtype v \<noteq> VAR_MODULE) \<and>
        set (direct_deps (h ! a)) \<subseteq> set (avars (h ! m)))"

text \<open>The variables the loop of \<open>module_sort_runlists\<close> looks at: \<open>time\<close> of the root is left out.\<close>

definition scheduled :: "heap \<Rightarrow> addr \<Rightarrow> addr list" where
  "scheduled h m = drop (if av_parent (h ! m) = None then 1 else 0) (avars (h ! m))"

definition kind :: "heap \<Rightarrow> addr \<Rightarrow> var_type" where
  "kind h a = vtype (the (av_v (h ! a)))"

definition on_stocks :: "heap \<Rightarrow> addr \<Rightarrow> bool" where
  "on_stocks h a \<longleftrightarrow> kind h a = VAR_STOCK \<or> (kind h a \<noteq> VAR_REF \<and> is_const (h ! a))"

definition on_flows :: "heap \<Rightarrow> addr \<Rightarrow> bool" where
  "on_flows h a \<longleftrightarrow> kind h a \<noteq> VAR_STOCK \<and> kind h a \<noteq> VAR_REF \<and> \<not> is_const (h ! a)"

lemma enlist_lists:
  "\<forall>a \<in> set dn. kind h a \<noteq> VAR_MODULE \<Longrightarrow>
     initials (enlist h md dn) = initials md @ filter (\<lambda>a. kind h a \<noteq> VAR_REF) dn \<and>
     flows (enlist h md dn) = flows md @ filter (on_flows h) dn \<and>
     stocks (enlist h md dn) = stocks md @ filter (on_stocks h) dn"
  by (induction dn rule: rev_induct) (auto simp: runlist_append_def kind_def on_flows_def on_stocks_def)

definition cleared :: "heap \<Rightarrow> addr set \<Rightarrow> heap" where
  "cleared h A = map (\<lambda>i. if i \<in> A then (h ! i)\<lparr> visited := False, visiting := False \<rparr> else h ! i) [0..<length h]"

lemma length_cleared [simp]: "length (cleared h A) = length h"
  by (simp add: cleared_def)

lemma nth_cleared: "i < length h \<Longrightarrow> cleared h A ! i =
    (if i \<in> A then (h ! i)\<lparr> visited := False, visiting := False \<rparr> else h ! i)"
  by (simp add: cleared_def)

lemma cleared_empty: "cleared h {} = h"
  by (rule nth_equalityI) (auto simp: nth_cleared)

lemma cleared_fields [simp]:
  "i < length h \<Longrightarrow> av_v (cleared h A ! i) = av_v (h ! i)"
  "i < length h \<Longrightarrow> avars (cleared h A ! i) = avars (h ! i)"
  "i < length h \<Longrightarrow> av_model (cleared h A ! i) = av_model (h ! i)"
  "i < length h \<Longrightarrow> av_parent (cleared h A ! i) = av_parent (h ! i)"
  "i < length h \<Longrightarrow> direct_deps (cleared h A ! i) = direct_deps (h ! i)"
  "i < length h \<Longrightarrow> is_const (cleared h A ! i) = is_const (h ! i)"
  by (simp_all add: nth_cleared)

lemma cleared_upd:
  "a < length h \<Longrightarrow> hupd (cleared h A) a (\<lambda>x. x\<lparr> visited := False, visiting := False \<rparr>) = Inr (cleared h (insert a A))"
  by (auto simp: hupd_eq nth_cleared nth_list_update intro!: nth_equalityI)

lemma clear_members_flat:
  "\<forall>a \<in> set as. a < length h \<and> av_model (h ! a) = None \<Longrightarrow>
   clear_members c as (cleared h A) = Inr (cleared h (A \<union> set as))"
  by (induction as arbitrary: A) (auto simp: hread_eq cleared_upd)

lemma module_clear_flat:
  assumes "flat h m"
  shows "module_clear_visited (depth_fuel h) h m = Inr (cleared h (insert m (set (avars (h ! m)))))"
proof -
  have "clear_members c (avars (h ! m)) (cleared h {}) = Inr (cleared h ({} \<union> set (avars (h ! m))))" for c
    using assms by (intro clear_members_flat) (auto simp: flat_def)
  with assms show ?thesis
    by (simp add: depth_fuel_def cleared_empty hread_eq flat_def cleared_upd)
qed

lemma flat_searchable:
  assumes "flat h m" and "h1 = cleared h (insert m (set (avars (h ! m))))"
  shows "searchable h1 m (set (avars (h ! m)))"
  using assms by (auto simp: searchable_def flat_def closed_under_def deps_def nth_cleared split: option.splits)

lemma sort_members_agrees:
  assumes "searchable h m U" "\<forall>a \<in> U. kind h a \<noteq> VAR_MODULE" "progress (deps h) U path dn" "set xs \<subseteq> U"
  shows "agrees h m path (sort_members rec m xs (marked h m path dn))
           (search_list (search (depth_fuel h) (deps h) path) xs dn)"
  using assms(3,4)
proof (induction xs arbitrary: dn)
  case Nil
  then show ?case by (simp add: agrees_def)
next
  case (Cons x xs)
  have x: "x < length h" "x \<noteq> m" "\<not> visited (h ! x)" "x \<in> U"
    using assms(1) Cons.prems by (auto simp: searchable_def)
  obtain v where v: "av_v (h ! x) = Some v" "vtype v \<noteq> VAR_MODULE"
    using assms(1,2) x by (force simp: searchable_def kind_def)
  have "U \<subseteq> {..<length h}" using assms(1) by (auto simp: searchable_def)
  then have "U - path \<subseteq> {..<length h}" by blast
  from card_mono [OF _ this] have "card (U - path) < depth_fuel h" by (simp add: depth_fuel_def)
  note a = add_to_runlists_agrees [OF assms(1) x(4) Cons.prems(1) this]
  note p = search_Some [of "deps h" U, OF _ _ Cons.prems(1) x(4)]
  have cl: "closed_under (deps h) U" using assms(1) by (simp add: searchable_def)
  have step: "sort_members rec m (x # xs) (marked h m path dn) =
      (if x \<in> set dn then sort_members rec m xs (marked h m path dn)
       else rbind (module_add_to_runlists (depth_fuel h) m (marked h m path dn) x) (\<lambda>(err, h).
         if err \<noteq> SD_ERR_NO_ERROR then Inr (err, h) else sort_members rec m xs h))"
    using x v by (simp add: hread_eq nth_marked var_of_def depth_fuel_def)
  show ?case
  proof (cases "x \<in> set dn")
    case True
    with Cons step show ?thesis by simp
  next
    case False
    show ?thesis
    proof (cases "search (depth_fuel h) (deps h) path x dn")
      case None
      with a False step show ?thesis by (auto simp: agrees_def)
    next
      case (Some d)
      with a have "module_add_to_runlists (depth_fuel h) m (marked h m path dn) x =
          Inr (SD_ERR_NO_ERROR, marked h m path d)"
        by (simp add: agrees_def)
      with Cons.IH [of d] Cons.prems p [OF cl Some] False Some step show ?thesis by simp
    qed
  qed
qed

lemma deps_cleared [simp]: "deps (cleared h A) = deps h"
  by (rule ext) (simp add: deps_def)

lemma scheduled_sub: "set (scheduled h m) \<subseteq> set (avars (h ! m))"
  by (simp add: scheduled_def set_drop_subset)

text \<open>Everything about a sort of a flat module, in terms of the search.\<close>

lemma module_sort_search:
  assumes "flat h m"
  defines "h1 \<equiv> cleared h (insert m (set (avars (h ! m))))"
  shows "agrees h1 m {} (module_sort_runlists (depth_fuel h) h m)
     (search_list (search (depth_fuel h) (deps h) {m}) (scheduled h m) [])"
proof -
  have dp: "deps h1 = deps h" by (simp add: h1_def)
  let ?U = "set (avars (h ! m))"
  have S: "searchable h1 m ?U" unfolding h1_def using flat_searchable [OF assms(1)] by blast
  have m: "m < length h" "\<not> visiting (h1 ! m)" using assms by (simp_all add: flat_def nth_cleared h1_def)
  have k: "\<forall>a \<in> ?U. kind h1 a \<noteq> VAR_MODULE"
    using assms(1) by (auto simp: kind_def h1_def flat_def split: option.splits)
  have p: "progress (deps h1) ?U {m} []" by (simp add: progress_def ordered_Nil)
  have f: "depth_fuel h1 = depth_fuel h" by (simp add: depth_fuel_def h1_def)
  have vm: "hupd h1 m (\<lambda>x. x\<lparr> visiting := True \<rparr>) = Inr (marked h1 m {m} [])"
    using marked_visit [of m h1 m "{}" "[]"] m by (simp add: marked_nothing h1_def)
  have sch: "drop (if av_parent (marked h1 m {m} [] ! m) = None then 1 else 0) (avars (marked h1 m {m} [] ! m)) = scheduled h m"
    using m by (simp add: nth_marked scheduled_def h1_def)
  have r: "module_sort_runlists (depth_fuel h) h m =
      rbind (sort_members (module_sort_runlists (length h)) m (scheduled h m) (marked h1 m {m} [])) (\<lambda>(err, h).
       if err \<noteq> SD_ERR_NO_ERROR then Inr (err, h)
       else rbind (hupd h m (\<lambda>x. x\<lparr> visiting := False \<rparr>)) (\<lambda>h. Inr (SD_ERR_NO_ERROR, h)))"
    using module_clear_flat [OF assms(1)] m vm sch
    by (simp add: depth_fuel_def module_sort_body_def h1_def hread_eq)
  have "agrees h1 m {m} (sort_members (module_sort_runlists (length h)) m (scheduled h m) (marked h1 m {m} []))
     (search_list (search (depth_fuel h) (deps h) {m}) (scheduled h m) [])"
    using sort_members_agrees [OF S k p scheduled_sub] f dp by simp
  moreover have "hupd (marked h1 m {m} d) m (\<lambda>x. x\<lparr> visiting := False \<rparr>) = Inr (marked h1 m {} d)" for d
    using marked_leave [of m h1 "{}"] m by (simp add: h1_def)
  ultimately show ?thesis unfolding r by (auto simp: agrees_def split: option.splits)
qed

lemma flat_closed: "flat h m \<Longrightarrow> closed_under (deps h) (set (avars (h ! m)))"
  by (simp add: flat_def closed_under_def deps_def)

lemma flat_start: "flat h m \<Longrightarrow> progress (deps h) (set (avars (h ! m))) {m} []"
  by (simp add: progress_def ordered_Nil)

lemma flat_search:
  assumes "flat h m" "search_list (search n (deps h) {m}) (scheduled h m) [] = Some dn"
  shows "progress (deps h) (set (avars (h ! m))) {m} dn \<and> set (scheduled h m) \<subseteq> set dn"
proof -
  note step = search_Some [OF flat_closed [OF assms(1)]]
  show ?thesis
    using search_list_Some [OF _ assms(2) flat_start [OF assms(1)] scheduled_sub] step by blast
qed

lemma module_sort_runlists_facts:
  assumes "flat h m" "initials (h ! m) = []" "flows (h ! m) = []" "stocks (h ! m) = []"
    "module_sort_runlists (depth_fuel h) h m = Inr (SD_ERR_NO_ERROR, h')"
  shows "\<exists>dn. ordered (deps h) dn \<and> set (scheduled h m) \<subseteq> set dn \<and> set dn \<subseteq> set (avars (h ! m)) \<and>
    initials (h' ! m) = filter (\<lambda>a. kind h a \<noteq> VAR_REF) dn \<and>
    flows (h' ! m) = filter (on_flows h) dn \<and> stocks (h' ! m) = filter (on_stocks h) dn"
proof -
  let ?U = "set (avars (h ! m))" and ?h1 = "cleared h (insert m (set (avars (h ! m))))"
  let ?r = "search_list (search (depth_fuel h) (deps h) {m}) (scheduled h m) []"
  note a = module_sort_search [OF assms(1)]
  obtain dn where dn: "?r = Some dn" and h': "h' = marked ?h1 m {} dn"
    using a assms(5) by (cases ?r) (auto simp: agrees_def)
  have p: "progress (deps h) ?U {m} dn" "set (scheduled h m) \<subseteq> set dn"
    using flat_search [OF assms(1) dn] by blast+
  have m: "m < length h" using assms(1) by (simp add: flat_def)
  have same: "kind ?h1 a = kind h a \<and> on_flows ?h1 a = on_flows h a \<and> on_stocks ?h1 a = on_stocks h a"
    if "a \<in> set dn" for a
  proof -
    have "a < length h" using that p(1) assms(1) by (auto simp: progress_def flat_def)
    then show ?thesis by (simp add: kind_def on_flows_def on_stocks_def)
  qed
  have "\<forall>a \<in> set dn. kind ?h1 a \<noteq> VAR_MODULE"
  proof
    fix a assume "a \<in> set dn"
    then have "a \<in> ?U" using p(1) by (auto simp: progress_def)
    then show "kind ?h1 a \<noteq> VAR_MODULE"
      using assms(1) by (auto simp: flat_def kind_def split: option.splits)
  qed
  note l = enlist_lists [OF this, of "?h1 ! m"]
  have e: "initials (?h1 ! m) = []" "flows (?h1 ! m) = []" "stocks (?h1 ! m) = []"
    using assms(2-4) m by (simp_all add: nth_cleared)
  have f: "filter (\<lambda>a. kind ?h1 a \<noteq> VAR_REF) dn = filter (\<lambda>a. kind h a \<noteq> VAR_REF) dn"
    "filter (on_flows ?h1) dn = filter (on_flows h) dn" "filter (on_stocks ?h1) dn = filter (on_stocks h) dn"
    using same by (auto intro: filter_cong)
  have "initials (h' ! m) = filter (\<lambda>a. kind h a \<noteq> VAR_REF) dn \<and>
    flows (h' ! m) = filter (on_flows h) dn \<and> stocks (h' ! m) = filter (on_stocks h) dn"
    unfolding h' using l e f m by (simp add: nth_marked)
  with p show ?thesis by (auto simp: progress_def)
qed

text \<open>A module of three auxiliaries, the second reading the third: two instances for the theorems below.\<close>

definition chain_heap :: "addr list \<Rightarrow> heap" where
  "chain_heap back = (let v = avar_zero\<lparr> av_v := Some time_var, av_parent := Some 0 \<rparr> in
     [avar_zero\<lparr> avars := [1, 2, 3] \<rparr>, v, v\<lparr> direct_deps := [3] \<rparr>, v\<lparr> direct_deps := back \<rparr>])"

lemma chain_flat: "set back \<subseteq> {1, 2, 3} \<Longrightarrow> flat (chain_heap back) 0"
  by (auto simp: flat_def chain_heap_def Let_def avar_zero_def time_var_def numeral_3_eq_3 numeral_2_eq_2)

lemma chain_sort:
  "\<exists>h'. module_sort_runlists (depth_fuel (chain_heap [])) (chain_heap []) 0 = Inr (SD_ERR_NO_ERROR, h')"
  by (simp add: depth_fuel_def hread_def hupd_def module_sort_body_def add_to_runlists_body_def var_of_def
      runlist_append_def chain_heap_def Let_def avar_zero_def time_var_def)

text \<open>
  C4. Sorting a module without submodules: when it succeeds, there is an order of its variables
  in which each comes after all it depends on; the three run lists of the module are, in that
  order, the variables that are no connections, those that are neither stocks nor constants, and
  the stocks and constants. Every variable of the module is in the order (\<open>time\<close> of the root
  module only when another depends on it).
\<close>

theorem module_sort_runlists_ordered:
  assumes "flat h m" "initials (h ! m) = []" "flows (h ! m) = []" "stocks (h ! m) = []"
    "module_sort_runlists (depth_fuel h) h m = Inr (SD_ERR_NO_ERROR, h')"
  shows "\<exists>dn. ordered (deps h) dn \<and> set (scheduled h m) \<subseteq> set dn \<and> set dn \<subseteq> set (avars (h ! m)) \<and>
    initials (h' ! m) = filter (\<lambda>a. kind h a \<noteq> VAR_REF) dn \<and>
    flows (h' ! m) = filter (on_flows h) dn \<and> stocks (h' ! m) = filter (on_stocks h) dn"
  by (rule module_sort_runlists_facts [OF assms])

lemma module_sort_runlists_ordered_witness:
  "\<exists>h' dn. module_sort_runlists (depth_fuel (chain_heap [])) (chain_heap []) 0 = Inr (SD_ERR_NO_ERROR, h') \<and>
     ordered (deps (chain_heap [])) dn \<and> flows (h' ! 0) = filter (on_flows (chain_heap [])) dn"
proof -
  obtain h' where h: "module_sort_runlists (depth_fuel (chain_heap [])) (chain_heap []) 0 = Inr (SD_ERR_NO_ERROR, h')"
    using chain_sort by blast
  have "initials (chain_heap [] ! 0) = []" "flows (chain_heap [] ! 0) = []" "stocks (chain_heap [] ! 0) = []"
    by (simp_all add: chain_heap_def Let_def avar_zero_def)
  from module_sort_runlists_ordered [OF chain_flat this h] h show ?thesis by auto
qed

text \<open>
  C5. Sorting a module without submodules always returns, and reports a circularity exactly when
  one of its variables depends, directly or through others, on a cycle of dependencies.
\<close>

theorem module_sort_runlists_circular:
  assumes "flat h m"
  shows "if \<exists>x \<in> set (scheduled h m). leads_to_cycle (deps h) x
         then \<exists>h'. module_sort_runlists (depth_fuel h) h m = Inr (SD_ERR_CIRCULAR, h')
         else \<exists>h'. module_sort_runlists (depth_fuel h) h m = Inr (SD_ERR_NO_ERROR, h')"
proof -
  let ?U = "set (avars (h ! m))"
  let ?r = "search_list (search (depth_fuel h) (deps h) {m}) (scheduled h m) []"
  note a = module_sort_search [OF assms(1)] and cl = flat_closed [OF assms]
  show ?thesis
  proof (cases ?r)
    case (Some dn)
    have "ordered (deps h) dn" "set (scheduled h m) \<subseteq> set dn"
      using flat_search [OF assms(1) Some] by (auto simp: progress_def)
    then have "\<not> (\<exists>x \<in> set (scheduled h m). leads_to_cycle (deps h) x)"
      using ordered_no_lead by blast
    with a Some show ?thesis by (auto simp: agrees_def)
  next
    case None
    then obtain x dn where x: "x \<in> set (scheduled h m)" "search (depth_fuel h) (deps h) {m} x dn = None"
      using search_list_None by blast
    have U: "x \<in> ?U" using x scheduled_sub by blast
    have "?U - {m} \<subseteq> {..<length h}" using assms by (auto simp: flat_def)
    from card_mono [OF _ this] have c: "card (?U - {m}) < depth_fuel h" by (simp add: depth_fuel_def)
    have "leads_to_cycle (deps h) x"
      using search_None [OF _ cl x(2) U c] assms by (auto simp: flat_def)
    with a None x show ?thesis by (auto simp: agrees_def)
  qed
qed

lemma module_sort_runlists_circular_witness:
  "\<exists>h'. module_sort_runlists (depth_fuel (chain_heap [2])) (chain_heap [2]) 0 = Inr (SD_ERR_CIRCULAR, h')"
proof -
  have "(2, 3) \<in> edges (deps (chain_heap [2]))" "(3, 2) \<in> edges (deps (chain_heap [2]))"
    by (simp_all add: edges_def deps_def chain_heap_def Let_def avar_zero_def)
  then have "(2, 2) \<in> (edges (deps (chain_heap [2])))\<^sup>+" by (meson trancl.r_into_trancl trancl.trancl_into_trancl)
  then have "leads_to_cycle (deps (chain_heap [2])) 2" unfolding leads_to_cycle_def by blast
  moreover have "2 \<in> set (scheduled (chain_heap [2]) 0)"
    by (simp add: scheduled_def chain_heap_def Let_def avar_zero_def)
  ultimately have c: "\<exists>x \<in> set (scheduled (chain_heap [2]) 0). leads_to_cycle (deps (chain_heap [2])) x" by blast
  have "flat (chain_heap [2]) 0" by (rule chain_flat) simp
  from module_sort_runlists_circular [OF this] show ?thesis unfolding if_P [OF c] .
qed

end
