(* ===== verification/Evaluate.thy ===== *)
theory Evaluate
  imports Runlists
begin

text \<open>
  The values of equations and the two phases of a simulation step (\<^verbatim>\<open>sim.c\<close>): \<open>svisit\<close> with
  the built-in functions, \<open>calc\<close>, which computes a run list of variables in the current row, and
  \<open>calc_stocks\<close>, which computes stocks and constants of the next row from the current one.

  Results live in one array of doubles, the slab; \<open>curr\<close> and \<open>next\<close> point into it and are
  indices here. Accesses outside the slab fault. The function \<open>pow\<close> of the C library, whose
  accuracy C leaves open, is the parameter \<open>pw\<close> of everything that evaluates an equation.
\<close>

section \<open>The simulation state\<close>

record sim =
  s_heap :: heap
  s_module :: addr
  s_spec :: sim_spec
  slab :: "fp list"
  curr :: nat
  nexti :: "nat option"
  nvars :: nat
  nsaves :: nat
  nsteps :: nat
  step :: nat
  save_step :: nat
  save_every :: nat

definition TIME :: nat where
  "TIME = 0"

definition slab_read :: "sim \<Rightarrow> nat \<Rightarrow> fp run" where
  "slab_read s i = aread (slab s) i"

definition slab_write :: "sim \<Rightarrow> nat \<Rightarrow> fp \<Rightarrow> sim run" where
  "slab_write s i x = rbind (awrite (slab s) i x) (\<lambda>xs. Inr (s\<lparr> slab := xs \<rparr>))"

section \<open>Built-in functions\<close>

definition rt_min :: "nat \<Rightarrow> fp list \<Rightarrow> fp" where
  "rt_min n args = (if n \<noteq> 2 then NaN else if fp_lt (args ! 0) (args ! 1) then args ! 0 else args ! 1)"

definition rt_max :: "nat \<Rightarrow> fp list \<Rightarrow> fp" where
  "rt_max n args = (if n \<noteq> 2 then NaN else if fp_lt (args ! 1) (args ! 0) then args ! 0 else args ! 1)"

text \<open>The loop of \<open>rt_pulse\<close>; \<open>None\<close> when it does not end.\<close>

partial_function (option) pulse_loop :: "fp \<Rightarrow> fp \<Rightarrow> fp \<Rightarrow> fp \<Rightarrow> fp \<Rightarrow> fp option" where
  "pulse_loop dt time magnitude interval next_pulse =
     (if fp_le next_pulse time then
        if fp_lt time (d_add next_pulse dt) then Some (d_div magnitude dt)
        else if fp_le interval d_zero then Some d_zero
        else pulse_loop dt time magnitude interval (d_add next_pulse interval)
      else Some d_zero)"

definition rt_pulse :: "fp \<Rightarrow> fp \<Rightarrow> nat \<Rightarrow> fp list \<Rightarrow> fp run" where
  "rt_pulse dt time n args =
     (if fp_lt time (args ! 1) then Inr d_zero
      else
        (case pulse_loop dt time (args ! 0) (if 2 < n then args ! 2 else d_zero) (args ! 1) of
           None \<Rightarrow> Inl Diverges
         | Some x \<Rightarrow> Inr x))"

definition call_fn :: "rt_fn \<Rightarrow> fp \<Rightarrow> fp \<Rightarrow> nat \<Rightarrow> fp list \<Rightarrow> fp run" where
  "call_fn f dt time n args =
     (case f of
        RT_PULSE \<Rightarrow> rt_pulse dt time n args
      | RT_MIN \<Rightarrow> Inr (rt_min n args)
      | RT_MAX \<Rightarrow> Inr (rt_max n args))"

section \<open>Evaluating an equation\<close>

definition fp_bool :: "bool \<Rightarrow> fp" where
  "fp_bool b = (if b then d_int 1 else d_zero)"

definition unary_op :: "rune \<Rightarrow> fp \<Rightarrow> fp" where
  "unary_op op l =
     (if op = 0x2B then l
      else if op = 0x2D then fp_neg l
      else if op = 0x21 then fp_bool (fp_eq l d_zero)
      else NaN)"

text \<open>An operator \<open>svisit\<close> does not know, such as \<open>%\<close>, is reported and gives a NaN.\<close>

definition binary_op :: "(fp \<Rightarrow> fp \<Rightarrow> fp) \<Rightarrow> rune \<Rightarrow> fp \<Rightarrow> fp \<Rightarrow> fp" where
  "binary_op pw op l r =
     (if op = 0x2B then d_add l r
      else if op = 0x2D then d_sub l r
      else if op = 0x2A then d_mul l r
      else if op = 0x2F then d_div l r
      else if op = 0x3C then fp_bool (fp_lt l r)
      else if op = 0x3E then fp_bool (fp_lt r l)
      else if op = 0x26 then fp_bool (fp_eq l (d_int 1) \<and> fp_eq r (d_int 1))
      else if op = 0x7C then fp_bool (fp_eq l (d_int 1) \<or> fp_eq r (d_int 1))
      else if op = 0x3D then fp_bool (fp_eq l r)
      else if op = 0x2260 then fp_bool (\<not> fp_eq l r)
      else if op = 0x2264 then fp_bool (fp_le l r)
      else if op = 0x2265 then fp_bool (fp_le r l)
      else if op = 0x5E then pw l r
      else NaN)"

text \<open>Where the value of a variable is in a row: a connection stands for its source.\<close>

definition slot :: "heap \<Rightarrow> addr \<Rightarrow> nat run" where
  "slot h a =
     rbind (hread h a) (\<lambda>av.
       case av_src av of
         None \<Rightarrow> Inr (offset av)
       | Some b \<Rightarrow> rbind (hread h b) (\<lambda>src. Inr (offset src)))"

text \<open>
  The arguments of a call are stored in an array of six, one after the other; \<open>ev\<close> evaluates
  an argument.
\<close>

fun eval_args :: "('a \<Rightarrow> fp run) \<Rightarrow> nat \<Rightarrow> 'a list \<Rightarrow> fp list run" where
  "eval_args ev i [] = Inr []"
| "eval_args ev i (a # as) =
     rbind (ev a) (\<lambda>v.
       if i < 6 then rbind (eval_args ev (i + 1) as) (\<lambda>vs. Inr (v # vs)) else Inl OutOfBounds)"

lemma eval_args_cong [fundef_cong]:
  "i = j \<Longrightarrow> xs = ys \<Longrightarrow> (\<And>x. x \<in> set ys \<Longrightarrow> f x = g x) \<Longrightarrow> eval_args f i xs = eval_args g j ys"
proof (induction xs arbitrary: i j ys)
  case (Cons x xs)
  then show ?case by (cases ys) (auto intro!: rbind_cong)
qed auto

fun svisit :: "(fp \<Rightarrow> fp \<Rightarrow> fp) \<Rightarrow> sim \<Rightarrow> fp \<Rightarrow> fp \<Rightarrow> node \<Rightarrow> fp run" where
  "svisit pw s dt time Null = Inl NullDeref"
| "svisit pw s dt time (Paren n) = svisit pw s dt time n"
| "svisit pw s dt time (FloatLit t x) = Inr x"
| "svisit pw s dt time (Ident t a) =
     (case a of
        None \<Rightarrow> Inl NullDeref
      | Some av \<Rightarrow> rbind (slot (s_heap s) av) (\<lambda>off. slab_read s (curr s + off)))"
| "svisit pw s dt time (Call left args fn) =
     (if left = Null then Inl NullDeref
      else
        rbind (eval_args (svisit pw s dt time) 0 args) (\<lambda>vs.
          case fn of
            None \<Rightarrow> Inl NullDeref
          | Some f \<Rightarrow> call_fn f dt time (length args) (vs @ replicate (6 - length vs) d_zero)))"
| "svisit pw s dt time (If c l r) =
     rbind (svisit pw s dt time c) (\<lambda>x.
       if \<not> fp_eq x d_zero then svisit pw s dt time l else svisit pw s dt time r)"
| "svisit pw s dt time (Unary op l) = rbind (svisit pw s dt time l) (\<lambda>x. Inr (unary_op op x))"
| "svisit pw s dt time (Binary op l r) =
     rbind (svisit pw s dt time l) (\<lambda>x.
     rbind (svisit pw s dt time r) (\<lambda>y. Inr (binary_op pw op x y)))"

section \<open>The two phases of a step\<close>

definition apply_gf :: "avar \<Rightarrow> fp \<Rightarrow> fp run" where
  "apply_gf av v = rbind (var_of av) (\<lambda>w. case vgf w of None \<Rightarrow> Inr v | Some t \<Rightarrow> lookup t v)"

definition calc_var :: "(fp \<Rightarrow> fp \<Rightarrow> fp) \<Rightarrow> nat \<Rightarrow> avar \<Rightarrow> sim \<Rightarrow> sim run" where
  "calc_var pw data av s =
     rbind (slab_read s (data + 0)) (\<lambda>time.
     rbind (svisit pw s (sp_dt (s_spec s)) time (av_node av)) (\<lambda>v.
     rbind (apply_gf av v) (\<lambda>v. slab_write s (data + offset av) v)))"

primrec calc_list ::
  "(addr list \<Rightarrow> sim \<Rightarrow> sim run) \<Rightarrow> (fp \<Rightarrow> fp \<Rightarrow> fp) \<Rightarrow> nat \<Rightarrow> bool \<Rightarrow> addr list \<Rightarrow> sim \<Rightarrow> sim run" where
  "calc_list rec pw data initial [] s = Inr s"
| "calc_list rec pw data initial (a # as) s =
     rbind (hread (s_heap s) a) (\<lambda>av.
     rbind (if av_node av = Null then rec (if initial then initials av else flows av) s
            else calc_var pw data av s) (\<lambda>s.
       calc_list rec pw data initial as s))"

primrec calc :: "nat \<Rightarrow> (fp \<Rightarrow> fp \<Rightarrow> fp) \<Rightarrow> nat \<Rightarrow> bool \<Rightarrow> addr list \<Rightarrow> sim \<Rightarrow> sim run" where
  "calc 0 pw data initial l s = Inl OutOfFuel"
| "calc (Suc n) pw data initial l s = calc_list (calc n pw data initial) pw data initial l s"

text \<open>The sum over the flows of a stock; \<open>upd\<close> adds an inflow or subtracts an outflow.\<close>

primrec sum_flows :: "(fp \<Rightarrow> fp \<Rightarrow> fp) \<Rightarrow> sim \<Rightarrow> addr list \<Rightarrow> fp \<Rightarrow> fp run" where
  "sum_flows upd s [] v = Inr v"
| "sum_flows upd s (a # as) v =
     rbind (hread (s_heap s) a) (\<lambda>fl.
     rbind (slab_read s (curr s + offset fl)) (\<lambda>x. sum_flows upd s as (upd v x)))"

definition euler_stock :: "sim \<Rightarrow> avar \<Rightarrow> fp run" where
  "euler_stock s av =
     rbind (slab_read s (curr s + offset av)) (\<lambda>prev.
     rbind (sum_flows d_add s (av_inflows av) d_zero) (\<lambda>v.
     rbind (sum_flows d_sub s (av_outflows av) v) (\<lambda>v.
       Inr (d_add prev (d_mul v (sp_dt (s_spec s)))))))"

definition calc_stock_var :: "(fp \<Rightarrow> fp \<Rightarrow> fp) \<Rightarrow> nat \<Rightarrow> avar \<Rightarrow> var \<Rightarrow> sim \<Rightarrow> sim run" where
  "calc_stock_var pw data av v s =
     rbind (if vtype v = VAR_STOCK then euler_stock s av
            else rbind (slab_read s (curr s + 0)) (\<lambda>time. svisit pw s (sp_dt (s_spec s)) time (av_node av)))
       (\<lambda>x. slab_write s (data + offset av) x)"

primrec calc_stocks_list ::
  "(addr list \<Rightarrow> sim \<Rightarrow> sim run) \<Rightarrow> (fp \<Rightarrow> fp \<Rightarrow> fp) \<Rightarrow> nat \<Rightarrow> addr list \<Rightarrow> sim \<Rightarrow> sim run" where
  "calc_stocks_list rec pw data [] s = Inr s"
| "calc_stocks_list rec pw data (a # as) s =
     rbind (hread (s_heap s) a) (\<lambda>av.
     rbind (var_of av) (\<lambda>v.
     rbind (if vtype v = VAR_MODULE then rec (stocks av) s else calc_stock_var pw data av v s) (\<lambda>s.
       calc_stocks_list rec pw data as s)))"

primrec calc_stocks :: "nat \<Rightarrow> (fp \<Rightarrow> fp \<Rightarrow> fp) \<Rightarrow> nat \<Rightarrow> addr list \<Rightarrow> sim \<Rightarrow> sim run" where
  "calc_stocks 0 pw data l s = Inl OutOfFuel"
| "calc_stocks (Suc n) pw data l s = calc_stocks_list (calc_stocks n pw data) pw data l s"

section \<open>What an equation reads\<close>

text \<open>The variables whose values \<open>svisit\<close> may read.\<close>

fun names :: "node \<Rightarrow> addr set" where
  "names Null = {}"
| "names (Paren n) = names n"
| "names (FloatLit t x) = {}"
| "names (Ident t a) = (case a of None \<Rightarrow> {} | Some b \<Rightarrow> {b})"
| "names (Call left args fn) = (\<Union>n \<in> set args. names n)"
| "names (If c l r) = names c \<union> names l \<union> names r"
| "names (Unary op l) = names l"
| "names (Binary op l r) = names l \<union> names r"

definition slots_of :: "heap \<Rightarrow> addr set \<Rightarrow> nat set" where
  "slots_of h A = {off. \<exists>a \<in> A. slot h a = Inr off}"

text \<open>
  Two states whose current rows, wherever they are in the slab, have the same values at the slots
  of a set.
\<close>

definition same_at :: "nat set \<Rightarrow> sim \<Rightarrow> sim \<Rightarrow> bool" where
  "same_at A s t \<longleftrightarrow> s_heap t = s_heap s \<and> s_spec t = s_spec s \<and>
     (\<forall>i \<in> A. slab_read t (curr t + i) = slab_read s (curr s + i))"

lemma same_at_subset: "same_at A s t \<Longrightarrow> B \<subseteq> A \<Longrightarrow> same_at B s t"
  by (auto simp: same_at_def)

lemma same_at_read: "same_at A s t \<Longrightarrow> i \<in> A \<Longrightarrow> slab_read t (curr t + i) = slab_read s (curr s + i)"
  by (simp add: same_at_def)

text \<open>Only slots of a set, in the row that starts at \<open>base\<close>, have changed.\<close>

definition frame :: "nat \<Rightarrow> nat set \<Rightarrow> sim \<Rightarrow> sim \<Rightarrow> bool" where
  "frame base W s t \<longleftrightarrow> t = s\<lparr> slab := slab t \<rparr> \<and> length (slab t) = length (slab s) \<and>
     (\<forall>i. i \<notin> (+) base ` W \<longrightarrow> slab t ! i = slab s ! i)"

lemma frame_refl [simp]: "frame base W s s"
  by (simp add: frame_def)

lemma frame_fields:
  "frame base W s t \<Longrightarrow> s_heap t = s_heap s \<and> s_module t = s_module s \<and> s_spec t = s_spec s \<and>
     curr t = curr s \<and> nexti t = nexti s \<and> nvars t = nvars s \<and> nsaves t = nsaves s \<and> nsteps t = nsteps s \<and>
     step t = step s \<and> save_step t = save_step s \<and> save_every t = save_every s \<and>
     length (slab t) = length (slab s)"
  unfolding frame_def by (metis sim.select_convs sim.surjective sim.update_convs(4))

lemma frame_trans:
  assumes "frame base W s t" "frame base V t u" shows "frame base (W \<union> V) s u"
proof -
  have "u = s\<lparr> slab := slab u \<rparr>"
    using assms by (metis frame_def sim.surjective sim.update_convs(4))
  with assms show ?thesis by (simp add: frame_def image_Un)
qed

lemma frame_nth: "frame base W s t \<Longrightarrow> i \<notin> W \<Longrightarrow> slab t ! (base + i) = slab s ! (base + i)"
proof -
  assume f: "frame base W s t" and "i \<notin> W"
  then have "base + i \<notin> (+) base ` W" by auto
  with f show ?thesis unfolding frame_def by blast
qed

lemma frame_mono: "frame base W s t \<Longrightarrow> W \<subseteq> V \<Longrightarrow> frame base V s t"
  by (auto simp: frame_def)

lemma frame_same: "frame (curr s) W s t \<Longrightarrow> A \<inter> W = {} \<Longrightarrow> same_at A s t"
  using frame_fields [of "curr s" W s t] frame_nth [of "curr s" W s t]
  by (simp add: same_at_def slab_read_def aread_def) blast

lemma frame_update: "off \<in> W \<Longrightarrow> frame base W s (s\<lparr> slab := (slab s)[base + off := v] \<rparr>)"
  by (auto simp: frame_def) (metis imageI nth_list_update_neq)

lemma slots_of_mono: "A \<subseteq> B \<Longrightarrow> slots_of h A \<subseteq> slots_of h B"
  by (auto simp: slots_of_def)

lemma same_at_names: "same_at (slots_of h A) s t \<Longrightarrow> B \<subseteq> A \<Longrightarrow> same_at (slots_of h B) s t"
  by (rule same_at_subset [OF _ slots_of_mono])

text \<open>An equation has the same value in two states that agree on what it reads.\<close>

lemma svisit_same:
  "same_at (slots_of (s_heap s) (names n)) s t \<Longrightarrow> svisit pw t dt time n = svisit pw s dt time n"
proof (induction n)
  case (Ident u a)
  show ?case
  proof (cases a)
    case (Some b)
    have h: "s_heap t = s_heap s" using Ident by (auto simp: same_at_def)
    show ?thesis
    proof (cases "slot (s_heap s) b")
      case (Inr off)
      then have "off \<in> slots_of (s_heap s) (names (Ident u a))"
        using Some by (auto simp: slots_of_def)
      from same_at_read [OF Ident this] Inr h Some show ?thesis by simp
    qed (use h Some in simp)
  qed simp
next
  case (Call left args fn)
  have "svisit pw t dt time x = svisit pw s dt time x" if "x \<in> set args" for x
    using that by (intro Call.IH(2) same_at_names [OF Call.prems]) auto
  then have "eval_args (svisit pw t dt time) 0 args = eval_args (svisit pw s dt time) 0 args"
    by (intro eval_args_cong) auto
  then show ?case by simp
next
  case (Binary op l r)
  have "svisit pw t dt time l = svisit pw s dt time l" "svisit pw t dt time r = svisit pw s dt time r"
    by (auto intro!: Binary.IH same_at_names [OF Binary.prems])
  then show ?case by simp
next
  case (If c l r)
  have "svisit pw t dt time c = svisit pw s dt time c" "svisit pw t dt time l = svisit pw s dt time l"
    "svisit pw t dt time r = svisit pw s dt time r"
    by (auto intro!: If.IH same_at_names [OF If.prems])
  then show ?case by (simp cong: if_cong)
qed auto

section \<open>A run list computes the solution of its equations\<close>

text \<open>
  \<open>solves pw s a\<close>: in the current row of \<open>s\<close>, variable \<open>a\<close> has the value of its equation (and
  graphical function) at the values of that row.
\<close>

definition equation :: "(fp \<Rightarrow> fp \<Rightarrow> fp) \<Rightarrow> sim \<Rightarrow> addr \<Rightarrow> fp run" where
  "equation pw s a =
     (let av = s_heap s ! a in
      rbind (slab_read s (curr s + 0)) (\<lambda>time.
      rbind (svisit pw s (sp_dt (s_spec s)) time (av_node av)) (\<lambda>v. apply_gf av v)))"

definition solves :: "(fp \<Rightarrow> fp \<Rightarrow> fp) \<Rightarrow> sim \<Rightarrow> addr \<Rightarrow> bool" where
  "solves pw s a \<longleftrightarrow> equation pw s a = slab_read s (curr s + offset (s_heap s ! a))"

text \<open>The slots of the current row an equation reads: those of its names, and the time.\<close>

definition reads :: "heap \<Rightarrow> addr \<Rightarrow> nat set" where
  "reads h a = insert 0 (slots_of h (names (av_node (h ! a))))"

text \<open>
  A variable without an equation (\<open>time\<close>) has empty run lists of its own: \<open>calc\<close> passes over it.
\<close>

definition idle :: "heap \<Rightarrow> addr \<Rightarrow> bool" where
  "idle h a \<longleftrightarrow> av_node (h ! a) = Null \<and> initials (h ! a) = [] \<and> flows (h ! a) = []"

definition writes :: "heap \<Rightarrow> addr list \<Rightarrow> nat set" where
  "writes h l = (\<lambda>a. offset (h ! a)) ` {a \<in> set l. av_node (h ! a) \<noteq> Null}"

text \<open>
  A list that can be computed from left to right: no variable reads a slot that it or a later
  variable of the list writes, and all slots written are different.
\<close>

primrec computable :: "heap \<Rightarrow> addr list \<Rightarrow> bool" where
  "computable h [] = True"
| "computable h (a # l) \<longleftrightarrow> a < length h \<and>
     (idle h a \<or> (av_node (h ! a) \<noteq> Null \<and> offset (h ! a) \<notin> writes h l \<and>
        reads h a \<inter> writes h (a # l) = {})) \<and> computable h l"

lemma writes_Nil [simp]: "writes h [] = {}"
  by (simp add: writes_def)

lemma writes_Cons: "writes h (a # l) =
    (if av_node (h ! a) = Null then writes h l else insert (offset (h ! a)) (writes h l))"
  by (auto simp: writes_def)

lemma equation_same: "same_at (reads (s_heap s) a) s t \<Longrightarrow> equation pw t a = equation pw s a"
proof -
  assume a: "same_at (reads (s_heap s) a) s t"
  have "same_at (slots_of (s_heap s) (names (av_node (s_heap s ! a)))) s t"
    using a by (rule same_at_subset) (auto simp: reads_def)
  note v = svisit_same [OF this]
  have "slab_read t (curr t + 0) = slab_read s (curr s + 0)"
    by (rule same_at_read [OF a]) (simp add: reads_def)
  with a v show ?thesis by (simp add: equation_def same_at_def Let_def)
qed

lemma calc_var_equation:
  assumes "calc_var pw (curr s) (s_heap s ! a) s = Inr t"
  shows "\<exists>v. equation pw s a = Inr v \<and> curr s + offset (s_heap s ! a) < length (slab s) \<and>
    t = s\<lparr> slab := (slab s)[curr s + offset (s_heap s ! a) := v] \<rparr>"
  using assms
  by (auto simp: calc_var_def equation_def Let_def slab_write_def rbind_eq_Inr awrite_Inr)

lemma calc_list_solves:
  assumes "computable (s_heap s) l" "calc_list rec pw (curr s) initial l s = Inr t" "\<And>s. rec [] s = Inr s"
  shows "frame (curr s) (writes (s_heap s) l) s t \<and>
    (\<forall>a \<in> set l. av_node (s_heap s ! a) \<noteq> Null \<longrightarrow> solves pw t a)"
  using assms(1,2)
proof (induction l arbitrary: s)
  case (Cons a l)
  let ?h = "s_heap s"
  have a: "a < length ?h" and l: "computable ?h l" using Cons.prems(1) by auto
  show ?case
  proof (cases "av_node (?h ! a) = Null")
    case True
    then have "initials (?h ! a) = []" "flows (?h ! a) = []" using Cons.prems(1) by (auto simp: idle_def)
    then have "calc_list rec pw (curr s) initial l s = Inr t"
      using Cons.prems(2) True a assms(3) by (cases initial) (simp_all add: hread_eq)
    from Cons.IH [OF l this] True show ?thesis by (simp add: writes_Cons)
  next
    case False
    have r: "reads ?h a \<inter> writes ?h (a # l) = {}" "offset (?h ! a) \<notin> writes ?h l"
      using Cons.prems(1) False by (auto simp: idle_def)
    obtain u where u: "calc_var pw (curr s) (?h ! a) s = Inr u" "calc_list rec pw (curr s) initial l u = Inr t"
      using Cons.prems(2) a False by (auto simp: hread_eq rbind_eq_Inr)
    obtain v where v: "equation pw s a = Inr v" "curr s + offset (?h ! a) < length (slab s)"
      and u_eq: "u = s\<lparr> slab := (slab s)[curr s + offset (?h ! a) := v] \<rparr>"
      using calc_var_equation [OF u(1)] by blast
    have hu: "s_heap u = ?h" "curr u = curr s" using u_eq by simp_all
    have IH: "frame (curr u) (writes ?h l) u t" "\<forall>b \<in> set l. av_node (?h ! b) \<noteq> Null \<longrightarrow> solves pw t b"
      using Cons.IH [of u] l u(2) hu by simp_all
    have "frame (curr s) {offset (?h ! a)} s u" unfolding u_eq by (rule frame_update) simp
    from frame_trans [OF this] IH(1) hu False have st: "frame (curr s) (writes ?h (a # l)) s t"
      by (simp add: writes_Cons)
    have "equation pw t a = Inr v" using equation_same [OF frame_same [OF st r(1)]] v(1) by simp
    moreover have "slab_read t (curr t + offset (?h ! a)) = slab_read u (curr u + offset (?h ! a))"
      using r(2) by (intro same_at_read [OF frame_same [OF IH(1), of "{offset (?h ! a)}"]]) auto
    moreover have "slab_read u (curr u + offset (?h ! a)) = Inr v"
      using v(2) u_eq by (simp add: slab_read_def)
    ultimately have "solves pw t a" using frame_fields [OF st] by (simp add: solves_def)
    with IH(2) st show ?thesis by simp
  qed
qed simp

text \<open>There is only one solution: two rows that agree on what the list does not write agree.\<close>

lemma solution_unique:
  assumes "computable (s_heap s) l" "same_at (A - writes (s_heap s) l) s t"
    "(\<Union>a \<in> set l. reads (s_heap s) a) \<subseteq> A"
    "\<forall>a \<in> set l. av_node (s_heap s ! a) \<noteq> Null \<longrightarrow> solves pw s a \<and> solves pw t a"
  shows "same_at A s t"
  using assms
proof (induction l)
  case (Cons a l)
  let ?h = "s_heap s"
  have "same_at (A - writes ?h l) s t"
  proof (cases "av_node (?h ! a) = Null")
    case True
    with Cons.prems(2) show ?thesis by (simp add: writes_Cons)
  next
    case False
    then have "same_at (reads ?h a) s t"
      using Cons.prems(1,3) by (intro same_at_subset [OF Cons.prems(2)]) (auto simp: idle_def)
    then have "equation pw t a = equation pw s a" by (rule equation_same)
    then have "slab_read t (curr t + offset (?h ! a)) = slab_read s (curr s + offset (?h ! a))"
      using Cons.prems(2,4) False unfolding solves_def same_at_def by (metis list.set_intros(1))
    with Cons.prems(2) False show ?thesis by (auto simp: same_at_def writes_Cons)
  qed
  with Cons show ?case by simp
qed simp

section \<open>Sorted run lists can be computed\<close>

text \<open>
  A flat module whose names are resolved and whose variables have places of their own: what the
  building of a root model without submodules leaves behind.
\<close>

definition wired :: "heap \<Rightarrow> addr \<Rightarrow> bool" where
  "wired h m \<longleftrightarrow> flat h m \<and> inj_on (\<lambda>a. offset (h ! a)) (set (avars (h ! m))) \<and>
     (\<forall>a \<in> set (avars (h ! m)).
        kind h a \<noteq> VAR_REF \<and> av_src (h ! a) = None \<and> names (av_node (h ! a)) \<subseteq> set (direct_deps (h ! a)) \<and>
        (if av_node (h ! a) = Null then idle h a \<and> direct_deps (h ! a) = [] else offset (h ! a) \<noteq> 0))"

lemma wired_flat: "wired h m \<Longrightarrow> flat h m"
  by (simp add: wired_def)

lemma wired_slots:
  assumes "wired h m" "a \<in> set (avars (h ! m))"
  shows "slots_of h (names (av_node (h ! a))) \<subseteq> (\<lambda>b. offset (h ! b)) ` set (deps h a)"
proof
  fix off assume "off \<in> slots_of h (names (av_node (h ! a)))"
  then obtain b where b: "b \<in> names (av_node (h ! a))" "slot h b = Inr off" by (auto simp: slots_of_def)
  have a: "a < length h" "names (av_node (h ! a)) \<subseteq> set (direct_deps (h ! a))"
    using assms by (auto simp: wired_def flat_def)
  then have d: "b \<in> set (deps h a)" using b(1) by (auto simp: deps_def)
  moreover have "set (deps h a) \<subseteq> set (avars (h ! m))"
    using assms a by (auto simp: wired_def flat_def deps_def)
  ultimately have "av_src (h ! b) = None" using assms(1) by (auto simp: wired_def)
  with b(2) have "off = offset (h ! b)" by (auto simp: slot_def hread_eq split: if_splits)
  with d show "off \<in> (\<lambda>b. offset (h ! b)) ` set (deps h a)" by blast
qed

lemma ordered_computable:
  assumes "wired h m"
  shows "ordered (deps h) (ys @ l) \<Longrightarrow> set (ys @ l) \<subseteq> set (avars (h ! m)) \<Longrightarrow> computable h (filter P l)"
proof (induction l arbitrary: ys)
  case (Cons a l)
  let ?U = "set (avars (h ! m))" and ?o = "\<lambda>b. offset (h ! b)"
  have IH: "computable h (filter P l)" using Cons.IH [of "ys @ [a]"] Cons.prems by simp
  have a: "a \<in> ?U" "a < length h" using Cons.prems(2) assms by (auto simp: wired_def flat_def)
  have inj: "inj_on ?o ?U" using assms by (simp add: wired_def)
  have dist: "set ys \<inter> set (a # l) = {}" "a \<notin> set l"
    using ordered_distinct [OF Cons.prems(1)] by auto
  have d: "set (deps h a) \<subseteq> set ys" using ordered_before [OF Cons.prems(1)] .
  have w: "writes h (filter P l) \<subseteq> ?o ` set l" by (auto simp: writes_def)
  show ?case
  proof (cases "av_node (h ! a) = Null")
    case True
    with assms a IH show ?thesis by (auto simp: wired_def)
  next
    case False
    have "?o a \<notin> ?o ` set l"
      using inj_on_image_mem_iff [OF inj a(1), of "set l"] dist(2) Cons.prems(2) by auto
    then have o: "?o a \<notin> writes h (filter P l)" using w by blast
    have "?o ` set ys \<inter> ?o ` set (a # l) = {}"
      using inj_on_image_Int [OF inj, of "set ys" "set (a # l)"] dist(1) Cons.prems(2) by simp
    moreover have "slots_of h (names (av_node (h ! a))) \<subseteq> ?o ` set ys"
      using wired_slots [OF assms a(1)] image_mono [OF d, of ?o] by (rule subset_trans)
    moreover have "writes h (a # filter P l) \<subseteq> ?o ` set (a # l)"
      using w by (auto simp: writes_Cons)
    ultimately have s: "slots_of h (names (av_node (h ! a))) \<inter> writes h (a # filter P l) = {}"
      by blast
    have "0 \<notin> writes h (a # filter P l)"
      using assms Cons.prems(2) by (auto simp: writes_def wired_def)
    with s o IH False a(2) show ?thesis by (auto simp: reads_def)
  qed
qed simp

text \<open>Sorting changes neither the equations nor the places, so the result is still wired.\<close>

lemma enlist_static [simp]:
  "av_node (enlist h md dn) = av_node md" "offset (enlist h md dn) = offset md"
  "av_src (enlist h md dn) = av_src md" "direct_deps (enlist h md dn) = direct_deps md"
  "av_v (enlist h md dn) = av_v md" "av_model (enlist h md dn) = av_model md"
  "avars (enlist h md dn) = avars md" "av_parent (enlist h md dn) = av_parent md"
  "is_const (enlist h md dn) = is_const md" "av_inflows (enlist h md dn) = av_inflows md"
  "av_outflows (enlist h md dn) = av_outflows md"
  by (induction dn rule: rev_induct) (auto simp: runlist_append_def)

lemma sort_static:
  assumes "flat h m" "module_sort_runlists (depth_fuel h) h m = Inr (SD_ERR_NO_ERROR, h')"
  shows "length h' = length h \<and> (\<forall>i < length h.
     av_node (h' ! i) = av_node (h ! i) \<and> offset (h' ! i) = offset (h ! i) \<and> av_src (h' ! i) = av_src (h ! i) \<and>
     direct_deps (h' ! i) = direct_deps (h ! i) \<and> av_v (h' ! i) = av_v (h ! i) \<and>
     av_model (h' ! i) = av_model (h ! i) \<and> avars (h' ! i) = avars (h ! i) \<and>
     av_inflows (h' ! i) = av_inflows (h ! i) \<and> av_outflows (h' ! i) = av_outflows (h ! i) \<and>
     is_const (h' ! i) = is_const (h ! i) \<and>
     (i \<noteq> m \<longrightarrow> initials (h' ! i) = initials (h ! i) \<and> flows (h' ! i) = flows (h ! i)))"
proof -
  let ?h1 = "cleared h (insert m (set (avars (h ! m))))"
  obtain dn where "h' = marked ?h1 m {} dn"
    using module_sort_search [OF assms(1)] assms(2) by (auto simp: agrees_def split: option.splits)
  then show ?thesis by (simp add: nth_marked nth_cleared)
qed

section \<open>Stocks of the next row\<close>

text \<open>The value \<open>calc_stocks\<close> gives a stock or constant, and the slots of the current row it reads.\<close>

definition stock_value :: "(fp \<Rightarrow> fp \<Rightarrow> fp) \<Rightarrow> sim \<Rightarrow> addr \<Rightarrow> fp run" where
  "stock_value pw s a =
     (let av = s_heap s ! a in
      if kind (s_heap s) a = VAR_STOCK then euler_stock s av
      else rbind (slab_read s (curr s + 0)) (\<lambda>time. svisit pw s (sp_dt (s_spec s)) time (av_node av)))"

definition stock_reads :: "heap \<Rightarrow> addr \<Rightarrow> nat set" where
  "stock_reads h a =
     (if kind h a = VAR_STOCK
      then (\<lambda>b. offset (h ! b)) ` ({a} \<union> set (av_inflows (h ! a)) \<union> set (av_outflows (h ! a)))
      else reads h a)"

lemma sum_flows_same:
  "same_at ((\<lambda>b. offset (s_heap s ! b)) ` set l) s t \<Longrightarrow> sum_flows upd t l v = sum_flows upd s l v"
proof (induction l arbitrary: v)
  case (Cons a l)
  have "same_at ((\<lambda>b. offset (s_heap s ! b)) ` set l) s t"
    by (rule same_at_subset [OF Cons.prems]) auto
  from Cons.IH [OF this] Cons.prems show ?case
    by (simp add: hread_eq same_at_def)
qed simp

lemma stock_value_same:
  assumes "same_at (stock_reads (s_heap s) a) s t"
  shows "stock_value pw t a = stock_value pw s a"
proof -
  have h: "s_heap t = s_heap s" "s_spec t = s_spec s" using assms by (auto simp: same_at_def)
  show ?thesis
  proof (cases "kind (s_heap s) a = VAR_STOCK")
    case True
    let ?o = "\<lambda>b. offset (s_heap s ! b)"
    have r: "?o ` ({a} \<union> set (av_inflows (s_heap s ! a)) \<union> set (av_outflows (s_heap s ! a))) = stock_reads (s_heap s) a"
      using True by (simp add: stock_reads_def)
    have "same_at (?o ` set (av_inflows (s_heap s ! a))) s t" "same_at (?o ` set (av_outflows (s_heap s ! a))) s t"
      "same_at {?o a} s t"
      using r by (auto intro!: same_at_subset [OF assms])
    then show ?thesis using True h
      by (simp add: stock_value_def euler_stock_def sum_flows_same same_at_read cong: rbind_cong)
  next
    case False
    have r: "stock_reads (s_heap s) a = reads (s_heap s) a" using False by (simp add: stock_reads_def)
    have "same_at (slots_of (s_heap s) (names (av_node (s_heap s ! a)))) s t" "same_at {0} s t"
      using r by (auto simp: reads_def intro!: same_at_subset [OF assms])
    then show ?thesis using False h
      by (simp add: stock_value_def svisit_same same_at_def)
  qed
qed

lemma frame_far:
  assumes "frame base W s t" "curr s + width \<le> base" shows "same_at {..<width} s t"
  using assms frame_fields [OF assms(1)]
  by (auto simp: same_at_def slab_read_def aread_def frame_def image_iff)

lemma calc_stock_var_value:
  assumes "calc_stock_var pw data (s_heap s ! a) v s = Inr t" "av_v (s_heap s ! a) = Some v"
  shows "\<exists>x. stock_value pw s a = Inr x \<and> data + offset (s_heap s ! a) < length (slab s) \<and>
    t = s\<lparr> slab := (slab s)[data + offset (s_heap s ! a) := x] \<rparr>"
  using assms
  by (auto simp: calc_stock_var_def stock_value_def kind_def Let_def slab_write_def rbind_eq_Inr awrite_Inr
      split: if_splits)

lemma calc_stocks_list_values:
  assumes "calc_stocks_list rec pw data l s = Inr t"
    "\<forall>a \<in> set l. a < length (s_heap s) \<and> av_v (s_heap s ! a) \<noteq> None \<and> kind (s_heap s) a \<noteq> VAR_MODULE \<and>
       stock_reads (s_heap s) a \<subseteq> {..<width}"
    "distinct (map (\<lambda>a. offset (s_heap s ! a)) l)" "curr s + width \<le> data"
  shows "frame data ((\<lambda>a. offset (s_heap s ! a)) ` set l) s t \<and>
    (\<forall>a \<in> set l. stock_value pw s a = slab_read t (data + offset (s_heap s ! a)) \<and>
       (\<exists>x. stock_value pw s a = Inr x))"
  using assms
proof (induction l arbitrary: s)
  case (Cons a l)
  let ?h = "s_heap s" let ?o = "\<lambda>a. offset (s_heap s ! a)"
  obtain v where v: "av_v (?h ! a) = Some v" "vtype v \<noteq> VAR_MODULE" "a < length ?h"
    using Cons.prems(2) by (auto simp: kind_def)
  obtain u where u: "calc_stock_var pw data (?h ! a) v s = Inr u" "calc_stocks_list rec pw data l u = Inr t"
    using Cons.prems(1) v by (auto simp: hread_eq var_of_def rbind_eq_Inr)
  obtain x where x: "stock_value pw s a = Inr x" "data + ?o a < length (slab s)"
    and u_eq: "u = s\<lparr> slab := (slab s)[data + ?o a := x] \<rparr>"
    using calc_stock_var_value [OF u(1) v(1)] by blast
  have su: "frame data {?o a} s u" unfolding u_eq by (rule frame_update) simp
  have hu: "s_heap u = ?h" "curr u = curr s" using frame_fields [OF su] by simp_all
  have IH: "frame data (?o ` set l) u t"
    "\<forall>b \<in> set l. stock_value pw u b = slab_read t (data + ?o b) \<and> (\<exists>x. stock_value pw u b = Inr x)"
  proof -
    have "\<forall>b \<in> set l. b < length ?h \<and> av_v (?h ! b) \<noteq> None \<and> kind ?h b \<noteq> VAR_MODULE \<and> stock_reads ?h b \<subseteq> {..<width}"
      using Cons.prems(2) by simp
    moreover have "distinct (map ?o l)" using Cons.prems(3) by simp
    moreover note Cons.prems(4)
    ultimately show "frame data (?o ` set l) u t"
      "\<forall>b \<in> set l. stock_value pw u b = slab_read t (data + ?o b) \<and> (\<exists>x. stock_value pw u b = Inr x)"
      using Cons.IH [OF u(2), unfolded hu] by blast+
  qed
  have same: "stock_value pw u b = stock_value pw s b" if "b \<in> set l" for b
  proof (rule stock_value_same, rule same_at_subset [OF frame_far [OF su Cons.prems(4)]])
    show "stock_reads ?h b \<subseteq> {..<width}" using Cons.prems(2) that by simp
  qed
  have "slab t ! (data + ?o a) = slab u ! (data + ?o a)"
    using Cons.prems(3) by (intro frame_nth [OF IH(1)]) auto
  moreover have "slab u ! (data + ?o a) = x" using x(2) unfolding u_eq by simp
  moreover have "length (slab t) = length (slab s)"
    using frame_fields [OF IH(1)] frame_fields [OF su] by argo
  ultimately have ta: "slab_read t (data + ?o a) = Inr x"
    using x(2) by (simp add: slab_read_def)
  have "frame data (?o ` set (a # l)) s t" using frame_trans [OF su IH(1)] by simp
  moreover have "stock_value pw s b = slab_read t (data + ?o b) \<and> (\<exists>x. stock_value pw s b = Inr x)"
    if "b \<in> set (a # l)" for b
  proof (cases "b \<in> set l")
    case True
    with IH(2) same [OF True] show ?thesis by metis
  next
    case False
    with that ta x(1) show ?thesis by simp
  qed
  ultimately show ?case by blast
qed simp

end
