(* ===== verification/Sim.thy ===== *)
theory Sim
  imports Evaluate
begin

text \<open>
  The simulation object and its interface (\<^verbatim>\<open>sim.c\<close>): \<open>sd_sim_new\<close>, \<open>sd_sim_reset\<close>, the loop
  \<open>sd_sim_run_to\<close> and the functions that read values, series, names and counts.

  \<open>alloc n\<close> says whether \<open>calloc\<close> delivers \<open>n\<close> doubles for the slab. The object is passed as
  \<open>None\<close> where the code allows a null pointer. Reference counts of a simulation are not
  modelled; nothing reads them but the function that frees the object.
\<close>

section \<open>Creation and reset\<close>

definition d_half :: fp where
  "d_half = Fin False (2 ^ 52) (-53)"

definition reset_counts :: "sim \<Rightarrow> sim run" where
  "reset_counts s =
     (let sp = s_spec s in
      rbind (fp_to_size (d_add (d_div (d_sub (sp_stop sp) (sp_start sp)) (sp_dt sp)) (d_int 1))) (\<lambda>n.
      rbind (fp_to_size (d_add (d_div (sp_savestep sp) (sp_dt sp)) d_half)) (\<lambda>k.
        let every = (if 1 < k then k else 1) in
        Inr (s\<lparr> step := 0, save_step := 0, nsteps := n, save_every := every,
               nsaves := n div every + (if n mod every \<noteq> 0 then 1 else 0) \<rparr>))))"

definition sd_sim_reset :: "(fp \<Rightarrow> fp \<Rightarrow> fp) \<Rightarrow> (nat \<Rightarrow> bool) \<Rightarrow> sim \<Rightarrow> (sd_error \<times> sim) run" where
  "sd_sim_reset pw alloc s =
     rbind (hread (s_heap s) (s_module s)) (\<lambda>md.
     rbind (case av_model md of None \<Rightarrow> Inl NullDeref | Some mo \<Rightarrow> Inr (m_file_specs mo)) (\<lambda>sp.
     rbind (reset_counts (s\<lparr> s_spec := sp \<rparr>)) (\<lambda>s.
       let cells = (if nvars s = 0 then 1 else nvars s) * (nsaves s + 1) in
       if \<not> alloc cells then Inr (SD_ERR_NOMEM, s\<lparr> slab := [] \<rparr>)
       else
         rbind (slab_write (s\<lparr> slab := replicate cells d_zero, curr := 0, nexti := None \<rparr>) (0 + TIME) (sp_start sp)) (\<lambda>s.
         rbind (calc (depth_fuel (s_heap s)) pw (curr s) True (initials md) s) (\<lambda>s.
           Inr (SD_ERR_NO_ERROR, s))))))"

definition sim_zero :: sim where
  "sim_zero = \<lparr> s_heap = [], s_module = 0, s_spec = spec_zero, slab = [], curr = 0, nexti = None,
     nvars = 0, nsaves = 0, nsteps = 0, step = 0, save_step = 0, save_every = 0 \<rparr>"

text \<open>The part of \<open>sd_sim_new\<close> up to the offsets: the heap, the root module and the number of variables.\<close>

definition sim_build :: "project option \<Rightarrow> cstr option \<Rightarrow> (heap \<times> addr \<times> nat) option run" where
  "sim_build p model_name =
     (case p of
        None \<Rightarrow> Inr None
      | Some pr \<Rightarrow>
          (case sd_project_get_model p model_name of
             None \<Rightarrow> Inr None
           | Some model \<Rightarrow>
               rbind (module_new (module_fuel pr) pr [] None model None) (\<lambda>(h, m).
               case m of
                 None \<Rightarrow> Inr None
               | Some m \<Rightarrow>
               rbind (avar_init (module_compile (depth_fuel h)) h m None) (\<lambda>(err, h).
               if err \<noteq> SD_ERR_NO_ERROR then Inr None
               else
               rbind (module_assign_offsets (depth_fuel h) m 0 h) (\<lambda>(off, h).
               rbind (module_sort_runlists (depth_fuel h) h m) (\<lambda>(err, h).
                 if err \<noteq> SD_ERR_NO_ERROR then Inr None else Inr (Some (h, m, off))))))))"

definition sd_sim_new ::
  "(fp \<Rightarrow> fp \<Rightarrow> fp) \<Rightarrow> (nat \<Rightarrow> bool) \<Rightarrow> project option \<Rightarrow> cstr option \<Rightarrow> sim option run" where
  "sd_sim_new pw alloc p model_name =
     rbind (sim_build p model_name) (\<lambda>r.
     case r of
       None \<Rightarrow> Inr None
     | Some (h, m, off) \<Rightarrow>
         rbind (sd_sim_reset pw alloc (sim_zero\<lparr> s_heap := h, s_module := m, nvars := off \<rparr>)) (\<lambda>(err, s).
           Inr (if err \<noteq> SD_ERR_NO_ERROR then None else Some s)))"

section \<open>Running\<close>

definition sim_curr :: "sim \<Rightarrow> nat" where
  "sim_curr s = save_step s * nvars s"

definition sim_next :: "sim \<Rightarrow> nat" where
  "sim_next s = (save_step s + 1) * nvars s"

text \<open>\<open>memcpy(s->curr, s->next, s->nvars*sizeof(double))\<close>.\<close>

definition copy_row :: "sim \<Rightarrow> nat \<Rightarrow> nat \<Rightarrow> sim run" where
  "copy_row s to from =
     (if to + nvars s \<le> length (slab s) \<and> from + nvars s \<le> length (slab s)
      then Inr (s\<lparr> slab := take to (slab s) @ take (nvars s) (drop from (slab s)) @ drop (to + nvars s) (slab s) \<rparr>)
      else Inl OutOfBounds)"

definition next_time :: "sim \<Rightarrow> fp" where
  "next_time s = d_add (sp_start (s_spec s)) (d_mul (d_int (int (step s + 1))) (sp_dt (s_spec s)))"

text \<open>One pass of the loop after its condition: whether to go on, and the new state.\<close>

definition run_step :: "(fp \<Rightarrow> fp \<Rightarrow> fp) \<Rightarrow> sim \<Rightarrow> (bool \<times> sim) run" where
  "run_step pw s =
     rbind (hread (s_heap s) (s_module s)) (\<lambda>md.
     rbind (case nexti s of None \<Rightarrow> Inl NullDeref | Some n \<Rightarrow> Inr n) (\<lambda>nx.
     rbind (calc (depth_fuel (s_heap s)) pw (curr s) False (flows md) s) (\<lambda>s.
     rbind (calc_stocks (depth_fuel (s_heap s)) pw nx (stocks md) s) (\<lambda>s.
       if step s + 1 = nsteps s then Inr (False, s)
       else
         rbind (slab_write s (nx + TIME) (next_time s)) (\<lambda>s.
         if step s mod save_every s \<noteq> 0 then
           rbind (copy_row (s\<lparr> step := step s + 1 \<rparr>) (curr s) nx) (\<lambda>s. Inr (True, s))
         else
           (let s = s\<lparr> step := step s + 1, save_step := save_step s + 1 \<rparr>
            in Inr (True, s\<lparr> curr := sim_curr s, nexti := Some (sim_next s) \<rparr>)))))))"

text \<open>Every pass but the last makes a step, so the loop passes at most \<open>nsteps - step\<close> times.\<close>

primrec run_loop :: "nat \<Rightarrow> (fp \<Rightarrow> fp \<Rightarrow> fp) \<Rightarrow> fp \<Rightarrow> sim \<Rightarrow> sim run" where
  "run_loop 0 pw end_time s = Inl OutOfFuel"
| "run_loop (Suc n) pw end_time s =
     (if step s < nsteps s then
        rbind (slab_read s (curr s + TIME)) (\<lambda>now.
          if fp_le now end_time then
            rbind (run_step pw s) (\<lambda>(continue, s).
              if continue then run_loop n pw end_time s else Inr s)
          else Inr s)
      else Inr s)"

definition sd_sim_run_to :: "(fp \<Rightarrow> fp \<Rightarrow> fp) \<Rightarrow> sim option \<Rightarrow> fp \<Rightarrow> (int \<times> sim option) run" where
  "sd_sim_run_to pw s end_time =
     (case s of
        None \<Rightarrow> Inr (- 1, None)
      | Some s \<Rightarrow>
          rbind (run_loop (Suc (nsteps s - step s)) pw end_time (s\<lparr> curr := sim_curr s, nexti := Some (sim_next s) \<rparr>))
            (\<lambda>s. Inr (0, Some s)))"

definition sd_sim_run_to_end :: "(fp \<Rightarrow> fp \<Rightarrow> fp) \<Rightarrow> sim option \<Rightarrow> (int \<times> sim option) run" where
  "sd_sim_run_to_end pw s =
     (case s of
        None \<Rightarrow> Inr (- 1, None)
      | Some x \<Rightarrow> sd_sim_run_to pw (Some x) (d_add (sp_stop (s_spec x)) (d_int 1)))"

section \<open>Reading results\<close>

text \<open>The error code, and the value stored through \<open>result\<close> when it is 0.\<close>

definition sd_sim_get_value :: "sim option \<Rightarrow> cstr option \<Rightarrow> (sd_error \<times> fp option) run" where
  "sd_sim_get_value s name =
     (case (s, name) of
        (Some s, Some n) \<Rightarrow>
          if n = ''time'' then rbind (slab_read s (curr s + TIME)) (\<lambda>x. Inr (SD_ERR_NO_ERROR, Some x))
          else
            rbind (resolve (s_heap s) (Some (s_module s)) name) (\<lambda>a.
            case a of
              None \<Rightarrow> Inr (SD_ERR_UNSPECIFIED, None)
            | Some a \<Rightarrow>
                rbind (hread (s_heap s) a) (\<lambda>av.
                rbind (slab_read s (curr s + offset av)) (\<lambda>x. Inr (SD_ERR_NO_ERROR, Some x))))
      | _ \<Rightarrow> Inr (SD_ERR_UNSPECIFIED, None))"

text \<open>
  \<open>sd_sim_get_series\<close> with room for \<open>len\<close> values: the number of values stored, or -1, and the
  values.
\<close>

primrec series :: "sim \<Rightarrow> nat \<Rightarrow> nat \<Rightarrow> nat \<Rightarrow> fp list run" where
  "series s off i 0 = Inr []"
| "series s off i (Suc n) =
     rbind (slab_read s (i * nvars s + off)) (\<lambda>x. rbind (series s off (i + 1) n) (\<lambda>xs. Inr (x # xs)))"

definition sd_sim_get_series :: "sim option \<Rightarrow> cstr option \<Rightarrow> nat \<Rightarrow> (int \<times> fp list) run" where
  "sd_sim_get_series s name n =
     (case (s, name) of
        (Some s, Some nm) \<Rightarrow>
          rbind (if nm = ''time'' then Inr (Some 0)
                 else rbind (resolve (s_heap s) (Some (s_module s)) name) (\<lambda>a.
                   case a of None \<Rightarrow> Inr None | Some a \<Rightarrow> rbind (hread (s_heap s) a) (\<lambda>av. Inr (Some (offset av)))))
            (\<lambda>off. case off of
               None \<Rightarrow> Inr (- 1, [])
             | Some off \<Rightarrow> rbind (series s off 0 (min (nsaves s + 1) n)) (\<lambda>xs. Inr (int (length xs), xs)))
      | _ \<Rightarrow> Inr (- 1, []))"

definition sd_sim_get_stepcount :: "sim option \<Rightarrow> int" where
  "sd_sim_get_stepcount s = (case s of None \<Rightarrow> - 1 | Some s \<Rightarrow> int (nsaves s))"

definition sd_sim_get_varcount :: "sim option \<Rightarrow> int" where
  "sd_sim_get_varcount s = (case s of None \<Rightarrow> - 1 | Some s \<Rightarrow> int (nvars s))"

text \<open>
  \<open>avar_qual_name\<close>: the name, computed and kept on first use (the parent's too). A name that is
  null reads through a null pointer in a nested module, and is returned in the root module.
\<close>

primrec avar_qual_name :: "nat \<Rightarrow> heap \<Rightarrow> addr \<Rightarrow> (cstr option \<times> heap) run" where
  "avar_qual_name 0 h a = Inl OutOfFuel"
| "avar_qual_name (Suc n) h a =
     rbind (hread h a) (\<lambda>av.
     case qual_name av of
       Some q \<Rightarrow> Inr (Some q, h)
     | None \<Rightarrow>
     (case av_parent av of
        None \<Rightarrow> Inr (Some ''<main>'', h)
      | Some pa \<Rightarrow>
          rbind (hread h pa) (\<lambda>parent.
          if av_parent parent = None then rbind (var_of av) (\<lambda>v. Inr (vname v, h))
          else
            rbind (avar_qual_name n h pa) (\<lambda>(pn, h).
            rbind (var_of av) (\<lambda>v.
            case (pn, vname v) of
              (Some p, Some s) \<Rightarrow>
                (let q = p @ CHR ''.'' # s
                 in rbind (hupd h a (\<lambda>x. x\<lparr> qual_name := Some q \<rparr>)) (\<lambda>h. Inr (Some q, h)))
            | (None, _) \<Rightarrow> Inr (None, h)
            | (_, None) \<Rightarrow> Inl NullDeref)))))"

text \<open>The names in the order of the offsets, at most \<open>max\<close>.\<close>

primrec varnames_members ::
  "(heap \<Rightarrow> addr \<Rightarrow> nat \<Rightarrow> (cstr option list \<times> heap) run) \<Rightarrow> addr list \<Rightarrow> heap \<Rightarrow> nat \<Rightarrow> (cstr option list \<times> heap) run" where
  "varnames_members rec [] h mx = Inr ([], h)"
| "varnames_members rec (a # as) h mx =
     (if mx = 0 then Inr ([], h)
      else
        rbind (hread h a) (\<lambda>av.
        rbind (if av_model av \<noteq> None then rec h a mx
               else if av_src av = None then
                 rbind (avar_qual_name (depth_fuel h) h a) (\<lambda>(q, h). Inr ([q], h))
               else Inr ([], h)) (\<lambda>(xs, h).
        rbind (varnames_members rec as h (mx - length xs)) (\<lambda>(ys, h). Inr (xs @ ys, h)))))"

primrec module_get_varnames :: "nat \<Rightarrow> heap \<Rightarrow> addr \<Rightarrow> nat \<Rightarrow> (cstr option list \<times> heap) run" where
  "module_get_varnames 0 h m mx = Inl OutOfFuel"
| "module_get_varnames (Suc n) h m mx =
     rbind (hread h m) (\<lambda>md. varnames_members (module_get_varnames n) (avars md) h mx)"

definition sd_sim_get_varnames :: "sim option \<Rightarrow> nat \<Rightarrow> (int \<times> cstr option list \<times> sim option) run" where
  "sd_sim_get_varnames s mx =
     (case s of
        None \<Rightarrow> Inr (- 1, [], None)
      | Some s \<Rightarrow>
          if mx = 0 then Inr (0, [], Some s)
          else
            rbind (module_get_varnames (depth_fuel (s_heap s)) (s_heap s) (s_module s) mx) (\<lambda>(ns, h).
              Inr (int (length ns), ns, Some (s\<lparr> s_heap := h \<rparr>))))"

end
