(* ===== verification/Build.thy ===== *)
theory Build
  imports Sim
begin

text \<open>
  What \<open>sd_sim_new\<close> builds from a model without submodules: a root module whose variables have
  addresses 1, 2, ... in the order of the model after \<open>time\<close>, all names resolved inside the
  module, every variable in a place of its own: the module is \<open>wired\<close>, so the theorems on run
  lists and their computation apply to it.
\<close>

section \<open>Parsed equations hold no addresses\<close>

definition no_addr :: "(node option \<times> 'a) run \<Rightarrow> bool" where
  "no_addr r \<longleftrightarrow> (case r of Inr (Some n, _) \<Rightarrow> names n = {} | _ \<Rightarrow> True)"

lemma no_addr_simps [simp]:
  "no_addr (Inl e)" "no_addr (Inr (None, x))" "no_addr (Inr (Some n, x)) \<longleftrightarrow> names n = {}"
  by (simp_all add: no_addr_def)

lemma no_addr_bind: "(\<And>x. r = Inr x \<Longrightarrow> no_addr (f x)) \<Longrightarrow> no_addr (rbind r f)"
  by (cases r) auto

lemma no_addrD: "r = Inr (Some n, x) \<Longrightarrow> no_addr r \<Longrightarrow> names n = {}"
  by simp

definition task_clean :: "task \<Rightarrow> bool" where
  "task_clean t \<longleftrightarrow> (case t of T_loop level n \<Rightarrow> names n = {} | T_args fn args \<Rightarrow> \<forall>n \<in> set args. names n = {} | _ \<Rightarrow> True)"

lemma task_clean_simps [simp]:
  "task_clean (T_expr l)" "task_clean (T_loop l n) \<longleftrightarrow> names n = {}" "task_clean T_fact" "task_clean T_if"
  "task_clean (T_call n)" "task_clean (T_args fn args) \<longleftrightarrow> (\<forall>n \<in> set args. names n = {})"
  by (simp_all add: task_clean_def)

lemma leaf_no_addr: "no_addr (num p)" "no_addr (ident p)"
  by (auto simp: num_def ident_def intro!: no_addr_bind split: option.splits)

lemma descend_no_addr: "task_clean t \<Longrightarrow> no_addr (descend f t p)"
proof (induction f arbitrary: t p)
  case (Suc f)
  have rec: "names n = {}" if "descend f t p = Inr (Some n, q)" "task_clean t" for t p n q
    using no_addrD [OF that(1) Suc.IH [OF that(2)]] .
  note leaf = no_addrD [OF _ leaf_no_addr(1)] no_addrD [OF _ leaf_no_addr(2)]
  show ?case
  proof (cases t)
    case (T_expr level)
    then show ?thesis
      by (auto simp: expr_def intro!: no_addr_bind Suc.IH dest!: rec split: option.splits if_splits)
  next
    case (T_loop level lhs)
    with Suc.prems show ?thesis
      by (auto simp: binary_loop_def intro!: no_addr_bind Suc.IH dest!: rec split: option.splits if_splits)
  next
    case T_fact
    then show ?thesis
      by (auto simp: fact_def intro!: no_addr_bind Suc.IH dest!: rec leaf split: option.splits if_splits)
  next
    case T_if
    then show ?thesis
      by (auto simp: fact_if_def intro!: no_addr_bind Suc.IH dest!: rec split: option.splits if_splits)
  next
    case (T_call fn)
    then show ?thesis
      by (auto simp: call_def intro!: no_addr_bind Suc.IH dest!: rec split: option.splits if_splits)
  next
    case (T_args fn args)
    with Suc.prems show ?thesis
      by (auto simp: call_args_def intro!: no_addr_bind Suc.IH dest!: rec split: option.splits if_splits)
  qed
qed simp

lemma avar_eqn_parse_no_addr:
  assumes "avar_eqn_parse e = Inr (err, n)" shows "names n = {}"
proof (cases e)
  case (Some src)
  then obtain l r q where d: "descend (parse_fuel src) (T_expr 0) \<lparr> p_lex = l, p_errs = [] \<rparr> = Inr (r, q)"
    and "(case r of None \<Rightarrow> Inr (SD_ERR_UNSPECIFIED, Null) | Some n \<Rightarrow> Inr (SD_ERR_NO_ERROR, n)) = (Inr (err, n) :: (sd_error \<times> node) run)"
    using assms by (auto simp: avar_eqn_parse_def rbind_eq_Inr)
  then show ?thesis
    using no_addrD [OF _ descend_no_addr [of "T_expr 0"]] by (cases r) auto
qed (use assms in \<open>simp add: avar_eqn_parse_def\<close>)

section \<open>The invariant of the building of a root module\<close>

definition plain :: "var \<Rightarrow> bool" where
  "plain v \<longleftrightarrow> vtype v \<noteq> VAR_MODULE \<and> vtype v \<noteq> VAR_REF"

text \<open>
  \<open>members h\<close> are the addresses of the variables of the root module, which is at address 0. The
  variables are plain, their names are resolved among the dependencies, and nothing is on a run
  list yet.
\<close>

definition members :: "heap \<Rightarrow> addr set" where
  "members h = {1..<length h}"

definition good_var :: "addr set \<Rightarrow> avar \<Rightarrow> bool" where
  "good_var U x \<longleftrightarrow> (case av_v x of None \<Rightarrow> False | Some v \<Rightarrow> plain v) \<and> av_model x = None \<and> av_src x = None \<and>
     initials x = [] \<and> flows x = [] \<and> names (av_node x) \<subseteq> set (direct_deps x) \<and>
     set (direct_deps x) \<subseteq> U \<and> set (av_inflows x) \<subseteq> U \<and> set (av_outflows x) \<subseteq> U \<and>
     (av_node x = Null \<longrightarrow> direct_deps x = [])"

definition good_root :: "heap \<Rightarrow> addr list \<Rightarrow> bool" where
  "good_root h l \<longleftrightarrow> 2 \<le> length h \<and> avars (h ! 0) = l \<and> av_parent (h ! 0) = None \<and> av_model (h ! 0) \<noteq> None \<and>
     initials (h ! 0) = [] \<and> flows (h ! 0) = [] \<and> stocks (h ! 0) = [] \<and>
     av_v (h ! 1) = Some time_var \<and> av_node (h ! 1) = Null \<and> \<not> is_const (h ! 1)"

definition good_heap :: "heap \<Rightarrow> bool" where
  "good_heap h \<longleftrightarrow> good_root h [1..<length h] \<and> (\<forall>i \<in> members h. good_var (members h) (h ! i))"

lemma good_var_mono: "good_var U x \<Longrightarrow> U \<subseteq> V \<Longrightarrow> good_var V x"
  by (auto simp: good_var_def)

lemma good_heap_push:
  assumes "good_heap h" "good_var {} x"
  shows "good_heap ((h @ [x])[0 := (h ! 0)\<lparr> avars := avars (h ! 0) @ [length h] \<rparr>])"
proof -
  have n: "2 \<le> length h" using assms(1) by (simp add: good_heap_def good_root_def)
  have "good_var (members (h @ [x])) ((h @ [x]) ! i)" if "i \<in> members (h @ [x])" for i
  proof (cases "i < length h")
    case True
    then have "good_var (members h) (h ! i)" using that assms(1) by (simp add: good_heap_def members_def)
    with True show ?thesis by (auto simp: nth_append members_def elim: good_var_mono)
  next
    case False
    with that have "i = length h" by (simp add: members_def)
    then show ?thesis using assms(2) by (auto elim: good_var_mono)
  qed
  moreover have "members ((h @ [x])[0 := y]) = members (h @ [x])" for y by (simp add: members_def)
  ultimately have v: "\<forall>i \<in> members (h @ [x]). good_var (members (h @ [x])) ((h @ [x])[0 := y] ! i)" for y
    by (auto simp: members_def)
  have "good_root ((h @ [x])[0 := (h ! 0)\<lparr> avars := avars (h ! 0) @ [length h] \<rparr>]) ([1..<length h] @ [length h])"
    using assms(1) n by (auto simp: good_heap_def good_root_def nth_append nth_list_update)
  moreover have "[1..<length h] @ [length h] = [1..<length (h @ [x])]" using n by simp
  ultimately show ?thesis using v by (simp add: good_heap_def members_def)
qed

lemma avar_new_good:
  assumes "avar_new build p h m v = Inr (h', Some a)" "plain v"
  shows "\<exists>x. h' = h @ [x] \<and> a = length h \<and> good_var {} x"
proof -
  let ?r = "if veqn v = None then Inr (SD_ERR_NO_ERROR, Null) else avar_eqn_parse (veqn v)"
  obtain n where r: "?r = Inr (SD_ERR_NO_ERROR, n)" and h': "a = length h"
    "h' = h @ [avar_zero\<lparr> av_v := Some v, av_parent := Some m, av_node := n,
       is_const := (case n of FloatLit _ _ \<Rightarrow> True | _ \<Rightarrow> False) \<rparr>]"
    using assms by (cases ?r) (auto simp: avar_new_def plain_def simp del: split_paired_Ex split: if_split_asm)
  have "names n = {}" using r avar_eqn_parse_no_addr by (auto split: if_split_asm)
  with h' assms(2) show ?thesis by (auto simp: good_var_def avar_zero_def)
qed

lemma members_new_good:
  "members_new build p [] 0 vs h = Inr (h', True) \<Longrightarrow> \<forall>v \<in> set vs. plain v \<Longrightarrow> good_heap h \<Longrightarrow> good_heap h'"
proof (induction vs arbitrary: h)
  case (Cons v vs)
  obtain h1 a where a: "avar_new build p h 0 v = Inr (h1, Some a)"
    and r: "rbind (hupd h1 0 (\<lambda>x. x\<lparr> avars := avars x @ [a] \<rparr>)) (members_new build p [] 0 vs) = Inr (h', True)"
    using Cons.prems(1) by (auto simp: member_new_def rbind_eq_Inr split: option.splits)
  obtain x where x: "h1 = h @ [x]" "a = length h" "good_var {} x"
    using avar_new_good [OF a] Cons.prems(2) by auto
  have "h \<noteq> []" using Cons.prems(3) by (auto simp: good_heap_def good_root_def)
  then have "hupd h1 0 (\<lambda>x. x\<lparr> avars := avars x @ [a] \<rparr>) =
      Inr ((h @ [x])[0 := (h ! 0)\<lparr> avars := avars (h ! 0) @ [length h] \<rparr>])"
    using x by (simp add: hupd_eq nth_append del: list_update_append)
  with r Cons.IH [OF _ _ good_heap_push [OF Cons.prems(3) x(3)]] Cons.prems(2) show ?case by simp
qed simp

lemma module_new_good:
  assumes "module_new n p [] None mo None = Inr (h, Some m)" "\<forall>v \<in> set (m_vars mo). plain v"
  shows "m = 0 \<and> good_heap h"
proof -
  obtain k where n: "n = Suc k" using assms(1) by (cases n) auto
  let ?h = "[avar_zero\<lparr> av_v := None, av_model := Some mo, av_parent := None, avars := [1] \<rparr>,
     avar_zero\<lparr> av_v := Some time_var, av_parent := Some 0 \<rparr>]"
  have "good_heap ?h"
    by (auto simp: good_heap_def good_root_def good_var_def members_def avar_zero_def time_var_def plain_def
        nth_Cons upt_rec split: nat.splits)
  moreover have "members_new (module_new k p) p [] 0 (m_vars mo) ?h = Inr (h, True)" "m = 0"
    using assms(1) n by (auto simp: module_body_def rbind_eq_Inr split: if_splits)
  ultimately show ?thesis using members_new_good assms(2) by blast
qed

section \<open>Resolving the names keeps the invariant\<close>

text \<open>In a module without submodules a name resolves to one of its own variables.\<close>

lemma resolve_scan_flat:
  "resolve_scan h pre nm l = Inr (Some (a, sub)) \<Longrightarrow>
   \<forall>b \<in> set l. b < length h \<and> av_v (h ! b) \<noteq> None \<and> kind h b \<noteq> VAR_MODULE \<Longrightarrow> a \<in> set l \<and> \<not> sub"
proof (induction l)
  case (Cons b l)
  then obtain v where v: "av_v (h ! b) = Some v" "vtype v \<noteq> VAR_MODULE" "b < length h"
    by (auto simp: kind_def)
  then show ?case using Cons
    by (auto simp: hread_eq var_of_def rbind_eq_Inr split: option.splits if_splits)
qed simp

lemma resolve_flat:
  assumes "resolve h (Some m) nm = Inr (Some a)"
    "\<forall>b \<in> set (avars (h ! m)). b < length h \<and> av_v (h ! b) \<noteq> None \<and> kind h b \<noteq> VAR_MODULE"
  shows "a \<in> set (avars (h ! m))"
proof -
  obtain n where n: "nm = Some n" "resolve_in h m n = Inr (Some a)"
    using assms(1) by (auto simp: resolve_def split: option.splits)
  have m: "m < length h"
    using n(2) by (auto simp: resolve_in.simps [of h m n] hread_eq split: option.splits if_split_asm)
  show ?thesis
  proof (cases "split_dot (skip_dot n)")
    case None
    then obtain b where "resolve_scan h None (skip_dot n) (avars (h ! m)) = Inr (Some (a, b))"
      using n(2) m by (auto simp: resolve_in.simps [of h m n] hread_eq rbind_eq_Inr)
    with resolve_scan_flat [OF _ assms(2)] show ?thesis by blast
  next
    case (Some ps)
    obtain pre sub where ps: "ps = (pre, sub)" by fastforce
    obtain hit where hit: "resolve_scan h (Some pre) (skip_dot n) (avars (h ! m)) = Inr hit"
      and "(case hit of None \<Rightarrow> Inr None
             | Some (b, c) \<Rightarrow> if c then resolve_in h b sub else Inr (Some b)) = (Inr (Some a) :: addr option run)"
      using n(2) m Some ps by (auto simp: resolve_in.simps [of h m n] hread_eq rbind_eq_Inr)
    then obtain b c where r: "resolve_scan h (Some pre) (skip_dot n) (avars (h ! m)) = Inr (Some (b, c))"
      and c: "if c then resolve_in h b sub = Inr (Some a) else b = a"
      by (auto split: option.splits if_split_asm)
    from resolve_scan_flat [OF r assms(2)] c show ?thesis by simp
  qed
qed

lemma visit_names:
  assumes "\<And>s a. res s = Inr (Some a) \<Longrightarrow> a \<in> U"
  shows "visit res n = Inr (n', ds) \<Longrightarrow> names n' \<subseteq> names n \<union> set ds \<and> set ds \<subseteq> U \<and> n' \<noteq> Null"
proof (induction n arbitrary: n' ds)
  case (Ident s a)
  then show ?case using assms by (auto simp: rbind_eq_Inr split: option.splits)
next
  case (Call left args fn)
  obtain ys f where ys: "map_run (visit res) args = Inr ys" and
    n': "n' = Call left (map fst ys) f" "ds = concat (map snd ys)"
    using Call.prems by (auto simp: rbind_eq_Inr)
  have "(\<forall>y \<in> set ys. names (fst y) \<subseteq> (\<Union>n \<in> set args. names n) \<union> set (snd y) \<and> set (snd y) \<subseteq> U)"
    using ys Call.IH(2)
  proof (induction args arbitrary: ys)
    case (Cons x xs)
    then obtain y zs where y: "visit res x = Inr y" and zs: "map_run (visit res) xs = Inr zs" "ys = y # zs"
      by (auto simp: rbind_eq_Inr)
    have "names (fst y) \<subseteq> names x \<union> set (snd y) \<and> set (snd y) \<subseteq> U"
      using Cons.prems(2) [of x "fst y" "snd y"] y by simp
    moreover have "\<forall>y \<in> set zs. names (fst y) \<subseteq> (\<Union>n \<in> set xs. names n) \<union> set (snd y) \<and> set (snd y) \<subseteq> U"
      by (rule Cons.IH [OF zs(1)], rule Cons.prems(2)) simp_all
    ultimately show ?case using zs(2) by auto
  qed simp
  with n' show ?case by fastforce
next
  case (Paren n)
  then show ?case by (auto simp: rbind_eq_Inr dest: Paren.IH)
next
  case (Unary op n)
  then show ?case by (auto simp: rbind_eq_Inr dest: Unary.IH)
next
  case (Binary op l r)
  obtain l' r' d e where "visit res l = Inr (l', d)" "visit res r = Inr (r', e)"
    "n' = Binary op l' r'" "ds = d @ e"
    using Binary.prems by (auto simp: rbind_eq_Inr)
  with Binary.IH(1) [of l' d] Binary.IH(2) [of r' e] show ?case by auto
next
  case (If c l r)
  obtain c' l' r' b d e where "visit res c = Inr (c', b)" "visit res l = Inr (l', d)" "visit res r = Inr (r', e)"
    "n' = If c' l' r'" "ds = b @ d @ e"
    using If.prems by (auto simp: rbind_eq_Inr)
  with If.IH(1) [of c' b] If.IH(2) [of l' d] If.IH(3) [of r' e] show ?case by auto
qed auto

lemma resolve_list_set:
  assumes "\<And>s a. resolve h m (Some s) = Inr (Some a) \<Longrightarrow> a \<in> U"
  shows "resolve_list h m ns acc = Inr (Some r) \<Longrightarrow> set acc \<subseteq> U \<Longrightarrow> set r \<subseteq> U"
proof (induction ns arbitrary: acc)
  case (Cons n ns)
  obtain y where y: "resolve h m (Some n) = Inr (Some y)" "resolve_list h m ns (acc @ [y]) = Inr (Some r)"
    using Cons.prems(1) by (auto simp: rbind_eq_Inr split: option.splits)
  from Cons.IH [OF y(2)] assms [OF y(1)] Cons.prems(2) show ?case by simp
qed simp

lemma good_member:
  "good_heap h \<Longrightarrow> set (avars (h ! 0)) = members h"
  "good_heap h \<Longrightarrow> b \<in> members h \<Longrightarrow> b < length h \<and> av_v (h ! b) \<noteq> None \<and> kind h b \<noteq> VAR_MODULE"
  by (auto simp: good_heap_def good_root_def members_def good_var_def plain_def kind_def split: option.splits)

lemma good_heap_resolve: "good_heap h \<Longrightarrow> resolve h (Some 0) (Some s) = Inr (Some a) \<Longrightarrow> a \<in> members h"
  using resolve_flat [of h 0 "Some s" a] good_member [of h] by auto

lemma good_heap_update:
  assumes "good_heap h" "a \<in> members h" "good_var (members h) x"
    "a = 1 \<Longrightarrow> av_v x = Some time_var \<and> av_node x = Null \<and> \<not> is_const x"
  shows "good_heap (h[a := x])"
  using assms by (auto simp: good_heap_def good_root_def members_def nth_list_update)

lemma avar_init_var_good:
  assumes "good_heap h" "a \<in> members h" "avar_init_var h a (Some 0) = Inr (SD_ERR_NO_ERROR, h')"
  shows "good_heap h' \<and> length h' = length h"
proof -
  have g: "good_var (members h) (h ! a)" using assms(1,2) by (simp add: good_heap_def)
  then obtain v where v: "av_v (h ! a) = Some v" "plain v" by (auto simp: good_var_def split: option.splits)
  have a: "a < length h" using assms(2) by (simp add: members_def)
  have t: "veqn v = None \<and> vname v = Some ''time''" if "a = 1"
    using that v assms(1) by (auto simp: good_heap_def good_root_def time_var_def)
  have run: "avar_init_var h a (Some 0) =
      (if veqn v = None \<and> vname v = Some ''time'' then Inr (SD_ERR_NO_ERROR, h)
       else rbind (node_walk (\<lambda>s. resolve h (Some 0) (Some s)) (av_node (h ! a))) (\<lambda>w.
         case w of None \<Rightarrow> Inr (SD_ERR_UNSPECIFIED, h) | Some (n, ds) \<Rightarrow>
         rbind (resolve_list h (Some 0) (vinflows v) []) (\<lambda>ins.
         case ins of None \<Rightarrow> Inr (SD_ERR_UNSPECIFIED, h) | Some ins \<Rightarrow>
         rbind (resolve_list h (Some 0) (voutflows v) []) (\<lambda>outs.
         case outs of None \<Rightarrow> Inr (SD_ERR_UNSPECIFIED, h) | Some outs \<Rightarrow>
           Inr (SD_ERR_NO_ERROR, h[a := (h ! a)\<lparr> av_node := n, direct_deps := direct_deps (h ! a) @ ds,
             av_inflows := av_inflows (h ! a) @ ins, av_outflows := av_outflows (h ! a) @ outs \<rparr>])))))"
    using v a by (simp add: avar_init_var_def hread_eq hupd_eq var_of_def plain_def cong: option.case_cong)
  consider (time) "h' = h" | (walk) n ds ins outs where
    "node_walk (\<lambda>s. resolve h (Some 0) (Some s)) (av_node (h ! a)) = Inr (Some (n, ds))"
    "resolve_list h (Some 0) (vinflows v) [] = Inr (Some ins)" "resolve_list h (Some 0) (voutflows v) [] = Inr (Some outs)"
    "h' = h[a := (h ! a)\<lparr> av_node := n, direct_deps := direct_deps (h ! a) @ ds,
             av_inflows := av_inflows (h ! a) @ ins, av_outflows := av_outflows (h ! a) @ outs \<rparr>]" "a \<noteq> 1"
  proof (cases "veqn v = None \<and> vname v = Some ''time''")
    case True
    with assms(3) run have "h' = h" by simp
    then show thesis by (rule time)
  next
    case False
    with assms(3) run obtain n ds ins outs where
      "node_walk (\<lambda>s. resolve h (Some 0) (Some s)) (av_node (h ! a)) = Inr (Some (n, ds))"
      "resolve_list h (Some 0) (vinflows v) [] = Inr (Some ins)" "resolve_list h (Some 0) (voutflows v) [] = Inr (Some outs)"
      "h' = h[a := (h ! a)\<lparr> av_node := n, direct_deps := direct_deps (h ! a) @ ds,
             av_inflows := av_inflows (h ! a) @ ins, av_outflows := av_outflows (h ! a) @ outs \<rparr>]"
      by (auto simp: rbind_eq_Inr split: option.splits)
    moreover have "a \<noteq> 1" using False t by blast
    ultimately show thesis by (rule walk)
  qed
  then show ?thesis
  proof cases
    case time
    with assms(1) show ?thesis by simp
  next
    case walk
    note r = good_heap_resolve [OF assms(1)]
    have vis: "visit (\<lambda>s. resolve h (Some 0) (Some s)) (av_node (h ! a)) = Inr (n, ds)"
      using walk(1) by (auto simp: node_walk_def rbind_eq_Inr split: if_split_asm)
    have n: "names n \<subseteq> names (av_node (h ! a)) \<union> set ds" "set ds \<subseteq> members h" "n \<noteq> Null"
      using visit_names [where U = "members h", OF _ vis] r by blast+
    have "set ins \<subseteq> members h" "set outs \<subseteq> members h"
      using resolve_list_set [where U = "members h", OF _ walk(2)] resolve_list_set [where U = "members h", OF _ walk(3)] r
      by auto
    with n g have "good_var (members h) ((h ! a)\<lparr> av_node := n, direct_deps := direct_deps (h ! a) @ ds,
        av_inflows := av_inflows (h ! a) @ ins, av_outflows := av_outflows (h ! a) @ outs \<rparr>)"
      by (auto simp: good_var_def)
    from good_heap_update [OF assms(1,2) this] walk(4,5) show ?thesis by simp
  qed
qed

lemma init_members_failed:
  "init_members c m l failed h = Inr (0, h') \<Longrightarrow> failed = 0"
  by (induction l arbitrary: failed h) (auto simp: rbind_eq_Inr split: if_splits)

lemma init_members_good:
  "init_members c 0 l 0 h = Inr (0, h') \<Longrightarrow> good_heap h \<Longrightarrow> set l \<subseteq> members h \<Longrightarrow>
   good_heap h' \<and> length h' = length h"
proof (induction l arbitrary: h)
  case (Cons a l)
  have a: "a \<in> members h" "a < length h" using Cons.prems(3) by (auto simp: members_def)
  have "good_var (members h) (h ! a)" using Cons.prems(2) a(1) by (simp add: good_heap_def)
  then have mo: "av_model (h ! a) = None" by (simp add: good_var_def)
  obtain err h1 where i: "avar_init_var h a (Some 0) = Inr (err, h1)"
    and r: "init_members c 0 l (if err \<noteq> SD_ERR_NO_ERROR then 0 + 1 else 0) h1 = Inr (0, h')"
    using Cons.prems(1) a mo by (auto simp: avar_init_def hread_eq rbind_eq_Inr)
  have "err = SD_ERR_NO_ERROR" using init_members_failed [OF r] by (auto split: if_splits)
  with i r have i: "avar_init_var h a (Some 0) = Inr (SD_ERR_NO_ERROR, h1)" and
    r: "init_members c 0 l 0 h1 = Inr (0, h')" by simp_all
  have "good_heap h1 \<and> length h1 = length h" by (rule avar_init_var_good [OF Cons.prems(2) a(1) i])
  with Cons.IH [OF r] Cons.prems(3) show ?case by (simp add: members_def)
qed simp

lemma copy_offsets_plain:
  "\<forall>a \<in> set l. a < length h \<and> (case av_v (h ! a) of None \<Rightarrow> False | Some v \<Rightarrow> plain v) \<Longrightarrow> copy_offsets l h = Inr h"
  by (induction l) (auto simp: hread_eq var_of_def plain_def split: option.splits)

lemma good_heap_plain:
  "good_heap h \<Longrightarrow> b \<in> members h \<Longrightarrow> b < length h \<and> (case av_v (h ! b) of None \<Rightarrow> False | Some v \<Rightarrow> plain v)"
  by (simp add: good_heap_def good_var_def members_def)

lemma module_compile_good:
  assumes "avar_init (module_compile (depth_fuel h)) h 0 None = Inr (SD_ERR_NO_ERROR, h')" "good_heap h"
  shows "good_heap h' \<and> length h' = length h"
proof -
  have root: "av_model (h ! 0) \<noteq> None" "0 < length h" "avars (h ! 0) = [1..<length h]"
    using assms(2) by (auto simp: good_heap_def good_root_def)
  obtain h1 where i: "init_members (module_compile (length h)) 0 (avars (h ! 0)) 0 h = Inr (0, h1)"
    and c: "copy_offsets (avars (h ! 0)) h1 = Inr h'"
    using assms(1) root(1,2)
    by (auto simp: avar_init_def hread_eq depth_fuel_def module_compile_body_def rbind_eq_Inr split: if_split_asm)
  have g: "good_heap h1 \<and> length h1 = length h"
    using init_members_good [OF i assms(2)] root(3) by (simp add: members_def)
  have "\<forall>a \<in> set (avars (h ! 0)). a < length h1 \<and> (case av_v (h1 ! a) of None \<Rightarrow> False | Some v \<Rightarrow> plain v)"
    using good_heap_plain [of h1] g root(3) by (simp add: members_def)
  from copy_offsets_plain [OF this] c have "h' = h1" by simp
  with g show ?thesis by simp
qed

section \<open>Offsets\<close>

text \<open>Each variable gets its position in the module.\<close>

definition placed :: "heap \<Rightarrow> nat \<Rightarrow> heap" where
  "placed h k = map (\<lambda>i. if i \<in> {1..<k} then (h ! i)\<lparr> offset := i - 1 \<rparr> else h ! i) [0..<length h]"

lemma length_placed [simp]: "length (placed h k) = length h"
  by (simp add: placed_def)

lemma nth_placed: "i < length h \<Longrightarrow> placed h k ! i = (if i \<in> {1..<k} then (h ! i)\<lparr> offset := i - 1 \<rparr> else h ! i)"
  by (simp add: placed_def)

lemma placed_1: "placed h 1 = h"
  by (rule nth_equalityI) (auto simp: nth_placed)

lemma placed_step: "1 \<le> k \<Longrightarrow> k < length h \<Longrightarrow>
    hupd (placed h k) k (\<lambda>x. x\<lparr> offset := k - 1 \<rparr>) = Inr (placed h (Suc k))"
  by (auto simp: hupd_eq nth_placed nth_list_update intro!: nth_equalityI)

lemma offset_members_placed:
  "\<forall>i \<in> members h. av_model (h ! i) = None \<and> av_src (h ! i) = None \<Longrightarrow> 1 \<le> k \<Longrightarrow> k \<le> length h \<Longrightarrow>
   offset_members f [k..<length h] (k - 1) (placed h k) = Inr (length h - 1, placed h (length h))"
proof (induction "length h - k" arbitrary: k)
  case (Suc n)
  then have k: "k < length h" "1 \<le> k" by auto
  then have "[k..<length h] = k # [Suc k..<length h]" by (simp add: upt_conv_Cons)
  moreover have "av_model (placed h k ! k) = None \<and> av_src (placed h k ! k) = None"
    using Suc.prems(1) k by (simp add: nth_placed members_def)
  ultimately show ?case
    using Suc.hyps(1) [of "Suc k"] Suc.hyps(2) Suc.prems(1) k placed_step [of k h]
    by (simp add: hread_eq)
qed simp

lemma module_assign_offsets_good:
  assumes "good_heap h" "module_assign_offsets (depth_fuel h) 0 0 h = Inr (off, h')"
  shows "off = length h - 1 \<and> h' = placed h (length h)"
proof -
  have n: "2 \<le> length h" and root: "avars (h ! 0) = [1..<length h]" "0 < length h"
    using assms(1) by (auto simp: good_heap_def good_root_def)
  have "\<forall>i \<in> members h. av_model (h ! i) = None \<and> av_src (h ! i) = None"
    using assms(1) by (auto simp: good_heap_def good_var_def)
  from offset_members_placed [OF this, of 1] n
  have "offset_members f [1..<length h] 0 h = Inr (length h - 1, placed h (length h))" for f
    by (simp add: placed_1 del: One_nat_def)
  with assms(2) root show ?thesis by (simp add: depth_fuel_def hread_eq del: One_nat_def)
qed

section \<open>The built heap\<close>

lemma good_placed_wired:
  assumes "good_heap h" shows "wired (placed h (length h)) 0"
proof -
  let ?h = "placed h (length h)"
  have n: "2 \<le> length h" and av: "avars (h ! 0) = [1..<length h]" and t: "av_node (h ! 1) = Null"
    using assms by (auto simp: good_heap_def good_root_def)
  have "0 < length h" using n by linarith
  then have "?h ! 0 = h ! 0" by (subst nth_placed) simp_all
  then have U: "set (avars (?h ! 0)) = members h" using av by (simp add: members_def)
  have nth: "?h ! i = (h ! i)\<lparr> offset := i - 1 \<rparr>" "i < length h" "1 \<le> i" if "i \<in> members h" for i
    using that by (simp_all add: nth_placed members_def)
  have g: "good_var (members h) (h ! i)" if "i \<in> members h" for i
    using that assms by (simp add: good_heap_def)
  have "flat ?h 0" unfolding flat_def U
  proof (intro conjI ballI)
    show "0 < length ?h" "0 \<notin> members h" using n by (auto simp: members_def)
    fix i assume i: "i \<in> members h"
    note facts = nth [OF i] g [OF i]
    show "i < length ?h" "av_model (?h ! i) = None" "set (direct_deps (?h ! i)) \<subseteq> members h"
      "case av_v (?h ! i) of None \<Rightarrow> False | Some v \<Rightarrow> vtype v \<noteq> VAR_MODULE"
      using facts by (auto simp: good_var_def plain_def split: option.splits)
  qed
  moreover have "inj_on (\<lambda>a. offset (?h ! a)) (members h)"
  proof (rule inj_onI)
    fix a b assume "a \<in> members h" "b \<in> members h" and e: "offset (?h ! a) = offset (?h ! b)"
    note na = nth [OF this(1)] and nb = nth [OF this(2)]
    from e na nb show "a = b" by simp
  qed
  moreover have "kind ?h a \<noteq> VAR_REF \<and> av_src (?h ! a) = None \<and>
      names (av_node (?h ! a)) \<subseteq> set (direct_deps (?h ! a)) \<and>
      (if av_node (?h ! a) = Null then idle ?h a \<and> direct_deps (?h ! a) = [] else offset (?h ! a) \<noteq> 0)"
    if a: "a \<in> members h" for a
  proof -
    note facts = nth [OF a] g [OF a]
    have "offset (?h ! a) \<noteq> 0" if "av_node (?h ! a) \<noteq> Null"
    proof -
      have "a \<noteq> 1" using that facts t by auto
      with facts show ?thesis by simp
    qed
    with facts show ?thesis by (auto simp: good_var_def plain_def kind_def idle_def split: option.splits)
  qed
  ultimately show ?thesis unfolding wired_def U by blast
qed

text \<open>
  What a successful \<open>sim_build\<close> leaves: \<open>dn\<close> is the order of the variables, \<open>n\<close> their number.
\<close>

definition run_ready :: "heap \<Rightarrow> nat \<Rightarrow> addr list \<Rightarrow> bool" where
  "run_ready h n dn \<longleftrightarrow> wired h 0 \<and> ordered (deps h) dn \<and> set dn \<subseteq> members h \<and> {2..<length h} \<subseteq> set dn \<and>
     n = length h - 1 \<and> 2 \<le> length h \<and> set (avars (h ! 0)) = members h \<and>
     av_v (h ! 1) = Some time_var \<and> av_node (h ! 1) = Null \<and> \<not> is_const (h ! 1) \<and>
     (\<forall>a \<in> members h. offset (h ! a) = a - 1 \<and> (case av_v (h ! a) of None \<Rightarrow> False | Some v \<Rightarrow> plain v) \<and>
        set (av_inflows (h ! a)) \<subseteq> members h \<and> set (av_outflows (h ! a)) \<subseteq> members h) \<and>
     initials (h ! 0) = dn \<and> flows (h ! 0) = filter (on_flows h) dn \<and> stocks (h ! 0) = filter (on_stocks h) dn"

lemma wired_transfer:
  assumes "wired h 0" "length h' = length h" "\<forall>i < length h.
     av_node (h' ! i) = av_node (h ! i) \<and> offset (h' ! i) = offset (h ! i) \<and> av_src (h' ! i) = av_src (h ! i) \<and>
     direct_deps (h' ! i) = direct_deps (h ! i) \<and> av_v (h' ! i) = av_v (h ! i) \<and>
     av_model (h' ! i) = av_model (h ! i) \<and> avars (h' ! i) = avars (h ! i) \<and>
     av_inflows (h' ! i) = av_inflows (h ! i) \<and> av_outflows (h' ! i) = av_outflows (h ! i) \<and>
     is_const (h' ! i) = is_const (h ! i) \<and>
     (i \<noteq> 0 \<longrightarrow> initials (h' ! i) = initials (h ! i) \<and> flows (h' ! i) = flows (h ! i))"
  shows "wired h' 0 \<and> deps h' = deps h \<and>
     (\<forall>a < length h. kind h' a = kind h a \<and> on_flows h' a = on_flows h a \<and> on_stocks h' a = on_stocks h a)"
proof -
  have z: "0 < length h" "avars (h' ! 0) = avars (h ! 0)" "0 \<notin> set (avars (h ! 0))"
    using assms by (auto simp: wired_def flat_def)
  have k: "kind h' a = kind h a \<and> on_flows h' a = on_flows h a \<and> on_stocks h' a = on_stocks h a" if "a < length h" for a
    using that assms(3) by (simp add: kind_def on_flows_def on_stocks_def)
  have d: "deps h' = deps h" using assms(2,3) by (auto simp: deps_def)
  have m: "a < length h" "a \<noteq> 0" if "a \<in> set (avars (h ! 0))" for a
    using assms(1) that z(3) by (simp add: wired_def flat_def, metis)
  have eq: "av_node (h' ! a) = av_node (h ! a) \<and> offset (h' ! a) = offset (h ! a) \<and> av_src (h' ! a) = av_src (h ! a) \<and>
     direct_deps (h' ! a) = direct_deps (h ! a) \<and> av_v (h' ! a) = av_v (h ! a) \<and>
     av_model (h' ! a) = av_model (h ! a) \<and> kind h' a = kind h a \<and> idle h' a = idle h a" if "a \<in> set (avars (h ! 0))" for a
    using m [OF that] k assms(3) by (simp add: idle_def)
  have "flat h' 0" using assms(1,2) z eq by (simp add: wired_def flat_def)
  moreover have "inj_on (\<lambda>a. offset (h' ! a)) (set (avars (h' ! 0)))"
    using assms(1) eq z(2) by (auto simp: wired_def inj_on_def)
  ultimately show ?thesis using assms(1) eq z(2) d k by (simp add: wired_def)
qed

lemma good_run_ready:
  assumes "good_heap h" "module_sort_runlists (depth_fuel h) (placed h (length h)) 0 = Inr (SD_ERR_NO_ERROR, h')"
  shows "\<exists>dn. run_ready h' (length h - 1) dn"
proof -
  let ?h = "placed h (length h)"
  have n: "2 \<le> length h" "0 < length h" "1 < length h" and r: "good_root h [1..<length h]"
    using assms(1) by (auto simp: good_heap_def good_root_def)
  have W: "wired ?h 0" by (rule good_placed_wired [OF assms(1)])
  note F = wired_flat [OF W]
  have S: "module_sort_runlists (depth_fuel ?h) ?h 0 = Inr (SD_ERR_NO_ERROR, h')"
    using assms(2) by (simp add: depth_fuel_def)
  have h0: "?h ! 0 = h ! 0" using n by (simp add: nth_placed)
  obtain dn where dn: "ordered (deps ?h) dn" "set (scheduled ?h 0) \<subseteq> set dn" "set dn \<subseteq> set (avars (?h ! 0))"
    "initials (h' ! 0) = filter (\<lambda>a. kind ?h a \<noteq> VAR_REF) dn" "flows (h' ! 0) = filter (on_flows ?h) dn"
    "stocks (h' ! 0) = filter (on_stocks ?h) dn"
    using module_sort_runlists_facts [OF F _ _ _ S] r h0 by (auto simp: good_root_def)
  have st: "length h' = length ?h \<and> (\<forall>i < length ?h.
     av_node (h' ! i) = av_node (?h ! i) \<and> offset (h' ! i) = offset (?h ! i) \<and> av_src (h' ! i) = av_src (?h ! i) \<and>
     direct_deps (h' ! i) = direct_deps (?h ! i) \<and> av_v (h' ! i) = av_v (?h ! i) \<and>
     av_model (h' ! i) = av_model (?h ! i) \<and> avars (h' ! i) = avars (?h ! i) \<and>
     av_inflows (h' ! i) = av_inflows (?h ! i) \<and> av_outflows (h' ! i) = av_outflows (?h ! i) \<and>
     is_const (h' ! i) = is_const (?h ! i) \<and>
     (i \<noteq> 0 \<longrightarrow> initials (h' ! i) = initials (?h ! i) \<and> flows (h' ! i) = flows (?h ! i)))"
    by (rule sort_static [OF F S])
  note W' = wired_transfer [OF W st [THEN conjunct1] st [THEN conjunct2]]
  have av: "avars (h ! 0) = [1..<length h]" "av_parent (h ! 0) = None" using r by (auto simp: good_root_def)
  have mem: "members h' = members h" using st by (simp add: members_def)
  have sub: "set dn \<subseteq> members h" using dn(3) h0 av by (simp add: members_def)
  have sch: "{2..<length h} \<subseteq> set dn"
  proof -
    have "[1..<length h] = 1 # [2..<length h]" using n by (simp add: upt_conv_Cons numeral_2_eq_2)
    with dn(2) h0 av show ?thesis by (simp add: scheduled_def numeral_2_eq_2)
  qed
  have len: "a < length h" if "a \<in> set dn" for a using that sub by (auto simp: members_def)
  have same: "kind ?h a \<noteq> VAR_REF \<and> on_flows h' a = on_flows ?h a \<and> on_stocks h' a = on_stocks ?h a" if "a \<in> set dn" for a
  proof -
    have "a \<in> set (avars (?h ! 0))" using that dn(3) by blast
    then have "kind ?h a \<noteq> VAR_REF" using W by (simp add: wired_def)
    with W' len [OF that] show ?thesis by simp
  qed
  have lists: "initials (h' ! 0) = dn" "flows (h' ! 0) = filter (on_flows h') dn" "stocks (h' ! 0) = filter (on_stocks h') dn"
    using dn(4-6) same by (auto intro: filter_cong)
  have good: "offset (h' ! a) = a - 1 \<and> (case av_v (h' ! a) of None \<Rightarrow> False | Some v \<Rightarrow> plain v) \<and>
        set (av_inflows (h' ! a)) \<subseteq> members h \<and> set (av_outflows (h' ! a)) \<subseteq> members h" if "a \<in> members h" for a
  proof -
    have "good_var (members h) (h ! a)" using assms(1) that by (simp add: good_heap_def)
    with that st show ?thesis by (simp add: nth_placed members_def good_var_def)
  qed
  have "av_v (h' ! 1) = Some time_var \<and> av_node (h' ! 1) = Null \<and> \<not> is_const (h' ! 1)"
    using r st n by (simp add: good_root_def nth_placed)
  moreover have "set (avars (h' ! 0)) = members h'" using st n av h0 mem by (simp add: members_def)
  ultimately have "run_ready h' (length h - 1) dn"
    unfolding run_ready_def mem using W' dn(1) sub sch lists good n st by simp
  then show ?thesis by blast
qed

lemma sim_build_ready:
  assumes "sim_build (Some pr) nm = Inr (Some (h, m, off))" "sd_project_get_model (Some pr) nm = Some mo"
    "\<forall>v \<in> set (m_vars mo). plain v"
  shows "m = 0 \<and> (\<exists>dn. run_ready h off dn) \<and> av_model (h ! 0) \<noteq> None"
proof -
  obtain h1 h2 h3 where b: "module_new (module_fuel pr) pr [] None mo None = Inr (h1, Some m)"
    and i: "avar_init (module_compile (depth_fuel h1)) h1 m None = Inr (SD_ERR_NO_ERROR, h2)"
    and o: "module_assign_offsets (depth_fuel h2) m 0 h2 = Inr (off, h3)"
    and s: "module_sort_runlists (depth_fuel h3) h3 m = Inr (SD_ERR_NO_ERROR, h)"
    using assms(1,2) by (auto simp: sim_build_def rbind_eq_Inr split: option.splits if_split_asm)
  have g1: "m = 0" "good_heap h1" using module_new_good [OF b assms(3)] by simp_all
  have g2: "good_heap h2" using module_compile_good i g1 by simp
  have g3: "off = length h2 - 1" "h3 = placed h2 (length h2)"
    using module_assign_offsets_good [OF g2] o g1(1) by simp_all
  have s: "module_sort_runlists (depth_fuel h2) (placed h2 (length h2)) 0 = Inr (SD_ERR_NO_ERROR, h)"
    using s g3(2) g1(1) by (simp add: depth_fuel_def)
  have "av_model (h2 ! 0) \<noteq> None" "2 \<le> length h2" using g2 by (auto simp: good_heap_def good_root_def)
  moreover have "av_model (h ! 0) = av_model (placed h2 (length h2) ! 0)"
  proof -
    have "0 < length (placed h2 (length h2))" unfolding length_placed using \<open>2 \<le> length h2\<close> by linarith
    moreover have "depth_fuel (placed h2 (length h2)) = depth_fuel h2" by (simp add: depth_fuel_def)
    ultimately show ?thesis
      using sort_static [OF wired_flat [OF good_placed_wired [OF g2]], of h] s by metis
  qed
  moreover have "placed h2 (length h2) ! 0 = h2 ! 0"
  proof -
    have "0 < length h2" using \<open>2 \<le> length h2\<close> by linarith
    then show ?thesis by (subst nth_placed) simp_all
  qed
  ultimately have "av_model (h ! 0) \<noteq> None" by simp
  with good_run_ready [OF g2 s] g1(1) g3(1) show ?thesis by blast
qed

end
