(* ===== verification/Names.thy ===== *)
theory Names
  imports Build
begin

text \<open>
  The identity of the objects of a simulation: no operation after the creation of an object changes
  its variable, its parent or its cached name. So the root module of a model without submodules
  holds the variable \<open>time\<close> and then the variables of the model in the order of the file, and
  \<open>sd_sim_get_varnames\<close> lists their names in this order, which is that of the columns of a row.
\<close>

section \<open>What stays of an object\<close>

definition ident_of :: "avar \<Rightarrow> var option \<times> addr option \<times> cstr option" where
  "ident_of x = (av_v x, av_parent x, qual_name x)"

abbreviation idents :: "heap \<Rightarrow> (var option \<times> addr option \<times> cstr option) list" where
  "idents \<equiv> map ident_of"

lemma hupd_idents: "hupd h a f = Inr h' \<Longrightarrow> (\<And>x. ident_of (f x) = ident_of x) \<Longrightarrow> idents h' = idents h"
  by (auto simp: hupd_def hread_def aread_def rbind_eq_Inr map_update list_update_same_conv split: if_splits)

lemma avar_init_var_idents: "avar_init_var h a m = Inr (err, h') \<Longrightarrow> idents h' = idents h"
  by (auto simp: avar_init_var_def rbind_eq_Inr ident_of_def split: option.splits if_split_asm dest!: hupd_idents)

lemma init_members_idents:
  assumes "\<And>h a err h'. c h a = Inr (err, h') \<Longrightarrow> idents h' = idents h"
  shows "init_members c m l failed h = Inr (k, h') \<Longrightarrow> idents h' = idents h"
proof (induction l arbitrary: failed h)
  case (Cons a l)
  then obtain err h1 where i: "avar_init c h a (Some m) = Inr (err, h1)"
    and r: "init_members c m l (if err \<noteq> SD_ERR_NO_ERROR then failed + 1 else failed) h1 = Inr (k, h')"
    by (auto simp: rbind_eq_Inr)
  have "idents h1 = idents h"
    using i by (auto simp: avar_init_def rbind_eq_Inr split: if_split_asm dest: assms avar_init_var_idents)
  with Cons.IH [OF r] show ?case by simp
qed simp

lemma copy_offsets_idents: "copy_offsets l h = Inr h' \<Longrightarrow> idents h' = idents h"
proof (induction l arbitrary: h)
  case (Cons a l)
  obtain av :: avar and v h1 where r: "copy_offsets l h1 = Inr h'"
    and h1: "(if vtype v = VAR_REF then
              (case av_src av of
                 None \<Rightarrow> Inl NullDeref
               | Some s \<Rightarrow> rbind (hread h s) (\<lambda>src. hupd h a (\<lambda>x. x\<lparr> offset := offset src \<rparr>)))
            else Inr h) = Inr h1"
    using Cons.prems by (auto simp: rbind_eq_Inr split del: if_split)
  have "idents h1 = idents h"
    using h1 by (auto simp: rbind_eq_Inr ident_of_def dest!: hupd_idents split: if_split_asm option.splits)
  with Cons.IH [OF r] show ?case by simp
qed simp

lemma module_compile_idents: "module_compile n h m = Inr (err, h') \<Longrightarrow> idents h' = idents h"
proof (induction n arbitrary: h m err h')
  case (Suc n)
  obtain md :: avar and failed h1 where i: "init_members (module_compile n) m (avars md) 0 h = Inr (failed, h1)"
    and c: "(if failed \<noteq> 0 then Inr (SD_ERR_UNSPECIFIED, h1)
       else rbind (copy_offsets (avars md) h1) (\<lambda>h. Inr (SD_ERR_NO_ERROR, h))) = Inr (err, h')"
    using Suc.prems by (auto simp: module_compile_body_def rbind_eq_Inr split del: if_split)
  have "idents h1 = idents h" by (rule init_members_idents [OF Suc.IH i])
  with c show ?case by (auto simp: rbind_eq_Inr dest: copy_offsets_idents split: if_split_asm)
qed simp

lemma enlist_ident: "ident_of (enlist h md dn) = ident_of md"
  by (induction dn rule: rev_induct) (simp_all add: ident_of_def runlist_append_def)

lemma sort_idents:
  assumes "flat h m" "module_sort_runlists (depth_fuel h) h m = Inr (SD_ERR_NO_ERROR, h')"
  shows "idents h' = idents h"
proof -
  let ?h1 = "cleared h (insert m (set (avars (h ! m))))"
  obtain dn where "h' = marked ?h1 m {} dn"
    using module_sort_search [OF assms(1)] assms(2) by (auto simp: agrees_def split: option.splits)
  moreover have "ident_of (marked g m {} dn ! i) = ident_of (g ! i)" if "i < length g" for g i
    using that enlist_ident [of g "g ! m" dn] by (simp add: nth_marked ident_of_def)
  moreover have "ident_of (cleared h A ! i) = ident_of (h ! i)" if "i < length h" for A i
    using that by (simp add: nth_cleared ident_of_def)
  ultimately show ?thesis by (auto intro!: nth_equalityI)
qed

section \<open>The variables of the root module\<close>

text \<open>Objects are added with their variable and parent; the cached name comes later.\<close>

lemma members_new_idents:
  "members_new build p [] 0 vs h = Inr (h', True) \<Longrightarrow> \<forall>v \<in> set vs. plain v \<Longrightarrow> h \<noteq> [] \<Longrightarrow>
   idents h' = idents h @ map (\<lambda>v. (Some v, Some 0, None)) vs"
proof (induction vs arbitrary: h)
  case (Cons v vs)
  obtain h1 a where a: "avar_new build p h 0 v = Inr (h1, Some a)"
    and r: "rbind (hupd h1 0 (\<lambda>x. x\<lparr> avars := avars x @ [a] \<rparr>)) (members_new build p [] 0 vs) = Inr (h', True)"
    using Cons.prems(1) by (auto simp: member_new_def rbind_eq_Inr split: option.splits)
  let ?e = "if veqn v = None then Inr (SD_ERR_NO_ERROR, Null) else avar_eqn_parse (veqn v)"
  obtain x where x: "h1 = h @ [x]" "ident_of x = (Some v, Some 0, None)"
    using a Cons.prems(2)
    by (cases ?e) (auto simp: avar_new_def plain_def ident_of_def avar_zero_def simp del: split_paired_Ex split: if_split_asm)
  obtain h2 where h2: "hupd h1 0 (\<lambda>x. x\<lparr> avars := avars x @ [a] \<rparr>) = Inr h2"
    and n: "members_new build p [] 0 vs h2 = Inr (h', True)" using r by (auto simp: rbind_eq_Inr)
  have i: "idents h2 = idents h @ [(Some v, Some 0, None)]"
    using hupd_idents [OF h2] x by (simp add: ident_of_def)
  then have "h2 \<noteq> []" by auto
  with Cons.IH [OF n] Cons.prems(2) i show ?case by simp
qed simp

lemma module_new_idents:
  assumes "module_new n p [] None mo None = Inr (h, Some m)" "\<forall>v \<in> set (m_vars mo). plain v"
  shows "idents h = [(None, None, None), (Some time_var, Some 0, None)] @ map (\<lambda>v. (Some v, Some 0, None)) (m_vars mo)"
proof -
  obtain k where n: "n = Suc k" using assms(1) by (cases n) auto
  let ?h = "[avar_zero\<lparr> av_v := None, av_model := Some mo, av_parent := None, avars := [1] \<rparr>,
     avar_zero\<lparr> av_v := Some time_var, av_parent := Some 0 \<rparr>]"
  have "members_new (module_new k p) p [] 0 (m_vars mo) ?h = Inr (h, True)"
    using assms(1) n by (auto simp: module_body_def rbind_eq_Inr split: if_splits)
  from members_new_idents [OF this assms(2)] show ?thesis by (simp add: ident_of_def avar_zero_def)
qed

text \<open>What a successful build leaves of the model.\<close>

definition model_heap :: "model \<Rightarrow> heap \<Rightarrow> bool" where
  "model_heap mo h \<longleftrightarrow> avars (h ! 0) = [1..<length h] \<and>
     idents h = [(None, None, None), (Some time_var, Some 0, None)] @ map (\<lambda>v. (Some v, Some 0, None)) (m_vars mo) \<and>
     (\<forall>a \<in> members h. av_model (h ! a) = None \<and> av_src (h ! a) = None)"

lemma sim_build_model_heap:
  assumes "sim_build (Some pr) nm = Inr (Some (h, m, off))" "sd_project_get_model (Some pr) nm = Some mo"
    "\<forall>v \<in> set (m_vars mo). plain v"
  shows "model_heap mo h \<and> off = length h - 1"
proof -
  obtain h1 h2 h3 where b: "module_new (module_fuel pr) pr [] None mo None = Inr (h1, Some m)"
    and i: "avar_init (module_compile (depth_fuel h1)) h1 m None = Inr (SD_ERR_NO_ERROR, h2)"
    and o: "module_assign_offsets (depth_fuel h2) m 0 h2 = Inr (off, h3)"
    and s: "module_sort_runlists (depth_fuel h3) h3 m = Inr (SD_ERR_NO_ERROR, h)"
    using assms(1,2) by (auto simp: sim_build_def rbind_eq_Inr split: option.splits if_split_asm)
  have g1: "m = 0" "good_heap h1" using module_new_good [OF b assms(3)] by simp_all
  have g2: "good_heap h2" using module_compile_good i g1 by simp
  have g3: "off = length h2 - 1" "h3 = placed h2 (length h2)"
    using module_assign_offsets_good [OF g2] o g1(1) by simp_all
  have n: "2 \<le> length h2" "0 < length h2" and root: "avars (h2 ! 0) = [1..<length h2]"
    using g2 by (auto simp: good_heap_def good_root_def)
  note W = good_placed_wired [OF g2]
  have s: "module_sort_runlists (depth_fuel h3) h3 0 = Inr (SD_ERR_NO_ERROR, h)" "flat h3 0"
    using s g3(2) g1(1) wired_flat [OF W] by simp_all
  note st = sort_static [OF s(2,1)]
  have "idents h = idents h3" by (rule sort_idents [OF s(2,1)])
  also have "\<dots> = idents h2" unfolding g3(2) by (auto intro!: nth_equalityI simp: nth_placed ident_of_def)
  also have "\<dots> = idents h1"
    using i by (auto simp: avar_init_def rbind_eq_Inr split: if_split_asm dest: module_compile_idents avar_init_var_idents)
  also have "\<dots> = [(None, None, None), (Some time_var, Some 0, None)] @ map (\<lambda>v. (Some v, Some 0, None)) (m_vars mo)"
    by (rule module_new_idents [OF b assms(3)])
  finally have ids: "idents h = \<dots>" .
  have len: "length h = length h2" "length h3 = length h2" using st g3(2) by simp_all
  have "placed h2 (length h2) ! 0 = h2 ! 0" using n by (subst nth_placed) simp_all
  then have av: "avars (h ! 0) = [1..<length h]" using st root n len g3(2) by simp
  have "av_model (h ! a) = None \<and> av_src (h ! a) = None" if a: "a \<in> members h" for a
  proof -
    have "a \<in> set (avars (h3 ! 0))" using st av a n len by (simp add: members_def)
    then have "av_model (h3 ! a) = None \<and> av_src (h3 ! a) = None"
      using W g3(2) by (auto simp: wired_def flat_def)
    with a st len show ?thesis by (simp add: members_def)
  qed
  with ids av g3(1) len show ?thesis by (simp add: model_heap_def)
qed

text \<open>The variables of the module in order, and their names.\<close>

definition model_vars :: "model \<Rightarrow> var list" where
  "model_vars mo = time_var # m_vars mo"

lemma model_heap_member:
  assumes "model_heap mo h" "a \<in> members h"
  shows "av_v (h ! a) = Some (model_vars mo ! (a - 1))" "av_parent (h ! a) = Some 0" "qual_name (h ! a) = None"
    "length h = length (model_vars mo) + 1" "av_parent (h ! 0) = None"
proof -
  have ids: "idents h = (None, None, None) # map (\<lambda>v. (Some v, Some 0, None)) (model_vars mo)"
    using assms(1) by (simp add: model_heap_def model_vars_def)
  then have len: "length h = length (model_vars mo) + 1" by (metis length_Cons length_map Suc_eq_plus1)
  have a: "1 \<le> a" "a < length h" using assms(2) by (simp_all add: members_def)
  then have "ident_of (h ! a) = (Some (model_vars mo ! (a - 1)), Some 0, None)"
    using arg_cong [OF ids, of "\<lambda>l. l ! a"] len by (simp add: nth_Cons')
  moreover have "ident_of (h ! 0) = (None, None, None)" using arg_cong [OF ids, of "\<lambda>l. l ! 0"] a len by simp
  ultimately show "av_v (h ! a) = Some (model_vars mo ! (a - 1))" "av_parent (h ! a) = Some 0" "qual_name (h ! a) = None"
    "length h = length (model_vars mo) + 1" "av_parent (h ! 0) = None"
    using len by (simp_all add: ident_of_def)
qed

section \<open>Listing the names\<close>

lemma varnames_members_names:
  assumes "model_heap mo h"
  shows "set l \<subseteq> members h \<Longrightarrow> length l \<le> mx \<Longrightarrow>
    varnames_members rec l h mx = Inr (map (\<lambda>a. vname (model_vars mo ! (a - 1))) l, h)"
proof (induction l arbitrary: mx)
  case (Cons a l)
  then have a: "a \<in> members h" by simp
  note m = model_heap_member [OF assms a]
  have z: "av_model (h ! a) = None" "av_src (h ! a) = None" using assms a by (simp_all add: model_heap_def)
  have len: "a < length h" "0 < length h" using a by (auto simp: members_def)
  have "avar_qual_name (depth_fuel h) h a = Inr (vname (model_vars mo ! (a - 1)), h)"
    using m len by (simp add: depth_fuel_def hread_eq var_of_def)
  with Cons z len show ?case by (simp add: hread_eq)
qed simp

lemma get_varnames_names:
  assumes "model_heap mo (s_heap s)" "s_module s = 0" "nvars s = length (s_heap s) - 1"
  shows "sd_sim_get_varnames (Some s) (nvars s) =
    Inr (int (nvars s), map vname (model_vars mo), Some s)"
proof -
  let ?h = "s_heap s"
  have one: "1 < length ?h"
  proof -
    have "length (idents ?h) = length (model_vars mo) + 1" using assms(1) by (simp add: model_heap_def model_vars_def)
    then show ?thesis by (simp add: model_vars_def)
  qed
  then have mem: "1 \<in> members ?h" and n: "nvars s \<noteq> 0" "0 < length ?h" using assms(3) by (auto simp: members_def)
  note len = model_heap_member(4) [OF assms(1) mem]
  have av: "avars (?h ! 0) = [1..<length ?h]" using assms(1) by (simp add: model_heap_def)
  have "set (avars (?h ! 0)) \<subseteq> members ?h" "length (avars (?h ! 0)) \<le> nvars s" using av assms(3) by (simp_all add: members_def)
  from varnames_members_names [OF assms(1) this]
  have v: "varnames_members rec (avars (?h ! 0)) ?h (nvars s) = Inr (map (\<lambda>a. vname (model_vars mo ! (a - 1))) [1..<length ?h], ?h)" for rec
    using av by simp
  have ns: "map (\<lambda>a. vname (model_vars mo ! (a - 1))) [1..<length ?h] = map vname (model_vars mo)"
    by (rule nth_equalityI) (simp_all add: len del: upt_Suc)
  have "module_get_varnames (depth_fuel ?h) ?h 0 (nvars s) = Inr (map vname (model_vars mo), ?h)"
    using v n(2) unfolding depth_fuel_def module_get_varnames.simps ns by (simp add: hread_eq del: upt_Suc)
  moreover have "length (model_vars mo) = nvars s" using assms(3) len by simp
  ultimately show ?thesis using n(1) assms(2) by (simp add: sd_sim_get_varnames_def)
qed

section \<open>Looking a name up\<close>

text \<open>Names that \<open>resolve\<close> takes for what they are: present, different, and without a leading dot.\<close>

definition good_names :: "cstr list \<Rightarrow> bool" where
  "good_names ns \<longleftrightarrow> distinct ns \<and> (\<forall>n \<in> set ns. take 1 n \<noteq> ''.'')"

lemma resolve_scan_name:
  assumes "model_heap mo h" "map vname (model_vars mo) = map Some ns" "distinct ns" "j < length ns"
    "\<forall>v \<in> set (model_vars mo). vtype v \<noteq> VAR_MODULE" "j = k + i"
  shows "k + length l = length ns \<Longrightarrow> l = [Suc k..<length h] \<Longrightarrow>
    resolve_scan h pre (ns ! j) l = Inr (Some (Suc j, False))"
  using assms(6)
proof (induction l arbitrary: k i)
  case Nil
  then show ?case using assms(4) by simp
next
  case (Cons a l)
  have "Suc k < length h" using Cons.prems(2) by (metis list.distinct(1) upt_conv_Nil not_le)
  then have a: "a = Suc k" "l = [Suc (Suc k)..<length h]" "a \<in> members h"
    using Cons.prems(2) by (simp_all add: upt_conv_Cons members_def)
  note m = model_heap_member [OF assms(1) a(3)]
  have nl: "length ns = length (model_vars mo)" using arg_cong [OF assms(2), of length] by simp
  have k: "k < length ns" "a < length h" using Cons.prems(1) a by (simp_all add: members_def)
  have "map vname (model_vars mo) ! k = map Some ns ! k" using assms(2) by simp
  then have nm: "vname (model_vars mo ! k) = Some (ns ! k)" using k nl by simp
  have ty: "vtype (model_vars mo ! k) \<noteq> VAR_MODULE" using assms(5) k nl by simp
  show ?case
  proof (cases "i = 0")
    case True
    with m(1) a(1) k nm ty Cons.prems(3) show ?thesis
      by (simp add: hread_eq var_of_def str_eq_def del: upt_Suc split: option.split)
  next
    case False
    then have "ns ! k \<noteq> ns ! j" using assms(3,4) k Cons.prems(3) by (simp add: nth_eq_iff_index_eq)
    moreover have "resolve_scan h pre (ns ! j) l = Inr (Some (Suc j, False))"
      using Cons.IH [of "Suc k" "i - 1"] Cons.prems a False by (simp del: upt_Suc)
    ultimately show ?thesis using m(1) a(1) k nm ty
      by (cases pre) (simp_all add: hread_eq var_of_def str_eq_def)
  qed
qed

lemma resolve_name:
  assumes "model_heap mo h" "map vname (model_vars mo) = map Some ns" "good_names ns" "j < length ns"
    "\<forall>v \<in> set (model_vars mo). vtype v \<noteq> VAR_MODULE"
  shows "resolve h (Some 0) (Some (ns ! j)) = Inr (Some (Suc j))"
proof -
  have nl: "length ns = length (model_vars mo)" using arg_cong [OF assms(2), of length] by simp
  have ids: "length (idents h) = length (model_vars mo) + 1" using assms(1) by (simp add: model_heap_def model_vars_def)
  have len: "length h = length ns + 1" "0 < length h" using ids nl by simp_all
  have "take 1 (ns ! j) \<noteq> ''.''" using assms(3,4) by (simp add: good_names_def)
  then have d: "skip_dot (ns ! j) = ns ! j" by (auto simp: skip_dot_def split: list.splits)
  have "distinct ns" using assms(3) by (simp add: good_names_def)
  have "0 + length [Suc 0..<length h] = length ns" unfolding length_upt len(1) by simp
  have s: "resolve_scan h pre (ns ! j) [Suc 0..<length h] = Inr (Some (Suc j, False))" for pre
    by (rule resolve_scan_name [OF assms(1,2) \<open>distinct ns\<close> assms(4,5) _ \<open>0 + _ = _\<close>, of j]) simp_all
  have av: "avars (h ! 0) = [Suc 0..<length h]" using assms(1) by (simp add: model_heap_def)
  show ?thesis using s len d av
    by (simp add: resolve_def resolve_in.simps [of h 0 "ns ! j"] hread_eq split: option.split)
qed

end
