(* ===== verification/Xml.thy ===== *)
theory Xml
  imports Project Strtod
begin

text \<open>
  Reading a model file: the builder stack of \<^verbatim>\<open>xml.c\<close>, which turns the callbacks of the XML parser
  into a tree of node builders, and the functions that make the file header, the simulation
  specifications, the models, the variables and their tables from it; and \<open>sd_project_open\<close> of
  \<^verbatim>\<open>project.c\<close>.

  The XML parser is expat. What it delivers for a file is the argument \<open>events\<close>, the callbacks in
  order, and \<open>well_formed\<close>, whether it ends without an error. The text of a callback is a sequence
  of whole characters. Allocations succeed, and a node's text holds no NUL.
\<close>

section \<open>Node builders\<close>

datatype node_builder =
  NodeBuilder (nb_name: cstr) (nb_content: "cstr option") (nb_attrs: "(cstr \<times> cstr) list")
    (nb_children: "node_builder list")

definition node_builder_new :: "cstr \<Rightarrow> (cstr \<times> cstr) list \<Rightarrow> node_builder" where
  "node_builder_new name attrs = NodeBuilder name None attrs []"

fun node_builder_characters :: "node_builder \<Rightarrow> cstr \<Rightarrow> node_builder" where
  "node_builder_characters (NodeBuilder n c a xs) s =
     NodeBuilder n (Some (case c of None \<Rightarrow> s | Some t \<Rightarrow> t @ s)) a xs"

fun node_builder_end_child :: "node_builder \<Rightarrow> node_builder \<Rightarrow> node_builder" where
  "node_builder_end_child (NodeBuilder n c a xs) child = NodeBuilder n c a (xs @ [child])"

definition node_builder_get_first_child :: "node_builder \<Rightarrow> cstr \<Rightarrow> node_builder option" where
  "node_builder_get_first_child nb name = find (\<lambda>c. nb_name c = name) (nb_children nb)"

definition node_builder_get_attr :: "node_builder \<Rightarrow> cstr \<Rightarrow> cstr option" where
  "node_builder_get_attr nb name = map_of (nb_attrs nb) name"

text \<open>The text of the first child of that name, when it has one.\<close>

definition child_content :: "node_builder \<Rightarrow> cstr \<Rightarrow> cstr option" where
  "child_content nb name = Option.bind (node_builder_get_first_child nb name) nb_content"

section \<open>Tables\<close>

text \<open>
  The loop over the points: \<open>None\<close> is the error exit. The text pointer is \<open>None\<close> once it has moved
  past the terminating NUL.
\<close>

primrec read_points :: "nat \<Rightarrow> cstr option \<Rightarrow> fp list option run" where
  "read_points 0 pts = Inr (Some [])"
| "read_points (Suc n) pts =
     (case pts of
        None \<Rightarrow> Inl OutOfBounds
      | Some s \<Rightarrow>
          (case strtod s of (v, rest, erange) \<Rightarrow>
             if erange \<or> (rest \<noteq> [] \<and> hd rest \<noteq> CHR '','') then Inr None
             else
               rbind (read_points n (if rest = [] then None else Some (tl rest))) (\<lambda>r.
                 Inr (map_option ((#) v) r))))"

definition points_count :: "cstr \<Rightarrow> nat" where
  "points_count s = 1 + length (filter ((=) (CHR '','')) s)"

definition scale_points :: "nat \<Rightarrow> fp \<Rightarrow> fp \<Rightarrow> fp list" where
  "scale_points n xmin xmax =
     map (\<lambda>i. d_add (d_mul (d_div (d_int (int i)) (d_int (int (n - 1)))) (d_sub xmax xmin)) xmin) [0..<n]"

definition attr_number :: "node_builder \<Rightarrow> cstr \<Rightarrow> fp" where
  "attr_number nb name = (case node_builder_get_attr nb name of None \<Rightarrow> d_zero | Some s \<Rightarrow> atof s)"

definition table_from_node_builder :: "node_builder \<Rightarrow> table option run" where
  "table_from_node_builder nb =
     (case child_content nb ''ypts'' of
        None \<Rightarrow> Inr None
      | Some ys \<Rightarrow>
          (let n = points_count ys in
           rbind (read_points n (Some ys)) (\<lambda>y.
           case y of
             None \<Rightarrow> Inr None
           | Some y \<Rightarrow>
               rbind (case node_builder_get_first_child nb ''xpts'' of
                        Some xpts \<Rightarrow>
                          (case nb_content xpts of None \<Rightarrow> Inl NullDeref | Some xs \<Rightarrow> read_points n (Some xs))
                      | None \<Rightarrow>
                          (case node_builder_get_first_child nb ''xscale'' of
                             None \<Rightarrow> Inr None
                           | Some sc \<Rightarrow> Inr (Some (scale_points n (attr_number sc ''min'') (attr_number sc ''max''))))) (\<lambda>x.
               Inr (map_option (\<lambda>x. \<lparr> tbl_x = x, tbl_y = y, tbl_len = n \<rparr>) x)))))"

section \<open>Variables and models\<close>

definition ref_from_node_builder :: "node_builder \<Rightarrow> var option run" where
  "ref_from_node_builder nb =
     (case (node_builder_get_attr nb ''from'', node_builder_get_attr nb ''to'') of
        (Some src, Some dst) \<Rightarrow>
          rbind (canonicalize src) (\<lambda>s.
          rbind (canonicalize dst) (\<lambda>d. Inr (Some (Var VAR_REF (Some d) None (Some s) [] [] [] None False))))
      | _ \<Rightarrow> Inr None)"

definition var_type_of_tag :: "cstr \<Rightarrow> var_type option" where
  "var_type_of_tag tag =
     (if tag = ''aux'' then Some VAR_AUX
      else if tag = ''stock'' then Some VAR_STOCK
      else if tag = ''flow'' then Some VAR_FLOW
      else if tag = ''module'' then Some VAR_MODULE
      else None)"

text \<open>What one child adds to a variable. (The five tests are on different names.)\<close>

fun var_child :: "var \<Rightarrow> node_builder \<Rightarrow> var run" where
  "var_child (Var ty nm eqn src ins outs cs gf neg) child =
     (if nb_name child = ''inflow'' then
        (case nb_content child of
           None \<Rightarrow> Inr (Var ty nm eqn src ins outs cs gf neg)
         | Some t \<Rightarrow> rbind (canonicalize t) (\<lambda>c. Inr (Var ty nm eqn src (ins @ [c]) outs cs gf neg)))
      else if nb_name child = ''outflow'' then
        (case nb_content child of
           None \<Rightarrow> Inr (Var ty nm eqn src ins outs cs gf neg)
         | Some t \<Rightarrow> rbind (canonicalize t) (\<lambda>c. Inr (Var ty nm eqn src ins (outs @ [c]) cs gf neg)))
      else if nb_name child = ''non_negative'' then Inr (Var ty nm eqn src ins outs cs gf True)
      else if nb_name child = ''gf'' then
        rbind (table_from_node_builder child) (\<lambda>t. Inr (Var ty nm eqn src ins outs cs t neg))
      else if nb_name child = ''connect'' then
        rbind (ref_from_node_builder child) (\<lambda>r.
          Inr (Var ty nm eqn src ins outs (case r of None \<Rightarrow> cs | Some r \<Rightarrow> cs @ [r]) gf neg))
      else Inr (Var ty nm eqn src ins outs cs gf neg))"

text \<open>A step of the state over the elements of a list from left to right.\<close>

fun fold_run :: "('s \<Rightarrow> 'a \<Rightarrow> 's run) \<Rightarrow> 's \<Rightarrow> 'a list \<Rightarrow> 's run" where
  "fold_run f s [] = Inr s"
| "fold_run f s (x # xs) = rbind (f s x) (\<lambda>s. fold_run f s xs)"

lemma fold_run_cong [fundef_cong]:
  "s = t \<Longrightarrow> xs = ys \<Longrightarrow> (\<And>u x. x \<in> set ys \<Longrightarrow> f u x = g u x) \<Longrightarrow> fold_run f s xs = fold_run g t ys"
proof (induction xs arbitrary: s t ys)
  case (Cons x xs)
  then show ?case by (cases ys) (auto intro!: rbind_cong)
qed auto

lemma fold_run_append: "fold_run f s (xs @ ys) = rbind (fold_run f s xs) (\<lambda>s. fold_run f s ys)"
  by (induction xs arbitrary: s) (simp_all add: rbind_assoc)

definition var_from_node_builder :: "node_builder \<Rightarrow> var option run" where
  "var_from_node_builder nb =
     (case var_type_of_tag (nb_name nb) of
        None \<Rightarrow> Inr None
      | Some ty \<Rightarrow>
          rbind (case node_builder_get_attr nb ''name'' of
                   None \<Rightarrow> Inr None | Some v \<Rightarrow> rbind (canonicalize v) (\<lambda>c. Inr (Some c))) (\<lambda>nm.
          rbind (fold_run var_child (Var ty nm (child_content nb ''eqn'') None [] [] [] None False) (nb_children nb)) (\<lambda>v.
            Inr (Some v))))"

text \<open>The file of a model is the one being read; its specifications are filled in by the caller.\<close>

definition model_from_node_builder :: "node_builder \<Rightarrow> model run" where
  "model_from_node_builder nb =
     rbind (case node_builder_get_first_child nb ''variables'' of
              None \<Rightarrow> Inr []
            | Some vs \<Rightarrow>
                fold_run (\<lambda>acc c. rbind (var_from_node_builder c) (\<lambda>v. Inr (case v of None \<Rightarrow> acc | Some v \<Rightarrow> acc @ [v])))
                  [] (nb_children vs)) (\<lambda>vars.
       Inr \<lparr> m_file_specs = spec_zero, m_name = node_builder_get_attr nb ''name'', m_vars = vars, m_refcount = 1 \<rparr>)"

section \<open>The file\<close>

definition header_from :: "header \<Rightarrow> node_builder \<Rightarrow> header" where
  "header_from h nb =
     (let keep = (\<lambda>new old. case new of None \<Rightarrow> old | Some v \<Rightarrow> Some v);
          attr = (\<lambda>c a. Option.bind (node_builder_get_first_child nb c) (\<lambda>x. node_builder_get_attr x a));
          p = hd_product h
      in h\<lparr> smile_version := keep (attr ''smile'' ''version'') (smile_version h),
            smile_namespace := keep (attr ''smile'' ''namespace'') (smile_namespace h),
            hd_name := keep (child_content nb ''name'') (hd_name h),
            hd_uuid := keep (child_content nb ''uuid'') (hd_uuid h),
            hd_vendor := keep (child_content nb ''vendor'') (hd_vendor h),
            hd_product := p\<lparr> pr_name := keep (child_content nb ''product'') (pr_name p),
              pr_version := keep (attr ''product'' ''version'') (pr_version p),
              pr_lang := keep (attr ''product'' ''lang'') (pr_lang p) \<rparr> \<rparr>)"

definition number_of :: "cstr \<Rightarrow> fp" where
  "number_of s = fst (strtod s)"

definition dt_from :: "fp \<Rightarrow> node_builder \<Rightarrow> fp" where
  "dt_from old nb =
     (case node_builder_get_first_child nb ''dt'' of
        None \<Rightarrow> old
      | Some d \<Rightarrow>
          (case nb_content d of
             None \<Rightarrow> old
           | Some s \<Rightarrow>
               if node_builder_get_attr d ''reciprocal'' = Some ''true'' then d_div (d_int 1) (number_of s)
               else number_of s))"

definition specs_from :: "sim_spec \<Rightarrow> node_builder \<Rightarrow> sim_spec" where
  "specs_from sp nb =
     (let text = child_content nb;
          dt = dt_from (sp_dt sp) nb;
          keep = (\<lambda>new old. case new of None \<Rightarrow> old | Some v \<Rightarrow> Some v);
          number = (\<lambda>name old. case text name of None \<Rightarrow> old | Some s \<Rightarrow> number_of s)
      in sp\<lparr> sp_method := keep (node_builder_get_attr nb ''method'') (sp_method sp),
             time_units := keep (node_builder_get_attr nb ''time_units'') (time_units sp),
             sp_start := number ''start'' (sp_start sp),
             sp_stop := number ''stop'' (sp_stop sp),
             sp_dt := dt,
             sp_savestep := number ''save_step'' (number ''savestep'' dt) \<rparr>)"

text \<open>The models of a file share its specifications through the pointer to the file.\<close>

definition with_specs :: "sd_file \<Rightarrow> sim_spec \<Rightarrow> sd_file" where
  "with_specs f sp = f\<lparr> f_sim_specs := sp, f_models := map (\<lambda>m. m\<lparr> m_file_specs := sp \<rparr>) (f_models f) \<rparr>"

definition xmile_builder_end_child :: "sd_file \<Rightarrow> cstr \<Rightarrow> node_builder \<Rightarrow> sd_file run" where
  "xmile_builder_end_child f tag child =
     (if tag = ''header'' then Inr (f\<lparr> f_header := header_from (f_header f) child \<rparr>)
      else if tag = ''sim_specs'' then Inr (with_specs f (specs_from (f_sim_specs f) child))
      else if tag = ''model'' then
        rbind (model_from_node_builder child) (\<lambda>m.
          Inr (f\<lparr> f_models := f_models f @ [m\<lparr> m_file_specs := f_sim_specs f \<rparr>] \<rparr>))
      else Inr f)"

section \<open>The builder stack\<close>

datatype builder = Xmile | Node node_builder

datatype xml_event =
  StartElement cstr "(cstr \<times> cstr) list" | EndElement cstr | Characters cstr

record builder_stack =
  bs_stack :: "builder list"    \<comment> \<open>the root first\<close>
  bs_file :: sd_file

definition STACKLEN :: nat where
  "STACKLEN = 32"

definition builder_stack_start_element :: "builder_stack \<Rightarrow> cstr \<Rightarrow> (cstr \<times> cstr) list \<Rightarrow> builder_stack run" where
  "builder_stack_start_element bs name attrs =
     (if bs_stack bs = [] then Inr (bs\<lparr> bs_stack := [Xmile] \<rparr>)
      else if length (bs_stack bs) < STACKLEN
      then Inr (bs\<lparr> bs_stack := bs_stack bs @ [Node (node_builder_new name attrs)] \<rparr>)
      else Inl OutOfBounds)"

text \<open>An XMILE builder is only ever at the bottom of the stack, so it is no child.\<close>

definition builder_stack_end_element :: "builder_stack \<Rightarrow> cstr \<Rightarrow> builder_stack run" where
  "builder_stack_end_element bs name =
     (if bs_stack bs = [] then Inr bs
      else
        (let child = last (bs_stack bs); rest = butlast (bs_stack bs) in
         if rest = [] then Inr (bs\<lparr> bs_stack := [] \<rparr>)
         else
           (case (last rest, child) of
              (Node parent, Node nb) \<Rightarrow>
                Inr (bs\<lparr> bs_stack := butlast rest @ [Node (node_builder_end_child parent nb)] \<rparr>)
            | (Xmile, Node nb) \<Rightarrow>
                rbind (xmile_builder_end_child (bs_file bs) name nb) (\<lambda>f.
                  Inr (bs\<lparr> bs_stack := rest, bs_file := f \<rparr>))
            | (_, Xmile) \<Rightarrow> Inl OutOfBounds)))"

definition trimmed :: "cstr \<Rightarrow> cstr run" where
  "trimmed s = rbind (strtrim s (int (length s))) (\<lambda>(off, len). Inr (take (nat len) (drop off s)))"

definition builder_stack_characters :: "builder_stack \<Rightarrow> cstr \<Rightarrow> builder_stack run" where
  "builder_stack_characters bs s =
     (if bs_stack bs = [] then Inl OutOfBounds
      else
        rbind (trimmed s) (\<lambda>t.
          if t = [] then Inr bs
          else
            (case last (bs_stack bs) of
               Xmile \<Rightarrow> Inr bs
             | Node nb \<Rightarrow> Inr (bs\<lparr> bs_stack := butlast (bs_stack bs) @ [Node (node_builder_characters nb t)] \<rparr>))))"

fun handle_event :: "builder_stack \<Rightarrow> xml_event \<Rightarrow> builder_stack run" where
  "handle_event bs (StartElement n a) = builder_stack_start_element bs n a"
| "handle_event bs (EndElement n) = builder_stack_end_element bs n"
| "handle_event bs (Characters s) = builder_stack_characters bs s"

definition project_parse_file ::
  "(nat \<Rightarrow> bool) \<Rightarrow> project \<Rightarrow> xml_event list \<Rightarrow> bool \<Rightarrow> (sd_error \<times> project) run" where
  "project_parse_file alloc p events well_formed =
     rbind (fold_run handle_event \<lparr> bs_stack = [], bs_file = file_zero \<rparr> events) (\<lambda>bs.
       if well_formed then Inr (SD_ERR_NO_ERROR, snd (project_add_file alloc p (bs_file bs)))
       else Inr (SD_ERR_BAD_XML, p))"

text \<open>
  \<open>source\<close> is what the parser makes of the file, \<open>None\<close> when the file cannot be opened. The result
  is the project and the error stored through \<open>err\<close>, if any.
\<close>

definition sd_project_open ::
  "(nat \<Rightarrow> bool) \<Rightarrow> (cstr \<Rightarrow> cstr) \<Rightarrow> (xml_event list \<times> bool) option \<Rightarrow> cstr \<Rightarrow> (project option \<times> sd_error option) run" where
  "sd_project_open alloc dirname source path =
     (case source of
        None \<Rightarrow> Inr (None, Some SD_ERR_BAD_FILE)
      | Some (events, well_formed) \<Rightarrow>
          rbind (project_parse_file alloc \<lparr> dir_path = dirname path, pfiles = [], p_refcount = 1 \<rparr> events well_formed)
            (\<lambda>(err, p). Inr (if err \<noteq> SD_ERR_NO_ERROR then (None, Some SD_ERR_BAD_XML) else (Some p, None))))"

section \<open>The stack builds the tree of the document\<close>

text \<open>Documents as trees, and the callbacks for one.\<close>

datatype xml = Text cstr | Elem cstr "(cstr \<times> cstr) list" "xml list"

fun events :: "xml \<Rightarrow> xml_event list" where
  "events (Text s) = [Characters s]"
| "events (Elem n a xs) = StartElement n a # concat (map events xs) @ [EndElement n]"

fun height :: "xml \<Rightarrow> nat" where
  "height (Text s) = 0"
| "height (Elem n a xs) = Suc (fold max (map height xs) 0)"

text \<open>The node builder a piece of content makes of its parent's, by recursion over the tree.\<close>

definition add_text :: "node_builder \<Rightarrow> cstr \<Rightarrow> node_builder run" where
  "add_text nb s = rbind (trimmed s) (\<lambda>t. Inr (if t = [] then nb else node_builder_characters nb t))"

fun add_item :: "node_builder \<Rightarrow> xml \<Rightarrow> node_builder run" where
  "add_item nb (Text s) = add_text nb s"
| "add_item nb (Elem n a xs) =
     rbind (fold_run add_item (node_builder_new n a) xs) (\<lambda>c. Inr (node_builder_end_child nb c))"

text \<open>What a child of the document element makes of the file.\<close>

fun file_item :: "sd_file \<Rightarrow> xml \<Rightarrow> sd_file run" where
  "file_item f (Text s) = rbind (trimmed s) (\<lambda>_. Inr f)"
| "file_item f (Elem n a xs) =
     rbind (fold_run add_item (node_builder_new n a) xs) (\<lambda>c. xmile_builder_end_child f n c)"

lemma fold_max_le: "fold max xs m \<le> (k::nat) \<longleftrightarrow> m \<le> k \<and> (\<forall>x \<in> set xs. x \<le> k)"
  by (induction xs arbitrary: m) auto

lemma fold_run_map_events:
  "(\<And>x u. x \<in> set xs \<Longrightarrow> P u \<Longrightarrow> fold_run handle_event (r u) (events x) = rbind (step u x) (\<lambda>v. Inr (r v))) \<Longrightarrow>
   (\<And>x u v. P u \<Longrightarrow> step u x = Inr v \<Longrightarrow> P v) \<Longrightarrow> P u \<Longrightarrow>
   fold_run handle_event (r u) (concat (map events xs)) = rbind (fold_run step u xs) (\<lambda>v. Inr (r v))"
proof (induction xs arbitrary: u)
  case (Cons x xs)
  have IH: "step u x = Inr v \<Longrightarrow> fold_run handle_event (r v) (concat (map events xs)) = rbind (fold_run step v xs) (\<lambda>v. Inr (r v))" for v
    using Cons.IH [of v] Cons.prems by auto
  show ?case
    using Cons.prems(1) [of x u] Cons.prems(3) IH by (cases "step u x") (simp_all add: fold_run_append)
qed simp

lemma node_events:
  "height x + Suc (length S) \<le> STACKLEN \<Longrightarrow>
   fold_run handle_event (bs\<lparr> bs_stack := S @ [Node nb] \<rparr>) (events x) =
     rbind (add_item nb x) (\<lambda>nb. Inr (bs\<lparr> bs_stack := S @ [Node nb] \<rparr>))"
proof (induction nb x arbitrary: S rule: add_item.induct)
  case (1 nb s)
  show ?case by (cases "trimmed s") (simp_all add: builder_stack_characters_def add_text_def)
next
  case (2 nb n a xs)
  let ?S = "S @ [Node nb]"
  have h: "height x + Suc (length ?S) \<le> STACKLEN" if "x \<in> set xs" for x
    using 2(2) that fold_max_le [of "map height xs" 0 "STACKLEN - Suc (Suc (length S))"] by auto
  have kids: "fold_run handle_event (bs\<lparr> bs_stack := ?S @ [Node u] \<rparr>) (concat (map events xs)) =
      rbind (fold_run add_item u xs) (\<lambda>v. Inr (bs\<lparr> bs_stack := ?S @ [Node v] \<rparr>))" for u
  proof (rule fold_run_map_events [where P = "\<lambda>_. True"])
    fix x u assume x: "x \<in> set xs"
    show "fold_run handle_event (bs\<lparr> bs_stack := ?S @ [Node u] \<rparr>) (events x) =
        rbind (add_item u x) (\<lambda>v. Inr (bs\<lparr> bs_stack := ?S @ [Node v] \<rparr>))"
      by (rule 2(1) [OF x h [OF x]])
  qed simp_all
  show ?case
  proof (cases "fold_run add_item (node_builder_new n a) xs")
    case (Inl e)
    with kids [of "node_builder_new n a"] 2(2) show ?thesis
      by (simp add: builder_stack_start_element_def fold_run_append)
  next
    case (Inr c)
    have "butlast (S @ [Node nb, Node c]) = S @ [Node nb]" by (simp add: butlast_append)
    with Inr kids [of "node_builder_new n a"] 2(2) show ?thesis
      by (simp add: builder_stack_start_element_def builder_stack_end_element_def fold_run_append Let_def)
  qed
qed

lemma file_events:
  assumes "height x + 1 \<le> STACKLEN"
  shows "fold_run handle_event \<lparr> bs_stack = [Xmile], bs_file = f \<rparr> (events x) =
     rbind (file_item f x) (\<lambda>f. Inr \<lparr> bs_stack = [Xmile], bs_file = f \<rparr>)"
proof (cases x)
  case (Text s)
  then show ?thesis by (cases "trimmed s") (simp_all add: builder_stack_characters_def)
next
  case (Elem n a xs)
  have h: "height y + Suc (length [Xmile]) \<le> STACKLEN" if "y \<in> set xs" for y
    using assms Elem that fold_max_le [of "map height xs" 0 "STACKLEN - 2"] by auto
  have kids: "fold_run handle_event (\<lparr> bs_stack = [Xmile], bs_file = f \<rparr>\<lparr> bs_stack := [Xmile] @ [Node u] \<rparr>) (concat (map events xs)) =
      rbind (fold_run add_item u xs) (\<lambda>v. Inr (\<lparr> bs_stack = [Xmile], bs_file = f \<rparr>\<lparr> bs_stack := [Xmile] @ [Node v] \<rparr>))" for u
  proof (rule fold_run_map_events [where P = "\<lambda>_. True"])
    fix y u assume y: "y \<in> set xs"
    show "fold_run handle_event (\<lparr> bs_stack = [Xmile], bs_file = f \<rparr>\<lparr> bs_stack := [Xmile] @ [Node u] \<rparr>) (events y) =
        rbind (add_item u y) (\<lambda>v. Inr (\<lparr> bs_stack = [Xmile], bs_file = f \<rparr>\<lparr> bs_stack := [Xmile] @ [Node v] \<rparr>))"
      by (rule node_events [OF h [OF y]])
  qed simp_all
  have s: "length [Xmile] < STACKLEN" by (simp add: STACKLEN_def)
  show ?thesis
  proof (cases "fold_run add_item (node_builder_new n a) xs")
    case (Inl e)
    with kids [of "node_builder_new n a"] Elem s show ?thesis
      by (simp add: builder_stack_start_element_def fold_run_append)
  next
    case (Inr c)
    with kids [of "node_builder_new n a"] Elem s show ?thesis
      by (cases "xmile_builder_end_child f n c")
        (simp_all add: builder_stack_start_element_def builder_stack_end_element_def fold_run_append Let_def)
  qed
qed

text \<open>
  The stack has room for 32 builders and its bound is not checked: the start of an element
  nested deeper is written past its end.
\<close>

theorem project_parse_file_overflows:
  "project_parse_file alloc p (replicate (STACKLEN + 1) (StartElement n a) @ rest) well_formed = Inl OutOfBounds"
proof -
  have push: "bs_stack bs \<noteq> [] \<Longrightarrow> length (bs_stack bs) + k = STACKLEN + 1 \<Longrightarrow> 0 < k \<Longrightarrow>
      fold_run handle_event bs (replicate k (StartElement n a) @ rest) = Inl OutOfBounds" for bs k
  proof (induction k arbitrary: bs)
    case (Suc k)
    show ?case
    proof (cases "length (bs_stack bs) < STACKLEN")
      case True
      with Suc.IH [of "bs\<lparr> bs_stack := bs_stack bs @ [Node (node_builder_new n a)] \<rparr>"] Suc.prems show ?thesis
        by (simp add: builder_stack_start_element_def)
    next
      case False
      with Suc.prems show ?thesis by (simp add: builder_stack_start_element_def)
    qed
  qed simp
  have "fold_run handle_event \<lparr> bs_stack = [], bs_file = file_zero \<rparr> (replicate (STACKLEN + 1) (StartElement n a) @ rest) =
      fold_run handle_event \<lparr> bs_stack = [Xmile], bs_file = file_zero \<rparr> (replicate STACKLEN (StartElement n a) @ rest)"
    by (simp add: builder_stack_start_element_def)
  also have "\<dots> = Inl OutOfBounds" by (rule push) (simp_all add: STACKLEN_def)
  finally show ?thesis by (simp add: project_parse_file_def)
qed

section \<open>Reading the points of a table\<close>

lemmas two_Suc = numeral_2_eq_2 [symmetric]

text \<open>No number contains a comma: what \<open>strtod\<close> leaves follows a part without commas.\<close>

definition comma_free :: "cstr \<Rightarrow> cstr \<Rightarrow> bool" where
  "comma_free s t \<longleftrightarrow> (\<exists>pre. s = pre @ t \<and> CHR '','' \<notin> set pre)"

lemma comma_free_refl [simp]: "comma_free s s"
  by (simp add: comma_free_def)

lemma comma_free_Cons: "comma_free s t \<Longrightarrow> c \<noteq> CHR '','' \<Longrightarrow> comma_free (c # s) t"
  unfolding comma_free_def by (metis append_Cons set_ConsD)

lemma comma_free_trans: "comma_free s t \<Longrightarrow> comma_free t u \<Longrightarrow> comma_free s u"
  unfolding comma_free_def by (metis Un_iff append.assoc set_append)

lemma comma_free_scan_digits: "scan_digits b s = (ds, t) \<Longrightarrow> b \<le> 36 \<Longrightarrow> comma_free s t"
proof (induction b s arbitrary: ds t rule: scan_digits.induct)
  case (2 b c s)
  have "digit_of b (CHR '','') = None" using 2(3) by simp
  with 2 show ?case by (auto simp del: digit_of.simps split: option.splits prod.splits intro!: comma_free_Cons)
qed simp

lemma comma_free_sign: "scan_sign s = (b, t) \<Longrightarrow> comma_free s t"
  by (cases s) (auto split: if_splits intro!: comma_free_Cons)

lemma comma_free_blank: "comma_free s (dropWhile is_blank s)"
  by (induction s) (auto simp: is_blank_def intro!: comma_free_Cons)

lemma comma_letter: "is_letter w (CHR '','') \<Longrightarrow> w = CHR '','' \<or> w = CHR ''L''"
proof -
  assume "is_letter w (CHR '','')"
  then consider "CHR '','' = w" | "of_char w = (of_char (CHR ''L'') :: nat)" by (auto simp: is_letter_def)
  then show ?thesis by cases (simp_all only: of_char_eq_iff simp_thms)
qed

lemma comma_free_word: "has_word w s \<Longrightarrow> CHR '','' \<notin> set w \<Longrightarrow> CHR ''L'' \<notin> set w \<Longrightarrow> comma_free s (drop (length w) s)"
proof (induction w s rule: has_word.induct)
  case (3 w ws c s)
  then have "c \<noteq> CHR '',''" using comma_letter [of w] by auto
  with 3 show ?case by (auto intro!: comma_free_Cons)
qed simp_all

lemma comma_free_exponent:
  assumes "scan_exponent mark s = (e, t)" "mark \<noteq> CHR '',''" "mark \<noteq> CHR ''L''"
  shows "comma_free s t"
proof (cases s)
  case (Cons c u)
  obtain neg v where v: "scan_sign u = (neg, v)" by fastforce
  obtain ds r where r: "scan_digits 10 v = (ds, r)" by fastforce
  have "comma_free s r" if "is_letter mark c"
  proof -
    have "c \<noteq> CHR '',''" using that comma_letter [of mark] assms(2,3) by auto
    with comma_free_trans [OF comma_free_sign [OF v] comma_free_scan_digits [OF r]] show ?thesis
      unfolding Cons by (intro comma_free_Cons) simp_all
  qed
  with assms(1) Cons v r show ?thesis by (auto simp: scan_exponent_def split: if_split_asm)
qed (use assms(1) in \<open>simp add: scan_exponent_def\<close>)

text \<open>The digits, a point with more digits, and the exponent.\<close>

lemma comma_free_fraction:
  assumes "scan_digits b s = (ip, t)" "b \<le> 36"
    "(case t of c # t' \<Rightarrow> if c = CHR ''.'' then scan_digits b t' else ([], t) | [] \<Rightarrow> ([], t)) = (fr, u)"
  shows "comma_free s u"
proof -
  have "comma_free t u"
    using assms(2,3) by (auto split: list.splits if_split_asm intro!: comma_free_Cons dest: comma_free_scan_digits)
  with comma_free_scan_digits [OF assms(1,2)] show ?thesis by (rule comma_free_trans)
qed

lemma comma_free_decimal: "scan_decimal neg s = Some (v, r, e) \<Longrightarrow> comma_free s r"
  unfolding scan_decimal_def Let_def
  by (auto split: prod.splits if_split_asm
      intro: comma_free_trans [OF comma_free_fraction [of 10] comma_free_exponent [of "CHR ''e''"]])

lemma comma_free_hex: "scan_hex neg s = Some (v, r, e) \<Longrightarrow> comma_free s r"
  unfolding scan_hex_def Let_def
  by (auto split: prod.splits if_split_asm
      intro: comma_free_trans [OF comma_free_fraction [of 16] comma_free_exponent [of "CHR ''p''"]])

lemma comma_free_nan_tail: "comma_free s t \<Longrightarrow> comma_free s (nan_tail s t)"
proof (induction t)
  case (Cons c t)
  have step: "comma_free s t" if "c \<noteq> CHR '',''"
    using Cons.prems that comma_free_trans [of s "c # t" t] comma_free_Cons [of t t c] by simp
  have "digit_of 36 (CHR '','') = None" by simp
  then show ?case using Cons.IH step by (cases "c = CHR '',''") (auto simp del: digit_of.simps)
qed simp

lemma comma_free_number:
  assumes "scan_number neg s = Some (v, r, e)"
  shows "comma_free s r"
proof -
  have w: "comma_free s (drop 8 s)" if "has_word ''infinity'' s" using comma_free_word [OF that] by (simp add: numeral_eq_Suc)
  have i: "comma_free s (drop 3 s)" if "has_word ''inf'' s" using comma_free_word [OF that] by (simp add: numeral_eq_Suc)
  have n: "comma_free s (drop 3 s)" if "has_word ''nan'' s" using comma_free_word [OF that] by (simp add: numeral_eq_Suc)
  have x: "comma_free s (drop 2 s)" if "has_word ''0x'' s" using comma_free_word [OF that] by (simp add: numeral_eq_Suc)
  have t: "comma_free s (case drop 3 s of c # t \<Rightarrow> if c = CHR ''('' then nan_tail (drop 3 s) t else drop 3 s | [] \<Rightarrow> [])"
    if "has_word ''nan'' s"
  proof (cases "drop 3 s")
    case Nil
    with n [OF that] show ?thesis by simp
  next
    case (Cons c u)
    have "comma_free (drop 3 s) (nan_tail (drop 3 s) u)" if "c = CHR ''(''"
      using that Cons by (intro comma_free_nan_tail) (simp add: comma_free_Cons)
    with n [OF that] Cons show ?thesis by (auto intro: comma_free_trans)
  qed
  consider "has_word ''infinity'' s" "r = drop 8 s" | "has_word ''inf'' s" "r = drop 3 s"
    | "has_word ''nan'' s" "r = (case drop 3 s of c # t \<Rightarrow> if c = CHR ''('' then nan_tail (drop 3 s) t else drop 3 s | [] \<Rightarrow> [])"
    | "has_word ''0x'' s" "scan_hex neg (drop 2 s) = Some (v, r, e)" | "scan_decimal neg s = Some (v, r, e)"
    using assms by (auto simp: scan_number_def simp del: has_word.simps split: if_split_asm)
  then show ?thesis
  proof cases
    case 4
    with x comma_free_hex comma_free_trans show ?thesis by blast
  qed (use w i t comma_free_decimal in \<open>simp_all del: has_word.simps\<close>)
qed

lemma comma_free_strtod:
  assumes "strtod s = (v, r, e)" shows "comma_free s r"
proof -
  obtain neg t where t: "scan_sign (dropWhile is_blank s) = (neg, t)" by fastforce
  show ?thesis
  proof (cases "scan_number neg t")
    case None
    with assms t show ?thesis by (simp add: strtod_def)
  next
    case (Some x)
    with assms t have "scan_number neg t = Some (v, r, e)" by (simp add: strtod_def)
    from comma_free_trans [OF comma_free_trans [OF comma_free_blank comma_free_sign [OF t]] comma_free_number [OF this]]
    show ?thesis .
  qed
qed

text \<open>
  The points of a graphical function are read inside their text: for a list of the \<open>y\<close> values
  the loop, which runs once more than there are commas, never moves past the end of the text, and
  delivers that many values or reports an error.
\<close>

theorem read_points_safe:
  "\<exists>r. read_points (points_count s) (Some s) = Inr r \<and>
     (case r of None \<Rightarrow> True | Some ys \<Rightarrow> length ys = points_count s)"
proof -
  have *: "length (filter ((=) (CHR '','')) s) = n \<Longrightarrow>
      \<exists>r. read_points (Suc n) (Some s) = Inr r \<and> (case r of None \<Rightarrow> True | Some ys \<Rightarrow> length ys = Suc n)" for s n
  proof (induction n arbitrary: s)
    case 0
    obtain v r e where x: "strtod s = (v, r, e)" by (metis prod_cases3)
    then show ?case by auto
  next
    case (Suc n)
    obtain v r e where x: "strtod s = (v, r, e)" by (metis prod_cases3)
    from comma_free_strtod [OF this] obtain pre where pre: "s = pre @ r" "CHR '','' \<notin> set pre"
      by (auto simp: comma_free_def)
    then have f: "filter ((=) (CHR '','')) s = filter ((=) (CHR '','')) r" by (auto simp: filter_empty_conv)
    show ?case
    proof (cases "e \<or> (r \<noteq> [] \<and> hd r \<noteq> CHR '','')")
      case True
      with x show ?thesis by simp
    next
      case False
      moreover have "r \<noteq> []" using f Suc.prems by auto
      ultimately have r: "\<not> e" "r = CHR '','' # tl r" by (cases r; simp)+
      obtain t where t: "r = CHR '','' # t" using r(2) by blast
      then have "length (filter ((=) (CHR '','')) (tl r)) = n" using f Suc.prems by simp
      from Suc.IH [OF this] obtain q where q: "read_points (Suc n) (Some (tl r)) = Inr q"
        "case q of None \<Rightarrow> True | Some ys \<Rightarrow> length ys = Suc n" by blast
      have "read_points (Suc (Suc n)) (Some s) = Inr (map_option ((#) v) q)"
        using x False q(1) \<open>r \<noteq> []\<close> by (simp del: read_points.simps add: read_points.simps(2) [of "Suc n"])
      with q(2) show ?thesis by (cases q) auto
    qed
  qed
  have n: "points_count s = Suc (length (filter ((=) (CHR '','')) s))" by (simp add: points_count_def)
  show ?thesis unfolding n by (rule * [OF refl])
qed

text \<open>
  The number of points is taken from the \<open>y\<close> values alone: with fewer \<open>x\<close> values the loop
  reads past the end of their text.
\<close>

theorem table_from_node_builder_short_xpts:
  "table_from_node_builder (NodeBuilder ''gf'' None []
     [NodeBuilder ''ypts'' (Some ''1,2'') [] [], NodeBuilder ''xpts'' (Some ''1'') [] []]) = Inl OutOfBounds"
proof -
  have one: "strtod ''1'' = (d_int 1, [], False)" "strtod ''2'' = (d_int 2, [], False)"
    "strtod ''1,2'' = (d_int 1, '',2'', False)"
    by (simp_all add: strtod_eval two_Suc)
  show ?thesis
    by (simp add: table_from_node_builder_def child_content_def node_builder_get_first_child_def points_count_def one)
qed

end
