(* ===== verification/Example.thy ===== *)
theory Example
  imports Sim
begin

text \<open>
  A small model, run by the simplifier: a stock \<open>s\<close> that starts at 1, with the inflow \<open>f = s\<close>,
  which the file lists first; two steps of length 1, so the stock doubles once. The theorems on
  simulations are applied to it.
\<close>

lemma parse_text:
  assumes "ascii_ok s" "printable 0 n" "a_tokens (map tolowerrune (ascii_runes s)) = show_node n"
  shows "avar_eqn_parse (Some s) = Inr (SD_ERR_NO_ERROR, n)"
  using parse_show [OF assms(2)] parse_fuel_enough [of "ascii_runes s"]
    eqn_parse_refines [OF start_ok_ascii [OF assms(1)]] assms
  by (simp add: utf8_ascii eqn_result_def del: ascii_runes_simps)

definition example_spec :: "fp \<Rightarrow> sim_spec" where
  "example_spec sv = spec_zero\<lparr> sp_stop := d_int 1, sp_dt := d_int 1, sp_savestep := sv \<rparr>"

definition flow_f :: var where
  "flow_f = Var VAR_FLOW (Some ''f'') (Some ''s'') None [] [] [] None False"

definition stock_s :: var where
  "stock_s = Var VAR_STOCK (Some ''s'') (Some ''1'') None [''f''] [] [] None False"

definition example_model :: "fp \<Rightarrow> model" where
  "example_model sv = \<lparr> m_file_specs = (example_spec sv), m_name = None, m_vars = [flow_f, stock_s], m_refcount = 1 \<rparr>"

definition example_project :: "fp \<Rightarrow> project" where
  "example_project sv = \<lparr> dir_path = ''.'',
     pfiles = [file_zero\<lparr> f_sim_specs := (example_spec sv), f_models := [(example_model sv)] \<rparr>], p_refcount = 1 \<rparr>"

lemma canonicalize_ascii:
  "ascii_ok s \<Longrightarrow> \<not> quoted s \<Longrightarrow> canonicalize s = Inr (canon (map ascii_lower s))"
  using canonicalize_plain [of "ascii_runes s"] text_ok_ascii ascii_no_dotted
  by (simp only: utf8_ascii lowered_ascii simp_thms)

lemmas canon_eval = canonicalize_ascii quoted_def ascii_lower_def canon_def underscore_def replace_all.simps

lemma example_parse:
  "avar_eqn_parse (Some ''s'') = Inr (SD_ERR_NO_ERROR, Ident ''s'' None)"
  "avar_eqn_parse (Some ''1'') = Inr (SD_ERR_NO_ERROR, FloatLit ''1'' d_zero)"
  by (rule parse_text; simp add: tolowerrune_ascii canon_eval; simp add: lex_eval)+

definition example_heap0 :: "fp \<Rightarrow> heap" where
  "example_heap0 sv = [avar_zero\<lparr> av_model := Some (sd_model_ref (example_model sv)), avars := [1, 2, 3] \<rparr>,
     avar_zero\<lparr> av_v := Some time_var, av_parent := Some 0 \<rparr>,
     avar_zero\<lparr> av_v := Some flow_f, av_parent := Some 0, av_node := Ident ''s'' None \<rparr>,
     avar_zero\<lparr> av_v := Some stock_s, av_parent := Some 0, av_node := FloatLit ''1'' d_zero, is_const := True \<rparr>]"

lemma example_module:
  "module_new (module_fuel (example_project sv)) (example_project sv) [] None (sd_model_ref (example_model sv)) None = Inr ((example_heap0 sv), Some 0)"
  by (simp add: module_fuel_def module_body_def member_new_def avar_new_def hupd_def hread_def
      example_project_def example_model_def sd_model_ref_def flow_f_def stock_s_def example_parse file_zero_def
      example_heap0_def avar_zero_def)

lemma two: "Suc (Suc 0) = 2"
  by simp

lemma example_atof: "atof ''1'' = d_int 1"
  by (simp add: strtod_eval two)

definition example_heap1 :: "fp \<Rightarrow> heap" where
  "example_heap1 sv = [(example_heap0 sv) ! 0, (example_heap0 sv) ! 1,
     ((example_heap0 sv) ! 2)\<lparr> av_node := Ident ''s'' (Some 3), direct_deps := [3] \<rparr>,
     ((example_heap0 sv) ! 3)\<lparr> av_node := FloatLit ''1'' (d_int 1), av_inflows := [2] \<rparr>]"

lemma example_compile:
  "avar_init (module_compile (depth_fuel (example_heap0 sv))) (example_heap0 sv) 0 None = Inr (SD_ERR_NO_ERROR, (example_heap1 sv))"
  by (simp add: depth_fuel_def avar_init_def module_compile_body_def avar_init_var_def hread_def hupd_def var_of_def
      example_heap0_def example_heap1_def time_var_def flow_f_def stock_s_def avar_zero_def node_walk_def
      resolve_def resolve_in.simps skip_dot_def str_eq_def example_atof)

definition example_heap2 :: "fp \<Rightarrow> heap" where
  "example_heap2 sv = [((example_heap1 sv) ! 0)\<lparr> initials := [3, 2], flows := [2], stocks := [3] \<rparr>, (example_heap1 sv) ! 1,
     ((example_heap1 sv) ! 2)\<lparr> offset := 1, visited := True \<rparr>, ((example_heap1 sv) ! 3)\<lparr> offset := 2, visited := True \<rparr>]"

definition example_heap1o :: "fp \<Rightarrow> heap" where
  "example_heap1o sv = [(example_heap1 sv) ! 0, (example_heap1 sv) ! 1, ((example_heap1 sv) ! 2)\<lparr> offset := 1 \<rparr>,
     ((example_heap1 sv) ! 3)\<lparr> offset := 2 \<rparr>]"

lemma example_offsets:
  "module_assign_offsets (depth_fuel (example_heap1 sv)) 0 0 (example_heap1 sv) = Inr (3, (example_heap1o sv))"
  by (simp add: depth_fuel_def hread_def hupd_def
      example_heap0_def example_heap1_def example_heap1o_def time_var_def flow_f_def stock_s_def avar_zero_def)

lemma example_sort:
  "module_sort_runlists (depth_fuel (example_heap1o sv)) (example_heap1o sv) 0 = Inr (SD_ERR_NO_ERROR, (example_heap2 sv))"
  by (simp add: depth_fuel_def hread_def hupd_def module_sort_body_def add_to_runlists_body_def var_of_def runlist_append_def
      example_heap0_def example_heap1_def example_heap1o_def example_heap2_def time_var_def flow_f_def stock_s_def avar_zero_def)

lemma example_get: "sd_project_get_model (Some (example_project sv)) None = Some (sd_model_ref (example_model sv))"
  by (simp add: sd_project_get_model_def example_project_def example_model_def)

lemma example_build: "sim_build (Some (example_project sv)) None = Inr (Some ((example_heap2 sv), 0, 3))"
  by (simp add: sim_build_def example_get example_module example_compile example_offsets example_sort del: avar_init_def)

definition example_sim :: sim where
  "example_sim = \<lparr> s_heap = (example_heap2 (d_int 1)), s_module = 0, s_spec = (example_spec (d_int 1)),
     slab = [d_zero, d_int 1, d_int 1, d_zero, d_zero, d_zero, d_zero, d_zero, d_zero],
     curr = 0, nexti = None, nvars = 3, nsaves = 2, nsteps = 2, step = 0, save_step = 0, save_every = 1 \<rparr>"

lemma example_numbers:
  "fp_to_size (d_add (d_div (d_sub (d_int 1) d_zero) (d_int 1)) (d_int 1)) = Inr 2"
  "fp_to_size (d_add (d_div (d_int 1) (d_int 1)) d_half) = Inr 1"
  "fp_to_size (d_add (d_div (d_int 2) (d_int 1)) d_half) = Inr 2"
  by (simp_all add: fp_eval d_half_def two)

lemmas example_defs = example_heap0_def example_heap1_def example_heap2_def time_var_def flow_f_def stock_s_def
  avar_zero_def sd_model_ref_def example_model_def

lemma example_reset:
  "sd_sim_reset pw (\<lambda>_. True) (sim_zero\<lparr> s_heap := (example_heap2 (d_int 1)), s_module := 0, nvars := 3 \<rparr>) =
     Inr (SD_ERR_NO_ERROR, example_sim)"
  by (simp add: sd_sim_reset_def reset_counts_def example_spec_def spec_zero_def example_numbers sim_zero_def
      example_sim_def hread_def example_defs slab_write_def slab_read_def aread_def awrite_def numeral_eq_Suc TIME_def
      depth_fuel_def calc_var_def apply_gf_def var_of_def slot_def
      del: fp_add.simps fp_div.simps)

lemma example_new:
  "sd_sim_new pw (\<lambda>_. True) (Some (example_project (d_int 1))) None = Inr (Some example_sim)"
  by (simp add: sd_sim_new_def example_build example_reset)

definition example_end :: sim where
  "example_end = example_sim\<lparr> slab := [d_zero, d_int 1, d_int 1, d_int 1, d_int 2, d_int 2, d_zero, d_zero, d_int 4],
     curr := 3, nexti := Some 6, step := 1, save_step := 1 \<rparr>"

lemma example_arith:
  "fp_le d_zero (d_add (d_int 1) (d_int 1))" "fp_le (d_int 1) (d_add (d_int 1) (d_int 1))"
  "d_add (d_int 1) (d_mul (d_add d_zero (d_int 1)) (d_int 1)) = d_int 2"
  "d_add (d_int 2) (d_mul (d_add d_zero (d_int 2)) (d_int 1)) = d_int 4"
  "d_add d_zero (d_mul (d_int 1) (d_int 1)) = d_int 1"
  by (simp_all add: fp_eval two)

lemma example_run:
  "sd_sim_run_to_end pw (Some example_sim) = Inr (0, Some example_end)"
  by (simp add: sd_sim_run_to_end_def sd_sim_run_to_def run_step_def sim_curr_def sim_next_def
      example_spec_def spec_zero_def example_arith
      example_sim_def example_end_def hread_def example_defs slab_write_def slab_read_def aread_def awrite_def numeral_eq_Suc TIME_def
      depth_fuel_def calc_var_def apply_gf_def var_of_def slot_def calc_stock_var_def euler_stock_def next_time_def copy_row_def
      del: fp_add.simps fp_div.simps fp_mul.simps)

text \<open>The same model when every second row is to be saved.\<close>

definition late_sim :: sim where
  "late_sim = \<lparr> s_heap = (example_heap2 (d_int 2)), s_module = 0, s_spec = (example_spec (d_int 2)),
     slab = [d_zero, d_int 1, d_int 1, d_zero, d_zero, d_zero],
     curr = 0, nexti = None, nvars = 3, nsaves = 1, nsteps = 2, step = 0, save_step = 0, save_every = 2 \<rparr>"

lemma late_reset:
  "sd_sim_reset pw (\<lambda>_. True) (sim_zero\<lparr> s_heap := (example_heap2 (d_int 2)), s_module := 0, nvars := 3 \<rparr>) =
     Inr (SD_ERR_NO_ERROR, late_sim)"
  by (simp add: sd_sim_reset_def reset_counts_def example_spec_def spec_zero_def example_numbers sim_zero_def
      late_sim_def hread_def example_defs slab_write_def slab_read_def aread_def awrite_def numeral_eq_Suc TIME_def
      depth_fuel_def calc_var_def apply_gf_def var_of_def slot_def
      del: fp_add.simps fp_div.simps)

lemma late_new:
  "sd_sim_new pw (\<lambda>_. True) (Some (example_project (d_int 2))) None = Inr (Some late_sim)"
  by (simp add: sd_sim_new_def example_build late_reset)

end
