(* ===== verification/Run.thy ===== *)
theory Run
  imports Build Example
begin

text \<open>
  What a simulation of a model without submodules computes. The initial row solves the equations
  of the model; \<open>sd_sim_run_to_end\<close> saves the rows of the Euler trajectory that starts there,
  every \<open>save_every\<close> steps, and stays inside the slab when the last step is a saved one. When it
  is not, the loop writes one row behind the slab.
\<close>

section \<open>Reset\<close>

text \<open>The models the theorems are about: the root model found holds no modules and connections.\<close>

definition plain_root :: "project \<Rightarrow> cstr option \<Rightarrow> bool" where
  "plain_root p nm =
     (case sd_project_get_model (Some p) nm of None \<Rightarrow> False | Some mo \<Rightarrow> list_all plain (m_vars mo))"

lemma plain_rootD:
  "plain_root p nm \<Longrightarrow> \<exists>mo. sd_project_get_model (Some p) nm = Some mo \<and> (\<forall>v \<in> set (m_vars mo). plain v)"
  by (auto simp: plain_root_def list_all_iff split: option.splits)

lemma reset_counts_fields:
  "reset_counts s = Inr t \<Longrightarrow> s_heap t = s_heap s \<and> s_module t = s_module s \<and> s_spec t = s_spec s \<and>
     nvars t = nvars s \<and> step t = 0 \<and> save_step t = 0 \<and> 0 < save_every t \<and>
     nsaves t = nsteps t div save_every t + (if nsteps t mod save_every t \<noteq> 0 then 1 else 0)"
  by (auto simp: reset_counts_def Let_def rbind_eq_Inr)

text \<open>The state of a fresh simulation: the slab has room for one row more than is saved.\<close>

definition fresh_sim :: "sim \<Rightarrow> bool" where
  "fresh_sim s \<longleftrightarrow> step s = 0 \<and> save_step s = 0 \<and> 0 < save_every s \<and>
     nsaves s = nsteps s div save_every s + (if nsteps s mod save_every s \<noteq> 0 then 1 else 0) \<and>
     curr s = 0 \<and> length (slab s) = nvars s * (nsaves s + 1)"

lemma ready_time:
  assumes "run_ready h n dn" "set l \<subseteq> members h" shows "0 \<notin> writes h l"
proof
  assume "0 \<in> writes h l"
  then obtain a where a: "a \<in> set l" "av_node (h ! a) \<noteq> Null" "offset (h ! a) = 0" by (auto simp: writes_def)
  have "a \<in> set (avars (h ! 0))" "wired h 0" using a(1) assms by (auto simp: run_ready_def)
  then have "if av_node (h ! a) = Null then idle h a \<and> direct_deps (h ! a) = [] else offset (h ! a) \<noteq> 0"
    by (simp add: wired_def)
  with a show False by simp
qed

lemma sim_reset_row:
  assumes "sd_sim_reset pw alloc s0 = Inr (SD_ERR_NO_ERROR, s)" "s_module s0 = 0"
    "run_ready (s_heap s0) (nvars s0) dn"
  shows "s_heap s = s_heap s0 \<and> s_module s = 0 \<and> nvars s = nvars s0 \<and> fresh_sim s \<and>
    slab_read s (curr s + TIME) = Inr (sp_start (s_spec s)) \<and>
    (\<forall>a \<in> set dn. av_node (s_heap s ! a) \<noteq> Null \<longrightarrow> solves pw s a)"
proof -
  let ?h = "s_heap s0"
  have n: "0 < length ?h" "0 < nvars s0" using assms(3) by (auto simp: run_ready_def)
  obtain sp s1 s2 where s1: "reset_counts (s0\<lparr> s_spec := sp \<rparr>) = Inr s1"
    and s2: "slab_write (s1\<lparr> slab := replicate (nvars s1 * (nsaves s1 + 1)) d_zero, curr := 0, nexti := None \<rparr>) (0 + TIME) (sp_start sp) = Inr s2"
    and c: "calc (depth_fuel (s_heap s2)) pw (curr s2) True (initials (?h ! 0)) s2 = Inr s"
    using assms(1,2) n
    by (auto simp: sd_sim_reset_def hread_eq rbind_eq_Inr Let_def dest: reset_counts_fields
        split: option.splits if_split_asm)
  note f = reset_counts_fields [OF s1]
  have f2: "s_heap s2 = ?h" "s_module s2 = 0" "nvars s2 = nvars s0" "fresh_sim s2"
    "slab_read s2 0 = Inr (sp_start (s_spec s2))" "curr s2 = 0" "s_spec s2 = sp"
    using s2 f assms(2)
    by (auto simp: slab_write_def rbind_eq_Inr awrite_Inr fresh_sim_def slab_read_def aread_def TIME_def)
  have dn: "initials (?h ! 0) = dn" using assms(3) by (simp add: run_ready_def)
  have r: "calc_list (calc (length ?h) pw 0 True) pw (curr s2) True dn s2 = Inr s"
    using c dn f2 by (simp add: depth_fuel_def)
  have comp: "computable (s_heap s2) dn"
    using ordered_computable [of ?h 0 "[]" dn "\<lambda>_. True"] assms(3) f2 by (simp add: run_ready_def)
  have e: "calc (length ?h) pw 0 True [] t = Inr t" for t
    using n by (cases "length ?h") auto
  from calc_list_solves [OF comp r e] have fr: "frame (curr s2) (writes ?h dn) s2 s"
    and so: "\<forall>a \<in> set dn. av_node (?h ! a) \<noteq> Null \<longrightarrow> solves pw s a" using f2 by simp_all
  note ff = frame_fields [OF fr]
  have "0 \<notin> writes ?h dn" using ready_time [OF assms(3)] assms(3) by (simp add: run_ready_def)
  then have "slab_read s (curr s + 0) = slab_read s2 (curr s2 + 0)"
    by (intro same_at_read [OF frame_same [OF fr, of "{0}"]]) auto
  with f2 ff so show ?thesis by (simp add: fresh_sim_def TIME_def)
qed

section \<open>Rows\<close>

text \<open>A row on its own, as the state whose only row it is.\<close>

definition row_sim :: "sim \<Rightarrow> fp list \<Rightarrow> sim" where
  "row_sim s r = s\<lparr> slab := r, curr := 0 \<rparr>"

definition row_of :: "sim \<Rightarrow> nat \<Rightarrow> fp list" where
  "row_of s base = take (nvars s) (drop base (slab s))"

lemma row_sim_fields [simp]:
  "s_heap (row_sim s r) = s_heap s" "s_spec (row_sim s r) = s_spec s" "curr (row_sim s r) = 0"
  "slab (row_sim s r) = r"
  by (simp_all add: row_sim_def)

lemma nth_row_of: "base + nvars s \<le> length (slab s) \<Longrightarrow> i < nvars s \<Longrightarrow> row_of s base ! i = slab s ! (base + i)"
  by (simp add: row_of_def)

lemma length_row_of: "base + nvars s \<le> length (slab s) \<Longrightarrow> length (row_of s base) = nvars s"
  by (simp add: row_of_def)

lemma row_view:
  assumes "s_heap s = s_heap s0" "s_spec s = s_spec s0" "curr s + nvars s \<le> length (slab s)"
  shows "same_at {..<nvars s} s (row_sim s0 (row_of s (curr s)))"
  using assms by (auto simp: same_at_def slab_read_def aread_def nth_row_of length_row_of)

text \<open>Everything a variable of the module reads or writes is in the row.\<close>

lemma ready_offset: "run_ready h n dn \<Longrightarrow> a \<in> members h \<Longrightarrow> offset (h ! a) < n"
  by (auto simp: run_ready_def members_def)

lemma ready_deps: "run_ready h n dn \<Longrightarrow> a \<in> members h \<Longrightarrow> set (deps h a) \<subseteq> members h"
  using flat_closed [OF wired_flat, of h 0] by (simp add: run_ready_def closed_under_def)

lemma ready_reads:
  assumes "run_ready h n dn" "a \<in> members h"
  shows "reads h a \<subseteq> {..<n}" "stock_reads h a \<subseteq> {..<n}"
proof -
  have w: "wired h 0" "a \<in> set (avars (h ! 0))" using assms by (auto simp: run_ready_def)
  have "slots_of h (names (av_node (h ! a))) \<subseteq> {..<n}"
    using wired_slots [OF w] ready_deps [OF assms] ready_offset [OF assms(1)] by fastforce
  moreover have "0 < n" using assms(1) by (auto simp: run_ready_def)
  ultimately show r: "reads h a \<subseteq> {..<n}" by (simp add: reads_def)
  have "set (av_inflows (h ! a)) \<subseteq> members h" "set (av_outflows (h ! a)) \<subseteq> members h"
    using assms by (auto simp: run_ready_def)
  then show "stock_reads h a \<subseteq> {..<n}"
    using r assms(2) ready_offset [OF assms(1)] by (auto simp: stock_reads_def)
qed

lemma solves_same:
  assumes "run_ready (s_heap s) n dn" "a \<in> members (s_heap s)" "same_at {..<n} s t" "solves pw s a"
  shows "solves pw t a"
proof -
  have "equation pw t a = equation pw s a"
    by (rule equation_same [OF same_at_subset [OF assms(3) ready_reads(1) [OF assms(1,2)]]])
  moreover have "slab_read t (curr t + offset (s_heap s ! a)) = slab_read s (curr s + offset (s_heap s ! a))"
    using ready_offset [OF assms(1,2)] by (intro same_at_read [OF assms(3)]) simp
  ultimately show ?thesis using assms(3,4) by (simp add: solves_def same_at_def)
qed

text \<open>The run lists of the root module; no stock or constant is written with the flows.\<close>

lemma ready_lists:
  assumes "run_ready h n dn"
  shows "set (flows (h ! 0)) \<subseteq> members h" "set (stocks (h ! 0)) \<subseteq> members h"
    "computable h (flows (h ! 0))" "distinct (map (\<lambda>a. offset (h ! a)) (stocks (h ! 0)))"
    "(\<lambda>a. offset (h ! a)) ` set (stocks (h ! 0)) \<inter> writes h (flows (h ! 0)) = {}"
    "0 \<notin> writes h (flows (h ! 0))"
    "\<forall>a \<in> set (stocks (h ! 0)). a < length h \<and> av_v (h ! a) \<noteq> None \<and> kind h a \<noteq> VAR_MODULE \<and> stock_reads h a \<subseteq> {..<n}"
proof -
  have f: "flows (h ! 0) = filter (on_flows h) dn" and s: "stocks (h ! 0) = filter (on_stocks h) dn"
    and o: "ordered (deps h) dn" and dn: "set dn \<subseteq> members h" and W: "wired h 0"
    and av: "set (avars (h ! 0)) = members h"
    using assms by (simp_all add: run_ready_def)
  show fl: "set (flows (h ! 0)) \<subseteq> members h" and st: "set (stocks (h ! 0)) \<subseteq> members h" using f s dn by auto
  show "computable h (flows (h ! 0))"
    using ordered_computable [OF W, of "[]" dn "on_flows h"] o dn av f by simp
  have inj: "inj_on (\<lambda>a. offset (h ! a)) (members h)" using W av by (simp add: wired_def)
  have "distinct (stocks (h ! 0))" using ordered_distinct [OF o] s by simp
  then show "distinct (map (\<lambda>a. offset (h ! a)) (stocks (h ! 0)))"
    using inj_on_subset [OF inj st] by (simp add: distinct_map)
  have "set (stocks (h ! 0)) \<inter> set (flows (h ! 0)) = {}"
    using f s by (auto simp: on_flows_def on_stocks_def)
  then have "(\<lambda>a. offset (h ! a)) ` set (stocks (h ! 0)) \<inter> (\<lambda>a. offset (h ! a)) ` set (flows (h ! 0)) = {}"
    using inj_on_image_Int [OF inj st fl] by simp
  then show "(\<lambda>a. offset (h ! a)) ` set (stocks (h ! 0)) \<inter> writes h (flows (h ! 0)) = {}"
    by (auto simp: writes_def)
  show "0 \<notin> writes h (flows (h ! 0))" by (rule ready_time [OF assms fl])
  show "\<forall>a \<in> set (stocks (h ! 0)). a < length h \<and> av_v (h ! a) \<noteq> None \<and> kind h a \<noteq> VAR_MODULE \<and> stock_reads h a \<subseteq> {..<n}"
  proof
    fix a assume "a \<in> set (stocks (h ! 0))"
    then have a: "a \<in> members h" using st by blast
    moreover have "case av_v (h ! a) of None \<Rightarrow> False | Some v \<Rightarrow> plain v" using assms a by (simp add: run_ready_def)
    ultimately show "a < length h \<and> av_v (h ! a) \<noteq> None \<and> kind h a \<noteq> VAR_MODULE \<and> stock_reads h a \<subseteq> {..<n}"
      using ready_reads(2) [OF assms a] by (auto simp: members_def kind_def plain_def split: option.splits)
  qed
qed

section \<open>The trajectory\<close>

text \<open>
  The time at step \<open>k\<close>; \<open>row_ok\<close>: a row at step \<open>k\<close> shows that time and solves the equations of
  all variables but stocks and constants; \<open>euler\<close>: in the second row, every stock is the first
  row's plus \<open>dt\<close> times its net inflow there, every constant its value.
\<close>

definition time_at :: "sim_spec \<Rightarrow> nat \<Rightarrow> fp" where
  "time_at sp k = (if k = 0 then sp_start sp else d_add (sp_start sp) (d_mul (d_int (int k)) (sp_dt sp)))"

definition row_ok :: "(fp \<Rightarrow> fp \<Rightarrow> fp) \<Rightarrow> sim \<Rightarrow> nat \<Rightarrow> fp list \<Rightarrow> bool" where
  "row_ok pw s k r \<longleftrightarrow> length r = nvars s \<and> r ! TIME = time_at (s_spec s) k \<and>
     (\<forall>a \<in> set (flows (s_heap s ! 0)). av_node (s_heap s ! a) \<noteq> Null \<longrightarrow> solves pw (row_sim s r) a)"

definition euler :: "(fp \<Rightarrow> fp \<Rightarrow> fp) \<Rightarrow> sim \<Rightarrow> fp list \<Rightarrow> fp list \<Rightarrow> bool" where
  "euler pw s r r' \<longleftrightarrow> (\<forall>a \<in> set (stocks (s_heap s ! 0)).
     stock_value pw (row_sim s r) a = Inr (r' ! offset (s_heap s ! a)))"

text \<open>\<open>traj pw s Rs\<close>: the rows of the first steps, from the initial row on.\<close>

definition traj :: "(fp \<Rightarrow> fp \<Rightarrow> fp) \<Rightarrow> sim \<Rightarrow> fp list list \<Rightarrow> bool" where
  "traj pw s Rs \<longleftrightarrow> (\<forall>k < length Rs. row_ok pw s k (Rs ! k)) \<and>
     (\<forall>k. Suc k < length Rs \<longrightarrow> euler pw s (Rs ! k) (Rs ! Suc k)) \<and>
     (Rs \<noteq> [] \<longrightarrow> Rs ! 0 = row_of s 0)"

text \<open>
  The state at the head of the loop: the rows saved so far are those of the steps divisible by
  \<open>save_every\<close>, and the current row holds the time and the stocks of the step to come.
\<close>

definition current_ok :: "(fp \<Rightarrow> fp \<Rightarrow> fp) \<Rightarrow> sim \<Rightarrow> fp list list \<Rightarrow> fp list \<Rightarrow> bool" where
  "current_ok pw s0 Rs r \<longleftrightarrow> r ! TIME = time_at (s_spec s0) (length Rs) \<and>
     (if Rs = [] then r = row_of s0 0 else euler pw s0 (last Rs) r)"

definition rows_saved :: "nat \<Rightarrow> nat \<Rightarrow> nat" where
  "rows_saved k every = (if k = 0 then 0 else (k - 1) div every + 1)"

definition loop_inv :: "(fp \<Rightarrow> fp \<Rightarrow> fp) \<Rightarrow> sim \<Rightarrow> fp list list \<Rightarrow> sim \<Rightarrow> bool" where
  "loop_inv pw s0 Rs s \<longleftrightarrow>
     s_heap s = s_heap s0 \<and> s_module s = 0 \<and> s_spec s = s_spec s0 \<and> nvars s = nvars s0 \<and>
     nsteps s = nsteps s0 \<and> nsaves s = nsaves s0 \<and> save_every s = save_every s0 \<and>
     length (slab s) = nvars s0 * (nsaves s0 + 1) \<and>
     step s = length Rs \<and> save_step s = rows_saved (step s) (save_every s0) \<and>
     curr s = save_step s * nvars s0 \<and> nexti s = Some ((save_step s + 1) * nvars s0) \<and> traj pw s0 Rs \<and>
     (\<forall>j < save_step s. row_of s (j * nvars s0) = Rs ! (j * save_every s0)) \<and>
     current_ok pw s0 Rs (row_of s (curr s))"

lemma pred_div: "0 < every \<Longrightarrow> k \<noteq> 0 \<Longrightarrow> (k - 1) div every = (if k mod every = 0 then k div every - 1 else k div every)"
  for k every :: nat
  by (cases k) (auto simp: div_Suc)

lemma rows_saved_Suc:
  assumes "0 < every"
  shows "rows_saved (Suc k) every = (if k mod every = 0 then rows_saved k every + 1 else rows_saved k every)"
proof (cases "k = 0")
  case False
  have "k mod every = 0 \<Longrightarrow> 0 < k div every" using False assms by (auto simp: div_greater_zero_iff dvd_imp_le)
  with False pred_div [OF assms False] show ?thesis by (auto simp: rows_saved_def)
qed (simp add: rows_saved_def)

lemma rows_saved_at: "0 < every \<Longrightarrow> k mod every = 0 \<Longrightarrow> rows_saved k every * every = k"
proof (cases "k = 0")
  case False
  assume e: "0 < every" "k mod every = 0"
  have "0 < k div every" using False e by (auto simp: div_greater_zero_iff dvd_imp_le)
  moreover have "k div every * every = k" using div_mult_mod_eq [of k every] e(2) by simp
  ultimately show ?thesis using False e(2) pred_div [OF e(1) False] by (simp add: rows_saved_def)
qed (simp add: rows_saved_def)

lemma rows_saved_bound: "0 < every \<Longrightarrow> j < rows_saved k every \<Longrightarrow> j * every < k"
proof -
  assume e: "0 < every" and j: "j < rows_saved k every"
  then have k: "k \<noteq> 0" "j \<le> (k - 1) div every" by (auto simp: rows_saved_def split: if_splits)
  then have "j * every \<le> k - 1" using e by (meson div_times_less_eq_dividend le_trans mult_le_mono1)
  with k(1) show ?thesis by simp
qed

lemma rows_saved_le:
  assumes "fresh_sim s" "k < nsteps s" shows "rows_saved k (save_every s) \<le> nsaves s"
proof (cases "k = 0")
  case False
  let ?e = "save_every s"
  have e: "0 < ?e" and ns: "nsaves s = nsteps s div ?e + (if nsteps s mod ?e \<noteq> 0 then 1 else 0)"
    using assms(1) by (simp_all add: fresh_sim_def)
  have "(k - 1) div ?e \<le> (nsteps s - 1) div ?e" using assms(2) by (intro div_le_mono) simp
  also have "(nsteps s - 1) div ?e = (if nsteps s mod ?e = 0 then nsteps s div ?e - 1 else nsteps s div ?e)"
    using pred_div [OF e, of "nsteps s"] assms(2) by simp
  finally have d: "(k - 1) div ?e \<le> (if nsteps s mod ?e = 0 then nsteps s div ?e - 1 else nsteps s div ?e)" .
  have "nsteps s mod ?e = 0 \<Longrightarrow> 0 < nsteps s div ?e"
    using assms(2) e by (auto simp: div_greater_zero_iff dvd_imp_le)
  with d False ns show ?thesis by (auto simp: rows_saved_def split: if_splits)
qed (simp add: rows_saved_def)

lemma row_in_slab: "j \<le> m \<Longrightarrow> j * n + n \<le> n * (m + 1)" for j m n :: nat
  using mult_le_mono2 [of "j + 1" "m + 1" n] by (simp add: algebra_simps)

lemma row_of_same:
  assumes "same_at {..<nvars s} s t" "nvars t = nvars s" "curr s + nvars s \<le> length (slab s)"
    "curr t + nvars s \<le> length (slab t)"
  shows "row_of t (curr t) = row_of s (curr s)"
proof (rule nth_equalityI)
  show "length (row_of t (curr t)) = length (row_of s (curr s))" using assms by (simp add: row_of_def)
  fix i assume "i < length (row_of t (curr t))"
  then have "i < nvars s" using assms by (simp add: row_of_def)
  with assms show "row_of t (curr t) ! i = row_of s (curr s) ! i"
    by (simp add: nth_row_of same_at_def slab_read_def)
qed

text \<open>The start of a run: what a successful \<open>sd_sim_new\<close> returns.\<close>

definition sim_start :: "(fp \<Rightarrow> fp \<Rightarrow> fp) \<Rightarrow> sim \<Rightarrow> addr list \<Rightarrow> bool" where
  "sim_start pw s dn \<longleftrightarrow> run_ready (s_heap s) (nvars s) dn \<and> fresh_sim s \<and> s_module s = 0 \<and>
     slab_read s (curr s + TIME) = Inr (sp_start (s_spec s)) \<and>
     (\<forall>a \<in> set dn. av_node (s_heap s ! a) \<noteq> Null \<longrightarrow> solves pw s a)"

lemma loop_inv_room:
  assumes "loop_inv pw s0 Rs s" "sim_start pw s0 dn" "step s < nsteps s0"
  shows "curr s + nvars s \<le> length (slab s)" "0 < nvars s"
proof -
  have "save_step s \<le> nsaves s0"
    using assms rows_saved_le [of s0 "step s"] by (simp add: loop_inv_def sim_start_def)
  from row_in_slab [OF this] assms(1) show "curr s + nvars s \<le> length (slab s)" by (simp add: loop_inv_def)
  show "0 < nvars s" using assms(1,2) by (auto simp: loop_inv_def sim_start_def run_ready_def)
qed

lemma traj_snoc:
  assumes "traj pw s0 Rs" "row_ok pw s0 (length Rs) r" "Rs \<noteq> [] \<Longrightarrow> euler pw s0 (last Rs) r"
    "Rs = [] \<Longrightarrow> r = row_of s0 0"
  shows "traj pw s0 (Rs @ [r])"
proof -
  have "euler pw s0 ((Rs @ [r]) ! k) ((Rs @ [r]) ! Suc k)" if "Suc k < length (Rs @ [r])" for k
  proof (cases "Suc k = length Rs")
    case True
    then have "Rs \<noteq> []" "length Rs - 1 = k" by auto
    then have "last Rs = Rs ! k" by (simp add: last_conv_nth)
    with \<open>Rs \<noteq> []\<close> assms(3) True show ?thesis by (simp add: nth_append)
  next
    case False
    with that assms(1) show ?thesis by (simp add: traj_def nth_append)
  qed
  moreover have "row_ok pw s0 k ((Rs @ [r]) ! k)" if "k < length (Rs @ [r])" for k
    using that assms(1,2) by (cases "k = length Rs") (auto simp: traj_def nth_append)
  ultimately show ?thesis using assms(1,4) by (auto simp: traj_def nth_append)
qed

text \<open>
  Computing the flows completes the current row: the trajectory grows by it, and nothing else
  changes in the slab.
\<close>

lemma flows_phase:
  assumes I: "loop_inv pw s0 Rs s" and st: "sim_start pw s0 dn" and k: "step s < nsteps s0"
    and c: "calc (depth_fuel (s_heap s)) pw (curr s) False (flows (s_heap s ! 0)) s = Inr t"
  shows "frame (curr s) (writes (s_heap s) (flows (s_heap s ! 0))) s t \<and>
    traj pw s0 (Rs @ [row_of t (curr s)])"
proof -
  let ?h = "s_heap s0" and ?n = "nvars s0" and ?F = "flows (s_heap s0 ! 0)"
  have f: "s_heap s = ?h" "s_spec s = s_spec s0" "nvars s = ?n" "step s = length Rs" using I by (simp_all add: loop_inv_def)
  have R: "run_ready ?h ?n dn" using st by (simp add: sim_start_def)
  note L = ready_lists [OF R] and room = loop_inv_room [OF I st k]
  have F: "set ?F \<subseteq> set dn" using R by (auto simp: run_ready_def)
  have len: "0 < length ?h" using R by (auto simp: run_ready_def)
  have "calc_list (calc (length ?h) pw (curr s) False) pw (curr s) False ?F s = Inr t"
    using c f by (simp add: depth_fuel_def)
  moreover have "calc (length ?h) pw (curr s) False [] u = Inr u" for u using len by (cases "length ?h") auto
  ultimately have fr: "frame (curr s) (writes ?h ?F) s t" and
    so: "\<forall>a \<in> set ?F. av_node (?h ! a) \<noteq> Null \<longrightarrow> solves pw t a"
    using calc_list_solves [of s ?F] L(3) f(1) by simp_all
  note ff = frame_fields [OF fr]
  let ?r = "row_of t (curr s)"
  have view: "same_at {..<?n} t (row_sim s0 ?r)"
    using row_view [of t s0] ff f room by simp
  have lenr: "length ?r = ?n" using ff f room by (simp add: length_row_of)
  have keep: "?r ! i = row_of s (curr s) ! i" if "i < ?n" "i \<notin> writes ?h ?F" for i
    using frame_nth [OF fr that(2)] that(1) ff f room by (simp add: nth_row_of)
  have "row_ok pw s0 (length Rs) ?r"
  proof -
    have "row_of s (curr s) ! TIME = time_at (s_spec s0) (length Rs)"
      using I unfolding loop_inv_def current_ok_def by blast
    moreover have "?r ! TIME = row_of s (curr s) ! TIME"
      using L(6) room f by (intro keep) (simp_all add: TIME_def)
    ultimately have "?r ! TIME = time_at (s_spec s0) (length Rs)" by simp
    moreover have "solves pw (row_sim s0 ?r) a" if "a \<in> set ?F" "av_node (?h ! a) \<noteq> Null" for a
      using solves_same [of t ?n dn a "row_sim s0 ?r" pw] R so that L(1) view ff f by auto
    ultimately show ?thesis using lenr by (simp add: row_ok_def)
  qed
  moreover have "euler pw s0 (last Rs) ?r" if "Rs \<noteq> []"
  proof -
    have "?r ! offset (?h ! a) = row_of s (curr s) ! offset (?h ! a)" if "a \<in> set (stocks (?h ! 0))" for a
      using that L(2,5) ready_offset [OF R] by (intro keep) auto
    with I that show ?thesis by (simp add: loop_inv_def current_ok_def euler_def)
  qed
  moreover have "?r = row_of s0 0" if "Rs = []"
  proof -
    have s0: "curr s0 = 0" "nvars s0 \<le> length (slab s0)" "curr s = 0" "row_of s 0 = row_of s0 0"
      using I st that by (auto simp: loop_inv_def sim_start_def fresh_sim_def current_ok_def rows_saved_def)
    have same: "same_at {..<?n} s0 s"
      unfolding same_at_def using f s0 room
      by (auto simp: slab_read_def aread_def nth_row_of [of 0, symmetric, simplified])
    have "same_at {..<?n} s t"
    proof (rule solution_unique [of s ?F])
      show "computable (s_heap s) ?F" using L(3) f by simp
      show "same_at ({..<?n} - writes (s_heap s) ?F) s t"
        using f by (intro frame_same [OF fr]) auto
      show "(\<Union>a \<in> set ?F. reads (s_heap s) a) \<subseteq> {..<?n}" using ready_reads(1) [OF R] L(1) f by fastforce
      show "\<forall>a \<in> set ?F. av_node (s_heap s ! a) \<noteq> Null \<longrightarrow> solves pw s a \<and> solves pw t a"
      proof (intro ballI impI conjI)
        fix a assume a: "a \<in> set ?F" "av_node (s_heap s ! a) \<noteq> Null"
        then show "solves pw t a" using so f by simp
        have "solves pw s0 a" using a st F f by (auto simp: sim_start_def)
        then show "solves pw s a" using a L(1) by (intro solves_same [OF R _ same]) auto
      qed
    qed
    from row_of_same [of s t] this f ff room have "row_of t (curr s) = row_of s (curr s)" by simp
    with s0 show ?thesis by simp
  qed
  moreover have "traj pw s0 Rs" using I by (simp add: loop_inv_def)
  ultimately have "traj pw s0 (Rs @ [?r])" by (intro traj_snoc)
  with fr f show ?thesis by simp
qed

text \<open>Computing the stocks fills the next row with what the trajectory prescribes.\<close>

lemma stocks_phase:
  assumes R: "run_ready (s_heap s0) (nvars s0) dn" and f: "s_heap t = s_heap s0" "s_spec t = s_spec s0" "nvars t = nvars s0"
    and room: "curr t + nvars s0 \<le> length (slab t)"
    and c: "calc_stocks (depth_fuel (s_heap t)) pw (curr t + nvars s0) (stocks (s_heap t ! 0)) t = Inr u"
  shows "frame (curr t + nvars s0) ((\<lambda>a. offset (s_heap s0 ! a)) ` set (stocks (s_heap s0 ! 0))) t u \<and>
    (\<forall>a \<in> set (stocks (s_heap s0 ! 0)).
       stock_value pw (row_sim s0 (row_of t (curr t))) a = slab_read u (curr t + nvars s0 + offset (s_heap s0 ! a)) \<and>
       (\<exists>x. stock_value pw (row_sim s0 (row_of t (curr t))) a = Inr x))"
proof -
  let ?h = "s_heap s0" and ?S = "stocks (s_heap s0 ! 0)"
  note L = ready_lists [OF R]
  have c: "calc_stocks_list (calc_stocks (length ?h) pw (curr t + nvars s0)) pw (curr t + nvars s0) ?S t = Inr u"
    using c f by (simp add: depth_fuel_def)
  have "frame (curr t + nvars s0) ((\<lambda>a. offset (?h ! a)) ` set ?S) t u \<and>
    (\<forall>a \<in> set ?S. stock_value pw t a = slab_read u (curr t + nvars s0 + offset (?h ! a)) \<and>
       (\<exists>x. stock_value pw t a = Inr x))"
    by (rule calc_stocks_list_values [OF c, unfolded f(1), OF L(7,4)]) simp
  moreover have "stock_value pw (row_sim s0 (row_of t (curr t))) a = stock_value pw t a" if "a \<in> set ?S" for a
  proof (rule stock_value_same, rule same_at_subset)
    show "same_at {..<nvars t} t (row_sim s0 (row_of t (curr t)))" using f room by (intro row_view) simp_all
    show "stock_reads (s_heap t) a \<subseteq> {..<nvars t}" using L(7) that f by simp
  qed
  ultimately show ?thesis by metis
qed

lemma frame_below: "frame base W s t \<Longrightarrow> i < base \<Longrightarrow> slab t ! i = slab s ! i"
  by (auto simp: frame_def image_iff)

lemma row_of_below:
  assumes "frame base W s t" "a + nvars s \<le> base" "base \<le> length (slab s)"
  shows "row_of t a = row_of s a"
proof (rule nth_equalityI)
  have f: "nvars t = nvars s" "length (slab t) = length (slab s)" using frame_fields [OF assms(1)] by simp_all
  then show "length (row_of t a) = length (row_of s a)" by (simp add: row_of_def)
  fix i assume "i < length (row_of t a)"
  then have "i < nvars s" using f by (simp add: row_of_def)
  then show "row_of t a ! i = row_of s a ! i"
    using frame_below [OF assms(1), of "a + i"] assms(2,3) f by (simp add: nth_row_of)
qed

lemma stocks_not_time:
  assumes "run_ready h n dn" "a \<in> set (stocks (h ! 0))" shows "offset (h ! a) \<noteq> 0"
proof -
  have a: "a \<in> members h" "on_stocks h a" using assms by (auto simp: run_ready_def)
  moreover have "\<not> on_stocks h 1" using assms(1) by (simp add: run_ready_def on_stocks_def kind_def time_var_def)
  ultimately have "a \<noteq> 1" by blast
  with a(1) assms(1) show ?thesis by (auto simp: run_ready_def members_def)
qed

section \<open>One pass of the loop\<close>

lemma slab_write_frame:
  "slab_write s (base + i) x = Inr t \<Longrightarrow> frame base {i} s t \<and> base + i < length (slab s) \<and>
     t = s\<lparr> slab := (slab s)[base + i := x] \<rparr>"
  by (auto simp: slab_write_def rbind_eq_Inr awrite_Inr intro!: frame_update)

text \<open>The phases of a pass, with what each does to the slab.\<close>

lemma run_step_phases:
  assumes I: "loop_inv pw s0 Rs s" and st: "sim_start pw s0 dn" and k: "step s < nsteps s0"
    and r: "run_step pw s = Inr (b, s')"
  obtains t u where
    "frame (curr s) (writes (s_heap s0) (flows (s_heap s0 ! 0))) s t"
    "traj pw s0 (Rs @ [row_of t (curr s)])"
    "frame (curr s + nvars s0) ((\<lambda>a. offset (s_heap s0 ! a)) ` set (stocks (s_heap s0 ! 0))) t u"
    "\<And>a. a \<in> set (stocks (s_heap s0 ! 0)) \<Longrightarrow>
       stock_value pw (row_sim s0 (row_of t (curr s))) a = slab_read u (curr s + nvars s0 + offset (s_heap s0 ! a)) \<and>
       curr s + nvars s0 + offset (s_heap s0 ! a) < length (slab s)"
    "if step s + 1 = nsteps s0 then b = False \<and> s' = u
     else b = True \<and> (\<exists>v. slab_write u (curr s + nvars s0 + TIME) (next_time u) = Inr v \<and>
       (if step s mod save_every s0 \<noteq> 0
        then copy_row (v\<lparr> step := step s + 1 \<rparr>) (curr s) (curr s + nvars s0) = Inr s'
        else s' = v\<lparr> step := step s + 1, save_step := save_step s + 1, curr := curr s + nvars s0,
                     nexti := Some (curr s + nvars s0 + nvars s0) \<rparr>))"
proof -
  let ?h = "s_heap s0"
  have f: "s_heap s = ?h" "s_module s = 0" "s_spec s = s_spec s0" "nvars s = nvars s0" "nsteps s = nsteps s0"
    "save_every s = save_every s0" "nexti s = Some (curr s + nvars s0)" "curr s = save_step s * nvars s0"
    using I by (auto simp: loop_inv_def)
  have R: "run_ready ?h (nvars s0) dn" using st by (simp add: sim_start_def)
  have len: "0 < length ?h" using R by (auto simp: run_ready_def)
  obtain t u where t: "calc (depth_fuel (s_heap s)) pw (curr s) False (flows (?h ! 0)) s = Inr t"
    and u: "calc_stocks (depth_fuel (s_heap t)) pw (curr s + nvars s0) (stocks (?h ! 0)) t = Inr u"
    and e: "(if step u + 1 = nsteps u then Inr (False, u)
       else rbind (slab_write u (curr s + nvars s0 + TIME) (next_time u)) (\<lambda>w.
         if step w mod save_every w \<noteq> 0 then
           rbind (copy_row (w\<lparr> step := step w + 1 \<rparr>) (curr w) (curr s + nvars s0)) (\<lambda>s. Inr (True, s))
         else
           (let s = w\<lparr> step := step w + 1, save_step := save_step w + 1 \<rparr>
            in Inr (True, s\<lparr> curr := sim_curr s, nexti := Some (sim_next s) \<rparr>)))) = Inr (b, s')"
    using r f(1-7) len by (auto simp: run_step_def hread_eq rbind_eq_Inr)
  have F: "frame (curr s) (writes ?h (flows (?h ! 0))) s t" "traj pw s0 (Rs @ [row_of t (curr s)])"
    using flows_phase [OF I st k, of t] t f by simp_all
  note ft = frame_fields [OF F(1)]
  note room = loop_inv_room(1) [OF I st k]
  have S: "frame (curr s + nvars s0) ((\<lambda>a. offset (?h ! a)) ` set (stocks (?h ! 0))) t u"
    and sv: "\<And>a. a \<in> set (stocks (?h ! 0)) \<Longrightarrow>
       stock_value pw (row_sim s0 (row_of t (curr s))) a = slab_read u (curr s + nvars s0 + offset (?h ! a)) \<and>
       (\<exists>x. stock_value pw (row_sim s0 (row_of t (curr s))) a = Inr x)"
  proof -
    have ct: "curr t = curr s" "s_heap t = ?h" "s_spec t = s_spec s0" "nvars t = nvars s0"
      "curr t + nvars s0 \<le> length (slab t)" using ft f(1-6) room by simp_all
    have "calc_stocks (depth_fuel (s_heap t)) pw (curr t + nvars s0) (stocks (s_heap t ! 0)) t = Inr u"
      using u ct by simp
    from stocks_phase [OF R ct(2-5) this, unfolded ct(1)]
    show "frame (curr s + nvars s0) ((\<lambda>a. offset (?h ! a)) ` set (stocks (?h ! 0))) t u"
      "\<And>a. a \<in> set (stocks (?h ! 0)) \<Longrightarrow>
       stock_value pw (row_sim s0 (row_of t (curr s))) a = slab_read u (curr s + nvars s0 + offset (?h ! a)) \<and>
       (\<exists>x. stock_value pw (row_sim s0 (row_of t (curr s))) a = Inr x)"
      by blast+
  qed
  note fu = frame_fields [OF S]
  have S': "stock_value pw (row_sim s0 (row_of t (curr s))) a = slab_read u (curr s + nvars s0 + offset (?h ! a)) \<and>
       curr s + nvars s0 + offset (?h ! a) < length (slab s)" if "a \<in> set (stocks (?h ! 0))" for a
    using sv [OF that] fu ft by (auto simp: slab_read_def aread_def split: if_split_asm)
  have su: "step u = step s" "nsteps u = nsteps s0" "curr u = curr s" "nvars u = nvars s0" "save_step u = save_step s"
    "save_every u = save_every s0" using fu ft f by simp_all
  show thesis
  proof (rule that [OF F S S'])
    show "if step s + 1 = nsteps s0 then b = False \<and> s' = u
     else b = True \<and> (\<exists>v. slab_write u (curr s + nvars s0 + TIME) (next_time u) = Inr v \<and>
       (if step s mod save_every s0 \<noteq> 0
        then copy_row (v\<lparr> step := step s + 1 \<rparr>) (curr s) (curr s + nvars s0) = Inr s'
        else s' = v\<lparr> step := step s + 1, save_step := save_step s + 1, curr := curr s + nvars s0,
                     nexti := Some (curr s + nvars s0 + nvars s0) \<rparr>))"
    proof (cases "step s + 1 = nsteps s0")
      case True
      with e su show ?thesis by simp
    next
      case False
      with e su obtain v where v: "slab_write u (curr s + nvars s0 + TIME) (next_time u) = Inr v"
        and w: "(if step v mod save_every v \<noteq> 0 then
           rbind (copy_row (v\<lparr> step := step v + 1 \<rparr>) (curr v) (curr s + nvars s0)) (\<lambda>s. Inr (True, s))
         else
           (let s = v\<lparr> step := step v + 1, save_step := save_step v + 1 \<rparr>
            in Inr (True, s\<lparr> curr := sim_curr s, nexti := Some (sim_next s) \<rparr>))) = Inr (b, s')"
        by (auto simp: rbind_eq_Inr)
      note fv = frame_fields [OF slab_write_frame [OF v, THEN conjunct1]]
      have sv: "step v = step s" "curr v = curr s" "nvars v = nvars s0" "save_step v = save_step s"
        "save_every v = save_every s0" using fv su by simp_all
      with w v f(8) False show ?thesis
        by (auto simp: sim_curr_def sim_next_def Let_def rbind_eq_Inr algebra_simps split: if_split_asm)
    qed
  qed
qed

lemma copy_row_rows:
  assumes "copy_row s to from = Inr t"
  shows "t = s\<lparr> slab := slab t \<rparr>" "length (slab t) = length (slab s)" "row_of t to = row_of s from"
    "a + nvars s \<le> to \<Longrightarrow> row_of t a = row_of s a" "from + nvars s \<le> length (slab s)"
proof -
  have b: "to + nvars s \<le> length (slab s)" "from + nvars s \<le> length (slab s)" and
    t: "t = s\<lparr> slab := take to (slab s) @ take (nvars s) (drop from (slab s)) @ drop (to + nvars s) (slab s) \<rparr>"
    using assms by (auto simp: copy_row_def split: if_splits)
  show "t = s\<lparr> slab := slab t \<rparr>" by (simp add: t)
  show "length (slab t) = length (slab s)" using b by (simp add: t)
  show "from + nvars s \<le> length (slab s)" by (rule b(2))
  show "row_of t to = row_of s from" using b by (simp add: t row_of_def)
  assume a: "a + nvars s \<le> to"
  have n: "nvars t = nvars s" "length (slab t) = length (slab s)" using b by (simp_all add: t)
  show "row_of t a = row_of s a"
  proof (rule nth_equalityI)
    show "length (row_of t a) = length (row_of s a)" using n by (simp add: row_of_def)
    fix i assume "i < length (row_of t a)"
    then have i: "i < nvars s" using n by (simp add: row_of_def)
    then have "slab t ! (a + i) = slab s ! (a + i)" using a b by (simp add: t nth_append)
    with a b i n show "row_of t a ! i = row_of s a ! i" by (simp add: nth_row_of)
  qed
qed

lemma time_at_next:
  "step s = k \<Longrightarrow> next_time s = time_at (s_spec s) (Suc k)"
  by (simp add: next_time_def time_at_def)

lemma run_step_more:
  assumes I: "loop_inv pw s0 Rs s" and st: "sim_start pw s0 dn" and k: "step s < nsteps s0"
    and r: "run_step pw s = Inr (True, s')"
  shows "step s + 1 < nsteps s0 \<and> (\<exists>r. loop_inv pw s0 (Rs @ [r]) s')"
  using I st k r
proof (rule run_step_phases)
  fix t u
  let ?n = "nvars s0" and ?b = "curr s" and ?e = "save_every s0" and ?S = "stocks (s_heap s0 ! 0)"
  let ?r = "row_of t ?b"
  assume F: "frame ?b (writes (s_heap s0) (flows (s_heap s0 ! 0))) s t" "traj pw s0 (Rs @ [?r])"
    and S: "frame (?b + ?n) ((\<lambda>a. offset (s_heap s0 ! a)) ` set ?S) t u"
    and sv: "\<And>a. a \<in> set ?S \<Longrightarrow> stock_value pw (row_sim s0 ?r) a = slab_read u (?b + ?n + offset (s_heap s0 ! a)) \<and>
       ?b + ?n + offset (s_heap s0 ! a) < length (slab s)"
    and c: "if step s + 1 = nsteps s0 then True = False \<and> s' = u
     else True = True \<and> (\<exists>v. slab_write u (?b + ?n + TIME) (next_time u) = Inr v \<and>
       (if step s mod ?e \<noteq> 0
        then copy_row (v\<lparr> step := step s + 1 \<rparr>) ?b (?b + ?n) = Inr s'
        else s' = v\<lparr> step := step s + 1, save_step := save_step s + 1, curr := ?b + ?n,
                     nexti := Some (?b + ?n + ?n) \<rparr>))"
  obtain v where v: "slab_write u (?b + ?n + TIME) (next_time u) = Inr v"
    and s': "if step s mod ?e \<noteq> 0 then copy_row (v\<lparr> step := step s + 1 \<rparr>) ?b (?b + ?n) = Inr s'
        else s' = v\<lparr> step := step s + 1, save_step := save_step s + 1, curr := ?b + ?n,
                     nexti := Some (?b + ?n + ?n) \<rparr>" and k1: "step s + 1 < nsteps s0"
    using c k by (auto split: if_split_asm)
  have R: "run_ready (s_heap s0) ?n dn" and fs: "fresh_sim s0" and e: "0 < ?e"
    using st by (auto simp: sim_start_def fresh_sim_def)
  note W = slab_write_frame [OF v]
  note ft = frame_fields [OF F(1)] and fu = frame_fields [OF S] and fv = frame_fields [OF W [THEN conjunct1]]
  have Is: "s_heap s = s_heap s0" "s_module s = 0" "s_spec s = s_spec s0" "nvars s = ?n" "nsteps s = nsteps s0"
    "nsaves s = nsaves s0" "save_every s = ?e" "length (slab s) = ?n * (nsaves s0 + 1)" "step s = length Rs"
    "save_step s = rows_saved (step s) ?e" "curr s = save_step s * ?n"
    and saved: "\<And>j. j < save_step s \<Longrightarrow> row_of s (j * ?n) = Rs ! (j * ?e)"
    using I by (auto simp: loop_inv_def)
  have fld: "s_heap v = s_heap s0" "s_module v = 0" "s_spec v = s_spec s0" "nvars v = ?n" "nsteps v = nsteps s0"
    "nsaves v = nsaves s0" "save_every v = ?e" "length (slab v) = ?n * (nsaves s0 + 1)" "curr v = ?b"
    "nexti v = nexti s" "save_step v = save_step s" "step u = length Rs" "s_spec u = s_spec s0" "nvars u = ?n" "nvars t = ?n"
    "length (slab u) = length (slab s)" "length (slab t) = length (slab s)" "length (slab v) = length (slab s)"
    using ft fu fv Is by simp_all
  have nx: "nexti s = Some (?b + ?n)" using I by (simp add: loop_inv_def)
  have room: "?b + ?n \<le> length (slab s)" using loop_inv_room(1) [OF I st k] Is by simp
  have low: "row_of v a = row_of s a" if "a + ?n \<le> ?b" for a
  proof -
    have "row_of t a = row_of s a" using that room Is(4) by (intro row_of_below [OF F(1)]) simp_all
    moreover have "row_of u a = row_of t a" using that room fld by (intro row_of_below [OF S]) simp_all
    moreover have "row_of v a = row_of u a"
      using that room fld by (intro row_of_below [OF W [THEN conjunct1]]) simp_all
    ultimately show ?thesis by simp
  qed
  have cur: "row_of v ?b = ?r"
    using row_of_below [OF W [THEN conjunct1], of ?b] row_of_below [OF S, of ?b] room fld by simp
  have below: "j * ?n + ?n \<le> ?b" if "j < save_step s" for j
    using that Is(11) mult_le_mono1 [of "Suc j" "save_step s" ?n] by simp
  have next_row: "current_ok pw s0 (Rs @ [?r]) (row_of v (?b + ?n))" if "?b + ?n + ?n \<le> length (slab s)"
  proof -
    have nth: "row_of v (?b + ?n) ! i = slab v ! (?b + ?n + i)" if "i < ?n" for i
      using that \<open>?b + ?n + ?n \<le> length (slab s)\<close> fld by (intro nth_row_of) simp_all
    have "0 < ?n" using R by (auto simp: run_ready_def)
    then have "row_of v (?b + ?n) ! TIME = time_at (s_spec s0) (Suc (length Rs))"
      using W nth [of 0] time_at_next [of u "length Rs"] fld by (simp add: TIME_def)
    moreover have "stock_value pw (row_sim s0 ?r) a = Inr (row_of v (?b + ?n) ! offset (s_heap s0 ! a))"
      if a: "a \<in> set ?S" for a
    proof -
      have o: "offset (s_heap s0 ! a) < ?n" "offset (s_heap s0 ! a) \<noteq> 0"
        using a ready_offset [OF R] ready_lists(2) [OF R] stocks_not_time [OF R] by auto
      have "slab v ! (?b + ?n + offset (s_heap s0 ! a)) = slab u ! (?b + ?n + offset (s_heap s0 ! a))"
        using W o(2) by (simp add: TIME_def)
      with sv [OF a] nth [OF o(1)] o(1) \<open>?b + ?n + ?n \<le> length (slab s)\<close> fld(16) show ?thesis
        by (simp add: slab_read_def)
    qed
    ultimately show ?thesis by (simp add: current_ok_def euler_def)
  qed
  have saved': "row_of v (j * ?n) = (Rs @ [?r]) ! (j * ?e)" if "j < save_step s" for j
  proof -
    have "j * ?e < length Rs" using rows_saved_bound [OF e, of j "length Rs"] that Is by simp
    with saved [OF that] low [OF below [OF that]] show ?thesis by (simp add: nth_append)
  qed
  have "loop_inv pw s0 (Rs @ [?r]) s'"
  proof (cases "step s mod ?e = 0")
    case True
    have s': "s' = v\<lparr> step := step s + 1, save_step := save_step s + 1, curr := ?b + ?n, nexti := Some (?b + ?n + ?n) \<rparr>"
      using s' True by simp
    have rs: "rows_saved (Suc (length Rs)) ?e = save_step s + 1"
      using rows_saved_Suc [OF e] True Is by simp
    have "save_step s + 1 \<le> nsaves s0" using rows_saved_le [OF fs k1] rs Is by simp
    from row_in_slab [OF this, of ?n] have rm: "?b + ?n + ?n \<le> length (slab s)" using Is by (simp add: algebra_simps)
    have rows: "row_of s' a = row_of v a" for a by (simp add: s' row_of_def)
    have all: "row_of s' (j * ?n) = (Rs @ [?r]) ! (j * ?e)" if "j < save_step s + 1" for j
    proof (cases "j < save_step s")
      case True with saved' rows show ?thesis by simp
    next
      case False
      then have j: "j = save_step s" using that by simp
      have "save_step s * ?e = length Rs" using rows_saved_at [OF e True] Is by simp
      with j cur rows Is(11) show ?thesis by simp
    qed
    show ?thesis unfolding loop_inv_def
      using fld Is s' rs F(2) all next_row [OF rm] rows by (simp add: algebra_simps)
  next
    case False
    let ?v = "v\<lparr> step := step s + 1 \<rparr>"
    have c: "copy_row ?v ?b (?b + ?n) = Inr s'" using s' False by simp
    note C = copy_row_rows [OF c]
    have rows: "row_of ?v a = row_of v a" for a by (simp add: row_of_def)
    have rm: "?b + ?n + ?n \<le> length (slab s)" using C(5) fld by simp
    have s'f: "s_heap s' = s_heap s0 \<and> s_module s' = 0 \<and> s_spec s' = s_spec s0 \<and> nvars s' = ?n \<and> nsteps s' = nsteps s0 \<and>
      nsaves s' = nsaves s0 \<and> save_every s' = ?e \<and> length (slab s') = ?n * (nsaves s0 + 1) \<and> curr s' = ?b \<and>
      nexti s' = Some (?b + ?n) \<and> save_step s' = save_step s \<and> step s' = Suc (length Rs)"
      using C(2) fld nx Is by (subst (1 2 3 4 5 6 7 9 10 11 12) C(1)) simp
    have rs: "rows_saved (Suc (length Rs)) ?e = save_step s"
      using rows_saved_Suc [OF e] False Is by simp
    have all: "row_of s' (j * ?n) = (Rs @ [?r]) ! (j * ?e)" if "j < save_step s" for j
      using C(4) [of "j * ?n"] below [OF that] saved' [OF that] rows fld by simp
    show ?thesis unfolding loop_inv_def
      using s'f Is rs F(2) all next_row [OF rm] C(3) rows by simp
  qed
  with k1 show ?thesis by blast
qed

lemma run_step_last:
  assumes I: "loop_inv pw s0 Rs s" and st: "sim_start pw s0 dn" and k: "step s < nsteps s0"
    and r: "run_step pw s = Inr (False, s')"
  shows "\<exists>r. step s + 1 = nsteps s0 \<and> traj pw s0 (Rs @ [r]) \<and> row_of s' (curr s) = r \<and>
    (\<forall>j < save_step s. row_of s' (j * nvars s0) = Rs ! (j * save_every s0)) \<and>
    s_heap s' = s_heap s0 \<and> s_module s' = 0 \<and> nsaves s' = nsaves s0 \<and>
    length (slab s') = length (slab s) \<and> nvars s' = nvars s0 \<and>
    (\<forall>a \<in> set (stocks (s_heap s0 ! 0)). curr s + nvars s0 + offset (s_heap s0 ! a) < length (slab s))"
  using I st k r
proof (rule run_step_phases)
  fix t u
  let ?n = "nvars s0" and ?b = "curr s"
  assume F: "frame ?b (writes (s_heap s0) (flows (s_heap s0 ! 0))) s t" "traj pw s0 (Rs @ [row_of t ?b])"
    and S: "frame (?b + ?n) ((\<lambda>a. offset (s_heap s0 ! a)) ` set (stocks (s_heap s0 ! 0))) t u"
    and sv: "\<And>a. a \<in> set (stocks (s_heap s0 ! 0)) \<Longrightarrow>
       stock_value pw (row_sim s0 (row_of t ?b)) a = slab_read u (?b + ?n + offset (s_heap s0 ! a)) \<and>
       ?b + ?n + offset (s_heap s0 ! a) < length (slab s)"
    and c: "if step s + 1 = nsteps s0 then False = False \<and> s' = u
     else False = True \<and> (\<exists>v. slab_write u (?b + ?n + TIME) (next_time u) = Inr v \<and>
       (if step s mod save_every s0 \<noteq> 0
        then copy_row (v\<lparr> step := step s + 1 \<rparr>) ?b (?b + ?n) = Inr s'
        else s' = v\<lparr> step := step s + 1, save_step := save_step s + 1, curr := ?b + ?n,
                     nexti := Some (?b + ?n + ?n) \<rparr>))"
  have k1: "step s + 1 = nsteps s0" "s' = u" using c by (auto split: if_split_asm)
  have Is: "nvars s = ?n" "curr s = save_step s * ?n" "s_heap s = s_heap s0" "s_module s = 0" "nsaves s = nsaves s0"
    and saved: "\<And>j. j < save_step s \<Longrightarrow> row_of s (j * ?n) = Rs ! (j * save_every s0)"
    using I by (auto simp: loop_inv_def)
  have same_fields: "s_heap u = s_heap s0" "s_module u = 0" "nsaves u = nsaves s0"
    using frame_fields [OF F(1)] frame_fields [OF S] Is by simp_all
  have room: "?b + ?n \<le> length (slab s)" using loop_inv_room(1) [OF I st k] Is(1) by simp
  have nt: "nvars t = ?n" "nvars u = ?n" "length (slab t) = length (slab s)" "length (slab u) = length (slab s)"
    using frame_fields [OF F(1)] frame_fields [OF S] Is(1) by simp_all
  have same: "row_of u a = row_of t a" if "a + ?n \<le> ?b + ?n" for a
    using that room nt by (intro row_of_below [OF S]) simp_all
  have "row_of u (j * ?n) = Rs ! (j * save_every s0)" if "j < save_step s" for j
  proof -
    have "j * ?n + ?n \<le> ?b" using that Is(2) mult_le_mono1 [of "Suc j" "save_step s" ?n] by simp
    then have "row_of t (j * ?n) = row_of s (j * ?n)" "j * ?n + ?n \<le> ?b + ?n"
      using room Is(1) by (auto intro: row_of_below [OF F(1)])
    with same saved [OF that] show ?thesis by simp
  qed
  with same [of ?b] F(2) k1 nt sv same_fields show ?thesis by auto
qed

text \<open>How many rows are saved.\<close>

lemma nsaves_rows:
  assumes "fresh_sim s" "0 < nsteps s" shows "nsaves s = (nsteps s - 1) div save_every s + 1"
proof -
  have e: "0 < save_every s" using assms(1) by (simp add: fresh_sim_def)
  have "nsteps s mod save_every s = 0 \<Longrightarrow> 0 < nsteps s div save_every s"
    using assms(2) e by (auto simp: div_greater_zero_iff dvd_imp_le)
  with assms(1) pred_div [OF e, of "nsteps s"] assms(2) show ?thesis by (auto simp: fresh_sim_def)
qed

lemma run_loop_trajectory:
  assumes st: "sim_start pw s0 dn"
    and due: "\<forall>k < nsteps s0. fp_le (time_at (s_spec s0) k) end_time"
  shows "run_loop n pw end_time s = Inr t \<Longrightarrow> loop_inv pw s0 Rs s \<Longrightarrow> step s < nsteps s0 \<Longrightarrow>
    \<exists>Rs. length Rs = nsteps s0 \<and> traj pw s0 Rs \<and>
      (\<forall>j < nsaves s0. row_of t (j * nvars s0) = Rs ! (j * save_every s0)) \<and>
      (stocks (s_heap s0 ! 0) \<noteq> [] \<longrightarrow> rows_saved (nsteps s0 - 1) (save_every s0) < nsaves s0) \<and>
      s_heap t = s_heap s0 \<and> s_module t = 0 \<and> nsaves t = nsaves s0 \<and> nvars t = nvars s0 \<and>
      length (slab t) = nvars s0 * (nsaves s0 + 1)"
proof (induction n arbitrary: s Rs)
  case (Suc n)
  note I = Suc.prems(2) and k = Suc.prems(3)
  have f: "nsteps s = nsteps s0" "step s = length Rs" "save_step s = rows_saved (length Rs) (save_every s0)"
    "curr s = save_step s * nvars s0" "nvars s = nvars s0" "length (slab s) = nvars s0 * (nsaves s0 + 1)"
    using I by (auto simp: loop_inv_def)
  have e: "0 < save_every s0" and fs: "fresh_sim s0" using st by (auto simp: sim_start_def fresh_sim_def)
  have "row_of s (curr s) ! TIME = time_at (s_spec s0) (length Rs)"
    using I unfolding loop_inv_def current_ok_def by blast
  then have now: "slab_read s (curr s + TIME) = Inr (time_at (s_spec s0) (length Rs))"
    using loop_inv_room [OF I st k] by (simp add: slab_read_def TIME_def nth_row_of)
  obtain b s' where r: "run_step pw s = Inr (b, s')"
    and c: "(if b then run_loop n pw end_time s' else Inr s') = Inr t"
    using Suc.prems(1) k f(1,2) now due by (auto simp: rbind_eq_Inr)
  show ?case
  proof (cases b)
    case True
    obtain r where r: "step s + 1 < nsteps s0" "loop_inv pw s0 (Rs @ [r]) s'"
      using run_step_more [OF I st k, of s'] r True by auto
    have "step s' = step s + 1" using r(2) f(2) by (simp add: loop_inv_def)
    with Suc.IH [OF _ r(2)] c True r(1) show ?thesis by simp
  next
    case False
    obtain r where q: "step s + 1 = nsteps s0" "traj pw s0 (Rs @ [r])" "row_of t (curr s) = r"
      "\<forall>j < save_step s. row_of t (j * nvars s0) = Rs ! (j * save_every s0)"
      "\<forall>a \<in> set (stocks (s_heap s0 ! 0)). curr s + nvars s0 + offset (s_heap s0 ! a) < length (slab s)"
      "s_heap t = s_heap s0 \<and> s_module t = 0 \<and> nsaves t = nsaves s0 \<and> nvars t = nvars s0 \<and> length (slab t) = length (slab s)"
      using run_step_last [OF I st k] r c False by auto
    have "row_of t (j * nvars s0) = (Rs @ [r]) ! (j * save_every s0)" if j: "j < nsaves s0" for j
    proof (cases "j < save_step s")
      case True
      then have "j * save_every s0 < length Rs" using rows_saved_bound [OF e] f(3) by simp
      with True q(4) show ?thesis by (simp add: nth_append)
    next
      case False
      have ns: "nsaves s0 = length Rs div save_every s0 + 1"
        using nsaves_rows [OF fs] k q(1) f(2) by (metis add_diff_cancel_right' less_nat_zero_code neq0_conv)
      have "length Rs mod save_every s0 = 0"
      proof (rule ccontr)
        assume "length Rs mod save_every s0 \<noteq> 0"
        then have "rows_saved (length Rs) (save_every s0) = nsaves s0"
          using ns pred_div [OF e, of "length Rs"] by (cases "length Rs = 0") (auto simp: rows_saved_def)
        with False j f(3) show False by simp
      qed
      note at = rows_saved_at [OF e this]
      then have "save_step s = length Rs div save_every s0" using f(3) e by (metis nonzero_mult_div_cancel_right not_gr0)
      then have "j = save_step s" using False j ns by simp
      with at q(3) f(3,4) show ?thesis by simp
    qed
    moreover have "rows_saved (nsteps s0 - 1) (save_every s0) < nsaves s0" if "stocks (s_heap s0 ! 0) \<noteq> []"
    proof -
      obtain a where "curr s + nvars s0 + offset (s_heap s0 ! a) < length (slab s)"
        using q(5) \<open>stocks (s_heap s0 ! 0) \<noteq> []\<close> by (meson list.set_sel(1))
      then have "(save_step s + 1) * nvars s0 < (nsaves s0 + 1) * nvars s0"
      proof -
        have "(save_step s + 1) * nvars s0 = save_step s * nvars s0 + nvars s0"
          "(nsaves s0 + 1) * nvars s0 = nvars s0 * (nsaves s0 + 1)" by simp_all
        with \<open>curr s + nvars s0 + offset (s_heap s0 ! a) < length (slab s)\<close> f(4,6) show ?thesis by linarith
      qed
      then have "save_step s < nsaves s0" by (simp del: mult_Suc)
      with f(2,3) q(1) show ?thesis by (metis add_diff_cancel_right')
    qed
    ultimately show ?thesis using q f by (intro exI [of _ "Rs @ [r]"]) auto
  qed
qed simp

lemma sim_new_start:
  assumes "plain_root p nm" "sd_sim_new pw alloc (Some p) nm = Inr (Some s)"
  shows "\<exists>dn. sim_start pw s dn"
proof -
  obtain mo where mo: "sd_project_get_model (Some p) nm = Some mo" "\<forall>v \<in> set (m_vars mo). plain v"
    using plain_rootD [OF assms(1)] by blast
  obtain h m off where b: "sim_build (Some p) nm = Inr (Some (h, m, off))"
    and r: "sd_sim_reset pw alloc (sim_zero\<lparr> s_heap := h, s_module := m, nvars := off \<rparr>) = Inr (SD_ERR_NO_ERROR, s)"
    using assms(2) by (auto simp: sd_sim_new_def rbind_eq_Inr split: option.splits if_split_asm)
  obtain dn where dn: "m = 0" "run_ready h off dn" using sim_build_ready [OF b mo] by blast
  have "s_heap s = h \<and> s_module s = 0 \<and> nvars s = off \<and> fresh_sim s \<and>
    slab_read s (curr s + TIME) = Inr (sp_start (s_spec s)) \<and>
    (\<forall>a \<in> set dn. av_node (s_heap s ! a) \<noteq> Null \<longrightarrow> solves pw s a)"
    using sim_reset_row [OF r] dn by simp
  with dn show ?thesis by (auto simp: sim_start_def)
qed

lemma start_loop_inv:
  assumes "sim_start pw s dn"
  shows "loop_inv pw s [] (s\<lparr> curr := sim_curr s, nexti := Some (sim_next s) \<rparr>)"
proof -
  have f: "fresh_sim s" "s_module s = 0" "slab_read s 0 = Inr (sp_start (s_spec s))" "0 < nvars s"
    using assms by (auto simp: sim_start_def fresh_sim_def TIME_def run_ready_def)
  have "slab s ! 0 = sp_start (s_spec s)" using f(3) by (auto simp: slab_read_def aread_def split: if_splits)
  then have "row_of s 0 ! TIME = time_at (s_spec s) 0"
    using f by (simp add: row_of_def TIME_def time_at_def)
  with f show ?thesis
    by (simp add: loop_inv_def sim_curr_def sim_next_def rows_saved_def traj_def current_ok_def fresh_sim_def row_of_def)
qed


section \<open>Equations that cannot fault\<close>

text \<open>
  Equations built from numbers, resolved names, the operators, conditionals with both branches,
  \<open>min\<close> and \<open>max\<close>, on variables without graphical functions: their evaluation always returns.
\<close>

fun safe :: "node \<Rightarrow> bool" where
  "safe Null = False"
| "safe (Paren n) = safe n"
| "safe (FloatLit t x) = True"
| "safe (Ident t a) = (a \<noteq> None)"
| "safe (Call left args fn) = (left \<noteq> Null \<and> (fn = Some RT_MIN \<or> fn = Some RT_MAX) \<and> length args \<le> 6 \<and> list_all safe args)"
| "safe (If c l r) = (safe c \<and> safe l \<and> safe r)"
| "safe (Unary op l) = safe l"
| "safe (Binary op l r) = (safe l \<and> safe r)"

definition safe_var :: "avar \<Rightarrow> bool" where
  "safe_var av \<longleftrightarrow> safe (av_node av) \<and> (case av_v av of None \<Rightarrow> False | Some v \<Rightarrow> vgf v = None)"

definition safe_sim :: "sim \<Rightarrow> bool" where
  "safe_sim s \<longleftrightarrow> (\<forall>a \<in> {1..<length (s_heap s)}.
     safe_var (s_heap s ! a) \<or> av_node (s_heap s ! a) = Null \<and> a \<notin> set (stocks (s_heap s ! 0)))"

definition returns :: "'a run \<Rightarrow> bool" where
  "returns r \<longleftrightarrow> (\<exists>x. r = Inr x)"

lemma returns_simps [simp]: "returns (Inr x)" "\<not> returns (Inl e)"
  by (simp_all add: returns_def)

lemma returns_bind: "returns r \<Longrightarrow> (\<And>x. r = Inr x \<Longrightarrow> returns (f x)) \<Longrightarrow> returns (rbind r f)"
  by (auto simp: returns_def)

text \<open>A run that either returns or accesses memory out of bounds.\<close>

definition bounded :: "'a run \<Rightarrow> bool" where
  "bounded r \<longleftrightarrow> returns r \<or> r = Inl OutOfBounds"

lemma bounded_simps [simp]: "bounded (Inr x)" "bounded (Inl e) \<longleftrightarrow> e = OutOfBounds"
  by (simp_all add: bounded_def)

lemma bounded_bind: "bounded r \<Longrightarrow> (\<And>x. r = Inr x \<Longrightarrow> bounded (f x)) \<Longrightarrow> bounded (rbind r f)"
  by (cases r) auto

lemma returns_bounded: "returns r \<Longrightarrow> bounded r"
  by (simp add: bounded_def)

definition readable :: "sim \<Rightarrow> addr set \<Rightarrow> bool" where
  "readable s A \<longleftrightarrow> (\<forall>a \<in> A. \<exists>off. slot (s_heap s) a = Inr off \<and> curr s + off < length (slab s))"

lemma readable_subset: "readable s A \<Longrightarrow> B \<subseteq> A \<Longrightarrow> readable s B"
  by (auto simp: readable_def)

lemma eval_args_returns:
  "\<forall>x \<in> set xs. returns (ev x) \<Longrightarrow> i + length xs \<le> 6 \<Longrightarrow> returns (eval_args ev i xs)"
  by (induction xs arbitrary: i) (auto intro!: returns_bind)

lemma readable_Un [simp]: "readable s (A \<union> B) \<longleftrightarrow> readable s A \<and> readable s B"
  by (auto simp: readable_def)

lemma svisit_returns: "safe n \<Longrightarrow> readable s (names n) \<Longrightarrow> returns (svisit pw s dt time n)"
proof (induction n)
  case (Ident t a)
  then show ?case by (auto simp: readable_def slab_read_def split: option.splits)
next
  case (Call left args fn)
  have "returns (eval_args (svisit pw s dt time) 0 args)"
  proof (rule eval_args_returns)
    show "\<forall>x \<in> set args. returns (svisit pw s dt time x)"
    proof
      fix x assume x: "x \<in> set args"
      have "readable s (names x)" using x by (intro readable_subset [OF Call.prems(2)]) auto
      with Call.IH(2) [OF x] Call.prems(1) x show "returns (svisit pw s dt time x)" by (simp add: list_all_iff)
    qed
  qed (use Call.prems(1) in simp)
  with Call.prems(1) show ?case by (auto simp: call_fn_def intro!: returns_bind)
next
  case (If c l r)
  then show ?case by (auto intro!: returns_bind)
next
  case (Binary op l r)
  then show ?case by (auto intro!: returns_bind)
next
  case (Unary op l)
  then show ?case by (auto intro!: returns_bind)
qed auto

text \<open>In a started simulation everything a variable reads is in the current row.\<close>

lemma ready_readable:
  assumes "run_ready h n dn" "a \<in> members h" "s_heap s = h" "curr s + n \<le> length (slab s)"
  shows "readable s (names (av_node (h ! a)))"
  unfolding readable_def
proof
  fix b assume b: "b \<in> names (av_node (h ! a))"
  have W: "wired h 0" "set (avars (h ! 0)) = members h" using assms(1) by (simp_all add: run_ready_def)
  have "names (av_node (h ! a)) \<subseteq> set (direct_deps (h ! a))" "set (direct_deps (h ! a)) \<subseteq> members h"
    using W assms(2) by (auto simp: wired_def flat_def)
  then have bm: "b \<in> members h" using b by blast
  then have "av_src (h ! b) = None" "b < length h" using W by (auto simp: wired_def members_def)
  then have "slot h b = Inr (offset (h ! b))" by (simp add: slot_def hread_eq)
  with ready_offset [OF assms(1) bm] assms(3,4) show "\<exists>off. slot (s_heap s) b = Inr off \<and> curr s + off < length (slab s)"
    by simp
qed

lemma calc_list_returns:
  assumes R: "run_ready h n dn" and rec: "\<And>s. rec [] s = Inr s"
    and "\<forall>a \<in> set l. a \<in> members h \<and> (av_node (h ! a) = Null \<or> safe_var (h ! a))"
  shows "s_heap s = h \<Longrightarrow> curr s + n \<le> length (slab s) \<Longrightarrow> returns (calc_list rec pw (curr s) initial l s)"
  using assms(3)
proof (induction l arbitrary: s)
  case (Cons a l)
  have a: "a \<in> members h" "a < length h" using Cons.prems(3) by (auto simp: members_def)
  show ?case
  proof (cases "av_node (h ! a) = Null")
    case True
    have "a \<in> set (avars (h ! 0))" "wired h 0" using a(1) R by (simp_all add: run_ready_def)
    then have "idle h a" using True by (auto simp: wired_def)
    with Cons a True rec show ?thesis by (cases initial) (auto simp: hread_eq idle_def)
  next
    case False
    then have sv: "safe_var (h ! a)" using Cons.prems(3) by simp
    have "0 < n" using R by (auto simp: run_ready_def)
    then have "returns (slab_read s (curr s + 0))" using Cons.prems(2) by (simp add: slab_read_def)
    moreover have "returns (svisit pw s dt time (av_node (h ! a)))" for dt time
      using sv ready_readable [OF R a(1) Cons.prems(1,2)] by (intro svisit_returns) (simp_all add: safe_var_def)
    moreover have "returns (apply_gf (h ! a) v)" for v
      using sv by (auto simp: safe_var_def apply_gf_def var_of_def split: option.splits)
    moreover have "returns (slab_write s (curr s + offset (h ! a)) v)" for v
      using ready_offset [OF R a(1)] Cons.prems(2) by (simp add: slab_write_def)
    ultimately have c: "returns (calc_var pw (curr s) (h ! a) s)"
      unfolding calc_var_def by (intro returns_bind)
    have "returns (calc_list rec pw (curr s) initial l u)" if "calc_var pw (curr s) (h ! a) s = Inr u" for u
    proof -
      have "curr u = curr s" "s_heap u = h" "length (slab u) = length (slab s)"
        using calc_var_equation [of pw s a u] that Cons.prems(1) by auto
      with Cons.IH [of u] Cons.prems(2,3) show ?thesis by simp
    qed
    with c False a Cons.prems(1) show ?thesis by (auto simp: hread_eq intro!: returns_bind)
  qed
qed simp

lemma sum_flows_returns:
  "\<forall>b \<in> set l. b < length (s_heap s) \<and> curr s + offset (s_heap s ! b) < length (slab s) \<Longrightarrow> returns (sum_flows upd s l v)"
  by (induction l arbitrary: v) (auto simp: hread_eq slab_read_def intro!: returns_bind)

lemma stock_value_returns:
  assumes R: "run_ready h n dn" and a: "a \<in> members h" "safe_var (h ! a)"
    and s: "s_heap s = h" "curr s + n \<le> length (slab s)"
  shows "returns (stock_value pw s a)"
proof (cases "kind h a = VAR_STOCK")
  case True
  have io: "set (av_inflows (h ! a)) \<subseteq> members h" "set (av_outflows (h ! a)) \<subseteq> members h"
    using R a(1) by (auto simp: run_ready_def)
  have m: "b < length (s_heap s) \<and> curr s + offset (s_heap s ! b) < length (slab s)" if "b \<in> members h" for b
    using ready_offset [OF R that] that s by (auto simp: members_def)
  have "returns (slab_read s (curr s + offset (h ! a)))" using m [OF a(1)] s(1) by (simp add: slab_read_def)
  moreover have "returns (sum_flows upd s (av_inflows (h ! a)) v)" "returns (sum_flows upd s (av_outflows (h ! a)) v)" for upd v
    using io m by (auto intro!: sum_flows_returns)
  ultimately show ?thesis using True s(1)
    by (auto simp: stock_value_def euler_stock_def Let_def intro!: returns_bind)
next
  case False
  have "0 < n" using R by (auto simp: run_ready_def)
  then have "returns (slab_read s (curr s + 0))" using s(2) by (simp add: slab_read_def)
  moreover have "returns (svisit pw s dt time (av_node (h ! a)))" for dt time
    using a(2) ready_readable [OF R a(1) s] by (intro svisit_returns) (simp_all add: safe_var_def)
  ultimately show ?thesis using False s(1)
    by (auto simp: stock_value_def Let_def intro!: returns_bind)
qed

lemma calc_stock_var_value_eq:
  "av_v (s_heap s ! a) = Some v \<Longrightarrow> calc_stock_var pw data (s_heap s ! a) v s =
     rbind (stock_value pw s a) (\<lambda>x. slab_write s (data + offset (s_heap s ! a)) x)"
  by (simp add: calc_stock_var_def stock_value_def kind_def Let_def)

lemma calc_stocks_list_bounded:
  assumes R: "run_ready h n dn"
    and "\<forall>a \<in> set l. a \<in> members h \<and> safe_var (h ! a)"
  shows "s_heap s = h \<Longrightarrow> curr s + n \<le> length (slab s) \<Longrightarrow>
    bounded (calc_stocks_list rec pw data l s) \<and>
    (data + n \<le> length (slab s) \<longrightarrow> returns (calc_stocks_list rec pw data l s))"
  using assms(2)
proof (induction l arbitrary: s)
  case (Cons a l)
  have a: "a \<in> members h" "a < length h" "safe_var (h ! a)" using Cons.prems(3) by (auto simp: members_def)
  have "case av_v (h ! a) of None \<Rightarrow> False | Some v \<Rightarrow> plain v" using R a(1) by (simp add: run_ready_def)
  then obtain v where v: "av_v (h ! a) = Some v" "vtype v \<noteq> VAR_MODULE" by (auto simp: plain_def split: option.splits)
  have e: "calc_stocks_list rec pw data (a # l) s =
      rbind (rbind (stock_value pw s a) (\<lambda>x. slab_write s (data + offset (h ! a)) x)) (calc_stocks_list rec pw data l)"
    using a v Cons.prems(1) calc_stock_var_value_eq [of s a v pw data] by (simp add: hread_eq var_of_def)
  have r: "returns (stock_value pw s a)" by (rule stock_value_returns [OF R a(1,3) Cons.prems(1,2)])
  have w: "bounded (slab_write s i x)" for i x
    by (simp add: slab_write_def awrite_def)
  have w': "returns (slab_write s (data + offset (h ! a)) x)" if "data + n \<le> length (slab s)" for x
    using ready_offset [OF R a(1)] that by (simp add: slab_write_def)
  have IH: "bounded (calc_stocks_list rec pw data l u)"
    "data + n \<le> length (slab s) \<longrightarrow> returns (calc_stocks_list rec pw data l u)"
    if "rbind (stock_value pw s a) (\<lambda>x. slab_write s (data + offset (h ! a)) x) = Inr u" for u
  proof -
    have "s_heap u = h" "curr u = curr s" "length (slab u) = length (slab s)"
      using that Cons.prems(1) by (auto simp: rbind_eq_Inr slab_write_def awrite_Inr)
    with Cons.IH [of u] Cons.prems(2,3)
    show "bounded (calc_stocks_list rec pw data l u)"
      "data + n \<le> length (slab s) \<longrightarrow> returns (calc_stocks_list rec pw data l u)" by simp_all
  qed
  have b: "bounded (rbind (stock_value pw s a) (\<lambda>x. slab_write s (data + offset (h ! a)) x))"
    by (rule bounded_bind [OF returns_bounded [OF r]]) (rule w)
  have "bounded (calc_stocks_list rec pw data (a # l) s)"
    unfolding e by (rule bounded_bind [OF b]) (rule IH(1))
  moreover have "returns (calc_stocks_list rec pw data (a # l) s)" if d: "data + n \<le> length (slab s)"
    unfolding e by (rule returns_bind [OF returns_bind [OF r w' [OF d]]]) (use IH(2) d in blast)
  ultimately show ?case by blast
qed simp

text \<open>A pass of the loop: the accesses past the row that follows the last saved one are the only faults.\<close>

definition run_step_end :: "nat \<Rightarrow> sim \<Rightarrow> (bool \<times> sim) run" where
  "run_step_end nx s =
     (if step s + 1 = nsteps s then Inr (False, s)
      else
        rbind (slab_write s (nx + TIME) (next_time s)) (\<lambda>s.
        if step s mod save_every s \<noteq> 0 then
          rbind (copy_row (s\<lparr> step := step s + 1 \<rparr>) (curr s) nx) (\<lambda>s. Inr (True, s))
        else
          (let s = s\<lparr> step := step s + 1, save_step := save_step s + 1 \<rparr>
           in Inr (True, s\<lparr> curr := sim_curr s, nexti := Some (sim_next s) \<rparr>))))"

lemma run_step_bounded:
  assumes I: "loop_inv pw s0 Rs s" and st: "sim_start pw s0 dn" and k: "step s < nsteps s0" and sf: "safe_sim s0"
  shows "bounded (run_step pw s) \<and> (save_step s < nsaves s0 \<longrightarrow> returns (run_step pw s))"
proof -
  let ?h = "s_heap s0" and ?n = "nvars s0" and ?F = "flows (s_heap s0 ! 0)" and ?S = "stocks (s_heap s0 ! 0)"
  let ?nx = "curr s + ?n"
  have f: "s_heap s = ?h" "s_module s = 0" "s_spec s = s_spec s0" "nvars s = ?n" "nsteps s = nsteps s0"
    "save_every s = save_every s0" "nexti s = Some ?nx" "curr s = save_step s * ?n"
    "length (slab s) = ?n * (nsaves s0 + 1)"
    using I by (auto simp: loop_inv_def)
  have R: "run_ready ?h ?n dn" using st by (simp add: sim_start_def)
  have len: "0 < length ?h" using R by (auto simp: run_ready_def)
  note L = ready_lists [OF R] and room = loop_inv_room [OF I st k, unfolded f(4)]
  have fits: "?nx + ?n \<le> length (slab s)" if "save_step s < nsaves s0"
    using row_in_slab [of "save_step s + 1" "nsaves s0" ?n] that f(8,9) by (simp add: algebra_simps)
  have nx: "?nx + TIME < length (slab s)" if "save_step s < nsaves s0"
    using fits [OF that] room(2) by (simp add: TIME_def)
  have safe: "safe_var (?h ! a) \<or> av_node (?h ! a) = Null \<and> a \<notin> set ?S" if "a \<in> members ?h" for a
    using sf that by (auto simp: safe_sim_def members_def)
  have nil: "calc (length ?h) pw d False [] u = Inr u" for d u using len by (cases "length ?h") auto
  have flows: "returns (calc (depth_fuel ?h) pw (curr s) False ?F s)"
    unfolding depth_fuel_def calc.simps using safe L(1) room(1) f(1)
    by (intro calc_list_returns [OF R]) (blast | simp add: nil)+
  have stocks: "bounded (calc_stocks (depth_fuel ?h) pw ?nx ?S t)"
    "save_step s < nsaves s0 \<Longrightarrow> returns (calc_stocks (depth_fuel ?h) pw ?nx ?S t)"
    if "s_heap t = ?h" "curr t = curr s" "length (slab t) = length (slab s)" for t
  proof -
    have c: "calc_stocks (depth_fuel ?h) pw ?nx ?S t = calc_stocks_list (calc_stocks (length ?h) pw ?nx) pw ?nx ?S t"
      by (simp add: depth_fuel_def)
    have "\<forall>a \<in> set ?S. a \<in> members ?h \<and> safe_var (?h ! a)" using safe L(2) by blast
    from calc_stocks_list_bounded [OF R this, of t "calc_stocks (length ?h) pw ?nx" pw ?nx] that room(1) fits
    show "bounded (calc_stocks (depth_fuel ?h) pw ?nx ?S t)"
      "save_step s < nsaves s0 \<Longrightarrow> returns (calc_stocks (depth_fuel ?h) pw ?nx ?S t)"
      unfolding c by simp_all
  qed
  have after_flows: "s_heap t = ?h \<and> curr t = curr s \<and> length (slab t) = length (slab s) \<and> nvars t = ?n \<and> save_step t = save_step s"
    if "calc (depth_fuel ?h) pw (curr s) False ?F s = Inr t" for t
    using flows_phase [OF I st k, of t] that f frame_fields by auto
  have after_stocks: "curr u = curr s \<and> length (slab u) = length (slab s) \<and> nvars u = ?n"
    if "s_heap t = ?h \<and> curr t = curr s \<and> length (slab t) = length (slab s) \<and> nvars t = ?n"
      "calc_stocks (depth_fuel ?h) pw ?nx ?S t = Inr u" for t u
  proof -
    have c: "calc_stocks_list (calc_stocks (length ?h) pw ?nx) pw ?nx ?S t = Inr u"
      using that(2) by (simp add: depth_fuel_def)
    have w: "\<forall>a \<in> set ?S. a < length (s_heap t) \<and> av_v (s_heap t ! a) \<noteq> None \<and> kind (s_heap t) a \<noteq> VAR_MODULE \<and>
       stock_reads (s_heap t) a \<subseteq> {..<?n}" "distinct (map (\<lambda>a. offset (s_heap t ! a)) ?S)" "curr t + ?n \<le> ?nx"
      using L(7,4) that(1) by simp_all
    from calc_stocks_list_values [OF c w] have "frame ?nx ((\<lambda>a. offset (s_heap t ! a)) ` set ?S) t u" by blast
    from frame_fields [OF this] that(1) show ?thesis by simp
  qed
  have rest: "bounded (run_step_end nx u) \<and> (save_step s < nsaves s0 \<longrightarrow> returns (run_step_end nx u))"
    if "curr u = curr s \<and> length (slab u) = length (slab s) \<and> nvars u = ?n" "nx = ?nx" for u nx
    using that nx fits room(1) by (auto simp: run_step_end_def slab_write_def awrite_def copy_row_def Let_def rbind_def split: sum.splits)
  have e: "run_step pw s = rbind (calc (depth_fuel ?h) pw (curr s) False ?F s) (\<lambda>t.
      rbind (calc_stocks (depth_fuel (s_heap t)) pw ?nx ?S t) (run_step_end ?nx))"
    using f(1-7) len by (simp add: run_step_def run_step_end_def [abs_def] hread_eq)
  show ?thesis unfolding e
  proof (intro conjI impI)
    show "bounded (rbind (calc (depth_fuel ?h) pw (curr s) False ?F s) (\<lambda>t.
      rbind (calc_stocks (depth_fuel (s_heap t)) pw ?nx ?S t) (run_step_end ?nx)))"
    proof (rule bounded_bind [OF returns_bounded [OF flows]])
      fix t assume "calc (depth_fuel ?h) pw (curr s) False ?F s = Inr t"
      note t = after_flows [OF this]
      show "bounded (rbind (calc_stocks (depth_fuel (s_heap t)) pw ?nx ?S t) (run_step_end ?nx))"
      proof (rule bounded_bind)
        show "bounded (calc_stocks (depth_fuel (s_heap t)) pw ?nx ?S t)" using stocks(1) [of t] t by simp
        fix u assume "calc_stocks (depth_fuel (s_heap t)) pw ?nx ?S t = Inr u"
        then have "curr u = curr s \<and> length (slab u) = length (slab s) \<and> nvars u = ?n"
          using t after_stocks [of t u] by simp
        from rest [OF this refl] show "bounded (run_step_end ?nx u)" by blast
      qed
    qed
    assume r: "save_step s < nsaves s0"
    show "returns (rbind (calc (depth_fuel ?h) pw (curr s) False ?F s) (\<lambda>t.
      rbind (calc_stocks (depth_fuel (s_heap t)) pw ?nx ?S t) (run_step_end ?nx)))"
    proof (rule returns_bind [OF flows])
      fix t assume "calc (depth_fuel ?h) pw (curr s) False ?F s = Inr t"
      note t = after_flows [OF this]
      show "returns (rbind (calc_stocks (depth_fuel (s_heap t)) pw ?nx ?S t) (run_step_end ?nx))"
      proof (rule returns_bind)
        show "returns (calc_stocks (depth_fuel (s_heap t)) pw ?nx ?S t)" using stocks(2) [of t] t r by simp
        fix u assume "calc_stocks (depth_fuel (s_heap t)) pw ?nx ?S t = Inr u"
        then have "curr u = curr s \<and> length (slab u) = length (slab s) \<and> nvars u = ?n"
          using t after_stocks [of t u] by simp
        from rest [OF this refl] show "returns (run_step_end ?nx u)" using r by blast
      qed
    qed
  qed
qed

text \<open>The condition under which the rows fit in the slab.\<close>

lemma rows_fit:
  assumes "fresh_sim s" "(nsteps s - 1) mod save_every s = 0" "k < nsteps s"
  shows "rows_saved k (save_every s) < nsaves s"
proof -
  let ?e = "save_every s"
  have e: "0 < ?e" using assms(1) by (simp add: fresh_sim_def)
  have ns: "nsaves s = (nsteps s - 1) div ?e + 1" using nsaves_rows [OF assms(1)] assms(3) by simp
  show ?thesis
  proof (cases "k = 0")
    case False
    then have "nsteps s - 1 \<noteq> 0" using assms(3) by simp
    have m: "0 < (nsteps s - 1) div ?e"
      using \<open>nsteps s - 1 \<noteq> 0\<close> assms(2) e by (auto simp: div_greater_zero_iff dvd_imp_le)
    have "(k - 1) div ?e \<le> (nsteps s - 1 - 1) div ?e" using assms(3) by (intro div_le_mono) simp
    also have "\<dots> = (nsteps s - 1) div ?e - 1" using pred_div [OF e \<open>nsteps s - 1 \<noteq> 0\<close>] assms(2) by simp
    finally show ?thesis using ns m False by (simp add: rows_saved_def)
  qed (simp add: rows_saved_def ns)
qed

lemma run_loop_bounded:
  assumes st: "sim_start pw s0 dn" and sf: "safe_sim s0"
  shows "loop_inv pw s0 Rs s \<Longrightarrow> nsteps s0 - step s < n \<Longrightarrow>
    bounded (run_loop n pw end_time s) \<and>
    ((nsteps s0 - 1) mod save_every s0 = 0 \<longrightarrow> returns (run_loop n pw end_time s))"
proof (induction n arbitrary: s Rs)
  case (Suc n)
  note I = Suc.prems(1)
  have f: "nsteps s = nsteps s0" "step s = length Rs" "save_step s = rows_saved (step s) (save_every s0)"
    "nvars s = nvars s0" using I by (auto simp: loop_inv_def)
  have fs: "fresh_sim s0" using st by (simp add: sim_start_def)
  show ?case
  proof (cases "step s < nsteps s0")
    case True
    note B = run_step_bounded [OF I st True sf]
    have fit: "save_step s < nsaves s0" if "(nsteps s0 - 1) mod save_every s0 = 0"
      using rows_fit [OF fs that True] f(3) by simp
    have next_pass: "bounded (if b then run_loop n pw end_time s' else Inr s') \<and>
        ((nsteps s0 - 1) mod save_every s0 = 0 \<longrightarrow> returns (if b then run_loop n pw end_time s' else Inr s'))"
      if r: "run_step pw s = Inr (b, s')" for b s'
    proof (cases b)
      case True
      then obtain q where q: "loop_inv pw s0 (Rs @ [q]) s'"
        using run_step_more [OF I st \<open>step s < nsteps s0\<close>, of s'] r by auto
      then have "nsteps s0 - step s' < n" using Suc.prems(2) f(2) \<open>step s < nsteps s0\<close> by (simp add: loop_inv_def)
      with Suc.IH [OF q] True show ?thesis by simp
    qed simp
    let ?k = "\<lambda>(continue, s'). if continue then run_loop n pw end_time s' else Inr s'"
    have b: "bounded (rbind (run_step pw s) ?k)"
      by (rule bounded_bind [OF conjunct1 [OF B]]) (use next_pass in \<open>auto split: prod.split\<close>)
    have r: "returns (rbind (run_step pw s) ?k)" if "(nsteps s0 - 1) mod save_every s0 = 0"
      by (rule returns_bind [OF mp [OF conjunct2 [OF B] fit [OF that]]])
        (use next_pass that in \<open>auto split: prod.split\<close>)
    obtain now where "slab_read s (curr s + TIME) = Inr now"
      using loop_inv_room [OF I st True] by (simp add: slab_read_def TIME_def)
    then have "run_loop (Suc n) pw end_time s =
        (if fp_le now end_time then rbind (run_step pw s) ?k else Inr s)"
      using True f(1) by simp
    with b r show ?thesis by simp
  qed (simp add: f)
qed simp

section \<open>Correctness of a simulation\<close>

text \<open>The state after a run to the end: the rows of a trajectory in the slab, all else as it was.\<close>

lemma run_to_end_rows:
  assumes "sim_start pw s dn" "0 < nsteps s"
    "\<forall>k < nsteps s. fp_le (time_at (s_spec s) k) (d_add (sp_stop (s_spec s)) (d_int 1))"
    "sd_sim_run_to_end pw (Some s) = Inr (res, Some t)"
  shows "res = 0 \<and> (\<exists>Rs. length Rs = nsteps s \<and> traj pw s Rs \<and>
    (\<forall>j < nsaves s. row_of t (j * nvars s) = Rs ! (j * save_every s)) \<and>
    s_heap t = s_heap s \<and> s_module t = 0 \<and> nsaves t = nsaves s \<and> nvars t = nvars s \<and>
    length (slab t) = nvars s * (nsaves s + 1))"
proof -
  let ?s = "s\<lparr> curr := sim_curr s, nexti := Some (sim_next s) \<rparr>"
  have "run_loop (Suc (nsteps s - step s)) pw (d_add (sp_stop (s_spec s)) (d_int 1)) ?s = Inr t" "res = 0"
    using assms(4) by (auto simp: sd_sim_run_to_end_def sd_sim_run_to_def rbind_eq_Inr simp del: run_loop.simps)
  moreover have "step ?s < nsteps s" using assms(1,2) by (simp add: sim_start_def fresh_sim_def)
  ultimately show ?thesis
    using run_loop_trajectory [OF assms(1,3) _ start_loop_inv [OF assms(1)]] by blast
qed

lemma example_plain: "plain_root (example_project sv) None"
  by (simp add: plain_root_def example_get sd_model_ref_def example_model_def flow_f_def stock_s_def plain_def)



text \<open>
  C3. When \<open>sd_sim_new\<close> succeeds on a model without submodules, the first row shows the start
  time and solves the model: every variable has the value of its equation, with its graphical
  function applied, at the values of that row, whatever the order of the variables in the file.
  (The variables of the model have the addresses from 2 on.)
\<close>

theorem sd_sim_new_solves:
  assumes "plain_root p nm" "sd_sim_new pw alloc (Some p) nm = Inr (Some s)"
  shows "slab_read s (curr s + TIME) = Inr (sp_start (s_spec s)) \<and>
    (\<forall>a \<in> {2..<length (s_heap s)}. av_node (s_heap s ! a) \<noteq> Null \<longrightarrow> solves pw s a)"
proof -
  obtain dn where "sim_start pw s dn" using sim_new_start [OF assms] by blast
  then show ?thesis by (auto simp: sim_start_def run_ready_def)
qed

lemma sd_sim_new_solves_witness:
  "solves (\<lambda>x y. x) example_sim 2 \<and> solves (\<lambda>x y. x) example_sim 3"
  using sd_sim_new_solves [OF example_plain example_new, where pw = "\<lambda>x y. x"]
  by (auto simp: example_sim_def example_defs)



text \<open>Reading a column of the saved rows.\<close>

lemma series_rows:
  "off < nvars s \<Longrightarrow> (i + n) * nvars s \<le> length (slab s) \<Longrightarrow>
   series s off i n = Inr (map (\<lambda>j. row_of s (j * nvars s) ! off) [i..<i + n])"
proof (induction n arbitrary: i)
  case (Suc n)
  have "i * nvars s + nvars s \<le> (i + Suc n) * nvars s" by (simp add: algebra_simps)
  with Suc.prems(2) have r: "i * nvars s + nvars s \<le> length (slab s)" by linarith
  then have "slab_read s (i * nvars s + off) = Inr (row_of s (i * nvars s) ! off)"
    using Suc.prems(1) by (simp add: slab_read_def nth_row_of)
  moreover have "series s off (i + 1) n = Inr (map (\<lambda>j. row_of s (j * nvars s) ! off) [i + 1..<i + 1 + n])"
    using Suc.IH [of "i + 1"] Suc.prems by (simp add: algebra_simps)
  moreover have "[i..<i + Suc n] = i # [i + 1..<i + 1 + n]" using upt_conv_Cons [of i "i + Suc n"] by simp
  ultimately show ?case by simp
qed simp





text \<open>
  C7. When the number of steps after the first is not a multiple of \<open>save_every\<close> and the model has
  a stock, a run to the end writes the stocks past the end of the slab: the slab holds one row more
  than are saved, and in the last step that row is the current one.
\<close>

theorem sd_sim_run_to_end_overflows:
  assumes "plain_root p nm" "sd_sim_new pw alloc (Some p) nm = Inr (Some s)" "safe_sim s"
    "(nsteps s - 1) mod save_every s \<noteq> 0" "stocks (s_heap s ! 0) \<noteq> []"
    "\<forall>k < nsteps s. fp_le (time_at (s_spec s) k) (d_add (sp_stop (s_spec s)) (d_int 1))"
  shows "sd_sim_run_to_end pw (Some s) = Inl OutOfBounds"
proof -
  obtain dn where st: "sim_start pw s dn" using sim_new_start [OF assms(1,2)] by blast
  then have fs: "fresh_sim s" "step s = 0" "0 < save_every s" by (auto simp: sim_start_def fresh_sim_def)
  let ?s = "s\<lparr> curr := sim_curr s, nexti := Some (sim_next s) \<rparr>"
  let ?r = "run_loop (Suc (nsteps s - step s)) pw (d_add (sp_stop (s_spec s)) (d_int 1)) ?s"
  note I = start_loop_inv [OF st]
  have n: "0 < nsteps s" using assms(4) by (cases "nsteps s = 0") auto
  have "\<not> rows_saved (nsteps s - 1) (save_every s) < nsaves s"
    using assms(4) n nsaves_rows [OF fs(1)] pred_div [OF fs(3), of "nsteps s - 1"] by (auto simp: rows_saved_def)
  then have "?r \<noteq> Inr t" for t
    using run_loop_trajectory [OF st assms(6) _ I] n fs(2) assms(5) by fastforce
  moreover have "bounded ?r" using run_loop_bounded [OF st assms(3) I, of "Suc (nsteps s - step s)"] by simp
  ultimately have "?r = Inl OutOfBounds" by (auto simp: bounded_def returns_def)
  then show ?thesis by (simp add: sd_sim_run_to_end_def sd_sim_run_to_def del: run_loop.simps)
qed

lemma sd_sim_run_to_end_overflows_witness:
  "sd_sim_run_to_end (\<lambda>x y. x) (Some late_sim) = Inl OutOfBounds"
proof (rule sd_sim_run_to_end_overflows [OF example_plain late_new])
  show "safe_sim late_sim"
    by (auto simp: safe_sim_def safe_var_def late_sim_def example_defs numeral_eq_Suc less_Suc_eq)
  show "\<forall>k < nsteps late_sim. fp_le (time_at (s_spec late_sim) k) (d_add (sp_stop (s_spec late_sim)) (d_int 1))"
    by (simp add: late_sim_def example_spec_def spec_zero_def numeral_2_eq_2 less_Suc_eq time_at_def example_arith
        del: fp_add.simps)
qed (simp_all add: late_sim_def example_defs)

end
