(* ===== verification/Document.thy ===== *)
theory Document
  imports Xml Run
begin

text \<open>
  From the text of a model file to a simulation: what \<open>project_parse_file\<close> makes of a whole
  document, and a small document that \<open>sd_project_open\<close> reads into the project of the example, with
  the simulation it leads to.
\<close>

section \<open>A document\<close>

lemma trimmed_eq:
  "trimmed s =
     (if front_ok (dropWhile blank s) then Inr (rev (dropWhile blank (rev (dropWhile blank s)))) else Inl OutOfBounds)"
proof -
  let ?t = "dropWhile blank s"
  have "take (length (rev (dropWhile blank (rev ?t)))) ?t = rev (dropWhile blank (rev ?t))"
    by (metis append_eq_conv_conj rev_append rev_rev_ident takeWhile_dropWhile_id)
  then show ?thesis by (simp add: trimmed_def strtrim_eq dropWhile_eq_drop)
qed

lemma front_ok_ascii: "front_ok []" "(of_char c :: nat) < 128 \<Longrightarrow> front_ok (c # t)"
  by (simp_all add: front_ok_def charntorune_ascii unat_small)

lemmas trimmed_eval = trimmed_eq front_ok_ascii blank_def isspace_byte_def

definition text_elem :: "cstr \<Rightarrow> cstr \<Rightarrow> xml" where
  "text_elem n s = Elem n [] [Text s]"

definition example_specs_elem :: xml where
  "example_specs_elem = Elem ''sim_specs'' [] [text_elem ''start'' ''0'', text_elem ''stop'' '' 1 '', text_elem ''dt'' ''1'']"

definition example_model_elem :: xml where
  "example_model_elem = Elem ''model'' [] [Elem ''variables'' []
     [Elem ''flow'' [(''name'', ''F'')] [Text '' '', text_elem ''eqn'' ''s''],
      Elem ''stock'' [(''name'', ''s'')] [text_elem ''eqn'' ''1'', text_elem ''inflow'' ''f'']]]"

definition example_kids :: "xml list" where
  "example_kids = [example_specs_elem, Text '' '', example_model_elem]"

lemma example_text:
  "trimmed ''0'' = Inr ''0''" "trimmed ''1'' = Inr ''1''" "trimmed '' 1 '' = Inr ''1''"
  "trimmed ''s'' = Inr ''s''" "trimmed ''f'' = Inr ''f''" "trimmed '' '' = Inr []"
  by (simp_all add: trimmed_eval)

lemma char_f: "char_of (102::nat) = CHR ''f''"
proof -
  have "of_char (CHR ''f'') = (102::nat)" by simp
  then show ?thesis by (metis char_of_char)
qed

lemma example_canon:
  "canonicalize ''F'' = Inr ''f''" "canonicalize ''f'' = Inr ''f''" "canonicalize ''s'' = Inr ''s''"
  by (simp_all add: canon_eval char_f)

lemma example_digits: "number_of ''0'' = d_zero" "number_of ''1'' = d_int 1"
  by (simp_all add: number_of_def strtod_eval two_Suc)

lemmas item_eval = add_text_def text_elem_def node_builder_new_def xmile_builder_end_child_def
  node_builder_get_attr_def node_builder_get_first_child_def child_content_def example_text example_canon example_digits

lemma example_specs_read:
  "file_item file_zero example_specs_elem = Inr (file_zero\<lparr> f_sim_specs := example_spec (d_int 1) \<rparr>)"
  by (simp add: example_specs_elem_def item_eval with_specs_def specs_from_def dt_from_def Let_def
      file_zero_def spec_zero_def example_spec_def)

lemma example_model_read:
  "file_item (file_zero\<lparr> f_sim_specs := example_spec (d_int 1) \<rparr>) example_model_elem =
     Inr (file_zero\<lparr> f_sim_specs := example_spec (d_int 1), f_models := [example_model (d_int 1)] \<rparr>)"
  by (simp add: example_model_elem_def item_eval model_from_node_builder_def var_from_node_builder_def var_type_of_tag_def
      file_zero_def example_model_def flow_f_def stock_s_def)

lemma example_file:
  "fold_run file_item file_zero example_kids =
     Inr (file_zero\<lparr> f_sim_specs := example_spec (d_int 1), f_models := [example_model (d_int 1)] \<rparr>)"
  by (simp add: example_kids_def example_specs_read example_model_read example_text)

lemma parse_events:
  assumes "height (Elem doc a kids) \<le> STACKLEN"
  shows "project_parse_file alloc p (events (Elem doc a kids)) well_formed =
    rbind (fold_run file_item file_zero kids) (\<lambda>f.
      Inr (if well_formed then (SD_ERR_NO_ERROR, snd (project_add_file alloc p f)) else (SD_ERR_BAD_XML, p)))"
proof -
  let ?r = "\<lambda>f. \<lparr> bs_stack = [Xmile], bs_file = f \<rparr>"
  have h: "height x + 1 \<le> STACKLEN" if "x \<in> set kids" for x
    using assms that fold_max_le [of "map height kids" 0 "STACKLEN - 1"] by auto
  have "fold_run handle_event (?r u) (concat (map events kids)) = rbind (fold_run file_item u kids) (\<lambda>f. Inr (?r f))" for u
  proof (rule fold_run_map_events [where P = "\<lambda>_. True"])
    fix x u assume "x \<in> set kids"
    then show "fold_run handle_event (?r u) (events x) = rbind (file_item u x) (\<lambda>f. Inr (?r f))"
      by (rule file_events [OF h])
  qed simp_all
  then show ?thesis
    by (cases "fold_run file_item file_zero kids")
      (simp_all add: project_parse_file_def builder_stack_start_element_def builder_stack_end_element_def fold_run_append)
qed

text \<open>The example document opens as the example project.\<close>

lemma example_height: "height (Elem ''xmile'' [] example_kids) \<le> STACKLEN"
  by (simp add: example_kids_def example_specs_elem_def example_model_elem_def text_elem_def STACKLEN_def)

lemma example_open:
  "sd_project_open (\<lambda>_. True) (\<lambda>_. ''.'') (Some (events (Elem ''xmile'' [] example_kids), True)) path =
     Inr (Some (example_project (d_int 1)), None)"
  unfolding sd_project_open_def option.case prod.case parse_events [OF example_height] example_file
  by (simp add: project_add_file_def example_project_def)

section \<open>Well-formed files\<close>

text \<open>
  What the later stages rely on: tables have as many \<open>x\<close> as \<open>y\<close> values and at least one, a
  variable has one of the four types of the file format, and its connections have both names.
\<close>

definition wf_table :: "table \<Rightarrow> bool" where
  "wf_table t \<longleftrightarrow> length (tbl_x t) = tbl_len t \<and> length (tbl_y t) = tbl_len t \<and> 0 < tbl_len t"

definition wf_ref :: "var \<Rightarrow> bool" where
  "wf_ref r \<longleftrightarrow> vtype r = VAR_REF \<and> vname r \<noteq> None \<and> vsrc r \<noteq> None \<and> veqn r = None \<and> vconns r = []"

definition wf_var :: "var \<Rightarrow> bool" where
  "wf_var v \<longleftrightarrow> vtype v \<in> {VAR_STOCK, VAR_FLOW, VAR_AUX, VAR_MODULE} \<and> list_all wf_ref (vconns v) \<and>
     (case vgf v of None \<Rightarrow> True | Some t \<Rightarrow> wf_table t)"

definition wf_file :: "sd_file \<Rightarrow> bool" where
  "wf_file f \<longleftrightarrow> list_all (\<lambda>m. m_file_specs m = f_sim_specs f \<and> list_all wf_var (m_vars m)) (f_models f)"

lemma read_points_length: "read_points n pts = Inr (Some ys) \<Longrightarrow> length ys = n"
proof (induction n arbitrary: pts ys)
  case (Suc n)
  then obtain s where s: "pts = Some s" by (cases pts) simp_all
  obtain v rest e where x: "strtod s = (v, rest, e)" by (metis prod_cases3)
  obtain r where r: "read_points n (if rest = [] then None else Some (tl rest)) = Inr r" "map_option ((#) v) r = Some ys"
    using Suc.prems by (auto simp: s x rbind_eq_Inr simp del: split_paired_Ex split: if_split_asm)
  then obtain zs where "r = Some zs" "ys = v # zs" by auto
  with r(1) Suc.IH show ?case by simp
qed simp

lemma table_wf: "table_from_node_builder nb = Inr (Some t) \<Longrightarrow> wf_table t"
proof -
  assume r: "table_from_node_builder nb = Inr (Some t)"
  then obtain ys where ys: "child_content nb ''ypts'' = Some ys"
    by (cases "child_content nb ''ypts''") (simp_all add: table_from_node_builder_def)
  let ?n = "points_count ys"
  let ?x = "case node_builder_get_first_child nb ''xpts'' of
      Some xpts \<Rightarrow> (case nb_content xpts of None \<Rightarrow> Inl NullDeref | Some xs \<Rightarrow> read_points ?n (Some xs))
    | None \<Rightarrow> (case node_builder_get_first_child nb ''xscale'' of
        None \<Rightarrow> Inr None
      | Some sc \<Rightarrow> Inr (Some (scale_points ?n (attr_number sc ''min'') (attr_number sc ''max''))))"
  obtain y where y: "read_points ?n (Some ys) = Inr y" using r ys by (auto simp: table_from_node_builder_def rbind_eq_Inr Let_def)
  then obtain y' where y': "y = Some y'" using r ys by (cases y) (simp_all add: table_from_node_builder_def Let_def)
  obtain x where x: "?x = Inr (Some x)" "t = \<lparr> tbl_x = x, tbl_y = y', tbl_len = ?n \<rparr>"
    using r unfolding table_from_node_builder_def ys option.case Let_def y y' rbind_Inr by (auto simp: rbind_eq_Inr)
  have "length x = ?n"
    using x(1) by (auto simp: scale_points_def split: option.splits dest: read_points_length)
  with x(2) y y' show ?thesis by (simp add: wf_table_def read_points_length) (simp add: points_count_def)
qed

lemma ref_wf: "ref_from_node_builder nb = Inr (Some r) \<Longrightarrow> wf_ref r"
  by (auto simp: ref_from_node_builder_def wf_ref_def rbind_eq_Inr split: option.splits)

lemma fold_run_inv:
  "fold_run f s xs = Inr t \<Longrightarrow> P s \<Longrightarrow> (\<And>x u v. x \<in> set xs \<Longrightarrow> f u x = Inr v \<Longrightarrow> P u \<Longrightarrow> P v) \<Longrightarrow> P t"
proof (induction xs arbitrary: s)
  case (Cons x xs)
  from Cons.prems(1) obtain u where u: "f s x = Inr u" "fold_run f u xs = Inr t" by (auto simp: rbind_eq_Inr)
  show ?case
  proof (rule Cons.IH [OF u(2)])
    show "P u" by (rule Cons.prems(3) [OF _ u(1) Cons.prems(2)]) simp
  qed (rule Cons.prems(3); simp)
qed simp

lemma var_child_wf: "var_child v c = Inr w \<Longrightarrow> wf_var v \<Longrightarrow> wf_var w"
proof (cases v)
  case (Var ty nm eqn src ins outs cs gf neg)
  assume r: "var_child v c = Inr w" and v: "wf_var v"
  have step: "wf_var (Var ty nm eqn src ins' outs' cs' gf' neg')"
    if "list_all wf_ref cs'" "case gf' of None \<Rightarrow> True | Some t \<Rightarrow> wf_table t" for ins' outs' cs' gf' neg'
    using v that unfolding Var wf_var_def by simp
  have cs: "list_all wf_ref cs" "case gf of None \<Rightarrow> True | Some t \<Rightarrow> wf_table t" using v unfolding Var wf_var_def by simp_all
  consider "\<exists>ins' outs' neg'. w = Var ty nm eqn src ins' outs' cs gf neg'"
    | t where "table_from_node_builder c = Inr t" "w = Var ty nm eqn src ins outs cs t neg"
    | r where "ref_from_node_builder c = Inr r" "w = Var ty nm eqn src ins outs (case r of None \<Rightarrow> cs | Some r \<Rightarrow> cs @ [r]) gf neg"
    using r unfolding Var var_child.simps by (auto simp: rbind_eq_Inr split: if_split_asm option.splits)
  then show ?thesis
  proof cases
    case 1
    with step cs show ?thesis by blast
  next
    case (2 t)
    with step [OF cs(1), of t] table_wf [of c] show ?thesis by (cases t) simp_all
  next
    case (3 r)
    with step [OF _ cs(2)] cs(1) ref_wf [of c] show ?thesis by (cases r) simp_all
  qed
qed

lemma var_wf: "var_from_node_builder nb = Inr (Some v) \<Longrightarrow> wf_var v"
proof -
  assume "var_from_node_builder nb = Inr (Some v)"
  then obtain ty nm where ty: "var_type_of_tag (nb_name nb) = Some ty"
    and f: "fold_run var_child (Var ty nm (child_content nb ''eqn'') None [] [] [] None False) (nb_children nb) = Inr v"
    by (auto simp: var_from_node_builder_def rbind_eq_Inr split: option.splits)
  have "wf_var (Var ty nm (child_content nb ''eqn'') None [] [] [] None False)"
    using ty by (auto simp: wf_var_def var_type_of_tag_def split: if_split_asm)
  from fold_run_inv [OF f, of wf_var, OF this] var_child_wf show ?thesis by blast
qed

lemma model_wf: "model_from_node_builder nb = Inr m \<Longrightarrow> list_all wf_var (m_vars m)"
proof -
  assume m: "model_from_node_builder nb = Inr m"
  have vars: "list_all wf_var vs" if "fold_run (\<lambda>acc c. rbind (var_from_node_builder c) (\<lambda>v.
      Inr (case v of None \<Rightarrow> acc | Some v \<Rightarrow> acc @ [v]))) [] xs = Inr vs" for xs vs
    by (rule fold_run_inv [OF that]) (auto simp: rbind_eq_Inr split: option.splits dest: var_wf)
  show ?thesis
    using m by (cases "node_builder_get_first_child nb ''variables''")
      (auto simp: model_from_node_builder_def rbind_eq_Inr dest: vars)
qed

lemma end_child_wf: "xmile_builder_end_child f tag c = Inr g \<Longrightarrow> wf_file f \<Longrightarrow> wf_file g"
  by (auto simp: xmile_builder_end_child_def wf_file_def with_specs_def rbind_eq_Inr list.pred_map comp_def
      split: if_split_asm dest: model_wf elim!: list.pred_mono_strong)

lemma handle_event_wf: "handle_event bs e = Inr bt \<Longrightarrow> wf_file (bs_file bs) \<Longrightarrow> wf_file (bs_file bt)"
  by (cases e) (auto simp: builder_stack_start_element_def builder_stack_end_element_def builder_stack_characters_def
      rbind_eq_Inr Let_def split: if_split_asm builder.splits dest: end_child_wf)

text \<open>
  C13. Whatever the callbacks are, the files of the project stay well-formed: tables are never empty
  and have as many \<open>x\<close> as \<open>y\<close> values, every variable has one of the four types of the format, every
  connection has a source and a target name, and the models share the specifications of their file.
\<close>

theorem project_parse_file_typed:
  assumes "list_all wf_file (pfiles p)" "project_parse_file alloc p evs well_formed = Inr (err, q)"
  shows "list_all wf_file (pfiles q)"
proof -
  obtain bs where bs: "fold_run handle_event \<lparr> bs_stack = [], bs_file = file_zero \<rparr> evs = Inr bs"
    and q: "q = (if well_formed then snd (project_add_file alloc p (bs_file bs)) else p)"
    using assms(2) by (auto simp: project_parse_file_def rbind_eq_Inr split: if_split_asm)
  have "wf_file (bs_file \<lparr> bs_stack = [], bs_file = file_zero \<rparr>)" by (simp add: wf_file_def file_zero_def)
  from fold_run_inv [OF bs, of "\<lambda>b. wf_file (bs_file b)", OF this handle_event_wf] have "wf_file (bs_file bs)" .
  with q assms(1) show ?thesis by (simp add: project_add_file_def)
qed
lemma project_parse_file_typed_witness: "list_all wf_file (pfiles (example_project (d_int 1)))"
proof -
  let ?p = "\<lparr> dir_path = ''.'', pfiles = [], p_refcount = 1 \<rparr>"
  have "project_parse_file (\<lambda>_. True) ?p (events (Elem ''xmile'' [] example_kids)) True =
      Inr (SD_ERR_NO_ERROR, example_project (d_int 1))"
    unfolding parse_events [OF example_height] example_file by (simp add: project_add_file_def example_project_def)
  moreover have "list_all wf_file (pfiles ?p)" by simp
  ultimately show ?thesis by (rule project_parse_file_typed [rotated])
qed

section \<open>The file of a document\<close>

text \<open>
  C12. Reading a document whose elements are nested at most 32 deep, the stack of builders makes
  exactly the file the recursion over the tree of the document makes: child elements in order, the
  trimmed pieces of text joined, and each child of the document element handed to the XMILE builder
  when it is complete. Faults of the text functions are those of the recursion.
\<close>

theorem project_parse_file_tree:
  assumes "height (Elem doc a kids) \<le> STACKLEN"
  shows "project_parse_file alloc p (events (Elem doc a kids)) well_formed =
    rbind (fold_run file_item file_zero kids) (\<lambda>f.
      Inr (if well_formed then (SD_ERR_NO_ERROR, snd (project_add_file alloc p f)) else (SD_ERR_BAD_XML, p)))"
  by (rule parse_events [OF assms])

lemma project_parse_file_tree_witness:
  "project_parse_file (\<lambda>_. True) \<lparr> dir_path = ''.'', pfiles = [], p_refcount = 1 \<rparr>
     (events (Elem ''xmile'' [] example_kids)) True = Inr (SD_ERR_NO_ERROR, example_project (d_int 1))"
  unfolding project_parse_file_tree [OF example_height] example_file
  by (simp add: project_add_file_def example_project_def)

end
