(* ===== verification/Mdl.thy ===== *)
theory Mdl
  imports Names Document
begin

text \<open>
  The command-line program of \<^verbatim>\<open>mdl.c\<close>: it opens the model file it is given, simulates the model
  to the end and prints a table, the names of the variables and below them one line per saved step.

  The arguments of \<open>mdl_main\<close> are the machine's \<open>pow\<close>, whether \<open>calloc\<close> delivers a number of
  doubles or pointers, \<open>dirname\<close>, the files (what the XML parser makes of each path), the text that
  the C library prints for a NaN, the name of the program, and its arguments. The result is what the
  process leaves behind. Releasing memory at the end is not modelled.
\<close>

section \<open>Printed numbers\<close>

definition digit :: "nat \<Rightarrow> char" where
  "digit d = char_of (48 + d)"

fun show_nat :: "nat \<Rightarrow> cstr" where
  "show_nat n = (if n < 10 then [digit n] else show_nat (n div 10) @ [digit (n mod 10)])"

declare show_nat.simps [simp del]

text \<open>The format \<^verbatim>\<open>%d\<close>.\<close>

definition show_int :: "int \<Rightarrow> cstr" where
  "show_int i = (if i < 0 then ''-'' @ show_nat (nat (- i)) else show_nat (nat i))"

primrec fixed_digits :: "nat \<Rightarrow> nat \<Rightarrow> cstr" where
  "fixed_digits 0 n = []"
| "fixed_digits (Suc k) n = fixed_digits k (n div 10) @ [digit (n mod 10)]"

text \<open>
  The format \<^verbatim>\<open>%f\<close>: the exact value, rounded to six decimals, ties to even. The sign of a NaN is
  not part of the model, so its text is a parameter.
\<close>

definition round_div :: "nat \<Rightarrow> nat \<Rightarrow> nat" where
  "round_div n d =
     (let q = n div d; r = n mod d in if d < 2 * r \<or> d = 2 * r \<and> odd q then q + 1 else q)"

definition millionths :: "nat \<Rightarrow> int \<Rightarrow> nat" where
  "millionths m e = (if 0 \<le> e then m * 2 ^ nat e * 10 ^ 6 else round_div (m * 10 ^ 6) (2 ^ nat (- e)))"

fun show_double :: "cstr \<Rightarrow> fp \<Rightarrow> cstr" where
  "show_double nan NaN = nan"
| "show_double nan (Inf s) = (if s then ''-inf'' else ''inf'')"
| "show_double nan (Fin s m e) =
     (if s then ''-'' else []) @ show_nat (millionths m e div 10 ^ 6) @ ''.'' @ fixed_digits 6 (millionths m e mod 10 ^ 6)"

section \<open>The program\<close>

record process =
  exit_status :: int
  stdout :: cstr
  stderr :: cstr

definition die :: "cstr \<Rightarrow> cstr \<Rightarrow> process" where
  "die out msg = \<lparr> exit_status = 1, stdout = out, stderr = msg \<rparr>"

definition usage :: "cstr \<Rightarrow> cstr" where
  "usage argv0 = ''Usage: '' @ argv0 @ '' [OPTION...] PATH'' @ [CHR 0x0A] @
     ''Simulate system dynamics models.'' @ [CHR 0x0A, CHR 0x0A] @ ''Options:'' @ [CHR 0x0A] @
     ''  -help:'' @ [CHR 0x09] @ ''show this message'' @ [CHR 0x0A]"

definition single_path :: cstr where
  "single_path = ''specify a single path to a model'' @ [CHR 0x0A]"

text \<open>\<open>Inl\<close> what is printed when the program gives up; \<open>Inr\<close> the path, if any.\<close>

fun parse_args :: "cstr \<Rightarrow> cstr option \<Rightarrow> cstr list \<Rightarrow> cstr + cstr option" where
  "parse_args argv0 path [] = Inr path"
| "parse_args argv0 path (arg # as) =
     (if arg = ''-help'' then Inl (usage argv0)
      else if take 1 arg = ''-'' then Inl (''unknown arg '' @ [CHR 0x27] @ arg @ [CHR 0x27, CHR 0x0A] @ usage argv0)
      else if path = None then parse_args argv0 (Some arg) as
      else Inl (single_path @ usage argv0))"

text \<open>The words of a line, with tabs between them.\<close>

fun tab_line :: "cstr list \<Rightarrow> cstr" where
  "tab_line [] = []"
| "tab_line [w] = w @ [CHR 0x0A]"
| "tab_line (w # ws) = w @ [CHR 0x09] @ tab_line ws"

text \<open>
  The loop that reads the series and prints the names; \<open>v\<close> is its index and \<open>out\<close> the output so
  far. \<open>get_series\<close> returns -1 for the null pointer of a failed allocation, too.
\<close>

primrec read_results ::
  "(nat \<Rightarrow> bool) \<Rightarrow> sim option \<Rightarrow> int \<Rightarrow> int \<Rightarrow> nat \<Rightarrow> cstr \<Rightarrow> cstr option list \<Rightarrow> (process + cstr \<times> fp list list) run" where
  "read_results alloc s steps vars v out [] = Inr (Inr (out, []))"
| "read_results alloc s steps vars v out (name # ns) =
     rbind (if alloc (nat steps) then sd_sim_get_series s name (nat steps) else Inr (- 1, [])) (\<lambda>(n, xs).
     case name of
       None \<Rightarrow> Inl NullDeref
     | Some nm \<Rightarrow>
         if n \<noteq> steps then
           Inr (Inl (die out (''short series read of '' @ show_int n @ '' for '' @ [CHR 0x27] @ nm @ [CHR 0x27] @ '' ('' @
             show_int (int v) @ ''/'' @ show_int vars @ '')'' @ [CHR 0x0A])))
         else
           rbind (read_results alloc s steps vars (v + 1)
                    (out @ nm @ [if int v = vars - 1 then CHR 0x0A else CHR 0x09]) ns) (\<lambda>r.
             Inr (case r of Inl p \<Rightarrow> Inl p | Inr (out, cols) \<Rightarrow> Inr (out, xs # cols))))"

text \<open>The values of step \<open>i\<close>; every column has \<open>steps\<close> values.\<close>

definition print_rows :: "cstr \<Rightarrow> fp list list \<Rightarrow> nat \<Rightarrow> cstr" where
  "print_rows nan cols steps = concat (map (\<lambda>i. tab_line (map (\<lambda>c. show_double nan (c ! i)) cols)) [0..<steps])"

definition print_results :: "(nat \<Rightarrow> bool) \<Rightarrow> cstr \<Rightarrow> sim option \<Rightarrow> process run" where
  "print_results alloc nan s =
     (let steps = sd_sim_get_stepcount s; vars = sd_sim_get_varcount s in
      if \<not> alloc (nat vars) then Inr (die [] (''out of memory'' @ [CHR 0x0A]))
      else
        rbind (sd_sim_get_varnames s (nat vars)) (\<lambda>(k, ns, s).
        if k \<noteq> vars then Inr (die [] (''get_varnames unexpected result != '' @ show_int vars @ [CHR 0x0A]))
        else
          rbind (read_results alloc s steps vars 0 [] ns) (\<lambda>r.
          Inr (case r of
                 Inl p \<Rightarrow> p
               | Inr (out, cols) \<Rightarrow>
                   \<lparr> exit_status = 0, stdout = out @ print_rows nan cols (nat steps), stderr = [] \<rparr>))))"

definition mdl_main ::
  "(fp \<Rightarrow> fp \<Rightarrow> fp) \<Rightarrow> (nat \<Rightarrow> bool) \<Rightarrow> (cstr \<Rightarrow> cstr) \<Rightarrow> (cstr \<Rightarrow> (xml_event list \<times> bool) option) \<Rightarrow> cstr \<Rightarrow>
   cstr \<Rightarrow> cstr list \<Rightarrow> process run" where
  "mdl_main pw alloc dirname files nan argv0 args =
     (case parse_args argv0 None args of
        Inl msg \<Rightarrow> Inr (die [] msg)
      | Inr None \<Rightarrow> Inr (die [] (single_path @ usage argv0))
      | Inr (Some path) \<Rightarrow>
          rbind (sd_project_open alloc dirname (files path) path) (\<lambda>(p, err).
          case err of
            Some e \<Rightarrow>
              rbind (sd_error_str (sd_error_code e)) (\<lambda>msg.
                Inr (die [] (''error opening project: '' @ msg @ [CHR 0x0A])))
          | None \<Rightarrow>
              rbind (sd_sim_new pw alloc p None) (\<lambda>s.
              if s = None then Inr (die [] (''couldn'' @ [CHR 0x27] @ ''t create simulation context'' @ [CHR 0x0A]))
              else
                rbind (sd_sim_run_to_end pw s) (\<lambda>(_, s). print_results alloc nan s))))"

section \<open>Printed numbers are close and read back\<close>

lemma round_div_close:
  assumes "0 < d" shows "\<bar>2 * (int (round_div n d) * int d - int n)\<bar> \<le> int d"
proof -
  let ?q = "n div d" and ?r = "n mod d"
  have n: "int n = int ?q * int d + int ?r" by (metis div_mult_mod_eq of_nat_add of_nat_mult)
  have r: "?r < d" using assms by simp
  have "(int ?q + 1) * int d - int n = int d - int ?r" using n by (simp add: algebra_simps)
  with n r show ?thesis by (auto simp: round_div_def Let_def algebra_simps)
qed

lemma scaled_close:
  fixes k d m :: real
  assumes "0 < d" "\<bar>2 * (k * d - m * 10 ^ 6)\<bar> \<le> d"
  shows "\<bar>k / 10 ^ 6 - m * (1 / d)\<bar> \<le> 1 / (2 * 10 ^ 6)"
  using assms by (auto simp: abs_le_iff field_simps) (simp add: abs_if mult.commute [of d] split: if_splits)

text \<open>The printed decimal \<open>k / 10^6\<close> is within half a unit of the last decimal of the value.\<close>

lemma millionths_close:
  "\<bar>real (millionths m e) / 10 ^ 6 - real m * 2 powi e\<bar> \<le> 1 / (2 * 10 ^ 6)"
proof (cases "0 \<le> e")
  case True
  then have "2 powi e = (2 :: real) ^ nat e" by (simp add: power_int_def)
  with True show ?thesis by (simp add: millionths_def)
next
  case False
  let ?d = "2 ^ nat (- e) :: nat" and ?k = "millionths m e"
  have p: "2 powi e = 1 / real ?d" using False by (simp add: power_int_def power_inverse field_simps)
  have k: "?k = round_div (m * 10 ^ 6) ?d" using False by (simp add: millionths_def)
  have "\<bar>2 * (int ?k * int ?d - int (m * 10 ^ 6))\<bar> \<le> int ?d" unfolding k by (rule round_div_close) simp
  then have "real_of_int \<bar>2 * (int ?k * int ?d - int (m * 10 ^ 6))\<bar> \<le> real_of_int (int ?d)" by (rule of_int_le_iff [THEN iffD2])
  then have "\<bar>2 * (real ?k * real ?d - real m * 10 ^ 6)\<bar> \<le> real ?d" by simp
  then show ?thesis unfolding p by (intro scaled_close) simp_all
qed

text \<open>Reading digits back.\<close>

lemma digit_of_digit: "d < 10 \<Longrightarrow> digit_of 10 (digit d) = Some d"
  by (simp add: digit_def of_char_of)

text \<open>\<open>reads ds w\<close>: the text \<open>w\<close> consists of the digits \<open>ds\<close>.\<close>

definition reads :: "nat list \<Rightarrow> cstr \<Rightarrow> bool" where
  "reads ds w \<longleftrightarrow> w = map digit ds \<and> (\<forall>d \<in> set ds. d < 10)"

lemma reads_append: "reads ds v \<Longrightarrow> reads es w \<Longrightarrow> reads (ds @ es) (v @ w)"
  by (auto simp: reads_def)

lemma reads_scan: "reads ds w \<Longrightarrow> scan_digits 10 (w @ s) = (ds @ fst (scan_digits 10 s), snd (scan_digits 10 s))"
proof (induction ds arbitrary: w)
  case (Cons d ds)
  then have "w = digit d # map digit ds" "d < 10" "reads ds (map digit ds)" by (auto simp: reads_def)
  note w = this(1) and IH = Cons.IH [OF this(3)]
  show ?case unfolding w append_Cons scan_digits.simps digit_of_digit [OF \<open>d < 10\<close>] IH by simp
qed (simp add: reads_def)

lemma digits_value_append: "digits_value 10 (ds @ es) = digits_value 10 ds * 10 ^ length es + digits_value 10 es"
proof -
  have "foldl (\<lambda>n d. 10 * n + d) m es = m * 10 ^ length es + foldl (\<lambda>n d. 10 * n + d) 0 es" for m :: nat
  proof (induction es rule: rev_induct)
    case (snoc d es)
    then show ?case by (simp add: algebra_simps)
  qed simp
  then show ?thesis unfolding digits_value_def foldl_append by blast
qed

lemma reads_nat: "\<exists>ds. reads ds (show_nat n) \<and> ds \<noteq> [] \<and> digits_value 10 ds = n"
proof (induction n rule: show_nat.induct)
  case (1 n)
  show ?case
  proof (cases "n < 10")
    case True
    then show ?thesis by (intro exI [of _ "[n]"]) (simp add: show_nat.simps reads_def digits_value_def)
  next
    case False
    then obtain ds where ds: "reads ds (show_nat (n div 10))" "digits_value 10 ds = n div 10" using 1 by blast
    have "reads [n mod 10] [digit (n mod 10)]" by (simp add: reads_def)
    from reads_append [OF ds(1) this] ds(2) False show ?thesis
      by (intro exI [of _ "ds @ [n mod 10]"]) (simp add: show_nat.simps [of n] digits_value_def)
  qed
qed

lemma reads_fixed: "\<exists>ds. reads ds (fixed_digits k n) \<and> length ds = k \<and> digits_value 10 ds = n mod 10 ^ k"
proof (induction k arbitrary: n)
  case 0
  then show ?case by (simp add: reads_def digits_value_def)
next
  case (Suc k)
  from Suc [of "n div 10"] obtain ds where ds: "reads ds (fixed_digits k (n div 10))" "length ds = k"
    "digits_value 10 ds = n div 10 mod 10 ^ k" by blast
  have "reads [n mod 10] [digit (n mod 10)]" by (simp add: reads_def)
  from reads_append [OF ds(1) this] have "reads (ds @ [n mod 10]) (fixed_digits (Suc k) n)" by simp
  moreover have "digits_value 10 (ds @ [n mod 10]) = n mod 10 ^ Suc k"
    using ds(3) by (simp add: digits_value_def mod_mult2_eq)
  ultimately show ?case using ds(2) by (intro exI [of _ "ds @ [n mod 10]"]) simp
qed

text \<open>A decimal without an exponent reads as its digits over a power of ten.\<close>

lemma digit_code: "d < 10 \<Longrightarrow> of_char (digit d) = (48 + d :: nat)"
  by (simp add: digit_def of_char_of)

lemma not_letter: "of_char c < (80::nat) \<Longrightarrow> of_char w > (112::nat) \<or> of_char w \<in> {105, 110::nat} \<Longrightarrow> of_char c \<noteq> (78::nat) \<Longrightarrow>
    of_char c \<notin> {73, 105, 110::nat} \<Longrightarrow> \<not> is_letter w c"
  by (auto simp: is_letter_def)

lemma scan_plain_decimal:
  assumes "reads ds v" "reads es w" "ds \<noteq> []"
  shows "scan_number neg (v @ CHR ''.'' # w) =
    (let q = digits_value 10 (ds @ es); x = fp_decimal neg q (- int (length es)) in
     Some (x, [], out_of_range x q (10 ^ length es)))"
proof -
  obtain d ds' where ds: "ds = d # ds'" using assms(3) by (cases ds) auto
  obtain v' where v: "v = digit d # v'" "d < 10" "v' = map digit ds'" "\<forall>d \<in> set ds'. d < 10"
    using assms(1) ds by (auto simp: reads_def)
  have dc: "of_char (digit d) < (58::nat)" "of_char (digit d) \<ge> (48::nat)" using digit_code [OF v(2)] v(2) by simp_all
  have h: "\<not> is_letter (CHR ''i'') (digit d)" "\<not> is_letter (CHR ''n'') (digit d)"
    using dc by (auto simp: is_letter_def)
  have x: "\<not> is_letter (CHR ''x'') (hd (v' @ CHR ''.'' # w))"
  proof (cases ds')
    case Nil
    with v(3) show ?thesis by (simp add: is_letter_def)
  next
    case (Cons e es')
    then have "of_char (digit e) < (58::nat)" using v(4) digit_code [of e] by simp
    with Cons v(3) show ?thesis by (auto simp: is_letter_def)
  qed
  then have zx: "\<not> has_word ''0x'' (v @ CHR ''.'' # w)"
    using v(1) by (cases "v' @ CHR ''.'' # w") simp_all
  have p: "digit_of 10 (CHR ''.'') = None" by simp
  have a: "scan_digits 10 (v @ CHR ''.'' # w) = (ds, CHR ''.'' # w)"
    using reads_scan [OF assms(1), of "CHR ''.'' # w"] p by (simp del: digit_of.simps)
  have b: "scan_digits 10 w = (es, [])" using reads_scan [OF assms(2), of "[]"] by simp
  have "scan_decimal neg (v @ CHR ''.'' # w) =
    (let q = digits_value 10 (ds @ es); x = fp_decimal neg q (- int (length es)) in
     Some (x, [], out_of_range x q (10 ^ length es)))"
    using assms(3) by (simp add: scan_decimal_def a b scan_exponent_def Let_def)
  with h zx v(1) show ?thesis by (simp add: scan_number_def del: has_word.simps) (simp add: h)
qed

text \<open>What \<open>strtod\<close> makes of a printed finite number.\<close>

lemma strtod_show_Fin:
  "strtod (show_double nan (Fin s m e)) =
     (let q = millionths m e; x = fp_decimal s q (- 6) in (x, [], out_of_range x q (10 ^ 6)))"
proof -
  let ?q = "millionths m e"
  obtain ds where ds: "reads ds (show_nat (?q div 10 ^ 6))" "ds \<noteq> []" "digits_value 10 ds = ?q div 10 ^ 6"
    using reads_nat by blast
  obtain es where es: "reads es (fixed_digits 6 (?q mod 10 ^ 6))" "length es = 6"
    "digits_value 10 es = ?q mod 10 ^ 6 mod 10 ^ 6" using reads_fixed by blast
  let ?t = "show_nat (?q div 10 ^ 6) @ CHR ''.'' # fixed_digits 6 (?q mod 10 ^ 6)"
  have q: "digits_value 10 (ds @ es) = ?q"
    using ds(3) es(2,3) by (simp only: digits_value_append mod_mod_trivial div_mult_mod_eq)
  have sc: "scan_number neg ?t = (let x = fp_decimal neg ?q (- 6) in Some (x, [], out_of_range x ?q (10 ^ 6)))" for neg
    unfolding scan_plain_decimal [OF ds(1) es(1) ds(2)] q es(2) by (simp add: Let_def)
  obtain d u where t: "?t = digit d # u" "d < 10" using ds(1,2) by (cases ds) (auto simp: reads_def)
  have c: "\<not> is_blank (digit d)" "digit d \<noteq> CHR ''-''" "digit d \<noteq> CHR ''+''"
    using digit_code [OF t(2)] by (auto simp: is_blank_def dest!: arg_cong [where f = "of_char :: char \<Rightarrow> nat"])
  have m: "\<not> is_blank (CHR ''-'')" by (simp add: is_blank_def)
  have "show_double nan (Fin s m e) = (if s then ''-'' else []) @ ?t" by simp
  moreover have "strtod ((if s then ''-'' else []) @ ?t) = (case scan_number s ?t of None \<Rightarrow> (d_zero, (if s then ''-'' else []) @ ?t, False) | Some r \<Rightarrow> r)"
    unfolding t(1) using c m by (simp add: strtod_def)
  ultimately show ?thesis unfolding sc by (simp add: Let_def)
qed

lemma fp_decimal_int:
  "fp_decimal (i < 0) (nat \<bar>i\<bar> * 10 ^ 6) (- 6) = d_int i"
proof -
  let ?k = "prec binary64 + 2 + bitlen (10 ^ 6)"
  have n: "nat \<bar>i\<bar> * 10 ^ 6 * 2 ^ ?k div 10 ^ 6 = nat \<bar>i\<bar> * 2 ^ ?k" "nat \<bar>i\<bar> * 10 ^ 6 * 2 ^ ?k mod 10 ^ 6 = 0"
  proof -
    have e: "nat \<bar>i\<bar> * 10 ^ 6 * 2 ^ ?k = nat \<bar>i\<bar> * 2 ^ ?k * 10 ^ 6" by (simp only: mult_ac)
    show "nat \<bar>i\<bar> * 10 ^ 6 * 2 ^ ?k div 10 ^ 6 = nat \<bar>i\<bar> * 2 ^ ?k" unfolding e by (rule nonzero_mult_div_cancel_right) simp
    show "nat \<bar>i\<bar> * 10 ^ 6 * 2 ^ ?k mod 10 ^ 6 = 0" unfolding e by (rule mod_mult_self2_is_0)
  qed
  have "fp_decimal (i < 0) (nat \<bar>i\<bar> * 10 ^ 6) (- 6) = fp_quotient binary64 (i < 0) (nat \<bar>i\<bar> * 10 ^ 6) (10 ^ 6) 0 ?k"
    by (simp add: fp_decimal_def)
  also have "\<dots> = fp_round binary64 (i < 0) (nat \<bar>i\<bar> * 2 ^ ?k) (- int ?k) False"
    unfolding fp_quotient_def n by (simp only: diff_0 simp_thms)
  also have "\<dots> = d_int i"
  proof (cases "i = 0")
    case True
    then show ?thesis by (simp add: fp_round_def fp_zero_def)
  next
    case False
    have "nat \<bar>i * 2 ^ ?k\<bar> = nat \<bar>i\<bar> * 2 ^ ?k" by (simp only: abs_mult nat_mult_distrib abs_ge_zero) (simp add: nat_power_eq)
    with round_rep [OF False, of ?k] show ?thesis by (simp only:)
  qed
  finally show ?thesis .
qed

lemma millionths_int: "int_rep i m e \<Longrightarrow> millionths m e = nat \<bar>i\<bar> * 10 ^ 6"
proof (cases "e = 0")
  case False
  assume r: "int_rep i m e"
  then have "m * 10 ^ 6 = nat \<bar>i\<bar> * 10 ^ 6 * 2 ^ nat (- e)" by (simp add: int_rep_def)
  then have "m * 10 ^ 6 div 2 ^ nat (- e) = nat \<bar>i\<bar> * 10 ^ 6" "m * 10 ^ 6 mod 2 ^ nat (- e) = 0"
    by (simp_all only: nonzero_mult_div_cancel_right mod_mult_self2_is_0 power_not_zero zero_neq_numeral not_False_eq_True)
  with r False show ?thesis by (simp add: int_rep_def millionths_def round_div_def Let_def)
qed (simp add: int_rep_def millionths_def)

text \<open>
  The integers the format prints are read back exactly: for an integer below \<open>2^53\<close> in absolute
  value, \<open>strtod\<close> of the printed double is the double, with nothing left and no range error.
\<close>

lemma show_double_roundtrip:
  assumes "\<bar>i\<bar> < 2 ^ 53"
  shows "strtod (show_double nan (d_int i)) = (d_int i, [], False)"
proof -
  obtain m e where r: "d_int i = Fin (i < 0) m e" "int_rep i m e" using assms by (rule d_int_rep)
  have "\<not> out_of_range (d_int i) (nat \<bar>i\<bar> * 10 ^ 6) (10 ^ 6)"
  proof (cases "i = 0")
    case False
    have "nat \<bar>i\<bar> < 2 ^ 53" using assms by (simp add: nat_less_iff)
    then have "bitlen (nat \<bar>i\<bar>) \<le> 53" by (simp only: bitlen_le_iff)
    then show ?thesis unfolding d_int_eq [OF False assms] by simp
  qed simp
  then show ?thesis
    using strtod_show_Fin [of nan "i < 0" m e] r(1) fp_decimal_int [of i] millionths_int [OF r(2)]
    by (simp add: Let_def del: show_double.simps)
qed

section \<open>The table is the trajectory\<close>

lemma sd_sim_new_heap:
  assumes "sd_project_get_model (Some p) nm = Some mo" "\<forall>v \<in> set (m_vars mo). plain v"
    "sd_sim_new pw alloc (Some p) nm = Inr (Some s)"
  shows "model_heap mo (s_heap s) \<and> nvars s = length (s_heap s) - 1"
proof -
  obtain h m off where b: "sim_build (Some p) nm = Inr (Some (h, m, off))"
    and r: "sd_sim_reset pw alloc (sim_zero\<lparr> s_heap := h, s_module := m, nvars := off \<rparr>) = Inr (SD_ERR_NO_ERROR, s)"
    using assms(3) by (auto simp: sd_sim_new_def rbind_eq_Inr split: option.splits if_split_asm)
  obtain dn where dn: "m = 0" "run_ready h off dn" using sim_build_ready [OF b assms(1,2)] by blast
  have "s_heap s = h \<and> nvars s = off" using sim_reset_row [OF r] dn by simp
  with sim_build_model_heap [OF b assms(1,2)] show ?thesis by simp
qed

text \<open>A column of the table: the variable \<open>v\<close> at the saved steps.\<close>

definition column :: "fp list list \<Rightarrow> nat \<Rightarrow> nat \<Rightarrow> nat \<Rightarrow> fp list" where
  "column Rs every n v = map (\<lambda>j. Rs ! (j * every) ! v) [0..<n]"

lemma get_series_column:
  assumes mh: "model_heap mo (s_heap t)" "map vname (model_vars mo) = map Some ns" "good_names ns"
    "\<forall>v \<in> set (model_vars mo). vtype v \<noteq> VAR_MODULE" "ns ! 0 = ''time''"
    and rd: "run_ready (s_heap t) (nvars t) dn" "s_module t = 0" "length (slab t) = nvars t * (nsaves t + 1)"
    and rows: "\<forall>j < nsaves t. row_of t (j * nvars t) = Rs ! (j * every)" and v: "v < length ns"
  shows "sd_sim_get_series (Some t) (Some (ns ! v)) (nsaves t) = Inr (int (nsaves t), column Rs every (nsaves t) v)"
proof -
  have len: "length ns = length (model_vars mo)" using arg_cong [OF mh(2), of length] by simp
  have ids: "length (idents (s_heap t)) = length (model_vars mo) + 1" using mh(1) by (simp add: model_heap_def model_vars_def)
  have n: "nvars t = length (s_heap t) - 1" using rd(1) by (simp add: run_ready_def)
  have vn: "v < nvars t" "Suc v < length (s_heap t)" using v len ids n by simp_all
  then have off: "offset (s_heap t ! Suc v) = v" using rd(1) by (simp add: run_ready_def members_def)
  have "nsaves t * nvars t \<le> length (slab t)" using rd(3) by (simp add: mult.commute)
  then have "series t v 0 (nsaves t) = Inr (map (\<lambda>j. row_of t (j * nvars t) ! v) [0..<nsaves t])"
    using series_rows [OF vn(1), of 0 "nsaves t"] by simp
  also have "map (\<lambda>j. row_of t (j * nvars t) ! v) [0..<nsaves t] = column Rs every (nsaves t) v"
    using rows by (simp add: column_def)
  finally have sr: "series t v 0 (nsaves t) = Inr (column Rs every (nsaves t) v)" .
  have lc: "length (column Rs every (nsaves t) v) = nsaves t" by (simp add: column_def)
  show ?thesis
  proof (cases "v = 0")
    case True
    with mh(5) sr lc show ?thesis by (simp add: sd_sim_get_series_def min_def)
  next
    case False
    have "distinct ns" using mh(3) by (simp add: good_names_def)
    then have "ns ! v \<noteq> ''time''" using False v mh(5) nth_eq_iff_index_eq [of ns v 0] by (cases ns) auto
    moreover have "resolve (s_heap t) (Some 0) (Some (ns ! v)) = Inr (Some (Suc v))"
      by (rule resolve_name [OF mh(1-3) v mh(4)])
    ultimately show ?thesis using sr lc off vn(2) rd(2) by (simp add: sd_sim_get_series_def hread_eq min_def)
  qed
qed

lemma read_results_table:
  assumes "\<And>v. v < length ns \<Longrightarrow> sd_sim_get_series s (Some (ns ! v)) k = Inr (int k, col v)" "alloc k"
  shows "v + length l = length ns \<Longrightarrow> l = drop v ns \<Longrightarrow>
    read_results alloc s (int k) (int (length ns)) v out (map Some l) = Inr (Inr (out @ tab_line l, map col [v..<length ns]))"
proof (induction l arbitrary: v out)
  case (Cons n l)
  have "v < length ns" using Cons.prems(1) by simp
  moreover from Cons_nth_drop_Suc [OF this] Cons.prems(2) have "n # l = ns ! v # drop (Suc v) ns" by (rule trans [OF _ sym, rotated])
  ultimately have v: "v < length ns" "n = ns ! v" "l = drop (Suc v) ns" by simp_all
  then have up: "[v..<length ns] = v # [Suc v..<length ns]" by (simp add: upt_conv_Cons)
  have last: "(int v = int (length ns) - 1) = (l = [])" using Cons.prems(1) by (cases l) auto
  have line: "out @ n @ [if int v = int (length ns) - 1 then CHR 0x0A else CHR 0x09] @ tab_line l = out @ tab_line (n # l)"
    unfolding last by (cases l) simp_all
  have "read_results alloc s (int k) (int (length ns)) (v + 1) o' (map Some l) =
      Inr (Inr (o' @ tab_line l, map col [Suc v..<length ns]))" for o'
    using Cons.IH [of "Suc v" o'] Cons.prems(1) v(3) by simp
  with assms(1) [OF v(1)] assms(2) v(2) up line show ?case by simp
qed simp



section \<open>The output for the example\<close>

lemma digit_eq: "of_char c = (48 + d :: nat) \<Longrightarrow> digit d = c"
  by (metis char_of_char digit_def)

lemma example_digit: "digit 0 = CHR ''0''" "digit (Suc 0) = CHR ''1''" "digit 2 = CHR ''2''"
  by (rule digit_eq; simp)+

lemma fixed_zeros: "fixed_digits k 0 = replicate k (CHR ''0'')"
proof (induction k)
  case (Suc k)
  then show ?case by (simp add: example_digit replicate_append_same)
qed simp

lemma show_int_double:
  assumes "\<bar>i\<bar> < 2 ^ 53"
  shows "show_double nan (d_int i) = (if i < 0 then ''-'' else []) @ show_nat (nat \<bar>i\<bar>) @ CHR ''.'' # replicate 6 (CHR ''0'')"
proof -
  obtain m e where r: "d_int i = Fin (i < 0) m e" "int_rep i m e" using assms by (rule d_int_rep)
  then show ?thesis using millionths_int [OF r(2)] by (simp add: fixed_zeros)
qed

lemma replicate_6: "replicate 6 c = [c, c, c, c, c, c]"
  by (simp add: numeral_eq_Suc)

lemma show_small: "0 \<le> i \<Longrightarrow> i < 10 \<Longrightarrow> show_double nan (d_int i) = digit (nat i) # ''.000000''"
proof -
  assume i: "0 \<le> i" "i < 10"
  then have "\<bar>i\<bar> < 2 ^ 53" by simp
  from show_int_double [OF this, of nan] i show ?thesis
    by (simp add: show_nat.simps replicate_6 del: show_double.simps)
qed

lemma example_show:
  "show_double n d_zero = ''0.000000''" "show_double n (d_int 1) = ''1.000000''" "show_double n (d_int 2) = ''2.000000''"
  using show_small [of 0 n] show_small [of 1 n] show_small [of 2 n]
  by (simp_all add: example_digit del: show_double.simps)

lemma series_2: "series s off i 2 =
    rbind (slab_read s (i * nvars s + off)) (\<lambda>x. rbind (slab_read s ((i + 1) * nvars s + off)) (\<lambda>y. Inr [x, y]))"
  by (simp add: numeral_2_eq_2 rbind_assoc)

text \<open>The whole text for the example, evaluated.\<close>

lemma example_output: "print_results (\<lambda>_. True) ''nan'' (Some example_end) =
  Inr \<lparr> exit_status = 0, stdout = ''time'' @ [CHR 0x09] @ ''f'' @ [CHR 0x09] @ ''s'' @ [CHR 0x0A] @
    ''0.000000'' @ [CHR 0x09] @ ''1.000000'' @ [CHR 0x09] @ ''1.000000'' @ [CHR 0x0A] @
    ''1.000000'' @ [CHR 0x09] @ ''2.000000'' @ [CHR 0x09] @ ''2.000000'' @ [CHR 0x0A], stderr = [] \<rparr>"
  by (simp add: print_results_def sd_sim_get_stepcount_def sd_sim_get_varcount_def example_end_def example_sim_def
    sd_sim_get_varnames_def depth_fuel_def example_defs hread_def  var_of_def
    sd_sim_get_series_def resolve_def resolve_in.simps skip_dot_def str_eq_def slab_read_def aread_def
    print_rows_def series_2 upt_rec example_show
    del: show_double.simps)
lemma example_main:
  "mdl_main pw (\<lambda>_. True) (\<lambda>_. ''.'') (\<lambda>_. Some (events (Elem ''xmile'' [] example_kids), True)) ''nan'' prog [''m.stmx''] =
     print_results (\<lambda>_. True) ''nan'' (Some example_end)"
  by (simp add: mdl_main_def example_open example_new example_run del: events.simps)

section \<open>Errors\<close>

text \<open>
  A path that cannot be opened, a file that is not well-formed XML, and arguments that name no
  single path all end the program with status 1, nothing on the standard output and a message on
  the standard error.
\<close>

theorem mdl_reports_errors:
  "mdl_main pw alloc dirname (\<lambda>_. None) nan prog [CHR ''/'' # path] =
     Inr \<lparr> exit_status = 1, stdout = [], stderr = ''error opening project: bad file'' @ [CHR 0x0A] \<rparr> \<and>
   mdl_main pw alloc dirname (\<lambda>_. Some ([], False)) nan prog [CHR ''/'' # path] =
     Inr \<lparr> exit_status = 1, stdout = [], stderr = ''error opening project: bad XML'' @ [CHR 0x0A] \<rparr> \<and>
   mdl_main pw alloc dirname files nan prog [] =
     Inr \<lparr> exit_status = 1, stdout = [], stderr = single_path @ usage prog \<rparr> \<and>
   mdl_main pw alloc dirname files nan prog [CHR ''/'' # path, CHR ''/'' # path2] =
     Inr \<lparr> exit_status = 1, stdout = [], stderr = single_path @ usage prog \<rparr> \<and>
   mdl_main pw alloc dirname files nan prog (''-help'' # args) =
     Inr \<lparr> exit_status = 1, stdout = [], stderr = usage prog \<rparr>"
  by (simp add: mdl_main_def die_def sd_project_open_def project_parse_file_def sd_error_str_def SD_ERROR_MSGS_def aread_def)

end
