(* ===== verification/Resume.thy ===== *)
theory Resume
  imports Run
begin

text \<open>
  Running in pieces and starting over, for any simulation, submodules included: what a pass of the
  loop may change, \<open>sd_sim_run_to\<close> to a time and then further, and \<open>sd_sim_reset\<close> after a run.
\<close>

section \<open>What a pass of the loop changes\<close>

text \<open>\<open>only_slab s t\<close>: \<open>t\<close> differs from \<open>s\<close> in the contents of the slab at most.\<close>

definition only_slab :: "sim \<Rightarrow> sim \<Rightarrow> bool" where
  "only_slab s t \<longleftrightarrow> t = s\<lparr> slab := slab t \<rparr> \<and> length (slab t) = length (slab s)"

lemma only_slab_refl [simp]: "only_slab s s"
  by (simp add: only_slab_def)

lemma only_slab_trans: "only_slab s t \<Longrightarrow> only_slab t u \<Longrightarrow> only_slab s u"
  unfolding only_slab_def by (metis sim.surjective sim.update_convs(4))

lemma only_slab_write: "slab_write s i x = Inr t \<Longrightarrow> only_slab s t"
  by (auto simp: slab_write_def awrite_def only_slab_def rbind_eq_Inr split: if_split_asm)

lemma only_slab_fields:
  "only_slab s t \<Longrightarrow> s_heap t = s_heap s \<and> s_module t = s_module s \<and> s_spec t = s_spec s \<and> curr t = curr s \<and>
     nexti t = nexti s \<and> nvars t = nvars s \<and> nsaves t = nsaves s \<and> nsteps t = nsteps s \<and> step t = step s \<and>
     save_step t = save_step s \<and> save_every t = save_every s \<and> length (slab t) = length (slab s)"
  unfolding only_slab_def by (metis sim.select_convs sim.surjective sim.update_convs(4))

lemma calc_list_only_slab:
  assumes "\<And>l s t. rec l s = Inr t \<Longrightarrow> only_slab s t"
  shows "calc_list rec pw data initial l s = Inr t \<Longrightarrow> only_slab s t"
proof (induction l arbitrary: s)
  case (Cons a l)
  then obtain av u where u: "calc_list rec pw data initial l u = Inr t"
    "(if av_node av = Null then rec (if initial then initials av else flows av) s else calc_var pw data av s) = Inr u"
    by (auto simp: rbind_eq_Inr split del: if_split)
  have "only_slab s u"
    using u(2) by (auto simp: calc_var_def rbind_eq_Inr dest: assms only_slab_write split: if_split_asm)
  from only_slab_trans [OF this Cons.IH [OF u(1)]] show ?case .
qed simp

lemma calc_only_slab: "calc n pw data initial l s = Inr t \<Longrightarrow> only_slab s t"
proof (induction n arbitrary: l s t)
  case (Suc n)
  from calc_list_only_slab [of "calc n pw data initial", OF Suc.IH] Suc.prems show ?case by simp
qed simp

lemma calc_stocks_list_only_slab:
  assumes "\<And>l s t. rec l s = Inr t \<Longrightarrow> only_slab s t"
  shows "calc_stocks_list rec pw data l s = Inr t \<Longrightarrow> only_slab s t"
proof (induction l arbitrary: s)
  case (Cons a l)
  then obtain av v u where u: "calc_stocks_list rec pw data l u = Inr t"
    "(if vtype v = VAR_MODULE then rec (stocks av) s else calc_stock_var pw data av v s) = Inr u"
    by (auto simp: rbind_eq_Inr split del: if_split)
  have "only_slab s u"
    using u(2) by (auto simp: calc_stock_var_def rbind_eq_Inr dest: assms only_slab_write split: if_split_asm)
  from only_slab_trans [OF this Cons.IH [OF u(1)]] show ?case .
qed simp

lemma calc_stocks_only_slab: "calc_stocks n pw data l s = Inr t \<Longrightarrow> only_slab s t"
proof (induction n arbitrary: l s t)
  case (Suc n)
  from calc_stocks_list_only_slab [of "calc_stocks n pw data", OF Suc.IH] Suc.prems show ?case by simp
qed simp

text \<open>
  \<open>same_plan\<close>: the fields no pass changes; \<open>settled\<close>: the rows in use are those of the save step,
  as \<open>sd_sim_run_to\<close> sets them at its start.
\<close>

definition same_plan :: "sim \<Rightarrow> sim \<Rightarrow> bool" where
  "same_plan s t \<longleftrightarrow> s_heap t = s_heap s \<and> s_module t = s_module s \<and> s_spec t = s_spec s \<and> nvars t = nvars s \<and>
     nsaves t = nsaves s \<and> nsteps t = nsteps s \<and> save_every t = save_every s"

definition settled :: "sim \<Rightarrow> bool" where
  "settled s \<longleftrightarrow> curr s = sim_curr s \<and> nexti s = Some (sim_next s)"

lemma run_step_effect:
  assumes "run_step pw s = Inr (b, t)" "settled s"
  shows "same_plan s t \<and> settled t \<and> (if b then step t = step s + 1 \<and> step t \<noteq> nsteps s else step t = step s \<and> step s + 1 = nsteps s)"
proof -
  obtain md :: avar and nx u v where nx: "nexti s = Some nx"
    and u: "calc (depth_fuel (s_heap s)) pw (curr s) False (flows md) s = Inr u"
    and v: "calc_stocks (depth_fuel (s_heap u)) pw nx (stocks md) u = Inr v"
    and t: "(if step v + 1 = nsteps v then Inr (False, v)
       else
         rbind (slab_write v (nx + TIME) (next_time v)) (\<lambda>s.
         if step s mod save_every s \<noteq> 0 then
           rbind (copy_row (s\<lparr> step := step s + 1 \<rparr>) (curr s) nx) (\<lambda>s. Inr (True, s))
         else
           (let s = s\<lparr> step := step s + 1, save_step := save_step s + 1 \<rparr>
            in Inr (True, s\<lparr> curr := sim_curr s, nexti := Some (sim_next s) \<rparr>)))) = Inr (b, t)"
    using assms(1) by (auto simp: run_step_def rbind_eq_Inr split: option.splits)
  note f = only_slab_fields [OF only_slab_trans [OF calc_only_slab [OF u] calc_stocks_only_slab [OF v]]]
  show ?thesis
  proof (cases "step v + 1 = nsteps v")
    case True
    with t f assms(2) show ?thesis by (auto simp: same_plan_def settled_def sim_curr_def sim_next_def)
  next
    case False
    then obtain w where w: "slab_write v (nx + TIME) (next_time v) = Inr w"
      and t: "(if step w mod save_every w \<noteq> 0 then
           rbind (copy_row (w\<lparr> step := step w + 1 \<rparr>) (curr w) nx) (\<lambda>s. Inr (True, s))
         else
           (let s = w\<lparr> step := step w + 1, save_step := save_step w + 1 \<rparr>
            in Inr (True, s\<lparr> curr := sim_curr s, nexti := Some (sim_next s) \<rparr>))) = Inr (b, t)"
      using t by (auto simp: rbind_eq_Inr)
    note g = only_slab_fields [OF only_slab_write [OF w]]
    show ?thesis
    proof (cases "step w mod save_every w = 0")
      case True
      with t f g False show ?thesis
        by (auto simp: same_plan_def settled_def sim_curr_def sim_next_def Let_def)
    next
      case save: False
      then have "b" "copy_row (w\<lparr> step := step w + 1 \<rparr>) (curr w) nx = Inr t" using t by (auto simp: rbind_eq_Inr)
      with f g False assms(2) show ?thesis
        by (auto simp: copy_row_def same_plan_def settled_def sim_curr_def sim_next_def split: if_split_asm)
    qed
  qed
qed

section \<open>The loop\<close>

text \<open>The loop makes at most \<open>nsteps - step\<close> passes, so more fuel changes nothing.\<close>

lemma run_loop_more_fuel:
  "settled s \<Longrightarrow> nsteps s - step s < n \<Longrightarrow> run_loop (n + k) pw e s = run_loop n pw e s"
proof (induction n arbitrary: s)
  case (Suc n)
  show ?case
  proof (cases "step s < nsteps s")
    case True
    have "run_loop (n + k) pw e t = run_loop n pw e t" if "run_step pw s = Inr (True, t)" for t
      using run_step_effect [OF that Suc.prems(1)] Suc.IH [of t] Suc.prems(2) True by (simp add: same_plan_def)
    then show ?thesis
      using True by (auto intro!: rbind_cong if_cong split: prod.splits)
  qed simp
qed simp

lemma run_loop_effect:
  "run_loop n pw e s = Inr t \<Longrightarrow> settled s \<Longrightarrow> same_plan s t \<and> settled t \<and> step s \<le> step t"
proof (induction n arbitrary: s)
  case (Suc n)
  show ?case
  proof (cases "step s < nsteps s")
    case True
    then obtain now where now: "slab_read s (curr s + TIME) = Inr now"
      and r: "(if fp_le now e then rbind (run_step pw s) (\<lambda>(continue, s). if continue then run_loop n pw e s else Inr s) else Inr s) = Inr t"
      using Suc.prems(1) by (auto simp: rbind_eq_Inr split del: if_split)
    show ?thesis
    proof (cases "fp_le now e")
      case le: True
      then obtain b u where u: "run_step pw s = Inr (b, u)" "(if b then run_loop n pw e u else Inr u) = Inr t"
        using r by (auto simp: rbind_eq_Inr)
      note eff = run_step_effect [OF u(1) Suc.prems(2)]
      then show ?thesis using u(2) Suc.IH [of u] by (cases b) (auto simp: same_plan_def)
    next
      case False
      with r Suc.prems(2) show ?thesis by (simp add: same_plan_def)
    qed
  next
    case False
    with Suc.prems show ?thesis by (simp add: same_plan_def)
  qed
qed simp

text \<open>Going on from where a run to an earlier time stopped, before the last step.\<close>

lemma run_loop_resume:
  assumes "\<And>x. fp_le x e1 \<Longrightarrow> fp_le x e2"
  shows "run_loop n pw e1 s = Inr t \<Longrightarrow> settled s \<Longrightarrow> nsteps s - step s < n \<Longrightarrow> step t + 1 \<noteq> nsteps t \<Longrightarrow>
    run_loop n pw e2 t = run_loop n pw e2 s"
proof (induction n arbitrary: s)
  case (Suc n)
  show ?case
  proof (cases "step s < nsteps s")
    case True
    then obtain now where now: "slab_read s (curr s + TIME) = Inr now"
      and r: "(if fp_le now e1 then rbind (run_step pw s) (\<lambda>(continue, s). if continue then run_loop n pw e1 s else Inr s) else Inr s) = Inr t"
      using Suc.prems(1) by (auto simp: rbind_eq_Inr split del: if_split)
    show ?thesis
    proof (cases "fp_le now e1")
      case le: True
      then obtain b u where u: "run_step pw s = Inr (b, u)" "(if b then run_loop n pw e1 u else Inr u) = Inr t"
        using r by (auto simp: rbind_eq_Inr)
      note eff = run_step_effect [OF u(1) Suc.prems(2)]
      have b: b
      proof (rule ccontr)
        assume "\<not> b"
        then have "t = u" using u(2) by simp
        with \<open>\<not> b\<close> eff Suc.prems(4) show False by (simp add: same_plan_def)
      qed
      have fuel: "nsteps u - step u < n" using eff b True Suc.prems(3) by (simp add: same_plan_def)
      have t: "run_loop n pw e1 u = Inr t" using u(2) b by simp
      have "run_loop n pw e2 t = run_loop n pw e2 u" using Suc.IH [OF t] eff fuel Suc.prems(4) by blast
      moreover have "run_loop (Suc n) pw e2 t = run_loop n pw e2 t"
      proof -
        note f = run_loop_effect [OF t]
        have "settled t" "nsteps t - step t < n" using f eff fuel by (auto simp: same_plan_def)
        from run_loop_more_fuel [OF this, of 1] show ?thesis by simp
      qed
      moreover have "run_loop (Suc n) pw e2 s = run_loop n pw e2 u"
        using True now assms [OF le] u(1) b by simp
      ultimately show ?thesis by simp
    next
      case False
      with r show ?thesis by simp
    qed
  next
    case False
    with Suc.prems(1) show ?thesis by simp
  qed
qed simp

lemma fp_eq_trans: "fp_eq x y \<Longrightarrow> fp_eq y z \<Longrightarrow> fp_eq x z"
  by (cases x; cases y; cases z) (auto simp: fp_simps)

lemma fp_le_trans: "fp_le x y \<Longrightarrow> fp_le y z \<Longrightarrow> fp_le x z"
  unfolding fp_le_def by (metis fp_lt_trans fp_lt_eq_trans fp_eq_lt_trans fp_eq_trans)

section \<open>Running in pieces\<close>

lemma sd_sim_run_to_eq:
  "sd_sim_run_to pw (Some s) e = Inr (r, t') \<longleftrightarrow> r = 0 \<and>
     (\<exists>t. t' = Some t \<and> run_loop (Suc (nsteps s - step s)) pw e (s\<lparr> curr := sim_curr s, nexti := Some (sim_next s) \<rparr>) = Inr t)"
  by (auto simp: sd_sim_run_to_def rbind_eq_Inr simp del: run_loop.simps)

lemma settled_start: "settled (s\<lparr> curr := sim_curr s, nexti := Some (sim_next s) \<rparr>)"
  by (simp add: settled_def sim_curr_def sim_next_def)

text \<open>
  C10. A run can be made in pieces: when a run to a time stops before the last step, running on to a
  later time gives exactly what running to the later time at once gives, faults included.
\<close>

theorem sd_sim_run_to_resumes:
  assumes "sd_sim_run_to pw (Some s) e1 = Inr (0, Some t)" "step t + 1 \<noteq> nsteps t" "fp_le e1 e2"
  shows "sd_sim_run_to pw (Some t) e2 = sd_sim_run_to pw (Some s) e2"
proof -
  let ?s = "s\<lparr> curr := sim_curr s, nexti := Some (sim_next s) \<rparr>"
  let ?n = "Suc (nsteps s - step s)"
  have l: "run_loop ?n pw e1 ?s = Inr t" using assms(1) unfolding sd_sim_run_to_eq by blast
  note eff = run_loop_effect [OF l settled_start]
  have "nsteps ?s - step ?s < ?n" by simp
  from run_loop_resume [OF fp_le_trans [OF _ assms(3)] l settled_start this assms(2)]
  have r: "run_loop ?n pw e2 t = run_loop ?n pw e2 ?s" .
  have t: "t\<lparr> curr := sim_curr t, nexti := Some (sim_next t) \<rparr> = t"
    using eff by (cases t) (simp add: settled_def sim_curr_def sim_next_def)
  have "nsteps t - step t \<le> nsteps s - step s" using eff by (simp add: same_plan_def diff_le_mono2)
  then obtain k where k: "?n = Suc (nsteps t - step t) + k" by (metis add_Suc le_Suc_ex)
  have "run_loop ?n pw e2 t = run_loop (Suc (nsteps t - step t)) pw e2 t"
    unfolding k using eff by (intro run_loop_more_fuel) simp_all
  with r t show ?thesis by (simp add: sd_sim_run_to_def del: run_loop.simps)
qed

lemma reset_counts_start:
  assumes "reset_counts a = Inr a'" "s_heap b = s_heap a" "s_module b = s_module a" "s_spec b = s_spec a" "nvars b = nvars a"
  shows "reset_counts b = Inr (a'\<lparr> slab := slab b, curr := curr b, nexti := nexti b \<rparr>)"
proof -
  let ?sp = "s_spec a"
  obtain n k where c: "fp_to_size (d_add (d_div (d_sub (sp_stop ?sp) (sp_start ?sp)) (sp_dt ?sp)) (d_int 1)) = Inr n"
    "fp_to_size (d_add (d_div (sp_savestep ?sp) (sp_dt ?sp)) d_half) = Inr k"
    using assms(1) by (auto simp: reset_counts_def rbind_eq_Inr Let_def)
  show ?thesis
    using assms(1) unfolding reset_counts_def Let_def assms(4) c rbind_Inr
    by (cases a; cases b) (use assms(2-5) in auto)
qed

definition slab_cells :: "sim \<Rightarrow> nat" where
  "slab_cells s = (if nvars s = 0 then 1 else nvars s) * (nsaves s + 1)"

lemma slab_cells_same [simp]: "slab_cells (s\<lparr> slab := x, curr := i, nexti := n \<rparr>) = slab_cells s"
  by (simp add: slab_cells_def)

lemmas reset_unfold = sd_sim_reset_def [folded slab_cells_def]

lemma sd_sim_reset_success:
  assumes "sd_sim_reset pw alloc a = Inr (SD_ERR_NO_ERROR, s)"
  obtains md :: avar and mo a' u where "hread (s_heap a) (s_module a) = Inr md" "av_model md = Some mo"
    "reset_counts (a\<lparr> s_spec := m_file_specs mo \<rparr>) = Inr a'"
    "alloc (slab_cells a')"
    "slab_write (a'\<lparr> slab := replicate (slab_cells a') d_zero, curr := 0, nexti := None \<rparr>)
       (0 + TIME) (sp_start (m_file_specs mo)) = Inr u"
    "calc (depth_fuel (s_heap u)) pw (curr u) True (initials md) u = Inr s"
  using assms by (auto simp: reset_unfold rbind_eq_Inr Let_def split: option.splits if_split_asm)

text \<open>A successful reset looks at the objects of the simulation only.\<close>

lemma sd_sim_reset_again:
  assumes "sd_sim_reset pw alloc a = Inr (SD_ERR_NO_ERROR, s)"
    "s_heap b = s_heap a" "s_module b = s_module a" "nvars b = nvars a"
  shows "sd_sim_reset pw alloc b = Inr (SD_ERR_NO_ERROR, s)"
  using assms(1)
proof (rule sd_sim_reset_success)
  fix md :: avar and mo a' u
  assume r: "hread (s_heap a) (s_module a) = Inr md" "av_model md = Some mo"
    "reset_counts (a\<lparr> s_spec := m_file_specs mo \<rparr>) = Inr a'"
    "alloc (slab_cells a')"
    "slab_write (a'\<lparr> slab := replicate (slab_cells a') d_zero, curr := 0, nexti := None \<rparr>)
       (0 + TIME) (sp_start (m_file_specs mo)) = Inr u"
    "calc (depth_fuel (s_heap u)) pw (curr u) True (initials md) u = Inr s"
  have "reset_counts (b\<lparr> s_spec := m_file_specs mo \<rparr>) = Inr (a'\<lparr> slab := slab b, curr := curr b, nexti := nexti b \<rparr>)"
    using reset_counts_start [OF r(3), of "b\<lparr> s_spec := m_file_specs mo \<rparr>"] assms(2-4) by simp
  with r assms(2,3) show ?thesis by (simp add: reset_unfold Let_def)
qed

lemma sd_sim_reset_keeps:
  assumes "sd_sim_reset pw alloc a = Inr (SD_ERR_NO_ERROR, s)"
  shows "s_heap s = s_heap a \<and> s_module s = s_module a \<and> nvars s = nvars a"
  using assms
proof (rule sd_sim_reset_success)
  fix md :: avar and mo a' u
  assume r: "reset_counts (a\<lparr> s_spec := m_file_specs mo \<rparr>) = Inr a'"
    "slab_write (a'\<lparr> slab := replicate (slab_cells a') d_zero, curr := 0, nexti := None \<rparr>)
       (0 + TIME) (sp_start (m_file_specs mo)) = Inr u"
    "calc (depth_fuel (s_heap u)) pw (curr u) True (initials md) u = Inr s"
  from only_slab_fields [OF only_slab_trans [OF only_slab_write [OF r(2)] calc_only_slab [OF r(3)]]] reset_counts_fields [OF r(1)]
  show ?thesis by simp
qed

text \<open>
  C11. Resetting starts over: \<open>sd_sim_reset\<close> on the simulation after any run gives back, rows and
  counters included, the simulation as \<open>sd_sim_new\<close> made it.
\<close>

theorem sd_sim_reset_starts_over:
  assumes "sd_sim_new pw alloc p nm = Inr (Some s)" "sd_sim_run_to pw (Some s) e = Inr (r, Some t)"
  shows "sd_sim_reset pw alloc t = Inr (SD_ERR_NO_ERROR, s)"
proof -
  obtain h m off where reset: "sd_sim_reset pw alloc (sim_zero\<lparr> s_heap := h, s_module := m, nvars := off \<rparr>) = Inr (SD_ERR_NO_ERROR, s)"
    using assms(1) by (auto simp: sd_sim_new_def rbind_eq_Inr split: option.splits if_split_asm)
  have "run_loop (Suc (nsteps s - step s)) pw e (s\<lparr> curr := sim_curr s, nexti := Some (sim_next s) \<rparr>) = Inr t"
    using assms(2) unfolding sd_sim_run_to_eq by blast
  from run_loop_effect [OF this settled_start] sd_sim_reset_keeps [OF reset]
  show ?thesis by (intro sd_sim_reset_again [OF reset]) (simp_all add: same_plan_def)
qed

lemma sd_sim_reset_starts_over_witness:
  "sd_sim_reset (\<lambda>x y. x) (\<lambda>_. True) example_end = Inr (SD_ERR_NO_ERROR, example_sim)"
proof -
  have "sd_sim_run_to (\<lambda>x y. x) (Some example_sim) (d_add (sp_stop (s_spec example_sim)) (d_int 1)) = Inr (0, Some example_end)"
    using example_run [of "\<lambda>x y. x"] by (simp only: sd_sim_run_to_end_def option.case)
  from sd_sim_reset_starts_over [OF example_new this] show ?thesis .
qed

section \<open>An example with three steps\<close>

definition longer_sim :: sim where
  "longer_sim = example_sim\<lparr> slab := [d_zero, d_int 1, d_int 1, d_zero, d_zero, d_zero, d_zero, d_zero, d_zero, d_zero, d_zero, d_zero],
     nsaves := 3, nsteps := 3 \<rparr>"

definition longer_half :: sim where
  "longer_half = longer_sim\<lparr> slab := [d_zero, d_int 1, d_int 1, d_int 1, d_zero, d_int 2, d_zero, d_zero, d_zero, d_zero, d_zero, d_zero],
     curr := 3, nexti := Some 6, step := 1, save_step := 1 \<rparr>"

lemma longer_half_run: "sd_sim_run_to pw (Some longer_sim) d_half = Inr (0, Some longer_half)"
proof -
  have a: "fp_le d_zero d_half" "\<not> fp_le (d_int 1) d_half" by (simp_all add: fp_eval d_half_def two)
  show ?thesis
    by (simp add: sd_sim_run_to_def run_step_def sim_curr_def sim_next_def longer_sim_def longer_half_def
      example_spec_def spec_zero_def example_arith a
      example_sim_def hread_def example_defs slab_write_def slab_read_def aread_def awrite_def numeral_eq_Suc TIME_def
      depth_fuel_def calc_var_def apply_gf_def var_of_def slot_def calc_stock_var_def euler_stock_def next_time_def
      del: fp_add.simps fp_div.simps fp_mul.simps)
qed

lemma sd_sim_run_to_resumes_witness:
  "sd_sim_run_to (\<lambda>x y. x) (Some longer_half) (d_int 1) = sd_sim_run_to (\<lambda>x y. x) (Some longer_sim) (d_int 1)"
proof (rule sd_sim_run_to_resumes [OF longer_half_run])
  show "step longer_half + 1 \<noteq> nsteps longer_half" by (simp add: longer_half_def longer_sim_def)
  show "fp_le d_half (d_int 1)" by (simp add: fp_eval d_half_def two)
qed

end
