(* ===== verification/Connections.thy ===== *)
theory Connections
  imports Resume
begin

text \<open>
  Modules inside models, and the variables of a module that are connected to a variable outside.
  First for any model: results are read inside the slab, and a connection reads the time. Then a
  model with a connection, evaluated.
\<close>

section \<open>Properties of all objects of a heap\<close>

definition all_avars :: "(avar \<Rightarrow> bool) \<Rightarrow> heap \<Rightarrow> bool" where
  "all_avars P h \<longleftrightarrow> (\<forall>x \<in> set h. P x)"

lemma all_avars_Nil [simp]: "all_avars P []"
  by (simp add: all_avars_def)

lemma all_avars_append [simp]: "all_avars P (h @ g) \<longleftrightarrow> all_avars P h \<and> all_avars P g"
  by (auto simp: all_avars_def)

lemma all_avars_Cons [simp]: "all_avars P (x # h) \<longleftrightarrow> P x \<and> all_avars P h"
  by (simp add: all_avars_def)

lemma all_avars_read: "hread h a = Inr x \<Longrightarrow> all_avars P h \<Longrightarrow> P x"
  by (auto simp: hread_def aread_Inr all_avars_def)

lemma all_avars_upd:
  "hupd h a f = Inr h' \<Longrightarrow> all_avars P h \<Longrightarrow> (\<And>x. P x \<Longrightarrow> P (f x)) \<Longrightarrow> all_avars P h'"
  by (auto simp: hupd_def rbind_eq_Inr hread_def aread_Inr all_avars_def dest!: set_update_subset_insert [THEN subsetD])

section \<open>Building leaves all offsets zero\<close>

abbreviation no_offsets :: "heap \<Rightarrow> bool" where
  "no_offsets \<equiv> all_avars (\<lambda>x. offset x = 0)"

definition builds :: "builder \<Rightarrow> bool" where
  "builds build \<longleftrightarrow> (\<forall>h pa mo v h' r. build h pa mo v = Inr (h', r) \<longrightarrow> no_offsets h \<longrightarrow> no_offsets h')"

lemma buildsD: "builds build \<Longrightarrow> build h pa mo v = Inr (h', r) \<Longrightarrow> no_offsets h \<Longrightarrow> no_offsets h'"
  unfolding builds_def by blast

lemma no_offsets_upd:
  "hupd h a f = Inr h' \<Longrightarrow> no_offsets h \<Longrightarrow> (\<And>x. offset (f x) = offset x) \<Longrightarrow> no_offsets h'"
  by (erule (1) all_avars_upd) simp

lemma avar_new_no_offsets:
  "builds build \<Longrightarrow> avar_new build p h m v = Inr (h', r) \<Longrightarrow> no_offsets h \<Longrightarrow> no_offsets h'"
  by (auto simp: avar_new_def rbind_eq_Inr avar_zero_def split: option.splits if_split_asm
      dest!: buildsD elim!: no_offsets_upd)

lemma member_new_no_offsets:
  assumes "builds build" "member_new build p conns h m v = Inr (h', r)" "no_offsets h"
  shows "no_offsets h'"
proof -
  obtain c g a where g: "(case c of None \<Rightarrow> Inr (h, None) | Some r \<Rightarrow> avar_new build p h m r) = Inr (g, a)"
    and r: "(if a = None then avar_new build p g m v else Inr (g, a)) = Inr (h', r)"
    using assms(2) by (auto simp: member_new_def rbind_eq_Inr split del: if_split)
  have "no_offsets g" using g assms(1,3) by (auto split: option.splits dest: avar_new_no_offsets)
  with r assms(1) show ?thesis by (auto split: if_split_asm dest: avar_new_no_offsets)
qed

lemma members_new_no_offsets:
  "builds build \<Longrightarrow> members_new build p conns m vs h = Inr (h', ok) \<Longrightarrow> no_offsets h \<Longrightarrow> no_offsets h'"
proof (induction vs arbitrary: h)
  case (Cons v vs)
  then obtain g r where g: "member_new build p conns h m v = Inr (g, r)"
    and r: "(case r of None \<Rightarrow> Inr (g, False)
       | Some a \<Rightarrow> rbind (hupd g m (\<lambda>x. x\<lparr> avars := avars x @ [a] \<rparr>)) (\<lambda>h.
             members_new build p conns m vs h)) = Inr (h', ok)"
    by (auto simp: rbind_eq_Inr)
  have z: "no_offsets g" by (rule member_new_no_offsets [OF Cons.prems(1) g Cons.prems(3)])
  show ?case
  proof (cases r)
    case (Some a)
    with r obtain k where k: "hupd g m (\<lambda>x. x\<lparr> avars := avars x @ [a] \<rparr>) = Inr k"
      "members_new build p conns m vs k = Inr (h', ok)" by (auto simp: rbind_eq_Inr)
    from no_offsets_upd [OF k(1) z] Cons.IH [OF Cons.prems(1) k(2)] show ?thesis by simp
  qed (use r z in simp)
qed simp

lemma module_body_builds: "builds build \<Longrightarrow> builds (module_body build p)"
  unfolding builds_def [of "module_body build p"]
  by (auto simp: module_body_def Let_def rbind_eq_Inr avar_zero_def split: if_split_asm
      elim!: members_new_no_offsets)

lemma module_new_builds: "builds (module_new n p)"
proof (induction n)
  case 0
  then show ?case by (simp add: builds_def)
next
  case (Suc n)
  from module_body_builds [OF this, of p] show ?case by (simp add: builds_def)
qed

definition compiles :: "(heap \<Rightarrow> addr \<Rightarrow> (sd_error \<times> heap) run) \<Rightarrow> bool" where
  "compiles c \<longleftrightarrow> (\<forall>h a e h'. c h a = Inr (e, h') \<longrightarrow> no_offsets h \<longrightarrow> no_offsets h')"

lemma compilesD: "compiles c \<Longrightarrow> c h a = Inr (e, h') \<Longrightarrow> no_offsets h \<Longrightarrow> no_offsets h'"
  unfolding compiles_def by blast

lemma avar_init_var_no_offsets:
  "avar_init_var h a mo = Inr (e, h') \<Longrightarrow> no_offsets h \<Longrightarrow> no_offsets h'"
  by (auto simp: avar_init_var_def rbind_eq_Inr split: if_split_asm option.splits elim!: no_offsets_upd)

lemma avar_init_no_offsets:
  "compiles c \<Longrightarrow> avar_init c h a mo = Inr (e, h') \<Longrightarrow> no_offsets h \<Longrightarrow> no_offsets h'"
  by (auto simp: avar_init_def rbind_eq_Inr split: if_split_asm dest: compilesD avar_init_var_no_offsets)

lemma init_members_no_offsets:
  "compiles c \<Longrightarrow> init_members c m as n h = Inr (k, h') \<Longrightarrow> no_offsets h \<Longrightarrow> no_offsets h'"
  by (induction as arbitrary: n h) (auto simp: rbind_eq_Inr dest: avar_init_no_offsets)

text \<open>The offset a connection gets from its source is the one the source has at this time: none.\<close>

lemma copy_offsets_no_offsets: "copy_offsets as h = Inr h' \<Longrightarrow> no_offsets h \<Longrightarrow> no_offsets h'"
proof (induction as arbitrary: h)
  case (Cons a as)
  then obtain av :: avar and v g where "copy_offsets as g = Inr h'"
    and g: "(if vtype v = VAR_REF then
              (case av_src av of
                 None \<Rightarrow> Inl NullDeref
               | Some s \<Rightarrow> rbind (hread h s) (\<lambda>src. hupd h a (\<lambda>x. x\<lparr> offset := offset src \<rparr>)))
            else Inr h) = Inr g"
    by (auto simp: rbind_eq_Inr split del: if_split)
  moreover have "no_offsets g"
    using g Cons.prems(2) all_avars_read [of h _ _ "\<lambda>x. offset x = 0"]
    by (auto simp: rbind_eq_Inr split: if_split_asm option.splits elim!: all_avars_upd)
  ultimately show ?case using Cons.IH by blast
qed simp

lemma module_compile_compiles: "compiles (module_compile n)"
proof (induction n)
  case 0
  then show ?case by (simp add: compiles_def)
next
  case (Suc n)
  show ?case unfolding compiles_def
    by (auto simp: module_compile_body_def rbind_eq_Inr split: if_split_asm
        dest!: init_members_no_offsets [OF Suc] copy_offsets_no_offsets)
qed

section \<open>Offsets after building\<close>

text \<open>With \<open>n\<close> variables placed: connections are at offset 0, every offset is in the row.\<close>

definition placed :: "nat \<Rightarrow> avar \<Rightarrow> bool" where
  "placed n x \<longleftrightarrow> (av_src x \<noteq> None \<longrightarrow> offset x = 0) \<and> offset x < max 1 n"

lemma placed_mono: "placed n x \<Longrightarrow> n \<le> k \<Longrightarrow> placed k x"
  by (auto simp: placed_def)

lemma all_placed_mono: "all_avars (placed n) h \<Longrightarrow> n \<le> k \<Longrightarrow> all_avars (placed k) h"
  by (auto simp: all_avars_def intro: placed_mono)

definition places :: "(addr \<Rightarrow> nat \<Rightarrow> heap \<Rightarrow> (nat \<times> heap) run) \<Rightarrow> bool" where
  "places f \<longleftrightarrow> (\<forall>a n h k h'. f a n h = Inr (k, h') \<longrightarrow> all_avars (placed n) h \<longrightarrow>
     n \<le> k \<and> all_avars (placed k) h')"

lemma offset_one:
  assumes "hread h a = Inr av" "av_src av = None" "all_avars (placed n) h"
    "hupd h a (\<lambda>x. x\<lparr> offset := n \<rparr>) = Inr h'"
  shows "all_avars (placed (n + 1)) h'"
proof -
  have "h' = h[a := av\<lparr> offset := n \<rparr>]" using assms(1,4) by (simp add: hupd_def)
  moreover have "all_avars (placed (n + 1)) h" using all_placed_mono [OF assms(3)] by simp
  moreover have "placed (n + 1) (av\<lparr> offset := n \<rparr>)" using assms(2) by (simp add: placed_def)
  ultimately show ?thesis
    unfolding all_avars_def by (auto dest!: set_update_subset_insert [THEN subsetD])
qed

lemma offset_members_places:
  assumes "places f"
  shows "offset_members f as n h = Inr (k, h') \<Longrightarrow> all_avars (placed n) h \<Longrightarrow>
    n \<le> k \<and> all_avars (placed k) h'"
proof (induction as arbitrary: n h)
  case (Cons a as)
  then obtain av n1 g where av: "hread h a = Inr av" and r: "offset_members f as n1 g = Inr (k, h')"
    and g: "(if av_model av \<noteq> None then f a n h
            else if av_src av = None then
              rbind (hupd h a (\<lambda>x. x\<lparr> offset := n \<rparr>)) (\<lambda>h. Inr (n + 1, h))
            else Inr (n, h)) = Inr (n1, g)"
    by (auto simp: rbind_eq_Inr split del: if_split)
  have "n \<le> n1 \<and> all_avars (placed n1) g"
  proof (cases "av_model av = None")
    case True
    with g Cons.prems(2) offset_one [OF av _ Cons.prems(2)] show ?thesis
      by (auto simp: rbind_eq_Inr split: if_split_asm)
  next
    case False
    then have "f a n h = Inr (n1, g)" using g by simp
    with assms Cons.prems(2) show ?thesis unfolding places_def by blast
  qed
  with Cons.IH [OF r] show ?case by auto
qed simp

lemma module_assign_offsets_places: "places (module_assign_offsets n)"
proof (induction n)
  case 0
  then show ?case by (simp add: places_def)
next
  case (Suc n)
  from offset_members_places [OF this] show ?case by (auto simp: places_def rbind_eq_Inr)
qed


section \<open>Sorting leaves them\<close>

definition keeps_placed :: "nat \<Rightarrow> heap \<Rightarrow> heap \<Rightarrow> bool" where
  "keeps_placed n h h' \<longleftrightarrow> (all_avars (placed n) h \<longrightarrow> all_avars (placed n) h')"

lemma keeps_placed_refl [simp]: "keeps_placed n h h"
  by (simp add: keeps_placed_def)

lemma keeps_placed_trans: "keeps_placed n h g \<Longrightarrow> keeps_placed n g k \<Longrightarrow> keeps_placed n h k"
  by (simp add: keeps_placed_def)

lemma keeps_placed_upd:
  "hupd h a f = Inr h' \<Longrightarrow> (\<And>x. offset (f x) = offset x \<and> av_src (f x) = av_src x) \<Longrightarrow> keeps_placed n h h'"
  unfolding keeps_placed_def by (auto simp: placed_def elim!: all_avars_upd)

lemma runlist_append_kept:
  "offset (runlist_append av v a md) = offset md \<and> av_src (runlist_append av v a md) = av_src md"
  by (simp add: runlist_append_def)

lemma deps_loop_placed:
  assumes "\<And>h a e h'. add h a = Inr (e, h') \<Longrightarrow> keeps_placed n h h'"
  shows "deps_loop add ds h = Inr (e, h') \<Longrightarrow> keeps_placed n h h'"
  by (induction ds arbitrary: h)
    (auto simp: rbind_eq_Inr split: if_split_asm dest: assms intro: keeps_placed_trans)

lemma add_to_runlists_body_placed:
  assumes "\<And>h a e h'. add h a = Inr (e, h') \<Longrightarrow> keeps_placed n h h'"
    and "add_to_runlists_body add m h a = Inr (e, h')"
  shows "keeps_placed n h h'"
proof -
  obtain av :: avar where av: "if visited av \<or> visiting av then h' = h
    else (\<exists>g k. hupd h a (\<lambda>x. x\<lparr> visiting := True \<rparr>) = Inr g \<and> deps_loop add (direct_deps av) g = Inr (e, k) \<and> h' = k)
      \<or> (\<exists>g k v l. hupd h a (\<lambda>x. x\<lparr> visiting := True \<rparr>) = Inr g
        \<and> deps_loop add (direct_deps av) g = Inr (SD_ERR_NO_ERROR, k)
        \<and> hupd k m (runlist_append av v a) = Inr l
        \<and> hupd l a (\<lambda>x. x\<lparr> visited := True, visiting := False \<rparr>) = Inr h')"
    using assms(2) by (fastforce simp: add_to_runlists_body_def rbind_eq_Inr split: if_split_asm)
  note up = keeps_placed_upd [of _ _ "\<lambda>x. x\<lparr> visiting := True \<rparr>", where n = n]
    keeps_placed_upd [of _ _ "\<lambda>x. x\<lparr> visited := True, visiting := False \<rparr>", where n = n]
    keeps_placed_upd [of _ _ "runlist_append av v a" for v, OF _ runlist_append_kept, where n = n]
  have dl: "keeps_placed n g k" if "deps_loop add ds g = Inr (e, k)" for ds g e k
    by (rule deps_loop_placed [OF _ that]) (rule assms(1))
  show ?thesis
    using av by (auto split: if_split_asm dest!: up dl intro: keeps_placed_trans)
qed

lemma module_add_to_runlists_placed:
  "module_add_to_runlists k m h a = Inr (e, h') \<Longrightarrow> keeps_placed n h h'"
proof (induction k arbitrary: h a e h')
  case (Suc k)
  from add_to_runlists_body_placed [of "module_add_to_runlists k m", OF Suc.IH] Suc.prems show ?case by simp
qed simp

lemma clear_members_placed:
  assumes "\<And>h a h'. clear h a = Inr h' \<Longrightarrow> keeps_placed n h h'"
  shows "clear_members clear as h = Inr h' \<Longrightarrow> keeps_placed n h h'"
proof (induction as arbitrary: h)
  case (Cons a as)
  then obtain av :: avar and g where g: "(if av_model av \<noteq> None then clear h a
            else hupd h a (\<lambda>x. x\<lparr> visited := False, visiting := False \<rparr>)) = Inr g"
    and r: "clear_members clear as g = Inr h'"
    by (auto simp: rbind_eq_Inr split del: if_split)
  have "keeps_placed n h g" using g by (auto split: if_split_asm intro: assms keeps_placed_upd)
  with Cons.IH [OF r] show ?case by (rule keeps_placed_trans [rotated])
qed simp

lemma module_clear_visited_placed: "module_clear_visited k h m = Inr h' \<Longrightarrow> keeps_placed n h h'"
proof (induction k arbitrary: h m h')
  case (Suc k)
  then obtain md :: avar and g where c: "clear_members (module_clear_visited k) (avars md) h = Inr g"
    "hupd g m (\<lambda>x. x\<lparr> visited := False, visiting := False \<rparr>) = Inr h'"
    by (auto simp: rbind_eq_Inr)
  have "keeps_placed n h g" by (rule clear_members_placed [OF _ c(1)]) (rule Suc.IH)
  moreover have "keeps_placed n g h'" by (rule keeps_placed_upd [OF c(2)]) simp
  ultimately show ?case by (rule keeps_placed_trans)
qed simp

lemma sort_members_placed:
  assumes "\<And>h a e h'. rec h a = Inr (e, h') \<Longrightarrow> keeps_placed n h h'"
  shows "sort_members rec m as h = Inr (e, h') \<Longrightarrow> keeps_placed n h h'"
proof (induction as arbitrary: h)
  case (Cons a as)
  then obtain sub :: avar where s: "(if visited sub then sort_members rec m as h
       else
         rbind (var_of sub) (\<lambda>v.
         rbind (if vtype v = VAR_MODULE then rec h a else Inr (SD_ERR_NO_ERROR, h)) (\<lambda>(err, h).
           if err \<noteq> SD_ERR_NO_ERROR then Inr (err, h)
           else
             rbind (module_add_to_runlists (depth_fuel h) m h a) (\<lambda>(err, h).
               if err \<noteq> SD_ERR_NO_ERROR then Inr (err, h) else sort_members rec m as h)))) = Inr (e, h')"
    by (auto simp: rbind_eq_Inr split del: if_split)
  show ?case
  proof (cases "visited sub")
    case False
    with s obtain v e1 g where g: "(if vtype v = VAR_MODULE then rec h a else Inr (SD_ERR_NO_ERROR, h)) = Inr (e1, g)"
      and r: "(if e1 \<noteq> SD_ERR_NO_ERROR then Inr (e1, g)
           else
             rbind (module_add_to_runlists (depth_fuel g) m g a) (\<lambda>(err, h).
               if err \<noteq> SD_ERR_NO_ERROR then Inr (err, h) else sort_members rec m as h)) = Inr (e, h')"
      by (auto simp: rbind_eq_Inr split del: if_split)
    have "keeps_placed n h g" using g by (auto split: if_split_asm intro: assms)
    moreover have "keeps_placed n g h'"
      using r Cons.IH by (auto simp: rbind_eq_Inr split: if_split_asm
          dest!: module_add_to_runlists_placed [where n = n] intro: keeps_placed_trans)
    ultimately show ?thesis by (rule keeps_placed_trans)
  qed (use s Cons.IH in auto)
qed simp

lemma module_sort_runlists_placed: "module_sort_runlists k h m = Inr (e, h') \<Longrightarrow> keeps_placed n h h'"
proof (induction k arbitrary: h m e h')
  case (Suc k)
  then obtain g1 g2 md g3 e1 where c: "module_clear_visited (depth_fuel h) h m = Inr g1"
    "hupd g1 m (\<lambda>x. x\<lparr> visiting := True \<rparr>) = Inr g2"
    "sort_members (module_sort_runlists k) m md g2 = Inr (e1, g3)"
    and r: "(if e1 \<noteq> SD_ERR_NO_ERROR then Inr (e1, g3)
       else rbind (hupd g3 m (\<lambda>x. x\<lparr> visiting := False \<rparr>)) (\<lambda>h. Inr (SD_ERR_NO_ERROR, h))) = Inr (e, h')"
    by (auto simp: module_sort_body_def rbind_eq_Inr split del: if_split)
  have "keeps_placed n g3 h'" using r by (auto simp: rbind_eq_Inr split: if_split_asm intro: keeps_placed_upd)
  moreover have "keeps_placed n h g1" by (rule module_clear_visited_placed [OF c(1)])
  moreover have "keeps_placed n g1 g2" by (rule keeps_placed_upd [OF c(2)]) simp
  moreover have "keeps_placed n g2 g3"
    by (rule sort_members_placed [OF _ c(3)]) (rule Suc.IH)
  ultimately show ?case by (blast intro: keeps_placed_trans)
qed simp

lemma sim_build_placed:
  assumes "sim_build p nm = Inr (Some (h, m, off))"
  shows "all_avars (placed off) h"
proof -
  obtain pr model h0 h1 h2 r k1 where b: "module_new (module_fuel pr) pr [] None model None = Inr (h0, r)"
    "avar_init (module_compile (depth_fuel h0)) h0 k1 None = Inr (SD_ERR_NO_ERROR, h1)"
    "module_assign_offsets (depth_fuel h1) k1 0 h1 = Inr (off, h2)"
    "module_sort_runlists (depth_fuel h2) h2 k1 = Inr (SD_ERR_NO_ERROR, h)"
    using assms by (auto simp: sim_build_def rbind_eq_Inr split: option.splits if_split_asm)
  have "no_offsets h0" using buildsD [OF module_new_builds b(1)] by simp
  then have "no_offsets h1" by (rule avar_init_no_offsets [OF module_compile_compiles b(2)])
  then have "all_avars (placed 0) h1" by (auto simp: all_avars_def placed_def)
  then have "all_avars (placed off) h2"
    using module_assign_offsets_places [of "depth_fuel h1"] b(3) unfolding places_def by blast
  with module_sort_runlists_placed [OF b(4), of off] show ?thesis by (simp add: keeps_placed_def)
qed


section \<open>Rows in use are rows of the slab\<close>

definition in_rows :: "sim \<Rightarrow> bool" where
  "in_rows s \<longleftrightarrow> length (slab s) = slab_cells s \<and> (nvars s = 0 \<or> save_step s \<le> nsaves s)"

lemma in_rows_same:
  "length (slab t) = length (slab s) \<Longrightarrow> nvars t = nvars s \<Longrightarrow> nsaves t = nsaves s \<Longrightarrow>
   save_step t = save_step s \<Longrightarrow> in_rows t = in_rows s"
  by (simp add: in_rows_def slab_cells_def)

lemma slab_write_in: "slab_write s i x = Inr t \<Longrightarrow> i < length (slab s)"
  by (auto simp: slab_write_def rbind_eq_Inr awrite_Inr)

lemma run_step_in_rows:
  assumes "run_step pw s = Inr (b, t)" "settled s" "in_rows s"
  shows "in_rows t"
proof -
  obtain md :: avar and nx u v where nx: "nexti s = Some nx"
    and u: "calc (depth_fuel (s_heap s)) pw (curr s) False (flows md) s = Inr u"
    and v: "calc_stocks (depth_fuel (s_heap u)) pw nx (stocks md) u = Inr v"
    and t: "(if step v + 1 = nsteps v then Inr (False, v)
       else
         rbind (slab_write v (nx + TIME) (next_time v)) (\<lambda>s.
         if step s mod save_every s \<noteq> 0 then
           rbind (copy_row (s\<lparr> step := step s + 1 \<rparr>) (curr s) nx) (\<lambda>s. Inr (True, s))
         else
           (let s = s\<lparr> step := step s + 1, save_step := save_step s + 1 \<rparr>
            in Inr (True, s\<lparr> curr := sim_curr s, nexti := Some (sim_next s) \<rparr>)))) = Inr (b, t)"
    using assms(1) by (auto simp: run_step_def rbind_eq_Inr split: option.splits)
  note f = only_slab_fields [OF only_slab_trans [OF calc_only_slab [OF u] calc_stocks_only_slab [OF v]]]
  have rv: "in_rows v" using f assms(3) in_rows_same [of v s] by simp
  show ?thesis
  proof (cases "step v + 1 = nsteps v")
    case True
    with t rv show ?thesis by simp
  next
    case False
    then obtain w where w: "slab_write v (nx + TIME) (next_time v) = Inr w"
      and t: "(if step w mod save_every w \<noteq> 0 then
           rbind (copy_row (w\<lparr> step := step w + 1 \<rparr>) (curr w) nx) (\<lambda>s. Inr (True, s))
         else
           (let s = w\<lparr> step := step w + 1, save_step := save_step w + 1 \<rparr>
            in Inr (True, s\<lparr> curr := sim_curr s, nexti := Some (sim_next s) \<rparr>))) = Inr (b, t)"
      using t by (auto simp: rbind_eq_Inr)
    note g = only_slab_fields [OF only_slab_write [OF w]]
    have rw: "in_rows w" using g rv in_rows_same [of w v] by simp
    show ?thesis
    proof (cases "step w mod save_every w = 0")
      case True
      have "(save_step s + 1) * nvars s < nvars s * (nsaves s + 1)" if "nvars s \<noteq> 0"
        using slab_write_in [OF w] assms(2) nx f rv that
        by (simp add: settled_def sim_next_def in_rows_def slab_cells_def TIME_def)
      then have "nvars s = 0 \<or> save_step s + 1 \<le> nsaves s"
        by (metis less_Suc_eq_le mult.commute mult_less_cancel1 Suc_eq_plus1)
      with True t f g rw show ?thesis by (auto simp: Let_def in_rows_def slab_cells_def)
    next
      case save: False
      then have "copy_row (w\<lparr> step := step w + 1 \<rparr>) (curr w) nx = Inr t" using t by (auto simp: rbind_eq_Inr)
      with rw show ?thesis by (auto simp: copy_row_def in_rows_def slab_cells_def split: if_split_asm)
    qed
  qed
qed

lemma run_loop_in_rows:
  "run_loop n pw e s = Inr t \<Longrightarrow> settled s \<Longrightarrow> in_rows s \<Longrightarrow> in_rows t"
proof (induction n arbitrary: s)
  case (Suc n)
  show ?case
  proof (cases "step s < nsteps s")
    case True
    then obtain now where r: "(if fp_le now e then rbind (run_step pw s) (\<lambda>(continue, s). if continue then run_loop n pw e s else Inr s) else Inr s) = Inr t"
      using Suc.prems(1) by (auto simp: rbind_eq_Inr split del: if_split)
    show ?thesis
    proof (cases "fp_le now e")
      case le: True
      then obtain b u where u: "run_step pw s = Inr (b, u)" "(if b then run_loop n pw e u else Inr u) = Inr t"
        using r by (auto simp: rbind_eq_Inr)
      from run_step_effect [OF u(1) Suc.prems(2)] run_step_in_rows [OF u(1) Suc.prems(2,3)] u(2) Suc.IH [of u]
      show ?thesis by (cases b) auto
    qed (use r Suc.prems(3) in simp)
  qed (use Suc.prems in simp)
qed simp

text \<open>What holds of a simulation that was made, and run any number of times.\<close>

definition readable :: "sim \<Rightarrow> bool" where
  "readable s \<longleftrightarrow> all_avars (placed (nvars s)) (s_heap s) \<and> length (slab s) = slab_cells s
     \<and> (\<exists>k \<le> nsaves s. curr s = k * nvars s)"

lemma sd_sim_new_readable:
  assumes "sd_sim_new pw alloc p nm = Inr (Some s)"
  shows "readable s \<and> in_rows s"
proof -
  obtain h m off where b: "sim_build p nm = Inr (Some (h, m, off))"
    and reset: "sd_sim_reset pw alloc (sim_zero\<lparr> s_heap := h, s_module := m, nvars := off \<rparr>) = Inr (SD_ERR_NO_ERROR, s)"
    using assms by (auto simp: sd_sim_new_def rbind_eq_Inr split: option.splits if_split_asm)
  obtain md :: avar and mo a u where "av_model md = Some mo" and r: "reset_counts (sim_zero\<lparr> s_heap := h, s_module := m, nvars := off, s_spec := m_file_specs mo \<rparr>) = Inr a"
    "slab_write (a\<lparr> slab := replicate (slab_cells a) d_zero, curr := 0, nexti := None \<rparr>)
       (0 + TIME) (sp_start (m_file_specs mo)) = Inr u"
    "calc (depth_fuel (s_heap u)) pw (curr u) True (initials md) u = Inr s"
    by (rule sd_sim_reset_success [OF reset]) auto
  have z: "save_step a = 0" using r(1) by (auto simp: reset_counts_def rbind_eq_Inr Let_def)
  from only_slab_fields [OF only_slab_trans [OF only_slab_write [OF r(2)] calc_only_slab [OF r(3)]]]
    sd_sim_reset_keeps [OF reset] sim_build_placed [OF b] z
  show ?thesis by (auto simp: readable_def in_rows_def slab_cells_def)
qed

lemma sd_sim_run_to_readable:
  assumes "sd_sim_run_to pw (Some s) e = Inr (r, Some t)" "readable s" "in_rows s"
  shows "readable t \<and> in_rows t"
proof -
  let ?s = "s\<lparr> curr := sim_curr s, nexti := Some (sim_next s) \<rparr>"
  have l: "run_loop (Suc (nsteps s - step s)) pw e ?s = Inr t"
    using assms(1) unfolding sd_sim_run_to_eq by blast
  have i: "in_rows ?s" using assms(3) in_rows_same [of ?s s] by simp
  note eff = run_loop_effect [OF l settled_start]
  have it: "in_rows t" by (rule run_loop_in_rows [OF l settled_start i])
  then have "\<exists>k \<le> nsaves t. curr t = k * nvars t"
    using eff by (cases "nvars t = 0") (auto simp: settled_def sim_curr_def in_rows_def)
  with it eff assms(2) show ?thesis by (auto simp: readable_def same_plan_def in_rows_def)
qed

text \<open>A simulation that was made and then run any number of times.\<close>

inductive ran :: "(fp \<Rightarrow> fp \<Rightarrow> fp) \<Rightarrow> (nat \<Rightarrow> bool) \<Rightarrow> project option \<Rightarrow> cstr option \<Rightarrow> sim \<Rightarrow> bool"
  for pw alloc p nm where
  ran_new: "sd_sim_new pw alloc p nm = Inr (Some s) \<Longrightarrow> ran pw alloc p nm s"
| ran_run: "ran pw alloc p nm s \<Longrightarrow> sd_sim_run_to pw (Some s) e = Inr (r, Some t) \<Longrightarrow> ran pw alloc p nm t"

lemma ran_readable: "ran pw alloc p nm s \<Longrightarrow> readable s"
proof -
  have "ran pw alloc p nm s \<Longrightarrow> readable s \<and> in_rows s"
    by (induction rule: ran.induct) (auto dest: sd_sim_new_readable sd_sim_run_to_readable)
  then show "ran pw alloc p nm s \<Longrightarrow> readable s" by blast
qed

lemma row_bound:
  assumes "readable s" "i \<le> nsaves s" "off < max 1 (nvars s)"
  shows "i * nvars s + off < length (slab s)"
proof (cases "nvars s = 0")
  case False
  have "i * nvars s + off < i * nvars s + nvars s" using assms(3) False by simp
  also have "\<dots> = (i + 1) * nvars s" by simp
  also have "\<dots> \<le> (nsaves s + 1) * nvars s" using assms(2) by (intro mult_le_mono1) simp
  also have "\<dots> = length (slab s)" using assms(1) False by (simp add: readable_def slab_cells_def)
  finally show ?thesis .
qed (use assms in \<open>simp add: readable_def slab_cells_def\<close>)

lemma series_in_rows:
  "readable s \<Longrightarrow> off < max 1 (nvars s) \<Longrightarrow> i + n \<le> nsaves s + 1 \<Longrightarrow>
   series s off i n = Inr (map (\<lambda>j. slab s ! ((i + j) * nvars s + off)) [0..<n])"
proof (induction n arbitrary: i)
  case (Suc n)
  have "slab_read s (i * nvars s + off) = Inr (slab s ! (i * nvars s + off))"
    using row_bound [of s i off] Suc.prems by (simp add: slab_read_def)
  moreover have "map (\<lambda>j. slab s ! ((i + j) * nvars s + off)) [0..<Suc n]
    = slab s ! (i * nvars s + off) # map (\<lambda>j. slab s ! ((i + 1 + j) * nvars s + off)) [0..<n]"
    by (simp add: upt_conv_Cons map_Suc_upt [symmetric] comp_def del: upt_Suc)
  ultimately show ?case using Suc.IH [of "i + 1"] Suc.prems by simp
qed simp

lemma resolve_scan_read:
  "resolve_scan h pf nm as = Inr (Some (a, d)) \<Longrightarrow> \<exists>av. hread h a = Inr av"
  by (induction as) (auto simp: rbind_eq_Inr split: if_split_asm)

lemma resolve_in_read: "resolve_in h m nm = Inr (Some a) \<Longrightarrow> \<exists>av. hread h a = Inr av"
proof (induction h m nm rule: resolve_in.induct)
  case (1 h m nm)
  show ?case
  proof (cases "split_dot (skip_dot nm)")
    case None
    with 1(2) show ?thesis
      by (subst (asm) resolve_in.simps) (auto simp: rbind_eq_Inr dest: resolve_scan_read)
  next
    case (Some q)
    obtain pf sub where q: "q = (pf, sub)" by (cases q)
    obtain md :: avar and hit where md: "hread h m = Inr md"
      and hit: "resolve_scan h (Some pf) (skip_dot nm) (avars md) = Inr hit"
      and r: "(case hit of None \<Rightarrow> Inr None
         | Some (a, d) \<Rightarrow> if d then resolve_in h a sub else Inr (Some a)) = Inr (Some a)"
      using 1(2) Some q by (subst (asm) resolve_in.simps) (auto simp: rbind_eq_Inr)
    obtain b d where bd: "hit = Some (b, d)" using r by (cases hit) auto
    show ?thesis
    proof (cases d)
      case True
      with r bd 1(1) [OF Some [unfolded q] refl md hit bd refl] show ?thesis by simp
    next
      case False
      with r bd hit resolve_scan_read [of h "Some pf" "skip_dot nm" "avars md" b d] show ?thesis by simp
    qed
  qed
qed



text \<open>C39. A connection reads the time. \<open>module_compile\<close> copies the offset of the source of a
  connection before \<open>module_assign_offsets\<close> has given it one, so the offset of every connection is 0,
  that of the time, and \<open>sd_sim_get_series\<close> and \<open>sd_sim_get_value\<close> deliver the time under its name.\<close>

theorem connection_reads_time:
  assumes "ran pw alloc p nm s"
    and "resolve (s_heap s) (Some (s_module s)) (Some name) = Inr (Some a)"
    and "hread (s_heap s) a = Inr av" and "av_src av \<noteq> None"
  shows "sd_sim_get_series (Some s) (Some name) n = sd_sim_get_series (Some s) (Some ''time'') n \<and>
    sd_sim_get_value (Some s) (Some name) = sd_sim_get_value (Some s) (Some ''time'')"
proof -
  have "offset av = 0"
    using all_avars_read [OF assms(3), of "placed (nvars s)"] ran_readable [OF assms(1)] assms(4)
    by (simp add: readable_def placed_def)
  with assms(2,3) show ?thesis by (simp add: sd_sim_get_series_def sd_sim_get_value_def TIME_def)
qed

section \<open>A model with a connection\<close>

text \<open>The root model has a submodule and a variable \<open>src = time\<close>; the submodule a variable \<open>in\<close>, which is
  connected to \<open>src\<close>, and \<open>out = in\<close>. The file lists the submodule first.\<close>

definition conn_in :: var where
  "conn_in = Var VAR_REF (Some ''in'') None (Some ''src'') [] [] [] None False"

definition sub_var :: var where
  "sub_var = Var VAR_MODULE (Some ''sub'') None None [] [] [conn_in] None False"

definition src_var :: var where
  "src_var = Var VAR_AUX (Some ''src'') (Some ''time'') None [] [] [] None False"

definition in_var :: var where
  "in_var = Var VAR_AUX (Some ''in'') (Some ''1'') None [] [] [] None False"

definition out_var :: var where
  "out_var = Var VAR_AUX (Some ''out'') (Some ''in'') None [] [] [] None False"

definition sub_model :: model where
  "sub_model = \<lparr> m_file_specs = example_spec (d_int 1), m_name = Some ''sub'', m_vars = [in_var, out_var],
     m_refcount = 1 \<rparr>"

definition root_model :: model where
  "root_model = \<lparr> m_file_specs = example_spec (d_int 1), m_name = None, m_vars = [sub_var, src_var],
     m_refcount = 1 \<rparr>"

definition conn_project :: project where
  "conn_project = \<lparr> dir_path = ''.'',
     pfiles = [file_zero\<lparr> f_sim_specs := example_spec (d_int 1), f_models := [root_model, sub_model] \<rparr>],
     p_refcount = 1 \<rparr>"

lemma conn_parse:
  "avar_eqn_parse (Some ''in'') = Inr (SD_ERR_NO_ERROR, Ident ''in'' None)"
  "avar_eqn_parse (Some ''time'') = Inr (SD_ERR_NO_ERROR, Ident ''time'' None)"
  by (rule parse_text; simp add: tolowerrune_ascii canon_eval; simp add: lex_eval)+

lemma conn_get:
  "sd_project_get_model (Some conn_project) None = Some (sd_model_ref root_model)"
  "sd_project_get_model (Some conn_project) (Some ''sub'') = Some (sd_model_ref sub_model)"
  by (simp_all add: sd_project_get_model_def conn_project_def root_model_def sub_model_def)

definition conn_heap0 :: heap where
  "conn_heap0 = [avar_zero\<lparr> av_model := Some (sd_model_ref root_model), avars := [1, 2, 5] \<rparr>,
     avar_zero\<lparr> av_v := Some time_var, av_parent := Some 0 \<rparr>,
     avar_zero\<lparr> av_v := Some sub_var, av_parent := Some 0, av_model := Some (sd_model_ref sub_model), avars := [3, 4] \<rparr>,
     avar_zero\<lparr> av_v := Some conn_in, av_parent := Some 2 \<rparr>,
     avar_zero\<lparr> av_v := Some out_var, av_parent := Some 2, av_node := Ident ''in'' None \<rparr>,
     avar_zero\<lparr> av_v := Some src_var, av_parent := Some 0, av_node := Ident ''time'' None \<rparr>]"

lemma conn_fuel: "module_fuel conn_project = Suc (Suc (Suc 0))"
  by (simp add: module_fuel_def conn_project_def file_zero_def)

lemmas conn_defs = conn_heap0_def time_var_def conn_in_def sub_var_def src_var_def in_var_def out_var_def avar_zero_def
  sd_model_ref_def root_model_def sub_model_def

lemma conn_module:
  "module_new (module_fuel conn_project) conn_project [] None (sd_model_ref root_model) None = Inr (conn_heap0, Some 0)"
  by (simp add: conn_fuel module_body_def member_new_def avar_new_def hupd_def hread_def conn_get conn_parse conn_defs
      str_eq_def)


definition conn_heap1 :: heap where
  "conn_heap1 = [conn_heap0 ! 0, conn_heap0 ! 1, conn_heap0 ! 2, (conn_heap0 ! 3)\<lparr> av_src := Some 5 \<rparr>,
     (conn_heap0 ! 4)\<lparr> av_node := Ident ''in'' (Some 3), direct_deps := [3] \<rparr>,
     (conn_heap0 ! 5)\<lparr> av_node := Ident ''time'' (Some 1), direct_deps := [1] \<rparr>]"

lemma conn_compile:
  "avar_init (module_compile (depth_fuel conn_heap0)) conn_heap0 0 None = Inr (SD_ERR_NO_ERROR, conn_heap1)"
  by (simp add: depth_fuel_def avar_init_def module_compile_body_def avar_init_var_def hread_def hupd_def var_of_def
      conn_defs conn_heap1_def node_walk_def resolve_def resolve_in.simps skip_dot_def str_eq_def)

definition conn_heap2 :: heap where
  "conn_heap2 = [conn_heap1 ! 0, conn_heap1 ! 1, conn_heap1 ! 2, conn_heap1 ! 3,
     (conn_heap1 ! 4)\<lparr> offset := 1 \<rparr>, (conn_heap1 ! 5)\<lparr> offset := 2 \<rparr>]"

lemma conn_offsets:
  "module_assign_offsets (depth_fuel conn_heap1) 0 0 conn_heap1 = Inr (3, conn_heap2)"
  by (simp add: depth_fuel_def hread_def hupd_def conn_defs conn_heap1_def conn_heap2_def)

definition conn_heap :: heap where
  "conn_heap = [(conn_heap2 ! 0)\<lparr> initials := [2, 1, 5], flows := [2, 1, 5], stocks := [2] \<rparr>,
     (conn_heap2 ! 1)\<lparr> visited := True \<rparr>,
     (conn_heap2 ! 2)\<lparr> initials := [4], flows := [4], visited := True \<rparr>,
     (conn_heap2 ! 3)\<lparr> visited := True \<rparr>, (conn_heap2 ! 4)\<lparr> visited := True \<rparr>, (conn_heap2 ! 5)\<lparr> visited := True \<rparr>]"

lemma conn_sort:
  "module_sort_runlists (depth_fuel conn_heap2) conn_heap2 0 = Inr (SD_ERR_NO_ERROR, conn_heap)"
  by (simp add: depth_fuel_def hread_def hupd_def module_sort_body_def add_to_runlists_body_def var_of_def
      runlist_append_def conn_defs conn_heap1_def conn_heap2_def conn_heap_def)


lemma conn_build: "sim_build (Some conn_project) None = Inr (Some (conn_heap, 0, 3))"
  by (simp add: sim_build_def conn_get conn_module conn_compile conn_offsets conn_sort)

definition conn_sim :: sim where
  "conn_sim = \<lparr> s_heap = conn_heap, s_module = 0, s_spec = example_spec (d_int 1),
     slab = replicate 9 d_zero,
     curr = 0, nexti = None, nvars = 3, nsaves = 2, nsteps = 2, step = 0, save_step = 0, save_every = 1 \<rparr>"

lemmas conn_all_defs = conn_defs conn_heap1_def conn_heap2_def conn_heap_def

lemma conn_reset:
  "sd_sim_reset pw (\<lambda>_. True) (sim_zero\<lparr> s_heap := conn_heap, s_module := 0, nvars := 3 \<rparr>) =
     Inr (SD_ERR_NO_ERROR, conn_sim)"
  by (simp add: sd_sim_reset_def reset_counts_def example_spec_def spec_zero_def example_numbers sim_zero_def
      conn_sim_def hread_def conn_all_defs slab_write_def slab_read_def aread_def awrite_def numeral_eq_Suc TIME_def
      depth_fuel_def calc_var_def apply_gf_def var_of_def slot_def
      del: fp_add.simps fp_div.simps)

lemma conn_new: "sd_sim_new pw (\<lambda>_. True) (Some conn_project) None = Inr (Some conn_sim)"
  by (simp add: sd_sim_new_def conn_build conn_reset)

definition conn_end :: sim where
  "conn_end = conn_sim\<lparr> slab := [d_zero, d_zero, d_zero, d_int 1, d_zero, d_int 1, d_zero, d_zero, d_zero],
     curr := 3, nexti := Some 6, step := 1, save_step := 1 \<rparr>"

lemma conn_run: "sd_sim_run_to_end pw (Some conn_sim) = Inr (0, Some conn_end)"
  by (simp add: sd_sim_run_to_end_def sd_sim_run_to_def run_step_def sim_curr_def sim_next_def
      example_spec_def spec_zero_def example_arith conn_sim_def conn_end_def hread_def conn_all_defs
      slab_write_def slab_read_def aread_def awrite_def numeral_eq_Suc TIME_def
      depth_fuel_def calc_var_def apply_gf_def var_of_def slot_def calc_stock_var_def euler_stock_def next_time_def copy_row_def
      del: fp_add.simps fp_div.simps fp_mul.simps)

lemma conn_ran: "ran pw (\<lambda>_. True) (Some conn_project) None conn_end"
  by (rule ran_run [OF ran_new [OF conn_new]]) (use conn_run in \<open>simp only: sd_sim_run_to_end_def option.case\<close>)

lemma conn_resolve:
  "resolve conn_heap (Some 0) (Some ''sub.in'') = Inr (Some 3)"
  "resolve conn_heap (Some 0) (Some ''sub.out'') = Inr (Some 4)"
  "resolve conn_heap (Some 0) (Some ''src'') = Inr (Some 5)"
  by (simp_all add: resolve_def resolve_in.simps skip_dot_def str_eq_def hread_def conn_all_defs var_of_def)

lemma conn_end_fields: "s_heap conn_end = conn_heap" "s_module conn_end = 0"
  by (simp_all add: conn_end_def conn_sim_def)


lemma connection_reads_time_witness:
  "sd_sim_get_series (Some conn_end) (Some ''sub.in'') 2 = sd_sim_get_series (Some conn_end) (Some ''time'') 2"
proof -
  have "resolve (s_heap conn_end) (Some (s_module conn_end)) (Some ''sub.in'') = Inr (Some 3)"
    by (simp add: conn_end_fields conn_resolve)
  from connection_reads_time [OF conn_ran this, of "conn_heap ! 3" 2] show ?thesis
    by (simp add: conn_end_fields hread_def conn_all_defs)
qed


end
