(* ===== verification/XmlTokens.thy ===== *)
theory XmlTokens
  imports Prelude
begin

text \<open>
  The tokens the XML scanner hands to the parser (\<^verbatim>\<open>src/expat/lib/xmltok.h\<close>). In C they are
  macros for integers, and so they are here; the scanner also returns some of them negated.
\<close>

abbreviation XML_TOK_TRAILING_RSQB :: int where "XML_TOK_TRAILING_RSQB \<equiv> -5"
abbreviation XML_TOK_NONE :: int where "XML_TOK_NONE \<equiv> -4"
abbreviation XML_TOK_TRAILING_CR :: int where "XML_TOK_TRAILING_CR \<equiv> -3"
abbreviation XML_TOK_PARTIAL_CHAR :: int where "XML_TOK_PARTIAL_CHAR \<equiv> -2"
abbreviation XML_TOK_PARTIAL :: int where "XML_TOK_PARTIAL \<equiv> -1"
abbreviation XML_TOK_INVALID :: int where "XML_TOK_INVALID \<equiv> 0"
abbreviation XML_TOK_START_TAG_WITH_ATTS :: int where "XML_TOK_START_TAG_WITH_ATTS \<equiv> 1"
abbreviation XML_TOK_START_TAG_NO_ATTS :: int where "XML_TOK_START_TAG_NO_ATTS \<equiv> 2"
abbreviation XML_TOK_EMPTY_ELEMENT_WITH_ATTS :: int where "XML_TOK_EMPTY_ELEMENT_WITH_ATTS \<equiv> 3"
abbreviation XML_TOK_EMPTY_ELEMENT_NO_ATTS :: int where "XML_TOK_EMPTY_ELEMENT_NO_ATTS \<equiv> 4"
abbreviation XML_TOK_END_TAG :: int where "XML_TOK_END_TAG \<equiv> 5"
abbreviation XML_TOK_DATA_CHARS :: int where "XML_TOK_DATA_CHARS \<equiv> 6"
abbreviation XML_TOK_DATA_NEWLINE :: int where "XML_TOK_DATA_NEWLINE \<equiv> 7"
abbreviation XML_TOK_CDATA_SECT_OPEN :: int where "XML_TOK_CDATA_SECT_OPEN \<equiv> 8"
abbreviation XML_TOK_ENTITY_REF :: int where "XML_TOK_ENTITY_REF \<equiv> 9"
abbreviation XML_TOK_CHAR_REF :: int where "XML_TOK_CHAR_REF \<equiv> 10"
abbreviation XML_TOK_PI :: int where "XML_TOK_PI \<equiv> 11"
abbreviation XML_TOK_XML_DECL :: int where "XML_TOK_XML_DECL \<equiv> 12"
abbreviation XML_TOK_COMMENT :: int where "XML_TOK_COMMENT \<equiv> 13"
abbreviation XML_TOK_BOM :: int where "XML_TOK_BOM \<equiv> 14"
abbreviation XML_TOK_PROLOG_S :: int where "XML_TOK_PROLOG_S \<equiv> 15"
abbreviation XML_TOK_DECL_OPEN :: int where "XML_TOK_DECL_OPEN \<equiv> 16"
abbreviation XML_TOK_DECL_CLOSE :: int where "XML_TOK_DECL_CLOSE \<equiv> 17"
abbreviation XML_TOK_NAME :: int where "XML_TOK_NAME \<equiv> 18"
abbreviation XML_TOK_NMTOKEN :: int where "XML_TOK_NMTOKEN \<equiv> 19"
abbreviation XML_TOK_POUND_NAME :: int where "XML_TOK_POUND_NAME \<equiv> 20"
abbreviation XML_TOK_OR :: int where "XML_TOK_OR \<equiv> 21"
abbreviation XML_TOK_PERCENT :: int where "XML_TOK_PERCENT \<equiv> 22"
abbreviation XML_TOK_OPEN_PAREN :: int where "XML_TOK_OPEN_PAREN \<equiv> 23"
abbreviation XML_TOK_CLOSE_PAREN :: int where "XML_TOK_CLOSE_PAREN \<equiv> 24"
abbreviation XML_TOK_OPEN_BRACKET :: int where "XML_TOK_OPEN_BRACKET \<equiv> 25"
abbreviation XML_TOK_CLOSE_BRACKET :: int where "XML_TOK_CLOSE_BRACKET \<equiv> 26"
abbreviation XML_TOK_LITERAL :: int where "XML_TOK_LITERAL \<equiv> 27"
abbreviation XML_TOK_PARAM_ENTITY_REF :: int where "XML_TOK_PARAM_ENTITY_REF \<equiv> 28"
abbreviation XML_TOK_INSTANCE_START :: int where "XML_TOK_INSTANCE_START \<equiv> 29"
abbreviation XML_TOK_NAME_QUESTION :: int where "XML_TOK_NAME_QUESTION \<equiv> 30"
abbreviation XML_TOK_NAME_ASTERISK :: int where "XML_TOK_NAME_ASTERISK \<equiv> 31"
abbreviation XML_TOK_NAME_PLUS :: int where "XML_TOK_NAME_PLUS \<equiv> 32"
abbreviation XML_TOK_COND_SECT_OPEN :: int where "XML_TOK_COND_SECT_OPEN \<equiv> 33"
abbreviation XML_TOK_COND_SECT_CLOSE :: int where "XML_TOK_COND_SECT_CLOSE \<equiv> 34"
abbreviation XML_TOK_CLOSE_PAREN_QUESTION :: int where "XML_TOK_CLOSE_PAREN_QUESTION \<equiv> 35"
abbreviation XML_TOK_CLOSE_PAREN_ASTERISK :: int where "XML_TOK_CLOSE_PAREN_ASTERISK \<equiv> 36"
abbreviation XML_TOK_CLOSE_PAREN_PLUS :: int where "XML_TOK_CLOSE_PAREN_PLUS \<equiv> 37"
abbreviation XML_TOK_COMMA :: int where "XML_TOK_COMMA \<equiv> 38"
abbreviation XML_TOK_ATTRIBUTE_VALUE_S :: int where "XML_TOK_ATTRIBUTE_VALUE_S \<equiv> 39"
abbreviation XML_TOK_CDATA_SECT_CLOSE :: int where "XML_TOK_CDATA_SECT_CLOSE \<equiv> 40"
abbreviation XML_TOK_PREFIXED_NAME :: int where "XML_TOK_PREFIXED_NAME \<equiv> 41"
abbreviation XML_TOK_IGNORE_SECT :: int where "XML_TOK_IGNORE_SECT \<equiv> 42"

end
