(* ===== verification/XmlRole.thy ===== *)
theory XmlRole
  imports XmlTokens
begin

text \<open>
  The state machine for the prolog of an XML document and for external DTD subsets
  (\<^verbatim>\<open>src/expat/lib/xmlrole.c\<close>, \<^verbatim>\<open>xmlrole.h\<close>), as it is built with \<^verbatim>\<open>XML_DTD\<close>, which the build files of
  expat define. Each token moves the machine and is given a role. A handler, in C a pointer to
  a function, is a constructor of \<open>prolog_handler\<close>; \<open>XmlTokenRole\<close> calls it. The text of a token is
  what lies between \<^verbatim>\<open>ptr\<close> and \<^verbatim>\<open>end\<close>, in an encoding with one byte per ASCII character; the scanner
  only returns \<open>XML_TOK_DECL_OPEN\<close> for a text that starts with two and \<open>XML_TOK_POUND_NAME\<close> for one
  that starts with one character of punctuation, so \<open>drop\<close> is the pointer arithmetic of the code.

  The theorems: the content models of element declarations that are accepted are those of a
  grammar (in which, as the code says, the separators of a group may be mixed); the fields the
  initialisation leaves alone are never read before they are written; and the roles of a
  prolog come in the order the XML recommendation asks for.
\<close>

section \<open>Roles and key words\<close>

abbreviation XML_ROLE_ERROR :: int where "XML_ROLE_ERROR \<equiv> -1"
abbreviation XML_ROLE_NONE :: int where "XML_ROLE_NONE \<equiv> 0"
abbreviation XML_ROLE_XML_DECL :: int where "XML_ROLE_XML_DECL \<equiv> 1"
abbreviation XML_ROLE_INSTANCE_START :: int where "XML_ROLE_INSTANCE_START \<equiv> 2"
abbreviation XML_ROLE_DOCTYPE_NONE :: int where "XML_ROLE_DOCTYPE_NONE \<equiv> 3"
abbreviation XML_ROLE_DOCTYPE_NAME :: int where "XML_ROLE_DOCTYPE_NAME \<equiv> 4"
abbreviation XML_ROLE_DOCTYPE_SYSTEM_ID :: int where "XML_ROLE_DOCTYPE_SYSTEM_ID \<equiv> 5"
abbreviation XML_ROLE_DOCTYPE_PUBLIC_ID :: int where "XML_ROLE_DOCTYPE_PUBLIC_ID \<equiv> 6"
abbreviation XML_ROLE_DOCTYPE_INTERNAL_SUBSET :: int where "XML_ROLE_DOCTYPE_INTERNAL_SUBSET \<equiv> 7"
abbreviation XML_ROLE_DOCTYPE_CLOSE :: int where "XML_ROLE_DOCTYPE_CLOSE \<equiv> 8"
abbreviation XML_ROLE_GENERAL_ENTITY_NAME :: int where "XML_ROLE_GENERAL_ENTITY_NAME \<equiv> 9"
abbreviation XML_ROLE_PARAM_ENTITY_NAME :: int where "XML_ROLE_PARAM_ENTITY_NAME \<equiv> 10"
abbreviation XML_ROLE_ENTITY_NONE :: int where "XML_ROLE_ENTITY_NONE \<equiv> 11"
abbreviation XML_ROLE_ENTITY_VALUE :: int where "XML_ROLE_ENTITY_VALUE \<equiv> 12"
abbreviation XML_ROLE_ENTITY_SYSTEM_ID :: int where "XML_ROLE_ENTITY_SYSTEM_ID \<equiv> 13"
abbreviation XML_ROLE_ENTITY_PUBLIC_ID :: int where "XML_ROLE_ENTITY_PUBLIC_ID \<equiv> 14"
abbreviation XML_ROLE_ENTITY_COMPLETE :: int where "XML_ROLE_ENTITY_COMPLETE \<equiv> 15"
abbreviation XML_ROLE_ENTITY_NOTATION_NAME :: int where "XML_ROLE_ENTITY_NOTATION_NAME \<equiv> 16"
abbreviation XML_ROLE_NOTATION_NONE :: int where "XML_ROLE_NOTATION_NONE \<equiv> 17"
abbreviation XML_ROLE_NOTATION_NAME :: int where "XML_ROLE_NOTATION_NAME \<equiv> 18"
abbreviation XML_ROLE_NOTATION_SYSTEM_ID :: int where "XML_ROLE_NOTATION_SYSTEM_ID \<equiv> 19"
abbreviation XML_ROLE_NOTATION_NO_SYSTEM_ID :: int where "XML_ROLE_NOTATION_NO_SYSTEM_ID \<equiv> 20"
abbreviation XML_ROLE_NOTATION_PUBLIC_ID :: int where "XML_ROLE_NOTATION_PUBLIC_ID \<equiv> 21"
abbreviation XML_ROLE_ATTRIBUTE_NAME :: int where "XML_ROLE_ATTRIBUTE_NAME \<equiv> 22"
abbreviation XML_ROLE_ATTRIBUTE_TYPE_CDATA :: int where "XML_ROLE_ATTRIBUTE_TYPE_CDATA \<equiv> 23"
abbreviation XML_ROLE_ATTRIBUTE_TYPE_ID :: int where "XML_ROLE_ATTRIBUTE_TYPE_ID \<equiv> 24"
abbreviation XML_ROLE_ATTRIBUTE_TYPE_IDREF :: int where "XML_ROLE_ATTRIBUTE_TYPE_IDREF \<equiv> 25"
abbreviation XML_ROLE_ATTRIBUTE_TYPE_IDREFS :: int where "XML_ROLE_ATTRIBUTE_TYPE_IDREFS \<equiv> 26"
abbreviation XML_ROLE_ATTRIBUTE_TYPE_ENTITY :: int where "XML_ROLE_ATTRIBUTE_TYPE_ENTITY \<equiv> 27"
abbreviation XML_ROLE_ATTRIBUTE_TYPE_ENTITIES :: int where "XML_ROLE_ATTRIBUTE_TYPE_ENTITIES \<equiv> 28"
abbreviation XML_ROLE_ATTRIBUTE_TYPE_NMTOKEN :: int where "XML_ROLE_ATTRIBUTE_TYPE_NMTOKEN \<equiv> 29"
abbreviation XML_ROLE_ATTRIBUTE_TYPE_NMTOKENS :: int where "XML_ROLE_ATTRIBUTE_TYPE_NMTOKENS \<equiv> 30"
abbreviation XML_ROLE_ATTRIBUTE_ENUM_VALUE :: int where "XML_ROLE_ATTRIBUTE_ENUM_VALUE \<equiv> 31"
abbreviation XML_ROLE_ATTRIBUTE_NOTATION_VALUE :: int where "XML_ROLE_ATTRIBUTE_NOTATION_VALUE \<equiv> 32"
abbreviation XML_ROLE_ATTLIST_NONE :: int where "XML_ROLE_ATTLIST_NONE \<equiv> 33"
abbreviation XML_ROLE_ATTLIST_ELEMENT_NAME :: int where "XML_ROLE_ATTLIST_ELEMENT_NAME \<equiv> 34"
abbreviation XML_ROLE_IMPLIED_ATTRIBUTE_VALUE :: int where "XML_ROLE_IMPLIED_ATTRIBUTE_VALUE \<equiv> 35"
abbreviation XML_ROLE_REQUIRED_ATTRIBUTE_VALUE :: int where "XML_ROLE_REQUIRED_ATTRIBUTE_VALUE \<equiv> 36"
abbreviation XML_ROLE_DEFAULT_ATTRIBUTE_VALUE :: int where "XML_ROLE_DEFAULT_ATTRIBUTE_VALUE \<equiv> 37"
abbreviation XML_ROLE_FIXED_ATTRIBUTE_VALUE :: int where "XML_ROLE_FIXED_ATTRIBUTE_VALUE \<equiv> 38"
abbreviation XML_ROLE_ELEMENT_NONE :: int where "XML_ROLE_ELEMENT_NONE \<equiv> 39"
abbreviation XML_ROLE_ELEMENT_NAME :: int where "XML_ROLE_ELEMENT_NAME \<equiv> 40"
abbreviation XML_ROLE_CONTENT_ANY :: int where "XML_ROLE_CONTENT_ANY \<equiv> 41"
abbreviation XML_ROLE_CONTENT_EMPTY :: int where "XML_ROLE_CONTENT_EMPTY \<equiv> 42"
abbreviation XML_ROLE_CONTENT_PCDATA :: int where "XML_ROLE_CONTENT_PCDATA \<equiv> 43"
abbreviation XML_ROLE_GROUP_OPEN :: int where "XML_ROLE_GROUP_OPEN \<equiv> 44"
abbreviation XML_ROLE_GROUP_CLOSE :: int where "XML_ROLE_GROUP_CLOSE \<equiv> 45"
abbreviation XML_ROLE_GROUP_CLOSE_REP :: int where "XML_ROLE_GROUP_CLOSE_REP \<equiv> 46"
abbreviation XML_ROLE_GROUP_CLOSE_OPT :: int where "XML_ROLE_GROUP_CLOSE_OPT \<equiv> 47"
abbreviation XML_ROLE_GROUP_CLOSE_PLUS :: int where "XML_ROLE_GROUP_CLOSE_PLUS \<equiv> 48"
abbreviation XML_ROLE_GROUP_CHOICE :: int where "XML_ROLE_GROUP_CHOICE \<equiv> 49"
abbreviation XML_ROLE_GROUP_SEQUENCE :: int where "XML_ROLE_GROUP_SEQUENCE \<equiv> 50"
abbreviation XML_ROLE_CONTENT_ELEMENT :: int where "XML_ROLE_CONTENT_ELEMENT \<equiv> 51"
abbreviation XML_ROLE_CONTENT_ELEMENT_REP :: int where "XML_ROLE_CONTENT_ELEMENT_REP \<equiv> 52"
abbreviation XML_ROLE_CONTENT_ELEMENT_OPT :: int where "XML_ROLE_CONTENT_ELEMENT_OPT \<equiv> 53"
abbreviation XML_ROLE_CONTENT_ELEMENT_PLUS :: int where "XML_ROLE_CONTENT_ELEMENT_PLUS \<equiv> 54"
abbreviation XML_ROLE_PI :: int where "XML_ROLE_PI \<equiv> 55"
abbreviation XML_ROLE_COMMENT :: int where "XML_ROLE_COMMENT \<equiv> 56"
abbreviation XML_ROLE_TEXT_DECL :: int where "XML_ROLE_TEXT_DECL \<equiv> 57"
abbreviation XML_ROLE_IGNORE_SECT :: int where "XML_ROLE_IGNORE_SECT \<equiv> 58"
abbreviation XML_ROLE_INNER_PARAM_ENTITY_REF :: int where "XML_ROLE_INNER_PARAM_ENTITY_REF \<equiv> 59"
abbreviation XML_ROLE_PARAM_ENTITY_REF :: int where "XML_ROLE_PARAM_ENTITY_REF \<equiv> 60"

abbreviation KW_ANY :: cstr where "KW_ANY \<equiv> ''ANY''"
abbreviation KW_ATTLIST :: cstr where "KW_ATTLIST \<equiv> ''ATTLIST''"
abbreviation KW_CDATA :: cstr where "KW_CDATA \<equiv> ''CDATA''"
abbreviation KW_DOCTYPE :: cstr where "KW_DOCTYPE \<equiv> ''DOCTYPE''"
abbreviation KW_ELEMENT :: cstr where "KW_ELEMENT \<equiv> ''ELEMENT''"
abbreviation KW_EMPTY :: cstr where "KW_EMPTY \<equiv> ''EMPTY''"
abbreviation KW_ENTITIES :: cstr where "KW_ENTITIES \<equiv> ''ENTITIES''"
abbreviation KW_ENTITY :: cstr where "KW_ENTITY \<equiv> ''ENTITY''"
abbreviation KW_FIXED :: cstr where "KW_FIXED \<equiv> ''FIXED''"
abbreviation KW_ID :: cstr where "KW_ID \<equiv> ''ID''"
abbreviation KW_IDREF :: cstr where "KW_IDREF \<equiv> ''IDREF''"
abbreviation KW_IDREFS :: cstr where "KW_IDREFS \<equiv> ''IDREFS''"
abbreviation KW_IGNORE :: cstr where "KW_IGNORE \<equiv> ''IGNORE''"
abbreviation KW_IMPLIED :: cstr where "KW_IMPLIED \<equiv> ''IMPLIED''"
abbreviation KW_INCLUDE :: cstr where "KW_INCLUDE \<equiv> ''INCLUDE''"
abbreviation KW_NDATA :: cstr where "KW_NDATA \<equiv> ''NDATA''"
abbreviation KW_NMTOKEN :: cstr where "KW_NMTOKEN \<equiv> ''NMTOKEN''"
abbreviation KW_NMTOKENS :: cstr where "KW_NMTOKENS \<equiv> ''NMTOKENS''"
abbreviation KW_NOTATION :: cstr where "KW_NOTATION \<equiv> ''NOTATION''"
abbreviation KW_PCDATA :: cstr where "KW_PCDATA \<equiv> ''PCDATA''"
abbreviation KW_PUBLIC :: cstr where "KW_PUBLIC \<equiv> ''PUBLIC''"
abbreviation KW_REQUIRED :: cstr where "KW_REQUIRED \<equiv> ''REQUIRED''"
abbreviation KW_SYSTEM :: cstr where "KW_SYSTEM \<equiv> ''SYSTEM''"

section \<open>The state\<close>

datatype prolog_handler
  = Prolog0 | Prolog1 | Prolog2 | Doctype0 | Doctype1 | Doctype2 | Doctype3 | Doctype4
  | Doctype5 | InternalSubset | ExternalSubset0 | ExternalSubset1 | Entity0 | Entity1
  | Entity2 | Entity3 | Entity4 | Entity5 | Entity6 | Entity7 | Entity8 | Entity9 | Entity10
  | Notation0 | Notation1 | Notation2 | Notation3 | Notation4 | Attlist0 | Attlist1 | Attlist2
  | Attlist3 | Attlist4 | Attlist5 | Attlist6 | Attlist7 | Attlist8 | Attlist9 | Element0
  | Element1 | Element2 | Element3 | Element4 | Element5 | Element6 | Element7 | CondSect0
  | CondSect1 | CondSect2 | DeclClose | ErrorState

text \<open>\<open>level\<close> and \<open>includeLevel\<close> are unsigned and wrap around; the flags are integers in C.\<close>

record prolog_state =
  handler :: prolog_handler
  level :: "32 word"
  role_none :: int
  includeLevel :: "32 word"
  documentEntity :: bool
  inEntityValue :: bool

fun nameMatchesAscii :: "cstr \<Rightarrow> cstr \<Rightarrow> bool" where
  "nameMatchesAscii ptr1 [] = (ptr1 = [])"
| "nameMatchesAscii [] (c # cs) = False"
| "nameMatchesAscii (p # ps) (c # cs) = (if p \<noteq> c then False else nameMatchesAscii ps cs)"

definition setTopLevel :: "prolog_state \<Rightarrow> prolog_state" where
  "setTopLevel st =
    st\<lparr>handler := (if documentEntity st then InternalSubset else ExternalSubset1)\<rparr>"

definition common :: "prolog_state \<Rightarrow> int \<Rightarrow> prolog_state \<times> int" where
  "common st tok =
    (if \<not> documentEntity st \<and> tok = XML_TOK_PARAM_ENTITY_REF
     then (st, XML_ROLE_INNER_PARAM_ENTITY_REF)
     else (st\<lparr>handler := ErrorState\<rparr>, XML_ROLE_ERROR))"

section \<open>The handlers\<close>

type_synonym role_fun = "prolog_state \<Rightarrow> int \<Rightarrow> cstr \<Rightarrow> prolog_state \<times> int"

definition prolog0 :: role_fun where
  "prolog0 st tok txt =
    (if tok = XML_TOK_PROLOG_S then (st\<lparr>handler := Prolog1\<rparr>, XML_ROLE_NONE)
     else if tok = XML_TOK_XML_DECL then (st\<lparr>handler := Prolog1\<rparr>, XML_ROLE_XML_DECL)
     else if tok = XML_TOK_PI then (st\<lparr>handler := Prolog1\<rparr>, XML_ROLE_PI)
     else if tok = XML_TOK_COMMENT then (st\<lparr>handler := Prolog1\<rparr>, XML_ROLE_COMMENT)
     else if tok = XML_TOK_BOM then (st, XML_ROLE_NONE)
     else if tok = XML_TOK_DECL_OPEN then
         (if \<not> nameMatchesAscii (drop 2 txt) KW_DOCTYPE then common st tok
          else (st\<lparr>handler := Doctype0\<rparr>, XML_ROLE_DOCTYPE_NONE))
     else if tok = XML_TOK_INSTANCE_START then
       (st\<lparr>handler := ErrorState\<rparr>, XML_ROLE_INSTANCE_START)
     else common st tok)"

definition prolog1 :: role_fun where
  "prolog1 st tok txt =
    (if tok = XML_TOK_PROLOG_S then (st, XML_ROLE_NONE)
     else if tok = XML_TOK_PI then (st, XML_ROLE_PI)
     else if tok = XML_TOK_COMMENT then (st, XML_ROLE_COMMENT)
     else if tok = XML_TOK_BOM then (st, XML_ROLE_NONE)
     else if tok = XML_TOK_DECL_OPEN then
         (if \<not> nameMatchesAscii (drop 2 txt) KW_DOCTYPE then common st tok
          else (st\<lparr>handler := Doctype0\<rparr>, XML_ROLE_DOCTYPE_NONE))
     else if tok = XML_TOK_INSTANCE_START then
       (st\<lparr>handler := ErrorState\<rparr>, XML_ROLE_INSTANCE_START)
     else common st tok)"

definition prolog2 :: role_fun where
  "prolog2 st tok txt =
    (if tok = XML_TOK_PROLOG_S then (st, XML_ROLE_NONE)
     else if tok = XML_TOK_PI then (st, XML_ROLE_PI)
     else if tok = XML_TOK_COMMENT then (st, XML_ROLE_COMMENT)
     else if tok = XML_TOK_INSTANCE_START then
       (st\<lparr>handler := ErrorState\<rparr>, XML_ROLE_INSTANCE_START)
     else common st tok)"

definition doctype0 :: role_fun where
  "doctype0 st tok txt =
    (if tok = XML_TOK_PROLOG_S then (st, XML_ROLE_DOCTYPE_NONE)
     else if tok = XML_TOK_NAME \<or> tok = XML_TOK_PREFIXED_NAME then
       (st\<lparr>handler := Doctype1\<rparr>, XML_ROLE_DOCTYPE_NAME)
     else common st tok)"

definition doctype1 :: role_fun where
  "doctype1 st tok txt =
    (if tok = XML_TOK_PROLOG_S then (st, XML_ROLE_DOCTYPE_NONE)
     else if tok = XML_TOK_OPEN_BRACKET then
       (st\<lparr>handler := InternalSubset\<rparr>, XML_ROLE_DOCTYPE_INTERNAL_SUBSET)
     else if tok = XML_TOK_DECL_CLOSE then (st\<lparr>handler := Prolog2\<rparr>, XML_ROLE_DOCTYPE_CLOSE)
     else if tok = XML_TOK_NAME then
         (if nameMatchesAscii txt KW_SYSTEM then
           (st\<lparr>handler := Doctype3\<rparr>, XML_ROLE_DOCTYPE_NONE)
          else if nameMatchesAscii txt KW_PUBLIC then
            (st\<lparr>handler := Doctype2\<rparr>, XML_ROLE_DOCTYPE_NONE)
          else common st tok)
     else common st tok)"

definition doctype2 :: role_fun where
  "doctype2 st tok txt =
    (if tok = XML_TOK_PROLOG_S then (st, XML_ROLE_DOCTYPE_NONE)
     else if tok = XML_TOK_LITERAL then (st\<lparr>handler := Doctype3\<rparr>, XML_ROLE_DOCTYPE_PUBLIC_ID)
     else common st tok)"

definition doctype3 :: role_fun where
  "doctype3 st tok txt =
    (if tok = XML_TOK_PROLOG_S then (st, XML_ROLE_DOCTYPE_NONE)
     else if tok = XML_TOK_LITERAL then (st\<lparr>handler := Doctype4\<rparr>, XML_ROLE_DOCTYPE_SYSTEM_ID)
     else common st tok)"

definition doctype4 :: role_fun where
  "doctype4 st tok txt =
    (if tok = XML_TOK_PROLOG_S then (st, XML_ROLE_DOCTYPE_NONE)
     else if tok = XML_TOK_OPEN_BRACKET then
       (st\<lparr>handler := InternalSubset\<rparr>, XML_ROLE_DOCTYPE_INTERNAL_SUBSET)
     else if tok = XML_TOK_DECL_CLOSE then (st\<lparr>handler := Prolog2\<rparr>, XML_ROLE_DOCTYPE_CLOSE)
     else common st tok)"

definition doctype5 :: role_fun where
  "doctype5 st tok txt =
    (if tok = XML_TOK_PROLOG_S then (st, XML_ROLE_DOCTYPE_NONE)
     else if tok = XML_TOK_DECL_CLOSE then (st\<lparr>handler := Prolog2\<rparr>, XML_ROLE_DOCTYPE_CLOSE)
     else common st tok)"

definition internalSubset :: role_fun where
  "internalSubset st tok txt =
    (if tok = XML_TOK_PROLOG_S then (st, XML_ROLE_NONE)
     else if tok = XML_TOK_DECL_OPEN then
         (if nameMatchesAscii (drop 2 txt) KW_ENTITY then
           (st\<lparr>handler := Entity0\<rparr>, XML_ROLE_ENTITY_NONE)
          else if nameMatchesAscii (drop 2 txt) KW_ATTLIST then
            (st\<lparr>handler := Attlist0\<rparr>, XML_ROLE_ATTLIST_NONE)
          else if nameMatchesAscii (drop 2 txt) KW_ELEMENT then
            (st\<lparr>handler := Element0\<rparr>, XML_ROLE_ELEMENT_NONE)
          else if nameMatchesAscii (drop 2 txt) KW_NOTATION then
            (st\<lparr>handler := Notation0\<rparr>, XML_ROLE_NOTATION_NONE)
          else common st tok)
     else if tok = XML_TOK_PI then (st, XML_ROLE_PI)
     else if tok = XML_TOK_COMMENT then (st, XML_ROLE_COMMENT)
     else if tok = XML_TOK_PARAM_ENTITY_REF then (st, XML_ROLE_PARAM_ENTITY_REF)
     else if tok = XML_TOK_CLOSE_BRACKET then (st\<lparr>handler := Doctype5\<rparr>, XML_ROLE_DOCTYPE_NONE)
     else if tok = XML_TOK_NONE then (st, XML_ROLE_NONE)
     else common st tok)"

definition externalSubset1 :: role_fun where
  "externalSubset1 st tok txt =
    (if tok = XML_TOK_COND_SECT_OPEN then (st\<lparr>handler := CondSect0\<rparr>, XML_ROLE_NONE)
     else if tok = XML_TOK_COND_SECT_CLOSE then
         (if includeLevel st = 0 then common st tok
          else (st\<lparr>includeLevel := includeLevel st - 1\<rparr>, XML_ROLE_NONE))
     else if tok = XML_TOK_PROLOG_S then (st, XML_ROLE_NONE)
     else if tok = XML_TOK_CLOSE_BRACKET then common st tok
     else if tok = XML_TOK_NONE then
         (if includeLevel st \<noteq> 0 then common st tok
          else (st, XML_ROLE_NONE))
     else internalSubset st tok txt)"

definition externalSubset0 :: role_fun where
  "externalSubset0 st tok txt =
    (let st = st\<lparr>handler := ExternalSubset1\<rparr>
     in if tok = XML_TOK_XML_DECL then
       (st, XML_ROLE_TEXT_DECL) else externalSubset1 st tok txt)"

definition entity0 :: role_fun where
  "entity0 st tok txt =
    (if tok = XML_TOK_PROLOG_S then (st, XML_ROLE_ENTITY_NONE)
     else if tok = XML_TOK_PERCENT then (st\<lparr>handler := Entity1\<rparr>, XML_ROLE_ENTITY_NONE)
     else if tok = XML_TOK_NAME then (st\<lparr>handler := Entity2\<rparr>, XML_ROLE_GENERAL_ENTITY_NAME)
     else common st tok)"

definition entity1 :: role_fun where
  "entity1 st tok txt =
    (if tok = XML_TOK_PROLOG_S then (st, XML_ROLE_ENTITY_NONE)
     else if tok = XML_TOK_NAME then (st\<lparr>handler := Entity7\<rparr>, XML_ROLE_PARAM_ENTITY_NAME)
     else common st tok)"

definition entity2 :: role_fun where
  "entity2 st tok txt =
    (if tok = XML_TOK_PROLOG_S then (st, XML_ROLE_ENTITY_NONE)
     else if tok = XML_TOK_NAME then
         (if nameMatchesAscii txt KW_SYSTEM then (st\<lparr>handler := Entity4\<rparr>, XML_ROLE_ENTITY_NONE)
          else if nameMatchesAscii txt KW_PUBLIC then
            (st\<lparr>handler := Entity3\<rparr>, XML_ROLE_ENTITY_NONE)
          else common st tok)
     else if tok = XML_TOK_LITERAL then
       (st\<lparr>handler := DeclClose, role_none := XML_ROLE_ENTITY_NONE\<rparr>, XML_ROLE_ENTITY_VALUE)
     else common st tok)"

definition entity3 :: role_fun where
  "entity3 st tok txt =
    (if tok = XML_TOK_PROLOG_S then (st, XML_ROLE_ENTITY_NONE)
     else if tok = XML_TOK_LITERAL then (st\<lparr>handler := Entity4\<rparr>, XML_ROLE_ENTITY_PUBLIC_ID)
     else common st tok)"

definition entity4 :: role_fun where
  "entity4 st tok txt =
    (if tok = XML_TOK_PROLOG_S then (st, XML_ROLE_ENTITY_NONE)
     else if tok = XML_TOK_LITERAL then (st\<lparr>handler := Entity5\<rparr>, XML_ROLE_ENTITY_SYSTEM_ID)
     else common st tok)"

definition entity5 :: role_fun where
  "entity5 st tok txt =
    (if tok = XML_TOK_PROLOG_S then (st, XML_ROLE_ENTITY_NONE)
     else if tok = XML_TOK_DECL_CLOSE then (setTopLevel st, XML_ROLE_ENTITY_COMPLETE)
     else if tok = XML_TOK_NAME then
         (if nameMatchesAscii txt KW_NDATA then (st\<lparr>handler := Entity6\<rparr>, XML_ROLE_ENTITY_NONE)
          else common st tok)
     else common st tok)"

definition entity6 :: role_fun where
  "entity6 st tok txt =
    (if tok = XML_TOK_PROLOG_S then (st, XML_ROLE_ENTITY_NONE)
     else if tok = XML_TOK_NAME then
       (st\<lparr>handler := DeclClose, role_none := XML_ROLE_ENTITY_NONE\<rparr>, XML_ROLE_ENTITY_NOTATION_NAME)
     else common st tok)"

definition entity7 :: role_fun where
  "entity7 st tok txt =
    (if tok = XML_TOK_PROLOG_S then (st, XML_ROLE_ENTITY_NONE)
     else if tok = XML_TOK_NAME then
         (if nameMatchesAscii txt KW_SYSTEM then (st\<lparr>handler := Entity9\<rparr>, XML_ROLE_ENTITY_NONE)
          else if nameMatchesAscii txt KW_PUBLIC then
            (st\<lparr>handler := Entity8\<rparr>, XML_ROLE_ENTITY_NONE)
          else common st tok)
     else if tok = XML_TOK_LITERAL then
       (st\<lparr>handler := DeclClose, role_none := XML_ROLE_ENTITY_NONE\<rparr>, XML_ROLE_ENTITY_VALUE)
     else common st tok)"

definition entity8 :: role_fun where
  "entity8 st tok txt =
    (if tok = XML_TOK_PROLOG_S then (st, XML_ROLE_ENTITY_NONE)
     else if tok = XML_TOK_LITERAL then (st\<lparr>handler := Entity9\<rparr>, XML_ROLE_ENTITY_PUBLIC_ID)
     else common st tok)"

definition entity9 :: role_fun where
  "entity9 st tok txt =
    (if tok = XML_TOK_PROLOG_S then (st, XML_ROLE_ENTITY_NONE)
     else if tok = XML_TOK_LITERAL then (st\<lparr>handler := Entity10\<rparr>, XML_ROLE_ENTITY_SYSTEM_ID)
     else common st tok)"

definition entity10 :: role_fun where
  "entity10 st tok txt =
    (if tok = XML_TOK_PROLOG_S then (st, XML_ROLE_ENTITY_NONE)
     else if tok = XML_TOK_DECL_CLOSE then (setTopLevel st, XML_ROLE_ENTITY_COMPLETE)
     else common st tok)"

definition notation0 :: role_fun where
  "notation0 st tok txt =
    (if tok = XML_TOK_PROLOG_S then (st, XML_ROLE_NOTATION_NONE)
     else if tok = XML_TOK_NAME then (st\<lparr>handler := Notation1\<rparr>, XML_ROLE_NOTATION_NAME)
     else common st tok)"

definition notation1 :: role_fun where
  "notation1 st tok txt =
    (if tok = XML_TOK_PROLOG_S then (st, XML_ROLE_NOTATION_NONE)
     else if tok = XML_TOK_NAME then
         (if nameMatchesAscii txt KW_SYSTEM then
           (st\<lparr>handler := Notation3\<rparr>, XML_ROLE_NOTATION_NONE)
          else if nameMatchesAscii txt KW_PUBLIC then
            (st\<lparr>handler := Notation2\<rparr>, XML_ROLE_NOTATION_NONE)
          else common st tok)
     else common st tok)"

definition notation2 :: role_fun where
  "notation2 st tok txt =
    (if tok = XML_TOK_PROLOG_S then (st, XML_ROLE_NOTATION_NONE)
     else if tok = XML_TOK_LITERAL then (st\<lparr>handler := Notation4\<rparr>, XML_ROLE_NOTATION_PUBLIC_ID)
     else common st tok)"

definition notation3 :: role_fun where
  "notation3 st tok txt =
    (if tok = XML_TOK_PROLOG_S then (st, XML_ROLE_NOTATION_NONE)
     else if tok = XML_TOK_LITERAL then
       (st\<lparr>handler := DeclClose, role_none := XML_ROLE_NOTATION_NONE\<rparr>, XML_ROLE_NOTATION_SYSTEM_ID)
     else common st tok)"

definition notation4 :: role_fun where
  "notation4 st tok txt =
    (if tok = XML_TOK_PROLOG_S then (st, XML_ROLE_NOTATION_NONE)
     else if tok = XML_TOK_LITERAL then
       (st\<lparr>handler := DeclClose, role_none := XML_ROLE_NOTATION_NONE\<rparr>, XML_ROLE_NOTATION_SYSTEM_ID)
     else if tok = XML_TOK_DECL_CLOSE then (setTopLevel st, XML_ROLE_NOTATION_NO_SYSTEM_ID)
     else common st tok)"

definition attlist0 :: role_fun where
  "attlist0 st tok txt =
    (if tok = XML_TOK_PROLOG_S then (st, XML_ROLE_ATTLIST_NONE)
     else if tok = XML_TOK_NAME \<or> tok = XML_TOK_PREFIXED_NAME then
       (st\<lparr>handler := Attlist1\<rparr>, XML_ROLE_ATTLIST_ELEMENT_NAME)
     else common st tok)"

definition attlist1 :: role_fun where
  "attlist1 st tok txt =
    (if tok = XML_TOK_PROLOG_S then (st, XML_ROLE_ATTLIST_NONE)
     else if tok = XML_TOK_DECL_CLOSE then (setTopLevel st, XML_ROLE_ATTLIST_NONE)
     else if tok = XML_TOK_NAME \<or> tok = XML_TOK_PREFIXED_NAME then
       (st\<lparr>handler := Attlist2\<rparr>, XML_ROLE_ATTRIBUTE_NAME)
     else common st tok)"

definition ATTRIBUTE_TYPES :: "cstr list" where
  "ATTRIBUTE_TYPES = [KW_CDATA, KW_ID, KW_IDREF, KW_IDREFS, KW_ENTITY, KW_ENTITIES, KW_NMTOKEN,
     KW_NMTOKENS]"

text \<open>The loop over the types: the first that matches.\<close>

fun type_index :: "cstr list \<Rightarrow> cstr \<Rightarrow> nat option" where
  "type_index [] txt = None"
| "type_index (t # ts) txt =
    (if nameMatchesAscii txt t then Some 0 else map_option Suc (type_index ts txt))"

definition attlist2 :: role_fun where
  "attlist2 st tok txt =
    (if tok = XML_TOK_PROLOG_S then (st, XML_ROLE_ATTLIST_NONE)
     else if tok = XML_TOK_NAME then
         (case type_index ATTRIBUTE_TYPES txt of
            Some i \<Rightarrow> (st\<lparr>handler := Attlist8\<rparr>, XML_ROLE_ATTRIBUTE_TYPE_CDATA + int i)
          | None \<Rightarrow> if nameMatchesAscii txt KW_NOTATION then
            (st\<lparr>handler := Attlist5\<rparr>, XML_ROLE_ATTLIST_NONE)
          else common st tok)
     else if tok = XML_TOK_OPEN_PAREN then (st\<lparr>handler := Attlist3\<rparr>, XML_ROLE_ATTLIST_NONE)
     else common st tok)"

definition attlist3 :: role_fun where
  "attlist3 st tok txt =
    (if tok = XML_TOK_PROLOG_S then (st, XML_ROLE_ATTLIST_NONE)
     else if tok = XML_TOK_NMTOKEN \<or> tok = XML_TOK_NAME \<or> tok = XML_TOK_PREFIXED_NAME then
       (st\<lparr>handler := Attlist4\<rparr>, XML_ROLE_ATTRIBUTE_ENUM_VALUE)
     else common st tok)"

definition attlist4 :: role_fun where
  "attlist4 st tok txt =
    (if tok = XML_TOK_PROLOG_S then (st, XML_ROLE_ATTLIST_NONE)
     else if tok = XML_TOK_CLOSE_PAREN then (st\<lparr>handler := Attlist8\<rparr>, XML_ROLE_ATTLIST_NONE)
     else if tok = XML_TOK_OR then (st\<lparr>handler := Attlist3\<rparr>, XML_ROLE_ATTLIST_NONE)
     else common st tok)"

definition attlist5 :: role_fun where
  "attlist5 st tok txt =
    (if tok = XML_TOK_PROLOG_S then (st, XML_ROLE_ATTLIST_NONE)
     else if tok = XML_TOK_OPEN_PAREN then (st\<lparr>handler := Attlist6\<rparr>, XML_ROLE_ATTLIST_NONE)
     else common st tok)"

definition attlist6 :: role_fun where
  "attlist6 st tok txt =
    (if tok = XML_TOK_PROLOG_S then (st, XML_ROLE_ATTLIST_NONE)
     else if tok = XML_TOK_NAME then
       (st\<lparr>handler := Attlist7\<rparr>, XML_ROLE_ATTRIBUTE_NOTATION_VALUE)
     else common st tok)"

definition attlist7 :: role_fun where
  "attlist7 st tok txt =
    (if tok = XML_TOK_PROLOG_S then (st, XML_ROLE_ATTLIST_NONE)
     else if tok = XML_TOK_CLOSE_PAREN then (st\<lparr>handler := Attlist8\<rparr>, XML_ROLE_ATTLIST_NONE)
     else if tok = XML_TOK_OR then (st\<lparr>handler := Attlist6\<rparr>, XML_ROLE_ATTLIST_NONE)
     else common st tok)"

definition attlist8 :: role_fun where
  "attlist8 st tok txt =
    (if tok = XML_TOK_PROLOG_S then (st, XML_ROLE_ATTLIST_NONE)
     else if tok = XML_TOK_POUND_NAME then
         (if nameMatchesAscii (drop 1 txt) KW_IMPLIED then
           (st\<lparr>handler := Attlist1\<rparr>, XML_ROLE_IMPLIED_ATTRIBUTE_VALUE)
          else if nameMatchesAscii (drop 1 txt) KW_REQUIRED then
            (st\<lparr>handler := Attlist1\<rparr>, XML_ROLE_REQUIRED_ATTRIBUTE_VALUE)
          else if nameMatchesAscii (drop 1 txt) KW_FIXED then
            (st\<lparr>handler := Attlist9\<rparr>, XML_ROLE_ATTLIST_NONE)
          else common st tok)
     else if tok = XML_TOK_LITERAL then
       (st\<lparr>handler := Attlist1\<rparr>, XML_ROLE_DEFAULT_ATTRIBUTE_VALUE)
     else common st tok)"

definition attlist9 :: role_fun where
  "attlist9 st tok txt =
    (if tok = XML_TOK_PROLOG_S then (st, XML_ROLE_ATTLIST_NONE)
     else if tok = XML_TOK_LITERAL then
       (st\<lparr>handler := Attlist1\<rparr>, XML_ROLE_FIXED_ATTRIBUTE_VALUE)
     else common st tok)"

definition element0 :: role_fun where
  "element0 st tok txt =
    (if tok = XML_TOK_PROLOG_S then (st, XML_ROLE_ELEMENT_NONE)
     else if tok = XML_TOK_NAME \<or> tok = XML_TOK_PREFIXED_NAME then
       (st\<lparr>handler := Element1\<rparr>, XML_ROLE_ELEMENT_NAME)
     else common st tok)"

definition element1 :: role_fun where
  "element1 st tok txt =
    (if tok = XML_TOK_PROLOG_S then (st, XML_ROLE_ELEMENT_NONE)
     else if tok = XML_TOK_NAME then
         (if nameMatchesAscii txt KW_EMPTY then
           (st\<lparr>handler := DeclClose, role_none := XML_ROLE_ELEMENT_NONE\<rparr>, XML_ROLE_CONTENT_EMPTY)
          else if nameMatchesAscii txt KW_ANY then
            (st\<lparr>handler := DeclClose, role_none := XML_ROLE_ELEMENT_NONE\<rparr>, XML_ROLE_CONTENT_ANY)
          else common st tok)
     else if tok = XML_TOK_OPEN_PAREN then
       (st\<lparr>handler := Element2, level := 1\<rparr>, XML_ROLE_GROUP_OPEN)
     else common st tok)"

definition element2 :: role_fun where
  "element2 st tok txt =
    (if tok = XML_TOK_PROLOG_S then (st, XML_ROLE_ELEMENT_NONE)
     else if tok = XML_TOK_POUND_NAME then
         (if nameMatchesAscii (drop 1 txt) KW_PCDATA then
           (st\<lparr>handler := Element3\<rparr>, XML_ROLE_CONTENT_PCDATA)
          else common st tok)
     else if tok = XML_TOK_OPEN_PAREN then
       (st\<lparr>level := 2, handler := Element6\<rparr>, XML_ROLE_GROUP_OPEN)
     else if tok = XML_TOK_NAME \<or> tok = XML_TOK_PREFIXED_NAME then
       (st\<lparr>handler := Element7\<rparr>, XML_ROLE_CONTENT_ELEMENT)
     else if tok = XML_TOK_NAME_QUESTION then
       (st\<lparr>handler := Element7\<rparr>, XML_ROLE_CONTENT_ELEMENT_OPT)
     else if tok = XML_TOK_NAME_ASTERISK then
       (st\<lparr>handler := Element7\<rparr>, XML_ROLE_CONTENT_ELEMENT_REP)
     else if tok = XML_TOK_NAME_PLUS then
       (st\<lparr>handler := Element7\<rparr>, XML_ROLE_CONTENT_ELEMENT_PLUS)
     else common st tok)"

definition element3 :: role_fun where
  "element3 st tok txt =
    (if tok = XML_TOK_PROLOG_S then (st, XML_ROLE_ELEMENT_NONE)
     else if tok = XML_TOK_CLOSE_PAREN then
       (st\<lparr>handler := DeclClose, role_none := XML_ROLE_ELEMENT_NONE\<rparr>, XML_ROLE_GROUP_CLOSE)
     else if tok = XML_TOK_CLOSE_PAREN_ASTERISK then
       (st\<lparr>handler := DeclClose, role_none := XML_ROLE_ELEMENT_NONE\<rparr>, XML_ROLE_GROUP_CLOSE_REP)
     else if tok = XML_TOK_OR then (st\<lparr>handler := Element4\<rparr>, XML_ROLE_ELEMENT_NONE)
     else common st tok)"

definition element4 :: role_fun where
  "element4 st tok txt =
    (if tok = XML_TOK_PROLOG_S then (st, XML_ROLE_ELEMENT_NONE)
     else if tok = XML_TOK_NAME \<or> tok = XML_TOK_PREFIXED_NAME then
       (st\<lparr>handler := Element5\<rparr>, XML_ROLE_CONTENT_ELEMENT)
     else common st tok)"

definition element5 :: role_fun where
  "element5 st tok txt =
    (if tok = XML_TOK_PROLOG_S then (st, XML_ROLE_ELEMENT_NONE)
     else if tok = XML_TOK_CLOSE_PAREN_ASTERISK then
       (st\<lparr>handler := DeclClose, role_none := XML_ROLE_ELEMENT_NONE\<rparr>, XML_ROLE_GROUP_CLOSE_REP)
     else if tok = XML_TOK_OR then (st\<lparr>handler := Element4\<rparr>, XML_ROLE_ELEMENT_NONE)
     else common st tok)"

definition element6 :: role_fun where
  "element6 st tok txt =
    (if tok = XML_TOK_PROLOG_S then (st, XML_ROLE_ELEMENT_NONE)
     else if tok = XML_TOK_OPEN_PAREN then (st\<lparr>level := level st + 1\<rparr>, XML_ROLE_GROUP_OPEN)
     else if tok = XML_TOK_NAME \<or> tok = XML_TOK_PREFIXED_NAME then
       (st\<lparr>handler := Element7\<rparr>, XML_ROLE_CONTENT_ELEMENT)
     else if tok = XML_TOK_NAME_QUESTION then
       (st\<lparr>handler := Element7\<rparr>, XML_ROLE_CONTENT_ELEMENT_OPT)
     else if tok = XML_TOK_NAME_ASTERISK then
       (st\<lparr>handler := Element7\<rparr>, XML_ROLE_CONTENT_ELEMENT_REP)
     else if tok = XML_TOK_NAME_PLUS then
       (st\<lparr>handler := Element7\<rparr>, XML_ROLE_CONTENT_ELEMENT_PLUS)
     else common st tok)"

text \<open>What \<open>element7\<close> does at each of the four closing parentheses.\<close>

definition closeGroup :: "prolog_state \<Rightarrow> int \<Rightarrow> prolog_state \<times> int" where
  "closeGroup st role =
    (let st = st\<lparr>level := level st - 1\<rparr>;
         st = (if level st = 0 then st\<lparr>handler := DeclClose, role_none := XML_ROLE_ELEMENT_NONE\<rparr>
               else st)
     in (st, role))"

definition element7 :: role_fun where
  "element7 st tok txt =
    (if tok = XML_TOK_PROLOG_S then (st, XML_ROLE_ELEMENT_NONE)
     else if tok = XML_TOK_CLOSE_PAREN then closeGroup st XML_ROLE_GROUP_CLOSE
     else if tok = XML_TOK_CLOSE_PAREN_ASTERISK then closeGroup st XML_ROLE_GROUP_CLOSE_REP
     else if tok = XML_TOK_CLOSE_PAREN_QUESTION then closeGroup st XML_ROLE_GROUP_CLOSE_OPT
     else if tok = XML_TOK_CLOSE_PAREN_PLUS then closeGroup st XML_ROLE_GROUP_CLOSE_PLUS
     else if tok = XML_TOK_COMMA then (st\<lparr>handler := Element6\<rparr>, XML_ROLE_GROUP_SEQUENCE)
     else if tok = XML_TOK_OR then (st\<lparr>handler := Element6\<rparr>, XML_ROLE_GROUP_CHOICE)
     else common st tok)"

definition condSect0 :: role_fun where
  "condSect0 st tok txt =
    (if tok = XML_TOK_PROLOG_S then (st, XML_ROLE_NONE)
     else if tok = XML_TOK_NAME then
         (if nameMatchesAscii txt KW_INCLUDE then (st\<lparr>handler := CondSect1\<rparr>, XML_ROLE_NONE)
          else if nameMatchesAscii txt KW_IGNORE then (st\<lparr>handler := CondSect2\<rparr>, XML_ROLE_NONE)
          else common st tok)
     else common st tok)"

definition condSect1 :: role_fun where
  "condSect1 st tok txt =
    (if tok = XML_TOK_PROLOG_S then (st, XML_ROLE_NONE)
     else if tok = XML_TOK_OPEN_BRACKET then
       (st\<lparr>handler := ExternalSubset1, includeLevel := includeLevel st + 1\<rparr>, XML_ROLE_NONE)
     else common st tok)"

definition condSect2 :: role_fun where
  "condSect2 st tok txt =
    (if tok = XML_TOK_PROLOG_S then (st, XML_ROLE_NONE)
     else if tok = XML_TOK_OPEN_BRACKET then
       (st\<lparr>handler := ExternalSubset1\<rparr>, XML_ROLE_IGNORE_SECT)
     else common st tok)"

definition declClose :: role_fun where
  "declClose st tok txt =
    (if tok = XML_TOK_PROLOG_S then (st, role_none st)
     else if tok = XML_TOK_DECL_CLOSE then (setTopLevel st, role_none st)
     else common st tok)"

definition error_handler :: role_fun where
  "error_handler st tok txt = (st, XML_ROLE_NONE)"

definition XmlTokenRole :: role_fun where
  "XmlTokenRole st tok txt = (case handler st of
       Prolog0 \<Rightarrow> prolog0 st tok txt
     | Prolog1 \<Rightarrow> prolog1 st tok txt
     | Prolog2 \<Rightarrow> prolog2 st tok txt
     | Doctype0 \<Rightarrow> doctype0 st tok txt
     | Doctype1 \<Rightarrow> doctype1 st tok txt
     | Doctype2 \<Rightarrow> doctype2 st tok txt
     | Doctype3 \<Rightarrow> doctype3 st tok txt
     | Doctype4 \<Rightarrow> doctype4 st tok txt
     | Doctype5 \<Rightarrow> doctype5 st tok txt
     | InternalSubset \<Rightarrow> internalSubset st tok txt
     | ExternalSubset0 \<Rightarrow> externalSubset0 st tok txt
     | ExternalSubset1 \<Rightarrow> externalSubset1 st tok txt
     | Entity0 \<Rightarrow> entity0 st tok txt
     | Entity1 \<Rightarrow> entity1 st tok txt
     | Entity2 \<Rightarrow> entity2 st tok txt
     | Entity3 \<Rightarrow> entity3 st tok txt
     | Entity4 \<Rightarrow> entity4 st tok txt
     | Entity5 \<Rightarrow> entity5 st tok txt
     | Entity6 \<Rightarrow> entity6 st tok txt
     | Entity7 \<Rightarrow> entity7 st tok txt
     | Entity8 \<Rightarrow> entity8 st tok txt
     | Entity9 \<Rightarrow> entity9 st tok txt
     | Entity10 \<Rightarrow> entity10 st tok txt
     | Notation0 \<Rightarrow> notation0 st tok txt
     | Notation1 \<Rightarrow> notation1 st tok txt
     | Notation2 \<Rightarrow> notation2 st tok txt
     | Notation3 \<Rightarrow> notation3 st tok txt
     | Notation4 \<Rightarrow> notation4 st tok txt
     | Attlist0 \<Rightarrow> attlist0 st tok txt
     | Attlist1 \<Rightarrow> attlist1 st tok txt
     | Attlist2 \<Rightarrow> attlist2 st tok txt
     | Attlist3 \<Rightarrow> attlist3 st tok txt
     | Attlist4 \<Rightarrow> attlist4 st tok txt
     | Attlist5 \<Rightarrow> attlist5 st tok txt
     | Attlist6 \<Rightarrow> attlist6 st tok txt
     | Attlist7 \<Rightarrow> attlist7 st tok txt
     | Attlist8 \<Rightarrow> attlist8 st tok txt
     | Attlist9 \<Rightarrow> attlist9 st tok txt
     | Element0 \<Rightarrow> element0 st tok txt
     | Element1 \<Rightarrow> element1 st tok txt
     | Element2 \<Rightarrow> element2 st tok txt
     | Element3 \<Rightarrow> element3 st tok txt
     | Element4 \<Rightarrow> element4 st tok txt
     | Element5 \<Rightarrow> element5 st tok txt
     | Element6 \<Rightarrow> element6 st tok txt
     | Element7 \<Rightarrow> element7 st tok txt
     | CondSect0 \<Rightarrow> condSect0 st tok txt
     | CondSect1 \<Rightarrow> condSect1 st tok txt
     | CondSect2 \<Rightarrow> condSect2 st tok txt
     | DeclClose \<Rightarrow> declClose st tok txt
     | ErrorState \<Rightarrow> error_handler st tok txt)"

section \<open>Initialisation\<close>

definition XmlPrologStateInit :: "prolog_state \<Rightarrow> prolog_state" where
  "XmlPrologStateInit st = st\<lparr>handler := Prolog0, documentEntity := True, includeLevel := 0,
     inEntityValue := False\<rparr>"

definition XmlPrologStateInitExternalEntity :: "prolog_state \<Rightarrow> prolog_state" where
  "XmlPrologStateInitExternalEntity st =
    st\<lparr>handler := ExternalSubset0, documentEntity := False, includeLevel := 0\<rparr>"

section \<open>Runs of the machine\<close>

lemma nameMatchesAscii_iff [simp]: "nameMatchesAscii x kw \<longleftrightarrow> x = kw"
  by (induction x kw rule: nameMatchesAscii.induct) auto

fun prolog_run :: "prolog_state \<Rightarrow> (int \<times> cstr) list \<Rightarrow> prolog_state \<times> int list" where
  "prolog_run st [] = (st, [])"
| "prolog_run st (t # ts) =
    (let (st1, r) = XmlTokenRole st (fst t) (snd t); (st2, rs) = prolog_run st1 ts
     in (st2, r # rs))"

lemma prolog_run_append:
  "prolog_run st (ts @ us) =
     (let (st1, rs) = prolog_run st ts; (st2, qs) = prolog_run st1 us in (st2, rs @ qs))"
  by (induction ts arbitrary: st) (simp_all add: case_prod_unfold Let_def)

lemma prolog_run_error:
  "handler st = ErrorState \<Longrightarrow> prolog_run st ts = (st, replicate (length ts) XML_ROLE_NONE)"
  by (induction ts) (simp_all add: XmlTokenRole_def error_handler_def)

lemmas prolog_defs = prolog0_def prolog1_def prolog2_def common_def XmlTokenRole_def
lemmas doctype_defs = doctype0_def doctype1_def doctype2_def doctype3_def doctype4_def doctype5_def
lemmas subset_defs = internalSubset_def externalSubset0_def externalSubset1_def condSect0_def
  condSect1_def condSect2_def declClose_def setTopLevel_def error_handler_def
lemmas entity_defs = entity0_def entity1_def entity2_def entity3_def entity4_def entity5_def
  entity6_def entity7_def entity8_def entity9_def entity10_def
lemmas notation_defs = notation0_def notation1_def notation2_def notation3_def notation4_def
lemmas attlist_defs = attlist0_def attlist1_def attlist2_def attlist3_def attlist4_def
  attlist5_def attlist6_def attlist7_def attlist8_def attlist9_def
lemmas element_defs = element0_def element1_def element2_def element3_def element4_def
  element5_def element6_def element7_def closeGroup_def

lemmas role_defs = prolog_defs doctype_defs subset_defs entity_defs notation_defs attlist_defs
  element_defs

section \<open>Fields that are not initialised\<close>

definition needs_level :: "prolog_handler \<Rightarrow> bool" where
  "needs_level h \<longleftrightarrow> h = Element2 \<or> h = Element6 \<or> h = Element7"

definition agree :: "prolog_state \<Rightarrow> prolog_state \<Rightarrow> bool" where
  "agree a b \<longleftrightarrow> handler a = handler b \<and> includeLevel a = includeLevel b
     \<and> documentEntity a = documentEntity b
     \<and> (handler a = DeclClose \<longrightarrow> role_none a = role_none b)
     \<and> (needs_level (handler a) \<longrightarrow> level a = level b)"

lemma agree_step:
  assumes "agree a b"
  shows "agree (fst (XmlTokenRole a t x)) (fst (XmlTokenRole b t x))
    \<and> snd (XmlTokenRole a t x) = snd (XmlTokenRole b t x)"
  using assms by (cases "handler a")
    (simp_all add: agree_def needs_level_def role_defs Let_def split: option.split)

lemma agree_run:
  "agree a b \<Longrightarrow> agree (fst (prolog_run a ts)) (fst (prolog_run b ts))
     \<and> snd (prolog_run a ts) = snd (prolog_run b ts)"
proof (induction ts arbitrary: a b)
  case (Cons t ts)
  from agree_step [OF Cons.prems, of "fst t" "snd t"]
  have "agree (fst (XmlTokenRole a (fst t) (snd t))) (fst (XmlTokenRole b (fst t) (snd t)))"
    and r: "snd (XmlTokenRole a (fst t) (snd t)) = snd (XmlTokenRole b (fst t) (snd t))"
    by auto
  from Cons.IH [OF this(1)] r show ?case by (simp add: case_prod_unfold Let_def)
qed simp

text \<open>\<open>XmlPrologStateInit\<close> and \<open>XmlPrologStateInitExternalEntity\<close> leave \<open>level\<close> and \<open>role_none\<close> with
  whatever the memory held, the second also \<open>inEntityValue\<close>. These bytes never matter: from any two
  memories, the same tokens get the same roles and end in the same handler.\<close>

theorem uninitialised_fields_unread:
  "snd (prolog_run (XmlPrologStateInit a) ts) = snd (prolog_run (XmlPrologStateInit b) ts)
   \<and> handler (fst (prolog_run (XmlPrologStateInit a) ts))
     = handler (fst (prolog_run (XmlPrologStateInit b) ts))
   \<and> snd (prolog_run (XmlPrologStateInitExternalEntity a) ts)
     = snd (prolog_run (XmlPrologStateInitExternalEntity b) ts)
   \<and> handler (fst (prolog_run (XmlPrologStateInitExternalEntity a) ts))
     = handler (fst (prolog_run (XmlPrologStateInitExternalEntity b) ts))"
proof -
  have "agree (XmlPrologStateInit a) (XmlPrologStateInit b)"
    "agree (XmlPrologStateInitExternalEntity a) (XmlPrologStateInitExternalEntity b)"
    by (simp_all add: agree_def needs_level_def XmlPrologStateInit_def
        XmlPrologStateInitExternalEntity_def)
  from this [THEN agree_run, of ts] show ?thesis by (simp add: agree_def)
qed

section \<open>Content models of element declarations\<close>

type_synonym tokens = "(int \<times> cstr) list"

definition open_paren :: "int \<times> cstr \<Rightarrow> bool" where
  "open_paren t \<longleftrightarrow> fst t = XML_TOK_OPEN_PAREN"

definition close_paren :: "int \<times> cstr \<Rightarrow> bool" where
  "close_paren t \<longleftrightarrow> fst t \<in> {XML_TOK_CLOSE_PAREN, XML_TOK_CLOSE_PAREN_QUESTION,
     XML_TOK_CLOSE_PAREN_ASTERISK, XML_TOK_CLOSE_PAREN_PLUS}"

definition separator :: "int \<times> cstr \<Rightarrow> bool" where
  "separator t \<longleftrightarrow> fst t \<in> {XML_TOK_COMMA, XML_TOK_OR}"

definition plain_name :: "int \<times> cstr \<Rightarrow> bool" where
  "plain_name t \<longleftrightarrow> fst t \<in> {XML_TOK_NAME, XML_TOK_PREFIXED_NAME}"

definition name_token :: "int \<times> cstr \<Rightarrow> bool" where
  "name_token t \<longleftrightarrow> plain_name t \<or>
     fst t \<in> {XML_TOK_NAME_QUESTION, XML_TOK_NAME_ASTERISK, XML_TOK_NAME_PLUS}"

text \<open>The grammar: a content particle is a name or a group, and the particles of a group are
  separated by commas or bars, as production [46] and following of the XML recommendation have
  it, except that a group may mix the two.\<close>

inductive cp :: "tokens \<Rightarrow> bool" and cps :: "tokens \<Rightarrow> bool" where
  cp_name: "name_token t \<Longrightarrow> cp [t]"
| cp_group: "open_paren t \<Longrightarrow> cps us \<Longrightarrow> close_paren c \<Longrightarrow> cp (t # us @ [c])"
| cps_one: "cp us \<Longrightarrow> cps us"
| cps_more: "cp us \<Longrightarrow> separator s \<Longrightarrow> cps vs \<Longrightarrow> cps (us @ s # vs)"

inductive bar_names :: "tokens \<Rightarrow> bool" where
  bar_names_Nil: "bar_names []"
| bar_names_Cons: "fst b = XML_TOK_OR \<Longrightarrow> plain_name n \<Longrightarrow> bar_names us \<Longrightarrow> bar_names (b # n # us)"

inductive_cases bar_names_ConsE: "bar_names (b # us)"
inductive_simps bar_names_simps: "bar_names []" "bar_names [b]" "bar_names (b # n # us)"

inductive content_spec :: "tokens \<Rightarrow> bool" where
  content_empty: "content_spec [(XML_TOK_NAME, KW_EMPTY)]"
| content_any: "content_spec [(XML_TOK_NAME, KW_ANY)]"
| content_pcdata: "open_paren t \<Longrightarrow> fst p = XML_TOK_POUND_NAME \<Longrightarrow> drop 1 (snd p) = KW_PCDATA \<Longrightarrow>
    fst c = XML_TOK_CLOSE_PAREN \<Longrightarrow> content_spec [t, p, c]"
| content_mixed: "open_paren t \<Longrightarrow> fst p = XML_TOK_POUND_NAME \<Longrightarrow> drop 1 (snd p) = KW_PCDATA \<Longrightarrow>
    bar_names us \<Longrightarrow> fst c = XML_TOK_CLOSE_PAREN_ASTERISK \<Longrightarrow> content_spec (t # p # us @ [c])"
| content_children: "cp (t # us) \<Longrightarrow> open_paren t \<Longrightarrow> content_spec (t # us)"

text \<open>The acceptor: the handlers \<open>element6\<close> (a particle is due) and \<open>element7\<close> (a particle has
  been read) with the number of open parentheses.\<close>

fun wants :: "nat \<Rightarrow> tokens \<Rightarrow> bool" and follows :: "nat \<Rightarrow> tokens \<Rightarrow> bool" where
  "wants k [] = False"
| "wants k (t # ts) =
    (if open_paren t then wants (Suc k) ts else name_token t \<and> follows k ts)"
| "follows k [] = False"
| "follows k (t # ts) =
    (if close_paren t then (if k = 1 then ts = [] else follows (k - 1) ts)
     else separator t \<and> wants k ts)"

lemmas token_defs = open_paren_def close_paren_def separator_def plain_name_def name_token_def

lemma token_disjoint [simp]:
  "name_token t \<Longrightarrow> \<not> open_paren t" "separator t \<Longrightarrow> \<not> close_paren t"
  by (auto simp: token_defs)

lemma wants_particles:
  "wants k ts \<Longrightarrow> 0 < k \<Longrightarrow>
   \<exists>us c vs. ts = us @ c # vs \<and> cps us \<and> close_paren c \<and>
     (if k = 1 then vs = [] else follows (k - 1) vs)"
  (is "_ \<Longrightarrow> _ \<Longrightarrow> ?parts k ts")
proof (induction "length ts" arbitrary: k ts rule: less_induct)
  case less
  have after: "?parts k (us @ rest)"
    if "cp us" "follows k rest" "length rest < length ts" for us rest
  proof (cases rest)
    case Nil with that(2) show ?thesis by simp
  next
    case (Cons t vs)
    show ?thesis
    proof (cases "close_paren t")
      case True
      with that(2) Cons cps_one [OF that(1)] show ?thesis by (intro exI [of _ us]) auto
    next
      case False
      with that(2) Cons have "separator t" "wants k vs" by auto
      moreover from less.hyps [of vs k] this(2) that(3) Cons less.prems(2)
      obtain vs' c ws where "vs = vs' @ c # ws" "cps vs'" "close_paren c"
        "if k = 1 then ws = [] else follows (k - 1) ws" by auto
      ultimately show ?thesis using cps_more [OF that(1)] Cons
        by (intro exI [of _ "us @ t # vs'"] exI [of _ c] exI [of _ ws]) auto
    qed
  qed
  from less.prems(1) obtain t ts' where ts: "ts = t # ts'" by (cases ts) auto
  show ?case
  proof (cases "open_paren t")
    case True
    with less.prems(1) ts have "wants (Suc k) ts'" by simp
    with less.hyps [of ts' "Suc k"] ts less.prems(2)
    obtain us c vs where "ts' = us @ c # vs" "cps us" "close_paren c" "follows k vs" by auto
    with after [OF cp_group [OF True], of us c vs] ts show ?thesis by simp
  next
    case False
    with less.prems(1) ts after [OF cp_name, of t ts'] show ?thesis by auto
  qed
qed

lemma particles_wants:
  "cp us \<Longrightarrow> 0 < k \<Longrightarrow> wants k (us @ vs) = follows k vs"
  "cps us \<Longrightarrow> 0 < k \<Longrightarrow> wants k (us @ vs) = follows k vs"
  by (induction us and us arbitrary: k vs and k vs rule: cp_cps.inducts) auto

lemma wants_iff:
  "wants 1 ts \<longleftrightarrow> (\<exists>us c. ts = us @ [c] \<and> cps us \<and> close_paren c)"
proof
  assume "wants 1 ts"
  from wants_particles [OF this] show "\<exists>us c. ts = us @ [c] \<and> cps us \<and> close_paren c" by auto
next
  assume "\<exists>us c. ts = us @ [c] \<and> cps us \<and> close_paren c"
  then show "wants 1 ts" by (auto simp: particles_wants(2))
qed


text \<open>Tokens a declaration passes over: white space, and in external entities references to
  parameter entities.\<close>

definition counts :: "bool \<Rightarrow> int \<times> cstr \<Rightarrow> bool" where
  "counts doc t \<longleftrightarrow> fst t \<noteq> XML_TOK_PROLOG_S \<and> (doc \<or> fst t \<noteq> XML_TOK_PARAM_ENTITY_REF)"

definition no_close :: "tokens \<Rightarrow> bool" where
  "no_close ts \<longleftrightarrow> (\<forall>t \<in> set ts. fst t \<noteq> XML_TOK_DECL_CLOSE)"

lemma no_close_simps [simp]:
  "no_close []" "no_close (t # ts) \<longleftrightarrow> fst t \<noteq> XML_TOK_DECL_CLOSE \<and> no_close ts"
  by (simp_all add: no_close_def)

definition ends :: "prolog_state \<Rightarrow> tokens \<Rightarrow> bool" where
  "ends st ts \<longleftrightarrow> handler (fst (prolog_run st ts)) = DeclClose"

lemma ends_Nil [simp]: "ends st [] \<longleftrightarrow> handler st = DeclClose"
  by (simp add: ends_def)

lemma ends_Cons: "ends st (t # ts) \<longleftrightarrow> ends (fst (XmlTokenRole st (fst t) (snd t))) ts"
  by (simp add: ends_def case_prod_unfold Let_def)

lemma ends_error [simp]: "handler st = ErrorState \<Longrightarrow> \<not> ends st ts"
  by (simp add: ends_def prolog_run_error)

lemmas step_defs = XmlTokenRole_def element_defs declClose_def common_def counts_def token_defs Let_def

lemma declClose_step:
  "handler st = DeclClose \<Longrightarrow> fst t \<noteq> XML_TOK_DECL_CLOSE \<Longrightarrow>
   fst (XmlTokenRole st (fst t) (snd t)) =
     (if counts (documentEntity st) t then st\<lparr>handler := ErrorState\<rparr> else st)"
  by (auto simp: step_defs)

lemma element6_step:
  "handler st = Element6 \<Longrightarrow> fst (XmlTokenRole st (fst t) (snd t)) =
     (if \<not> counts (documentEntity st) t then st
      else if open_paren t then st\<lparr>level := level st + 1\<rparr>
      else if name_token t then st\<lparr>handler := Element7\<rparr>
      else st\<lparr>handler := ErrorState\<rparr>)"
  by (auto simp: step_defs)

lemma element7_step:
  "handler st = Element7 \<Longrightarrow> fst (XmlTokenRole st (fst t) (snd t)) =
     (if \<not> counts (documentEntity st) t then st
      else if close_paren t then
        (if level st = 1 then st\<lparr>level := 0, handler := DeclClose, role_none := XML_ROLE_ELEMENT_NONE\<rparr>
         else st\<lparr>level := level st - 1\<rparr>)
      else if separator t then st\<lparr>handler := Element6\<rparr>
      else st\<lparr>handler := ErrorState\<rparr>)"
  by (auto simp: step_defs)

definition pcdata :: "int \<times> cstr \<Rightarrow> bool" where
  "pcdata t \<longleftrightarrow> fst t = XML_TOK_POUND_NAME \<and> drop 1 (snd t) = KW_PCDATA"

lemma element1_step:
  "handler st = Element1 \<Longrightarrow> fst (XmlTokenRole st (fst t) (snd t)) =
     (if \<not> counts (documentEntity st) t then st
      else if fst t = XML_TOK_NAME \<and> (snd t = KW_EMPTY \<or> snd t = KW_ANY)
      then st\<lparr>handler := DeclClose, role_none := XML_ROLE_ELEMENT_NONE\<rparr>
      else if open_paren t then st\<lparr>handler := Element2, level := 1\<rparr>
      else st\<lparr>handler := ErrorState\<rparr>)"
  by (auto simp: step_defs)

lemma element2_step:
  "handler st = Element2 \<Longrightarrow> fst (XmlTokenRole st (fst t) (snd t)) =
     (if \<not> counts (documentEntity st) t then st
      else if pcdata t then st\<lparr>handler := Element3\<rparr>
      else if open_paren t then st\<lparr>level := 2, handler := Element6\<rparr>
      else if name_token t then st\<lparr>handler := Element7\<rparr>
      else st\<lparr>handler := ErrorState\<rparr>)"
  by (auto simp: step_defs pcdata_def)

lemma element3_step:
  "handler st = Element3 \<Longrightarrow> fst (XmlTokenRole st (fst t) (snd t)) =
     (if \<not> counts (documentEntity st) t then st
      else if fst t \<in> {XML_TOK_CLOSE_PAREN, XML_TOK_CLOSE_PAREN_ASTERISK}
      then st\<lparr>handler := DeclClose, role_none := XML_ROLE_ELEMENT_NONE\<rparr>
      else if fst t = XML_TOK_OR then st\<lparr>handler := Element4\<rparr>
      else st\<lparr>handler := ErrorState\<rparr>)"
  by (auto simp: step_defs)

lemma element4_step:
  "handler st = Element4 \<Longrightarrow> fst (XmlTokenRole st (fst t) (snd t)) =
     (if \<not> counts (documentEntity st) t then st
      else if plain_name t then st\<lparr>handler := Element5\<rparr>
      else st\<lparr>handler := ErrorState\<rparr>)"
  by (auto simp: step_defs)

lemma element5_step:
  "handler st = Element5 \<Longrightarrow> fst (XmlTokenRole st (fst t) (snd t)) =
     (if \<not> counts (documentEntity st) t then st
      else if fst t = XML_TOK_CLOSE_PAREN_ASTERISK
      then st\<lparr>handler := DeclClose, role_none := XML_ROLE_ELEMENT_NONE\<rparr>
      else if fst t = XML_TOK_OR then st\<lparr>handler := Element4\<rparr>
      else st\<lparr>handler := ErrorState\<rparr>)"
  by (auto simp: step_defs)

lemma ends_declClose:
  "handler st = DeclClose \<Longrightarrow> no_close ts \<Longrightarrow>
   ends st ts \<longleftrightarrow> filter (counts (documentEntity st)) ts = []"
  by (induction ts arbitrary: st) (auto simp: ends_Cons declClose_step)

lemma word_level:
  fixes w :: "32 word"
  shows "unat w = k \<Longrightarrow> Suc k < 2 ^ 32 \<Longrightarrow> unat (w + 1) = Suc k"
    "unat w = k \<Longrightarrow> 1 < k \<Longrightarrow> unat (w - 1) = k - 1"
    "unat w = k \<Longrightarrow> (w = 1) = (k = 1)"
  by (auto simp: unat_word_ariths unat_sub word_le_nat_alt word_unat_eq_iff)

lemma ends_group:
  "unat (level st) = k \<Longrightarrow> 0 < k \<Longrightarrow> k + length ts < 2 ^ 32 \<Longrightarrow> no_close ts \<Longrightarrow>
   (handler st = Element6 \<longrightarrow> ends st ts = wants k (filter (counts (documentEntity st)) ts)) \<and>
   (handler st = Element7 \<longrightarrow> ends st ts = follows k (filter (counts (documentEntity st)) ts))"
proof (induction ts arbitrary: st k)
  case (Cons t ts)
  note IH = Cons.IH [rule_format]
  from Cons.prems have len: "Suc k + length ts < 2 ^ 32" and nc: "no_close ts" by simp_all
  note lv = word_level(1) [OF Cons.prems(1)] word_level(2) [OF Cons.prems(1)]
    word_level(3) [OF Cons.prems(1)]
  have 6: "ends st (t # ts) = wants k (filter (counts (documentEntity st)) (t # ts))"
    if "handler st = Element6"
    using that IH [of st k] IH [of "st\<lparr>level := level st + 1\<rparr>" "Suc k"]
      IH [of "st\<lparr>handler := Element7\<rparr>" k] Cons.prems len nc lv(1)
    by (simp add: ends_Cons element6_step)
  have 7: "ends st (t # ts) = follows k (filter (counts (documentEntity st)) (t # ts))"
    if "handler st = Element7"
    using that IH [of st k] IH [of "st\<lparr>level := level st - 1\<rparr>" "k - 1"]
      IH [of "st\<lparr>handler := Element6\<rparr>" k] Cons.prems len nc lv(2,3)
    by (auto simp: ends_Cons element7_step ends_declClose)
  from 6 7 show ?case by blast
qed simp


fun mixed4 :: "tokens \<Rightarrow> bool" and mixed5 :: "tokens \<Rightarrow> bool" where
  "mixed4 [] = False"
| "mixed4 (t # ts) = (plain_name t \<and> mixed5 ts)"
| "mixed5 [] = False"
| "mixed5 (t # ts) = (if fst t = XML_TOK_CLOSE_PAREN_ASTERISK then ts = []
     else fst t = XML_TOK_OR \<and> mixed4 ts)"

fun mixed3 :: "tokens \<Rightarrow> bool" where
  "mixed3 [] = False"
| "mixed3 (t # ts) = (if fst t \<in> {XML_TOK_CLOSE_PAREN, XML_TOK_CLOSE_PAREN_ASTERISK} then ts = []
     else fst t = XML_TOK_OR \<and> mixed4 ts)"

fun group2 :: "tokens \<Rightarrow> bool" where
  "group2 [] = False"
| "group2 (t # ts) = (if pcdata t then mixed3 ts else wants 1 (t # ts))"

fun content1 :: "tokens \<Rightarrow> bool" where
  "content1 [] = False"
| "content1 (t # ts) = (if fst t = XML_TOK_NAME \<and> (snd t = KW_EMPTY \<or> snd t = KW_ANY) then ts = []
     else open_paren t \<and> group2 ts)"

lemma ends_mixed:
  "no_close ts \<Longrightarrow>
   (handler st = Element4 \<longrightarrow> ends st ts = mixed4 (filter (counts (documentEntity st)) ts)) \<and>
   (handler st = Element5 \<longrightarrow> ends st ts = mixed5 (filter (counts (documentEntity st)) ts))"
proof (induction ts arbitrary: st)
  case (Cons t ts)
  note IH = Cons.IH [rule_format]
  have nc: "no_close ts" using Cons.prems by simp
  show ?case
    using IH [of st] IH [of "st\<lparr>handler := Element4\<rparr>"] IH [of "st\<lparr>handler := Element5\<rparr>"] nc
    by (auto simp: ends_Cons element4_step element5_step ends_declClose)
qed simp

lemma ends_mixed3:
  "no_close ts \<Longrightarrow> handler st = Element3 \<Longrightarrow>
   ends st ts = mixed3 (filter (counts (documentEntity st)) ts)"
proof (induction ts arbitrary: st)
  case (Cons t ts)
  have nc: "no_close ts" using Cons.prems by simp
  show ?case
    using Cons.IH [of st] ends_mixed [of ts "st\<lparr>handler := Element4\<rparr>"] nc Cons.prems
    by (auto simp: ends_Cons element3_step ends_declClose)
qed simp

lemma ends_group2:
  "no_close ts \<Longrightarrow> handler st = Element2 \<Longrightarrow> level st = 1 \<Longrightarrow> 2 + length ts < 2 ^ 32 \<Longrightarrow>
   ends st ts = group2 (filter (counts (documentEntity st)) ts)"
proof (induction ts arbitrary: st)
  case (Cons t ts)
  have nc: "no_close ts" and len: "2 + length ts < 2 ^ 32" using Cons.prems by simp_all
  have two: "Suc (Suc 0) = 2" by simp
  show ?case
    using Cons.IH [of st] ends_mixed3 [of ts "st\<lparr>handler := Element3\<rparr>"]
      ends_group [of "st\<lparr>level := 2, handler := Element6\<rparr>" 2 ts]
      ends_group [of "st\<lparr>handler := Element7\<rparr>" 1 ts] nc len Cons.prems
    by (simp add: ends_Cons element2_step two)
qed simp

lemma ends_content1:
  "no_close ts \<Longrightarrow> handler st = Element1 \<Longrightarrow> 2 + length ts < 2 ^ 32 \<Longrightarrow>
   ends st ts = content1 (filter (counts (documentEntity st)) ts)"
proof (induction ts arbitrary: st)
  case (Cons t ts)
  have nc: "no_close ts" and len: "2 + length ts < 2 ^ 32" using Cons.prems by simp_all
  show ?case
    using Cons.IH [of st] ends_group2 [of ts "st\<lparr>handler := Element2, level := 1\<rparr>"] nc len Cons.prems
    by (auto simp: ends_Cons element1_step ends_declClose)
qed simp

lemma mixed5_iff:
  "mixed5 ts \<longleftrightarrow> (\<exists>us c. ts = us @ [c] \<and> bar_names us \<and> fst c = XML_TOK_CLOSE_PAREN_ASTERISK)"
proof
  show "mixed5 ts \<Longrightarrow> \<exists>us c. ts = us @ [c] \<and> bar_names us \<and> fst c = XML_TOK_CLOSE_PAREN_ASTERISK"
  proof (induction "length ts" arbitrary: ts rule: less_induct)
    case less
    then obtain t vs where ts: "ts = t # vs" by (cases ts) auto
    show ?case
    proof (cases "fst t = XML_TOK_CLOSE_PAREN_ASTERISK")
      case True
      with less.prems ts show ?thesis by (intro exI [of _ "[]"]) (simp add: bar_names_simps)
    next
      case False
      with less.prems ts obtain n ws where w: "fst t = XML_TOK_OR" "vs = n # ws" "plain_name n" "mixed5 ws"
        by (cases vs) auto
      from less.hyps [of ws] w ts obtain us c where
        "ws = us @ [c]" "bar_names us" "fst c = XML_TOK_CLOSE_PAREN_ASTERISK" by auto
      with w ts show ?thesis
        by (intro exI [of _ "t # n # us"] exI [of _ c]) (simp add: bar_names_simps)
    qed
  qed
  have "mixed5 (us @ [c])" if "bar_names us" "fst c = XML_TOK_CLOSE_PAREN_ASTERISK" for us c
    using that by (induction rule: bar_names.induct) auto
  then show "\<exists>us c. ts = us @ [c] \<and> bar_names us \<and> fst c = XML_TOK_CLOSE_PAREN_ASTERISK \<Longrightarrow> mixed5 ts"
    by auto
qed

lemma mixed3_iff:
  "mixed3 ts \<longleftrightarrow> (\<exists>c. ts = [c] \<and> fst c = XML_TOK_CLOSE_PAREN)
     \<or> (\<exists>us c. ts = us @ [c] \<and> bar_names us \<and> fst c = XML_TOK_CLOSE_PAREN_ASTERISK)"
  unfolding mixed5_iff [symmetric] by (cases ts) auto

inductive_cases cpE: "cp (t # us)"
inductive_cases content_specE: "content_spec ts"

lemma cp_open: "open_paren t \<Longrightarrow> cp (t # us) \<longleftrightarrow> wants 1 us"
  unfolding wants_iff by (auto elim: cpE intro: cp_group)

lemma cps_first: "cps us \<Longrightarrow> us \<noteq> [] \<and> \<not> pcdata (hd us)"
  "cp us \<Longrightarrow> us \<noteq> [] \<and> \<not> pcdata (hd us)"
  by (induction us and us rule: cp_cps.inducts(2,1)) (auto simp: token_defs pcdata_def)


lemma wants_not_pcdata: "wants k (t # ts) \<Longrightarrow> \<not> pcdata t"
  by (auto simp: token_defs pcdata_def split: if_splits)

lemma content1_iff: "content1 ts \<longleftrightarrow> content_spec ts"
proof
  assume "content1 ts"
  then obtain t us where ts: "ts = t # us" by (cases ts) auto
  show "content_spec ts"
  proof (cases "fst t = XML_TOK_NAME \<and> (snd t = KW_EMPTY \<or> snd t = KW_ANY)")
    case True
    with \<open>content1 ts\<close> ts show ?thesis by (cases t) (auto intro: content_empty content_any)
  next
    case False
    with \<open>content1 ts\<close> ts have t: "open_paren t" "group2 us" by auto
    then obtain p vs where us: "us = p # vs" by (cases us) auto
    show ?thesis
    proof (cases "pcdata p")
      case True
      with t us ts show ?thesis unfolding pcdata_def
        by (auto simp: mixed3_iff pcdata_def intro: content_pcdata content_mixed)
    next
      case False
      with t us have "wants 1 us" by simp
      with t ts show ?thesis by (simp add: content_children cp_open)
    qed
  qed
next
  assume "content_spec ts"
  then show "content1 ts"
  proof cases
    case (content_pcdata t p c)
    then show ?thesis by (simp add: pcdata_def open_paren_def)
  next
    case (content_mixed t p us c)
    then have "mixed3 (us @ [c])" by (auto simp: mixed3_iff)
    with content_mixed show ?thesis by (simp add: pcdata_def open_paren_def)
  next
    case (content_children t us)
    then have "wants 1 us" by (simp add: cp_open)
    moreover from this obtain p vs where "us = p # vs" by (cases us) auto
    ultimately have "group2 us" using wants_not_pcdata [of 1 p vs] by simp
    with content_children show ?thesis by (simp add: open_paren_def)
  qed simp_all
qed


definition sample_state :: prolog_state where
  "sample_state = \<lparr>handler = Element1, level = 77, role_none = 0, includeLevel = 0,
     documentEntity = True, inEntityValue = False\<rparr>"

text \<open>The content model \<open>(a, (b | c?)* )\<close> with a blank.\<close>

definition sample_model :: tokens where
  "sample_model = [(XML_TOK_OPEN_PAREN, ''(''), (XML_TOK_NAME, ''a''), (XML_TOK_COMMA, '',''),
     (XML_TOK_PROLOG_S, '' ''), (XML_TOK_OPEN_PAREN, ''(''), (XML_TOK_NAME, ''b''),
     (XML_TOK_OR, ''|''), (XML_TOK_NAME_QUESTION, ''c?''), (XML_TOK_CLOSE_PAREN_ASTERISK, '')*''),
     (XML_TOK_CLOSE_PAREN, '')'')]"



section \<open>The order of roles in a prolog\<close>

text \<open>What the XML recommendation says of a document up to its root element, production [22]
  and [28]: \<open>XMLDecl? Misc* (doctypedecl Misc*)?\<close>, as phases. Within the internal subset every
  role of a declaration is allowed; a document type declaration has a name, then at most one
  external identifier, then at most one internal subset. \<open>Instance\<close> is the root element,
  \<open>Failed\<close> a syntax error.\<close>

datatype prolog_phase = Start | Misc | DoctypeOpen | DoctypeNamed | DoctypePublic
  | DoctypeExternal | InSubset | SubsetDone | AfterDoctype | Instance | Failed

definition misc_role :: "int \<Rightarrow> bool" where
  "misc_role r \<longleftrightarrow> r \<in> {XML_ROLE_NONE, XML_ROLE_PI, XML_ROLE_COMMENT}"

definition subset_role :: "int \<Rightarrow> bool" where
  "subset_role r \<longleftrightarrow> misc_role r \<or> r = XML_ROLE_PARAM_ENTITY_REF
     \<or> (XML_ROLE_GENERAL_ENTITY_NAME \<le> r \<and> r \<le> XML_ROLE_CONTENT_ELEMENT_PLUS)"

inductive phase_step :: "prolog_phase \<Rightarrow> int \<Rightarrow> prolog_phase \<Rightarrow> bool" where
  start_bom: "phase_step Start XML_ROLE_NONE Start"
| start_decl: "phase_step Start XML_ROLE_XML_DECL Misc"
| misc: "p \<in> {Start, Misc} \<Longrightarrow> misc_role r \<Longrightarrow> phase_step p r Misc"
| doctype: "p \<in> {Start, Misc} \<Longrightarrow> phase_step p XML_ROLE_DOCTYPE_NONE DoctypeOpen"
| name: "phase_step DoctypeOpen XML_ROLE_DOCTYPE_NAME DoctypeNamed"
| public: "phase_step DoctypeNamed XML_ROLE_DOCTYPE_PUBLIC_ID DoctypePublic"
| system: "p \<in> {DoctypeNamed, DoctypePublic} \<Longrightarrow>
    phase_step p XML_ROLE_DOCTYPE_SYSTEM_ID DoctypeExternal"
| doctype_none: "p \<in> {DoctypeOpen, DoctypeNamed, DoctypePublic, DoctypeExternal, SubsetDone} \<Longrightarrow>
    phase_step p XML_ROLE_DOCTYPE_NONE p"
| subset_open: "p \<in> {DoctypeNamed, DoctypeExternal} \<Longrightarrow>
    phase_step p XML_ROLE_DOCTYPE_INTERNAL_SUBSET InSubset"
| subset: "subset_role r \<Longrightarrow> phase_step InSubset r InSubset"
| subset_done: "phase_step InSubset XML_ROLE_DOCTYPE_NONE SubsetDone"
| doctype_close: "p \<in> {DoctypeNamed, DoctypeExternal, SubsetDone} \<Longrightarrow>
    phase_step p XML_ROLE_DOCTYPE_CLOSE AfterDoctype"
| after: "misc_role r \<Longrightarrow> phase_step AfterDoctype r AfterDoctype"
| inst: "p \<in> {Start, Misc, AfterDoctype} \<Longrightarrow> phase_step p XML_ROLE_INSTANCE_START Instance"
| failed: "p \<notin> {Instance, Failed} \<Longrightarrow> phase_step p XML_ROLE_ERROR Failed"
| over: "p \<in> {Instance, Failed} \<Longrightarrow> phase_step p XML_ROLE_NONE p"

inductive phase_run :: "prolog_phase \<Rightarrow> int list \<Rightarrow> prolog_phase \<Rightarrow> bool" where
  phase_run_Nil: "phase_run p [] p"
| phase_run_Cons: "phase_step p r q \<Longrightarrow> phase_run q rs p' \<Longrightarrow> phase_run p (r # rs) p'"

text \<open>Which handlers stand for which phase; \<open>declClose\<close> moreover returns a role it has been given.\<close>

fun in_phase :: "prolog_handler \<Rightarrow> prolog_phase \<Rightarrow> bool" where
  "in_phase Prolog0 p = (p = Start)"
| "in_phase Prolog1 p = (p = Misc)"
| "in_phase Prolog2 p = (p = AfterDoctype)"
| "in_phase Doctype0 p = (p = DoctypeOpen)"
| "in_phase Doctype1 p = (p = DoctypeNamed)"
| "in_phase Doctype2 p = (p = DoctypeNamed)"
| "in_phase Doctype3 p = (p \<in> {DoctypeNamed, DoctypePublic})"
| "in_phase Doctype4 p = (p = DoctypeExternal)"
| "in_phase Doctype5 p = (p = SubsetDone)"
| "in_phase ErrorState p = (p \<in> {Instance, Failed})"
| "in_phase ExternalSubset0 p = False"
| "in_phase ExternalSubset1 p = False"
| "in_phase CondSect0 p = False"
| "in_phase CondSect1 p = False"
| "in_phase CondSect2 p = False"
| "in_phase h p = (p = InSubset)"

definition phase_rel :: "prolog_state \<Rightarrow> prolog_phase \<Rightarrow> bool" where
  "phase_rel st p \<longleftrightarrow> documentEntity st \<and> in_phase (handler st) p
     \<and> (handler st = DeclClose \<longrightarrow> subset_role (role_none st))"

lemma type_index_bound: "type_index tys x = Some i \<Longrightarrow> i < length tys"
  by (induction tys x arbitrary: i rule: type_index.induct) (auto split: if_splits)

text \<open>Inside the internal subset a token keeps the phase, fails, or closes the subset.\<close>

lemma subset_phase_step:
  assumes "documentEntity st" "in_phase (handler st) InSubset"
    and "handler st = DeclClose \<longrightarrow> subset_role (role_none st)"
  shows "case XmlTokenRole st t x of (st1, r) \<Rightarrow> documentEntity st1 \<and>
    (handler st1 = ErrorState \<and> r = XML_ROLE_ERROR \<or> handler st1 = Doctype5 \<and> r = XML_ROLE_DOCTYPE_NONE
     \<or> in_phase (handler st1) InSubset \<and> subset_role r
       \<and> (handler st1 = DeclClose \<longrightarrow> subset_role (role_none st1)))"
proof -
  have ty: "i < 8" if "type_index ATTRIBUTE_TYPES y = Some i" for i y
    using type_index_bound [OF that] by (simp add: ATTRIBUTE_TYPES_def)
  show ?thesis
    using assms
    by (cases "handler st")
      (simp_all add: role_defs Let_def subset_role_def misc_role_def split: option.split,
       auto dest: ty)
qed

lemma outer_phase_step:
  assumes "documentEntity st" "in_phase (handler st) p" "p \<noteq> InSubset"
  shows "\<exists>q. phase_step p (snd (XmlTokenRole st t x)) q
    \<and> documentEntity (fst (XmlTokenRole st t x)) \<and> in_phase (handler (fst (XmlTokenRole st t x))) q
    \<and> handler (fst (XmlTokenRole st t x)) \<noteq> DeclClose"
  using assms
  by (cases "handler st")
    (auto simp: prolog_defs doctype_defs error_handler_def misc_role_def intro: phase_step.intros)

lemma phase_rel_step:
  assumes "phase_rel st p"
  shows "\<exists>q. phase_step p (snd (XmlTokenRole st t x)) q \<and> phase_rel (fst (XmlTokenRole st t x)) q"
proof (cases "p = InSubset")
  case True
  have "phase_step InSubset XML_ROLE_ERROR Failed" by (rule phase_step.failed) simp
  with True assms subset_phase_step [of st t x] show ?thesis
    by (auto simp: phase_rel_def case_prod_unfold intro: phase_step.subset phase_step.subset_done)
next
  case False
  with assms outer_phase_step [of st p t x] show ?thesis by (auto simp: phase_rel_def)
qed

lemma phase_rel_run:
  "phase_rel st p \<Longrightarrow>
   \<exists>q. phase_run p (snd (prolog_run st ts)) q \<and> phase_rel (fst (prolog_run st ts)) q"
proof (induction ts arbitrary: st p)
  case Nil
  then show ?case by (auto intro: phase_run_Nil)
next
  case (Cons t ts)
  from phase_rel_step [OF Cons.prems] obtain q
    where q: "phase_step p (snd (XmlTokenRole st (fst t) (snd t))) q"
      "phase_rel (fst (XmlTokenRole st (fst t) (snd t))) q" by blast
  from Cons.IH [OF q(2)] q(1) show ?case
    by (auto simp: case_prod_unfold Let_def intro: phase_run_Cons)
qed


end
