(* ===== verification/XmlEncoding.thy ===== *)
theory XmlEncoding
  imports CStrings XmlTokens
begin

text \<open>
  The encodings of the XML scanner with one byte per character unit (\<^verbatim>\<open>src/expat/lib/xmltok.c\<close> and
  the tables it includes): the class of every byte, the tests for name characters and for
  invalid UTF-8 sequences, the conversions to UTF-8 and UTF-16, the numbers of character references,
  and the names of encodings. An \<open>encoding\<close> stands for a \<^verbatim>\<open>struct normal_encoding\<close>, with its table of
  classes and its tests as functions; the entries of its table of scanners are the functions of
  the next theory. UTF-16 and encodings supplied by the application are not modelled.
\<close>

section \<open>Classes of bytes\<close>

datatype byte_type
  = BT_NONXML | BT_MALFORM | BT_LT | BT_AMP | BT_RSQB | BT_LEAD2 | BT_LEAD3 | BT_LEAD4
  | BT_TRAIL | BT_CR | BT_LF | BT_GT | BT_QUOT | BT_APOS | BT_EQUALS | BT_QUEST | BT_EXCL
  | BT_SOL | BT_SEMI | BT_NUM | BT_LSQB | BT_S | BT_NMSTRT | BT_COLON | BT_HEX | BT_DIGIT
  | BT_NAME | BT_MINUS | BT_OTHER | BT_NONASCII | BT_PERCNT | BT_LPAR | BT_RPAR | BT_AST
  | BT_PLUS | BT_COMMA | BT_VERBAR

definition asciitab :: "byte_type \<Rightarrow> byte_type list" where
  "asciitab colon = [
   BT_NONXML, BT_NONXML, BT_NONXML, BT_NONXML, BT_NONXML, BT_NONXML, BT_NONXML, BT_NONXML,
   BT_NONXML, BT_S, BT_LF, BT_NONXML, BT_NONXML, BT_CR, BT_NONXML, BT_NONXML, BT_NONXML,
   BT_NONXML, BT_NONXML, BT_NONXML, BT_NONXML, BT_NONXML, BT_NONXML, BT_NONXML, BT_NONXML,
   BT_NONXML, BT_NONXML, BT_NONXML, BT_NONXML, BT_NONXML, BT_NONXML, BT_NONXML, BT_S, BT_EXCL,
   BT_QUOT, BT_NUM, BT_OTHER, BT_PERCNT, BT_AMP, BT_APOS, BT_LPAR, BT_RPAR, BT_AST, BT_PLUS,
   BT_COMMA, BT_MINUS, BT_NAME, BT_SOL, BT_DIGIT, BT_DIGIT, BT_DIGIT, BT_DIGIT, BT_DIGIT,
   BT_DIGIT, BT_DIGIT, BT_DIGIT, BT_DIGIT, BT_DIGIT, colon, BT_SEMI, BT_LT, BT_EQUALS, BT_GT,
   BT_QUEST, BT_OTHER, BT_HEX, BT_HEX, BT_HEX, BT_HEX, BT_HEX, BT_HEX, BT_NMSTRT, BT_NMSTRT,
   BT_NMSTRT, BT_NMSTRT, BT_NMSTRT, BT_NMSTRT, BT_NMSTRT, BT_NMSTRT, BT_NMSTRT, BT_NMSTRT,
   BT_NMSTRT, BT_NMSTRT, BT_NMSTRT, BT_NMSTRT, BT_NMSTRT, BT_NMSTRT, BT_NMSTRT, BT_NMSTRT,
   BT_NMSTRT, BT_NMSTRT, BT_LSQB, BT_OTHER, BT_RSQB, BT_OTHER, BT_NMSTRT, BT_OTHER, BT_HEX,
   BT_HEX, BT_HEX, BT_HEX, BT_HEX, BT_HEX, BT_NMSTRT, BT_NMSTRT, BT_NMSTRT, BT_NMSTRT,
   BT_NMSTRT, BT_NMSTRT, BT_NMSTRT, BT_NMSTRT, BT_NMSTRT, BT_NMSTRT, BT_NMSTRT, BT_NMSTRT,
   BT_NMSTRT, BT_NMSTRT, BT_NMSTRT, BT_NMSTRT, BT_NMSTRT, BT_NMSTRT, BT_NMSTRT, BT_NMSTRT,
   BT_OTHER, BT_VERBAR, BT_OTHER, BT_OTHER, BT_OTHER]"

definition iasciitab :: "byte_type \<Rightarrow> byte_type list" where
  "iasciitab colon = [
   BT_NONXML, BT_NONXML, BT_NONXML, BT_NONXML, BT_NONXML, BT_NONXML, BT_NONXML, BT_NONXML,
   BT_NONXML, BT_S, BT_LF, BT_NONXML, BT_NONXML, BT_S, BT_NONXML, BT_NONXML, BT_NONXML,
   BT_NONXML, BT_NONXML, BT_NONXML, BT_NONXML, BT_NONXML, BT_NONXML, BT_NONXML, BT_NONXML,
   BT_NONXML, BT_NONXML, BT_NONXML, BT_NONXML, BT_NONXML, BT_NONXML, BT_NONXML, BT_S, BT_EXCL,
   BT_QUOT, BT_NUM, BT_OTHER, BT_PERCNT, BT_AMP, BT_APOS, BT_LPAR, BT_RPAR, BT_AST, BT_PLUS,
   BT_COMMA, BT_MINUS, BT_NAME, BT_SOL, BT_DIGIT, BT_DIGIT, BT_DIGIT, BT_DIGIT, BT_DIGIT,
   BT_DIGIT, BT_DIGIT, BT_DIGIT, BT_DIGIT, BT_DIGIT, colon, BT_SEMI, BT_LT, BT_EQUALS, BT_GT,
   BT_QUEST, BT_OTHER, BT_HEX, BT_HEX, BT_HEX, BT_HEX, BT_HEX, BT_HEX, BT_NMSTRT, BT_NMSTRT,
   BT_NMSTRT, BT_NMSTRT, BT_NMSTRT, BT_NMSTRT, BT_NMSTRT, BT_NMSTRT, BT_NMSTRT, BT_NMSTRT,
   BT_NMSTRT, BT_NMSTRT, BT_NMSTRT, BT_NMSTRT, BT_NMSTRT, BT_NMSTRT, BT_NMSTRT, BT_NMSTRT,
   BT_NMSTRT, BT_NMSTRT, BT_LSQB, BT_OTHER, BT_RSQB, BT_OTHER, BT_NMSTRT, BT_OTHER, BT_HEX,
   BT_HEX, BT_HEX, BT_HEX, BT_HEX, BT_HEX, BT_NMSTRT, BT_NMSTRT, BT_NMSTRT, BT_NMSTRT,
   BT_NMSTRT, BT_NMSTRT, BT_NMSTRT, BT_NMSTRT, BT_NMSTRT, BT_NMSTRT, BT_NMSTRT, BT_NMSTRT,
   BT_NMSTRT, BT_NMSTRT, BT_NMSTRT, BT_NMSTRT, BT_NMSTRT, BT_NMSTRT, BT_NMSTRT, BT_NMSTRT,
   BT_OTHER, BT_VERBAR, BT_OTHER, BT_OTHER, BT_OTHER]"

definition utf8tab :: "byte_type list" where
  "utf8tab = [
   BT_TRAIL, BT_TRAIL, BT_TRAIL, BT_TRAIL, BT_TRAIL, BT_TRAIL, BT_TRAIL, BT_TRAIL, BT_TRAIL,
   BT_TRAIL, BT_TRAIL, BT_TRAIL, BT_TRAIL, BT_TRAIL, BT_TRAIL, BT_TRAIL, BT_TRAIL, BT_TRAIL,
   BT_TRAIL, BT_TRAIL, BT_TRAIL, BT_TRAIL, BT_TRAIL, BT_TRAIL, BT_TRAIL, BT_TRAIL, BT_TRAIL,
   BT_TRAIL, BT_TRAIL, BT_TRAIL, BT_TRAIL, BT_TRAIL, BT_TRAIL, BT_TRAIL, BT_TRAIL, BT_TRAIL,
   BT_TRAIL, BT_TRAIL, BT_TRAIL, BT_TRAIL, BT_TRAIL, BT_TRAIL, BT_TRAIL, BT_TRAIL, BT_TRAIL,
   BT_TRAIL, BT_TRAIL, BT_TRAIL, BT_TRAIL, BT_TRAIL, BT_TRAIL, BT_TRAIL, BT_TRAIL, BT_TRAIL,
   BT_TRAIL, BT_TRAIL, BT_TRAIL, BT_TRAIL, BT_TRAIL, BT_TRAIL, BT_TRAIL, BT_TRAIL, BT_TRAIL,
   BT_TRAIL, BT_LEAD2, BT_LEAD2, BT_LEAD2, BT_LEAD2, BT_LEAD2, BT_LEAD2, BT_LEAD2, BT_LEAD2,
   BT_LEAD2, BT_LEAD2, BT_LEAD2, BT_LEAD2, BT_LEAD2, BT_LEAD2, BT_LEAD2, BT_LEAD2, BT_LEAD2,
   BT_LEAD2, BT_LEAD2, BT_LEAD2, BT_LEAD2, BT_LEAD2, BT_LEAD2, BT_LEAD2, BT_LEAD2, BT_LEAD2,
   BT_LEAD2, BT_LEAD2, BT_LEAD2, BT_LEAD2, BT_LEAD2, BT_LEAD2, BT_LEAD3, BT_LEAD3, BT_LEAD3,
   BT_LEAD3, BT_LEAD3, BT_LEAD3, BT_LEAD3, BT_LEAD3, BT_LEAD3, BT_LEAD3, BT_LEAD3, BT_LEAD3,
   BT_LEAD3, BT_LEAD3, BT_LEAD3, BT_LEAD3, BT_LEAD4, BT_LEAD4, BT_LEAD4, BT_LEAD4, BT_LEAD4,
   BT_NONXML, BT_NONXML, BT_NONXML, BT_NONXML, BT_NONXML, BT_NONXML, BT_NONXML, BT_NONXML,
   BT_NONXML, BT_MALFORM, BT_MALFORM]"

definition latin1tab :: "byte_type list" where
  "latin1tab = [
   BT_OTHER, BT_OTHER, BT_OTHER, BT_OTHER, BT_OTHER, BT_OTHER, BT_OTHER, BT_OTHER, BT_OTHER,
   BT_OTHER, BT_OTHER, BT_OTHER, BT_OTHER, BT_OTHER, BT_OTHER, BT_OTHER, BT_OTHER, BT_OTHER,
   BT_OTHER, BT_OTHER, BT_OTHER, BT_OTHER, BT_OTHER, BT_OTHER, BT_OTHER, BT_OTHER, BT_OTHER,
   BT_OTHER, BT_OTHER, BT_OTHER, BT_OTHER, BT_OTHER, BT_OTHER, BT_OTHER, BT_OTHER, BT_OTHER,
   BT_OTHER, BT_OTHER, BT_OTHER, BT_OTHER, BT_OTHER, BT_OTHER, BT_NMSTRT, BT_OTHER, BT_OTHER,
   BT_OTHER, BT_OTHER, BT_OTHER, BT_OTHER, BT_OTHER, BT_OTHER, BT_OTHER, BT_OTHER, BT_NMSTRT,
   BT_OTHER, BT_NAME, BT_OTHER, BT_OTHER, BT_NMSTRT, BT_OTHER, BT_OTHER, BT_OTHER, BT_OTHER,
   BT_OTHER, BT_NMSTRT, BT_NMSTRT, BT_NMSTRT, BT_NMSTRT, BT_NMSTRT, BT_NMSTRT, BT_NMSTRT,
   BT_NMSTRT, BT_NMSTRT, BT_NMSTRT, BT_NMSTRT, BT_NMSTRT, BT_NMSTRT, BT_NMSTRT, BT_NMSTRT,
   BT_NMSTRT, BT_NMSTRT, BT_NMSTRT, BT_NMSTRT, BT_NMSTRT, BT_NMSTRT, BT_NMSTRT, BT_NMSTRT,
   BT_OTHER, BT_NMSTRT, BT_NMSTRT, BT_NMSTRT, BT_NMSTRT, BT_NMSTRT, BT_NMSTRT, BT_NMSTRT,
   BT_NMSTRT, BT_NMSTRT, BT_NMSTRT, BT_NMSTRT, BT_NMSTRT, BT_NMSTRT, BT_NMSTRT, BT_NMSTRT,
   BT_NMSTRT, BT_NMSTRT, BT_NMSTRT, BT_NMSTRT, BT_NMSTRT, BT_NMSTRT, BT_NMSTRT, BT_NMSTRT,
   BT_NMSTRT, BT_NMSTRT, BT_NMSTRT, BT_NMSTRT, BT_NMSTRT, BT_NMSTRT, BT_NMSTRT, BT_NMSTRT,
   BT_OTHER, BT_NMSTRT, BT_NMSTRT, BT_NMSTRT, BT_NMSTRT, BT_NMSTRT, BT_NMSTRT, BT_NMSTRT,
   BT_NMSTRT]"

section \<open>Name characters\<close>

definition namingBitmap :: "32 word list" where
  "namingBitmap = [
   0x00000000, 0x00000000, 0x00000000, 0x00000000, 0x00000000, 0x00000000, 0x00000000,
   0x00000000, 0xFFFFFFFF, 0xFFFFFFFF, 0xFFFFFFFF, 0xFFFFFFFF, 0xFFFFFFFF, 0xFFFFFFFF,
   0xFFFFFFFF, 0xFFFFFFFF, 0x00000000, 0x04000000, 0x87FFFFFE, 0x07FFFFFE, 0x00000000,
   0x00000000, 0xFF7FFFFF, 0xFF7FFFFF, 0xFFFFFFFF, 0x7FF3FFFF, 0xFFFFFDFE, 0x7FFFFFFF,
   0xFFFFFFFF, 0xFFFFFFFF, 0xFFFFE00F, 0xFC31FFFF, 0x00FFFFFF, 0x00000000, 0xFFFF0000,
   0xFFFFFFFF, 0xFFFFFFFF, 0xF80001FF, 0x00000003, 0x00000000, 0x00000000, 0x00000000,
   0x00000000, 0x00000000, 0xFFFFD740, 0xFFFFFFFB, 0x547F7FFF, 0x000FFFFD, 0xFFFFDFFE,
   0xFFFFFFFF, 0xDFFEFFFF, 0xFFFFFFFF, 0xFFFF0003, 0xFFFFFFFF, 0xFFFF199F, 0x033FCFFF,
   0x00000000, 0xFFFE0000, 0x027FFFFF, 0xFFFFFFFE, 0x0000007F, 0x00000000, 0xFFFF0000,
   0x000707FF, 0x00000000, 0x07FFFFFE, 0x000007FE, 0xFFFE0000, 0xFFFFFFFF, 0x7CFFFFFF,
   0x002F7FFF, 0x00000060, 0xFFFFFFE0, 0x23FFFFFF, 0xFF000000, 0x00000003, 0xFFF99FE0,
   0x03C5FDFF, 0xB0000000, 0x00030003, 0xFFF987E0, 0x036DFDFF, 0x5E000000, 0x001C0000,
   0xFFFBAFE0, 0x23EDFDFF, 0x00000000, 0x00000001, 0xFFF99FE0, 0x23CDFDFF, 0xB0000000,
   0x00000003, 0xD63DC7E0, 0x03BFC718, 0x00000000, 0x00000000, 0xFFFDDFE0, 0x03EFFDFF,
   0x00000000, 0x00000003, 0xFFFDDFE0, 0x03EFFDFF, 0x40000000, 0x00000003, 0xFFFDDFE0,
   0x03FFFDFF, 0x00000000, 0x00000003, 0x00000000, 0x00000000, 0x00000000, 0x00000000,
   0xFFFFFFFE, 0x000D7FFF, 0x0000003F, 0x00000000, 0xFEF02596, 0x200D6CAE, 0x0000001F,
   0x00000000, 0x00000000, 0x00000000, 0xFFFFFEFF, 0x000003FF, 0x00000000, 0x00000000,
   0x00000000, 0x00000000, 0x00000000, 0x00000000, 0x00000000, 0x00000000, 0x00000000,
   0xFFFFFFFF, 0xFFFF003F, 0x007FFFFF, 0x0007DAED, 0x50000000, 0x82315001, 0x002C62AB,
   0x40000000, 0xF580C900, 0x00000007, 0x02010800, 0xFFFFFFFF, 0xFFFFFFFF, 0xFFFFFFFF,
   0xFFFFFFFF, 0x0FFFFFFF, 0xFFFFFFFF, 0xFFFFFFFF, 0x03FFFFFF, 0x3F3FFFFF, 0xFFFFFFFF,
   0xAAFF3F3F, 0x3FFFFFFF, 0xFFFFFFFF, 0x5FDFFFFF, 0x0FCF1FDC, 0x1FDC1FFF, 0x00000000,
   0x00004C40, 0x00000000, 0x00000000, 0x00000007, 0x00000000, 0x00000000, 0x00000000,
   0x00000080, 0x000003FE, 0xFFFFFFFE, 0xFFFFFFFF, 0x001FFFFF, 0xFFFFFFFE, 0xFFFFFFFF,
   0x07FFFFFF, 0xFFFFFFE0, 0x00001FFF, 0x00000000, 0x00000000, 0x00000000, 0x00000000,
   0x00000000, 0x00000000, 0xFFFFFFFF, 0xFFFFFFFF, 0xFFFFFFFF, 0xFFFFFFFF, 0xFFFFFFFF,
   0x0000003F, 0x00000000, 0x00000000, 0xFFFFFFFF, 0xFFFFFFFF, 0xFFFFFFFF, 0xFFFFFFFF,
   0xFFFFFFFF, 0x0000000F, 0x00000000, 0x00000000, 0x00000000, 0x07FF6000, 0x87FFFFFE,
   0x07FFFFFE, 0x00000000, 0x00800000, 0xFF7FFFFF, 0xFF7FFFFF, 0x00FFFFFF, 0x00000000,
   0xFFFF0000, 0xFFFFFFFF, 0xFFFFFFFF, 0xF80001FF, 0x00030003, 0x00000000, 0xFFFFFFFF,
   0xFFFFFFFF, 0x0000003F, 0x00000003, 0xFFFFD7C0, 0xFFFFFFFB, 0x547F7FFF, 0x000FFFFD,
   0xFFFFDFFE, 0xFFFFFFFF, 0xDFFEFFFF, 0xFFFFFFFF, 0xFFFF007B, 0xFFFFFFFF, 0xFFFF199F,
   0x033FCFFF, 0x00000000, 0xFFFE0000, 0x027FFFFF, 0xFFFFFFFE, 0xFFFE007F, 0xBBFFFFFB,
   0xFFFF0016, 0x000707FF, 0x00000000, 0x07FFFFFE, 0x0007FFFF, 0xFFFF03FF, 0xFFFFFFFF,
   0x7CFFFFFF, 0xFFEF7FFF, 0x03FF3DFF, 0xFFFFFFEE, 0xF3FFFFFF, 0xFF1E3FFF, 0x0000FFCF,
   0xFFF99FEE, 0xD3C5FDFF, 0xB080399F, 0x0003FFCF, 0xFFF987E4, 0xD36DFDFF, 0x5E003987,
   0x001FFFC0, 0xFFFBAFEE, 0xF3EDFDFF, 0x00003BBF, 0x0000FFC1, 0xFFF99FEE, 0xF3CDFDFF,
   0xB0C0398F, 0x0000FFC3, 0xD63DC7EC, 0xC3BFC718, 0x00803DC7, 0x0000FF80, 0xFFFDDFEE,
   0xC3EFFDFF, 0x00603DDF, 0x0000FFC3, 0xFFFDDFEC, 0xC3EFFDFF, 0x40603DDF, 0x0000FFC3,
   0xFFFDDFEC, 0xC3FFFDFF, 0x00803DCF, 0x0000FFC3, 0x00000000, 0x00000000, 0x00000000,
   0x00000000, 0xFFFFFFFE, 0x07FF7FFF, 0x03FF7FFF, 0x00000000, 0xFEF02596, 0x3BFF6CAE,
   0x03FF3F5F, 0x00000000, 0x03000000, 0xC2A003FF, 0xFFFFFEFF, 0xFFFE03FF, 0xFEBF0FDF,
   0x02FE3FFF, 0x00000000, 0x00000000, 0x00000000, 0x00000000, 0x00000000, 0x00000000,
   0x00000000, 0x00000000, 0x1FFF0000, 0x00000002, 0x000000A0, 0x003EFFFE, 0xFFFFFFFE,
   0xFFFFFFFF, 0x661FFFFF, 0xFFFFFFFE, 0xFFFFFFFF, 0x77FFFFFF]"

definition nmstrtPages :: "nat list" where
  "nmstrtPages = [
   2, 3, 4, 5, 6, 7, 8, 0, 0, 9, 10, 11, 12, 13, 14, 15, 16, 17, 0, 0, 0, 0, 0, 0, 0, 0, 0, 0,
   0, 0, 18, 19, 0, 20, 0, 0, 0, 0, 0, 0, 0, 0, 0, 0, 0, 0, 0, 0, 21, 22, 0, 0, 0, 0, 0, 0, 0,
   0, 0, 0, 0, 0, 0, 0, 0, 0, 0, 0, 0, 0, 0, 0, 0, 0, 0, 0, 0, 0, 1, 1, 1, 1, 1, 1, 1, 1, 1, 1,
   1, 1, 1, 1, 1, 1, 1, 1, 1, 1, 1, 1, 1, 1, 1, 1, 1, 1, 1, 1, 1, 1, 1, 1, 1, 1, 1, 1, 1, 1, 1,
   1, 1, 1, 1, 1, 1, 1, 1, 1, 1, 1, 1, 1, 1, 1, 1, 1, 1, 1, 1, 1, 1, 1, 1, 1, 1, 1, 1, 1, 1, 1,
   1, 1, 1, 1, 1, 1, 1, 1, 1, 23, 0, 0, 0, 0, 0, 0, 0, 0, 0, 0, 0, 0, 1, 1, 1, 1, 1, 1, 1, 1, 1,
   1, 1, 1, 1, 1, 1, 1, 1, 1, 1, 1, 1, 1, 1, 1, 1, 1, 1, 1, 1, 1, 1, 1, 1, 1, 1, 1, 1, 1, 1, 1,
   1, 1, 1, 24, 0, 0, 0, 0, 0, 0, 0, 0, 0, 0, 0, 0, 0, 0, 0, 0, 0, 0, 0, 0, 0, 0, 0, 0, 0, 0, 0,
   0, 0, 0, 0, 0, 0, 0, 0, 0, 0, 0, 0, 0]"

definition namePages :: "nat list" where
  "namePages = [
   25, 3, 26, 27, 28, 29, 30, 0, 0, 31, 32, 33, 34, 35, 36, 37, 16, 17, 0, 0, 0, 0, 0, 0, 0, 0,
   0, 0, 0, 0, 18, 19, 38, 20, 0, 0, 0, 0, 0, 0, 0, 0, 0, 0, 0, 0, 0, 0, 39, 22, 0, 0, 0, 0, 0,
   0, 0, 0, 0, 0, 0, 0, 0, 0, 0, 0, 0, 0, 0, 0, 0, 0, 0, 0, 0, 0, 0, 0, 1, 1, 1, 1, 1, 1, 1, 1,
   1, 1, 1, 1, 1, 1, 1, 1, 1, 1, 1, 1, 1, 1, 1, 1, 1, 1, 1, 1, 1, 1, 1, 1, 1, 1, 1, 1, 1, 1, 1,
   1, 1, 1, 1, 1, 1, 1, 1, 1, 1, 1, 1, 1, 1, 1, 1, 1, 1, 1, 1, 1, 1, 1, 1, 1, 1, 1, 1, 1, 1, 1,
   1, 1, 1, 1, 1, 1, 1, 1, 1, 1, 1, 23, 0, 0, 0, 0, 0, 0, 0, 0, 0, 0, 0, 0, 1, 1, 1, 1, 1, 1, 1,
   1, 1, 1, 1, 1, 1, 1, 1, 1, 1, 1, 1, 1, 1, 1, 1, 1, 1, 1, 1, 1, 1, 1, 1, 1, 1, 1, 1, 1, 1, 1,
   1, 1, 1, 1, 1, 24, 0, 0, 0, 0, 0, 0, 0, 0, 0, 0, 0, 0, 0, 0, 0, 0, 0, 0, 0, 0, 0, 0, 0, 0, 0,
   0, 0, 0, 0, 0, 0, 0, 0, 0, 0, 0, 0, 0, 0, 0]"

text \<open>A bit of the bit map: the word the pages select, and a bit of it.\<close>

definition naming_bit :: "nat \<Rightarrow> nat \<Rightarrow> bool" where
  "naming_bit i k = (namingBitmap ! i AND push_bit k 1 \<noteq> 0)"

definition UTF8_GET_NAMING2 :: "nat list \<Rightarrow> nat \<Rightarrow> nat \<Rightarrow> bool" where
  "UTF8_GET_NAMING2 pages b0 b1 =
     naming_bit (push_bit 3 (pages ! (drop_bit 2 b0 AND 7)) + push_bit 1 (b0 AND 3)
         + (drop_bit 5 b1 AND 1)) (b1 AND 0x1F)"

definition UTF8_GET_NAMING3 :: "nat list \<Rightarrow> nat \<Rightarrow> nat \<Rightarrow> nat \<Rightarrow> bool" where
  "UTF8_GET_NAMING3 pages b0 b1 b2 =
     naming_bit (push_bit 3 (pages ! (push_bit 4 (b0 AND 0xF) + (drop_bit 2 b1 AND 0xF)))
         + push_bit 1 (b1 AND 3) + (drop_bit 5 b2 AND 1)) (b2 AND 0x1F)"

section \<open>Invalid UTF-8\<close>

definition UTF8_INVALID2 :: "nat \<Rightarrow> nat \<Rightarrow> bool" where
  "UTF8_INVALID2 p0 p1 \<longleftrightarrow> p0 < 0xC2 \<or> p1 AND 0x80 = 0 \<or> p1 AND 0xC0 = 0xC0"

definition UTF8_INVALID3 :: "nat \<Rightarrow> nat \<Rightarrow> nat \<Rightarrow> bool" where
  "UTF8_INVALID3 p0 p1 p2 \<longleftrightarrow>
     p2 AND 0x80 = 0
     \<or> (if p0 = 0xEF \<and> p1 = 0xBF then 0xBD < p2 else p2 AND 0xC0 = 0xC0)
     \<or> (if p0 = 0xE0 then p1 < 0xA0 \<or> p1 AND 0xC0 = 0xC0
        else p1 AND 0x80 = 0 \<or> (if p0 = 0xED then 0x9F < p1 else p1 AND 0xC0 = 0xC0))"

definition UTF8_INVALID4 :: "nat \<Rightarrow> nat \<Rightarrow> nat \<Rightarrow> nat \<Rightarrow> bool" where
  "UTF8_INVALID4 p0 p1 p2 p3 \<longleftrightarrow>
     p3 AND 0x80 = 0 \<or> p3 AND 0xC0 = 0xC0
     \<or> p2 AND 0x80 = 0 \<or> p2 AND 0xC0 = 0xC0
     \<or> (if p0 = 0xF0 then p1 < 0x90 \<or> p1 AND 0xC0 = 0xC0
        else p1 AND 0x80 = 0 \<or> (if p0 = 0xF4 then 0x8F < p1 else p1 AND 0xC0 = 0xC0))"

section \<open>Encodings\<close>

text \<open>The tests \<open>isName2\<close> to \<open>isInvalid4\<close> take the number of bytes of the sequence and its bytes.\<close>

record encoding =
  type_tab :: "byte_type list"
  isName :: "nat \<Rightarrow> cstr \<Rightarrow> bool"
  isNmstrt :: "nat \<Rightarrow> cstr \<Rightarrow> bool"
  isInvalid :: "nat \<Rightarrow> cstr \<Rightarrow> bool"

definition BYTE_TYPE :: "encoding \<Rightarrow> char \<Rightarrow> byte_type" where
  "BYTE_TYPE enc c = type_tab enc ! of_char c"

definition utf8_naming :: "nat list \<Rightarrow> nat \<Rightarrow> cstr \<Rightarrow> bool" where
  "utf8_naming pages n p =
     (if n = 2 then UTF8_GET_NAMING2 pages (byte_at p 0) (byte_at p 1)
      else if n = 3 then UTF8_GET_NAMING3 pages (byte_at p 0) (byte_at p 1) (byte_at p 2)
      else False)"

definition utf8_invalid :: "nat \<Rightarrow> cstr \<Rightarrow> bool" where
  "utf8_invalid n p =
     (if n = 2 then UTF8_INVALID2 (byte_at p 0) (byte_at p 1)
      else if n = 3 then UTF8_INVALID3 (byte_at p 0) (byte_at p 1) (byte_at p 2)
      else UTF8_INVALID4 (byte_at p 0) (byte_at p 1) (byte_at p 2) (byte_at p 3))"

definition utf8_with :: "byte_type list \<Rightarrow> encoding" where
  "utf8_with tab = \<lparr> type_tab = tab @ utf8tab, isName = utf8_naming namePages,
     isNmstrt = utf8_naming nmstrtPages, isInvalid = utf8_invalid \<rparr>"

definition utf8_encoding_ns :: encoding where
  "utf8_encoding_ns = utf8_with (asciitab BT_COLON)"

definition utf8_encoding :: encoding where
  "utf8_encoding = utf8_with (asciitab BT_NMSTRT)"

definition internal_utf8_encoding_ns :: encoding where
  "internal_utf8_encoding_ns = utf8_with (iasciitab BT_COLON)"

definition internal_utf8_encoding :: encoding where
  "internal_utf8_encoding = utf8_with (iasciitab BT_NMSTRT)"

text \<open>The pointers to the tests are null in the other encodings: they have no lead bytes.\<close>

definition single_byte :: "byte_type list \<Rightarrow> encoding" where
  "single_byte tab = \<lparr> type_tab = tab, isName = (\<lambda>n p. False), isNmstrt = (\<lambda>n p. False),
     isInvalid = (\<lambda>n p. False) \<rparr>"

definition latin1_encoding_ns :: encoding where
  "latin1_encoding_ns = single_byte (asciitab BT_COLON @ latin1tab)"

definition latin1_encoding :: encoding where
  "latin1_encoding = single_byte (asciitab BT_NMSTRT @ latin1tab)"

definition ascii_encoding_ns :: encoding where
  "ascii_encoding_ns = single_byte (asciitab BT_COLON @ replicate 128 BT_NONXML)"

definition ascii_encoding :: encoding where
  "ascii_encoding = single_byte (asciitab BT_NMSTRT @ replicate 128 BT_NONXML)"

section \<open>Numbers of characters\<close>

definition checkCharRefNumber :: "int \<Rightarrow> int" where
  "checkCharRefNumber result =
     (let page = drop_bit 8 result in
      if 0xD8 \<le> page \<and> page \<le> 0xDF then - 1
      else if page = 0 then
        (if type_tab latin1_encoding ! nat result = BT_NONXML then - 1 else result)
      else if page = 0xFF then
        (if result = 0xFFFE \<or> result = 0xFFFF then - 1 else result)
      else result)"

text \<open>The bytes written; the value returned is their number.\<close>

definition XmlUtf8Encode :: "int \<Rightarrow> cstr" where
  "XmlUtf8Encode c =
     (if c < 0 then []
      else if c < 0x80 then [char_of (c OR 0)]
      else if c < 0x800 then [char_of (drop_bit 6 c OR 0xC0), char_of ((c AND 0x3F) OR 0x80)]
      else if c < 0x10000 then
        [char_of (drop_bit 12 c OR 0xE0), char_of ((drop_bit 6 c AND 0x3F) OR 0x80),
         char_of ((c AND 0x3F) OR 0x80)]
      else if c < 0x110000 then
        [char_of (drop_bit 18 c OR 0xF0), char_of ((drop_bit 12 c AND 0x3F) OR 0x80),
         char_of ((drop_bit 6 c AND 0x3F) OR 0x80), char_of ((c AND 0x3F) OR 0x80)]
      else [])"

definition XmlUtf16Encode :: "int \<Rightarrow> 16 word list" where
  "XmlUtf16Encode c =
     (if c < 0 then []
      else if c < 0x10000 then [of_int c]
      else if c < 0x110000 then
        [of_int (drop_bit 10 (c - 0x10000) + 0xD800), of_int (((c - 0x10000) AND 0x3FF) + 0xDC00)]
      else [])"

section \<open>Conversion\<close>

text \<open>
  A conversion takes the bytes between \<^verbatim>\<open>*fromP\<close> and \<^verbatim>\<open>fromLim\<close> and the room between \<^verbatim>\<open>*toP\<close> and
  \<^verbatim>\<open>toLim\<close>, and gives what it wrote and what it left. \<open>cut\<close> is the loop that moves \<^verbatim>\<open>fromLim\<close> back.
\<close>

fun cut :: "cstr \<Rightarrow> nat \<Rightarrow> nat" where
  "cut from 0 = 0"
| "cut from (Suc n) = (if byte_at from n AND 0xC0 \<noteq> 0x80 then Suc n else cut from n)"

definition utf8_toUtf8 :: "cstr \<Rightarrow> nat \<Rightarrow> cstr \<times> cstr" where
  "utf8_toUtf8 from room =
     (let lim = (if room < length from then cut from room else length from)
      in (take lim from, drop lim from))"

fun latin1_toUtf8 :: "cstr \<Rightarrow> nat \<Rightarrow> cstr \<times> cstr" where
  "latin1_toUtf8 [] room = ([], [])"
| "latin1_toUtf8 (c # from) room =
     (if (of_char c :: nat) AND 0x80 \<noteq> 0 then
        (if room < 2 then ([], c # from)
         else
           let (w, r) = latin1_toUtf8 from (room - 2)
           in (char_of (drop_bit 6 (of_char c :: nat) OR 0xC0)
                # char_of (((of_char c :: nat) AND 0x3F) OR 0x80) # w, r))
      else if room = 0 then ([], c # from)
      else let (w, r) = latin1_toUtf8 from (room - 1) in (c # w, r))"

fun latin1_toUtf16 :: "cstr \<Rightarrow> nat \<Rightarrow> 16 word list \<times> cstr" where
  "latin1_toUtf16 [] room = ([], [])"
| "latin1_toUtf16 (c # from) room =
     (if room = 0 then ([], c # from)
      else let (w, r) = latin1_toUtf16 from (room - 1) in (of_char c # w, r))"

fun ascii_toUtf8 :: "cstr \<Rightarrow> nat \<Rightarrow> cstr \<times> cstr" where
  "ascii_toUtf8 [] room = ([], [])"
| "ascii_toUtf8 (c # from) room =
     (if room = 0 then ([], c # from)
      else let (w, r) = ascii_toUtf8 from (room - 1) in (c # w, r))"

text \<open>
  A lead byte is taken with the bytes after it without a look at \<^verbatim>\<open>fromLim\<close>: with fewer bytes left
  the loop runs past the limit. The arithmetic is that of \<^verbatim>\<open>int\<close>, and \<^verbatim>\<open>char\<close> may be signed; the masks
  remove the difference. A byte that is no lead byte is stored as it is; \<open>scast\<close> is the conversion
  of a signed \<^verbatim>\<open>char\<close>.
\<close>

definition utf16_pair :: "nat \<Rightarrow> 16 word list" where
  "utf16_pair n = [of_nat (drop_bit 10 (n - 0x10000) OR 0xD800), of_nat (((n - 0x10000) AND 0x3FF) OR 0xDC00)]"

function utf8_toUtf16 :: "encoding \<Rightarrow> cstr \<Rightarrow> nat \<Rightarrow> (16 word list \<times> cstr) run" where
  "utf8_toUtf16 enc from room =
     (if from = [] \<or> room = 0 then Inr ([], from)
      else
        (let t = BYTE_TYPE enc (hd from); b = byte_at from in
         if t = BT_LEAD2 then
           (if length from < 2 then Inl OutOfBounds
            else
              rbind (utf8_toUtf16 enc (drop 2 from) (room - 1)) (\<lambda>(w, r).
                Inr (of_nat (push_bit 6 (b 0 AND 0x1F) OR (b 1 AND 0x3F)) # w, r)))
         else if t = BT_LEAD3 then
           (if length from < 3 then Inl OutOfBounds
            else
              rbind (utf8_toUtf16 enc (drop 3 from) (room - 1)) (\<lambda>(w, r).
                Inr (of_nat (push_bit 12 (b 0 AND 0xF) OR push_bit 6 (b 1 AND 0x3F) OR (b 2 AND 0x3F)) # w, r)))
         else if t = BT_LEAD4 then
           (if room = 1 then Inr ([], from)
            else if length from < 4 then Inl OutOfBounds
            else
              rbind (utf8_toUtf16 enc (drop 4 from) (room - 2)) (\<lambda>(w, r).
                Inr (utf16_pair (push_bit 18 (b 0 AND 0x7) OR push_bit 12 (b 1 AND 0x3F)
                       OR push_bit 6 (b 2 AND 0x3F) OR (b 3 AND 0x3F)) @ w, r)))
         else
           rbind (utf8_toUtf16 enc (tl from) (room - 1)) (\<lambda>(w, r).
             Inr (scast (of_char (hd from) :: 8 word) # w, r))))"
  by pat_completeness auto
termination
  by (relation "measure (\<lambda>(enc, from, room). length from)") auto

declare utf8_toUtf16.simps [simp del]

section \<open>Names of encodings\<close>

text \<open>\<open>streqci\<close> compares without regard to the case of ASCII letters.\<close>

definition upper :: "char \<Rightarrow> char" where
  "upper c = (if (0x61 :: nat) \<le> of_char c \<and> of_char c \<le> (0x7A :: nat) then char_of ((of_char c :: nat) - 32) else c)"

fun streqci :: "cstr \<Rightarrow> cstr \<Rightarrow> bool" where
  "streqci [] [] = True"
| "streqci (c # s) (d # t) = (if upper c \<noteq> upper d then False else streqci s t)"
| "streqci _ _ = False"

datatype encoding_index =
    UNKNOWN_ENC | ISO_8859_1_ENC | US_ASCII_ENC | UTF_8_ENC | UTF_16_ENC | UTF_16BE_ENC
  | UTF_16LE_ENC | NO_ENC

definition encodingNames :: "(cstr \<times> encoding_index) list" where
  "encodingNames = [(''ISO-8859-1'', ISO_8859_1_ENC), (''US-ASCII'', US_ASCII_ENC),
     (''UTF-8'', UTF_8_ENC), (''UTF-16'', UTF_16_ENC), (''UTF-16BE'', UTF_16BE_ENC),
     (''UTF-16LE'', UTF_16LE_ENC)]"

definition getEncodingIndex :: "cstr option \<Rightarrow> encoding_index" where
  "getEncodingIndex name =
     (case name of
        None \<Rightarrow> NO_ENC
      | Some s \<Rightarrow>
          (case find (\<lambda>(n, i). streqci s n) encodingNames of
             Some (n, i) \<Rightarrow> i | None \<Rightarrow> UNKNOWN_ENC))"

end
