(* ===== verification/XmlTok.thy ===== *)
theory XmlTok
  imports XmlEncoding
begin

text \<open>
  The scanners of the XML parser (\<^verbatim>\<open>src/expat/lib/xmltok_impl.c\<close>, as \<^verbatim>\<open>xmltok.c\<close> includes it for
  encodings with one byte per character unit, that is with prefix \<^verbatim>\<open>normal_\<close>, and with namespaces).

  A pair of pointers \<^verbatim>\<open>ptr\<close> and \<^verbatim>\<open>end\<close> is the list of the bytes between them, and moving \<^verbatim>\<open>ptr\<close> drops
  bytes. A scanner returns its token and what it stored in \<^verbatim>\<open>*nextTokPtr\<close>, if anything, again as the
  bytes from there to \<^verbatim>\<open>end\<close>. The macros for groups of cases become a \<open>step\<close>: return from the
  scanner, go on behind the character, or none of these cases.
\<close>

type_synonym scan = "int \<times> cstr option"

datatype step = Stop scan | Move cstr | Other

section \<open>The macros\<close>

text \<open>\<open>INVALID_CASES\<close>, \<open>CHECK_NAME_CASES\<close> and \<open>CHECK_NMSTRT_CASES\<close>. \<open>lead_step bad n s\<close> is a lead byte of
  a sequence of \<open>n\<close> bytes; \<open>IS_NAME_CHAR_MINBPC\<close> is 0.\<close>

definition lead_step :: "(nat \<Rightarrow> cstr \<Rightarrow> bool) \<Rightarrow> nat \<Rightarrow> cstr \<Rightarrow> step" where
  "lead_step bad n s =
     (if length s < n then Stop (XML_TOK_PARTIAL_CHAR, None)
      else if bad n (take n s) then Stop (XML_TOK_INVALID, Some s)
      else Move (drop n s))"

definition invalid_cases :: "encoding \<Rightarrow> cstr \<Rightarrow> step" where
  "invalid_cases enc s =
     (let t = BYTE_TYPE enc (hd s) in
      if t = BT_LEAD2 then lead_step (isInvalid enc) 2 s
      else if t = BT_LEAD3 then lead_step (isInvalid enc) 3 s
      else if t = BT_LEAD4 then lead_step (isInvalid enc) 4 s
      else if t \<in> {BT_NONXML, BT_MALFORM, BT_TRAIL} then Stop (XML_TOK_INVALID, Some s)
      else Other)"

definition check_name_cases :: "encoding \<Rightarrow> cstr \<Rightarrow> step" where
  "check_name_cases enc s =
     (let t = BYTE_TYPE enc (hd s) in
      if t = BT_NONASCII then Stop (XML_TOK_INVALID, Some s)
      else if t \<in> {BT_NMSTRT, BT_HEX, BT_DIGIT, BT_NAME, BT_MINUS} then Move (tl s)
      else if t = BT_LEAD2 then lead_step (\<lambda>n p. \<not> isName enc n p) 2 s
      else if t = BT_LEAD3 then lead_step (\<lambda>n p. \<not> isName enc n p) 3 s
      else if t = BT_LEAD4 then lead_step (\<lambda>n p. \<not> isName enc n p) 4 s
      else Other)"

definition check_nmstrt_cases :: "encoding \<Rightarrow> cstr \<Rightarrow> step" where
  "check_nmstrt_cases enc s =
     (let t = BYTE_TYPE enc (hd s) in
      if t = BT_NONASCII then Stop (XML_TOK_INVALID, Some s)
      else if t \<in> {BT_NMSTRT, BT_HEX} then Move (tl s)
      else if t = BT_LEAD2 then lead_step (\<lambda>n p. \<not> isNmstrt enc n p) 2 s
      else if t = BT_LEAD3 then lead_step (\<lambda>n p. \<not> isNmstrt enc n p) 3 s
      else if t = BT_LEAD4 then lead_step (\<lambda>n p. \<not> isNmstrt enc n p) 4 s
      else Other)"

definition is_space :: "encoding \<Rightarrow> char \<Rightarrow> bool" where
  "is_space enc c \<longleftrightarrow> BYTE_TYPE enc c \<in> {BT_S, BT_CR, BT_LF}"

text \<open>What the loops need to end: a step goes forward.\<close>

lemma lead_step_Move: "lead_step bad n s = Move s' \<Longrightarrow> n \<le> length s \<and> s' = drop n s"
  by (auto simp: lead_step_def split: if_split_asm)

lemma steps_Move:
  "invalid_cases enc s = Move s' \<Longrightarrow> s \<noteq> [] \<Longrightarrow> length s' < length s"
  "check_name_cases enc s = Move s' \<Longrightarrow> s \<noteq> [] \<Longrightarrow> length s' < length s"
  "check_nmstrt_cases enc s = Move s' \<Longrightarrow> s \<noteq> [] \<Longrightarrow> length s' < length s"
  by (auto simp: invalid_cases_def check_name_cases_def check_nmstrt_cases_def Let_def
      dest!: lead_step_Move split: if_split_asm)

lemma steps_Move_Cons:
  "invalid_cases enc (c # s) = Move s' \<Longrightarrow> length s' < Suc (length s)"
  "check_name_cases enc (c # s) = Move s' \<Longrightarrow> length s' < Suc (length s)"
  "check_nmstrt_cases enc (c # s) = Move s' \<Longrightarrow> length s' < Suc (length s)"
  using steps_Move [of enc "c # s" s'] by auto

section \<open>Comments, declarations, processing instructions\<close>

text \<open>Each scanner starts behind the characters named in the comment of its code: here \<open><!-\<close>.\<close>

function comment_loop :: "encoding \<Rightarrow> cstr \<Rightarrow> scan" where
  "comment_loop enc [] = (XML_TOK_PARTIAL, None)"
| "comment_loop enc (c # s) =
     (case invalid_cases enc (c # s) of
        Stop r \<Rightarrow> r
      | Move s' \<Rightarrow> comment_loop enc s'
      | Other \<Rightarrow>
          if BYTE_TYPE enc c = BT_MINUS then
            (case s of
               [] \<Rightarrow> (XML_TOK_PARTIAL, None)
             | d # s1 \<Rightarrow>
                 if d = CHR ''-'' then
                   (case s1 of
                      [] \<Rightarrow> (XML_TOK_PARTIAL, None)
                    | e # s2 \<Rightarrow>
                        if e \<noteq> CHR ''>'' then (XML_TOK_INVALID, Some s1)
                        else (XML_TOK_COMMENT, Some s2))
                 else comment_loop enc s)
          else comment_loop enc s)"
  by pat_completeness auto
termination
  by (relation "measure (\<lambda>(enc, s). length s)") (auto dest: steps_Move_Cons)

definition scanComment :: "encoding \<Rightarrow> cstr \<Rightarrow> scan" where
  "scanComment enc s =
     (case s of
        [] \<Rightarrow> (XML_TOK_PARTIAL, None)
      | c # s1 \<Rightarrow> if c \<noteq> CHR ''-'' then (XML_TOK_INVALID, Some s) else comment_loop enc s1)"

fun decl_loop :: "encoding \<Rightarrow> cstr \<Rightarrow> scan" where
  "decl_loop enc [] = (XML_TOK_PARTIAL, None)"
| "decl_loop enc (c # s) =
     (if BYTE_TYPE enc c = BT_PERCNT then
        (case s of
           [] \<Rightarrow> (XML_TOK_PARTIAL, None)
         | d # s1 \<Rightarrow>
             if BYTE_TYPE enc d \<in> {BT_S, BT_CR, BT_LF, BT_PERCNT} then (XML_TOK_INVALID, Some (c # s))
             else (XML_TOK_DECL_OPEN, Some (c # s)))
      else if is_space enc c then (XML_TOK_DECL_OPEN, Some (c # s))
      else if BYTE_TYPE enc c \<in> {BT_NMSTRT, BT_HEX} then decl_loop enc s
      else (XML_TOK_INVALID, Some (c # s)))"

definition scanDecl :: "encoding \<Rightarrow> cstr \<Rightarrow> scan" where
  "scanDecl enc s =
     (case s of
        [] \<Rightarrow> (XML_TOK_PARTIAL, None)
      | c # s1 \<Rightarrow>
          if BYTE_TYPE enc c = BT_MINUS then scanComment enc s1
          else if BYTE_TYPE enc c = BT_LSQB then (XML_TOK_COND_SECT_OPEN, Some s1)
          else if BYTE_TYPE enc c \<in> {BT_NMSTRT, BT_HEX} then decl_loop enc s1
          else (XML_TOK_INVALID, Some s))"

text \<open>The value returned and the token stored through \<^verbatim>\<open>tokPtr\<close>; the argument is the text of the target.\<close>

definition checkPiTarget :: "cstr \<Rightarrow> bool \<times> int" where
  "checkPiTarget target =
     (case target of
        [a, b, c] \<Rightarrow>
          if a \<notin> {CHR ''x'', CHR ''X''} then (True, XML_TOK_PI)
          else if b \<notin> {CHR ''m'', CHR ''M''} then (True, XML_TOK_PI)
          else if c \<notin> {CHR ''l'', CHR ''L''} then (True, XML_TOK_PI)
          else if a = CHR ''X'' \<or> b = CHR ''M'' \<or> c = CHR ''L'' then (False, XML_TOK_PI)
          else (True, XML_TOK_XML_DECL)
      | _ \<Rightarrow> (True, XML_TOK_PI))"

function pi_body :: "encoding \<Rightarrow> int \<Rightarrow> cstr \<Rightarrow> scan" where
  "pi_body enc tok [] = (XML_TOK_PARTIAL, None)"
| "pi_body enc tok (c # s) =
     (case invalid_cases enc (c # s) of
        Stop r \<Rightarrow> r
      | Move s' \<Rightarrow> pi_body enc tok s'
      | Other \<Rightarrow>
          if BYTE_TYPE enc c = BT_QUEST then
            (case s of
               [] \<Rightarrow> (XML_TOK_PARTIAL, None)
             | d # s1 \<Rightarrow> if d = CHR ''>'' then (tok, Some s1) else pi_body enc tok s)
          else pi_body enc tok s)"
  by pat_completeness auto
termination
  by (relation "measure (\<lambda>(enc, tok, s). length s)") (auto dest: steps_Move_Cons)

text \<open>The target is given as what lies behind its start; at \<open>s\<close> its text is what has been passed.\<close>

function pi_name :: "encoding \<Rightarrow> cstr \<Rightarrow> cstr \<Rightarrow> scan" where
  "pi_name enc target [] = (XML_TOK_PARTIAL, None)"
| "pi_name enc target (c # s) =
     (case check_name_cases enc (c # s) of
        Stop r \<Rightarrow> r
      | Move s' \<Rightarrow> pi_name enc target s'
      | Other \<Rightarrow>
          (let (ok, tok) = checkPiTarget (take (length target - length (c # s)) target) in
           if is_space enc c then
             (if \<not> ok then (XML_TOK_INVALID, Some (c # s)) else pi_body enc tok s)
           else if BYTE_TYPE enc c = BT_QUEST then
             (if \<not> ok then (XML_TOK_INVALID, Some (c # s))
              else
                (case s of
                   [] \<Rightarrow> (XML_TOK_PARTIAL, None)
                 | d # s1 \<Rightarrow> if d = CHR ''>'' then (tok, Some s1) else (XML_TOK_INVALID, Some s)))
           else (XML_TOK_INVALID, Some (c # s))))"
  by pat_completeness auto
termination
  by (relation "measure (\<lambda>(enc, target, s). length s)") (auto dest: steps_Move_Cons)

definition scanPi :: "encoding \<Rightarrow> cstr \<Rightarrow> scan" where
  "scanPi enc s =
     (case s of
        [] \<Rightarrow> (XML_TOK_PARTIAL, None)
      | c # s1 \<Rightarrow>
          (case check_nmstrt_cases enc s of
             Stop r \<Rightarrow> r
           | Move s' \<Rightarrow> pi_name enc s s'
           | Other \<Rightarrow> (XML_TOK_INVALID, Some s)))"

section \<open>Sections of character data\<close>

fun cdata_lsqb :: "cstr \<Rightarrow> cstr \<Rightarrow> scan" where
  "cdata_lsqb [] s = (XML_TOK_CDATA_SECT_OPEN, Some s)"
| "cdata_lsqb (k # ks) [] = (XML_TOK_PARTIAL, None)"
| "cdata_lsqb (k # ks) (c # s) =
     (if c \<noteq> k then (XML_TOK_INVALID, Some (c # s)) else cdata_lsqb ks s)"

definition scanCdataSection :: "encoding \<Rightarrow> cstr \<Rightarrow> scan" where
  "scanCdataSection enc s =
     (if length s < 6 then (XML_TOK_PARTIAL, None) else cdata_lsqb ''CDATA['' s)"

text \<open>The loop over further characters: where it stops, the data ends.\<close>

definition data_lead :: "encoding \<Rightarrow> nat \<Rightarrow> cstr \<Rightarrow> cstr option" where
  "data_lead enc n s =
     (if length s < n \<or> isInvalid enc n (take n s) then None else Some (drop n s))"

definition data_step :: "encoding \<Rightarrow> cstr \<Rightarrow> cstr option" where
  "data_step enc s =
     (let t = BYTE_TYPE enc (hd s) in
      if t = BT_LEAD2 then data_lead enc 2 s
      else if t = BT_LEAD3 then data_lead enc 3 s
      else if t = BT_LEAD4 then data_lead enc 4 s
      else if t \<in> {BT_NONXML, BT_MALFORM, BT_TRAIL, BT_CR, BT_LF} then None
      else Some (tl s))"

lemma data_step_less: "data_step enc s = Some s' \<Longrightarrow> s \<noteq> [] \<Longrightarrow> length s' < length s"
  by (auto simp: data_step_def data_lead_def Let_def split: if_split_asm)

function cdata_chars :: "encoding \<Rightarrow> cstr \<Rightarrow> cstr" where
  "cdata_chars enc s =
     (if s = [] then s
      else if BYTE_TYPE enc (hd s) = BT_RSQB then s
      else (case data_step enc s of None \<Rightarrow> s | Some s' \<Rightarrow> cdata_chars enc s'))"
  by pat_completeness auto
termination
  by (relation "measure (\<lambda>(enc, s). length s)") (auto dest: data_step_less)

declare cdata_chars.simps [simp del]

definition cdataSectionTok :: "encoding \<Rightarrow> cstr \<Rightarrow> scan" where
  "cdataSectionTok enc s =
     (case s of
        [] \<Rightarrow> (XML_TOK_NONE, None)
      | c # s1 \<Rightarrow>
          if BYTE_TYPE enc c = BT_RSQB then
            (case s1 of
               [] \<Rightarrow> (XML_TOK_PARTIAL, None)
             | d # s2 \<Rightarrow>
                 if d \<noteq> CHR '']'' then (XML_TOK_DATA_CHARS, Some (cdata_chars enc s1))
                 else
                   (case s2 of
                      [] \<Rightarrow> (XML_TOK_PARTIAL, None)
                    | e # s3 \<Rightarrow>
                        if e \<noteq> CHR ''>'' then (XML_TOK_DATA_CHARS, Some (cdata_chars enc s1))
                        else (XML_TOK_CDATA_SECT_CLOSE, Some s3)))
          else if BYTE_TYPE enc c = BT_CR then
            (case s1 of
               [] \<Rightarrow> (XML_TOK_PARTIAL, None)
             | d # s2 \<Rightarrow> (XML_TOK_DATA_NEWLINE, Some (if BYTE_TYPE enc d = BT_LF then s2 else s1)))
          else if BYTE_TYPE enc c = BT_LF then (XML_TOK_DATA_NEWLINE, Some s1)
          else
            (case invalid_cases enc s of
               Stop r \<Rightarrow> r
             | Move s' \<Rightarrow> (XML_TOK_DATA_CHARS, Some (cdata_chars enc s'))
             | Other \<Rightarrow> (XML_TOK_DATA_CHARS, Some (cdata_chars enc s1))))"

section \<open>End tags and references\<close>

fun endtag_spaces :: "encoding \<Rightarrow> cstr \<Rightarrow> scan" where
  "endtag_spaces enc [] = (XML_TOK_PARTIAL, None)"
| "endtag_spaces enc (c # s) =
     (if is_space enc c then endtag_spaces enc s
      else if BYTE_TYPE enc c = BT_GT then (XML_TOK_END_TAG, Some s)
      else (XML_TOK_INVALID, Some (c # s)))"

function endtag_name :: "encoding \<Rightarrow> cstr \<Rightarrow> scan" where
  "endtag_name enc [] = (XML_TOK_PARTIAL, None)"
| "endtag_name enc (c # s) =
     (case check_name_cases enc (c # s) of
        Stop r \<Rightarrow> r
      | Move s' \<Rightarrow> endtag_name enc s'
      | Other \<Rightarrow>
          if is_space enc c then endtag_spaces enc s
          else if BYTE_TYPE enc c = BT_COLON then endtag_name enc s
          else if BYTE_TYPE enc c = BT_GT then (XML_TOK_END_TAG, Some s)
          else (XML_TOK_INVALID, Some (c # s)))"
  by pat_completeness auto
termination
  by (relation "measure (\<lambda>(enc, s). length s)") (auto dest: steps_Move_Cons)

definition scanEndTag :: "encoding \<Rightarrow> cstr \<Rightarrow> scan" where
  "scanEndTag enc s =
     (case s of
        [] \<Rightarrow> (XML_TOK_PARTIAL, None)
      | c # s1 \<Rightarrow>
          (case check_nmstrt_cases enc s of
             Stop r \<Rightarrow> r
           | Move s' \<Rightarrow> endtag_name enc s'
           | Other \<Rightarrow> (XML_TOK_INVALID, Some s)))"

text \<open>The digits of a character reference, of the types given.\<close>

fun charref_digits :: "byte_type set \<Rightarrow> encoding \<Rightarrow> cstr \<Rightarrow> scan" where
  "charref_digits digits enc [] = (XML_TOK_PARTIAL, None)"
| "charref_digits digits enc (c # s) =
     (if BYTE_TYPE enc c \<in> digits then charref_digits digits enc s
      else if BYTE_TYPE enc c = BT_SEMI then (XML_TOK_CHAR_REF, Some s)
      else (XML_TOK_INVALID, Some (c # s)))"

definition scanHexCharRef :: "encoding \<Rightarrow> cstr \<Rightarrow> scan" where
  "scanHexCharRef enc s =
     (case s of
        [] \<Rightarrow> (XML_TOK_PARTIAL, None)
      | c # s1 \<Rightarrow>
          if BYTE_TYPE enc c \<in> {BT_DIGIT, BT_HEX} then charref_digits {BT_DIGIT, BT_HEX} enc s1
          else (XML_TOK_INVALID, Some s))"

definition scanCharRef :: "encoding \<Rightarrow> cstr \<Rightarrow> scan" where
  "scanCharRef enc s =
     (case s of
        [] \<Rightarrow> (XML_TOK_PARTIAL, None)
      | c # s1 \<Rightarrow>
          if c = CHR ''x'' then scanHexCharRef enc s1
          else if BYTE_TYPE enc c \<in> {BT_DIGIT} then charref_digits {BT_DIGIT} enc s1
          else (XML_TOK_INVALID, Some s))"

function name_semi :: "int \<Rightarrow> encoding \<Rightarrow> cstr \<Rightarrow> scan" where
  "name_semi tok enc [] = (XML_TOK_PARTIAL, None)"
| "name_semi tok enc (c # s) =
     (case check_name_cases enc (c # s) of
        Stop r \<Rightarrow> r
      | Move s' \<Rightarrow> name_semi tok enc s'
      | Other \<Rightarrow>
          if BYTE_TYPE enc c = BT_SEMI then (tok, Some s) else (XML_TOK_INVALID, Some (c # s)))"
  by pat_completeness auto
termination
  by (relation "measure (\<lambda>(tok, enc, s). length s)") (auto dest: steps_Move_Cons)

definition scanRef :: "encoding \<Rightarrow> cstr \<Rightarrow> scan" where
  "scanRef enc s =
     (case s of
        [] \<Rightarrow> (XML_TOK_PARTIAL, None)
      | c # s1 \<Rightarrow>
          (case check_nmstrt_cases enc s of
             Stop r \<Rightarrow> r
           | Move s' \<Rightarrow> name_semi XML_TOK_ENTITY_REF enc s'
           | Other \<Rightarrow>
               if BYTE_TYPE enc c = BT_NUM then scanCharRef enc s1
               else (XML_TOK_INVALID, Some s)))"

section \<open>Tags\<close>

text \<open>
  \<open>scanAtts\<close>: its loops are the modes of one recursion. \<open>InAttName had\<close> is the outer loop, with
  \<^verbatim>\<open>hadColon\<close>; \<open>BeforeEquals\<close> and \<open>AfterEquals\<close> pass the blanks around \<open>=\<close>; \<open>InAttValue t\<close> is the value
  up to a quote of type \<open>t\<close>; \<open>AfterValue\<close> is the character behind it and \<open>NextAtt\<close> the loop for the next name.
\<close>

datatype atts_mode = InAttName bool | BeforeEquals | AfterEquals | InAttValue byte_type | AfterValue | NextAtt

text \<open>The label \<^verbatim>\<open>sol\<close>, for both kinds of empty-element tags.\<close>

definition empty_tag :: "int \<Rightarrow> cstr \<Rightarrow> scan" where
  "empty_tag tok s =
     (case s of
        [] \<Rightarrow> (XML_TOK_PARTIAL, None)
      | c # s1 \<Rightarrow> if c \<noteq> CHR ''>'' then (XML_TOK_INVALID, Some s) else (tok, Some s1))"

text \<open>A scanner stores a pointer into what it was given; for \<open>scanRef\<close> this makes the loop end.\<close>

lemma charref_digits_le: "charref_digits ds enc s = (t, Some s') \<Longrightarrow> length s' \<le> length s"
  by (induction ds enc s rule: charref_digits.induct) (auto split: if_split_asm)

lemma name_semi_le: "name_semi tok enc s = (t, Some s') \<Longrightarrow> length s' \<le> length s"
proof (induction tok enc s rule: name_semi.induct)
  case (2 tok enc c s)
  show ?case
  proof (cases "check_name_cases enc (c # s)")
    case (Stop r)
    with 2 show ?thesis
      by (auto simp: check_name_cases_def lead_step_def Let_def split: if_split_asm)
  next
    case (Move x)
    with 2 steps_Move_Cons(2) [OF Move] show ?thesis by fastforce
  qed (use 2 in \<open>auto split: if_split_asm\<close>)
qed simp

lemma scanRef_le: "scanRef enc s = (t, Some s') \<Longrightarrow> length s' \<le> length s"
  by (auto simp: scanRef_def scanCharRef_def scanHexCharRef_def check_nmstrt_cases_def lead_step_def Let_def
      split: list.splits if_split_asm dest!: charref_digits_le name_semi_le)

function scan_atts :: "encoding \<Rightarrow> atts_mode \<Rightarrow> cstr \<Rightarrow> scan" where
  "scan_atts enc m [] = (XML_TOK_PARTIAL, None)"
| "scan_atts enc (InAttName had) (c # s) =
     (case check_name_cases enc (c # s) of
        Stop r \<Rightarrow> r
      | Move s' \<Rightarrow> scan_atts enc (InAttName had) s'
      | Other \<Rightarrow>
          if BYTE_TYPE enc c = BT_COLON then
            (if had then (XML_TOK_INVALID, Some (c # s))
             else if s = [] then (XML_TOK_PARTIAL, None)
             else
               (case check_nmstrt_cases enc s of
                  Stop r \<Rightarrow> r
                | Move s' \<Rightarrow> scan_atts enc (InAttName True) s'
                | Other \<Rightarrow> (XML_TOK_INVALID, Some s)))
          else if is_space enc c then scan_atts enc BeforeEquals s
          else if BYTE_TYPE enc c = BT_EQUALS then scan_atts enc AfterEquals s
          else (XML_TOK_INVALID, Some (c # s)))"
| "scan_atts enc BeforeEquals (c # s) =
     (if BYTE_TYPE enc c = BT_EQUALS then scan_atts enc AfterEquals s
      else if is_space enc c then scan_atts enc BeforeEquals s
      else (XML_TOK_INVALID, Some (c # s)))"
| "scan_atts enc AfterEquals (c # s) =
     (if BYTE_TYPE enc c \<in> {BT_QUOT, BT_APOS} then scan_atts enc (InAttValue (BYTE_TYPE enc c)) s
      else if is_space enc c then scan_atts enc AfterEquals s
      else (XML_TOK_INVALID, Some (c # s)))"
| "scan_atts enc (InAttValue opn) (c # s) =
     (if BYTE_TYPE enc c = opn then scan_atts enc AfterValue s
      else
        (case invalid_cases enc (c # s) of
           Stop r \<Rightarrow> r
         | Move s' \<Rightarrow> scan_atts enc (InAttValue opn) s'
         | Other \<Rightarrow>
             if BYTE_TYPE enc c = BT_AMP then
               (case scanRef enc s of
                  (tok, next) \<Rightarrow>
                    if tok \<le> 0 then (tok, if tok = XML_TOK_INVALID then next else None)
                    else (case next of None \<Rightarrow> (tok, None) | Some s' \<Rightarrow> scan_atts enc (InAttValue opn) s'))
             else if BYTE_TYPE enc c = BT_LT then (XML_TOK_INVALID, Some (c # s))
             else scan_atts enc (InAttValue opn) s))"
| "scan_atts enc AfterValue (c # s) =
     (if is_space enc c then scan_atts enc NextAtt s
      else if BYTE_TYPE enc c = BT_SOL then empty_tag XML_TOK_EMPTY_ELEMENT_WITH_ATTS s
      else if BYTE_TYPE enc c = BT_GT then (XML_TOK_START_TAG_WITH_ATTS, Some s)
      else (XML_TOK_INVALID, Some (c # s)))"
| "scan_atts enc NextAtt (c # s) =
     (case check_nmstrt_cases enc (c # s) of
        Stop r \<Rightarrow> r
      | Move s' \<Rightarrow> scan_atts enc (InAttName False) s'
      | Other \<Rightarrow>
          if is_space enc c then scan_atts enc NextAtt s
          else if BYTE_TYPE enc c = BT_GT then (XML_TOK_START_TAG_WITH_ATTS, Some s)
          else if BYTE_TYPE enc c = BT_SOL then empty_tag XML_TOK_EMPTY_ELEMENT_WITH_ATTS s
          else (XML_TOK_INVALID, Some (c # s)))"
  by pat_completeness auto
termination
  by (relation "measure (\<lambda>(enc, m, s). length s)")
    (auto dest: steps_Move_Cons steps_Move scanRef_le intro: le_imp_less_Suc dest!: sym [of "(_, _)"])

text \<open>\<open>scanLt\<close>: behind \<open><\<close>. The blanks before the first attribute, and the name of the element.\<close>

function lt_spaces :: "encoding \<Rightarrow> cstr \<Rightarrow> scan" where
  "lt_spaces enc [] = (XML_TOK_PARTIAL, None)"
| "lt_spaces enc (c # s) =
     (case check_nmstrt_cases enc (c # s) of
        Stop r \<Rightarrow> r
      | Move s' \<Rightarrow> scan_atts enc (InAttName False) s'
      | Other \<Rightarrow>
          if BYTE_TYPE enc c = BT_GT then (XML_TOK_START_TAG_NO_ATTS, Some s)
          else if BYTE_TYPE enc c = BT_SOL then empty_tag XML_TOK_EMPTY_ELEMENT_NO_ATTS s
          else if is_space enc c then lt_spaces enc s
          else (XML_TOK_INVALID, Some (c # s)))"
  by pat_completeness auto
termination
  by (relation "measure (\<lambda>(enc, s). length s)") auto

function lt_name :: "encoding \<Rightarrow> bool \<Rightarrow> cstr \<Rightarrow> scan" where
  "lt_name enc hadColon [] = (XML_TOK_PARTIAL, None)"
| "lt_name enc hadColon (c # s) =
     (case check_name_cases enc (c # s) of
        Stop r \<Rightarrow> r
      | Move s' \<Rightarrow> lt_name enc hadColon s'
      | Other \<Rightarrow>
          if BYTE_TYPE enc c = BT_COLON then
            (if hadColon then (XML_TOK_INVALID, Some (c # s))
             else if s = [] then (XML_TOK_PARTIAL, None)
             else
               (case check_nmstrt_cases enc s of
                  Stop r \<Rightarrow> r
                | Move s' \<Rightarrow> lt_name enc True s'
                | Other \<Rightarrow> (XML_TOK_INVALID, Some s)))
          else if is_space enc c then lt_spaces enc s
          else if BYTE_TYPE enc c = BT_GT then (XML_TOK_START_TAG_NO_ATTS, Some s)
          else if BYTE_TYPE enc c = BT_SOL then empty_tag XML_TOK_EMPTY_ELEMENT_NO_ATTS s
          else (XML_TOK_INVALID, Some (c # s)))"
  by pat_completeness auto
termination
  by (relation "measure (\<lambda>(enc, h, s). length s)") (auto dest: steps_Move_Cons steps_Move)

definition scanLt :: "encoding \<Rightarrow> cstr \<Rightarrow> scan" where
  "scanLt enc s =
     (case s of
        [] \<Rightarrow> (XML_TOK_PARTIAL, None)
      | c # s1 \<Rightarrow>
          (case check_nmstrt_cases enc s of
             Stop r \<Rightarrow> r
           | Move s' \<Rightarrow> lt_name enc False s'
           | Other \<Rightarrow>
               if BYTE_TYPE enc c = BT_EXCL then
                 (case s1 of
                    [] \<Rightarrow> (XML_TOK_PARTIAL, None)
                  | d # s2 \<Rightarrow>
                      if BYTE_TYPE enc d = BT_MINUS then scanComment enc s2
                      else if BYTE_TYPE enc d = BT_LSQB then scanCdataSection enc s2
                      else (XML_TOK_INVALID, Some s1))
               else if BYTE_TYPE enc c = BT_QUEST then scanPi enc s1
               else if BYTE_TYPE enc c = BT_SOL then scanEndTag enc s1
               else (XML_TOK_INVALID, Some s)))"

section \<open>Content\<close>

text \<open>The loop over further characters; \<open>]]>\<close> is not allowed, and may not be complete.\<close>

function content_chars :: "encoding \<Rightarrow> cstr \<Rightarrow> scan" where
  "content_chars enc s =
     (if s = [] then (XML_TOK_DATA_CHARS, Some s)
      else if BYTE_TYPE enc (hd s) = BT_RSQB then
        (case tl s of
           [] \<Rightarrow> (XML_TOK_DATA_CHARS, Some s)
         | d # s2 \<Rightarrow>
             if d \<noteq> CHR '']'' then content_chars enc (tl s)
             else
               (case s2 of
                  [] \<Rightarrow> (XML_TOK_DATA_CHARS, Some s)
                | e # s3 \<Rightarrow>
                    if e \<noteq> CHR ''>'' then content_chars enc (tl s) else (XML_TOK_INVALID, Some s2)))
      else if BYTE_TYPE enc (hd s) \<in> {BT_AMP, BT_LT} then (XML_TOK_DATA_CHARS, Some s)
      else (case data_step enc s of None \<Rightarrow> (XML_TOK_DATA_CHARS, Some s) | Some s' \<Rightarrow> content_chars enc s'))"
  by pat_completeness auto
termination
  by (relation "measure (\<lambda>(enc, s). length s)") (auto dest: data_step_less simp: neq_Nil_conv)

declare content_chars.simps [simp del]

definition contentTok :: "encoding \<Rightarrow> cstr \<Rightarrow> scan" where
  "contentTok enc s =
     (case s of
        [] \<Rightarrow> (XML_TOK_NONE, None)
      | c # s1 \<Rightarrow>
          if BYTE_TYPE enc c = BT_LT then scanLt enc s1
          else if BYTE_TYPE enc c = BT_AMP then scanRef enc s1
          else if BYTE_TYPE enc c = BT_CR then
            (case s1 of
               [] \<Rightarrow> (XML_TOK_TRAILING_CR, None)
             | d # s2 \<Rightarrow> (XML_TOK_DATA_NEWLINE, Some (if BYTE_TYPE enc d = BT_LF then s2 else s1)))
          else if BYTE_TYPE enc c = BT_LF then (XML_TOK_DATA_NEWLINE, Some s1)
          else if BYTE_TYPE enc c = BT_RSQB then
            (case s1 of
               [] \<Rightarrow> (XML_TOK_TRAILING_RSQB, None)
             | d # s2 \<Rightarrow>
                 if d \<noteq> CHR '']'' then content_chars enc s1
                 else
                   (case s2 of
                      [] \<Rightarrow> (XML_TOK_TRAILING_RSQB, None)
                    | e # s3 \<Rightarrow>
                        if e \<noteq> CHR ''>'' then content_chars enc s1 else (XML_TOK_INVALID, Some s2)))
          else
            (case invalid_cases enc s of
               Stop r \<Rightarrow> r
             | Move s' \<Rightarrow> content_chars enc s'
             | Other \<Rightarrow> content_chars enc s1))"

section \<open>The prolog\<close>

definition scanPercent :: "encoding \<Rightarrow> cstr \<Rightarrow> scan" where
  "scanPercent enc s =
     (case s of
        [] \<Rightarrow> (XML_TOK_PARTIAL, None)
      | c # s1 \<Rightarrow>
          (case check_nmstrt_cases enc s of
             Stop r \<Rightarrow> r
           | Move s' \<Rightarrow> name_semi XML_TOK_PARAM_ENTITY_REF enc s'
           | Other \<Rightarrow>
               if BYTE_TYPE enc c \<in> {BT_S, BT_LF, BT_CR, BT_PERCNT} then (XML_TOK_PERCENT, Some s)
               else (XML_TOK_INVALID, Some s)))"

function pound_name :: "encoding \<Rightarrow> cstr \<Rightarrow> scan" where
  "pound_name enc [] = (- XML_TOK_POUND_NAME, None)"
| "pound_name enc (c # s) =
     (case check_name_cases enc (c # s) of
        Stop r \<Rightarrow> r
      | Move s' \<Rightarrow> pound_name enc s'
      | Other \<Rightarrow>
          if is_space enc c \<or> BYTE_TYPE enc c \<in> {BT_RPAR, BT_GT, BT_PERCNT, BT_VERBAR}
          then (XML_TOK_POUND_NAME, Some (c # s))
          else (XML_TOK_INVALID, Some (c # s)))"
  by pat_completeness auto
termination
  by (relation "measure (\<lambda>(enc, s). length s)") (auto dest: steps_Move_Cons)

definition scanPoundName :: "encoding \<Rightarrow> cstr \<Rightarrow> scan" where
  "scanPoundName enc s =
     (case s of
        [] \<Rightarrow> (XML_TOK_PARTIAL, None)
      | c # s1 \<Rightarrow>
          (case check_nmstrt_cases enc s of
             Stop r \<Rightarrow> r
           | Move s' \<Rightarrow> pound_name enc s'
           | Other \<Rightarrow> (XML_TOK_INVALID, Some s)))"

function scanLit :: "byte_type \<Rightarrow> encoding \<Rightarrow> cstr \<Rightarrow> scan" where
  "scanLit opn enc [] = (XML_TOK_PARTIAL, None)"
| "scanLit opn enc (c # s) =
     (case invalid_cases enc (c # s) of
        Stop r \<Rightarrow> r
      | Move s' \<Rightarrow> scanLit opn enc s'
      | Other \<Rightarrow>
          if BYTE_TYPE enc c \<in> {BT_QUOT, BT_APOS} then
            (if BYTE_TYPE enc c \<noteq> opn then scanLit opn enc s
             else
               (case s of
                  [] \<Rightarrow> (- XML_TOK_LITERAL, None)
                | d # s1 \<Rightarrow>
                    if is_space enc d \<or> BYTE_TYPE enc d \<in> {BT_GT, BT_PERCNT, BT_LSQB}
                    then (XML_TOK_LITERAL, Some s) else (XML_TOK_INVALID, Some s)))
          else scanLit opn enc s)"
  by pat_completeness auto
termination
  by (relation "measure (\<lambda>(opn, enc, s). length s)") (auto dest: steps_Move_Cons)

text \<open>White space: a carriage return at the very end is left for a line feed that may follow.\<close>

fun prolog_space :: "encoding \<Rightarrow> cstr \<Rightarrow> scan" where
  "prolog_space enc [] = (XML_TOK_PROLOG_S, Some [])"
| "prolog_space enc (c # s) =
     (if BYTE_TYPE enc c \<in> {BT_S, BT_LF} \<or> (BYTE_TYPE enc c = BT_CR \<and> s \<noteq> []) then prolog_space enc s
      else (XML_TOK_PROLOG_S, Some (c # s)))"

text \<open>The loop over a name or name token that has started.\<close>

function prolog_name :: "encoding \<Rightarrow> int \<Rightarrow> cstr \<Rightarrow> scan" where
  "prolog_name enc tok [] = (- tok, None)"
| "prolog_name enc tok (c # s) =
     (case check_name_cases enc (c # s) of
        Stop r \<Rightarrow> r
      | Move s' \<Rightarrow> prolog_name enc tok s'
      | Other \<Rightarrow>
          if is_space enc c \<or> BYTE_TYPE enc c \<in> {BT_GT, BT_RPAR, BT_COMMA, BT_VERBAR, BT_LSQB, BT_PERCNT}
          then (tok, Some (c # s))
          else if BYTE_TYPE enc c = BT_COLON then
            (if tok = XML_TOK_NAME then
               (if s = [] then (XML_TOK_PARTIAL, None)
                else
                  (case check_name_cases enc s of
                     Stop r \<Rightarrow> r
                   | Move s' \<Rightarrow> prolog_name enc XML_TOK_PREFIXED_NAME s'
                   | Other \<Rightarrow> prolog_name enc XML_TOK_NMTOKEN s))
             else if tok = XML_TOK_PREFIXED_NAME then prolog_name enc XML_TOK_NMTOKEN s
             else prolog_name enc tok s)
          else if BYTE_TYPE enc c = BT_PLUS then
            (if tok = XML_TOK_NMTOKEN then (XML_TOK_INVALID, Some (c # s)) else (XML_TOK_NAME_PLUS, Some s))
          else if BYTE_TYPE enc c = BT_AST then
            (if tok = XML_TOK_NMTOKEN then (XML_TOK_INVALID, Some (c # s)) else (XML_TOK_NAME_ASTERISK, Some s))
          else if BYTE_TYPE enc c = BT_QUEST then
            (if tok = XML_TOK_NMTOKEN then (XML_TOK_INVALID, Some (c # s)) else (XML_TOK_NAME_QUESTION, Some s))
          else (XML_TOK_INVALID, Some (c # s)))"
  by pat_completeness auto
termination
  by (relation "measure (\<lambda>(enc, tok, s). length s)") (auto dest: steps_Move_Cons steps_Move)

definition prolog_lead :: "encoding \<Rightarrow> nat \<Rightarrow> cstr \<Rightarrow> scan" where
  "prolog_lead enc n s =
     (if length s < n then (XML_TOK_PARTIAL_CHAR, None)
      else if isNmstrt enc n (take n s) then prolog_name enc XML_TOK_NAME (drop n s)
      else if isName enc n (take n s) then prolog_name enc XML_TOK_NMTOKEN (drop n s)
      else (XML_TOK_INVALID, Some s))"

text \<open>The cases of \<open>prologTok\<close> with several branches: behind \<open><\<close> at \<open>s\<close>, behind \<open>]\<close> and behind \<open>)\<close>.\<close>

definition prolog_lt :: "encoding \<Rightarrow> cstr \<Rightarrow> scan" where
  "prolog_lt enc s =
     (case tl s of
        [] \<Rightarrow> (XML_TOK_PARTIAL, None)
      | d # s2 \<Rightarrow>
          if BYTE_TYPE enc d = BT_EXCL then scanDecl enc s2
          else if BYTE_TYPE enc d = BT_QUEST then scanPi enc s2
          else if BYTE_TYPE enc d \<in> {BT_NMSTRT, BT_HEX, BT_NONASCII, BT_LEAD2, BT_LEAD3, BT_LEAD4}
          then (XML_TOK_INSTANCE_START, Some s)
          else (XML_TOK_INVALID, Some (tl s)))"

definition prolog_rsqb :: "cstr \<Rightarrow> scan" where
  "prolog_rsqb s1 =
     (case s1 of
        [] \<Rightarrow> (- XML_TOK_CLOSE_BRACKET, None)
      | d # s2 \<Rightarrow>
          if d = CHR '']'' then
            (case s2 of
               [] \<Rightarrow> (XML_TOK_PARTIAL, None)
             | e # s3 \<Rightarrow>
                 if e = CHR ''>'' then (XML_TOK_COND_SECT_CLOSE, Some s3)
                 else (XML_TOK_CLOSE_BRACKET, Some s1))
          else (XML_TOK_CLOSE_BRACKET, Some s1))"

definition prolog_rpar :: "encoding \<Rightarrow> cstr \<Rightarrow> scan" where
  "prolog_rpar enc s1 =
     (case s1 of
        [] \<Rightarrow> (- XML_TOK_CLOSE_PAREN, None)
      | d # s2 \<Rightarrow>
          if BYTE_TYPE enc d = BT_AST then (XML_TOK_CLOSE_PAREN_ASTERISK, Some s2)
          else if BYTE_TYPE enc d = BT_QUEST then (XML_TOK_CLOSE_PAREN_QUESTION, Some s2)
          else if BYTE_TYPE enc d = BT_PLUS then (XML_TOK_CLOSE_PAREN_PLUS, Some s2)
          else if is_space enc d \<or> BYTE_TYPE enc d \<in> {BT_GT, BT_COMMA, BT_VERBAR, BT_RPAR}
          then (XML_TOK_CLOSE_PAREN, Some s1)
          else (XML_TOK_INVALID, Some s1))"

definition prologTok :: "encoding \<Rightarrow> cstr \<Rightarrow> scan" where
  "prologTok enc s =
     (case s of
        [] \<Rightarrow> (XML_TOK_NONE, None)
      | c # s1 \<Rightarrow>
          (let t = BYTE_TYPE enc c in
           if t = BT_QUOT then scanLit BT_QUOT enc s1
           else if t = BT_APOS then scanLit BT_APOS enc s1
           else if t = BT_LT then prolog_lt enc s
           else if t = BT_CR \<and> s1 = [] then (- XML_TOK_PROLOG_S, Some s1)
           else if t \<in> {BT_CR, BT_S, BT_LF} then prolog_space enc s1
           else if t = BT_PERCNT then scanPercent enc s1
           else if t = BT_COMMA then (XML_TOK_COMMA, Some s1)
           else if t = BT_LSQB then (XML_TOK_OPEN_BRACKET, Some s1)
           else if t = BT_RSQB then prolog_rsqb s1
           else if t = BT_LPAR then (XML_TOK_OPEN_PAREN, Some s1)
           else if t = BT_RPAR then prolog_rpar enc s1
           else if t = BT_VERBAR then (XML_TOK_OR, Some s1)
           else if t = BT_GT then (XML_TOK_DECL_CLOSE, Some s1)
           else if t = BT_NUM then scanPoundName enc s1
           else if t = BT_LEAD2 then prolog_lead enc 2 s
           else if t = BT_LEAD3 then prolog_lead enc 3 s
           else if t = BT_LEAD4 then prolog_lead enc 4 s
           else if t \<in> {BT_NMSTRT, BT_HEX} then prolog_name enc XML_TOK_NAME s1
           else if t \<in> {BT_DIGIT, BT_NAME, BT_MINUS, BT_COLON} then prolog_name enc XML_TOK_NMTOKEN s1
           else (XML_TOK_INVALID, Some s)))"

end
