(* ===== verification/XmlScan.thy ===== *)
theory XmlScan
  imports XmlTok "HOL-Library.Sublist"
begin

text \<open>
  The scanners of the XML parser, for any encoding: which tokens each can give, that the pointer it
  stores is inside its text, and that it reads a text from left to right: once it has decided,
  nothing that follows the text changes the token. This is what lets the parser scan a document
  buffer by buffer.
\<close>

section \<open>Tokens and pointers\<close>

definition reach :: "int set \<Rightarrow> cstr \<Rightarrow> scan \<Rightarrow> bool" where
  "reach T s r \<longleftrightarrow>
     fst r \<in> T \<union> {XML_TOK_INVALID, XML_TOK_PARTIAL, XML_TOK_PARTIAL_CHAR}
     \<and> (snd r = None \<longleftrightarrow> fst r < 0) \<and> (\<forall>p. snd r = Some p \<longrightarrow> suffix p s)"

lemma reach_pair [simp]:
  "reach T s (t, None) \<longleftrightarrow>
     t < 0 \<and> t \<in> T \<union> {XML_TOK_INVALID, XML_TOK_PARTIAL, XML_TOK_PARTIAL_CHAR}"
  "reach T s (t, Some p) \<longleftrightarrow>
     0 \<le> t \<and> t \<in> T \<union> {XML_TOK_INVALID, XML_TOK_PARTIAL, XML_TOK_PARTIAL_CHAR} \<and> suffix p s"
  by (auto simp: reach_def)

lemma reach_mono: "reach T s' r \<Longrightarrow> suffix s' s \<Longrightarrow> T \<subseteq> T' \<Longrightarrow> reach T' s r"
  by (auto simp: reach_def dest: suffix_order.trans)

lemma reach_drop: "reach T (drop n s) r \<Longrightarrow> reach T s r"
  by (erule reach_mono) (auto intro: suffix_drop)

lemma reach_Cons: "reach T s r \<Longrightarrow> reach T (c # s) r"
  by (erule reach_mono) (auto intro: suffix_ConsI)

lemma reach_Cons_mono: "reach T s r \<Longrightarrow> T \<subseteq> T' \<Longrightarrow> reach T' (c # s) r"
  by (blast intro: reach_Cons reach_mono suffix_order.refl)

lemma reach_widen: "reach T s r \<Longrightarrow> T \<subseteq> T' \<Longrightarrow> reach T' s r"
  by (blast intro: reach_mono suffix_order.refl)

lemma steps_suffix:
  "invalid_cases enc s = Move s' \<Longrightarrow> suffix s' s"
  "check_name_cases enc s = Move s' \<Longrightarrow> suffix s' s"
  "check_nmstrt_cases enc s = Move s' \<Longrightarrow> suffix s' s"
  by (auto simp: invalid_cases_def check_name_cases_def check_nmstrt_cases_def lead_step_def Let_def
      intro: suffix_drop suffix_tl split: if_split_asm)

lemma steps_Stop:
  "invalid_cases enc s = Stop r \<Longrightarrow> reach T s r"
  "check_name_cases enc s = Stop r \<Longrightarrow> reach T s r"
  "check_nmstrt_cases enc s = Stop r \<Longrightarrow> reach T s r"
  by (auto simp: invalid_cases_def check_name_cases_def check_nmstrt_cases_def lead_step_def Let_def
      split: if_split_asm)

lemma reach_step:
  "invalid_cases enc s = Move s' \<Longrightarrow> reach T s' r \<Longrightarrow> reach T s r"
  "check_name_cases enc s = Move s' \<Longrightarrow> reach T s' r \<Longrightarrow> reach T s r"
  "check_nmstrt_cases enc s = Move s' \<Longrightarrow> reach T s' r \<Longrightarrow> reach T s r"
  by (blast intro: reach_mono steps_suffix)+

lemma reach_case:
  assumes "st = invalid_cases enc s \<or> st = check_name_cases enc s \<or> st = check_nmstrt_cases enc s"
    and "\<And>s'. st = Move s' \<Longrightarrow> reach T s' (g s')" and "st = Other \<Longrightarrow> reach T s h"
  shows "reach T s (case st of Stop r \<Rightarrow> r | Move s' \<Rightarrow> g s' | Other \<Rightarrow> h)"
proof (cases st)
  case (Stop r)
  with assms(1) steps_Stop [of enc s r T] show ?thesis by auto
next
  case (Move s')
  with assms(1,2) reach_step show ?thesis by simp metis
qed (use assms(3) in simp)

lemmas reach_cases = reach_case [OF disjI1 [OF refl]] reach_case [OF disjI2 [OF disjI1 [OF refl]]]
  reach_case [OF disjI2 [OF disjI2 [OF refl]]]

lemma reach_if: "(P \<Longrightarrow> reach T s a) \<Longrightarrow> (\<not> P \<Longrightarrow> reach T s b) \<Longrightarrow> reach T s (if P then a else b)"
  by simp

lemma reach_list:
  "(s1 = [] \<Longrightarrow> reach T s a) \<Longrightarrow> (\<And>d s2. s1 = d # s2 \<Longrightarrow> reach T s (b d s2))
     \<Longrightarrow> reach T s (case s1 of [] \<Rightarrow> a | d # s2 \<Rightarrow> b d s2)"
  by (cases s1) auto

lemmas reach_intros = reach_cases reach_if reach_list

lemma reach_comment: "reach {XML_TOK_COMMENT} s (comment_loop enc s)"
  by (induction enc s rule: comment_loop.induct)
    (auto simp: suffix_Cons intro!: reach_intros intro: reach_Cons)

lemma reach_scanComment: "reach {XML_TOK_COMMENT} s (scanComment enc s)"
  unfolding scanComment_def
  by (auto simp: suffix_Cons intro!: reach_intros intro: reach_Cons reach_comment)

lemma reach_decl_loop: "reach {XML_TOK_DECL_OPEN} s (decl_loop enc s)"
  by (induction enc s rule: decl_loop.induct)
    (auto simp: suffix_Cons intro!: reach_intros intro: reach_Cons)

lemma reach_scanDecl: "reach {XML_TOK_DECL_OPEN, XML_TOK_COND_SECT_OPEN, XML_TOK_COMMENT} s (scanDecl enc s)"
  unfolding scanDecl_def
  by (auto simp: suffix_Cons intro!: reach_intros intro: reach_Cons reach_Cons_mono [OF reach_decl_loop] reach_Cons_mono [OF reach_scanComment])

lemma reach_pi_body: "0 < tok \<Longrightarrow> reach {tok} s (pi_body enc tok s)"
  by (induction enc tok s rule: pi_body.induct)
    (auto simp: suffix_Cons intro!: reach_intros intro: reach_Cons)

lemma reach_pi_bodies:
  "reach {XML_TOK_PI, XML_TOK_XML_DECL} (c # s) (pi_body enc XML_TOK_PI s)"
  "reach {XML_TOK_PI, XML_TOK_XML_DECL} (c # s) (pi_body enc XML_TOK_XML_DECL s)"
  by (rule reach_Cons_mono [OF reach_pi_body]; simp)+

lemma checkPiTarget_tok: "checkPiTarget p = (ok, tok) \<Longrightarrow> tok \<in> {XML_TOK_PI, XML_TOK_XML_DECL}"
  by (auto simp: checkPiTarget_def split: list.split_asm if_split_asm)

lemma reach_pi_name: "reach {XML_TOK_PI, XML_TOK_XML_DECL} s (pi_name enc target s)"
  by (induction enc target s rule: pi_name.induct)
    (auto simp: suffix_Cons Let_def split: prod.split dest!: checkPiTarget_tok
      intro!: reach_intros intro: reach_Cons reach_pi_bodies)

lemma reach_scanPi: "reach {XML_TOK_PI, XML_TOK_XML_DECL} s (scanPi enc s)"
  unfolding scanPi_def
  by (auto simp: suffix_Cons intro!: reach_intros intro: reach_Cons reach_pi_name)

lemma reach_cdata_lsqb: "reach {XML_TOK_CDATA_SECT_OPEN} s (cdata_lsqb ks s)"
  by (induction ks s rule: cdata_lsqb.induct)
    (auto simp: suffix_Cons intro!: reach_intros intro: reach_Cons)

lemma reach_scanCdataSection: "reach {XML_TOK_CDATA_SECT_OPEN} s (scanCdataSection enc s)"
  unfolding scanCdataSection_def
  by (auto simp: suffix_Cons intro!: reach_intros intro: reach_Cons reach_cdata_lsqb)

lemma reach_endtag_spaces: "reach {XML_TOK_END_TAG} s (endtag_spaces enc s)"
  by (induction enc s rule: endtag_spaces.induct)
    (auto simp: suffix_Cons intro!: reach_intros intro: reach_Cons)

lemma reach_endtag_name: "reach {XML_TOK_END_TAG} s (endtag_name enc s)"
  by (induction enc s rule: endtag_name.induct)
    (auto simp: suffix_Cons intro!: reach_intros intro: reach_Cons reach_endtag_spaces)

lemma reach_scanEndTag: "reach {XML_TOK_END_TAG} s (scanEndTag enc s)"
  unfolding scanEndTag_def
  by (auto simp: suffix_Cons intro!: reach_intros intro: reach_Cons reach_endtag_name)

lemma reach_charref_digits: "reach {XML_TOK_CHAR_REF} s (charref_digits ds enc s)"
  by (induction ds enc s rule: charref_digits.induct)
    (auto simp: suffix_Cons intro!: reach_intros intro: reach_Cons)

lemma reach_scanHexCharRef: "reach {XML_TOK_CHAR_REF} s (scanHexCharRef enc s)"
  unfolding scanHexCharRef_def
  by (auto simp: suffix_Cons intro!: reach_intros intro: reach_Cons reach_charref_digits)

lemma reach_scanCharRef: "reach {XML_TOK_CHAR_REF} s (scanCharRef enc s)"
  unfolding scanCharRef_def
  by (auto simp: suffix_Cons intro!: reach_intros intro: reach_Cons reach_charref_digits reach_scanHexCharRef)

lemma reach_name_semi: "0 < tok \<Longrightarrow> reach {tok} s (name_semi tok enc s)"
  by (induction tok enc s rule: name_semi.induct)
    (auto simp: suffix_Cons intro!: reach_intros intro: reach_Cons)

lemma reach_scanRef: "reach {XML_TOK_ENTITY_REF, XML_TOK_CHAR_REF} s (scanRef enc s)"
  unfolding scanRef_def
  by (auto simp: suffix_Cons intro!: reach_intros intro: reach_Cons reach_widen [OF reach_name_semi] reach_Cons_mono [OF reach_scanCharRef])

lemma reach_empty_tag: "0 < tok \<Longrightarrow> reach {tok} s (empty_tag tok s)"
  unfolding empty_tag_def by (auto simp: suffix_Cons intro!: reach_intros)

lemma reach_empty_tags:
  "reach {XML_TOK_START_TAG_WITH_ATTS, XML_TOK_EMPTY_ELEMENT_WITH_ATTS} (c # s)
     (empty_tag XML_TOK_EMPTY_ELEMENT_WITH_ATTS s)"
  "reach {XML_TOK_START_TAG_WITH_ATTS, XML_TOK_EMPTY_ELEMENT_WITH_ATTS,
     XML_TOK_START_TAG_NO_ATTS, XML_TOK_EMPTY_ELEMENT_NO_ATTS} (c # s)
     (empty_tag XML_TOK_EMPTY_ELEMENT_NO_ATTS s)"
  by (rule reach_Cons_mono [OF reach_empty_tag]; simp)+

lemma reach_scan_atts:
  "reach {XML_TOK_START_TAG_WITH_ATTS, XML_TOK_EMPTY_ELEMENT_WITH_ATTS} s (scan_atts enc m s)"
proof (induction enc m s rule: scan_atts.induct)
  case (5 enc opn c s)
  have "reach {XML_TOK_START_TAG_WITH_ATTS, XML_TOK_EMPTY_ELEMENT_WITH_ATTS} (c # s)
    (case scanRef enc s of (tok, next) \<Rightarrow>
       if tok \<le> 0 then (tok, if tok = XML_TOK_INVALID then next else None)
       else (case next of None \<Rightarrow> (tok, None) | Some s' \<Rightarrow> scan_atts enc (InAttValue opn) s'))"
    if "BYTE_TYPE enc c = BT_AMP" "BYTE_TYPE enc c \<noteq> opn" "invalid_cases enc (c # s) = Other"
  proof -
    obtain tok nxt where r: "scanRef enc s = (tok, nxt)" by fastforce
    have k: "reach {XML_TOK_ENTITY_REF, XML_TOK_CHAR_REF} s (tok, nxt)"
      unfolding r [symmetric] by (rule reach_scanRef)
    show ?thesis
    proof (cases "tok \<le> 0")
      case True
      with k show ?thesis unfolding r by (auto simp: reach_def suffix_Cons)
    next
      case False
      with k obtain s' where s': "nxt = Some s'" "suffix s' s" by (auto simp: reach_def)
      have "reach {XML_TOK_START_TAG_WITH_ATTS, XML_TOK_EMPTY_ELEMENT_WITH_ATTS} s'
          (scan_atts enc (InAttValue opn) s')"
        using 5(3) that r False s'(1) by simp
      then show ?thesis unfolding r using False s' by (auto intro: reach_mono suffix_ConsI)
    qed
  qed
  with 5 show ?case
    by (auto simp del: split_paired_All simp: suffix_Cons intro!: reach_intros intro: reach_Cons)
qed (auto simp: suffix_Cons intro!: reach_intros intro: reach_Cons reach_empty_tags)

abbreviation start_tokens :: "int set" where
  "start_tokens \<equiv> {XML_TOK_START_TAG_WITH_ATTS, XML_TOK_EMPTY_ELEMENT_WITH_ATTS,
     XML_TOK_START_TAG_NO_ATTS, XML_TOK_EMPTY_ELEMENT_NO_ATTS}"

lemma reach_lt_atts: "reach start_tokens s (scan_atts enc m s)"
  by (rule reach_widen [OF reach_scan_atts]) auto

lemma reach_lt_spaces: "reach start_tokens s (lt_spaces enc s)"
  by (induction enc s rule: lt_spaces.induct)
    (auto simp: suffix_Cons intro!: reach_intros intro: reach_Cons reach_lt_atts reach_empty_tags)

lemma reach_lt_name: "reach start_tokens s (lt_name enc had s)"
  by (induction enc had s rule: lt_name.induct)
    (auto simp: suffix_Cons intro!: reach_intros
      intro: reach_Cons reach_lt_spaces reach_empty_tags reach_Cons [OF reach_cases(3)])

definition markup_tokens :: "int set" where
  "markup_tokens = start_tokens \<union> {XML_TOK_END_TAG, XML_TOK_COMMENT, XML_TOK_PI, XML_TOK_XML_DECL,
     XML_TOK_CDATA_SECT_OPEN}"

lemma reach_scanLt: "reach markup_tokens s (scanLt enc s)"
proof -
  have 1: "reach markup_tokens t (lt_name enc False t)" for t
    by (rule reach_widen [OF reach_lt_name]) (auto simp: markup_tokens_def)
  have 2: "reach markup_tokens (c # d # t) (scanComment enc t)"
    "reach markup_tokens (c # d # t) (scanCdataSection enc t)" for c d t
    by (rule reach_Cons, rule reach_Cons_mono, rule reach_scanComment reach_scanCdataSection,
        auto simp: markup_tokens_def)+
  have 3: "reach markup_tokens (c # t) (scanPi enc t)" "reach markup_tokens (c # t) (scanEndTag enc t)" for c t
    by (rule reach_Cons_mono, rule reach_scanPi reach_scanEndTag, auto simp: markup_tokens_def)+
  show ?thesis unfolding scanLt_def
    by (auto simp: suffix_Cons intro!: reach_intros intro: reach_Cons 1 2 3)
qed

lemma data_step_suffix: "data_step enc s = Some s' \<Longrightarrow> suffix s' s"
  by (auto simp: data_step_def data_lead_def Let_def intro: suffix_drop suffix_tl split: if_split_asm)

lemma reach_content_chars: "reach {XML_TOK_DATA_CHARS} s (content_chars enc s)"
proof (induction enc s rule: content_chars.induct)
  case (1 enc s)
  have 2: "reach {XML_TOK_DATA_CHARS} s (content_chars enc (tl s))"
    if "reach {XML_TOK_DATA_CHARS} (tl s) (content_chars enc (tl s))"
    using that by (rule reach_mono) (auto intro: suffix_tl)
  show ?case
    using 1 by (subst content_chars.simps)
      (auto simp: suffix_Cons neq_Nil_conv intro!: reach_if reach_list
        intro: 2 reach_Cons reach_mono data_step_suffix
        split: option.split)
qed

definition content_tokens :: "int set" where
  "content_tokens = markup_tokens \<union> {XML_TOK_ENTITY_REF, XML_TOK_CHAR_REF, XML_TOK_DATA_CHARS,
     XML_TOK_DATA_NEWLINE, XML_TOK_NONE, XML_TOK_TRAILING_CR, XML_TOK_TRAILING_RSQB}"

lemma reach_contentTok: "reach content_tokens s (contentTok enc s)"
proof -
  have 1: "reach content_tokens (c # t) (scanLt enc t)" "reach content_tokens (c # t) (scanRef enc t)"
    "reach content_tokens (c # t) (content_chars enc t)" "reach content_tokens t (content_chars enc t)" for c t
    by (rule reach_Cons_mono reach_widen, rule reach_scanLt reach_scanRef reach_content_chars,
        auto simp: content_tokens_def)+
  have 2: "x \<in> content_tokens" if "x \<in> {XML_TOK_DATA_CHARS, XML_TOK_DATA_NEWLINE, XML_TOK_NONE,
     XML_TOK_TRAILING_CR, XML_TOK_TRAILING_RSQB}" for x
    using that by (auto simp: content_tokens_def)
  show ?thesis unfolding contentTok_def
    by (auto simp: suffix_Cons 2 intro!: reach_intros intro: 1)
qed

section \<open>The prolog\<close>

definition prolog_tokens :: "int set" where
  "prolog_tokens = {XML_TOK_LITERAL, - XML_TOK_LITERAL, XML_TOK_DECL_OPEN, XML_TOK_COND_SECT_OPEN, XML_TOK_COMMENT,
     XML_TOK_PI, XML_TOK_XML_DECL, XML_TOK_INSTANCE_START, XML_TOK_PROLOG_S, XML_TOK_PERCENT,
     XML_TOK_PARAM_ENTITY_REF, XML_TOK_COMMA, XML_TOK_OPEN_BRACKET, XML_TOK_CLOSE_BRACKET,
     - XML_TOK_CLOSE_BRACKET, XML_TOK_COND_SECT_CLOSE, XML_TOK_OPEN_PAREN, XML_TOK_CLOSE_PAREN,
     - XML_TOK_CLOSE_PAREN, XML_TOK_CLOSE_PAREN_ASTERISK, XML_TOK_CLOSE_PAREN_QUESTION,
     XML_TOK_CLOSE_PAREN_PLUS, XML_TOK_OR, XML_TOK_DECL_CLOSE, XML_TOK_POUND_NAME, - XML_TOK_POUND_NAME,
     XML_TOK_NAME, - XML_TOK_NAME, XML_TOK_NMTOKEN, - XML_TOK_NMTOKEN, XML_TOK_PREFIXED_NAME,
     - XML_TOK_PREFIXED_NAME, XML_TOK_NAME_PLUS, XML_TOK_NAME_ASTERISK, XML_TOK_NAME_QUESTION, XML_TOK_NONE}"

lemma reach_scanPercent: "reach {XML_TOK_PARAM_ENTITY_REF, XML_TOK_PERCENT} s (scanPercent enc s)"
  unfolding scanPercent_def
  by (auto simp: suffix_Cons intro!: reach_intros intro: reach_widen [OF reach_name_semi])

lemma reach_pound_name: "reach {XML_TOK_POUND_NAME, - XML_TOK_POUND_NAME} s (pound_name enc s)"
  by (induction enc s rule: pound_name.induct) (auto simp: suffix_Cons intro!: reach_intros)

lemma reach_scanPoundName: "reach {XML_TOK_POUND_NAME, - XML_TOK_POUND_NAME} s (scanPoundName enc s)"
  unfolding scanPoundName_def
  by (auto simp: suffix_Cons intro!: reach_intros intro: reach_pound_name)

lemma reach_scanLit: "reach {XML_TOK_LITERAL, - XML_TOK_LITERAL} s (scanLit opn enc s)"
  by (induction opn enc s rule: scanLit.induct)
    (auto simp: suffix_Cons intro!: reach_intros intro: reach_Cons)

lemma reach_prolog_space: "reach {XML_TOK_PROLOG_S} s (prolog_space enc s)"
  by (induction enc s rule: prolog_space.induct) (auto simp: suffix_Cons intro!: reach_if intro: reach_Cons)

definition name_tokens :: "int set" where
  "name_tokens = {XML_TOK_NAME, - XML_TOK_NAME, XML_TOK_NMTOKEN, - XML_TOK_NMTOKEN, XML_TOK_PREFIXED_NAME,
     - XML_TOK_PREFIXED_NAME, XML_TOK_NAME_PLUS, XML_TOK_NAME_ASTERISK, XML_TOK_NAME_QUESTION}"

lemma reach_prolog_name:
  "tok \<in> {XML_TOK_NAME, XML_TOK_NMTOKEN, XML_TOK_PREFIXED_NAME} \<Longrightarrow> reach name_tokens s (prolog_name enc tok s)"
proof (induction enc tok s rule: prolog_name.induct)
  case (2 enc tok c s)
  note IH = 2(1-5) and tok = 2(6)
  have t: "tok \<in> name_tokens" "0 \<le> tok" "XML_TOK_NAME_PLUS \<in> name_tokens" "XML_TOK_NAME_ASTERISK \<in> name_tokens"
    "XML_TOK_NAME_QUESTION \<in> name_tokens" using tok by (auto simp: name_tokens_def)
  have inner: "reach name_tokens (c # s) (case check_name_cases enc s of Stop r \<Rightarrow> r
      | Move x \<Rightarrow> prolog_name enc XML_TOK_PREFIXED_NAME x | Other \<Rightarrow> prolog_name enc XML_TOK_NMTOKEN s)"
    if "\<And>x. check_name_cases enc s = Move x \<Longrightarrow> reach name_tokens x (prolog_name enc XML_TOK_PREFIXED_NAME x)"
      "check_name_cases enc s = Other \<Longrightarrow> reach name_tokens s (prolog_name enc XML_TOK_NMTOKEN s)"
    by (rule reach_Cons, rule reach_cases(2)) (use that in simp_all)
  show ?case
    unfolding prolog_name.simps
    apply (intro reach_cases(2) reach_if)
    apply (simp_all add: t suffix_Cons)
    apply (use IH in \<open>simp_all add: tok t\<close>)
    subgoal using tok by simp
    subgoal by (rule inner)
    subgoal by (rule reach_Cons)
    subgoal using tok by (auto intro: reach_Cons)
    done
qed (auto simp: name_tokens_def)

lemma reach_prolog_lead: "0 < n \<Longrightarrow> reach name_tokens s (prolog_lead enc n s)"
  unfolding prolog_lead_def
  by (auto intro!: reach_if intro: reach_drop reach_prolog_name simp: suffix_Cons)

lemma reach_prolog_lt:
  "reach {XML_TOK_DECL_OPEN, XML_TOK_COND_SECT_OPEN, XML_TOK_COMMENT, XML_TOK_PI, XML_TOK_XML_DECL,
     XML_TOK_INSTANCE_START} s (prolog_lt enc s)"
proof (cases s)
  case (Cons c s1)
  have 1: "reach {XML_TOK_DECL_OPEN, XML_TOK_COND_SECT_OPEN, XML_TOK_COMMENT, XML_TOK_PI, XML_TOK_XML_DECL,
     XML_TOK_INSTANCE_START} (c # d # t) (scanDecl enc t)"
    "reach {XML_TOK_DECL_OPEN, XML_TOK_COND_SECT_OPEN, XML_TOK_COMMENT, XML_TOK_PI, XML_TOK_XML_DECL,
     XML_TOK_INSTANCE_START} (c # d # t) (scanPi enc t)" for d t
    by (rule reach_Cons, rule reach_Cons_mono, rule reach_scanDecl reach_scanPi, auto)+
  show ?thesis unfolding Cons prolog_lt_def
    by (auto simp: suffix_Cons intro!: reach_if reach_list intro: 1)
qed (simp add: prolog_lt_def)

text \<open>The only scan that stores a pointer with a negative token is that of a carriage return at the end.\<close>

lemma reach_prologTok:
  assumes "\<not> (length s = 1 \<and> BYTE_TYPE enc (hd s) = BT_CR)"
  shows "reach prolog_tokens s (prologTok enc s)"
proof (cases s)
  case Nil
  then show ?thesis by (simp add: prologTok_def prolog_tokens_def)
next
  case (Cons c s1)
  have T: "T \<subseteq> prolog_tokens" if "T \<in> {{XML_TOK_LITERAL, - XML_TOK_LITERAL}, {XML_TOK_PROLOG_S}, name_tokens,
      {XML_TOK_POUND_NAME, - XML_TOK_POUND_NAME}, {XML_TOK_PARAM_ENTITY_REF, XML_TOK_PERCENT},
      {XML_TOK_DECL_OPEN, XML_TOK_COND_SECT_OPEN, XML_TOK_COMMENT, XML_TOK_PI, XML_TOK_XML_DECL,
        XML_TOK_INSTANCE_START}}" for T
    using that by (auto simp: prolog_tokens_def name_tokens_def)
  have 1: "reach prolog_tokens (c # s1) (scanLit q enc s1)" "reach prolog_tokens (c # s1) (prolog_space enc s1)"
    "reach prolog_tokens (c # s1) (scanPercent enc s1)" "reach prolog_tokens (c # s1) (scanPoundName enc s1)" for q
    by (rule reach_Cons_mono, rule reach_scanLit reach_prolog_space reach_scanPercent reach_scanPoundName,
        rule T, simp)+
  have 2: "reach prolog_tokens (c # s1) (prolog_name enc XML_TOK_NAME s1)"
    "reach prolog_tokens (c # s1) (prolog_name enc XML_TOK_NMTOKEN s1)"
    by (rule reach_Cons_mono, rule reach_prolog_name, simp, rule T, simp)+
  have 3: "reach prolog_tokens (c # s1) (prolog_lead enc n (c # s1))" if "0 < n" for n
    by (rule reach_widen, rule reach_prolog_lead [OF that], rule T) simp
  have 4: "reach prolog_tokens (c # s1) (prolog_lt enc (c # s1))"
    by (rule reach_widen, rule reach_prolog_lt, rule T) simp
  have 5: "reach prolog_tokens (c # s1) (prolog_rsqb s1)" "reach prolog_tokens (c # s1) (prolog_rpar enc s1)"
    unfolding prolog_rsqb_def prolog_rpar_def
    by (auto simp: suffix_Cons prolog_tokens_def intro!: reach_if reach_list)
  have 6: "t \<in> prolog_tokens" if "t \<in> {XML_TOK_COMMA, XML_TOK_OPEN_BRACKET, XML_TOK_OPEN_PAREN, XML_TOK_OR,
      XML_TOK_DECL_CLOSE}" for t
    using that by (auto simp: prolog_tokens_def)
  show ?thesis using assms unfolding Cons prologTok_def Let_def list.case
    by (intro reach_if 1 2 3 4 5) (simp_all add: suffix_Cons 6)
qed

section \<open>Reading from left to right\<close>

definition keeps :: "cstr \<Rightarrow> scan \<Rightarrow> scan \<Rightarrow> bool" where
  "keeps u r r' \<longleftrightarrow> (\<forall>p. snd r = Some p \<longrightarrow> r' = (fst r, Some (p @ u)))"

lemma keeps_pair [simp]:
  "keeps u (t, None) r'"
  "keeps u (t, Some p) (t', Some p') \<longleftrightarrow> t' = t \<and> p' = p @ u"
  by (auto simp: keeps_def)

lemma lead_step_append:
  "lead_step bad n s = Move s' \<Longrightarrow> lead_step bad n (s @ u) = Move (s' @ u)"
  "lead_step bad n s = Stop (t, Some p) \<Longrightarrow> lead_step bad n (s @ u) = Stop (t, Some (p @ u))"
  "lead_step bad n s \<noteq> Other"
  by (auto simp: lead_step_def split: if_split_asm)

lemma steps_append:
  assumes "s \<noteq> []" "f \<in> {invalid_cases enc, check_name_cases enc, check_nmstrt_cases enc}"
  shows "f s = Move s' \<Longrightarrow> f (s @ u) = Move (s' @ u)"
    "f s = Stop (t, Some p) \<Longrightarrow> f (s @ u) = Stop (t, Some (p @ u))"
    "f s = Other \<Longrightarrow> f (s @ u) = Other"
  using assms lead_step_append
  by (auto simp: invalid_cases_def check_name_cases_def check_nmstrt_cases_def Let_def split: if_split_asm)

lemma keeps_case:
  assumes "s \<noteq> []" "f \<in> {invalid_cases enc, check_name_cases enc, check_nmstrt_cases enc}"
    and "\<And>s'. f s = Move s' \<Longrightarrow> keeps u (g s') (g' (s' @ u))" and "f s = Other \<Longrightarrow> keeps u h h'"
  shows "keeps u (case f s of Stop r \<Rightarrow> r | Move s' \<Rightarrow> g s' | Other \<Rightarrow> h)
    (case f (s @ u) of Stop r \<Rightarrow> r | Move s' \<Rightarrow> g' s' | Other \<Rightarrow> h')"
proof (cases "f s")
  case (Stop r)
  obtain t p where r: "r = (t, p)" by (cases r)
  show ?thesis
  proof (cases p)
    case None
    then show ?thesis by (simp add: Stop r)
  next
    case (Some q)
    then show ?thesis using steps_append(2) [OF assms(1,2)] Stop r by simp
  qed
next
  case (Move s')
  then show ?thesis using steps_append(1) [OF assms(1,2) Move] assms(3) by simp
next
  case Other
  then show ?thesis using steps_append(3) [OF assms(1,2) Other] assms(4) by simp
qed

lemmas keeps_cases =
  keeps_case [where f = "invalid_cases enc" for enc, OF _ insertI1]
  keeps_case [where f = "check_name_cases enc" for enc, OF _ insertI2 [OF insertI1]]
  keeps_case [where f = "check_nmstrt_cases enc" for enc, OF _ insertI2 [OF insertI2 [OF insertI1]]]
  keeps_case [where f = "invalid_cases enc" and s = "c # s" for enc c s, OF list.discI [OF refl] insertI1,
    unfolded append_Cons]
  keeps_case [where f = "check_name_cases enc" and s = "c # s" for enc c s, OF list.discI [OF refl] insertI2 [OF insertI1],
    unfolded append_Cons]
  keeps_case [where f = "check_nmstrt_cases enc" and s = "c # s" for enc c s, OF list.discI [OF refl] insertI2 [OF insertI2 [OF insertI1]],
    unfolded append_Cons]

lemma keeps_if: "(P \<Longrightarrow> keeps u a a') \<Longrightarrow> (\<not> P \<Longrightarrow> keeps u b b') \<Longrightarrow> keeps u (if P then a else b) (if P then a' else b')"
  by simp

lemma keeps_list:
  "(\<And>d s2. s1 = d # s2 \<Longrightarrow> keeps u (b d s2) (b' d (s2 @ u)))
     \<Longrightarrow> keeps u (case s1 of [] \<Rightarrow> (t, None) | d # s2 \<Rightarrow> b d s2) (case s1 @ u of [] \<Rightarrow> a' | d # s2 \<Rightarrow> b' d s2)"
  by (cases s1) auto

lemmas keeps_intros = keeps_cases keeps_if keeps_list

lemma keeps_comment: "keeps u (comment_loop enc s) (comment_loop enc (s @ u))"
  by (induction enc s rule: comment_loop.induct) (auto intro!: keeps_intros)

lemma keeps_scanComment: "keeps u (scanComment enc s) (scanComment enc (s @ u))"
  unfolding scanComment_def by (auto intro!: keeps_intros keeps_comment)

lemma keeps_decl_loop: "keeps u (decl_loop enc s) (decl_loop enc (s @ u))"
  by (induction enc s rule: decl_loop.induct) (auto intro!: keeps_intros)

lemma keeps_scanDecl: "keeps u (scanDecl enc s) (scanDecl enc (s @ u))"
  unfolding scanDecl_def by (auto intro!: keeps_intros keeps_scanComment keeps_decl_loop)

lemma keeps_pi_body: "keeps u (pi_body enc tok s) (pi_body enc tok (s @ u))"
  by (induction enc tok s rule: pi_body.induct) (auto intro!: keeps_intros)

lemma keeps_pi_name: "keeps u (pi_name enc target s) (pi_name enc (target @ u) (s @ u))"
proof (induction enc target s rule: pi_name.induct)
  case (2 enc target c s)
  have t: "take (length (target @ u) - length (c # s @ u)) (target @ u) = take (length target - length (c # s)) target"
    by simp
  show ?case unfolding append_Cons pi_name.simps t Let_def case_prod_beta
    by (intro keeps_intros) (auto intro!: keeps_pi_body 2 [unfolded append_Cons] keeps_intros)
qed simp

lemma keeps_scanPi: "keeps u (scanPi enc s) (scanPi enc (s @ u))"
  unfolding scanPi_def by (auto intro!: keeps_intros keeps_pi_name [of _ _ "_ # _", unfolded append_Cons])

lemma keeps_cdata_lsqb: "keeps u (cdata_lsqb ks s) (cdata_lsqb ks (s @ u))"
  by (induction ks s rule: cdata_lsqb.induct) (auto intro!: keeps_intros)

lemma keeps_scanCdataSection: "keeps u (scanCdataSection enc s) (scanCdataSection enc (s @ u))"
  unfolding scanCdataSection_def by (auto intro!: keeps_cdata_lsqb)

lemma keeps_endtag_spaces: "keeps u (endtag_spaces enc s) (endtag_spaces enc (s @ u))"
  by (induction enc s rule: endtag_spaces.induct) (auto intro!: keeps_intros)

lemma keeps_endtag_name: "keeps u (endtag_name enc s) (endtag_name enc (s @ u))"
  by (induction enc s rule: endtag_name.induct) (auto intro!: keeps_intros keeps_endtag_spaces)

lemma keeps_scanEndTag: "keeps u (scanEndTag enc s) (scanEndTag enc (s @ u))"
  unfolding scanEndTag_def by (auto intro!: keeps_intros keeps_endtag_name)

lemma keeps_charref_digits: "keeps u (charref_digits ds enc s) (charref_digits ds enc (s @ u))"
  by (induction ds enc s rule: charref_digits.induct) (auto intro!: keeps_intros)

lemma keeps_scanHexCharRef: "keeps u (scanHexCharRef enc s) (scanHexCharRef enc (s @ u))"
  unfolding scanHexCharRef_def by (auto intro!: keeps_intros keeps_charref_digits)

lemma keeps_scanCharRef: "keeps u (scanCharRef enc s) (scanCharRef enc (s @ u))"
  unfolding scanCharRef_def by (auto intro!: keeps_intros keeps_charref_digits keeps_scanHexCharRef)

lemma keeps_name_semi: "keeps u (name_semi tok enc s) (name_semi tok enc (s @ u))"
  by (induction tok enc s rule: name_semi.induct) (auto intro!: keeps_intros)

lemma keeps_scanRef: "keeps u (scanRef enc s) (scanRef enc (s @ u))"
  unfolding scanRef_def by (auto intro!: keeps_intros keeps_name_semi keeps_scanCharRef)

lemma keeps_empty_tag: "keeps u (empty_tag tok s) (empty_tag tok (s @ u))"
  unfolding empty_tag_def by (auto intro!: keeps_intros)

lemma keeps_if_append:
  "(s \<noteq> [] \<Longrightarrow> keeps u b b') \<Longrightarrow> keeps u (if s = [] then (t, None) else b) (if s @ u = [] then a' else b')"
  by simp

lemma keeps_scan_atts: "keeps u (scan_atts enc m s) (scan_atts enc m (s @ u))"
proof (induction enc m s rule: scan_atts.induct)
  case (2 enc had c s)
  show ?case unfolding append_Cons scan_atts.simps
    by (intro keeps_cases keeps_if_append keeps_if) (use 2 in auto)
next
  case (5 enc opn c s)
  have "keeps u (case scanRef enc s of (tok, next) \<Rightarrow>
       if tok \<le> 0 then (tok, if tok = XML_TOK_INVALID then next else None)
       else (case next of None \<Rightarrow> (tok, None) | Some s' \<Rightarrow> scan_atts enc (InAttValue opn) s'))
     (case scanRef enc (s @ u) of (tok, next) \<Rightarrow>
       if tok \<le> 0 then (tok, if tok = XML_TOK_INVALID then next else None)
       else (case next of None \<Rightarrow> (tok, None) | Some s' \<Rightarrow> scan_atts enc (InAttValue opn) s'))"
    if c: "BYTE_TYPE enc c = BT_AMP" "BYTE_TYPE enc c \<noteq> opn" "invalid_cases enc (c # s) = Other"
  proof -
    obtain tok nxt where r: "scanRef enc s = (tok, nxt)" by fastforce
    show ?thesis
    proof (cases nxt)
      case None
      then show ?thesis by (simp add: r)
    next
      case (Some s')
      then have "scanRef enc (s @ u) = (tok, Some (s' @ u))"
        using keeps_scanRef [of u enc s] r by (simp add: keeps_def)
      moreover have "keeps u (scan_atts enc (InAttValue opn) s') (scan_atts enc (InAttValue opn) (s' @ u))"
        if "\<not> tok \<le> 0" using 5(3) c r Some that by simp
      ultimately show ?thesis by (simp add: r Some)
    qed
  qed
  with 5(1,2,4) show ?case by (auto intro!: keeps_intros)
qed (auto intro!: keeps_intros keeps_empty_tag)

lemma keeps_lt_spaces: "keeps u (lt_spaces enc s) (lt_spaces enc (s @ u))"
  by (induction enc s rule: lt_spaces.induct) (auto intro!: keeps_intros keeps_empty_tag keeps_scan_atts)

lemma keeps_lt_name: "keeps u (lt_name enc had s) (lt_name enc had (s @ u))"
proof (induction enc had s rule: lt_name.induct)
  case (2 enc had c s)
  show ?case unfolding append_Cons lt_name.simps
    by (intro keeps_cases keeps_if_append keeps_if)
      (use 2 in \<open>auto intro: keeps_empty_tag keeps_lt_spaces\<close>)
qed simp

lemma keeps_scanLt: "keeps u (scanLt enc s) (scanLt enc (s @ u))"
  unfolding scanLt_def by (auto intro!: keeps_intros keeps_lt_name keeps_scanComment keeps_scanCdataSection keeps_scanPi keeps_scanEndTag)


text \<open>Character data can go on; the other tokens of \<open>contentTok\<close> are final.\<close>

lemma data_lead_append: "data_lead enc n s = Some s' \<Longrightarrow> data_lead enc n (s @ u) = Some (s' @ u)"
  by (auto simp: data_lead_def split: if_split_asm)

lemma data_step_append:
  assumes "s \<noteq> []"
  shows "data_step enc s = Some s' \<Longrightarrow> data_step enc (s @ u) = Some (s' @ u)"
  using assms data_lead_append by (auto simp: data_step_def Let_def split: if_split_asm)

lemma content_chars_INVALID:
  "content_chars enc s = (XML_TOK_INVALID, Some p) \<Longrightarrow> content_chars enc (s @ u) = (XML_TOK_INVALID, Some (p @ u))"
proof (induction "length s" arbitrary: s rule: less_induct)
  case less
  note C = less.prems [unfolded content_chars.simps [of enc s]]
  have ne: "s \<noteq> []" using C by auto
  show ?case
  proof (cases "BYTE_TYPE enc (hd s) = BT_RSQB")
    case True
    then obtain d s2 where d: "tl s = d # s2" using C ne by (cases "tl s") auto
    show ?thesis
    proof (cases "content_chars enc (tl s) = (XML_TOK_INVALID, Some p)")
      case go: True
      have "content_chars enc (tl s @ u) = (XML_TOK_INVALID, Some (p @ u))"
        using ne by (intro less.hyps go) simp
      moreover have "d \<noteq> CHR '']'' \<or> (\<exists>e s3. s2 = e # s3 \<and> e \<noteq> CHR ''>'') \<or> p = s2"
        using C ne True d by (cases s2) (auto split: if_split_asm)
      ultimately show ?thesis using True ne d C
        by (subst content_chars.simps) (cases s2; auto split: if_split_asm)
    next
      case False
      then show ?thesis using C ne True d
        by (subst content_chars.simps) (auto split: list.split_asm if_split_asm)
    qed
  next
    case False
    with C ne obtain s' where s': "data_step enc s = Some s'" "content_chars enc s' = (XML_TOK_INVALID, Some p)"
      and t: "BYTE_TYPE enc (hd s) \<notin> {BT_AMP, BT_LT}"
      by (auto split: option.split_asm if_split_asm)
    have "data_step enc (s @ u) = Some (s' @ u)"
      by (rule data_step_append [OF ne s'(1)])
    moreover have "content_chars enc (s' @ u) = (XML_TOK_INVALID, Some (p @ u))"
      using data_step_less [OF s'(1) ne] by (intro less.hyps s'(2))
    ultimately show ?thesis using False t ne by (subst content_chars.simps) auto
  qed
qed

lemma content_chars_keeps:
  assumes "content_chars enc s = (t, Some p)" "t \<noteq> XML_TOK_DATA_CHARS"
  shows "content_chars enc (s @ u) = (t, Some (p @ u))"
proof -
  have "t = XML_TOK_INVALID" using reach_content_chars [of s enc] assms by auto
  with assms(1) show ?thesis using content_chars_INVALID by simp
qed

lemma contentTok_keeps:
  assumes "contentTok enc s = (t, Some p)" "t \<noteq> XML_TOK_DATA_CHARS"
  shows "contentTok enc (s @ u) = (t, Some (p @ u))"
proof (cases s)
  case Nil
  with assms show ?thesis by (simp add: contentTok_def)
next
  case (Cons c s1)
  note C = assms(1) [unfolded Cons contentTok_def list.case]
  consider (lt) "BYTE_TYPE enc c = BT_LT" | (amp) "BYTE_TYPE enc c = BT_AMP" | (cr) "BYTE_TYPE enc c = BT_CR"
    | (lf) "BYTE_TYPE enc c = BT_LF" | (rsqb) "BYTE_TYPE enc c = BT_RSQB"
    | (other) "BYTE_TYPE enc c \<notin> {BT_LT, BT_AMP, BT_CR, BT_LF, BT_RSQB}" by blast
  then show ?thesis
  proof cases
    case lt
    then show ?thesis using C keeps_scanLt [of u enc s1] by (simp add: contentTok_def Cons keeps_def)
  next
    case amp
    then show ?thesis using C keeps_scanRef [of u enc s1] by (simp add: contentTok_def Cons keeps_def)
  next
    case cr
    then show ?thesis using C by (cases s1) (auto simp: contentTok_def Cons)
  next
    case lf
    then show ?thesis using C by (auto simp: contentTok_def Cons)
  next
    case rsqb
    note k = content_chars_keeps [OF _ assms(2), of enc s1]
    show ?thesis
    proof (cases s1)
      case Nil
      with C rsqb show ?thesis by simp
    next
      case d: (Cons d s2)
      with C rsqb k show ?thesis
        by (cases s2) (auto simp: contentTok_def Cons split: if_split_asm)
    qed
  next
    case other
    then have e: "contentTok enc (c # v) = (case invalid_cases enc (c # v) of Stop r \<Rightarrow> r
        | Move s' \<Rightarrow> content_chars enc s' | Other \<Rightarrow> content_chars enc v)" for v
      by (simp add: contentTok_def)
    have k: "content_chars enc (v @ u) = (fst (content_chars enc v), Some (q @ u))"
      if "fst (content_chars enc v) \<noteq> XML_TOK_DATA_CHARS" "snd (content_chars enc v) = Some q" for v q
      using that by (intro content_chars_keeps) (auto simp: prod_eq_iff)
    have "keeps u (case invalid_cases enc (c # s1) of Stop r \<Rightarrow> r | Move s' \<Rightarrow> (if fst (content_chars enc s') = XML_TOK_DATA_CHARS
          then (XML_TOK_NONE, None) else content_chars enc s')
        | Other \<Rightarrow> if fst (content_chars enc s1) = XML_TOK_DATA_CHARS then (XML_TOK_NONE, None) else content_chars enc s1)
      (case invalid_cases enc (c # s1 @ u) of Stop r \<Rightarrow> r | Move s' \<Rightarrow> content_chars enc s' | Other \<Rightarrow> content_chars enc (s1 @ u))"
      by (intro keeps_cases) (auto simp: keeps_def k)
    with C other assms(2) show ?thesis
      by (cases "invalid_cases enc (c # s1)") (auto simp: e Cons keeps_def split: if_split_asm)
  qed
qed

lemma cdataSectionTok_keeps:
  assumes "cdataSectionTok enc s = (t, Some p)" "t \<noteq> XML_TOK_DATA_CHARS"
  shows "cdataSectionTok enc (s @ u) = (t, Some (p @ u))"
proof (cases s)
  case Nil
  with assms show ?thesis by (simp add: cdataSectionTok_def)
next
  case (Cons c s1)
  note C = assms(1) [unfolded Cons cdataSectionTok_def list.case]
  show ?thesis
  proof (cases "BYTE_TYPE enc c \<in> {BT_RSQB, BT_CR, BT_LF}")
    case True
    then show ?thesis using C assms(2)
      by (cases s1; cases "tl s1") (auto simp: cdataSectionTok_def Cons split: if_split_asm)
  next
    case False
    then obtain q where q: "invalid_cases enc (c # s1) = Stop (t, Some q)" "q = p"
      using C assms(2) by (auto split: step.split_asm)
    with False steps_append(2) [of "c # s1" "invalid_cases enc" enc t q u] show ?thesis
      by (simp add: cdataSectionTok_def Cons)
  qed
qed

lemma keeps_scanPercent: "keeps u (scanPercent enc s) (scanPercent enc (s @ u))"
  unfolding scanPercent_def by (auto intro!: keeps_intros keeps_name_semi)

lemma keeps_pound_name: "keeps u (pound_name enc s) (pound_name enc (s @ u))"
  by (induction enc s rule: pound_name.induct) (auto intro!: keeps_intros)

lemma keeps_scanPoundName: "keeps u (scanPoundName enc s) (scanPoundName enc (s @ u))"
  unfolding scanPoundName_def by (auto intro!: keeps_intros keeps_pound_name)

lemma keeps_scanLit: "keeps u (scanLit opn enc s) (scanLit opn enc (s @ u))"
  by (induction opn enc s rule: scanLit.induct) (auto intro!: keeps_intros)

lemma keeps_prolog_name: "keeps u (prolog_name enc tok s) (prolog_name enc tok (s @ u))"
proof (induction enc tok s rule: prolog_name.induct)
  case (2 enc tok c s)
  show ?case unfolding append_Cons prolog_name.simps
    by (intro keeps_cases keeps_if_append keeps_if) (use 2 in simp_all)
qed simp

lemma keeps_prolog_lead: "n \<noteq> 0 \<Longrightarrow> keeps u (prolog_lead enc n s) (prolog_lead enc n (s @ u))"
  using keeps_prolog_name [of u enc _ "drop n s"] by (auto simp: prolog_lead_def)

lemma keeps_prolog_lt: "s \<noteq> [] \<Longrightarrow> keeps u (prolog_lt enc s) (prolog_lt enc (s @ u))"
  by (cases s) (auto simp: prolog_lt_def intro!: keeps_intros keeps_scanDecl keeps_scanPi)

lemma keeps_prolog_rsqb: "keeps u (prolog_rsqb s) (prolog_rsqb (s @ u))"
  unfolding prolog_rsqb_def by (auto intro!: keeps_intros)

lemma keeps_prolog_rpar: "keeps u (prolog_rpar enc s) (prolog_rpar enc (s @ u))"
  unfolding prolog_rpar_def by (auto intro!: keeps_intros)

lemma prologTok_keeps:
  assumes "prologTok enc s = (t, Some p)" "t \<noteq> XML_TOK_PROLOG_S" "0 \<le> t"
  shows "prologTok enc (s @ u) = (t, Some (p @ u))"
proof (cases s)
  case Nil
  with assms show ?thesis by (simp add: prologTok_def)
next
  case (Cons c s1)
  have sp: "snd (prolog_space enc s1) = None \<or> fst (prolog_space enc s1) = XML_TOK_PROLOG_S"
    by (induction enc s1 rule: prolog_space.induct) auto
  show ?thesis
  proof (cases "BYTE_TYPE enc c \<in> {BT_CR, BT_S, BT_LF}")
    case True
    with assms sp show ?thesis by (auto simp: prologTok_def Cons Let_def split: if_split_asm)
  next
    case False
    then have e: "\<not> (BYTE_TYPE enc c = BT_CR \<and> v = [])" for v by auto
    have "keeps u (prologTok enc (c # s1)) (prologTok enc (c # s1 @ u))"
      unfolding prologTok_def Let_def list.case if_not_P [OF False] if_not_P [OF e]
      by (intro keeps_if keeps_scanLit keeps_prolog_lt [of "c # s1", unfolded append_Cons] keeps_scanPercent
          keeps_prolog_rsqb keeps_prolog_rpar keeps_scanPoundName keeps_prolog_name
          keeps_prolog_lead [where s = "c # s1", unfolded append_Cons]) simp_all
    with assms(1) show ?thesis by (simp add: Cons keeps_def)
  qed
qed

section \<open>Properties of the scanners\<close>

lemma contentTok_progress:
  assumes "contentTok enc (c # s) = (t, Some p)" "0 < t"
  shows "suffix p s"
proof -
  have 2: "\<not> 0 < fst r" if "invalid_cases enc (c # s) = Stop r" for r
    using that by (auto simp: invalid_cases_def lead_step_def Let_def split: if_split_asm)
  have 3: "suffix s' s" if "invalid_cases enc (c # s) = Move s'" for s'
    using steps_suffix(1) [OF that] steps_Move(1) [OF that] by (auto simp: suffix_Cons)
  have 4: "suffix p v" if "content_chars enc v = (t, Some p) \<or> scanLt enc v = (t, Some p)
      \<or> scanRef enc v = (t, Some p)" for v
    using reach_content_chars [of v enc] reach_scanLt [of v enc] reach_scanRef [of v enc] that by auto
  show ?thesis
  proof (cases "BYTE_TYPE enc c \<in> {BT_LT, BT_AMP, BT_CR, BT_LF, BT_RSQB}")
    case True
    with assms show ?thesis
      by (cases s; cases "tl s") (auto simp: contentTok_def suffix_Cons split: if_split_asm dest: 4 [OF disjI1]
        4 [OF disjI2 [OF disjI1]] 4 [OF disjI2 [OF disjI2]])
  next
    case False
    with assms show ?thesis
      by (cases "invalid_cases enc (c # s)")
        (auto simp: contentTok_def dest: 2 3 4 [OF disjI1] intro: suffix_order.trans)
  qed
qed

lemma reach_suffix: "reach T s' r \<Longrightarrow> r = (t, Some p) \<Longrightarrow> suffix s' s \<Longrightarrow> suffix p s"
  by (auto dest: suffix_order.trans)

lemma prologTok_progress:
  assumes "prologTok enc (c # s) = (t, Some p)" "0 < t" "t \<noteq> XML_TOK_INSTANCE_START"
  shows "suffix p s"
proof -
  have lt: "suffix p s" if "prolog_lt enc (c # s) = (t, Some p)"
  proof (cases s)
    case Nil
    with that show ?thesis by (simp add: prolog_lt_def)
  next
    case (Cons d s2)
    have "suffix s2 s" using Cons by (simp add: suffix_Cons)
    then show ?thesis using that assms(2,3) reach_scanDecl [of s2 enc] reach_scanPi [of s2 enc] Cons
      by (auto simp: prolog_lt_def dest: reach_suffix split: if_split_asm)
  qed
  have lead: "suffix p s" if "prolog_lead enc n (c # s) = (t, Some p)" "n \<noteq> 0" for n
  proof -
    have "suffix (drop n (c # s)) s" using that(2) by (cases n) (auto intro: suffix_drop)
    then show ?thesis using that(1) assms(2) reach_prolog_name [of XML_TOK_NAME "drop n (c # s)" enc]
        reach_prolog_name [of XML_TOK_NMTOKEN "drop n (c # s)" enc]
      by (auto simp: prolog_lead_def dest: reach_suffix split: if_split_asm)
  qed
  have rsqb: "suffix p s" if "prolog_rsqb s = (t, Some p) \<or> prolog_rpar enc s = (t, Some p)"
    using that by (auto simp: prolog_rsqb_def prolog_rpar_def suffix_Cons split: list.split_asm if_split_asm)
  have rest: "suffix p s" if "f s = (t, Some p)" "f \<in> {scanLit q enc, prolog_space enc, scanPercent enc,
      scanPoundName enc, prolog_name enc XML_TOK_NAME, prolog_name enc XML_TOK_NMTOKEN}" for f q
    using that reach_scanLit [of s q enc] reach_prolog_space [of s enc] reach_scanPercent [of s enc]
      reach_scanPoundName [of s enc] reach_prolog_name [of XML_TOK_NAME s enc]
      reach_prolog_name [of XML_TOK_NMTOKEN s enc]
    by auto
  show ?thesis
    using assms(1,2) unfolding prologTok_def Let_def list.case
    by (auto split: if_split_asm intro: lt lead rsqb rest)
qed

text \<open>
  C30. Scanning is incremental: when \<open>contentTok\<close>, \<open>cdataSectionTok\<close> or \<open>prologTok\<close> decides on a token,
  or that the text is malformed, then on any longer text it gives the same token and the same end
  of the token. Only runs of character data and of white space can go on.
\<close>

theorem scanning_is_incremental:
  "(contentTok enc s = (t, Some p) \<and> t \<noteq> XML_TOK_DATA_CHARS \<longrightarrow> contentTok enc (s @ u) = (t, Some (p @ u)))
   \<and> (cdataSectionTok enc s = (t, Some p) \<and> t \<noteq> XML_TOK_DATA_CHARS \<longrightarrow>
        cdataSectionTok enc (s @ u) = (t, Some (p @ u)))
   \<and> (prologTok enc s = (t, Some p) \<and> t \<noteq> XML_TOK_PROLOG_S \<and> 0 \<le> t \<longrightarrow>
        prologTok enc (s @ u) = (t, Some (p @ u)))"
  using contentTok_keeps cdataSectionTok_keeps prologTok_keeps by blast

theorem scanning_is_incremental_witness:
  "contentTok utf8_encoding ''<a b='1'/>'' = (XML_TOK_EMPTY_ELEMENT_WITH_ATTS, Some [])
   \<and> contentTok utf8_encoding (''<a b='1'/>'' @ ''<c>'') = (XML_TOK_EMPTY_ELEMENT_WITH_ATTS, Some ([] @ ''<c>''))"
proof
  show "contentTok utf8_encoding ''<a b='1'/>'' = (XML_TOK_EMPTY_ELEMENT_WITH_ATTS, Some [])" by code_simp
  then show "contentTok utf8_encoding (''<a b='1'/>'' @ ''<c>'')
      = (XML_TOK_EMPTY_ELEMENT_WITH_ATTS, Some ([] @ ''<c>''))"
    using scanning_is_incremental [of utf8_encoding "''<a b='1'/>''" XML_TOK_EMPTY_ELEMENT_WITH_ATTS "[]" "''<c>''"]
    by simp
qed



end
