(* ===== verification/XmlLit.thy ===== *)
theory XmlLit
  imports XmlTok
begin

text \<open>
  The rest of \<^verbatim>\<open>src/expat/lib/xmltok_impl.c\<close>: the scanners of literals and of ignored sections, which work
  on text a first scanner has delimited, and the functions that read tokens: attributes, names,
  references, white space, lines and columns. Functions that are not given the end of the text
  read on until they find what ends the token; a read outside the text is a fault.
\<close>

section \<open>Literals\<close>

text \<open>One character, by its first byte; nothing checks that all of its bytes are there.\<close>

definition char_len :: "encoding \<Rightarrow> char \<Rightarrow> nat" where
  "char_len enc c =
     (let t = BYTE_TYPE enc c in
      if t = BT_LEAD2 then 2 else if t = BT_LEAD3 then 3 else if t = BT_LEAD4 then 4 else 1)"

lemma char_len_pos [simp]: "0 < char_len enc c"
  by (simp add: char_len_def Let_def)

function attvalue_chars :: "encoding \<Rightarrow> cstr \<Rightarrow> scan run" where
  "attvalue_chars enc s =
     (if s = [] then Inr (XML_TOK_DATA_CHARS, Some s)
      else
        (let t = BYTE_TYPE enc (hd s) in
         if t = BT_LT then Inr (XML_TOK_INVALID, Some s)
         else if t \<in> {BT_AMP, BT_LF, BT_CR, BT_S} then Inr (XML_TOK_DATA_CHARS, Some s)
         else if length s < char_len enc (hd s) then Inl OutOfBounds
         else attvalue_chars enc (drop (char_len enc (hd s)) s)))"
  by pat_completeness auto
termination
  by (relation "measure (\<lambda>(enc, s). length s)") auto

declare attvalue_chars.simps [simp del]

definition newline_at :: "encoding \<Rightarrow> cstr \<Rightarrow> scan" where
  "newline_at enc s1 =
     (case s1 of
        [] \<Rightarrow> (XML_TOK_TRAILING_CR, None)
      | d # s2 \<Rightarrow> (XML_TOK_DATA_NEWLINE, Some (if BYTE_TYPE enc d = BT_LF then s2 else s1)))"

definition attributeValueTok :: "encoding \<Rightarrow> cstr \<Rightarrow> scan run" where
  "attributeValueTok enc s =
     (case s of
        [] \<Rightarrow> Inr (XML_TOK_NONE, None)
      | c # s1 \<Rightarrow>
          if BYTE_TYPE enc c = BT_AMP then Inr (scanRef enc s1)
          else if BYTE_TYPE enc c = BT_LF then Inr (XML_TOK_DATA_NEWLINE, Some s1)
          else if BYTE_TYPE enc c = BT_CR then Inr (newline_at enc s1)
          else if BYTE_TYPE enc c = BT_S then Inr (XML_TOK_ATTRIBUTE_VALUE_S, Some s1)
          else attvalue_chars enc s)"

function entvalue_chars :: "encoding \<Rightarrow> cstr \<Rightarrow> scan run" where
  "entvalue_chars enc s =
     (if s = [] then Inr (XML_TOK_DATA_CHARS, Some s)
      else if BYTE_TYPE enc (hd s) \<in> {BT_AMP, BT_PERCNT, BT_LF, BT_CR} then Inr (XML_TOK_DATA_CHARS, Some s)
      else if length s < char_len enc (hd s) then Inl OutOfBounds
      else entvalue_chars enc (drop (char_len enc (hd s)) s))"
  by pat_completeness auto
termination
  by (relation "measure (\<lambda>(enc, s). length s)") auto

declare entvalue_chars.simps [simp del]

definition entityValueTok :: "encoding \<Rightarrow> cstr \<Rightarrow> scan run" where
  "entityValueTok enc s =
     (case s of
        [] \<Rightarrow> Inr (XML_TOK_NONE, None)
      | c # s1 \<Rightarrow>
          if BYTE_TYPE enc c = BT_AMP then Inr (scanRef enc s1)
          else if BYTE_TYPE enc c = BT_PERCNT then
            (let (tok, next) = scanPercent enc s1
             in Inr (if tok = XML_TOK_PERCENT then XML_TOK_INVALID else tok, next))
          else if BYTE_TYPE enc c = BT_LF then Inr (XML_TOK_DATA_NEWLINE, Some s1)
          else if BYTE_TYPE enc c = BT_CR then Inr (newline_at enc s1)
          else entvalue_chars enc s)"

section \<open>Ignored sections and public identifiers\<close>

function ignore_loop :: "encoding \<Rightarrow> int \<Rightarrow> cstr \<Rightarrow> scan" where
  "ignore_loop enc level [] = (XML_TOK_PARTIAL, None)"
| "ignore_loop enc level (c # s) =
     (case invalid_cases enc (c # s) of
        Stop r \<Rightarrow> r
      | Move s' \<Rightarrow> ignore_loop enc level s'
      | Other \<Rightarrow>
          if BYTE_TYPE enc c = BT_LT then
            (case s of
               [] \<Rightarrow> (XML_TOK_PARTIAL, None)
             | d # s1 \<Rightarrow>
                 if d = CHR ''!'' then
                   (case s1 of
                      [] \<Rightarrow> (XML_TOK_PARTIAL, None)
                    | e # s2 \<Rightarrow>
                        if e = CHR ''['' then ignore_loop enc (level + 1) s2 else ignore_loop enc level s1)
                 else ignore_loop enc level s)
          else if BYTE_TYPE enc c = BT_RSQB then
            (case s of
               [] \<Rightarrow> (XML_TOK_PARTIAL, None)
             | d # s1 \<Rightarrow>
                 if d = CHR '']'' then
                   (case s1 of
                      [] \<Rightarrow> (XML_TOK_PARTIAL, None)
                    | e # s2 \<Rightarrow>
                        if e = CHR ''>'' then
                          (if level = 0 then (XML_TOK_IGNORE_SECT, Some s2) else ignore_loop enc (level - 1) s2)
                        else ignore_loop enc level s1)
                 else ignore_loop enc level s)
          else ignore_loop enc level s)"
  by pat_completeness auto
termination
  by (relation "measure (\<lambda>(enc, level, s). length s)") (auto dest: steps_Move_Cons)

definition ignoreSectionTok :: "encoding \<Rightarrow> cstr \<Rightarrow> scan" where
  "ignoreSectionTok enc s = ignore_loop enc 0 s"

definition public_id_char :: "encoding \<Rightarrow> char \<Rightarrow> bool" where
  "public_id_char enc c =
     (let t = BYTE_TYPE enc c in
      if t \<in> {BT_DIGIT, BT_HEX, BT_MINUS, BT_APOS, BT_LPAR, BT_RPAR, BT_PLUS, BT_COMMA, BT_SOL, BT_EQUALS,
              BT_QUEST, BT_CR, BT_LF, BT_SEMI, BT_EXCL, BT_AST, BT_PERCNT, BT_NUM, BT_COLON} then True
      else if t = BT_S then c \<noteq> CHR 0x09
      else if t \<in> {BT_NAME, BT_NMSTRT} \<and> (of_char c :: nat) < 0x80 then True
      else c \<in> {CHR ''$'', CHR ''@''})"

text \<open>The text with its quotes; the value returned, and the bytes from \<^verbatim>\<open>*badPtr\<close> to the closing quote.\<close>

fun public_id_loop :: "encoding \<Rightarrow> cstr \<Rightarrow> bool \<times> cstr option" where
  "public_id_loop enc [] = (True, None)"
| "public_id_loop enc (c # s) =
     (if public_id_char enc c then public_id_loop enc s else (False, Some (c # s)))"

definition isPublicId :: "encoding \<Rightarrow> cstr \<Rightarrow> (bool \<times> cstr option) run" where
  "isPublicId enc s =
     (if length s < 2 then Inl OutOfBounds else Inr (public_id_loop enc (butlast (tl s))))"

section \<open>Attributes of a tag\<close>

text \<open>Pointers into the tag are offsets from its start. The array \<^verbatim>\<open>atts\<close> has \<^verbatim>\<open>attsMax\<close> entries.\<close>

record attribute =
  att_name :: nat
  valuePtr :: nat
  valueEnd :: nat
  normalized :: bool

datatype atts_state = OtherSt | InName | InValue

record getatts =
  ga_state :: atts_state
  nAtts :: nat
  ga_open :: byte_type
  atts :: "attribute list"

definition upd_att :: "(attribute \<Rightarrow> attribute) \<Rightarrow> getatts \<Rightarrow> getatts" where
  "upd_att f g =
     (if nAtts g < length (atts g) then g\<lparr> atts := (atts g)[nAtts g := f (atts g ! nAtts g)] \<rparr> else g)"

definition start_name :: "nat \<Rightarrow> getatts \<Rightarrow> getatts" where
  "start_name ptr g =
     (if ga_state g = OtherSt
      then (upd_att (\<lambda>a. a\<lparr> att_name := ptr, normalized := True \<rparr>) g)\<lparr> ga_state := InName \<rparr>
      else g)"

definition at_quote :: "byte_type \<Rightarrow> nat \<Rightarrow> getatts \<Rightarrow> getatts" where
  "at_quote q ptr g =
     (if ga_state g \<noteq> InValue
      then (upd_att (\<lambda>a. a\<lparr> valuePtr := ptr + 1 \<rparr>) g)\<lparr> ga_state := InValue, ga_open := q \<rparr>
      else if ga_open g = q
      then (upd_att (\<lambda>a. a\<lparr> valueEnd := ptr \<rparr>) (g\<lparr> ga_state := OtherSt \<rparr>))\<lparr> nAtts := nAtts g + 1 \<rparr>
      else g)"

text \<open>A blank in a value: the value stays normalized if it is a single space inside it.\<close>

definition at_blank :: "encoding \<Rightarrow> nat \<Rightarrow> char \<Rightarrow> cstr \<Rightarrow> getatts \<Rightarrow> getatts run" where
  "at_blank enc ptr c s g =
     (if ga_state g = InName then Inr (g\<lparr> ga_state := OtherSt \<rparr>)
      else if ga_state g = InValue \<and> nAtts g < length (atts g) \<and> normalized (atts g ! nAtts g) then
        (if ptr = valuePtr (atts g ! nAtts g) \<or> c \<noteq> CHR '' ''
         then Inr (upd_att (\<lambda>a. a\<lparr> normalized := False \<rparr>) g)
         else
           (case s of
              [] \<Rightarrow> Inl OutOfBounds
            | d # s' \<Rightarrow>
                Inr (if d = CHR '' '' \<or> BYTE_TYPE enc d = ga_open g
                     then upd_att (\<lambda>a. a\<lparr> normalized := False \<rparr>) g else g)))
      else Inr g)"

definition at_line_end :: "getatts \<Rightarrow> getatts" where
  "at_line_end g =
     (if ga_state g = InName then g\<lparr> ga_state := OtherSt \<rparr>
      else if ga_state g = InValue then upd_att (\<lambda>a. a\<lparr> normalized := False \<rparr>) g
      else g)"

function getatts_loop :: "encoding \<Rightarrow> nat \<Rightarrow> cstr \<Rightarrow> getatts \<Rightarrow> getatts run" where
  "getatts_loop enc ptr [] g = Inl OutOfBounds"
| "getatts_loop enc ptr (c # s) g =
     (let t = BYTE_TYPE enc c in
      if t \<in> {BT_LEAD2, BT_LEAD3, BT_LEAD4} then
        getatts_loop enc (ptr + char_len enc c) (drop (char_len enc c) (c # s)) (start_name ptr g)
      else if t \<in> {BT_NONASCII, BT_NMSTRT, BT_HEX} then getatts_loop enc (ptr + 1) s (start_name ptr g)
      else if t \<in> {BT_QUOT, BT_APOS} then getatts_loop enc (ptr + 1) s (at_quote t ptr g)
      else if t = BT_AMP then
        getatts_loop enc (ptr + 1) s (upd_att (\<lambda>a. a\<lparr> normalized := False \<rparr>) g)
      else if t = BT_S then rbind (at_blank enc ptr c s g) (\<lambda>g. getatts_loop enc (ptr + 1) s g)
      else if t \<in> {BT_CR, BT_LF} then getatts_loop enc (ptr + 1) s (at_line_end g)
      else if t \<in> {BT_GT, BT_SOL} \<and> ga_state g \<noteq> InValue then Inr g
      else getatts_loop enc (ptr + 1) s g)"
  by pat_completeness auto
termination
  by (relation "measure (\<lambda>(enc, ptr, s, g). length s)") (auto simp: char_len_def Let_def)

text \<open>The number of attributes, and the array. The tag starts with \<open><\<close>, which is skipped.\<close>

definition getAtts :: "encoding \<Rightarrow> cstr \<Rightarrow> attribute list \<Rightarrow> (nat \<times> attribute list) run" where
  "getAtts enc s ar =
     rbind (getatts_loop enc 1 (tl s) \<lparr> ga_state = InName, nAtts = 0, ga_open = BT_NONXML, atts = ar \<rparr>)
       (\<lambda>g. Inr (nAtts g, atts g))"

section \<open>References\<close>

definition hex_digit :: "char \<Rightarrow> int option" where
  "hex_digit c =
     (let n = of_char c in
      if 48 \<le> n \<and> n \<le> (57 :: int) then Some (n - 48)
      else if 65 \<le> n \<and> n \<le> 70 then Some (10 + (n - 65))
      else if 97 \<le> n \<and> n \<le> 102 then Some (10 + (n - 97))
      else None)"

text \<open>The digits up to the semicolon, with the limit checked after each: \<open>None\<close> when it is reached.\<close>

fun hex_number :: "int \<Rightarrow> cstr \<Rightarrow> int option run" where
  "hex_number result [] = Inl OutOfBounds"
| "hex_number result (c # s) =
     (if c = CHR '';'' then Inr (Some result)
      else
        (let r = (case hex_digit c of None \<Rightarrow> result | Some d \<Rightarrow> result * 16 + d)
         in if 0x110000 \<le> r then Inr None else hex_number r s))"

fun dec_number :: "int \<Rightarrow> cstr \<Rightarrow> int option run" where
  "dec_number result [] = Inl OutOfBounds"
| "dec_number result (c # s) =
     (if c = CHR '';'' then Inr (Some result)
      else
        (let r = result * 10 + (of_char c - 48)
         in if 0x110000 \<le> r then Inr None else dec_number r s))"

definition charRefNumber :: "encoding \<Rightarrow> cstr \<Rightarrow> int run" where
  "charRefNumber enc s =
     (case drop 2 s of
        [] \<Rightarrow> Inl OutOfBounds
      | c # s1 \<Rightarrow>
          rbind (if c = CHR ''x'' then hex_number 0 s1 else dec_number 0 (c # s1)) (\<lambda>r.
            Inr (case r of None \<Rightarrow> - 1 | Some n \<Rightarrow> checkCharRefNumber n)))"

text \<open>The character of a predefined entity, or 0.\<close>

definition predefinedEntityName :: "encoding \<Rightarrow> cstr \<Rightarrow> nat" where
  "predefinedEntityName enc s =
     (case s of
        [a, b] \<Rightarrow>
          if b = CHR ''t'' then
            (if a = CHR ''l'' then 0x3C else if a = CHR ''g'' then 0x3E else 0)
          else 0
      | [a, b, c] \<Rightarrow>
          if a = CHR ''a'' then
            (if b = CHR ''m'' then (if c = CHR ''p'' then 0x26 else 0) else 0)
          else 0
      | [a, b, c, d] \<Rightarrow>
          if a = CHR ''q'' then
            (if b = CHR ''u'' then (if c = CHR ''o'' then (if d = CHR ''t'' then 0x22 else 0) else 0) else 0)
          else if a = CHR ''a'' then
            (if b = CHR ''p'' then (if c = CHR ''o'' then (if d = CHR ''s'' then 0x27 else 0) else 0) else 0)
          else 0
      | _ \<Rightarrow> 0)"

section \<open>Names, white space, positions\<close>

definition name_byte :: "encoding \<Rightarrow> char \<Rightarrow> bool" where
  "name_byte enc c \<longleftrightarrow>
     BYTE_TYPE enc c \<in> {BT_NONASCII, BT_NMSTRT, BT_COLON, BT_HEX, BT_DIGIT, BT_NAME, BT_MINUS}"

definition lead_byte :: "encoding \<Rightarrow> char \<Rightarrow> bool" where
  "lead_byte enc c \<longleftrightarrow> BYTE_TYPE enc c \<in> {BT_LEAD2, BT_LEAD3, BT_LEAD4}"

text \<open>The bytes of a character are compared one by one: \<open>Some b\<close> when the comparison ends with \<open>b\<close>.\<close>

fun same_bytes :: "nat \<Rightarrow> cstr \<Rightarrow> cstr \<Rightarrow> bool run" where
  "same_bytes 0 p q = Inr True"
| "same_bytes (Suc n) (a # p) (b # q) = (if a \<noteq> b then Inr False else same_bytes n p q)"
| "same_bytes (Suc n) p q = Inl OutOfBounds"

lemma same_bytes_le: "same_bytes n p q = Inr True \<Longrightarrow> n \<le> length p"
  by (induction n p q rule: same_bytes.induct) (auto split: if_split_asm)

function sameName :: "encoding \<Rightarrow> cstr \<Rightarrow> cstr \<Rightarrow> bool run" where
  "sameName enc [] q = Inl OutOfBounds"
| "sameName enc (a # p) q =
     (if lead_byte enc a \<or> name_byte enc a then
        rbind (same_bytes (char_len enc a) (a # p) q) (\<lambda>same.
          if same then sameName enc (drop (char_len enc a) (a # p)) (drop (char_len enc a) q) else Inr False)
      else
        (case q of
           [] \<Rightarrow> Inl OutOfBounds
         | b # q' \<Rightarrow>
             if a = b then Inr True else Inr (\<not> (lead_byte enc b \<or> name_byte enc b))))"
  by pat_completeness auto
termination
  by (relation "measure (\<lambda>(enc, p, q). length p)") (auto simp: char_len_def Let_def)

function nameLength :: "encoding \<Rightarrow> cstr \<Rightarrow> nat run" where
  "nameLength enc [] = Inl OutOfBounds"
| "nameLength enc (c # s) =
     (if lead_byte enc c \<or> name_byte enc c then
        rbind (nameLength enc (drop (char_len enc c) (c # s))) (\<lambda>n. Inr (char_len enc c + n))
      else Inr 0)"
  by pat_completeness auto
termination
  by (relation "measure (\<lambda>(enc, s). length s)") (auto simp: char_len_def Let_def)

fun skipS :: "encoding \<Rightarrow> cstr \<Rightarrow> cstr run" where
  "skipS enc [] = Inl OutOfBounds"
| "skipS enc (c # s) = (if is_space enc c then skipS enc s else Inr (c # s))"

record position =
  lineNumber :: "64 word"
  columnNumber :: "64 word"

function updatePosition :: "encoding \<Rightarrow> cstr \<Rightarrow> position \<Rightarrow> position" where
  "updatePosition enc [] pos = pos"
| "updatePosition enc (c # s) pos =
     (let t = BYTE_TYPE enc c in
      if t = BT_LF then
        updatePosition enc s (pos\<lparr> lineNumber := lineNumber pos + 1, columnNumber := - 1 + 1 \<rparr>)
      else if t = BT_CR then
        updatePosition enc (case s of [] \<Rightarrow> s | d # s1 \<Rightarrow> if BYTE_TYPE enc d = BT_LF then s1 else s)
          (pos\<lparr> lineNumber := lineNumber pos + 1, columnNumber := - 1 + 1 \<rparr>)
      else
        updatePosition enc (drop (char_len enc c) (c # s)) (pos\<lparr> columnNumber := columnNumber pos + 1 \<rparr>))"
  by pat_completeness auto
termination
  by (relation "measure (\<lambda>(enc, s, pos). length s)") (auto simp: char_len_def Let_def split: list.split)

end
