(* ===== verification/XmlChars.thy ===== *)
theory XmlChars
  imports XmlScan XmlLit
begin

text \<open>
  What the UTF-8 encodings of the XML scanner let through as character data: exactly the codes of
  the characters XML allows, in shortest form, as libutf codes them (\<open>runetochar\<close>). In names the
  scanner does not make this test.
\<close>

section \<open>The tables\<close>

definition xml_char :: "nat \<Rightarrow> bool" where
  "xml_char n \<longleftrightarrow> n \<in> {9, 10, 13} \<or> 0x20 \<le> n \<and> n \<le> 0xD7FF \<or> 0xE000 \<le> n \<and> n \<le> 0xFFFD
     \<or> 0x10000 \<le> n \<and> n \<le> 0x10FFFF"

text \<open>The encodings: those for documents and those for internal entities, where a carriage return is
  white space like any other.\<close>

definition utf8_encodings :: "encoding set" where
  "utf8_encodings = {utf8_encoding, utf8_encoding_ns}"

lemma length_tabs:
  "length (asciitab k) = 128" "length utf8tab = 128"
  by (simp_all add: asciitab_def utf8tab_def)

definition plain :: "byte_type \<Rightarrow> bool" where
  "plain t \<longleftrightarrow> t \<notin> {BT_NONXML, BT_MALFORM, BT_TRAIL, BT_LEAD2, BT_LEAD3, BT_LEAD4}"

lemma asciitab_list:
  "k \<in> {BT_COLON, BT_NMSTRT} \<Longrightarrow>
     list_all (\<lambda>(i, t). (plain t \<longleftrightarrow> i \<in> {9, 10, 13} \<or> 32 \<le> i) \<and> (t = BT_LF \<longleftrightarrow> i = 10) \<and> (t = BT_CR \<longleftrightarrow> i = 13)
       \<and> (t = BT_RSQB \<longleftrightarrow> i = 93) \<and> (t = BT_AMP \<longleftrightarrow> i = 38) \<and> (t = BT_LT \<longleftrightarrow> i = 60)
       \<and> t \<notin> {BT_LEAD2, BT_LEAD3, BT_LEAD4})
       (enumerate 0 (asciitab k))"
  by (auto simp: asciitab_def plain_def)

lemma utf8tab_list:
  "list_all (\<lambda>(i, t). \<not> plain t \<and> (t = BT_LEAD2 \<longleftrightarrow> 0xC0 \<le> i \<and> i < 0xE0)
       \<and> (t = BT_LEAD3 \<longleftrightarrow> 0xE0 \<le> i \<and> i < 0xF0) \<and> (t = BT_LEAD4 \<longleftrightarrow> 0xF0 \<le> i \<and> i < 0xF5))
     (enumerate 128 utf8tab)"
  by (simp add: utf8tab_def plain_def)

lemma enumerate_nth: "list_all P (enumerate n xs) \<Longrightarrow> i < length xs \<Longrightarrow> P (n + i, xs ! i)"
  by (auto simp: list_all_length nth_enumerate_eq)

lemma utf8_tabs:
  assumes "enc \<in> utf8_encodings"
  shows "\<exists>k \<in> {BT_COLON, BT_NMSTRT}. type_tab enc = asciitab k @ utf8tab"
proof -
  have "enc = utf8_with (asciitab BT_COLON) \<or> enc = utf8_with (asciitab BT_NMSTRT)"
    using assms by (auto simp: utf8_encodings_def utf8_encoding_def utf8_encoding_ns_def)
  then show ?thesis by (elim disjE) (simp_all add: utf8_with_def)
qed

text \<open>The class of a byte in the UTF-8 encodings.\<close>

lemma utf8_types:
  fixes c :: char
  assumes "enc \<in> utf8_encodings"
  defines "t \<equiv> BYTE_TYPE enc c" and "i \<equiv> (of_char c :: nat)"
  shows "plain t \<longleftrightarrow> i < 128 \<and> xml_char i"
    and "t = BT_LEAD2 \<longleftrightarrow> 0xC0 \<le> i \<and> i < 0xE0"
    and "t = BT_LEAD3 \<longleftrightarrow> 0xE0 \<le> i \<and> i < 0xF0"
    and "t = BT_LEAD4 \<longleftrightarrow> 0xF0 \<le> i \<and> i < 0xF5"
    and "t = BT_LF \<longleftrightarrow> i = 10" and "t = BT_CR \<longleftrightarrow> i = 13"
    and "t = BT_RSQB \<longleftrightarrow> i = 93" and "t = BT_AMP \<longleftrightarrow> i = 38" and "t = BT_LT \<longleftrightarrow> i = 60"
proof -
  obtain k where k: "k \<in> {BT_COLON, BT_NMSTRT}" and "type_tab enc = asciitab k @ utf8tab"
    using utf8_tabs [OF assms(1)] by blast
  then have t: "t = (if i < 128 then asciitab k ! i else utf8tab ! (i - 128))"
    by (simp add: t_def i_def BYTE_TYPE_def nth_append length_tabs)
  have i: "i < 256" unfolding i_def by simp
  have "(plain t \<longleftrightarrow> i < 128 \<and> xml_char i) \<and> (t = BT_LEAD2 \<longleftrightarrow> 0xC0 \<le> i \<and> i < 0xE0)
    \<and> (t = BT_LEAD3 \<longleftrightarrow> 0xE0 \<le> i \<and> i < 0xF0) \<and> (t = BT_LEAD4 \<longleftrightarrow> 0xF0 \<le> i \<and> i < 0xF5)
    \<and> (t = BT_LF \<longleftrightarrow> i = 10) \<and> (t = BT_CR \<longleftrightarrow> i = 13)
    \<and> (t = BT_RSQB \<longleftrightarrow> i = 93) \<and> (t = BT_AMP \<longleftrightarrow> i = 38) \<and> (t = BT_LT \<longleftrightarrow> i = 60)"
  proof (cases "i < 128")
    case True
    have "xml_char i \<longleftrightarrow> i \<in> {9, 10, 13} \<or> 32 \<le> i" using True by (simp add: xml_char_def)
    moreover have "t = asciitab k ! i" using t True by simp
    moreover note enumerate_nth [OF asciitab_list [OF k], of i, unfolded length_tabs add_0 prod.case, OF True]
    moreover have "\<not> 0xC0 \<le> i" "\<not> 0xE0 \<le> i" "\<not> 0xF0 \<le> i" using True by linarith+
    ultimately show ?thesis using True
      by (simp only: insert_iff empty_iff de_Morgan_disj simp_thms)
  next
    case False
    then obtain j where j: "i = 128 + j" "j < 128" using i by (intro that [of "i - 128"]) auto
    note P = enumerate_nth [OF utf8tab_list, of j, unfolded length_tabs prod.case, OF j(2), folded j(1)]
    have u: "t = utf8tab ! j" using False unfolding t j(1) by simp
    have "\<not> plain t" using P unfolding u by (elim conjE)
    then have "t \<notin> {BT_LF, BT_CR, BT_RSQB, BT_AMP, BT_LT}" by (auto simp: plain_def)
    moreover have "i \<noteq> 10" "i \<noteq> 13" "i \<noteq> 93" "i \<noteq> 38" "i \<noteq> 60" using False by auto
    ultimately show ?thesis using False P unfolding u
      by (simp only: insert_iff empty_iff de_Morgan_disj simp_thms)
  qed
  then show "plain t \<longleftrightarrow> i < 128 \<and> xml_char i"
    "t = BT_LEAD2 \<longleftrightarrow> 0xC0 \<le> i \<and> i < 0xE0"
    "t = BT_LEAD3 \<longleftrightarrow> 0xE0 \<le> i \<and> i < 0xF0"
    "t = BT_LEAD4 \<longleftrightarrow> 0xF0 \<le> i \<and> i < 0xF5"
    "t = BT_LF \<longleftrightarrow> i = 10" "t = BT_CR \<longleftrightarrow> i = 13"
    "t = BT_RSQB \<longleftrightarrow> i = 93" "t = BT_AMP \<longleftrightarrow> i = 38" "t = BT_LT \<longleftrightarrow> i = 60"
    by - (elim conjE, assumption)+
qed

section \<open>Sequences\<close>

lemma high_bits_list:
  "list_all (\<lambda>b :: nat. (b AND 0x80 = 0 \<longleftrightarrow> b < 128) \<and> (b AND 0xC0 = 0xC0 \<longleftrightarrow> 192 \<le> b)) (0 # 1 # [2..<256])"
  by (simp add: upt_rec_numeral del: upt_Suc)

lemma high_bits:
  fixes b :: nat
  assumes "b < 256"
  shows "b AND 0x80 = 0 \<longleftrightarrow> b < 128" "b AND 0xC0 = 0xC0 \<longleftrightarrow> 192 \<le> b"
proof -
  have "b = 0 \<or> b = 1 \<or> b \<in> {2..<256}" unfolding atLeastLessThan_iff using assms by linarith
  then have "b \<in> set (0 # 1 # [2..<256])" by (simp only: list.set set_upt insert_iff)
  with high_bits_list show "b AND 0x80 = 0 \<longleftrightarrow> b < 128" "b AND 0xC0 = 0xC0 \<longleftrightarrow> 192 \<le> b"
    unfolding list_all_iff by blast+
qed

lemma valid_arith:
  "b1 < 256 \<Longrightarrow> \<not> UTF8_INVALID2 b0 b1 \<longleftrightarrow> 0xC2 \<le> b0 \<and> is_cont b1"
  "b1 < 256 \<Longrightarrow> b2 < 256 \<Longrightarrow> \<not> UTF8_INVALID3 b0 b1 b2 \<longleftrightarrow>
     is_cont b1 \<and> is_cont b2 \<and> (b0 = 0xE0 \<longrightarrow> 0xA0 \<le> b1) \<and> (b0 = 0xED \<longrightarrow> b1 \<le> 0x9F)
     \<and> (b0 = 0xEF \<and> b1 = 0xBF \<longrightarrow> b2 \<le> 0xBD)"
  "b1 < 256 \<Longrightarrow> b2 < 256 \<Longrightarrow> b3 < 256 \<Longrightarrow> \<not> UTF8_INVALID4 b0 b1 b2 b3 \<longleftrightarrow>
     is_cont b1 \<and> is_cont b2 \<and> is_cont b3 \<and> (b0 = 0xF0 \<longrightarrow> 0x90 \<le> b1) \<and> (b0 = 0xF4 \<longrightarrow> b1 \<le> 0x8F)"
  by (auto simp: UTF8_INVALID2_def UTF8_INVALID3_def UTF8_INVALID4_def high_bits is_cont_def)

text \<open>Where the bytes of a sequence let through lie, and what it codes.\<close>

lemma sequence2:
  assumes "192 \<le> b0" "b0 < 224" "b1 < 256" "\<not> UTF8_INVALID2 b0 b1"
  shows "\<exists>l. encode l = [char_of b0, char_of b1] \<and> xml_char l"
proof -
  have b: "0xC2 \<le> b0" "is_cont b1" using assms by (simp_all add: valid_arith)
  obtain q where q: "b0 = 192 + q" "2 \<le> q" "q < 32"
    using assms b by (intro that [of "b0 - 192"]) auto
  obtain w where w: "b1 = 128 + w" "w < 64" using b(2) by (rule cont_obtain)
  have "encode (q * 64 + w) = [char_of b0, char_of b1]"
    using q w by (simp add: encode_arith)
  moreover have "xml_char (q * 64 + w)" using q w by (simp add: xml_char_def)
  ultimately show ?thesis by blast
qed

lemma sequence3:
  assumes "224 \<le> b0" "b0 < 240" "b1 < 256" "b2 < 256" "\<not> UTF8_INVALID3 b0 b1 b2"
  shows "\<exists>l. encode l = [char_of b0, char_of b1, char_of b2] \<and> xml_char l"
proof -
  have b: "is_cont b1" "is_cont b2" "b0 = 0xE0 \<longrightarrow> 0xA0 \<le> b1" "b0 = 0xED \<longrightarrow> b1 \<le> 0x9F"
    "b0 = 0xEF \<and> b1 = 0xBF \<longrightarrow> b2 \<le> 0xBD" using assms by (simp_all add: valid_arith)
  obtain q where q: "b0 = 224 + q" "q < 16"
    using assms by (intro that [of "b0 - 224"]) auto
  obtain v where v: "b1 = 128 + v" "v < 64" using b(1) by (rule cont_obtain)
  obtain w where w: "b2 = 128 + w" "w < 64" using b(2) by (rule cont_obtain)
  let ?l = "(q * 64 + v) * 64 + w"
  have c: "q = 0 \<longrightarrow> 32 \<le> v" "q = 13 \<longrightarrow> v \<le> 31" "q = 15 \<and> v = 63 \<longrightarrow> w \<le> 61"
    using b q v w by auto
  have l: "2048 \<le> ?l" "?l < 65536" using c q v w by (cases "q = 0"; simp)+
  have "?l div 64 = q * 64 + v" "?l mod 64 = w" using w(2) by (simp_all only: low64)
  moreover have "?l div 4096 = q" using v w by simp
  ultimately have "encode ?l = [char_of b0, char_of b1, char_of b2]"
    using l q v w by (simp add: encode_arith)
  moreover have "xml_char ?l"
  proof -
    have "q \<le> 12 \<or> q = 13 \<or> q = 14 \<or> q = 15 \<and> v \<le> 62 \<or> q = 15 \<and> v = 63"
      using q v by linarith
    then have "?l \<le> 0xD7FF \<or> 0xE000 \<le> ?l \<and> ?l \<le> 0xFFFD"
      by (elim disjE) (use c v w in auto)
    then show ?thesis using l by (auto simp: xml_char_def)
  qed
  ultimately show ?thesis by blast
qed

lemma sequence4:
  assumes "240 \<le> b0" "b0 < 245" "b1 < 256" "b2 < 256" "b3 < 256" "\<not> UTF8_INVALID4 b0 b1 b2 b3"
  shows "\<exists>l. encode l = [char_of b0, char_of b1, char_of b2, char_of b3] \<and> xml_char l"
proof -
  have b: "is_cont b1" "is_cont b2" "is_cont b3" "b0 = 0xF0 \<longrightarrow> 0x90 \<le> b1" "b0 = 0xF4 \<longrightarrow> b1 \<le> 0x8F"
    using assms by (simp_all add: valid_arith)
  obtain q where q: "b0 = 240 + q" "q < 5"
    using assms by (intro that [of "b0 - 240"]) auto
  obtain u where u: "b1 = 128 + u" "u < 64" using b(1) by (rule cont_obtain)
  obtain v where v: "b2 = 128 + v" "v < 64" using b(2) by (rule cont_obtain)
  obtain w where w: "b3 = 128 + w" "w < 64" using b(3) by (rule cont_obtain)
  let ?l = "((q * 64 + u) * 64 + v) * 64 + w"
  have c: "q = 0 \<longrightarrow> 16 \<le> u" "q = 4 \<longrightarrow> u \<le> 15" using b q u by auto
  have "q = 0 \<or> 1 \<le> q \<and> q \<le> 3 \<or> q = 4" using q by linarith
  then have l: "65536 \<le> ?l \<and> ?l \<le> 0x10FFFF"
    by (elim disjE) (use c u v w in auto)
  have "((b0 * 64 + (b1 - 128)) * 64 + (b2 - 128)) * 64 + (b3 - 128) = 62914560 + ?l"
    using q u v w by simp
  moreover have "(62914560 + ?l) mod 2097152 = ?l"
    using l by (intro drop_multiple [where k = 30]) simp_all
  ultimately have "encode ?l = [char_of b0, char_of b1, char_of b2, char_of b3]"
    using b l assms(1,2) by (intro decode_four) simp_all
  with l show ?thesis by (auto simp: xml_char_def)
qed

lemma sequence_valid:
  assumes "n \<in> {2, 3, 4}" "n \<le> length s" "\<not> utf8_invalid n (take n s)"
    and lead: "n = 2 \<longrightarrow> 192 \<le> byte_at s 0 \<and> byte_at s 0 < 224"
      "n = 3 \<longrightarrow> 224 \<le> byte_at s 0 \<and> byte_at s 0 < 240"
      "n = 4 \<longrightarrow> 240 \<le> byte_at s 0 \<and> byte_at s 0 < 245"
  shows "\<exists>r. take n s = runetochar r \<and> xml_char (unat r)"
proof -
  have at: "byte_at (take n s) i = byte_at s i" if "i < n" for i
    using that assms(2) by (simp add: byte_at_def)
  have "\<exists>l. take n s = encode l \<and> xml_char l"
    using assms(1)
  proof (elim insertE emptyE)
    assume n: "n = 2"
    with assms(3) at [of 0] at [of 1] have "\<not> UTF8_INVALID2 (byte_at s 0) (byte_at s 1)"
      by (simp add: utf8_invalid_def)
    with n lead show ?thesis using sequence2 [of "byte_at s 0" "byte_at s 1"] take_few(2) [of s] assms(2)
      by (metis byte_at_less)
  next
    assume n: "n = 3"
    with assms(3) at [of 0] at [of 1] at [of 2]
    have "\<not> UTF8_INVALID3 (byte_at s 0) (byte_at s 1) (byte_at s 2)"
      by (simp add: utf8_invalid_def)
    with n lead show ?thesis
      using sequence3 [of "byte_at s 0" "byte_at s 1" "byte_at s 2"] take_few(3) [of s] assms(2)
      by (metis byte_at_less)
  next
    assume n: "n = 4"
    with assms(3) at [of 0] at [of 1] at [of 2] at [of 3]
    have "\<not> UTF8_INVALID4 (byte_at s 0) (byte_at s 1) (byte_at s 2) (byte_at s 3)"
      by (simp add: utf8_invalid_def)
    with n lead show ?thesis
      using sequence4 [of "byte_at s 0" "byte_at s 1" "byte_at s 2" "byte_at s 3"] take_few(4) [of s] assms(2)
      by (metis byte_at_less)
  qed
  then obtain l where l: "take n s = encode l" "xml_char l" by blast
  have "l \<le> Runemax" using l(2) by (auto simp: xml_char_def)
  then have "runetochar (of_nat l) = encode l" "unat (of_nat l :: rune) = l"
    by (simp_all add: runetochar_def unat_rune)
  with l show ?thesis by metis
qed

section \<open>One character of data\<close>

lemma utf8_enc_invalid: "enc \<in> utf8_encodings \<Longrightarrow> isInvalid enc = utf8_invalid"
  by (auto simp: utf8_encodings_def utf8_encoding_def utf8_encoding_ns_def utf8_with_def)

definition seq_len :: "byte_type \<Rightarrow> nat" where
  "seq_len t = (if t = BT_LEAD2 then 2 else if t = BT_LEAD3 then 3 else if t = BT_LEAD4 then 4 else 1)"

lemma runetochar_nat: "l \<le> Runemax \<Longrightarrow> runetochar (of_nat l) = encode l"
  by (simp add: runetochar_def unat_rune)

lemma runetochar_xml: "xml_char (unat r) \<Longrightarrow> runetochar r = encode (unat r)"
  by (auto simp: runetochar_def xml_char_def)

lemma lead_bytes_at:
  assumes "enc \<in> utf8_encodings" "s \<noteq> []"
  shows "BYTE_TYPE enc (hd s) = BT_LEAD2 \<longleftrightarrow> 192 \<le> byte_at s 0 \<and> byte_at s 0 < 224"
    "BYTE_TYPE enc (hd s) = BT_LEAD3 \<longleftrightarrow> 224 \<le> byte_at s 0 \<and> byte_at s 0 < 240"
    "BYTE_TYPE enc (hd s) = BT_LEAD4 \<longleftrightarrow> 240 \<le> byte_at s 0 \<and> byte_at s 0 < 245"
    "plain (BYTE_TYPE enc (hd s)) \<longleftrightarrow> byte_at s 0 < 128 \<and> xml_char (byte_at s 0)"
  using assms(2) utf8_types [OF assms(1), of "hd s"] by (cases s; simp)+

text \<open>A sequence of a lead byte that passes the test.\<close>

lemma lead_valid:
  assumes "enc \<in> utf8_encodings" "s \<noteq> []" "seq_len (BYTE_TYPE enc (hd s)) = n" "n \<noteq> 1"
    "n \<le> length s" "\<not> isInvalid enc n (take n s)"
  shows "\<exists>r. take n s = runetochar r \<and> xml_char (unat r) \<and> 128 \<le> unat r"
proof -
  have n: "n \<in> {2, 3, 4}" using assms(3,4) by (auto simp: seq_len_def split: if_split_asm)
  have "\<exists>r. take n s = runetochar r \<and> xml_char (unat r)"
    using assms(3,4,6) lead_bytes_at [OF assms(1,2)]
    by (intro sequence_valid [OF n assms(5)])
      (auto simp: utf8_enc_invalid [OF assms(1)] seq_len_def split: if_split_asm)
  then obtain r where r: "take n s = runetochar r" "xml_char (unat r)" by blast
  have "length (runetochar r) = n" using r(1) assms(5) by (metis length_take min.absorb2)
  then have "128 \<le> unat r"
    using n r(2) by (auto simp: runetochar_xml length_encode split: if_split_asm)
  with r show ?thesis by blast
qed

text \<open>The code of a character allowed passes it.\<close>

lemma encode_valid:
  assumes "xml_char l" "128 \<le> l"
  obtains n where "n \<in> {2, 3, 4}" "length (encode l) = n" "\<not> utf8_invalid n (encode l)"
    "n = 2 \<longrightarrow> 192 \<le> byte_at (encode l) 0 \<and> byte_at (encode l) 0 < 224"
    "n = 3 \<longrightarrow> 224 \<le> byte_at (encode l) 0 \<and> byte_at (encode l) 0 < 240"
    "n = 4 \<longrightarrow> 240 \<le> byte_at (encode l) 0 \<and> byte_at (encode l) 0 < 245"
proof -
  have m: "l mod 64 < 64" "l div 64 mod 64 < 64" "l div 4096 mod 64 < 64" by simp_all
  consider (2) "l < 2048" | (3) "2048 \<le> l" "l < 65536" | (4) "65536 \<le> l" "l \<le> 0x10FFFF"
    using assms(1) by (fastforce simp: xml_char_def)
  then show thesis
  proof cases
    case 2
    then have "l div 64 < 32" "2 \<le> l div 64" using assms(2) by auto
    then show thesis using 2 assms(2) m
      by (intro that [of 2]) (simp_all add: encode_arith utf8_invalid_def valid_arith is_cont_def)
  next
    case 3
    obtain a b c where abc: "l div 4096 = a" "l div 64 mod 64 = b" "l mod 64 = c"
      and l: "l = (a * 64 + b) * 64 + c"
      using join3 [of l] by metis
    have l: "l = 4096 * a + 64 * b + c" using l by simp
    have lt: "b < 64" "c < 64" using abc by auto
    have x: "l \<le> 0xD7FF \<or> 0xE000 \<le> l \<and> l \<le> 0xFFFD"
      using assms(1) 3 by (auto simp: xml_char_def)
    have "a < 16" using 3 l by linarith
    moreover have "32 \<le> b" if "a = 0" using that 3 l lt by linarith
    moreover have "b \<le> 31" if "a = 13" using that x l lt by linarith
    moreover have "c \<le> 61" if "a = 15" "b = 63" using that x l lt by linarith
    ultimately show thesis using 3 lt
      by (intro that [of 3]) (auto simp: encode_arith abc utf8_invalid_def valid_arith is_cont_def)
  next
    case 4
    obtain a b c d where abc: "l div 262144 = a" "l div 4096 mod 64 = b" "l div 64 mod 64 = c" "l mod 64 = d"
      and l: "l = ((a * 64 + b) * 64 + c) * 64 + d"
      using join4 [of l] by metis
    have l: "l = 262144 * a + 4096 * b + 64 * c + d" using l by simp
    have lt: "b < 64" "c < 64" "d < 64" using abc by auto
    have a: "a < 5" using 4 l by linarith
    moreover have "16 \<le> b" if "a = 0" using that 4 l lt by linarith
    moreover have "b \<le> 15" if "a = 4" using that 4 l lt by linarith
    moreover have "T4 OR a = 240 + a" by (intro lead_or) (use a in linarith)
    ultimately show thesis using 4 lt
      by (intro that [of 4]) (auto simp: encode_arith abc utf8_invalid_def valid_arith is_cont_def)
  qed
qed

lemma seq_len_cases:
  assumes "enc \<in> utf8_encodings" "s \<noteq> []"
  shows "seq_len (BYTE_TYPE enc (hd s)) = 2 \<longleftrightarrow> 192 \<le> byte_at s 0 \<and> byte_at s 0 < 224"
    "seq_len (BYTE_TYPE enc (hd s)) = 3 \<longleftrightarrow> 224 \<le> byte_at s 0 \<and> byte_at s 0 < 240"
    "seq_len (BYTE_TYPE enc (hd s)) = 4 \<longleftrightarrow> 240 \<le> byte_at s 0 \<and> byte_at s 0 < 245"
  using lead_bytes_at [OF assms] by (auto simp: seq_len_def)

lemma data_step_seq:
  "data_step enc s =
     (let t = BYTE_TYPE enc (hd s); n = seq_len t in
      if n \<noteq> 1 then data_lead enc n s
      else if \<not> plain t \<or> t \<in> {BT_CR, BT_LF} then None else Some (tl s))"
  by (auto simp: data_step_def seq_len_def plain_def Let_def)

lemma data_step_Some:
  assumes "enc \<in> utf8_encodings" "s \<noteq> []" "data_step enc s = Some s'"
  shows "\<exists>r. s = runetochar r @ s' \<and> xml_char (unat r) \<and> unat r \<notin> {10, 13}"
proof (cases "seq_len (BYTE_TYPE enc (hd s)) = 1")
  case True
  with assms(3) have t: "plain (BYTE_TYPE enc (hd s))" "BYTE_TYPE enc (hd s) \<notin> {BT_CR, BT_LF}" "s' = tl s"
    by (auto simp: data_step_seq Let_def split: if_split_asm)
  have l: "byte_at s 0 < 128" "xml_char (byte_at s 0)" using t(1) lead_bytes_at [OF assms(1,2)] by auto
  have h: "byte_at s 0 = of_char (hd s)" using assms(2) by (cases s) auto
  have "byte_at s 0 \<notin> {10, 13}" using t(2) utf8_types(5,6) [OF assms(1), of "hd s"] h by auto
  moreover have "s = encode (byte_at s 0) @ s'"
    using l(1) t(3) h assms(2) by (simp add: encode_def)
  ultimately show ?thesis using l
    by (intro exI [of _ "of_nat (byte_at s 0)"]) (simp add: runetochar_nat unat_rune)
next
  case False
  let ?n = "seq_len (BYTE_TYPE enc (hd s))"
  have d: "?n \<le> length s" "\<not> isInvalid enc ?n (take ?n s)" "s' = drop ?n s"
    using False assms(3) by (auto simp: data_step_seq data_lead_def Let_def split: if_split_asm)
  obtain r where r: "take ?n s = runetochar r" "xml_char (unat r)" "128 \<le> unat r"
    using lead_valid [OF assms(1,2) refl False d(1,2)] by blast
  then have "s = runetochar r @ s'" using d(3) by (metis append_take_drop_id)
  with r(2,3) show ?thesis by auto
qed

lemma data_step_runetochar:
  assumes "enc \<in> utf8_encodings" "xml_char (unat r)" "unat r \<notin> {10, 13}"
  shows "data_step enc (runetochar r @ s) = Some s"
proof (cases "unat r < 128")
  case True
  define c :: char where "c = char_of (unat r)"
  have c: "of_char c = unat r" unfolding c_def using True by simp
  have e: "runetochar r = [c]" unfolding c_def using True by (simp add: runetochar_xml [OF assms(2)] encode_def)
  have "plain (BYTE_TYPE enc c)" "BYTE_TYPE enc c \<notin> {BT_CR, BT_LF}"
    using utf8_types(1,5,6) [OF assms(1), of c] True assms(2,3) c by auto
  then show ?thesis by (auto simp: e data_step_seq Let_def seq_len_def plain_def)
next
  case False
  then have ge: "128 \<le> unat r" by simp
  obtain n where n: "n \<in> {2, 3, 4}" "length (encode (unat r)) = n" "\<not> utf8_invalid n (encode (unat r))"
    and lead: "n = 2 \<longrightarrow> 192 \<le> byte_at (encode (unat r)) 0 \<and> byte_at (encode (unat r)) 0 < 224"
      "n = 3 \<longrightarrow> 224 \<le> byte_at (encode (unat r)) 0 \<and> byte_at (encode (unat r)) 0 < 240"
      "n = 4 \<longrightarrow> 240 \<le> byte_at (encode (unat r)) 0 \<and> byte_at (encode (unat r)) 0 < 245"
    by (rule encode_valid [OF assms(2) ge])
  have "byte_at (encode (unat r) @ s) 0 = byte_at (encode (unat r)) 0"
    using n(1,2) by (intro byte_at_append_left) auto
  moreover have ne: "encode (unat r) @ s \<noteq> []" using n(1,2) by auto
  ultimately have l: "seq_len (BYTE_TYPE enc (hd (encode (unat r) @ s))) = n"
    using n(1) lead seq_len_cases [OF assms(1) ne]
    by (elim insertE emptyE) simp_all
  have "n \<noteq> 1" using n(1) by auto
  then show ?thesis using n(2,3)
    unfolding data_step_seq Let_def runetochar_xml [OF assms(2)] l data_lead_def utf8_enc_invalid [OF assms(1)]
    by simp
qed

section \<open>Runs of data\<close>

definition data_rune :: "rune \<Rightarrow> bool" where
  "data_rune r \<longleftrightarrow> xml_char (unat r) \<and> unat r \<notin> {10, 13}"

lemma char_of_byte: "of_char c = n \<Longrightarrow> char_of n = c" for n :: nat
  by auto

lemma byte_rsqb: "runetochar 0x5D = '']''" "data_rune 0x5D" "runetochar 0x3E = ''>''"
  by (simp_all add: runetochar_def encode_def char_of_byte data_rune_def xml_char_def)

lemma hd_rsqb: "enc \<in> utf8_encodings \<Longrightarrow> BYTE_TYPE enc c = BT_RSQB \<longleftrightarrow> c = CHR '']''"
  using utf8_types(7) [of enc c] char_of_byte [of c 93] char_of_byte [of "CHR '']''" 93] by auto

lemma data_step_rune:
  "enc \<in> utf8_encodings \<Longrightarrow> s \<noteq> [] \<Longrightarrow> data_step enc s = Some s' \<longleftrightarrow> (\<exists>r. s = runetochar r @ s' \<and> data_rune r)"
  using data_step_Some data_step_runetochar by (auto simp: data_rune_def)

lemma hd_runetochar:
  assumes "xml_char (unat r)" "unat r < 128"
  shows "hd (runetochar r @ s) = char_of (unat r)"
  using assms by (simp add: runetochar_xml encode_def)

text \<open>A section that ends with \<open>]]>\<close> is not in a run.\<close>

definition no_section_end :: "rune list \<Rightarrow> bool" where
  "no_section_end rs \<longleftrightarrow> (\<forall>as bs. rs \<noteq> as @ [0x5D, 0x5D, 0x3E] @ bs)"

lemma no_section_end_Nil [simp]: "no_section_end []"
  by (simp add: no_section_end_def)

lemma no_section_end_Cons:
  "no_section_end rs \<Longrightarrow> (r = 0x5D \<longrightarrow> (\<forall>bs. rs \<noteq> [0x5D, 0x3E] @ bs)) \<Longrightarrow> no_section_end (r # rs)"
  unfolding no_section_end_def
proof (intro allI notI)
  fix as bs
  assume "\<forall>as bs. rs \<noteq> as @ [0x5D, 0x5D, 0x3E] @ bs" "r = 0x5D \<longrightarrow> (\<forall>bs. rs \<noteq> [0x5D, 0x3E] @ bs)"
    "r # rs = as @ [0x5D, 0x5D, 0x3E] @ bs"
  then show False by (cases as) auto
qed

definition content_rune :: "rune \<Rightarrow> bool" where
  "content_rune r \<longleftrightarrow> data_rune r \<and> unat r \<notin> {38, 60}"

lemma step_content_rune:
  assumes "enc \<in> utf8_encodings" "s \<noteq> []" "data_step enc s = Some s'"
    "BYTE_TYPE enc (hd s) \<notin> {BT_AMP, BT_LT}"
  shows "\<exists>r. s = runetochar r @ s' \<and> content_rune r"
proof -
  obtain r where r: "s = runetochar r @ s'" "data_rune r"
    using assms data_step_rune by blast
  have "unat r \<notin> {38, 60}"
  proof
    assume "unat r \<in> {38, 60}"
    with r have "of_char (hd s) \<in> {38, 60 :: nat}"
      by (auto simp: hd_runetochar data_rune_def)
    with assms(4) utf8_types(8,9) [OF assms(1), of "hd s"] show False by auto
  qed
  with r show ?thesis by (auto simp: content_rune_def)
qed

lemma content_step:
  assumes enc: "enc \<in> utf8_encodings" and C: "content_chars enc s = (XML_TOK_DATA_CHARS, Some p)"
  shows "p = s \<or> (\<exists>r s'. s = runetochar r @ s' \<and> content_rune r
    \<and> content_chars enc s' = (XML_TOK_DATA_CHARS, Some p) \<and> (r = 0x5D \<longrightarrow> (\<forall>u. s' \<noteq> '']>'' @ u)))"
proof (rule disjCI)
  assume ps: "\<not> (\<exists>r s'. s = runetochar r @ s' \<and> content_rune r
    \<and> content_chars enc s' = (XML_TOK_DATA_CHARS, Some p) \<and> (r = 0x5D \<longrightarrow> (\<forall>u. s' \<noteq> '']>'' @ u)))"
  note C = C [unfolded content_chars.simps [of enc s]]
  show "p = s"
  proof (cases s)
    case Nil
    with C show ?thesis by simp
  next
    case (Cons c s1)
    show ?thesis
    proof (cases "BYTE_TYPE enc c = BT_RSQB")
      case True
      then have c: "s = runetochar 0x5D @ s1" using Cons hd_rsqb [OF enc] byte_rsqb by simp
      have k: "content_rune 0x5D" by (simp add: content_rune_def byte_rsqb)
      from ps c k have "content_chars enc s1 = (XML_TOK_DATA_CHARS, Some p) \<Longrightarrow> \<exists>u. s1 = '']>'' @ u"
        by blast
      with C Cons True show ?thesis by (auto split: list.split_asm if_split_asm)
    next
      case False
      note C' = C [unfolded Cons list.sel]
      show ?thesis
      proof (cases "BYTE_TYPE enc c \<in> {BT_AMP, BT_LT}")
        case True
        with C' False Cons show ?thesis by (auto split: if_split_asm)
      next
        case notin: False
        show ?thesis
        proof (cases "data_step enc s")
          case None
          with C' False notin Cons show ?thesis by (auto split: if_split_asm)
        next
          case (Some s')
          then obtain r where r: "s = runetochar r @ s'" "content_rune r"
            using step_content_rune [OF enc _ Some] notin Cons by auto
          have "content_chars enc s' = (XML_TOK_DATA_CHARS, Some p)"
            using C' False notin Some Cons by (auto split: if_split_asm)
          moreover have "r \<noteq> 0x5D"
          proof
            assume "r = 0x5D"
            then have "s = CHR '']'' # s'" using r(1) by (simp add: byte_rsqb)
            with False Cons hd_rsqb [OF enc] show False by simp
          qed
          ultimately show ?thesis using ps r by blast
        qed
      qed
    qed
  qed
qed

lemma content_run:
  assumes "enc \<in> utf8_encodings" "content_chars enc s = (XML_TOK_DATA_CHARS, Some p)"
  shows "\<exists>rs. s = utf8 rs @ p \<and> list_all content_rune rs \<and> no_section_end rs"
  using assms(2)
proof (induction "length s" arbitrary: s rule: less_induct)
  case less
  show ?case
  proof (cases "p = s")
    case True
    then show ?thesis by (intro exI [of _ "[]"]) simp
  next
    case False
    with content_step [OF assms(1) less.prems] obtain r s'
      where r: "s = runetochar r @ s'" "content_rune r" "r = 0x5D \<longrightarrow> (\<forall>u. s' \<noteq> '']>'' @ u)"
        and s': "content_chars enc s' = (XML_TOK_DATA_CHARS, Some p)" by blast
    have "length s' < length s" using r(1) runelen_pos [of r] by (simp add: runelen_def)
    from less.hyps [OF this s'] obtain rs
      where rs: "s' = utf8 rs @ p" "list_all content_rune rs" "no_section_end rs" by blast
    have "rs \<noteq> [0x5D, 0x3E] @ bs" if "r = 0x5D" for bs
      using r(3) that rs(1) by (auto simp: byte_rsqb)
    with rs(3) have "no_section_end (r # rs)" by (intro no_section_end_Cons) auto
    with rs r(2) show ?thesis by (intro exI [of _ "r # rs"]) (simp add: r(1))
  qed
qed

lemma cdata_run:
  assumes "enc \<in> utf8_encodings"
  shows "\<exists>rs. s = utf8 rs @ cdata_chars enc s \<and> list_all (\<lambda>r. data_rune r \<and> r \<noteq> 0x5D) rs"
proof (induction "length s" arbitrary: s rule: less_induct)
  case less
  show ?case
  proof (cases "s \<noteq> [] \<and> BYTE_TYPE enc (hd s) \<noteq> BT_RSQB \<and> data_step enc s \<noteq> None")
    case False
    then have "cdata_chars enc s = s" by (auto simp: cdata_chars.simps [of enc s])
    then show ?thesis by (intro exI [of _ "[]"]) simp
  next
    case True
    then obtain s' where s': "data_step enc s = Some s'" by blast
    with True have c: "cdata_chars enc s = cdata_chars enc s'" by (simp add: cdata_chars.simps [of enc s])
    obtain r where r: "s = runetochar r @ s'" "data_rune r"
      using data_step_rune [OF assms] True s' by blast
    have ne: "r \<noteq> 0x5D"
    proof
      assume "r = 0x5D"
      then have "s = CHR '']'' # s'" using r(1) by (simp add: byte_rsqb)
      with True hd_rsqb [OF assms] show False by simp
    qed
    have "length s' < length s" using r(1) runelen_pos [of r] by (simp add: runelen_def)
    from less.hyps [OF this] obtain rs
      where "s' = utf8 rs @ cdata_chars enc s'" "list_all (\<lambda>r. data_rune r \<and> r \<noteq> 0x5D) rs" by blast
    with r(2) ne show ?thesis unfolding c by (intro exI [of _ "r # rs"]) (simp add: r(1))
  qed
qed

lemma invalid_cases_step:
  assumes "BYTE_TYPE enc (hd s) \<notin> {BT_CR, BT_LF}"
  shows "invalid_cases enc s = Move s' \<Longrightarrow> data_step enc s = Some s'"
    "invalid_cases enc s = Other \<Longrightarrow> data_step enc s = Some (tl s)"
  using assms
  by (auto simp: invalid_cases_def data_step_def data_lead_def lead_step_def Let_def split: if_split_asm)

lemma invalid_cases_Stop:
  "invalid_cases enc s = Stop r \<Longrightarrow> fst r \<noteq> XML_TOK_DATA_CHARS"
  by (auto simp: invalid_cases_def lead_step_def Let_def split: if_split_asm)

lemma no_section_end_inner: "0x5D \<notin> set rs \<Longrightarrow> no_section_end (r # rs)"
  by (rule no_section_end_Cons) (auto simp: no_section_end_def)

lemma content_first:
  assumes "enc \<in> utf8_encodings" "contentTok enc s = (XML_TOK_DATA_CHARS, Some p)"
  shows "\<exists>r s'. s = runetochar r @ s' \<and> content_rune r
    \<and> content_chars enc s' = (XML_TOK_DATA_CHARS, Some p) \<and> (r = 0x5D \<longrightarrow> (\<forall>u. s' \<noteq> '']>'' @ u))"
proof (cases s)
  case Nil
  with assms(2) show ?thesis by (simp add: contentTok_def)
next
  case (Cons c s1)
  have t: "BYTE_TYPE enc c \<notin> {BT_LT, BT_AMP, BT_CR, BT_LF}"
  proof
    assume t: "BYTE_TYPE enc c \<in> {BT_LT, BT_AMP, BT_CR, BT_LF}"
    have "\<not> reach markup_tokens s1 (XML_TOK_DATA_CHARS, Some p)"
      "\<not> reach {XML_TOK_ENTITY_REF, XML_TOK_CHAR_REF} s1 (XML_TOK_DATA_CHARS, Some p)"
      by (auto simp: markup_tokens_def)
    with t assms(2) reach_scanLt [of s1 enc] reach_scanRef [of s1 enc] show False
      by (auto simp: contentTok_def Cons split: list.split_asm)
  qed
  show ?thesis
  proof (cases "BYTE_TYPE enc c = BT_RSQB")
    case True
    have "s = runetochar 0x5D @ s1" using True hd_rsqb [OF assms(1)] by (simp add: Cons byte_rsqb)
    moreover have "content_chars enc s1 = (XML_TOK_DATA_CHARS, Some p) \<and> (\<forall>u. s1 \<noteq> '']>'' @ u)"
      using assms(2) t True
      by (cases s1; cases "tl s1") (auto simp: contentTok_def Cons split: if_split_asm)
    moreover have "content_rune 0x5D" by (simp add: content_rune_def byte_rsqb)
    ultimately show ?thesis by blast
  next
    case False
    have "\<exists>s'. data_step enc s = Some s' \<and> content_chars enc s' = (XML_TOK_DATA_CHARS, Some p)"
    proof (cases "invalid_cases enc s")
      case (Stop r)
      then show ?thesis using invalid_cases_Stop [OF Stop] assms(2) t False
        by (auto simp: contentTok_def Cons)
    next
      case (Move s')
      then show ?thesis using invalid_cases_step(1) [of enc s s'] assms(2) t False
        by (auto simp: contentTok_def Cons)
    next
      case Other
      then show ?thesis using invalid_cases_step(2) [of enc s] assms(2) t False
        by (auto simp: contentTok_def Cons)
    qed
    then obtain s' where s': "data_step enc s = Some s'" "content_chars enc s' = (XML_TOK_DATA_CHARS, Some p)"
      by blast
    obtain r where r: "s = runetochar r @ s'" "content_rune r"
      using step_content_rune [OF assms(1) _ s'(1)] t Cons by auto
    have "r \<noteq> 0x5D"
    proof
      assume "r = 0x5D"
      then have "s = CHR '']'' # s'" using r(1) by (simp add: byte_rsqb)
      with False Cons hd_rsqb [OF assms(1)] show False by simp
    qed
    with r s'(2) show ?thesis by blast
  qed
qed

lemma cdata_first:
  assumes enc: "enc \<in> utf8_encodings" and C: "cdataSectionTok enc s = (XML_TOK_DATA_CHARS, Some p)"
  shows "\<exists>r rs. s = utf8 (r # rs) @ p \<and> list_all data_rune (r # rs) \<and> no_section_end (r # rs)"
proof -
  have "\<exists>r s'. s = runetochar r @ s' \<and> data_rune r \<and> p = cdata_chars enc s'"
  proof (cases s)
    case Nil
    with C show ?thesis by (simp add: cdataSectionTok_def)
  next
    case (Cons c s1)
    have t: "BYTE_TYPE enc c \<notin> {BT_CR, BT_LF}"
      using C by (auto simp: cdataSectionTok_def Cons split: list.split_asm)
    show ?thesis
    proof (cases "BYTE_TYPE enc c = BT_RSQB")
      case True
      have "s = runetochar 0x5D @ s1" using True hd_rsqb [OF enc] by (simp add: Cons byte_rsqb)
      moreover have "p = cdata_chars enc s1"
        using C True by (cases s1; cases "tl s1") (auto simp: cdataSectionTok_def Cons split: if_split_asm)
      ultimately show ?thesis using byte_rsqb(2) by blast
    next
      case False
      have "\<exists>s'. data_step enc s = Some s' \<and> p = cdata_chars enc s'"
      proof (cases "invalid_cases enc s")
        case (Stop r)
        then show ?thesis using invalid_cases_Stop [OF Stop] C t False
          by (auto simp: cdataSectionTok_def Cons)
      next
        case (Move s')
        then show ?thesis using invalid_cases_step(1) [of enc s s'] C t False
          by (auto simp: cdataSectionTok_def Cons)
      next
        case Other
        then show ?thesis using invalid_cases_step(2) [of enc s] C t False
          by (auto simp: cdataSectionTok_def Cons)
      qed
      then show ?thesis using data_step_rune [OF enc, of s] Cons by auto
    qed
  qed
  then obtain r s' where r: "s = runetochar r @ s'" "data_rune r" "p = cdata_chars enc s'" by blast
  obtain rs where rs: "s' = utf8 rs @ p" "list_all (\<lambda>r. data_rune r \<and> r \<noteq> 0x5D) rs"
    using cdata_run [OF enc, of s'] r(3) by blast
  have "0x5D \<notin> set rs" using rs(2) by (auto simp: list_all_iff)
  then have "no_section_end (r # rs)" by (rule no_section_end_inner)
  moreover have "s = utf8 (r # rs) @ p" by (simp add: r(1) rs(1))
  moreover have "list_all data_rune (r # rs)" using r(2) rs(2) by (auto simp: list_all_iff)
  ultimately show ?thesis by blast
qed

text \<open>A run is taken to its end.\<close>

lemma hd_rune:
  assumes "xml_char (unat r)"
  shows "(of_char (hd (runetochar r @ s)) :: nat) = unat r \<and> unat r < 128
    \<or> 128 \<le> (of_char (hd (runetochar r @ s)) :: nat) \<and> 128 \<le> unat r"
proof (cases "unat r < 128")
  case True
  then show ?thesis by (simp add: hd_runetochar [OF assms])
next
  case False
  then have ge: "128 \<le> unat r" by simp
  obtain n where n: "n \<in> {2, 3, 4}" "length (encode (unat r)) = n" "\<not> utf8_invalid n (encode (unat r))"
    and lead: "n = 2 \<longrightarrow> 192 \<le> byte_at (encode (unat r)) 0 \<and> byte_at (encode (unat r)) 0 < 224"
      "n = 3 \<longrightarrow> 224 \<le> byte_at (encode (unat r)) 0 \<and> byte_at (encode (unat r)) 0 < 240"
      "n = 4 \<longrightarrow> 240 \<le> byte_at (encode (unat r)) 0 \<and> byte_at (encode (unat r)) 0 < 245"
    by (rule encode_valid [OF assms ge])
  have "128 \<le> byte_at (encode (unat r)) 0" using n(1) lead by auto
  moreover have "encode (unat r) \<noteq> []" using n(1,2) by auto
  ultimately have "128 \<le> (of_char (hd (runetochar r @ s)) :: nat)"
    by (cases "encode (unat r)") (simp_all add: runetochar_xml [OF assms])
  with ge show ?thesis by simp
qed

lemma content_rune_hd:
  assumes "enc \<in> utf8_encodings" "content_rune r"
  shows "BYTE_TYPE enc (hd (runetochar r @ s)) \<notin> {BT_AMP, BT_LT, BT_CR, BT_LF}"
proof -
  have "of_char (hd (runetochar r @ s)) \<notin> {38, 60, 10, 13 :: nat}"
    using hd_rune [of r s] assms(2) by (auto simp: content_rune_def data_rune_def)
  then show ?thesis using utf8_types(5,6,8,9) [OF assms(1)] by auto
qed

lemma utf8_hd:
  assumes "hd (utf8 rs @ CHR ''<'' # v) = c" "list_all content_rune rs" "of_char c < (128 :: nat)" "c \<noteq> CHR ''<''"
  shows "\<exists>rs'. rs = of_char c # rs'"
proof (cases rs)
  case Nil
  with assms(1,4) show ?thesis by simp
next
  case (Cons r rs')
  have "xml_char (unat r)" using assms(2) by (simp add: Cons content_rune_def data_rune_def)
  from hd_rune [OF this, of "utf8 rs' @ CHR ''<'' # v"] assms(1,3) have "of_char c = unat r"
    by (auto simp: Cons)
  then have "(of_char c :: rune) = r" by (metis of_nat_of_char of_nat_unat_le le_refl)
  with Cons show ?thesis by simp
qed

lemma content_run_taken:
  assumes enc: "enc \<in> utf8_encodings"
  shows "list_all content_rune rs \<Longrightarrow> no_section_end rs \<Longrightarrow>
    content_chars enc (utf8 rs @ CHR ''<'' # v) = (XML_TOK_DATA_CHARS, Some (CHR ''<'' # v))"
proof (induction rs)
  case Nil
  have "BYTE_TYPE enc (CHR ''<'') = BT_LT" using utf8_types(9) [OF enc, of "CHR ''<''"] by simp
  then show ?case by (subst content_chars.simps) simp
next
  case (Cons r rs)
  let ?s = "utf8 rs @ CHR ''<'' # v"
  have n: "no_section_end rs" "r = 0x5D \<Longrightarrow> rs \<noteq> [0x5D, 0x3E] @ bs" for bs
    using Cons.prems(2) unfolding no_section_end_def by (metis append_Cons, metis append_Cons append_Nil)
  have IH: "content_chars enc ?s = (XML_TOK_DATA_CHARS, Some (CHR ''<'' # v))"
    using Cons n(1) by simp
  have r: "content_rune r" using Cons.prems(1) by simp
  note h = content_rune_hd [OF enc r, of ?s]
  show ?case
  proof (cases "r = 0x5D")
    case True
    have "\<exists>d s2. ?s = d # s2" by (cases ?s) auto
    then obtain d s2 where d: "?s = d # s2" by blast
    have g: "content_chars enc (CHR '']'' # ?s) = content_chars enc ?s"
    proof (cases "d = CHR '']''")
      case False
      then show ?thesis using hd_rsqb [OF enc, of "CHR '']''"] unfolding d
        by (subst content_chars.simps) simp
    next
      case dt: True
      then obtain rs' where rs': "rs = 0x5D # rs'"
        using utf8_hd [of rs v "CHR '']''"] Cons.prems(1) d by auto
      have s2: "s2 = utf8 rs' @ CHR ''<'' # v" using d dt rs' by (simp add: byte_rsqb)
      then have "s2 \<noteq> []" by simp
      then obtain e s3 where e: "s2 = e # s3" by (cases s2) auto
      have "e \<noteq> CHR ''>''"
      proof
        assume "e = CHR ''>''"
        then have "hd (utf8 rs' @ CHR ''<'' # v) = CHR ''>''" using s2 e by (metis list.sel(1))
        with utf8_hd [of rs' v "CHR ''>''"] Cons.prems(1) rs' obtain rs'' where "rs' = 0x3E # rs''"
          by auto
        with n(2) [OF True, of rs''] rs' show False by simp
      qed
      then show ?thesis using hd_rsqb [OF enc, of "CHR '']''"] unfolding d dt e
        by (subst content_chars.simps) simp
    qed
    show ?thesis using g IH by (simp add: True byte_rsqb)
  next
    case False
    have "BYTE_TYPE enc (hd (runetochar r @ ?s)) \<noteq> BT_RSQB"
    proof
      assume "BYTE_TYPE enc (hd (runetochar r @ ?s)) = BT_RSQB"
      then have "of_char (hd (runetochar r @ ?s)) = (93 :: nat)" using utf8_types(7) [OF enc] by blast
      with hd_rune [of r ?s] r have "unat r = 93" by (auto simp: content_rune_def data_rune_def)
      then have "r = 0x5D" by (metis of_nat_unat_le le_refl of_nat_numeral)
      with False show False ..
    qed
    moreover have "data_step enc (runetochar r @ ?s) = Some ?s"
      using r by (intro data_step_runetochar [OF enc]) (auto simp: content_rune_def data_rune_def)
    moreover have "runetochar r \<noteq> []" using runelen_pos [of r] by (auto simp: runelen_def)
    ultimately show ?thesis using h IH
      by (simp, subst content_chars.simps) simp
  qed
qed

lemma contentTok_content_chars:
  assumes "s \<noteq> []" "BYTE_TYPE enc (hd s) \<notin> {BT_AMP, BT_LT, BT_CR, BT_LF}"
    and "BYTE_TYPE enc (hd s) = BT_RSQB \<Longrightarrow> content_chars enc s \<noteq> (XML_TOK_DATA_CHARS, Some s)"
    and "BYTE_TYPE enc (hd s) \<noteq> BT_RSQB \<Longrightarrow> data_step enc s \<noteq> None"
  shows "contentTok enc s = content_chars enc s"
proof (cases s)
  case (Cons c s1)
  show ?thesis
  proof (cases "BYTE_TYPE enc c = BT_RSQB")
    case True
    with assms(2,3) show ?thesis unfolding Cons content_chars.simps [of enc "c # s1"]
      by (cases s1; cases "tl s1") (auto simp: contentTok_def)
  next
    case False
    with assms(2,4) have "data_step enc (c # s1) \<noteq> None" by (simp add: Cons)
    then have "invalid_cases enc (c # s1) = (if seq_len (BYTE_TYPE enc c) \<noteq> 1
        then Move (the (data_step enc (c # s1))) else Other)
      \<and> (seq_len (BYTE_TYPE enc c) = 1 \<longrightarrow> data_step enc (c # s1) = Some s1)"
      by (auto simp: data_step_def data_lead_def invalid_cases_def lead_step_def seq_len_def Let_def
          split: if_split_asm)
    with False assms(2,4) show ?thesis unfolding Cons content_chars.simps [of enc "c # s1"]
      by (auto simp: contentTok_def)
  qed
qed (use assms in simp)

lemma content_taken:
  assumes enc: "enc \<in> utf8_encodings" and rs: "list_all content_rune (r # rs)" "no_section_end (r # rs)"
  shows "contentTok enc (utf8 (r # rs) @ CHR ''<'' # v) = (XML_TOK_DATA_CHARS, Some (CHR ''<'' # v))"
proof -
  let ?s = "utf8 (r # rs) @ CHR ''<'' # v"
  note run = content_run_taken [OF enc rs, of v]
  have r: "content_rune r" and l: "0 < length (runetochar r)"
    using rs(1) runelen_pos [of r] by (simp_all add: runelen_def)
  have "contentTok enc ?s = content_chars enc ?s"
  proof (rule contentTok_content_chars)
    show "BYTE_TYPE enc (hd ?s) \<notin> {BT_AMP, BT_LT, BT_CR, BT_LF}"
      using content_rune_hd [OF enc r, of "utf8 rs @ CHR ''<'' # v"] by simp
    have "CHR ''<'' # v \<noteq> ?s"
    proof
      assume "CHR ''<'' # v = ?s"
      then have "length (CHR ''<'' # v) = length ?s" by simp
      with l show False by simp
    qed
    then show "content_chars enc ?s \<noteq> (XML_TOK_DATA_CHARS, Some ?s)" unfolding run by simp
    have "data_step enc (runetochar r @ utf8 rs @ CHR ''<'' # v) = Some (utf8 rs @ CHR ''<'' # v)"
      using r by (intro data_step_runetochar [OF enc]) (auto simp: content_rune_def data_rune_def)
    then show "data_step enc ?s \<noteq> None" by simp
  qed simp
  with run show ?thesis by simp
qed

lemma data_text_ok: "list_all data_rune rs \<Longrightarrow> text_ok rs"
  by (induction rs) (auto simp: data_rune_def xml_char_def)

lemma content_data_rune: "list_all content_rune rs \<Longrightarrow> list_all data_rune rs"
  by (induction rs) (auto simp: content_rune_def)

text \<open>
  C32. Character data is well-formed UTF-8: what \<open>contentTok\<close> and \<open>cdataSectionTok\<close> deliver as data in
  a UTF-8 document is the code of a list of characters that XML allows, without line ends and without
  \<open>]]>\<close>, and in content without \<open><\<close> and \<open>&\<close>. It is a text as the string functions of \<^verbatim>\<open>util.c\<close> and the
  lexer expect it. And in content every such text up to the next tag is delivered in one piece.
\<close>

theorem character_data_utf8:
  assumes "enc \<in> utf8_encodings"
  shows "(contentTok enc s = (XML_TOK_DATA_CHARS, Some p) \<longrightarrow>
      (\<exists>r rs. s = utf8 (r # rs) @ p \<and> list_all content_rune (r # rs) \<and> no_section_end (r # rs) \<and> text_ok (r # rs)))
    \<and> (cdataSectionTok enc s = (XML_TOK_DATA_CHARS, Some p) \<longrightarrow>
      (\<exists>r rs. s = utf8 (r # rs) @ p \<and> list_all data_rune (r # rs) \<and> no_section_end (r # rs) \<and> text_ok (r # rs)))
    \<and> (list_all content_rune (b # bs) \<and> no_section_end (b # bs) \<longrightarrow>
      contentTok enc (utf8 (b # bs) @ CHR ''<'' # v) = (XML_TOK_DATA_CHARS, Some (CHR ''<'' # v)))"
proof (intro conjI impI)
  assume "contentTok enc s = (XML_TOK_DATA_CHARS, Some p)"
  from content_first [OF assms this] obtain r s' where r: "s = runetochar r @ s'" "content_rune r"
    "content_chars enc s' = (XML_TOK_DATA_CHARS, Some p)" "r = 0x5D \<longrightarrow> (\<forall>u. s' \<noteq> '']>'' @ u)" by blast
  from content_run [OF assms r(3)] obtain rs where rs: "s' = utf8 rs @ p" "list_all content_rune rs"
    "no_section_end rs" by blast
  have "rs \<noteq> [0x5D, 0x3E] @ bs" if "r = 0x5D" for bs
    using r(4) that rs(1) by (auto simp: byte_rsqb)
  with rs(3) have "no_section_end (r # rs)" by (intro no_section_end_Cons) auto
  moreover have k: "list_all content_rune (r # rs)" using r(2) rs(2) by simp
  moreover have "text_ok (r # rs)" using k by (intro data_text_ok content_data_rune)
  ultimately show "\<exists>r rs. s = utf8 (r # rs) @ p \<and> list_all content_rune (r # rs) \<and> no_section_end (r # rs)
      \<and> text_ok (r # rs)"
    using r(1) rs(1) by (intro exI [of _ r] exI [of _ rs]) simp
next
  assume "cdataSectionTok enc s = (XML_TOK_DATA_CHARS, Some p)"
  from cdata_first [OF assms this] data_text_ok
  show "\<exists>r rs. s = utf8 (r # rs) @ p \<and> list_all data_rune (r # rs) \<and> no_section_end (r # rs) \<and> text_ok (r # rs)"
    by blast
next
  assume "list_all content_rune (b # bs) \<and> no_section_end (b # bs)"
  then show "contentTok enc (utf8 (b # bs) @ CHR ''<'' # v) = (XML_TOK_DATA_CHARS, Some (CHR ''<'' # v))"
    using content_taken [OF assms] by blast
qed

theorem character_data_utf8_witness:
  "contentTok utf8_encoding (utf8 [0x78, 0x2265] @ CHR ''<'' # ''a>'') = (XML_TOK_DATA_CHARS, Some (CHR ''<'' # ''a>''))"
proof -
  have "list_all content_rune [0x78, 0x2265]"
    by (simp add: content_rune_def data_rune_def xml_char_def)
  moreover have "no_section_end [0x78, 0x2265]"
    by (intro no_section_end_Cons) auto
  moreover have "utf8_encoding \<in> utf8_encodings" by (simp add: utf8_encodings_def)
  ultimately show ?thesis using character_data_utf8 [where enc = utf8_encoding and b = "0x78" and bs = "[0x2265]" and v = "''a>''"]
    by blast
qed

section \<open>Character references\<close>

lemma ascii_list:
  "k \<in> {BT_COLON, BT_NMSTRT} \<Longrightarrow>
     list_all (\<lambda>(i, t). (t = BT_DIGIT \<longleftrightarrow> 48 \<le> i \<and> i \<le> 57)
       \<and> (t = BT_HEX \<longleftrightarrow> 65 \<le> i \<and> i \<le> 70 \<or> 97 \<le> i \<and> i \<le> 102) \<and> (t = BT_SEMI \<longleftrightarrow> i = 59) \<and> (t = BT_NUM \<longleftrightarrow> i = 35))
       (enumerate 0 (asciitab k))"
  by (auto simp: asciitab_def)

lemma utf8_digit_types:
  fixes c :: char
  assumes "enc \<in> utf8_encodings"
  defines "t \<equiv> BYTE_TYPE enc c" and "i \<equiv> (of_char c :: nat)"
  shows "t = BT_DIGIT \<longleftrightarrow> 48 \<le> i \<and> i \<le> 57"
    and "t = BT_HEX \<longleftrightarrow> 65 \<le> i \<and> i \<le> 70 \<or> 97 \<le> i \<and> i \<le> 102"
    and "t = BT_SEMI \<longleftrightarrow> i = 59" and "t = BT_NUM \<longleftrightarrow> i = 35"
proof -
  obtain k where k: "k \<in> {BT_COLON, BT_NMSTRT}" and "type_tab enc = asciitab k @ utf8tab"
    using utf8_tabs [OF assms(1)] by blast
  then have t: "t = (if i < 128 then asciitab k ! i else utf8tab ! (i - 128))"
    by (simp add: t_def i_def BYTE_TYPE_def nth_append length_tabs)
  have "(t = BT_DIGIT \<longleftrightarrow> 48 \<le> i \<and> i \<le> 57)
    \<and> (t = BT_HEX \<longleftrightarrow> 65 \<le> i \<and> i \<le> 70 \<or> 97 \<le> i \<and> i \<le> 102) \<and> (t = BT_SEMI \<longleftrightarrow> i = 59) \<and> (t = BT_NUM \<longleftrightarrow> i = 35)"
  proof (cases "i < 128")
    case True
    then have "t = asciitab k ! i" using t by simp
    then show ?thesis
      using enumerate_nth [OF ascii_list [OF k], of i, unfolded length_tabs add_0 prod.case, OF True]
      by (simp only:)
  next
    case False
    then have "\<not> plain t" using utf8_types(1) [OF assms(1), of c] unfolding t_def i_def by simp
    then have "t \<notin> {BT_DIGIT, BT_HEX, BT_SEMI, BT_NUM}" by (auto simp: plain_def)
    with False show ?thesis by auto
  qed
  then show "t = BT_DIGIT \<longleftrightarrow> 48 \<le> i \<and> i \<le> 57"
    "t = BT_HEX \<longleftrightarrow> 65 \<le> i \<and> i \<le> 70 \<or> 97 \<le> i \<and> i \<le> 102" "t = BT_SEMI \<longleftrightarrow> i = 59" "t = BT_NUM \<longleftrightarrow> i = 35"
    by - (elim conjE, assumption)+
qed

lemma char_eq_nat: "(c = d) = ((of_char c :: nat) = of_char d)"
  by (metis char_of_char)

lemma charref_digits_text:
  assumes enc: "enc \<in> utf8_encodings"
  shows "charref_digits ds enc s = (XML_TOK_CHAR_REF, Some p) \<Longrightarrow>
    \<exists>x. s = x @ CHR '';'' # p \<and> (\<forall>c \<in> set x. BYTE_TYPE enc c \<in> ds)"
  using enc
proof (induction ds enc s rule: charref_digits.induct)
  case (2 ds enc c s)
  show ?case
  proof (cases "BYTE_TYPE enc c \<in> ds")
    case True
    with 2 obtain x where "s = x @ CHR '';'' # p" "\<forall>c \<in> set x. BYTE_TYPE enc c \<in> ds" by auto
    with True show ?thesis by (intro exI [of _ "c # x"]) auto
  next
    case False
    with 2 have "BYTE_TYPE enc c = BT_SEMI" "s = p" by (auto split: if_split_asm)
    with 2 utf8_digit_types(3) [of enc c] char_eq_nat [of c "CHR '';''"] have "c = CHR '';''" by simp
    with \<open>s = p\<close> show ?thesis by (intro exI [of _ "[]"]) simp
  qed
qed simp

definition digit_value :: "char \<Rightarrow> int" where
  "digit_value c = (case hex_digit c of None \<Rightarrow> 0 | Some d \<Rightarrow> d)"

definition ref_value :: "int \<Rightarrow> int \<Rightarrow> cstr \<Rightarrow> int" where
  "ref_value base n x = foldl (\<lambda>n c. n * base + digit_value c) n x"

lemma ref_value_simps [simp]:
  "ref_value base n [] = n"
  "ref_value base n (c # x) = ref_value base (n * base + digit_value c) x"
  by (simp_all add: ref_value_def)

lemma digit_value_pos: "0 \<le> digit_value c"
  by (auto simp: digit_value_def hex_digit_def Let_def split: option.split)

lemma ref_value_grows: "1 \<le> base \<Longrightarrow> 0 \<le> n \<Longrightarrow> n \<le> ref_value base n x"
proof (induction x arbitrary: n)
  case (Cons c x)
  have "n \<le> n * base" using Cons.prems by (metis mult.right_neutral mult_left_mono)
  then have "n \<le> n * base + digit_value c" using digit_value_pos [of c] by linarith
  also have "\<dots> \<le> ref_value base (n * base + digit_value c) x"
    using Cons.prems calculation by (intro Cons.IH) auto
  finally show ?case by simp
qed simp

lemma hex_number_value:
  "0 \<le> n \<Longrightarrow> n < 0x110000 \<Longrightarrow> \<forall>c \<in> set x. hex_digit c \<noteq> None \<Longrightarrow>
     hex_number n (x @ CHR '';'' # p)
       = Inr (if ref_value 16 n x < 0x110000 then Some (ref_value 16 n x) else None)"
proof (induction x arbitrary: n)
  case (Cons c x)
  let ?m = "n * 16 + digit_value c"
  have c: "c \<noteq> CHR '';''" using Cons.prems(3) by (auto simp: hex_digit_def)
  obtain d where d: "hex_digit c = Some d" using Cons.prems(3) by auto
  then have m: "n * 16 + d = ?m" by (simp add: digit_value_def)
  show ?case
  proof (cases "0x110000 \<le> ?m")
    case True
    then have "0x110000 \<le> ref_value 16 ?m x" using ref_value_grows [of 16 ?m x] Cons.prems(1) by linarith
    with True c d m show ?thesis by (simp add: Let_def)
  next
    case False
    have "0 \<le> ?m" using Cons.prems(1) digit_value_pos [of c] by simp
    from Cons.IH [OF this] False Cons.prems(3) c d m show ?thesis by (simp add: Let_def)
  qed
qed simp

lemma dec_number_value:
  "0 \<le> n \<Longrightarrow> n < 0x110000 \<Longrightarrow> \<forall>c \<in> set x. 48 \<le> (of_char c :: nat) \<and> (of_char c :: nat) \<le> 57 \<Longrightarrow>
     dec_number n (x @ CHR '';'' # p)
       = Inr (if ref_value 10 n x < 0x110000 then Some (ref_value 10 n x) else None)"
proof (induction x arbitrary: n)
  case (Cons c x)
  let ?m = "n * 10 + digit_value c"
  have r: "48 \<le> (of_char c :: nat)" "(of_char c :: nat) \<le> 57" using Cons.prems(3) by auto
  have c: "c \<noteq> CHR '';''" using r by auto
  have i: "(of_char c :: int) = int (of_char c)" by (simp add: of_nat_of_char)
  have "digit_value c = of_char c - 48" using r by (simp add: digit_value_def hex_digit_def i)
  then have m: "n * 10 + (of_char c - 48) = ?m" by simp
  show ?case
  proof (cases "0x110000 \<le> ?m")
    case True
    then have "0x110000 \<le> ref_value 10 ?m x" using ref_value_grows [of 10 ?m x] Cons.prems(1) by linarith
    with True c m show ?thesis by (simp add: Let_def)
  next
    case False
    have "0 \<le> ?m" using Cons.prems(1) digit_value_pos [of c] by simp
    from Cons.IH [OF this] False Cons.prems(3) c m show ?thesis by (simp add: Let_def)
  qed
qed simp

lemma latin1_nonxml:
  "list_all (\<lambda>(i, t). t = BT_NONXML \<longleftrightarrow> i < 32 \<and> i \<notin> {9, 10, 13})
     (enumerate 0 (asciitab BT_NMSTRT @ latin1tab))"
  by (simp add: asciitab_def latin1tab_def)

lemma checkCharRefNumber_exact:
  assumes "0 \<le> n" "n < 0x110000"
  shows "checkCharRefNumber n = (if xml_char (nat n) then n else - 1)"
proof -
  have l: "length (asciitab BT_NMSTRT @ latin1tab) = 256" by (simp add: length_tabs) (simp add: latin1tab_def)
  have e: "type_tab latin1_encoding = asciitab BT_NMSTRT @ latin1tab"
    by (simp add: latin1_encoding_def single_byte_def)
  have p: "drop_bit 8 n = n div 256" by (simp add: drop_bit_eq_div)
  show ?thesis
  proof (cases "n < 256")
    case True
    then have k: "nat n < 256" using assms(1) by linarith
    have "type_tab latin1_encoding ! nat n = BT_NONXML \<longleftrightarrow> nat n < 32 \<and> nat n \<notin> {9, 10, 13}"
      using enumerate_nth [OF latin1_nonxml, of "nat n"] k unfolding l e by simp
    moreover have "drop_bit 8 n = 0" using True assms(1) unfolding p by simp
    moreover have "xml_char (nat n) \<longleftrightarrow> \<not> (nat n < 32 \<and> nat n \<notin> {9, 10, 13})"
      using k unfolding xml_char_def by auto
    ultimately show ?thesis unfolding checkCharRefNumber_def Let_def by simp
  next
    case False
    obtain q r where q: "n div 256 = q" and n: "n = 256 * q + r" "0 \<le> r" "r < 256"
      by (metis mult_div_mod_eq pos_mod_bound pos_mod_sign zero_less_numeral)
    have nz: "q \<noteq> 0" using False n by auto
    have s: "0xD8 \<le> q \<and> q \<le> 0xDF \<longleftrightarrow> 0xD800 \<le> n \<and> n \<le> 0xDFFF" using n by auto
    have f: "q = 0xFF \<longleftrightarrow> 0xFF00 \<le> n \<and> n \<le> 0xFFFF" using n by auto
    have x: "xml_char (nat n) \<longleftrightarrow> n \<le> 0xD7FF \<or> 0xE000 \<le> n \<and> n \<noteq> 0xFFFE \<and> n \<noteq> 0xFFFF"
      using False assms unfolding xml_char_def by auto
    show ?thesis unfolding checkCharRefNumber_def p Let_def q s f if_not_P [OF nz] using x by auto
  qed
qed

lemma int_bits:
  "int x OR numeral k = int (x OR numeral k)" "int x AND numeral k = int (x AND numeral k)"
  "drop_bit m (int x) = int (drop_bit m x)" "char_of (int x) = char_of x"
  by (simp_all add: of_nat_or_eq of_nat_and_eq drop_bit_of_nat char_of_def bit_of_nat_iff_bit)

lemma XmlUtf8Encode_encode: "l \<le> 0x10FFFF \<Longrightarrow> XmlUtf8Encode (int l) = encode l"
  unfolding XmlUtf8Encode_def encode_def int_bits by (simp add: or.commute)

lemma hex_digit_types:
  assumes "enc \<in> utf8_encodings"
  shows "BYTE_TYPE enc c \<in> {BT_DIGIT, BT_HEX} \<longleftrightarrow> hex_digit c \<noteq> None"
proof -
  have i: "(of_char c :: int) = int (of_char c)" by (simp add: of_nat_of_char)
  show ?thesis using utf8_digit_types(1,2) [OF assms, of c] by (auto simp: hex_digit_def Let_def i)
qed

lemma scanRef_char:
  assumes enc: "enc \<in> utf8_encodings" and R: "scanRef enc s = (XML_TOK_CHAR_REF, Some p)"
  shows "\<exists>s1. s = CHR ''#'' # s1 \<and> scanCharRef enc s1 = (XML_TOK_CHAR_REF, Some p)"
proof (cases s)
  case Nil
  with R show ?thesis by (simp add: scanRef_def)
next
  case (Cons c s1)
  have "check_nmstrt_cases enc s \<noteq> Stop r" for r
    using R steps_Stop(3) [of enc s r "{}"] by (auto simp: scanRef_def Cons)
  moreover have "check_nmstrt_cases enc s \<noteq> Move s'" for s'
    using R reach_name_semi [of XML_TOK_ENTITY_REF s' enc] by (auto simp: scanRef_def Cons)
  ultimately have o: "check_nmstrt_cases enc s = Other" by (cases "check_nmstrt_cases enc s") auto
  with R Cons have n: "BYTE_TYPE enc c = BT_NUM" "scanCharRef enc s1 = (XML_TOK_CHAR_REF, Some p)"
    by (auto simp: scanRef_def split: if_split_asm)
  have "c = CHR ''#''" using n(1) utf8_digit_types(4) [OF enc, of c] char_eq_nat [of c "CHR ''#''"] by simp
  with n(2) Cons show ?thesis by simp
qed

lemma charRefNumber_hex:
  assumes "\<forall>c \<in> set x. hex_digit c \<noteq> None"
  shows "charRefNumber enc (CHR ''&'' # ''#x'' @ x @ CHR '';'' # p)
    = Inr (if ref_value 16 0 x < 0x110000 \<and> xml_char (nat (ref_value 16 0 x)) then ref_value 16 0 x else - 1)"
proof -
  have "0 \<le> ref_value 16 0 x" using ref_value_grows [of 16 0 x] by simp
  then show ?thesis using hex_number_value [of 0 x p] assms
    by (auto simp: charRefNumber_def checkCharRefNumber_exact)
qed

lemma charRefNumber_dec:
  assumes "\<forall>c \<in> set x. 48 \<le> (of_char c :: nat) \<and> (of_char c :: nat) \<le> 57" "x \<noteq> []"
  shows "charRefNumber enc (CHR ''&'' # CHR ''#'' # x @ CHR '';'' # p)
    = Inr (if ref_value 10 0 x < 0x110000 \<and> xml_char (nat (ref_value 10 0 x)) then ref_value 10 0 x else - 1)"
proof -
  obtain c y where x: "x = c # y" using assms(2) by (cases x) auto
  have "c \<noteq> CHR ''x''" using assms(1) x by auto
  then have d: "charRefNumber enc (CHR ''&'' # CHR ''#'' # x @ CHR '';'' # p)
    = rbind (dec_number 0 (x @ CHR '';'' # p))
        (\<lambda>r. Inr (case r of None \<Rightarrow> - 1 | Some n \<Rightarrow> checkCharRefNumber n))"
    by (simp add: charRefNumber_def x)
  have "0 \<le> ref_value 10 0 x" using ref_value_grows [of 10 0 x] by simp
  then show ?thesis unfolding d using dec_number_value [of 0 x p] assms
    by (auto simp: checkCharRefNumber_exact)
qed



section \<open>Names\<close>

text \<open>
  C35. In names the scanner looks up the bits of a sequence without checking that it is one: a start tag
  whose name is no UTF-8 text is accepted, although the same bytes as data are malformed.
\<close>

theorem malformed_names_accepted:
  "\<exists>nm. contentTok utf8_encoding (CHR ''<'' # nm @ ''>'') = (XML_TOK_START_TAG_NO_ATTS, Some [])
    \<and> (\<forall>rs. utf8 rs \<noteq> nm) \<and> contentTok utf8_encoding nm = (XML_TOK_INVALID, Some nm)"
proof (intro exI conjI allI)
  let ?nm = "[CHR 0xC3, CHR ''('']"
  show "contentTok utf8_encoding (CHR ''<'' # ?nm @ ''>'') = (XML_TOK_START_TAG_NO_ATTS, Some [])" by code_simp
  show "contentTok utf8_encoding ?nm = (XML_TOK_INVALID, Some ?nm)" by code_simp
  show "utf8 rs \<noteq> ?nm" for rs
  proof
    assume u: "utf8 rs = ?nm"
    then obtain r rs' where rs: "rs = r # rs'" by (cases rs) auto
    define m where "m = (if Runemax < unat r then Runeerror else unat r)"
    have "m \<le> Runemax" by (simp add: m_def)
    from chartorune_encode [OF this, of "utf8 rs'"] u rs
    have "chartorune ?nm = (of_nat m, length (encode m))" by (simp add: runetochar_def m_def)
    moreover have "chartorune ?nm = bad_rune" by (simp add: chartorune_arith is_cont_def)
    ultimately have "of_nat m = (of_nat Runeerror :: rune)" "length (encode m) = 1" by (simp_all add: bad_rune_def)
    then have "m = Runeerror" using \<open>m \<le> Runemax\<close> unat_rune [of m] unat_rune [of Runeerror] by simp
    with \<open>length (encode m) = 1\<close> show False by (simp add: length_encode)
  qed
qed

end
