(* ===== verification/XmlAtts.thy ===== *)
theory XmlAtts
  imports XmlChars
begin

text \<open>
  The two passes over a start tag: \<open>scanLt\<close> finds its end, then \<open>getAtts\<close> reads its attributes without
  being told where the tag ends. On every tag the first pass accepts, the second stays inside it.
\<close>

section \<open>Characters that do not change the state\<close>

lemma start_name_id: "ga_state g \<noteq> OtherSt \<Longrightarrow> start_name ptr g = g"
  by (simp add: start_name_def)

lemma pass_char:
  assumes "ga_state g \<noteq> OtherSt"
    "BYTE_TYPE enc c \<notin> {BT_LEAD2, BT_LEAD3, BT_LEAD4, BT_QUOT, BT_APOS, BT_AMP, BT_S, BT_CR, BT_LF, BT_GT, BT_SOL}"
  shows "getatts_loop enc ptr (c # q) g = getatts_loop enc (ptr + 1) q g"
  using assms by (auto simp: Let_def start_name_id)

lemma pass_lead:
  assumes "BYTE_TYPE enc c \<in> {BT_LEAD2, BT_LEAD3, BT_LEAD4}"
  shows "getatts_loop enc ptr (c # q) g
    = getatts_loop enc (ptr + char_len enc c) (drop (char_len enc c) (c # q)) (start_name ptr g)"
  using assms by (auto simp: Let_def)

definition passes :: "encoding \<Rightarrow> cstr \<Rightarrow> bool" where
  "passes enc q \<longleftrightarrow> (\<forall>ptr r g. ga_state g \<noteq> OtherSt \<longrightarrow>
     getatts_loop enc ptr (q @ r) g = getatts_loop enc (ptr + length q) r g)"

lemma passes_append: "passes enc q \<Longrightarrow> passes enc q' \<Longrightarrow> passes enc (q @ q')"
  by (simp add: passes_def add.assoc)

lemma passes_Nil: "passes enc []"
  by (simp add: passes_def)

lemma passes_char:
  "BYTE_TYPE enc c \<notin> {BT_LEAD2, BT_LEAD3, BT_LEAD4, BT_QUOT, BT_APOS, BT_AMP, BT_S, BT_CR, BT_LF, BT_GT, BT_SOL}
     \<Longrightarrow> passes enc [c]"
  using pass_char by (auto simp: passes_def simp del: getatts_loop.simps)

lemma lead_split:
  assumes "lead_step bad n s = Move s'" "n = char_len enc (hd s)" "BYTE_TYPE enc (hd s) \<in> {BT_LEAD2, BT_LEAD3, BT_LEAD4}"
  shows "\<exists>q. q \<noteq> [] \<and> s = q @ s' \<and> (\<forall>ptr r g.
    getatts_loop enc ptr (q @ r) g = getatts_loop enc (ptr + length q) r (start_name ptr g))"
proof -
  have n: "n \<le> length s" "s' = drop n s" using lead_step_Move [OF assms(1)] by auto
  have "0 < n" using assms(2) by simp
  then obtain c q where q: "take n s = c # q" using n(1) by (cases "take n s") auto
  have s: "s = (c # q) @ s'" unfolding q [symmetric] n(2) by simp
  have l: "length (c # q) = n" unfolding q [symmetric] using n(1) by simp
  have h: "hd s = c" using s by simp
  have "getatts_loop enc ptr ((c # q) @ r) g = getatts_loop enc (ptr + length (c # q)) r (start_name ptr g)" for ptr r g
  proof -
    have "drop n (c # q @ r) = r" using l by (cases n) auto
    then show ?thesis using pass_lead [of enc c ptr "q @ r" g] assms(2,3) h l
      by (simp only: append_Cons)
  qed
  with s show ?thesis by (intro exI [of _ "c # q"]) blast
qed

lemma step_passes:
  assumes "s \<noteq> []" "f s = Move s'" "f \<in> {invalid_cases enc, check_name_cases enc, check_nmstrt_cases enc}"
  shows "\<exists>q. q \<noteq> [] \<and> s = q @ s' \<and> passes enc q"
proof (cases "BYTE_TYPE enc (hd s) \<in> {BT_LEAD2, BT_LEAD3, BT_LEAD4}")
  case True
  then have "\<exists>bad. lead_step bad (char_len enc (hd s)) s = Move s'"
    using assms(2,3)
    by (auto simp: invalid_cases_def check_name_cases_def check_nmstrt_cases_def char_len_def Let_def)
  then obtain bad where "lead_step bad (char_len enc (hd s)) s = Move s'" by blast
  from lead_split [OF this refl True] obtain q where q: "q \<noteq> []" "s = q @ s'"
    "\<And>ptr r g. getatts_loop enc ptr (q @ r) g = getatts_loop enc (ptr + length q) r (start_name ptr g)" by blast
  have "passes enc q" unfolding passes_def by (simp add: q(3) start_name_id del: getatts_loop.simps)
  with q show ?thesis by blast
next
  case False
  with assms have t: "BYTE_TYPE enc (hd s) \<in> {BT_NMSTRT, BT_HEX, BT_DIGIT, BT_NAME, BT_MINUS}" "s' = tl s"
    by (auto simp: invalid_cases_def check_name_cases_def check_nmstrt_cases_def Let_def split: if_split_asm)
  have "passes enc [hd s]" by (rule passes_char) (use t in auto)
  with t(2) assms(1) show ?thesis by (intro exI [of _ "[hd s]"]) simp
qed

text \<open>The first character of a name starts the next attribute.\<close>

lemma step_starts:
  assumes "s \<noteq> []" "check_nmstrt_cases enc s = Move s'"
  shows "\<exists>q. q \<noteq> [] \<and> s = q @ s' \<and> (\<forall>ptr r g.
    getatts_loop enc ptr (q @ r) g = getatts_loop enc (ptr + length q) r (start_name ptr g))"
proof (cases "BYTE_TYPE enc (hd s) \<in> {BT_LEAD2, BT_LEAD3, BT_LEAD4}")
  case True
  then have "\<exists>bad. lead_step bad (char_len enc (hd s)) s = Move s'"
    using assms(2) by (auto simp: check_nmstrt_cases_def char_len_def Let_def)
  then obtain bad where "lead_step bad (char_len enc (hd s)) s = Move s'" by blast
  from lead_split [OF this refl True] show ?thesis .
next
  case False
  with assms have t: "BYTE_TYPE enc (hd s) \<in> {BT_NMSTRT, BT_HEX}" "s' = tl s"
    by (auto simp: check_nmstrt_cases_def Let_def split: if_split_asm)
  then show ?thesis using assms(1)
    by (intro exI [of _ "[hd s]"]) (auto simp: Let_def)
qed

section \<open>References in a value\<close>

lemma name_semi_passes:
  assumes "enc \<in> utf8_encodings"
  shows "name_semi tok enc s = (t, Some p) \<Longrightarrow> 0 < t \<Longrightarrow> \<exists>q. s = q @ p \<and> passes enc q"
  using assms
proof (induction tok enc s rule: name_semi.induct)
  case (2 tok enc c s)
  show ?case
  proof (cases "check_name_cases enc (c # s)")
    case (Stop r)
    with 2(2,3) steps_Stop(2) [OF Stop, of "{}"] show ?thesis by auto
  next
    case (Move s')
    obtain q where q: "c # s = q @ s'" "passes enc q"
      using step_passes [where f = "check_name_cases enc", OF _ Move, of enc] by auto
    obtain q' where "s' = q' @ p" "passes enc q'" using 2 Move by auto
    with q show ?thesis by (intro exI [of _ "q @ q'"]) (simp add: passes_append)
  next
    case Other
    with 2 have "BYTE_TYPE enc c = BT_SEMI" "s = p" by (auto split: if_split_asm)
    then show ?thesis by (intro exI [of _ "[c]"]) (simp add: passes_char)
  qed
qed simp

lemma charref_digits_passes:
  "ds \<subseteq> {BT_DIGIT, BT_HEX} \<Longrightarrow> charref_digits ds enc s = (t, Some p) \<Longrightarrow> 0 < t \<Longrightarrow>
     \<exists>q. s = q @ p \<and> passes enc q"
proof (induction ds enc s rule: charref_digits.induct)
  case (2 ds enc c s)
  show ?case
  proof (cases "BYTE_TYPE enc c \<in> ds")
    case True
    with 2 obtain q where q: "s = q @ p" "passes enc q" by auto
    have "passes enc [c]" by (rule passes_char) (use True 2(2) in auto)
    from passes_append [OF this q(2)] q(1) show ?thesis by (intro exI [of _ "c # q"]) simp
  next
    case False
    with 2 have "BYTE_TYPE enc c = BT_SEMI" "s = p" by (auto split: if_split_asm)
    then show ?thesis by (intro exI [of _ "[c]"]) (simp add: passes_char)
  qed
qed simp

lemma scanCharRef_passes:
  assumes enc: "enc \<in> utf8_encodings" and R: "scanCharRef enc s = (t, Some p)" "0 < t"
  shows "\<exists>q. s = q @ p \<and> passes enc q"
proof -
  obtain d s2 where d: "s = d # s2" using R by (cases s) (auto simp: scanCharRef_def)
  show ?thesis
  proof (cases "d = CHR ''x''")
    case True
    have "BYTE_TYPE enc d = BT_NMSTRT"
      using utf8_tabs [OF enc] True by (auto simp: BYTE_TYPE_def nth_append length_tabs asciitab_def)
    then have px: "passes enc [d]" by (intro passes_char) auto
    from R(1) d True have h: "scanHexCharRef enc s2 = (t, Some p)" by (simp add: scanCharRef_def)
    then obtain e s3 where e: "s2 = e # s3" "BYTE_TYPE enc e \<in> {BT_DIGIT, BT_HEX}"
      "charref_digits {BT_DIGIT, BT_HEX} enc s3 = (t, Some p)"
      using R(2) by (cases s2) (auto simp: scanHexCharRef_def split: if_split_asm)
    have pe: "passes enc [e]" by (rule passes_char) (use e(2) in auto)
    obtain q where "s3 = q @ p" "passes enc q" using charref_digits_passes [OF _ e(3) R(2)] by auto
    with passes_append [OF px passes_append [OF pe]] d e(1) show ?thesis
      by (intro exI [of _ "d # e # q"]) simp
  next
    case False
    with R d have g: "BYTE_TYPE enc d = BT_DIGIT" "charref_digits {BT_DIGIT} enc s2 = (t, Some p)"
      by (auto simp: scanCharRef_def split: if_split_asm)
    have pd: "passes enc [d]" by (rule passes_char) (use g(1) in auto)
    obtain q where "s2 = q @ p" "passes enc q" using charref_digits_passes [OF _ g(2) R(2)] by auto
    with passes_append [OF pd] d show ?thesis by (intro exI [of _ "d # q"]) simp
  qed
qed

lemma scanRef_passes:
  assumes enc: "enc \<in> utf8_encodings" and R: "scanRef enc s = (t, Some p)" "0 < t"
  shows "\<exists>q. s = q @ p \<and> passes enc q"
proof (cases s)
  case Nil
  with R show ?thesis by (simp add: scanRef_def)
next
  case (Cons c s1)
  show ?thesis
  proof (cases "check_nmstrt_cases enc s")
    case (Stop r)
    with R steps_Stop(3) [OF Stop, of "{}"] show ?thesis by (auto simp: scanRef_def Cons)
  next
    case (Move s')
    obtain q where q: "s = q @ s'" "passes enc q"
      using step_passes [where f = "check_nmstrt_cases enc", OF _ Move, of enc] Cons by auto
    obtain q' where "s' = q' @ p" "passes enc q'"
      using name_semi_passes [OF enc, of XML_TOK_ENTITY_REF s' t p] R Move by (auto simp: scanRef_def Cons)
    with q show ?thesis by (intro exI [of _ "q @ q'"]) (simp add: passes_append)
  next
    case Other
    with R Cons have n: "BYTE_TYPE enc c = BT_NUM" "scanCharRef enc s1 = (t, Some p)"
      by (auto simp: scanRef_def split: if_split_asm)
    have "passes enc [c]" by (rule passes_char) (use n(1) in auto)
    moreover obtain q where "s1 = q @ p" "passes enc q" using scanCharRef_passes [OF enc n(2) R(2)] by blast
    ultimately show ?thesis using passes_append [of enc "[c]" q] Cons by (intro exI [of _ "c # q"]) simp
  qed
qed

section \<open>Attributes and their places\<close>

definition entry_ok :: "attribute \<Rightarrow> nat \<Rightarrow> bool" where
  "entry_ok a ptr \<longleftrightarrow> att_name a < valuePtr a \<and> valuePtr a \<le> valueEnd a \<and> valueEnd a < ptr"

definition att_inv :: "nat \<Rightarrow> nat \<Rightarrow> getatts \<Rightarrow> bool" where
  "att_inv M ptr g \<longleftrightarrow> length (atts g) = M \<and> (\<forall>i < nAtts g. i < M \<longrightarrow> entry_ok (atts g ! i) ptr)"

definition named :: "nat \<Rightarrow> getatts \<Rightarrow> bool" where
  "named ptr g \<longleftrightarrow> (nAtts g < length (atts g) \<longrightarrow> att_name (atts g ! nAtts g) < ptr)"

definition valued :: "nat \<Rightarrow> getatts \<Rightarrow> bool" where
  "valued ptr g \<longleftrightarrow> (nAtts g < length (atts g) \<longrightarrow>
     att_name (atts g ! nAtts g) < valuePtr (atts g ! nAtts g) \<and> valuePtr (atts g ! nAtts g) \<le> ptr)"

fun agrees :: "atts_mode \<Rightarrow> nat \<Rightarrow> getatts \<Rightarrow> bool" where
  "agrees (InAttName had) ptr g \<longleftrightarrow> ga_state g = InName \<and> named ptr g"
| "agrees BeforeEquals ptr g \<longleftrightarrow> ga_state g \<noteq> InValue \<and> named ptr g"
| "agrees AfterEquals ptr g \<longleftrightarrow> ga_state g \<noteq> InValue \<and> named ptr g"
| "agrees (InAttValue opn) ptr g \<longleftrightarrow>
     ga_state g = InValue \<and> ga_open g = opn \<and> opn \<in> {BT_QUOT, BT_APOS} \<and> valued ptr g"
| "agrees AfterValue ptr g \<longleftrightarrow> ga_state g = OtherSt \<and> 0 < nAtts g"
| "agrees NextAtt ptr g \<longleftrightarrow> ga_state g = OtherSt \<and> 0 < nAtts g"

lemma att_inv_mono: "att_inv M ptr g \<Longrightarrow> ptr \<le> ptr' \<Longrightarrow> att_inv M ptr' g"
  by (fastforce simp: att_inv_def entry_ok_def)

lemma agrees_mono: "agrees m ptr g \<Longrightarrow> ptr \<le> ptr' \<Longrightarrow> agrees m ptr' g"
  by (cases m) (fastforce simp: named_def valued_def)+

lemma upd_att_simps [simp]:
  "ga_state (upd_att f g) = ga_state g" "nAtts (upd_att f g) = nAtts g" "ga_open (upd_att f g) = ga_open g"
  "length (atts (upd_att f g)) = length (atts g)"
  by (simp_all add: upd_att_def)

lemma upd_att_same: "i < nAtts g \<Longrightarrow> atts (upd_att f g) ! i = atts g ! i"
  by (simp add: upd_att_def)

lemma upd_att_now: "nAtts g < length (atts g) \<Longrightarrow> atts (upd_att f g) ! nAtts g = f (atts g ! nAtts g)"
  by (simp add: upd_att_def)

lemma upd_att_inv: "att_inv M ptr (upd_att f g) \<longleftrightarrow> att_inv M ptr g"
  by (simp add: att_inv_def upd_att_same)

lemma not_normalized:
  "agrees m ptr (upd_att (\<lambda>a. a\<lparr> normalized := False \<rparr>) g) \<longleftrightarrow> agrees m ptr g"
  by (cases m) (auto simp: named_def valued_def upd_att_now)

section \<open>The second pass follows the first\<close>

definition finishes :: "encoding \<Rightarrow> bool \<Rightarrow> nat \<Rightarrow> cstr \<Rightarrow> nat \<Rightarrow> cstr \<Rightarrow> getatts \<Rightarrow> bool" where
  "finishes enc some M p ptr s g \<longleftrightarrow>
     (\<exists>q g'. q \<noteq> [] \<and> s = q @ p \<and> getatts_loop enc ptr q g = Inr g' \<and> (0 < nAtts g' \<longleftrightarrow> some)
        \<and> att_inv M (ptr + length q) g')"

lemma finishes_append:
  assumes "finishes enc b M p (ptr + length q) r g'"
    "\<And>r. getatts_loop enc ptr (q @ r) g = getatts_loop enc (ptr + length q) r g'"
  shows "finishes enc b M p ptr (q @ r) g"
proof -
  from assms(1) obtain q' h where "q' \<noteq> []" "r = q' @ p" "getatts_loop enc (ptr + length q) q' g' = Inr h"
    "0 < nAtts h \<longleftrightarrow> b" "att_inv M (ptr + length (q @ q')) h" by (auto simp: finishes_def add.assoc)
  then show ?thesis unfolding finishes_def
    by (intro exI [of _ "q @ q'"] exI [of _ h]) (simp add: assms(2) del: getatts_loop.simps)
qed

lemma finishes_Cons:
  assumes "finishes enc b M p (ptr + 1) s g'"
    "\<And>r. r \<noteq> [] \<Longrightarrow> getatts_loop enc ptr (c # r) g = getatts_loop enc (ptr + 1) r g'"
  shows "finishes enc b M p ptr (c # s) g"
proof -
  from assms(1) obtain q h where "q \<noteq> []" "s = q @ p" "getatts_loop enc (ptr + 1) q g' = Inr h"
    "0 < nAtts h \<longleftrightarrow> b" "att_inv M (ptr + length (c # q)) h" by (auto simp: finishes_def)
  then show ?thesis unfolding finishes_def
    by (intro exI [of _ "c # q"] exI [of _ h]) (simp add: assms(2) del: getatts_loop.simps)
qed

lemma finishes_passes:
  "passes enc q \<Longrightarrow> ga_state g \<noteq> OtherSt \<Longrightarrow> finishes enc b M p (ptr + length q) r g
     \<Longrightarrow> finishes enc b M p ptr (q @ r) g"
  by (erule finishes_append) (simp add: passes_def del: getatts_loop.simps)

lemma finishes_skip:
  "BYTE_TYPE enc c \<in> {BT_EQUALS, BT_COLON} \<Longrightarrow> finishes enc b M p (ptr + 1) s g \<Longrightarrow> finishes enc b M p ptr (c # s) g"
  by (erule finishes_Cons) (auto simp: Let_def)

lemma outside_same: "ga_state g = OtherSt \<Longrightarrow> g\<lparr> ga_state := OtherSt \<rparr> = g"
  by (cases g) simp

lemma finishes_space:
  "is_space enc c \<Longrightarrow> ga_state g \<noteq> InValue \<Longrightarrow> finishes enc b M p (ptr + 1) s (g\<lparr> ga_state := OtherSt \<rparr>)
     \<Longrightarrow> finishes enc b M p ptr (c # s) g"
  by (erule finishes_Cons; cases "ga_state g")
    (auto simp: is_space_def Let_def at_blank_def at_line_end_def outside_same)

lemma finishes_end:
  "BYTE_TYPE enc c \<in> {BT_GT, BT_SOL} \<Longrightarrow> ga_state g \<noteq> InValue \<Longrightarrow> att_inv M ptr g
     \<Longrightarrow> finishes enc (0 < nAtts g) M p ptr (c # r @ p) g"
  unfolding finishes_def by (intro exI [of _ "c # r"] exI [of _ g]) (auto simp: Let_def intro: att_inv_mono)

lemma finishes_quote:
  "BYTE_TYPE enc c = q \<Longrightarrow> q \<in> {BT_QUOT, BT_APOS} \<Longrightarrow> finishes enc b M p (ptr + 1) s (at_quote q ptr g)
     \<Longrightarrow> finishes enc b M p ptr (c # s) g"
  by (erule finishes_Cons) (auto simp: Let_def)

text \<open>The quotes of a value: the first opens it, the next of its kind completes the entry.\<close>

lemma quote_opens:
  assumes "ga_state g \<noteq> InValue" "named ptr g" "att_inv M ptr g" "q \<in> {BT_QUOT, BT_APOS}"
  shows "agrees (InAttValue q) (ptr + 1) (at_quote q ptr g) \<and> att_inv M (ptr + 1) (at_quote q ptr g)"
  using assms att_inv_mono [OF upd_att_inv [THEN iffD2, OF assms(3)]]
  by (auto simp: at_quote_def valued_def named_def upd_att_now att_inv_def upd_att_same less_SucI)

lemma quote_closes:
  assumes "ga_state g = InValue" "ga_open g = q" "valued ptr g" "att_inv M ptr g"
  shows "agrees AfterValue (ptr + 1) (at_quote q ptr g) \<and> att_inv M (ptr + 1) (at_quote q ptr g)"
proof -
  let ?g = "at_quote q ptr g"
  have g: "ga_state ?g = OtherSt" "nAtts ?g = nAtts g + 1" "length (atts ?g) = length (atts g)"
    using assms(1,2) by (simp_all add: at_quote_def)
  have "entry_ok (atts ?g ! i) (ptr + 1)" if "i < nAtts g + 1" "i < M" for i
  proof (cases "i = nAtts g")
    case True
    then show ?thesis using assms that(2)
      by (simp add: at_quote_def upd_att_def att_inv_def valued_def entry_ok_def)
  next
    case False
    then have "atts ?g ! i = atts g ! i" using assms(1,2) that(1) by (simp add: at_quote_def upd_att_def)
    then show ?thesis using att_inv_mono [OF assms(4), of "ptr + 1"] that False by (auto simp: att_inv_def)
  qed
  then show ?thesis using g assms(4) by (simp add: att_inv_def)
qed

lemma finishes_value_char:
  assumes st: "ga_state g = InValue" "BYTE_TYPE enc c \<notin> {BT_LEAD2, BT_LEAD3, BT_LEAD4, ga_open g}"
    and F: "\<And>g'. g' \<in> {g, upd_att (\<lambda>a. a\<lparr> normalized := False \<rparr>) g} \<Longrightarrow> finishes enc b M p (ptr + 1) s g'"
  shows "finishes enc b M p ptr (c # s) g"
proof -
  from F [of g] obtain q where q: "q \<noteq> []" "s = q @ p" by (auto simp: finishes_def)
  then obtain d q' where d: "q = d # q'" by (cases q) auto
  have "at_blank enc ptr c q g \<in> {Inr g, Inr (upd_att (\<lambda>a. a\<lparr> normalized := False \<rparr>) g)}"
    using st(1) by (auto simp: at_blank_def d)
  then obtain g' where g': "at_blank enc ptr c q g = Inr g'" "g' \<in> {g, upd_att (\<lambda>a. a\<lparr> normalized := False \<rparr>) g}"
    by blast
  have e: "at_line_end g = upd_att (\<lambda>a. a\<lparr> normalized := False \<rparr>) g" using st(1) by (simp add: at_line_end_def)
  have "at_quote (BYTE_TYPE enc c) ptr g = g" using st by (auto simp: at_quote_def)
  moreover have "start_name ptr g = g" using st(1) by (simp add: start_name_def)
  ultimately have "\<exists>h \<in> {g, upd_att (\<lambda>a. a\<lparr> normalized := False \<rparr>) g}.
    getatts_loop enc ptr (c # q) g = getatts_loop enc (ptr + 1) q h"
    using st g' e by (subst getatts_loop.simps(2)) (auto simp: Let_def simp del: getatts_loop.simps)
  then obtain h where h: "h \<in> {g, upd_att (\<lambda>a. a\<lparr> normalized := False \<rparr>) g}"
    "getatts_loop enc ptr (c # q) g = getatts_loop enc (ptr + 1) q h" by blast
  with F [OF h(1)] q show ?thesis unfolding finishes_def
    by (elim exE conjE) (rule exI [of _ "c # q"], simp del: getatts_loop.simps(2))
qed

lemma start_named:
  assumes "ga_state g = OtherSt" "att_inv M ptr g" "0 < n"
  shows "agrees (InAttName h) (ptr + n) (start_name ptr g) \<and> att_inv M (ptr + n) (start_name ptr g)"
  using assms att_inv_mono [OF upd_att_inv [THEN iffD2, OF assms(2)], of "ptr + n"]
  by (auto simp: start_name_def named_def upd_att_now att_inv_def)

text \<open>What the first pass accepts in each of its modes, the second pass finishes at the same place.\<close>

lemma accepted_step:
  assumes "st = invalid_cases enc s \<or> st = check_name_cases enc s \<or> st = check_nmstrt_cases enc s"
    and "(case st of Stop r \<Rightarrow> r | Move s' \<Rightarrow> h s' | Other \<Rightarrow> k) = (t, Some p)" "0 < t"
  obtains s' where "st = Move s'" "h s' = (t, Some p)" | "st = Other" "k = (t, Some p)"
proof (cases st)
  case (Stop r)
  with assms steps_Stop [of enc s r "{}"] show ?thesis by auto
qed (use assms(2) that in auto)

lemma empty_tag_accepted: "empty_tag tok s = (t, Some p) \<Longrightarrow> 0 < t \<Longrightarrow> t = tok \<and> s = CHR ''>'' # p"
  by (auto simp: empty_tag_def split: list.splits if_split_asm)

text \<open>A colon in a name, and the character behind it.\<close>

lemma colon_passes:
  assumes "BYTE_TYPE enc c = BT_COLON" "0 < t"
    and C: "(if had then (XML_TOK_INVALID, Some (c # s))
      else if s = [] then (XML_TOK_PARTIAL, None)
      else
        (case check_nmstrt_cases enc s of
           Stop r \<Rightarrow> r
         | Move s' \<Rightarrow> h s'
         | Other \<Rightarrow> (XML_TOK_INVALID, Some s))) = (t, Some p)"
  obtains q s' where "\<not> had" "s \<noteq> []" "check_nmstrt_cases enc s = Move s'" "h s' = (t, Some p)"
    "c # s = q @ s'" "passes enc q" "length s' < length s"
proof -
  from C assms(2) have n: "\<not> had" "s \<noteq> []"
    and k: "(case check_nmstrt_cases enc s of Stop r \<Rightarrow> r | Move s' \<Rightarrow> h s'
      | Other \<Rightarrow> (XML_TOK_INVALID, Some s)) = (t, Some p)"
    by (auto split: if_split_asm)
  from k assms(2) obtain s' where s': "check_nmstrt_cases enc s = Move s'" "h s' = (t, Some p)"
    by (rule accepted_step [OF disjI2 [OF disjI2 [OF refl]]]) (use assms(2) in auto)
  from step_passes [where f = "check_nmstrt_cases enc", OF n(2) s'(1), of enc]
  obtain q where q: "q \<noteq> []" "s = q @ s'" "passes enc q" by auto
  have "passes enc [c]" by (rule passes_char) (simp add: assms(1))
  from passes_append [OF this q(3)] show ?thesis using that [OF n s', of "c # q"] q by simp
qed

definition follows :: "encoding \<Rightarrow> nat \<Rightarrow> atts_mode \<Rightarrow> cstr \<Rightarrow> bool" where
  "follows enc M m s \<longleftrightarrow>
     (\<forall>t p ptr g. scan_atts enc m s = (t, Some p) \<longrightarrow> 0 < t \<longrightarrow> agrees m ptr g \<longrightarrow> att_inv M ptr g \<longrightarrow>
        finishes enc True M p ptr s g)"

lemma followsD:
  "follows enc M m s \<Longrightarrow> scan_atts enc m s = (t, Some p) \<Longrightarrow> 0 < t \<Longrightarrow> agrees m ptr g \<Longrightarrow> att_inv M ptr g \<Longrightarrow>
     finishes enc True M p ptr s g"
  by (simp add: follows_def)

text \<open>A character of a name, and the rest of the name.\<close>

lemma follows_name:
  assumes F: "follows enc M (InAttName h) s'" and q: "s = q @ s'" "passes enc q"
    and S: "scan_atts enc (InAttName h) s' = (t, Some p)" "0 < t"
    and g: "agrees (InAttName h') ptr g" "att_inv M ptr g"
  shows "finishes enc True M p ptr s g"
proof -
  have "agrees (InAttName h) (ptr + length q) g" using g(1) agrees_mono [of "InAttName h" ptr g] by simp
  moreover have "att_inv M (ptr + length q) g" using att_inv_mono [OF g(2)] by simp
  ultimately have "finishes enc True M p (ptr + length q) s' g" by (rule followsD [OF F S])
  then show ?thesis unfolding q(1) using finishes_passes [OF q(2)] g(1) by simp
qed

text \<open>The first character of the name of an attribute, between attributes.\<close>

lemma name_follows:
  assumes "s \<noteq> []" "check_nmstrt_cases enc s = Move s'"
    and F: "length s' < length s \<Longrightarrow> follows enc M (InAttName h) s'"
    and S: "scan_atts enc (InAttName h) s' = (t, Some p)" "0 < t"
    and g: "ga_state g = OtherSt" "att_inv M ptr g"
  shows "finishes enc True M p ptr s g"
proof -
  obtain q where q: "q \<noteq> []" "s = q @ s'"
    "\<And>ptr r g. getatts_loop enc ptr (q @ r) g = getatts_loop enc (ptr + length q) r (start_name ptr g)"
    using step_starts [OF assms(1,2)] by blast
  then have "follows enc M (InAttName h) s'" by (intro F) simp
  then have "finishes enc True M p (ptr + length q) s' (start_name ptr g)"
    by (rule followsD [OF _ S]) (use start_named [OF g(1,2), of "length q" h] q(1) in auto)
  then show ?thesis unfolding q(2) by (rule finishes_append) (rule q(3))
qed

lemma follows_InAttName:
  assumes IH: "\<And>s' m. length s' < length (c # s) \<Longrightarrow> follows enc M m s'"
  shows "follows enc M (InAttName h) (c # s)"
  unfolding follows_def
proof (intro allI impI)
  fix t p ptr g
  assume S: "scan_atts enc (InAttName h) (c # s) = (t, Some p)" "0 < t"
    and g: "agrees (InAttName h) ptr g" "att_inv M ptr g"
  have a: "ga_state g = InName" "att_inv M (ptr + 1) g" "\<And>m. agrees m ptr g \<Longrightarrow> agrees m (ptr + 1) g"
    using g att_inv_mono [OF g(2)] by (auto intro: agrees_mono)
  show "finishes enc True M p ptr (c # s) g"
  proof (cases rule: accepted_step [OF disjI2 [OF disjI1 [OF refl]] S(1) [unfolded scan_atts.simps] S(2)])
    case (1 s')
    from step_passes [where f = "check_name_cases enc", OF _ 1(1), of enc]
    obtain q where q: "q \<noteq> []" "c # s = q @ s'" "passes enc q" by auto
    from arg_cong [OF q(2), of length] q(1) have "follows enc M (InAttName h) s'" by (intro IH) (cases q; simp)
    from follows_name [OF this q(2,3) 1(2) S(2) g] show ?thesis .
  next
    case 2
    consider (colon) "BYTE_TYPE enc c = BT_COLON" | (space) "is_space enc c" | (equals) "BYTE_TYPE enc c = BT_EQUALS"
      using 2(2) S(2) by (auto split: if_split_asm)
    then show ?thesis
    proof cases
      case colon
      from 2(2) obtain q s' where s': "scan_atts enc (InAttName True) s' = (t, Some p)" "c # s = q @ s'" "passes enc q"
        "length s' < length s"
        by (simp only: colon simp_thms if_True) (erule colon_passes [OF colon S(2)])
      from follows_name [OF IH s'(2,3,1) S(2) g] s'(4) show ?thesis by simp
    next
      case space
      then have k: "scan_atts enc BeforeEquals s = (t, Some p)" using 2(2) by (auto simp: is_space_def)
      have "finishes enc True M p (ptr + 1) s (g\<lparr> ga_state := OtherSt \<rparr>)"
        by (rule followsD [OF IH k S(2)]) (use a g in \<open>auto simp: named_def att_inv_def\<close>)
      then show ?thesis using finishes_space [OF space] a(1) by simp
    next
      case equals
      then have k: "scan_atts enc AfterEquals s = (t, Some p)" using 2(2) by (auto simp: is_space_def)
      have "finishes enc True M p (ptr + 1) s g"
        by (rule followsD [OF IH k S(2)]) (use a g in \<open>auto simp: named_def\<close>)
      then show ?thesis using finishes_skip equals by simp
    qed
  qed
qed

lemma follows_BeforeEquals:
  assumes IH: "\<And>s' m. length s' < length (c # s) \<Longrightarrow> follows enc M m s'"
  shows "follows enc M BeforeEquals (c # s)"
  unfolding follows_def
proof (intro allI impI)
  fix t p ptr g
  assume S: "scan_atts enc BeforeEquals (c # s) = (t, Some p)" "0 < t"
    and g: "agrees BeforeEquals ptr g" "att_inv M ptr g"
  show "finishes enc True M p ptr (c # s) g"
  proof (cases "BYTE_TYPE enc c = BT_EQUALS")
    case True
    have "finishes enc True M p (ptr + 1) s g"
      by (rule followsD [OF IH, of s AfterEquals]) (use S True g att_inv_mono [OF g(2)] in \<open>auto simp: named_def\<close>)
    then show ?thesis using finishes_skip True by simp
  next
    case False
    with S have sp: "is_space enc c" by (auto split: if_split_asm)
    have "finishes enc True M p (ptr + 1) s (g\<lparr> ga_state := OtherSt \<rparr>)"
      by (rule followsD [OF IH, of s BeforeEquals])
        (use S False sp g att_inv_mono [OF g(2)] in \<open>auto simp: named_def att_inv_def entry_ok_def\<close>)
    then show ?thesis using finishes_space [OF sp] g(1) by simp
  qed
qed

lemma follows_AfterEquals:
  assumes IH: "\<And>s' m. length s' < length (c # s) \<Longrightarrow> follows enc M m s'"
  shows "follows enc M AfterEquals (c # s)"
  unfolding follows_def
proof (intro allI impI)
  fix t p ptr g
  assume S: "scan_atts enc AfterEquals (c # s) = (t, Some p)" "0 < t"
    and g: "agrees AfterEquals ptr g" "att_inv M ptr g"
  show "finishes enc True M p ptr (c # s) g"
  proof (cases "BYTE_TYPE enc c \<in> {BT_QUOT, BT_APOS}")
    case True
    have "finishes enc True M p (ptr + 1) s (at_quote (BYTE_TYPE enc c) ptr g)"
      by (rule followsD [OF IH, of s "InAttValue (BYTE_TYPE enc c)"])
        (use S True g quote_opens [of g ptr M "BYTE_TYPE enc c"] in \<open>auto simp del: agrees.simps(4)\<close>)
    then show ?thesis using finishes_quote [OF refl True] by simp
  next
    case False
    with S have sp: "is_space enc c" by (auto split: if_split_asm)
    have "finishes enc True M p (ptr + 1) s (g\<lparr> ga_state := OtherSt \<rparr>)"
      by (rule followsD [OF IH, of s AfterEquals])
        (use S False sp g att_inv_mono [OF g(2)] in \<open>auto simp: named_def att_inv_def entry_ok_def\<close>)
    then show ?thesis using finishes_space [OF sp] g(1) by simp
  qed
qed

text \<open>
  A character of a value that does not end it: a sequence the second pass passes, or one byte, behind
  which such a sequence may follow when it starts a reference.
\<close>

lemma value_step:
  assumes enc: "enc \<in> utf8_encodings"
    and S: "scan_atts enc (InAttValue q) (c # s) = (t, Some p)" "0 < t" and n: "BYTE_TYPE enc c \<noteq> q"
  obtains (seq) r s' where "r \<noteq> []" "c # s = r @ s'" "passes enc r" "scan_atts enc (InAttValue q) s' = (t, Some p)"
    | (byte) r s' where "BYTE_TYPE enc c \<notin> {BT_LEAD2, BT_LEAD3, BT_LEAD4}" "s = r @ s'" "passes enc r"
        "scan_atts enc (InAttValue q) s' = (t, Some p)"
proof (cases rule: accepted_step [OF disjI1 [OF refl] S(1) [unfolded scan_atts.simps if_not_P [OF n]] S(2)])
  case (1 s')
  from step_passes [where f = "invalid_cases enc", OF _ 1(1), of enc] seq [OF _ _ _ 1(2)] show thesis by auto
next
  case 2
  have l: "BYTE_TYPE enc c \<notin> {BT_LEAD2, BT_LEAD3, BT_LEAD4}"
    using 2(1) by (auto simp: invalid_cases_def lead_step_def Let_def split: if_split_asm)
  show thesis
  proof (cases "BYTE_TYPE enc c = BT_AMP")
    case True
    with 2(2) S(2) obtain tok s' where s': "scanRef enc s = (tok, Some s')" "0 < tok"
      "scan_atts enc (InAttValue q) s' = (t, Some p)"
      by (auto split: prod.splits if_split_asm option.splits)
    from scanRef_passes [OF enc s'(1,2)] byte [OF l _ _ s'(3)] show thesis by blast
  next
    case False
    with 2(2) S(2) have "scan_atts enc (InAttValue q) s = (t, Some p)" by (auto split: if_split_asm)
    then show thesis by (rule byte [OF l _ passes_Nil, of s, simplified])
  qed
qed

lemma follows_InAttValue:
  assumes enc: "enc \<in> utf8_encodings"
    and IH: "\<And>s' m. length s' < length (c # s) \<Longrightarrow> follows enc M m s'"
  shows "follows enc M (InAttValue q) (c # s)"
  unfolding follows_def
proof (intro allI impI)
  fix t p ptr g
  assume S: "scan_atts enc (InAttValue q) (c # s) = (t, Some p)" "0 < t"
    and g: "agrees (InAttValue q) ptr g" "att_inv M ptr g"
  have st: "ga_state g = InValue" "ga_open g = q" "q \<in> {BT_QUOT, BT_APOS}" "valued ptr g" using g(1) by auto
  have inside: "finishes enc True M p (ptr + n) (r @ s') g'"
    if "scan_atts enc (InAttValue q) s' = (t, Some p)" "n + length (r @ s') = length (c # s)" "0 < n + length r"
      "g' \<in> {g, upd_att (\<lambda>a. a\<lparr> normalized := False \<rparr>) g}" "passes enc r" for n r s' g'
  proof -
    have "agrees (InAttValue q) (ptr + n + length r) g'" "att_inv M (ptr + n + length r) g'"
      using that(4) g agrees_mono [of "InAttValue q" ptr g'] att_inv_mono [of M ptr g']
        not_normalized [of "InAttValue q" ptr g] by (auto simp: upd_att_inv simp del: agrees.simps)
    moreover have "length s' < length (c # s)" using that(2,3) by (simp only: length_append)
    ultimately have "finishes enc True M p (ptr + n + length r) s' g'" using followsD [OF IH that(1) S(2)] by blast
    then show ?thesis by (rule finishes_passes [OF that(5), rotated]) (use that(4) st(1) in auto)
  qed
  show "finishes enc True M p ptr (c # s) g"
  proof (cases "BYTE_TYPE enc c = q")
    case True
    have "finishes enc True M p (ptr + 1) s (at_quote q ptr g)"
      by (rule followsD [OF IH, of s AfterValue])
        (use S True g quote_closes [OF st(1,2,4) g(2)] in \<open>auto simp del: agrees.simps(5)\<close>)
    then show ?thesis using finishes_quote [OF True st(3)] by simp
  next
    case False
    from enc S False show ?thesis
    proof (cases rule: value_step)
      case (seq r s')
      from inside [OF seq(4), of 0 r g] seq arg_cong [OF seq(2), of length] show ?thesis by simp
    next
      case (byte r s')
      have "BYTE_TYPE enc c \<notin> {BT_LEAD2, BT_LEAD3, BT_LEAD4, ga_open g}" using byte(1) False st(2) by simp
      then show ?thesis by (rule finishes_value_char [OF st(1)]) (use inside [OF byte(4), of 1 r] byte(2,3) in simp)
    qed
  qed
qed

lemma follows_AfterValue:
  assumes IH: "\<And>s' m. length s' < length (c # s) \<Longrightarrow> follows enc M m s'"
  shows "follows enc M AfterValue (c # s)"
  unfolding follows_def
proof (intro allI impI)
  fix t p ptr g
  assume S: "scan_atts enc AfterValue (c # s) = (t, Some p)" "0 < t"
    and g: "agrees AfterValue ptr g" "att_inv M ptr g"
  consider (space) "is_space enc c" | (ends) r where "BYTE_TYPE enc c \<in> {BT_GT, BT_SOL}" "s = r @ p"
    using S by (auto split: if_split_asm dest: empty_tag_accepted)
  then show "finishes enc True M p ptr (c # s) g"
  proof cases
    case space
    have "finishes enc True M p (ptr + 1) s (g\<lparr> ga_state := OtherSt \<rparr>)"
      by (rule followsD [OF IH, of s NextAtt])
        (use S space g att_inv_mono [OF g(2)] in \<open>auto simp: att_inv_def entry_ok_def\<close>)
    then show ?thesis using finishes_space [OF space] g(1) by simp
  next
    case ends
    then show ?thesis using finishes_end [OF ends(1), of g M ptr p r] g by auto
  qed
qed

lemma follows_NextAtt:
  assumes IH: "\<And>s' m. length s' < length (c # s) \<Longrightarrow> follows enc M m s'"
  shows "follows enc M NextAtt (c # s)"
  unfolding follows_def
proof (intro allI impI)
  fix t p ptr g
  assume S: "scan_atts enc NextAtt (c # s) = (t, Some p)" "0 < t"
    and g: "agrees NextAtt ptr g" "att_inv M ptr g"
  show "finishes enc True M p ptr (c # s) g"
  proof (cases rule: accepted_step [OF disjI2 [OF disjI2 [OF refl]] S(1) [unfolded scan_atts.simps] S(2)])
    case (1 s')
    then show ?thesis using name_follows [OF _ 1(1) IH 1(2) S(2)] g by simp
  next
    case 2
    consider (space) "is_space enc c" | (ends) r where "BYTE_TYPE enc c \<in> {BT_GT, BT_SOL}" "s = r @ p"
      using 2(2) S(2) by (auto split: if_split_asm dest: empty_tag_accepted)
    then show ?thesis
    proof cases
      case space
      then have k: "scan_atts enc NextAtt s = (t, Some p)" using 2(2) by simp
      have "finishes enc True M p (ptr + 1) s (g\<lparr> ga_state := OtherSt \<rparr>)"
        by (rule followsD [OF IH k S(2)]) (use g att_inv_mono [OF g(2)] in \<open>auto simp: att_inv_def entry_ok_def\<close>)
      then show ?thesis using finishes_space [OF space] g(1) by simp
    next
      case ends
      then show ?thesis using finishes_end [OF ends(1), of g M ptr p r] g by auto
    qed
  qed
qed

lemma follows_all: "enc \<in> utf8_encodings \<Longrightarrow> follows enc M m s"
proof (induction "length s" arbitrary: m s rule: less_induct)
  case less
  show ?case
  proof (cases s)
    case Nil
    then show ?thesis by (simp add: follows_def)
  next
    case (Cons c s1)
    from less show ?thesis unfolding Cons
      by (cases m) (simp_all only: follows_InAttName follows_BeforeEquals follows_AfterEquals
        follows_InAttValue follows_AfterValue follows_NextAtt)
  qed
qed

text \<open>The element name and the blanks behind it, before the first attribute.\<close>

lemma lt_spaces_finishes:
  assumes enc: "enc \<in> utf8_encodings"
  shows "lt_spaces enc s = (t, Some p) \<Longrightarrow> 0 < t \<Longrightarrow> ga_state g = OtherSt \<Longrightarrow> nAtts g = 0 \<Longrightarrow> length (atts g) = M \<Longrightarrow>
    finishes enc (t \<in> {XML_TOK_START_TAG_WITH_ATTS, XML_TOK_EMPTY_ELEMENT_WITH_ATTS}) M p ptr s g"
  using enc
proof (induction enc s arbitrary: ptr rule: lt_spaces.induct)
  case (2 enc c s)
  have inv: "att_inv M n g" for n using 2(5,6) by (simp add: att_inv_def)
  show ?case
  proof (cases rule: accepted_step [OF disjI2 [OF disjI2 [OF refl]] 2(2) [unfolded lt_spaces.simps] 2(3)])
    case (1 s')
    have "t \<in> {XML_TOK_START_TAG_WITH_ATTS, XML_TOK_EMPTY_ELEMENT_WITH_ATTS}"
      using reach_scan_atts [of s' enc "InAttName False"] 1(2) 2(3) by auto
    then show ?thesis using name_follows [OF _ 1(1) follows_all [OF 2(7)] 1(2) 2(3) 2(4) inv] by simp
  next
    case o: 2
    consider (space) "is_space enc c" "lt_spaces enc s = (t, Some p)"
      | (ends) r where "BYTE_TYPE enc c \<in> {BT_GT, BT_SOL}" "s = r @ p" "t \<in> {XML_TOK_START_TAG_NO_ATTS, XML_TOK_EMPTY_ELEMENT_NO_ATTS}"
      using o(2) 2(3) by (auto split: if_split_asm dest: empty_tag_accepted)
    then show ?thesis
    proof cases
      case space
      then have "BYTE_TYPE enc c \<noteq> BT_GT" "BYTE_TYPE enc c \<noteq> BT_SOL" by (auto simp: is_space_def)
      from 2(1) [OF o(1) this space(1,2) 2(3-6) 2(7), of "ptr + 1"]
      have "finishes enc (t \<in> {XML_TOK_START_TAG_WITH_ATTS, XML_TOK_EMPTY_ELEMENT_WITH_ATTS}) M p (ptr + 1) s g" by simp
      then show ?thesis using finishes_space [OF space(1), of g] 2(4) outside_same [OF 2(4)] by simp
    next
      case ends
      then show ?thesis using finishes_end [OF ends(1), of g M ptr p r] 2(4,5) inv by auto
    qed
  qed
qed simp

lemma lt_name_finishes:
  assumes enc: "enc \<in> utf8_encodings"
  shows "lt_name enc h s = (t, Some p) \<Longrightarrow> 0 < t \<Longrightarrow> ga_state g = InName \<Longrightarrow> nAtts g = 0 \<Longrightarrow> length (atts g) = M \<Longrightarrow>
    finishes enc (t \<in> {XML_TOK_START_TAG_WITH_ATTS, XML_TOK_EMPTY_ELEMENT_WITH_ATTS}) M p ptr s g"
  using enc
proof (induction enc h s arbitrary: ptr rule: lt_name.induct)
  case (2 enc h c s)
  let ?b = "t \<in> {XML_TOK_START_TAG_WITH_ATTS, XML_TOK_EMPTY_ELEMENT_WITH_ATTS}"
  note g = 2(4-7)
  show ?case
  proof (cases rule: accepted_step [OF disjI2 [OF disjI1 [OF refl]] 2(3) [unfolded lt_name.simps] 2(4)])
    case (1 s')
    from step_passes [where f = "check_name_cases enc", OF _ 1(1), of enc]
    obtain q where q: "c # s = q @ s'" "passes enc q" by auto
    show ?thesis unfolding q(1) using finishes_passes [OF q(2)] 2(1) [OF 1 g 2(8)] g(2) by simp
  next
    case o: 2
    consider (colon) "BYTE_TYPE enc c = BT_COLON" | (space) "is_space enc c" "lt_spaces enc s = (t, Some p)"
      | (ends) r where "BYTE_TYPE enc c \<in> {BT_GT, BT_SOL}" "s = r @ p" "\<not> ?b"
      using o(2) g(1) by (auto split: if_split_asm dest: empty_tag_accepted)
    then show ?thesis
    proof cases
      case colon
      from o(2) obtain q s' where s': "\<not> h" "s \<noteq> []" "check_nmstrt_cases enc s = Move s'"
        "lt_name enc True s' = (t, Some p)" "c # s = q @ s'" "passes enc q"
        by (simp only: colon simp_thms if_True) (erule colon_passes [OF colon g(1)])
      show ?thesis unfolding s'(5) using finishes_passes [OF s'(6)] 2(2) [OF o(1) colon s'(1-4) g 2(8)] g(2) by simp
    next
      case space
      from lt_spaces_finishes [OF 2(8) space(2) g(1), of "g\<lparr> ga_state := OtherSt \<rparr>"] g(2-4)
      show ?thesis by (intro finishes_space [OF space(1)]) auto
    next
      case ends
      then show ?thesis using finishes_end [OF ends(1), of g M ptr p r] g by (auto simp: att_inv_def)
    qed
  qed
qed simp

lemma reach_not_in:
  "reach T s r \<Longrightarrow> \<forall>x \<in> T \<union> {XML_TOK_INVALID, XML_TOK_PARTIAL, XML_TOK_PARTIAL_CHAR}. x \<notin> S \<Longrightarrow> t \<in> S \<Longrightarrow> fst r \<noteq> t"
  unfolding reach_def by blast

lemma start_tag_lt:
  assumes "contentTok enc s = (t, Some p)" "t \<in> start_tokens"
  obtains c s1 where "s = c # s1" "scanLt enc s1 = (t, Some p)"
proof -
  obtain c s1 where s: "s = c # s1" using assms(1,2) by (cases s) (auto simp: contentTok_def)
  have "BYTE_TYPE enc c = BT_LT"
  proof (rule ccontr)
    assume n: "BYTE_TYPE enc c \<noteq> BT_LT"
    let ?T = "{XML_TOK_ENTITY_REF, XML_TOK_CHAR_REF, XML_TOK_DATA_CHARS, XML_TOK_DATA_NEWLINE, XML_TOK_NONE,
      XML_TOK_TRAILING_CR, XML_TOK_TRAILING_RSQB}"
    have "reach ?T (c # u) (scanRef enc u)" "reach ?T (c # u) (content_chars enc u)" "reach ?T u (content_chars enc u)" for c u
      by (rule reach_Cons_mono reach_widen, rule reach_scanRef reach_content_chars, simp)+
    then have "reach ?T s (contentTok enc s)"
      unfolding s contentTok_def list.case if_not_P [OF n] by (auto simp: suffix_Cons intro!: reach_intros)
    then have "fst (contentTok enc s) \<noteq> t" by (rule reach_not_in [OF _ _ assms(2)]) simp
    then show False using assms(1) by simp
  qed
  with s that show ?thesis using assms(1) by (simp add: contentTok_def)
qed

lemma start_tag_named:
  assumes "enc \<in> utf8_encodings" "contentTok enc s = (t, Some p)" "t \<in> start_tokens"
  obtains c s1 s' where "s = c # s1" "s1 \<noteq> []" "check_nmstrt_cases enc s1 = Move s'" "lt_name enc False s' = (t, Some p)"
proof -
  obtain c s1 where s: "s = c # s1" and L: "scanLt enc s1 = (t, Some p)" using start_tag_lt [OF assms(2,3)] .
  then obtain d s2 where s1: "s1 = d # s2" using assms(3) by (cases s1) (auto simp: scanLt_def)
  have M: "fst (scanComment enc u) \<noteq> t" "fst (scanCdataSection enc u) \<noteq> t" "fst (scanPi enc u) \<noteq> t"
    "fst (scanEndTag enc u) \<noteq> t" for u
    by (rule reach_not_in [OF _ _ assms(3)], rule reach_scanComment reach_scanCdataSection reach_scanPi
        reach_scanEndTag, simp)+
  have I: "XML_TOK_PARTIAL \<noteq> t" "XML_TOK_INVALID \<noteq> t" using assms(3) by auto
  show ?thesis
  proof (cases "check_nmstrt_cases enc s1")
    case (Stop r)
    have "fst r \<noteq> t" by (rule reach_not_in [OF steps_Stop(3) [OF Stop, of "{}"] _ assms(3)]) simp
    with L Stop show ?thesis by (simp add: scanLt_def s1)
  next
    case (Move s')
    with L that [OF s _ Move] show ?thesis by (auto simp: scanLt_def s1)
  next
    case Other
    then have "fst (scanLt enc s1) \<noteq> t" unfolding scanLt_def s1 by (simp add: M I split: list.split)
    with L show ?thesis by simp
  qed
qed

section \<open>Start tags\<close>

text \<open>
  C34. On every start tag and every empty-element tag that \<open>contentTok\<close> accepts in UTF-8, \<open>getAtts\<close> ends, although
  it is not told where the tag ends, and reads no byte behind the tag. It counts attributes exactly when
  the token says that the tag has some. It stores at most \<^verbatim>\<open>attsMax\<close> entries, and each has its name before
  its value and its value inside the tag.
\<close>

theorem attributes_in_tag:
  assumes "enc \<in> utf8_encodings" "contentTok enc s = (t, Some p)"
    "t \<in> {XML_TOK_START_TAG_WITH_ATTS, XML_TOK_EMPTY_ELEMENT_WITH_ATTS,
      XML_TOK_START_TAG_NO_ATTS, XML_TOK_EMPTY_ELEMENT_NO_ATTS}"
  shows "\<exists>tag n as. s = tag @ p \<and> getAtts enc tag ar = Inr (n, as) \<and> length as = length ar
    \<and> (0 < n \<longleftrightarrow> t = XML_TOK_START_TAG_WITH_ATTS \<or> t = XML_TOK_EMPTY_ELEMENT_WITH_ATTS)
    \<and> (\<forall>i < min n (length ar). att_name (as ! i) < valuePtr (as ! i) \<and> valuePtr (as ! i) \<le> valueEnd (as ! i)
          \<and> valueEnd (as ! i) < length tag)"
proof -
  let ?g = "\<lparr> ga_state = InName, nAtts = 0, ga_open = BT_NONXML, atts = ar \<rparr>"
  obtain c s1 s' where s: "s = c # s1" "s1 \<noteq> []" "check_nmstrt_cases enc s1 = Move s'"
    "lt_name enc False s' = (t, Some p)" using start_tag_named [OF assms] .
  from step_passes [where f = "check_nmstrt_cases enc", OF s(2,3), of enc]
  obtain q where q: "s1 = q @ s'" "passes enc q" by auto
  have "0 < t" using assms(3) by auto
  define some where "some \<longleftrightarrow> t \<in> {XML_TOK_START_TAG_WITH_ATTS, XML_TOK_EMPTY_ELEMENT_WITH_ATTS}"
  from lt_name_finishes [OF assms(1) s(4) \<open>0 < t\<close>, of ?g]
  have "finishes enc some (length ar) p (1 + length q) s' ?g" by (simp add: some_def)
  from finishes_passes [OF q(2) _ this] obtain r g' where r: "s1 = r @ p" "getatts_loop enc 1 r ?g = Inr g'"
    "0 < nAtts g' \<longleftrightarrow> some"
    "att_inv (length ar) (1 + length r) g'" by (auto simp: finishes_def q(1))
  then show ?thesis
    by (intro exI [of _ "c # r"] exI [of _ "nAtts g'"] exI [of _ "atts g'"])
      (simp add: s(1) getAtts_def att_inv_def entry_ok_def some_def)
qed

theorem attributes_in_tag_witness:
  "\<exists>tag n as. ''<a b = '' @ [CHR 0x27, CHR ''>'', CHR 0x27] @ '' c='' @ [CHR 0x22] @ ''&lt; x'' @ [CHR 0x22] @ ''/>rest'' = tag @ ''rest''
    \<and> getAtts utf8_encoding tag [undefined] = Inr (n, as) \<and> length as = length [undefined :: attribute]
    \<and> (0 < n \<longleftrightarrow> XML_TOK_EMPTY_ELEMENT_WITH_ATTS = XML_TOK_START_TAG_WITH_ATTS
        \<or> XML_TOK_EMPTY_ELEMENT_WITH_ATTS = XML_TOK_EMPTY_ELEMENT_WITH_ATTS)
    \<and> (\<forall>i < min n (length [undefined :: attribute]). att_name (as ! i) < valuePtr (as ! i)
          \<and> valuePtr (as ! i) \<le> valueEnd (as ! i) \<and> valueEnd (as ! i) < length tag)"
proof (rule attributes_in_tag)
  show "utf8_encoding \<in> utf8_encodings" by (simp add: utf8_encodings_def)
  show "contentTok utf8_encoding (''<a b = '' @ [CHR 0x27, CHR ''>'', CHR 0x27] @ '' c='' @ [CHR 0x22] @ ''&lt; x'' @ [CHR 0x22]
      @ ''/>rest'') = (XML_TOK_EMPTY_ELEMENT_WITH_ATTS, Some ''rest'')" by code_simp
qed simp

end
