(* ===== verification/Spec2Isabelle.thy ===== *)
theory Spec2Isabelle
  imports Slices RuneStrings HashTable SipHash Arc4random Mdl Resume Connections XmlRole XmlAtts
begin

text \<open>
  libsd reads system-dynamics models from XMILE files, simulates them with Euler's method and hands
  out the results; the program \<^verbatim>\<open>mdl\<close> prints them. This development models the library's own code
  and the parts of libutf it uses.

  \<^bold>\<open>Parts and how they interact.\<close> \<open>sd_project_open\<close> (\<^verbatim>\<open>project.c\<close>) runs the XML parser over a file; its
  callbacks (\<^verbatim>\<open>xml.c\<close>) build a tree of node builders, from which the models, variables, tables and
  simulation specifications of the file are made. \<open>sd_sim_new\<close> (\<^verbatim>\<open>sim.c\<close>) looks the model up, parses
  the equation of every variable (\<^verbatim>\<open>parse.c\<close>), resolves the names, assigns offsets and sorts the
  variables into run lists; \<open>sd_sim_run_to_end\<close> then computes one row of doubles per step in a slab.
  Names are put into canonical form by helpers of \<^verbatim>\<open>util.c\<close>, on UTF-8 text (\<^verbatim>\<open>libutf\<close>). The hash
  table (\<^verbatim>\<open>hash_table.c\<close>), SipHash (\<^verbatim>\<open>siphash.c\<close>) and the random number generator that keys the table
  (\<^verbatim>\<open>compat/arc4random.c\<close>) are parts of the library on their own. The XML parser is expat
  (\<^verbatim>\<open>expat/lib\<close>), kept in the repository: its driver (\<^verbatim>\<open>xmlparse.c\<close>) takes tokens from the scanner
  (\<^verbatim>\<open>xmltok.c\<close>, \<^verbatim>\<open>xmltok_impl.c\<close>), passes those of the prolog through a state machine
  (\<^verbatim>\<open>xmlrole.c\<close>) and calls back.

  \<^bold>\<open>Theories.\<close>
  \<^item> \<^verbatim>\<open>Prelude\<close>: results that may be a fault (\<open>run\<close>: out of bounds, null pointer, undefined
    conversion, out of fuel), the error codes of \<^verbatim>\<open>sd.h\<close>, byte strings.
  \<^item> \<^verbatim>\<open>Slices\<close>: growable arrays (\<^verbatim>\<open>util.c\<close>). Appending and extending refine lists.
  \<^item> \<^verbatim>\<open>Utf\<close>, \<^verbatim>\<open>RuneTables\<close>, \<^verbatim>\<open>RuneTypes\<close>: \<^verbatim>\<open>rune.c\<close> and \<^verbatim>\<open>runetype.c\<close>. Round trip, shortest forms;
    the binary searches are table membership.
  \<^item> \<^verbatim>\<open>UtfStrings\<close>, \<^verbatim>\<open>RuneStrings\<close>: \<^verbatim>\<open>utf*.c\<close> and \<^verbatim>\<open>runestr*.c\<close>, the string functions of libutf (the library
    calls none of them). On texts of whole runes and on strings with room they do on lists what they say.
  \<^item> \<^verbatim>\<open>Doubles\<close>, \<^verbatim>\<open>Strtod\<close>: the C types \<open>double\<close> and \<open>float\<close> with correct rounding, and the
    conversions of the C library the code uses. Integers below \<open>2^53\<close> are exact.
  \<^item> \<^verbatim>\<open>CStrings\<close>: \<open>strrepl\<close>, \<open>strtrim\<close>, \<open>utf8_tolower\<close>, \<open>canonicalize\<close>, \<open>lookup\<close> (\<^verbatim>\<open>util.c\<close>) on
    buffers of bytes. Each is compared with a direct definition, its faults are characterised.
  \<^item> \<^verbatim>\<open>Lexer\<close>, \<^verbatim>\<open>Parser\<close>: \<^verbatim>\<open>parse.c\<close>. The lexer refines a tokenizer on rune lists, the recursive
    descent inverts a printer of trees, and it always returns.
  \<^item> \<^verbatim>\<open>Project\<close>, \<^verbatim>\<open>Xml\<close>, \<^verbatim>\<open>Document\<close>: the data of \<^verbatim>\<open>sd_internal.h\<close>, \<^verbatim>\<open>project.c\<close> and \<^verbatim>\<open>xml.c\<close>. The stack of
    builders computes a recursion over the document, and files are well-formed whatever the callbacks.
  \<^item> \<^verbatim>\<open>AVars\<close>, \<^verbatim>\<open>Runlists\<close>, \<^verbatim>\<open>Evaluate\<close>, \<^verbatim>\<open>Sim\<close>: \<^verbatim>\<open>sim.c\<close>. The objects of a simulation live in a heap of
    addresses; building and naming, dependency sort, evaluation of equations, the run loop and the
    reading of results.
  \<^item> \<^verbatim>\<open>Build\<close>, \<^verbatim>\<open>Names\<close>, \<^verbatim>\<open>Run\<close>: what a simulation of a model without submodules computes. Layout and
    resolved names after building; the first row solves the model; the saved rows are those of the
    Euler trajectory; when the run returns and when it writes behind the slab; names and series.
  \<^item> \<^verbatim>\<open>Example\<close>: a model of one stock and one flow, evaluated; the theorems are applied to it.
  \<^item> \<^verbatim>\<open>HashTable\<close>, \<^verbatim>\<open>SipHash\<close>: \<^verbatim>\<open>hash_table.c\<close> refines a finite map for insertions and look-ups (and
    not for removals), \<^verbatim>\<open>siphash.c\<close> is SipHash-2-4.
  \<^item> \<^verbatim>\<open>Chacha\<close>, \<^verbatim>\<open>Arc4random\<close>: \<^verbatim>\<open>compat/chacha_private.h\<close> and \<^verbatim>\<open>compat/arc4random.c\<close> with
    \<^verbatim>\<open>arc4random_linux.h\<close>. The key stream by blocks of a 64-bit counter; the generator never faults,
    wipes what it hands out, reseeds exactly when it should and hands out one stream in between.
  \<^item> \<^verbatim>\<open>Resume\<close>: any simulation, submodules included. Running in pieces is running at once, and a reset
    after any run starts over.
  \<^item> \<^verbatim>\<open>Connections\<close>: simulations with submodules and connections. Every value is read inside the slab, in
    the row asked for; what a connection reads when its offset was copied too early, and when the run lists
    compute its source too late. These two faults keep the trajectory theorems from holding there.
  \<^item> \<^verbatim>\<open>XmlTokens\<close>, \<^verbatim>\<open>XmlRole\<close>: the tokens and roles of expat and \<^verbatim>\<open>xmlrole.c\<close>. The roles reported follow the
    grammar of the prolog; content models are read as a recursive descent would read them.
  \<^item> \<^verbatim>\<open>XmlEncoding\<close>, \<^verbatim>\<open>XmlTok\<close>, \<^verbatim>\<open>XmlLit\<close>: the tables, tests and conversions of \<^verbatim>\<open>xmltok.c\<close>, and the scanners of
    \<^verbatim>\<open>xmltok_impl.c\<close> for encodings with one byte per unit.
  \<^item> \<^verbatim>\<open>XmlScan\<close>, \<^verbatim>\<open>XmlChars\<close>: scanning is incremental, stays in bounds and progresses, for any encoding. In
    UTF-8 the character data delivered is the text of allowed characters that \<^verbatim>\<open>util.c\<close> and the lexer
    presuppose, and character references give allowed characters.
  \<^item> \<^verbatim>\<open>XmlAtts\<close>: the two passes over a start tag. \<open>getAtts\<close>, which is not told where the tag ends, follows
    \<open>scanAtts\<close> step by step and stays inside every tag that \<open>contentTok\<close> accepts.
  \<^item> \<^verbatim>\<open>Mdl\<close>: \<^verbatim>\<open>mdl.c\<close>, from the arguments to the printed table.

  \<^bold>\<open>Conventions.\<close> A C function that can fault returns a \<open>run\<close>; a pointer that may be null is an
  option; a function that changes an object returns it. Slabs, tables and buffers are lists read and
  written through \<open>aread\<close> and \<open>awrite\<close>, which fault outside of them. \<open>alloc\<close> says which allocations
  succeed where the code handles the failure; elsewhere allocations succeed.

  \<^bold>\<open>Bounds and fuel.\<close> Recursions that need not end in C carry a bound. \<open>parse_fuel\<close> is enough for
  every text (\<open>avar_eqn_parse_returns\<close>). \<open>depth_fuel\<close> is the size of the heap, which bounds the
  nesting of modules since a submodule has a larger address, and the depth of the dependency search
  since the path has no repetition. \<open>module_fuel\<close> is the number of models; models that contain each
  other make the C function recurse forever. The run loop passes at most once per step. Probing a
  hash table stops after 16 rounds as in the code. The loop of \<open>_rs_random_buf\<close> ends because a rekeyed
  buffer is never empty.

  \<^bold>\<open>Parameters.\<close> The callbacks of the XML parser and whether it ends well; \<open>pow\<close>; \<open>dirname\<close>; the
  random words a hash table is keyed with; entropy, memory and process identity for \<open>arc4random\<close>; the
  text printed for a NaN, whose sign is not modelled.

  \<^bold>\<open>Not modelled.\<close> \<^verbatim>\<open>xmlparse.c\<close>, the driver of expat, whose callbacks are taken as they are documented;
  of \<^verbatim>\<open>xmltok.c\<close> the UTF-16 encodings, encodings supplied by the application, the detection of the encoding
  and the XML declaration; expat's test and example programs. The lock of \<open>arc4random\<close> and its variants
  for other systems than Linux; \<^verbatim>\<open>test_sd.c\<close>, the test driver of the library. Releasing memory, the
  reference counts of simulations and builders, messages printed for unknown names, and concurrent use
  are left out. Except for those of \<^verbatim>\<open>Resume\<close> and \<^verbatim>\<open>Connections\<close>, the theorems on simulations are for
  root models without submodules and connections; the definitions cover both.
\<close>

end
